(* ===== verification/Prelude.thy ===== *)
theory Prelude
  imports Main "HOL-Library.Word"
begin

text \<open>
  Shared vocabulary of the development: the machine integers of the C code, its error codes,
  the outcome of allocations, and the generic lemmas on words that the components use.

  Integers keep their C width. \<open>size_t\<close> is 64 bits wide (LP64), so the sums that the code
  forms in \<open>size_t\<close> from 32-bit values cannot wrap and are written over \<open>nat\<close> with
  \<open>unat\<close>; everything the code stores in 32 bits is a \<open>u32\<close> and does wrap.

  Memory. Each call of \<open>malloc\<close>, \<open>calloc\<close> or \<open>realloc\<close> takes the next outcome from a
  list of booleans (\<open>heap\<close>); when the list is used up every further allocation succeeds. An
  arbitrary heap therefore stands for an arbitrary finite pattern of allocation failures, and
  the empty heap for a machine that never runs out of memory. \<open>free\<close> has no effect on later
  outcomes.
\<close>

unbundle bit_operations_syntax

type_synonym u8 = "8 word"
type_synonym u16 = "16 word"
type_synonym u32 = "32 word"
type_synonym u64 = "64 word"

section \<open>Error codes\<close>

text \<open>
  The negative \<open>errno\<close> values the modelled functions return; \<open>FAIL\<close> is the plain \<open>-1\<close>
  (\<open>SEPOL_ERR\<close>, \<open>STATUS_ERR\<close>, \<open>POLICYDB_ERROR\<close>). \<open>SEPOL_ENOMEM\<close>, \<open>SEPOL_EEXIST\<close> and
  \<open>SEPOL_ENOENT\<close> are defined in \<open>errcodes.h\<close> as the corresponding \<open>errno\<close> values.
\<close>

datatype errcode = ENOMEM | EINVAL | EOVERFLOW | EEXIST | ENOENT | ERANGE | EACCES | EPERM | FAIL

type_synonym 'a result = "errcode + 'a"

definition bind_res :: "'a result \<Rightarrow> ('a \<Rightarrow> 'b result) \<Rightarrow> 'b result" where
  "bind_res r f = (case r of Inl e \<Rightarrow> Inl e | Inr x \<Rightarrow> f x)"

lemma bind_res_simps [simp]:
  "bind_res (Inl e) f = Inl e"
  "bind_res (Inr x) f = f x"
  by (simp_all add: bind_res_def)

lemma bind_res_Inr_iff: "bind_res r f = Inr y \<longleftrightarrow> (\<exists>x. r = Inr x \<and> f x = Inr y)"
  by (cases r) auto

lemma bind_res_Inl_iff:
  "bind_res r f = Inl e \<longleftrightarrow> r = Inl e \<or> (\<exists>x. r = Inr x \<and> f x = Inl e)"
  by (cases r) auto

lemma bind_res_cong [fundef_cong]:
  "r = r' \<Longrightarrow> (\<And>x. r' = Inr x \<Longrightarrow> f x = f' x) \<Longrightarrow> bind_res r f = bind_res r' f'"
  by (cases r') auto

definition catch_res :: "errcode \<Rightarrow> 'a result \<Rightarrow> 'a result" where
  "catch_res e r = (case r of Inl _ \<Rightarrow> Inl e | Inr x \<Rightarrow> Inr x)"

lemma catch_res_simps [simp]:
  "catch_res e (Inl e') = Inl e"
  "catch_res e (Inr x) = Inr x"
  by (simp_all add: catch_res_def)

lemma catch_res_Inr_iff [simp]: "catch_res e r = Inr x \<longleftrightarrow> r = Inr x"
  by (cases r) auto

section \<open>Allocation\<close>

type_synonym heap = "bool list"

fun malloc :: "heap \<Rightarrow> bool \<times> heap" where
  "malloc [] = (True, [])"
| "malloc (ok # h) = (ok, h)"

definition mem_ok :: "heap \<Rightarrow> bool" where
  "mem_ok h \<longleftrightarrow> False \<notin> set h"

text \<open>
  \<open>outcome h r E P\<close> is the contract every allocating operation is proved to meet when it
  runs on the heap \<open>h\<close> and returns \<open>r\<close>: it fails with an error that \<open>E\<close> allows, or with
  \<open>ENOMEM\<close> because an allocation of \<open>h\<close> failed; or it succeeds with a value that satisfies
  \<open>P\<close>, and then it has not lost an outcome of the heap.
\<close>

definition outcome ::
  "heap \<Rightarrow> ('a \<times> heap) result \<Rightarrow> (errcode \<Rightarrow> bool) \<Rightarrow> ('a \<Rightarrow> bool) \<Rightarrow> bool" where
  "outcome h r E P \<longleftrightarrow> (case r of
       Inl e \<Rightarrow> E e \<or> e = ENOMEM \<and> \<not> mem_ok h
     | Inr (x, h') \<Rightarrow> P x \<and> (mem_ok h \<longrightarrow> mem_ok h'))"

abbreviation no_err :: "errcode \<Rightarrow> bool" where
  "no_err \<equiv> (\<lambda>_. False)"

lemma mem_ok_Nil [simp]: "mem_ok []"
  by (simp add: mem_ok_def)

lemma mem_ok_Cons [simp]: "mem_ok (ok # h) \<longleftrightarrow> ok \<and> mem_ok h"
  by (auto simp: mem_ok_def)

lemma mem_ok_malloc: "mem_ok h \<Longrightarrow> fst (malloc h) \<and> mem_ok (snd (malloc h))"
  by (cases h) auto

lemma malloc_okD: "malloc h = (ok, h') \<Longrightarrow> mem_ok h \<Longrightarrow> ok \<and> mem_ok h'"
  using mem_ok_malloc [of h] by simp

lemma outcome_Inr [simp]:
  "outcome h (Inr (x, h')) E P \<longleftrightarrow> P x \<and> (mem_ok h \<longrightarrow> mem_ok h')"
  by (simp add: outcome_def)

lemma outcome_Inl [simp]:
  "outcome h (Inl e) E P \<longleftrightarrow> E e \<or> e = ENOMEM \<and> \<not> mem_ok h"
  by (simp add: outcome_def)

lemma outcome_bind:
  assumes "outcome h r E Q"
    and "\<And>x h'. \<lbrakk>Q x; mem_ok h \<longrightarrow> mem_ok h'; r = Inr (x, h')\<rbrakk> \<Longrightarrow> outcome h' (f (x, h')) E P"
  shows "outcome h (bind_res r f) E P"
proof (cases r)
  case (Inl e)
  with assms(1) show ?thesis by simp
next
  case (Inr p)
  obtain x h' where p: "p = (x, h')" by (cases p)
  with Inr assms(1) have "Q x" and m: "mem_ok h \<longrightarrow> mem_ok h'" by simp_all
  with assms(2) Inr p have "outcome h' (f (x, h')) E P" by simp
  with m Inr p show ?thesis by (auto simp: outcome_def split: sum.splits prod.splits)
qed

lemma outcome_malloc:
  assumes "\<And>h'. \<lbrakk>mem_ok h \<longrightarrow> mem_ok h'; malloc h = (True, h')\<rbrakk> \<Longrightarrow> outcome h' (f h') E P"
  shows "outcome h (case malloc h of (ok, h') \<Rightarrow> if ok then f h' else Inl ENOMEM) E P"
proof (cases "malloc h")
  case (Pair ok h')
  show ?thesis
  proof (cases ok)
    case True
    with Pair have m: "mem_ok h \<longrightarrow> mem_ok h'" by (auto dest: malloc_okD)
    with assms Pair True have "outcome h' (f h') E P" by simp
    with Pair True m show ?thesis
      by (auto simp: outcome_def split: sum.splits prod.splits)
  next
    case False
    with Pair show ?thesis by (auto dest: malloc_okD)
  qed
qed

lemma outcome_mono:
  assumes "outcome h r E P" and "\<And>x. P x \<Longrightarrow> Q x" and "\<And>e. E e \<Longrightarrow> F e"
  shows "outcome h r F Q"
  using assms by (auto simp: outcome_def split: sum.splits)

lemma outcome_step:
  assumes "outcome h r E Q" and "\<And>e. E e \<Longrightarrow> F e"
    and "\<And>x h'. \<lbrakk>Q x; mem_ok h \<longrightarrow> mem_ok h'; r = Inr (x, h')\<rbrakk> \<Longrightarrow> outcome h' (f (x, h')) F P"
  shows "outcome h (bind_res r f) F P"
proof (rule outcome_bind)
  show "outcome h r F Q" by (rule outcome_mono [OF assms(1)]) (use assms(2) in auto)
qed (rule assms(3))

lemma outcome_catch:
  assumes "outcome h r E P" and "\<And>e'. E e' \<Longrightarrow> F e" and "\<not> mem_ok h \<Longrightarrow> F e"
  shows "outcome h (catch_res e r) F P"
  using assms by (cases r) auto

lemma outcome_total:
  assumes "outcome h r no_err P" and "mem_ok h"
  obtains x h' where "r = Inr (x, h')" and "P x" and "mem_ok h'"
  using assms by (cases r) auto

lemma outcome_partial:
  assumes "outcome h r E P" and "r = Inr (x, h')"
  shows "P x"
  using assms by simp

section \<open>Words\<close>

named_theorems word_nat \<open>moving word comparisons and sums to nat\<close>

lemmas [word_nat] = word_less_nat_alt word_le_nat_alt

lemma unat_diff [simp]: "b \<le> a \<Longrightarrow> unat (a - b) = unat a - unat b" for a b :: "'a::len word"
  by (simp add: unat_sub)

lemma unat_add_lt: "unat a + unat b < 2 ^ LENGTH('a) \<Longrightarrow> unat (a + b) = unat a + unat b"
  for a b :: "'a::len word"
  by (simp add: unat_word_ariths)

lemma unat_eq_iff [simp]: "unat a = unat b \<longleftrightarrow> a = b" for a b :: "'a::len word"
  by (simp add: word_unat_eq_iff)

lemma unat_of_nat_lt: "n < 2 ^ LENGTH('a) \<Longrightarrow> unat (of_nat n :: 'a::len word) = n"
  by (simp add: unat_of_nat)

lemma unat_plus_one: "a < b \<Longrightarrow> unat (a + 1) = unat a + 1" for a b :: "'a::len word"
proof -
  assume "a < b"
  then have "unat a < unat b" by (simp add: word_less_nat_alt)
  moreover have "unat b < 2 ^ LENGTH('a)" by (rule unsigned_less)
  ultimately have "unat a + 1 < 2 ^ LENGTH('a)" by linarith
  then show ?thesis by (simp add: unat_word_ariths)
qed

lemma unat_drop_bit_less: "m \<noteq> 0 \<Longrightarrow> unat (drop_bit 1 m) < unat m" for m :: "'a::len word"
  by (simp only: unat_drop_bit_eq) (simp add: drop_bit_eq_div unat_gt_0 div_less_dividend)

lemma word_eq_unatI: "unat a = unat b \<Longrightarrow> a = b" for a b :: "'a::len word"
  by simp

lemma bit_AND_push_1:
  fixes w :: "'a::len word"
  assumes "k < LENGTH('a)"
  shows "w AND push_bit k 1 \<noteq> 0 \<longleftrightarrow> bit w k"
proof -
  have "w AND push_bit k 1 = (if bit w k then push_bit k 1 else 0)"
    by (rule bit_word_eqI) (auto simp: bit_simps)
  moreover have "push_bit k (1 :: 'a word) \<noteq> 0"
    using assms by (auto simp: bit_eq_iff bit_simps)
  ultimately show ?thesis by simp
qed

lemma unat_AND_NOT_mask:
  fixes w :: "'a::len word"
  shows "unat (w AND NOT (mask k)) = unat w div 2 ^ k * 2 ^ k"
proof -
  have "w AND NOT (mask k) = push_bit k (drop_bit k w)"
    by (rule bit_word_eqI) (auto simp: bit_simps)
  then have "unat (w AND NOT (mask k)) = take_bit LENGTH('a) (unat w div 2 ^ k * 2 ^ k)"
    by (simp only: unsigned_push_bit_eq unat_drop_bit_eq)
      (simp only: push_bit_eq_mult drop_bit_eq_div)
  moreover have "unat w div 2 ^ k * 2 ^ k < 2 ^ LENGTH('a)"
    by (meson div_times_less_eq_dividend le_less_trans unsigned_less)
  ultimately show ?thesis by (simp add: take_bit_nat_eq_self_iff)
qed

end
