(* ===== verification/Ebitmap.thy ===== *)
theory Ebitmap
  imports Prelude
begin

text \<open>
  The extensible bitmap of \<open>libsepol/src/ebitmap.c\<close>: a linked list of 64-bit chunks sorted
  by the position of their first bit. The list is the Isabelle list of its nodes; every
  operation is translated with its loops, its allocation failures and its wrap-around.

  A bitmap denotes the set \<open>ebitmap_set e\<close> of bit positions. \<open>ebitmap_wf\<close> is the
  representation invariant: aligned, strictly increasing, non-zero chunks, and a \<open>highbit\<close>
  that is the end of the last chunk. Every operation is shown to keep it and to compute the
  set operation of its name; \<open>ebitmap_cmp\<close> decides equality because the representation is
  canonical.
\<close>

unbundle bit_operations_syntax

section \<open>Data\<close>

record ebitmap_node =
  startbit :: u32
  node_map :: u64

record ebitmap =
  node :: "ebitmap_node list"
  highbit :: u32

abbreviation MAPSIZE :: nat where "MAPSIZE \<equiv> 64"

definition ebitmap_init :: ebitmap where
  "ebitmap_init = \<lparr>node = [], highbit = 0\<rparr>"

definition ebitmap_destroy :: "ebitmap \<Rightarrow> ebitmap" where
  "ebitmap_destroy e = e\<lparr>node := [], highbit := 0\<rparr>"

definition ebitmap_is_empty :: "ebitmap \<Rightarrow> bool" where
  "ebitmap_is_empty e \<longleftrightarrow> node e = []"

definition ebitmap_length :: "ebitmap \<Rightarrow> u32" where
  "ebitmap_length e = (if node e \<noteq> [] then highbit e else 0)"

definition ebitmap_startbit :: "ebitmap \<Rightarrow> u32" where
  "ebitmap_startbit e = (case node e of [] \<Rightarrow> 0 | n # _ \<Rightarrow> startbit n)"

text \<open>
  One turn of the loops that build a bitmap: allocate the node \<open>new\<close>, link it behind the
  nodes built so far (\<open>*prev = new; prev = &new->next\<close>) and go on with the rest of the loop.
  When the allocation fails the partial bitmap is destroyed and \<open>-ENOMEM\<close> returned.
\<close>

definition link_node ::
  "ebitmap_node \<Rightarrow> (heap \<Rightarrow> (ebitmap_node list \<times> heap) result) \<Rightarrow> heap \<Rightarrow>
    (ebitmap_node list \<times> heap) result" where
  "link_node new rest h = (case malloc h of (ok, h') \<Rightarrow>
     if ok then bind_res (rest h') (\<lambda>(ns, h''). Inr (new # ns, h'')) else Inl ENOMEM)"

section \<open>Operations\<close>

fun ebitmap_or_loop ::
  "ebitmap_node list \<Rightarrow> ebitmap_node list \<Rightarrow> heap \<Rightarrow> (ebitmap_node list \<times> heap) result" where
  "ebitmap_or_loop [] [] h = Inr ([], h)"
| "ebitmap_or_loop (x # n1) [] h = link_node x (\<lambda>h. ebitmap_or_loop n1 [] h) h"
| "ebitmap_or_loop [] (y # n2) h = link_node y (\<lambda>h. ebitmap_or_loop [] n2 h) h"
| "ebitmap_or_loop (x # n1) (y # n2) h =
     (if startbit x = startbit y
      then link_node \<lparr>startbit = startbit x, node_map = node_map x OR node_map y\<rparr>
             (\<lambda>h. ebitmap_or_loop n1 n2 h) h
      else if startbit x < startbit y
      then link_node x (\<lambda>h. ebitmap_or_loop n1 (y # n2) h) h
      else link_node y (\<lambda>h. ebitmap_or_loop (x # n1) n2 h) h)"

definition ebitmap_or :: "ebitmap \<Rightarrow> ebitmap \<Rightarrow> heap \<Rightarrow> (ebitmap \<times> heap) result" where
  "ebitmap_or e1 e2 h =
     bind_res (ebitmap_or_loop (node e1) (node e2) h) (\<lambda>(ns, h').
       Inr (\<lparr>node = ns,
             highbit = (if highbit e1 > highbit e2 then highbit e1 else highbit e2)\<rparr>, h'))"

definition ebitmap_union :: "ebitmap \<Rightarrow> ebitmap \<Rightarrow> heap \<Rightarrow> (ebitmap \<times> heap) result" where
  "ebitmap_union dst e1 h = catch_res FAIL (ebitmap_or dst e1 h)"

text \<open>The tail of \<open>ebitmap_and\<close>, \<open>ebitmap_xor\<close> and \<open>ebitmap_not\<close>: \<open>new\<close> is the last node.\<close>

definition set_highbit :: "ebitmap_node list \<Rightarrow> ebitmap" where
  "set_highbit ns =
     \<lparr>node = ns, highbit = (if ns \<noteq> [] then startbit (last ns) + 64 else 0)\<rparr>"

fun ebitmap_and_loop ::
  "ebitmap_node list \<Rightarrow> ebitmap_node list \<Rightarrow> heap \<Rightarrow> (ebitmap_node list \<times> heap) result" where
  "ebitmap_and_loop (x # n1) (y # n2) h =
     (if startbit x = startbit y
      then (if node_map x AND node_map y \<noteq> 0
            then link_node \<lparr>startbit = startbit x, node_map = node_map x AND node_map y\<rparr>
                   (\<lambda>h. ebitmap_and_loop n1 n2 h) h
            else ebitmap_and_loop n1 n2 h)
      else if startbit x > startbit y
      then ebitmap_and_loop (x # n1) n2 h
      else ebitmap_and_loop n1 (y # n2) h)"
| "ebitmap_and_loop n1 n2 h = Inr ([], h)"

definition ebitmap_and :: "ebitmap \<Rightarrow> ebitmap \<Rightarrow> heap \<Rightarrow> (ebitmap \<times> heap) result" where
  "ebitmap_and e1 e2 h =
     bind_res (ebitmap_and_loop (node e1) (node e2) h) (\<lambda>(ns, h'). Inr (set_highbit ns, h'))"

fun ebitmap_xor_loop ::
  "ebitmap_node list \<Rightarrow> ebitmap_node list \<Rightarrow> heap \<Rightarrow> (ebitmap_node list \<times> heap) result" where
  "ebitmap_xor_loop [] [] h = Inr ([], h)"
| "ebitmap_xor_loop (x # n1) [] h =
     (if node_map x \<noteq> 0 then link_node x (\<lambda>h. ebitmap_xor_loop n1 [] h) h
      else ebitmap_xor_loop n1 [] h)"
| "ebitmap_xor_loop [] (y # n2) h =
     (if node_map y \<noteq> 0 then link_node y (\<lambda>h. ebitmap_xor_loop [] n2 h) h
      else ebitmap_xor_loop [] n2 h)"
| "ebitmap_xor_loop (x # n1) (y # n2) h =
     (if startbit x = startbit y
      then (if node_map x XOR node_map y \<noteq> 0
            then link_node \<lparr>startbit = startbit x, node_map = node_map x XOR node_map y\<rparr>
                   (\<lambda>h. ebitmap_xor_loop n1 n2 h) h
            else ebitmap_xor_loop n1 n2 h)
      else if startbit x < startbit y
      then (if node_map x \<noteq> 0 then link_node x (\<lambda>h. ebitmap_xor_loop n1 (y # n2) h) h
            else ebitmap_xor_loop n1 (y # n2) h)
      else (if node_map y \<noteq> 0 then link_node y (\<lambda>h. ebitmap_xor_loop (x # n1) n2 h) h
            else ebitmap_xor_loop (x # n1) n2 h))"

definition ebitmap_xor :: "ebitmap \<Rightarrow> ebitmap \<Rightarrow> heap \<Rightarrow> (ebitmap \<times> heap) result" where
  "ebitmap_xor e1 e2 h =
     bind_res (ebitmap_xor_loop (node e1) (node e2) h) (\<lambda>(ns, h'). Inr (set_highbit ns, h'))"

text \<open>
  \<open>ebitmap_not\<close> counts \<open>cur_startbit\<close> up in 32 bits. For \<open>maxbit > 0xffffffc0\<close> the counter
  wraps to 0 before it reaches \<open>maxbit\<close> and the loop does not end, so the loop is a partial
  function and \<open>None\<close> is "does not return". \<open>dst\<close> holds the nodes linked so far.
\<close>

definition not_chunk :: "ebitmap_node list \<Rightarrow> u32 \<Rightarrow> u32 \<Rightarrow> u64" where
  "not_chunk n cur maxbit =
     (let m = (case n of x # _ \<Rightarrow> if startbit x = cur then NOT (node_map x) else NOT 0
                       | [] \<Rightarrow> NOT 0)
      in if unat (maxbit - cur) < MAPSIZE then m AND (push_bit (unat (maxbit - cur)) 1 - 1)
         else m)"

definition not_next :: "ebitmap_node list \<Rightarrow> u32 \<Rightarrow> ebitmap_node list" where
  "not_next n cur =
     (case n of x # n' \<Rightarrow> if startbit x = cur then n' else n | [] \<Rightarrow> [])"

partial_function (option) ebitmap_not_loop ::
  "ebitmap_node list \<Rightarrow> ebitmap_node list \<Rightarrow> u32 \<Rightarrow> u32 \<Rightarrow> heap \<Rightarrow>
    (ebitmap_node list \<times> heap) result option" where
  "ebitmap_not_loop dst n cur maxbit h =
     (if cur < maxbit
      then if not_chunk n cur maxbit \<noteq> 0
        then if fst (malloc h)
          then ebitmap_not_loop
                 (dst @ [\<lparr>startbit = cur, node_map = not_chunk n cur maxbit\<rparr>])
                 (not_next n cur) (cur + 64) maxbit (snd (malloc h))
          else Some (Inl ENOMEM)
        else ebitmap_not_loop dst (not_next n cur) (cur + 64) maxbit h
      else Some (Inr (dst, h)))"

definition ebitmap_not :: "ebitmap \<Rightarrow> u32 \<Rightarrow> heap \<Rightarrow> (ebitmap \<times> heap) result option" where
  "ebitmap_not e1 maxbit h =
     map_option (\<lambda>r. bind_res r (\<lambda>(ns, h'). Inr (set_highbit ns, h')))
       (ebitmap_not_loop [] (node e1) 0 maxbit h)"

definition ebitmap_andnot ::
  "ebitmap \<Rightarrow> ebitmap \<Rightarrow> u32 \<Rightarrow> heap \<Rightarrow> (ebitmap \<times> heap) result option" where
  "ebitmap_andnot e1 e2 maxbit h =
     map_option (\<lambda>r. bind_res r (\<lambda>(e3, h'). ebitmap_and e1 e3 h')) (ebitmap_not e2 maxbit h)"

definition popcountll :: "u64 \<Rightarrow> nat" where
  "popcountll m = length (filter (bit m) [0..<64])"

definition ebitmap_cardinality :: "ebitmap \<Rightarrow> u32" where
  "ebitmap_cardinality e1 =
     foldl (\<lambda>count n. count + of_nat (popcountll (node_map n))) 0 (node e1)"

fun ebitmap_cmp_loop :: "ebitmap_node list \<Rightarrow> ebitmap_node list \<Rightarrow> bool" where
  "ebitmap_cmp_loop (x # n1) (y # n2) =
     (if startbit x = startbit y \<and> node_map x = node_map y then ebitmap_cmp_loop n1 n2
      else False)"
| "ebitmap_cmp_loop n1 n2 = (n1 = [] \<and> n2 = [])"

definition ebitmap_cmp :: "ebitmap \<Rightarrow> ebitmap \<Rightarrow> bool" where
  "ebitmap_cmp e1 e2 =
     (if highbit e1 \<noteq> highbit e2 then False else ebitmap_cmp_loop (node e1) (node e2))"

definition ebitmap_hamming_distance ::
  "ebitmap \<Rightarrow> ebitmap \<Rightarrow> heap \<Rightarrow> (u32 \<times> heap) result" where
  "ebitmap_hamming_distance e1 e2 h =
     (if ebitmap_cmp e1 e2 then Inr (0, h)
      else bind_res (catch_res FAIL (ebitmap_xor e1 e2 h)) (\<lambda>(tmp, h').
             Inr (ebitmap_cardinality tmp, h')))"

fun ebitmap_cpy_loop ::
  "ebitmap_node list \<Rightarrow> heap \<Rightarrow> (ebitmap_node list \<times> heap) result" where
  "ebitmap_cpy_loop [] h = Inr ([], h)"
| "ebitmap_cpy_loop (n # ns) h =
     link_node \<lparr>startbit = startbit n, node_map = node_map n\<rparr> (\<lambda>h. ebitmap_cpy_loop ns h) h"

definition ebitmap_cpy :: "ebitmap \<Rightarrow> heap \<Rightarrow> (ebitmap \<times> heap) result" where
  "ebitmap_cpy src h =
     bind_res (ebitmap_cpy_loop (node src) h) (\<lambda>(ns, h').
       Inr (\<lparr>node = ns, highbit = highbit src\<rparr>, h'))"

fun ebitmap_contains_loop :: "ebitmap_node list \<Rightarrow> ebitmap_node list \<Rightarrow> bool" where
  "ebitmap_contains_loop (x # n1) (y # n2) =
     (if startbit x \<le> startbit y
      then if startbit x < startbit y then ebitmap_contains_loop n1 (y # n2)
           else if node_map x AND node_map y \<noteq> node_map y then False
           else ebitmap_contains_loop n1 n2
      else False)"
| "ebitmap_contains_loop n1 n2 = (n2 = [])"

definition ebitmap_contains :: "ebitmap \<Rightarrow> ebitmap \<Rightarrow> bool" where
  "ebitmap_contains e1 e2 =
     (if highbit e1 < highbit e2 then False else ebitmap_contains_loop (node e1) (node e2))"

fun ebitmap_match_any_loop :: "ebitmap_node list \<Rightarrow> ebitmap_node list \<Rightarrow> bool" where
  "ebitmap_match_any_loop (x # n1) (y # n2) =
     (if startbit x < startbit y then ebitmap_match_any_loop n1 (y # n2)
      else if startbit y < startbit x then ebitmap_match_any_loop (x # n1) n2
      else if node_map x AND node_map y \<noteq> 0 then True
      else ebitmap_match_any_loop n1 n2)"
| "ebitmap_match_any_loop n1 n2 = False"

definition ebitmap_match_any :: "ebitmap \<Rightarrow> ebitmap \<Rightarrow> bool" where
  "ebitmap_match_any e1 e2 = ebitmap_match_any_loop (node e1) (node e2)"

definition bit_in_node :: "ebitmap_node \<Rightarrow> u32 \<Rightarrow> u64" where
  "bit_in_node n b = push_bit (unat (b - startbit n)) 1"

fun ebitmap_get_bit_loop :: "ebitmap_node list \<Rightarrow> u32 \<Rightarrow> bool" where
  "ebitmap_get_bit_loop [] b = False"
| "ebitmap_get_bit_loop (n # ns) b =
     (if startbit n \<le> b
      then if unat (startbit n) + MAPSIZE > unat b then node_map n AND bit_in_node n b \<noteq> 0
           else ebitmap_get_bit_loop ns b
      else False)"

definition ebitmap_get_bit :: "ebitmap \<Rightarrow> u32 \<Rightarrow> bool" where
  "ebitmap_get_bit e b = (if highbit e < b then False else ebitmap_get_bit_loop (node e) b)"

text \<open>
  \<open>ebitmap_set_bit\<close>: \<open>prev\<close> holds the nodes the scan has passed (its last element is the
  C variable \<open>prev\<close>), the other list is \<open>n\<close> and what follows it.
\<close>

definition map_align :: "u32 \<Rightarrow> u32" where  \<comment> \<open>\<open>bit & ~(MAPSIZE - 1)\<close>\<close>
  "map_align b = b AND NOT 63"

definition set_bit_new ::
  "ebitmap \<Rightarrow> u32 \<Rightarrow> bool \<Rightarrow> ebitmap_node list \<Rightarrow> ebitmap_node list \<Rightarrow> heap \<Rightarrow>
    (ebitmap \<times> heap) result" where
  "set_bit_new e b value prev ns h =
     (if \<not> value then Inr (e, h)
      else case malloc h of (ok, h') \<Rightarrow>
        if ok then
          let start = map_align b;
              new = \<lparr>startbit = start, node_map = push_bit (unat (b - start)) 1\<rparr>
          in Inr (\<lparr>node = prev @ new # ns,
                   highbit = (if ns = [] then start + 64 else highbit e)\<rparr>, h')
        else Inl ENOMEM)"

fun ebitmap_set_bit_loop ::
  "ebitmap \<Rightarrow> u32 \<Rightarrow> bool \<Rightarrow> ebitmap_node list \<Rightarrow> ebitmap_node list \<Rightarrow> heap \<Rightarrow>
    (ebitmap \<times> heap) result" where
  "ebitmap_set_bit_loop e b value prev [] h = set_bit_new e b value prev [] h"
| "ebitmap_set_bit_loop e b value prev (n # ns) h =
     (if startbit n \<le> b
      then if unat (startbit n) + MAPSIZE > unat b
        then if value
          then Inr (e\<lparr>node := prev @ n\<lparr>node_map := node_map n OR bit_in_node n b\<rparr> # ns\<rparr>, h)
          else let m = node_map n AND NOT (bit_in_node n b) in
            if m = 0
            then Inr (\<lparr>node = prev @ ns,
                       highbit = (if ns = []
                                  then if prev \<noteq> [] then startbit (last prev) + 64 else 0
                                  else highbit e)\<rparr>, h)
            else Inr (e\<lparr>node := prev @ n\<lparr>node_map := m\<rparr> # ns\<rparr>, h)
        else ebitmap_set_bit_loop e b value (prev @ [n]) ns h
      else set_bit_new e b value prev (n # ns) h)"

definition ebitmap_set_bit :: "ebitmap \<Rightarrow> u32 \<Rightarrow> bool \<Rightarrow> heap \<Rightarrow> (ebitmap \<times> heap) result" where
  "ebitmap_set_bit e b value h =
     (if map_align b + 64 = 0 then Inl EINVAL
      else ebitmap_set_bit_loop e b value [] (node e) h)"

text \<open>
  \<open>ebitmap_init_range\<close>: the loop counter is 32 bits wide, so it is a partial function too;
  the check on \<open>maxhighbit\<close> keeps it from wrapping (\<open>ebitmap_init_range_returns\<close>).
\<close>

definition range_chunk :: "u32 \<Rightarrow> u32 \<Rightarrow> u32 \<Rightarrow> u64" where
  "range_chunk minbit maxbit start =
     (let minstart = map_align minbit; maxstart = map_align maxbit in
      if start \<noteq> minstart \<and> start \<noteq> maxstart then NOT 0
      else if start \<noteq> maxstart then push_bit (unat (minbit - start)) (NOT 0)
      else if start \<noteq> minstart then drop_bit (MAPSIZE - unat (maxbit - start + 1)) (NOT 0)
      else push_bit (unat (minbit - start))
             (drop_bit (MAPSIZE - unat (maxbit - minbit + 1)) (NOT 0)))"

partial_function (option) init_range_loop ::
  "ebitmap_node list \<Rightarrow> u32 \<Rightarrow> u32 \<Rightarrow> u32 \<Rightarrow> heap \<Rightarrow>
    (ebitmap_node list \<times> heap) result option" where
  "init_range_loop dst minbit maxbit start h =
     (if start \<le> map_align maxbit
      then if fst (malloc h)
        then init_range_loop
               (dst @ [\<lparr>startbit = start, node_map = range_chunk minbit maxbit start\<rparr>])
               minbit maxbit (start + 64) (snd (malloc h))
        else Some (Inl ENOMEM)
      else Some (Inr (dst, h)))"

definition ebitmap_init_range ::
  "u32 \<Rightarrow> u32 \<Rightarrow> heap \<Rightarrow> (ebitmap \<times> heap) result option" where
  "ebitmap_init_range minbit maxbit h =
     (if minbit > maxbit then Some (Inl EINVAL)
      else if map_align minbit + 64 = 0 \<or> map_align maxbit + 64 = 0
      then Some (Inl EOVERFLOW)
      else map_option (\<lambda>r. bind_res r (\<lambda>(ns, h').
               Inr (\<lparr>node = ns, highbit = map_align maxbit + 64\<rparr>, h')))
             (init_range_loop [] minbit maxbit (map_align minbit) h))"

function highest_bit_loop :: "u64 \<Rightarrow> u32 \<Rightarrow> u32" where
  "highest_bit_loop m pos =
     (if drop_bit 1 m \<noteq> 0 then highest_bit_loop (drop_bit 1 m) (pos + 1) else pos)"
  by pat_completeness auto
termination
proof (relation "measure (\<lambda>(m, pos). unat m)", goal_cases)
  case (2 m pos)
  then have "m \<noteq> 0" by auto
  then show ?case using unat_drop_bit_less [of m] by simp
qed simp

declare highest_bit_loop.simps [simp del]

definition ebitmap_highest_set_bit :: "ebitmap \<Rightarrow> u32" where
  "ebitmap_highest_set_bit e =
     (if node e = [] then 0
      else let n = last (node e) in startbit n + highest_bit_loop (node_map n) 0)"

text \<open>
  The iteration macros. \<open>ebitmap_next\<close> steps to the first bit of the next node behind the last
  bit of a node; \<open>ebitmap_for_each_bit\<close> is the list of the (node, bit) pairs its body is run
  on. Either the node list gets shorter or the bit gets closer to the length.
\<close>

definition ebitmap_next :: "ebitmap_node list \<Rightarrow> u32 \<Rightarrow> ebitmap_node list \<times> u32" where
  "ebitmap_next ns b = (case ns of
       n # m # ms \<Rightarrow>
         if unat b = unat (startbit n) + MAPSIZE - 1 then (m # ms, startbit m) else (ns, b + 1)
     | _ \<Rightarrow> (ns, b + 1))"

definition ebitmap_node_get_bit :: "ebitmap_node \<Rightarrow> u32 \<Rightarrow> bool" where
  "ebitmap_node_get_bit n b \<longleftrightarrow> node_map n AND bit_in_node n b \<noteq> 0"

function ebitmap_walk :: "ebitmap_node list \<Rightarrow> u32 \<Rightarrow> u32 \<Rightarrow> (ebitmap_node \<times> u32) list" where
  "ebitmap_walk ns b len =
     (if b < len \<and> ns \<noteq> []
      then (hd ns, b) # (case ebitmap_next ns b of (ns', b') \<Rightarrow> ebitmap_walk ns' b' len)
      else [])"
  by pat_completeness auto
termination
  by (relation "measures [\<lambda>(ns, b, len). length ns, \<lambda>(ns, b, len). unat len - unat b]")
    (auto simp: ebitmap_next_def unat_plus_one word_less_nat_alt split: list.splits if_splits)

declare ebitmap_walk.simps [simp del]

definition ebitmap_for_each_bit :: "ebitmap \<Rightarrow> (ebitmap_node \<times> u32) list" where
  "ebitmap_for_each_bit e = ebitmap_walk (node e) (ebitmap_startbit e) (ebitmap_length e)"

definition ebitmap_positive_bits :: "ebitmap \<Rightarrow> u32 list" where
  "ebitmap_positive_bits e =
     map snd (filter (\<lambda>(n, b). ebitmap_node_get_bit n b) (ebitmap_for_each_bit e))"

section \<open>The set a bitmap denotes\<close>

lemma sorted_wrt_last: "sorted_wrt R xs \<Longrightarrow> x \<in> set xs \<Longrightarrow> x \<noteq> last xs \<Longrightarrow> R x (last xs)"
  by (induction xs) auto

definition ebitmap_set :: "ebitmap \<Rightarrow> nat set" where
  "ebitmap_set e = {b. \<exists>n \<in> set (node e).
     unat (startbit n) \<le> b \<and> b < unat (startbit n) + MAPSIZE \<and>
     bit (node_map n) (b - unat (startbit n))}"

definition node_ok :: "ebitmap_node \<Rightarrow> bool" where
  "node_ok n \<longleftrightarrow> MAPSIZE dvd unat (startbit n) \<and> unat (startbit n) + MAPSIZE < 2 ^ 32 \<and>
     node_map n \<noteq> 0"

definition nodes_wf :: "ebitmap_node list \<Rightarrow> bool" where
  "nodes_wf ns \<longleftrightarrow>
     sorted_wrt (\<lambda>a b. startbit a < startbit b) ns \<and> (\<forall>n \<in> set ns. node_ok n)"

definition nodes_end :: "ebitmap_node list \<Rightarrow> nat" where
  "nodes_end ns = (if ns = [] then 0 else unat (startbit (last ns)) + MAPSIZE)"

definition ebitmap_wf :: "ebitmap \<Rightarrow> bool" where
  "ebitmap_wf e \<longleftrightarrow> nodes_wf (node e) \<and> unat (highbit e) = nodes_end (node e)"

text \<open>
  The chunk of a node list at a chunk position, 0 where there is none. Every operation acts
  on chunks pointwise, so its correctness is an equation between chunks.
\<close>

fun map_at :: "ebitmap_node list \<Rightarrow> nat \<Rightarrow> u64" where
  "map_at [] s = 0"
| "map_at (n # ns) s = (if unat (startbit n) = s then node_map n else map_at ns s)"

lemma nodes_wf_Nil [simp]: "nodes_wf []"
  by (simp add: nodes_wf_def)

lemma nodes_wf_tl: "nodes_wf (n # ns) \<Longrightarrow> nodes_wf ns"
  by (simp add: nodes_wf_def)

lemma map_at_nonzero:
  "nodes_wf ns \<Longrightarrow> map_at ns s \<noteq> 0 \<longleftrightarrow> (\<exists>n \<in> set ns. unat (startbit n) = s)"
  by (induction ns) (auto simp: nodes_wf_def node_ok_def)

lemma nodes_wf_Cons:
  "nodes_wf (n # ns) \<longleftrightarrow>
     node_ok n \<and> nodes_wf ns \<and> (\<forall>s. map_at ns s \<noteq> 0 \<longrightarrow> unat (startbit n) < s)"
proof (cases "nodes_wf ns")
  case True
  then have "(\<forall>s. map_at ns s \<noteq> 0 \<longrightarrow> unat (startbit n) < s) \<longleftrightarrow>
      (\<forall>m \<in> set ns. startbit n < startbit m)"
    by (auto simp: map_at_nonzero word_less_nat_alt)
  with True show ?thesis by (auto simp: nodes_wf_def)
qed (auto dest: nodes_wf_tl)

lemma map_at_below: "nodes_wf (n # ns) \<Longrightarrow> s \<le> unat (startbit n) \<Longrightarrow> map_at ns s = 0"
  by (auto simp: nodes_wf_Cons)

lemma nodes_eqI:
  "nodes_wf xs \<Longrightarrow> nodes_wf ys \<Longrightarrow> (\<And>s. map_at xs s = map_at ys s) \<Longrightarrow> xs = ys"
proof (induction xs arbitrary: ys)
  case Nil
  show ?case
  proof (cases ys)
    case (Cons y ys')
    with Nil.prems(2) have "map_at ys (unat (startbit y)) \<noteq> 0"
      by (simp add: nodes_wf_Cons node_ok_def)
    with Nil.prems(3) show ?thesis by simp
  qed simp
next
  case (Cons x xs)
  let ?p = "unat (startbit x)"
  have x: "map_at (x # xs) ?p \<noteq> 0"
    using Cons.prems(1) by (simp add: nodes_wf_Cons node_ok_def)
  then have "map_at ys ?p \<noteq> 0" using Cons.prems(3) by metis
  then obtain y ys' where ys: "ys = y # ys'" by (cases ys) auto
  let ?q = "unat (startbit y)"
  have "map_at (y # ys') ?q \<noteq> 0"
    using Cons.prems(2) ys by (simp add: nodes_wf_Cons node_ok_def)
  then have "map_at (x # xs) ?q \<noteq> 0" using Cons.prems(3) ys by metis
  moreover have "map_at (y # ys') ?p \<noteq> 0" using x Cons.prems(3) ys by metis
  ultimately have pq: "?p = ?q"
    using Cons.prems(1,2) ys by (fastforce simp: nodes_wf_Cons split: if_splits)
  have m: "node_map x = node_map y" using Cons.prems(3) [of ?p] ys pq by simp
  have "map_at xs s = map_at ys' s" for s
    using Cons.prems(1,2) Cons.prems(3) [of s] ys pq map_at_below [of x xs s]
      map_at_below [of y ys' s] by (cases "s = ?p") auto
  with Cons.IH [of ys'] Cons.prems(1,2) ys have "xs = ys'" by (auto dest: nodes_wf_tl)
  with pq m ys show ?case by (simp add: word_eq_unatI)
qed

lemma nodes_end_le_iff:
  "nodes_wf ns \<Longrightarrow> nodes_end ns \<le> k \<longleftrightarrow> (\<forall>s. map_at ns s \<noteq> 0 \<longrightarrow> s + MAPSIZE \<le> k)"
proof (induction ns)
  case (Cons n ns)
  have n: "node_map n \<noteq> 0" using Cons.prems by (simp add: nodes_wf_Cons node_ok_def)
  show ?case
  proof (cases "ns = []")
    case False
    then have "map_at ns (unat (startbit (last ns))) \<noteq> 0"
      using nodes_wf_tl [OF Cons.prems] by (auto simp: map_at_nonzero)
    with Cons.prems have "unat (startbit n) < unat (startbit (last ns))"
      by (auto simp: nodes_wf_Cons)
    moreover have "nodes_end (n # ns) = nodes_end ns" using False by (simp add: nodes_end_def)
    ultimately show ?thesis
      using Cons.IH [OF nodes_wf_tl [OF Cons.prems]] False n by (auto simp: nodes_end_def)
  qed (use n in \<open>auto simp: nodes_end_def\<close>)
qed (simp add: nodes_end_def)

lemma nodes_end_bound: "nodes_wf ns \<Longrightarrow> nodes_end ns < 2 ^ 32"
  by (auto simp: nodes_end_def nodes_wf_def node_ok_def)

lemma nodes_end_aligned: "nodes_wf ns \<Longrightarrow> MAPSIZE dvd nodes_end ns"
  by (auto simp: nodes_end_def nodes_wf_def node_ok_def)

lemma set_highbit_wf: "nodes_wf ns \<Longrightarrow> ebitmap_wf (set_highbit ns)"
  using nodes_end_bound [of ns]
  by (auto simp: ebitmap_wf_def set_highbit_def nodes_end_def unat_word_ariths)

lemma node_set_highbit [simp]: "node (set_highbit ns) = ns"
  by (simp add: set_highbit_def)

lemma aligned_cover:
  fixes a b :: nat
  assumes "64 dvd a"
  shows "a \<le> b \<and> b < a + 64 \<longleftrightarrow> b div 64 * 64 = a"
  using assms by (auto elim!: dvdE)

lemma ebitmap_set_iff:
  assumes "nodes_wf (node e)"
  shows "b \<in> ebitmap_set e \<longleftrightarrow> bit (map_at (node e) (b div 64 * 64)) (b mod 64)"
proof -
  have "(\<exists>n \<in> set ns. unat (startbit n) \<le> b \<and> b < unat (startbit n) + 64 \<and>
      bit (node_map n) (b - unat (startbit n))) \<longleftrightarrow> bit (map_at ns (b div 64 * 64)) (b mod 64)"
    if "nodes_wf ns" for ns
    using that
  proof (induction ns)
    case (Cons n ns)
    have al: "64 dvd unat (startbit n)" using Cons.prems by (simp add: nodes_wf_Cons node_ok_def)
    have sub: "b - b div 64 * 64 = b mod 64" by (simp add: minus_div_mult_eq_mod)
    have z: "map_at ns (unat (startbit n)) = 0" by (rule map_at_below [OF Cons.prems]) simp
    have here: "unat (startbit n) \<le> b \<and> b < unat (startbit n) + 64 \<and>
        bit (node_map n) (b - unat (startbit n)) \<longleftrightarrow>
        unat (startbit n) = b div 64 * 64 \<and> bit (node_map n) (b mod 64)"
      using aligned_cover [OF al, of b] sub by metis
    show ?case
    proof (cases "unat (startbit n) = b div 64 * 64")
      case True
      with z have "map_at ns (b div 64 * 64) = 0" by simp
      with Cons.IH [OF nodes_wf_tl [OF Cons.prems]] here True show ?thesis by auto
    next
      case False
      with Cons.IH [OF nodes_wf_tl [OF Cons.prems]] here show ?thesis by auto
    qed
  qed simp
  with assms show ?thesis by (simp add: ebitmap_set_def)
qed

section \<open>Set operations\<close>

lemma outcome_link:
  assumes "\<And>h'. outcome h' (rest h') E Q" and "\<And>ns. Q ns \<Longrightarrow> P (new # ns)"
  shows "outcome h (link_node new rest h) E P"
  unfolding link_node_def
  by (rule outcome_malloc, rule outcome_bind [OF assms(1)]) (auto intro: assms(2))

text \<open>
  The shape of all merge results: a well-formed node list whose chunks are given by \<open>c\<close>.
\<close>

definition merged :: "(nat \<Rightarrow> u64) \<Rightarrow> ebitmap_node list \<Rightarrow> bool" where
  "merged c ns \<longleftrightarrow> nodes_wf ns \<and> (\<forall>s. map_at ns s = c s)"

lemma merged_Nil: "(\<And>s. c s = 0) \<Longrightarrow> merged c []"
  by (simp add: merged_def)

lemma merged_Cons:
  assumes "merged c ns" and "node_ok n" and "\<And>s. s \<le> unat (startbit n) \<Longrightarrow> c s = 0"
    and "\<And>s. d s = (if s = unat (startbit n) then node_map n else c s)"
  shows "merged d (n # ns)"
  using assms by (force simp: merged_def nodes_wf_Cons not_le [symmetric])

lemma link_merged:
  assumes "\<And>h'. outcome h' (rest h') E (merged c)" and "node_ok n"
    and "\<And>s. s \<le> unat (startbit n) \<Longrightarrow> c s = 0"
    and "\<And>s. d s = (if s = unat (startbit n) then node_map n else c s)"
  shows "outcome h (link_node n rest h) E (merged d)"
  using assms by (blast intro: outcome_link [where Q = "merged c"] merged_Cons)

lemma merged_skip:
  assumes "outcome h r E (merged c)" and "\<And>s. d s = c s"
  shows "outcome h r E (merged d)"
  using assms by (auto simp: outcome_def merged_def split: sum.splits)

lemma nodes_wf_head: "nodes_wf (n # ns) \<Longrightarrow> node_ok n"
  by (simp add: nodes_wf_Cons)

lemma map_at_below_less:
  "nodes_wf (n # ns) \<Longrightarrow> s \<le> unat (startbit m) \<Longrightarrow> startbit m < startbit n \<Longrightarrow>
     map_at (n # ns) s = 0"
  using map_at_below [of n ns s] by (auto simp: word_less_nat_alt)

lemma map_at_tl_below_less:
  "nodes_wf (n # ns) \<Longrightarrow> startbit m < startbit n \<Longrightarrow> s \<le> unat (startbit m) \<Longrightarrow>
     map_at ns s = 0"
  using map_at_below [of n ns s] by (auto simp: word_less_nat_alt)

lemmas map_at_zero = map_at_below map_at_below_less map_at_tl_below_less

lemma node_ok_update:
  "node_ok n \<Longrightarrow> m \<noteq> 0 \<Longrightarrow> node_ok \<lparr>startbit = startbit n, node_map = m\<rparr>"
  by (simp add: node_ok_def)

lemma or_nonzero: "a \<noteq> 0 \<Longrightarrow> a OR b \<noteq> 0" for a b :: "'a::len word"
  by (simp add: or_eq_0_iff)

lemma ebitmap_or_loop_correct:
  "nodes_wf n1 \<Longrightarrow> nodes_wf n2 \<Longrightarrow>
     outcome h (ebitmap_or_loop n1 n2 h) no_err (merged (\<lambda>s. map_at n1 s OR map_at n2 s))"
proof (induction n1 n2 h rule: ebitmap_or_loop.induct)
  case (1 h)
  show ?case by (simp add: merged_Nil)
next
  case (2 x n1 h)
  then show ?case
    by (auto intro!: link_merged [OF "2.IH"] simp: nodes_wf_head nodes_wf_tl map_at_below)
next
  case (3 y n2 h)
  then show ?case
    by (auto intro!: link_merged [OF "3.IH"] simp: nodes_wf_head nodes_wf_tl map_at_below)
next
  case (4 x n1 y n2 h)
  note wf = nodes_wf_head [OF "4.prems"(1)] nodes_wf_head [OF "4.prems"(2)]
    nodes_wf_tl [OF "4.prems"(1)] nodes_wf_tl [OF "4.prems"(2)]
  have nz: "node_map x \<noteq> 0" using wf(1) by (simp add: node_ok_def)
  consider "startbit x = startbit y" | "startbit x < startbit y" | "startbit y < startbit x"
    by (metis linorder_cases)
  then show ?case
  proof cases
    case 1
    show ?thesis
      by (simp only: ebitmap_or_loop.simps if_P [OF 1], rule link_merged [OF "4.IH"(1)])
        (use 1 wf "4.prems" nz in \<open>auto simp: node_ok_update or_nonzero map_at_zero\<close>)
  next
    case 2
    then have neq: "startbit x \<noteq> startbit y" by auto
    show ?thesis
      by (simp only: ebitmap_or_loop.simps if_P [OF 2] if_not_P [OF neq],
          rule link_merged [OF "4.IH"(2)])
        (use neq 2 wf "4.prems" in \<open>auto simp: map_at_zero word_less_nat_alt\<close>)
  next
    case 3
    then have neq: "startbit x \<noteq> startbit y" "\<not> startbit x < startbit y" by auto
    show ?thesis
      by (simp only: ebitmap_or_loop.simps if_not_P [OF neq(1)] if_not_P [OF neq(2)],
          rule link_merged [OF "4.IH"(3)])
        (use neq 3 wf "4.prems" in \<open>auto simp: map_at_zero word_less_nat_alt\<close>)
  qed
qed

lemma ebitmap_and_loop_correct:
  "nodes_wf n1 \<Longrightarrow> nodes_wf n2 \<Longrightarrow>
     outcome h (ebitmap_and_loop n1 n2 h) no_err (merged (\<lambda>s. map_at n1 s AND map_at n2 s))"
proof (induction n1 n2 h rule: ebitmap_and_loop.induct)
  case (1 x n1 y n2 h)
  note wf = nodes_wf_head [OF "1.prems"(1)] nodes_wf_head [OF "1.prems"(2)]
    nodes_wf_tl [OF "1.prems"(1)] nodes_wf_tl [OF "1.prems"(2)]
  consider "startbit x = startbit y" "node_map x AND node_map y \<noteq> 0"
    | "startbit x = startbit y" "node_map x AND node_map y = 0"
    | "startbit x < startbit y" | "startbit y < startbit x"
    by (metis linorder_cases)
  then show ?case
  proof cases
    case 1
    show ?thesis
      by (simp only: ebitmap_and_loop.simps if_P [OF 1(1)] if_P [OF 1(2)],
          rule link_merged [OF "1.IH"(1)])
        (use 1 wf "1.prems" in \<open>auto simp: node_ok_update map_at_zero\<close>)
  next
    case 2
    then have z: "\<not> node_map x AND node_map y \<noteq> 0" by simp
    show ?thesis
      by (simp only: ebitmap_and_loop.simps if_P [OF 2(1)] if_not_P [OF z],
          rule merged_skip [OF "1.IH"(2)])
        (use 2 wf "1.prems" in \<open>auto simp: map_at_zero\<close>)
  next
    case 3
    then have neq: "startbit x \<noteq> startbit y" "\<not> startbit y < startbit x" by auto
    show ?thesis
      by (simp only: ebitmap_and_loop.simps if_not_P [OF neq(1)] if_not_P [OF neq(2)],
          rule merged_skip [OF "1.IH"(4)])
        (use neq 3 wf "1.prems" in \<open>auto simp: map_at_zero word_less_nat_alt\<close>)
  next
    case 4
    then have neq: "startbit x \<noteq> startbit y" by auto
    show ?thesis
      by (simp only: ebitmap_and_loop.simps if_not_P [OF neq] if_P [OF 4],
          rule merged_skip [OF "1.IH"(3)])
        (use neq 4 wf "1.prems" in \<open>auto simp: map_at_zero word_less_nat_alt\<close>)
  qed
qed (simp_all add: merged_Nil)

lemma xor_nonzero_iff: "a XOR b = 0 \<longleftrightarrow> a = b" for a b :: "'a::len word"
  by (auto simp: bit_eq_iff bit_simps)

lemma ebitmap_xor_loop_correct:
  "nodes_wf n1 \<Longrightarrow> nodes_wf n2 \<Longrightarrow>
     outcome h (ebitmap_xor_loop n1 n2 h) no_err (merged (\<lambda>s. map_at n1 s XOR map_at n2 s))"
proof (induction n1 n2 h rule: ebitmap_xor_loop.induct)
  case (1 h)
  show ?case by (simp add: merged_Nil)
next
  case (2 x n1 h)
  then have "node_map x \<noteq> 0" using nodes_wf_head node_ok_def by blast
  with 2 show ?case
    by (auto intro!: link_merged [OF "2.IH"(1)] simp: nodes_wf_head nodes_wf_tl map_at_below)
next
  case (3 y n2 h)
  then have "node_map y \<noteq> 0" using nodes_wf_head node_ok_def by blast
  with 3 show ?case
    by (auto intro!: link_merged [OF "3.IH"(1)] simp: nodes_wf_head nodes_wf_tl map_at_below)
next
  case (4 x n1 y n2 h)
  note wf = nodes_wf_head [OF "4.prems"(1)] nodes_wf_head [OF "4.prems"(2)]
    nodes_wf_tl [OF "4.prems"(1)] nodes_wf_tl [OF "4.prems"(2)]
  have nz: "node_map x \<noteq> 0" "node_map y \<noteq> 0" using wf(1,2) by (simp_all add: node_ok_def)
  consider "startbit x = startbit y" "node_map x XOR node_map y \<noteq> 0"
    | "startbit x = startbit y" "node_map x XOR node_map y = 0"
    | "startbit x < startbit y" | "startbit y < startbit x"
    by (metis linorder_cases)
  then show ?case
  proof cases
    case 1
    show ?thesis
      by (simp only: ebitmap_xor_loop.simps if_P [OF 1(1)] if_P [OF 1(2)],
          rule link_merged [OF "4.IH"(1)])
        (use 1 wf "4.prems" in \<open>auto simp: node_ok_update map_at_zero\<close>)
  next
    case 2
    then have z: "\<not> node_map x XOR node_map y \<noteq> 0" by simp
    show ?thesis
      by (simp only: ebitmap_xor_loop.simps if_P [OF 2(1)] if_not_P [OF z],
          rule merged_skip [OF "4.IH"(2)])
        (use 2 wf "4.prems" in \<open>auto simp: map_at_zero\<close>)
  next
    case 3
    then have neq: "startbit x \<noteq> startbit y" by auto
    show ?thesis
      by (simp only: ebitmap_xor_loop.simps if_not_P [OF neq] if_P [OF 3] if_P [OF nz(1)],
          rule link_merged [OF "4.IH"(3)])
        (use neq 3 nz wf "4.prems" in \<open>auto simp: map_at_zero word_less_nat_alt\<close>)
  next
    case 4
    then have neq: "startbit x \<noteq> startbit y" "\<not> startbit x < startbit y" by auto
    show ?thesis
      by (simp only: ebitmap_xor_loop.simps if_not_P [OF neq(1)] if_not_P [OF neq(2)]
            if_P [OF nz(2)],
          rule link_merged [OF "4.IH"(5)])
        (use neq 4 nz wf "4.prems" in \<open>auto simp: map_at_zero word_less_nat_alt\<close>)
  qed
qed

lemma ebitmap_cpy_loop_correct:
  "outcome h (ebitmap_cpy_loop ns h) no_err (\<lambda>ns'. ns' = ns)"
proof (induction ns arbitrary: h)
  case (Cons n ns)
  show ?case by (simp, rule outcome_link [OF Cons.IH]) simp
qed simp

lemma nodes_end_max:
  assumes "nodes_wf ns" and "nodes_wf n1" and "nodes_wf n2"
    and "\<And>s. map_at ns s = 0 \<longleftrightarrow> map_at n1 s = 0 \<and> map_at n2 s = 0"
  shows "nodes_end ns = max (nodes_end n1) (nodes_end n2)"
proof -
  have "nodes_end ns \<le> k \<longleftrightarrow> max (nodes_end n1) (nodes_end n2) \<le> k" for k
    using assms by (auto simp: nodes_end_le_iff)
  then show ?thesis by (metis antisym order_refl)
qed

lemma merged_set:
  assumes "merged c ns"
  shows "ebitmap_set (set_highbit ns) = {b. bit (c (b div 64 * 64)) (b mod 64)}"
  using assms by (auto simp: merged_def ebitmap_set_iff)

lemma set_of_node: "node e = node e' \<Longrightarrow> ebitmap_set e = ebitmap_set e'"
  by (simp add: ebitmap_set_def)

lemma wf_nodes [dest]: "ebitmap_wf e \<Longrightarrow> nodes_wf (node e)"
  by (simp add: ebitmap_wf_def)

theorem ebitmap_or_correct:
  assumes "ebitmap_wf e1" and "ebitmap_wf e2"
  shows "outcome h (ebitmap_or e1 e2 h) no_err
    (\<lambda>e. ebitmap_wf e \<and> ebitmap_set e = ebitmap_set e1 \<union> ebitmap_set e2)"
  unfolding ebitmap_or_def
proof (rule outcome_bind [OF ebitmap_or_loop_correct])
  fix ns h'
  assume m: "merged (\<lambda>s. map_at (node e1) s OR map_at (node e2) s) ns"
    and h: "mem_ok h \<longrightarrow> mem_ok h'"
  let ?e = "\<lparr>node = ns,
    highbit = if highbit e1 > highbit e2 then highbit e1 else highbit e2\<rparr>"
  have "nodes_end ns = max (nodes_end (node e1)) (nodes_end (node e2))"
    by (rule nodes_end_max) (use m assms in \<open>auto simp: merged_def or_eq_0_iff\<close>)
  then have "ebitmap_wf ?e"
    using m assms by (auto simp: ebitmap_wf_def merged_def word_less_nat_alt max_def)
  moreover have "ebitmap_set ?e = ebitmap_set e1 \<union> ebitmap_set e2"
    using merged_set [OF m] assms set_of_node [of ?e "set_highbit ns"]
    by (auto simp: ebitmap_set_iff wf_nodes bit_or_iff)
  ultimately show "outcome h' (case (ns, h') of (ns, h') \<Rightarrow> Inr (\<lparr>node = ns,
      highbit = if highbit e1 > highbit e2 then highbit e1 else highbit e2\<rparr>, h')) no_err
    (\<lambda>e. ebitmap_wf e \<and> ebitmap_set e = ebitmap_set e1 \<union> ebitmap_set e2)"
    by simp
qed (use assms in auto)

lemma outcome_set_highbit:
  assumes "outcome h r E (merged c)"
    and "\<And>b. bit (c (b div 64 * 64)) (b mod 64) \<longleftrightarrow> b \<in> S"
  shows "outcome h (bind_res r (\<lambda>(ns, h'). Inr (set_highbit ns, h'))) E
    (\<lambda>e. ebitmap_wf e \<and> ebitmap_set e = S)"
  by (rule outcome_bind [OF assms(1)])
    (auto simp: merged_set assms(2) set_highbit_wf merged_def ebitmap_set_iff)

theorem ebitmap_and_correct:
  assumes "ebitmap_wf e1" and "ebitmap_wf e2"
  shows "outcome h (ebitmap_and e1 e2 h) no_err
    (\<lambda>e. ebitmap_wf e \<and> ebitmap_set e = ebitmap_set e1 \<inter> ebitmap_set e2)"
  unfolding ebitmap_and_def
  by (rule outcome_set_highbit [OF ebitmap_and_loop_correct])
    (use assms in \<open>auto simp: ebitmap_set_iff wf_nodes bit_and_iff\<close>)

theorem ebitmap_xor_correct:
  assumes "ebitmap_wf e1" and "ebitmap_wf e2"
  shows "outcome h (ebitmap_xor e1 e2 h) no_err
    (\<lambda>e. ebitmap_wf e \<and>
      ebitmap_set e = (ebitmap_set e1 - ebitmap_set e2) \<union> (ebitmap_set e2 - ebitmap_set e1))"
  unfolding ebitmap_xor_def
  by (rule outcome_set_highbit [OF ebitmap_xor_loop_correct])
    (use assms in \<open>auto simp: ebitmap_set_iff wf_nodes bit_xor_iff\<close>)

theorem ebitmap_cpy_correct:
  "outcome h (ebitmap_cpy e h) no_err (\<lambda>e'. e' = e)"
  unfolding ebitmap_cpy_def
  by (rule outcome_bind [OF ebitmap_cpy_loop_correct]) (cases e, simp)

section \<open>Comparisons\<close>

lemma ebitmap_cmp_loop_iff: "ebitmap_cmp_loop n1 n2 \<longleftrightarrow> n1 = n2"
  by (induction n1 n2 rule: ebitmap_cmp_loop.induct) auto

lemma ebitmap_eqI:
  assumes "ebitmap_wf e1" and "ebitmap_wf e2" and "ebitmap_set e1 = ebitmap_set e2"
  shows "e1 = e2"
proof -
  have wf: "nodes_wf (node e1)" "nodes_wf (node e2)" using assms by auto
  have "map_at (node e1) s = map_at (node e2) s" for s
  proof (cases "64 dvd s")
    case True
    show ?thesis
    proof (rule bit_word_eqI)
      fix k assume "k < LENGTH(64)"
      with True have "(s + k) div 64 * 64 = s" "(s + k) mod 64 = k"
        by (auto elim!: dvdE)
      with ebitmap_set_iff [OF wf(1), of "s + k"] ebitmap_set_iff [OF wf(2), of "s + k"] assms(3)
      show "bit (map_at (node e1) s) k = bit (map_at (node e2) s) k" by simp
    qed
  next
    case False
    then have "map_at (node e1) s = 0" "map_at (node e2) s = 0"
      using map_at_nonzero [OF wf(1), of s] map_at_nonzero [OF wf(2), of s] wf
      by (auto simp: nodes_wf_def node_ok_def)
    then show ?thesis by simp
  qed
  with wf have "node e1 = node e2" by (rule nodes_eqI)
  with assms(1,2) show ?thesis
    by (simp add: ebitmap_wf_def word_eq_unatI)
qed

theorem ebitmap_cmp_correct:
  assumes "ebitmap_wf e1" and "ebitmap_wf e2"
  shows "ebitmap_cmp e1 e2 \<longleftrightarrow> ebitmap_set e1 = ebitmap_set e2"
  using ebitmap_eqI [OF assms] set_of_node [of e1 e2]
  by (auto simp: ebitmap_cmp_def ebitmap_cmp_loop_iff)

lemma subset_chunks:
  assumes "nodes_wf (node e1)" and "nodes_wf (node e2)"
  shows "ebitmap_set e2 \<subseteq> ebitmap_set e1 \<longleftrightarrow>
    (\<forall>s. map_at (node e1) s AND map_at (node e2) s = map_at (node e2) s)"
proof
  assume sub: "ebitmap_set e2 \<subseteq> ebitmap_set e1"
  show "\<forall>s. map_at (node e1) s AND map_at (node e2) s = map_at (node e2) s"
  proof
    fix s
    show "map_at (node e1) s AND map_at (node e2) s = map_at (node e2) s"
    proof (cases "map_at (node e2) s = 0")
      case False
      then obtain n where "n \<in> set (node e2)" "unat (startbit n) = s"
        using map_at_nonzero [OF assms(2)] by blast
      then have al: "64 dvd s" using assms(2) by (auto simp: nodes_wf_def node_ok_def)
      show ?thesis
      proof (rule bit_word_eqI)
        fix k assume "k < LENGTH(64)"
        with al have "(s + k) div 64 * 64 = s" "(s + k) mod 64 = k" by (auto elim!: dvdE)
        with sub ebitmap_set_iff [OF assms(1), of "s + k"] ebitmap_set_iff [OF assms(2), of "s + k"]
        show "bit (map_at (node e1) s AND map_at (node e2) s) k = bit (map_at (node e2) s) k"
          by (auto simp: bit_and_iff)
      qed
    qed simp
  qed
next
  assume "\<forall>s. map_at (node e1) s AND map_at (node e2) s = map_at (node e2) s"
  then show "ebitmap_set e2 \<subseteq> ebitmap_set e1"
    using assms by (auto simp: ebitmap_set_iff) (metis bit_and_iff)
qed

lemma map_at_nonempty: "nodes_wf ns \<Longrightarrow> ns \<noteq> [] \<Longrightarrow> \<exists>s. map_at ns s \<noteq> 0"
  by (cases ns) (auto simp: nodes_wf_Cons node_ok_def)

lemma ebitmap_contains_loop_iff:
  "nodes_wf n1 \<Longrightarrow> nodes_wf n2 \<Longrightarrow>
     ebitmap_contains_loop n1 n2 \<longleftrightarrow> (\<forall>s. map_at n1 s AND map_at n2 s = map_at n2 s)"
proof (induction n1 n2 rule: ebitmap_contains_loop.induct)
  case (1 x n1 y n2)
  note wf = nodes_wf_tl [OF "1.prems"(1)] nodes_wf_tl [OF "1.prems"(2)]
  have ny: "node_map y \<noteq> 0" using "1.prems"(2) by (simp add: nodes_wf_Cons node_ok_def)
  let ?P = "\<lambda>n1 n2 s. map_at n1 s AND map_at n2 s = map_at n2 s"
  consider "startbit x < startbit y" | "startbit x = startbit y" | "startbit y < startbit x"
    by (metis linorder_cases)
  then show ?case
  proof cases
    case 1
    then have "?P (x # n1) (y # n2) s \<longleftrightarrow> ?P n1 (y # n2) s" for s
      using "1.prems" by (auto simp: map_at_zero)
    moreover from 1 have "startbit x \<le> startbit y" by simp
    ultimately show ?thesis
      using 1 "1.IH"(1) wf "1.prems" by (simp del: map_at.simps(2))
  next
    case 2
    let ?p = "unat (startbit y)"
    have z: "map_at n1 ?p = 0" "map_at n2 ?p = 0"
      using "1.prems" 2 by (auto intro: map_at_below)
    have "?P (x # n1) (y # n2) s \<longleftrightarrow>
        (if s = ?p then node_map x AND node_map y = node_map y else ?P n1 n2 s)" for s
      using 2 by auto
    then have "(\<forall>s. ?P (x # n1) (y # n2) s) \<longleftrightarrow>
        node_map x AND node_map y = node_map y \<and> (\<forall>s. ?P n1 n2 s)"
      using z by (metis bit.conj_zero_right)
    with 2 "1.IH"(2) wf show ?thesis by simp
  next
    case 3
    then have "map_at (x # n1) (unat (startbit y)) = 0"
      using "1.prems"(1) by (intro map_at_below_less [of x n1 _ y]) auto
    then have "\<not> ?P (x # n1) (y # n2) (unat (startbit y))" using ny by simp
    then have "\<not> (\<forall>s. ?P (x # n1) (y # n2) s)" by blast
    moreover from 3 have "\<not> startbit x \<le> startbit y" by simp
    ultimately show ?thesis by (simp del: map_at.simps(2))
  qed
qed (auto dest: map_at_nonempty)

theorem ebitmap_contains_correct:
  assumes "ebitmap_wf e1" and "ebitmap_wf e2"
  shows "ebitmap_contains e1 e2 \<longleftrightarrow> ebitmap_set e2 \<subseteq> ebitmap_set e1"
proof -
  have wf: "nodes_wf (node e1)" "nodes_wf (node e2)" using assms by auto
  have "\<not> ebitmap_set e2 \<subseteq> ebitmap_set e1" if "highbit e1 < highbit e2"
  proof
    assume "ebitmap_set e2 \<subseteq> ebitmap_set e1"
    then have "map_at (node e2) s \<noteq> 0 \<Longrightarrow> map_at (node e1) s \<noteq> 0" for s
      by (metis bit.conj_zero_left subset_chunks [OF wf])
    then have "nodes_end (node e2) \<le> nodes_end (node e1)"
      using nodes_end_le_iff [OF wf(1), of "nodes_end (node e1)"] nodes_end_le_iff [OF wf(2)]
      by blast
    with that assms show False by (simp add: ebitmap_wf_def word_less_nat_alt)
  qed
  with subset_chunks [OF wf] ebitmap_contains_loop_iff [OF wf] show ?thesis
    by (auto simp: ebitmap_contains_def)
qed

lemma ebitmap_match_any_loop_iff:
  "nodes_wf n1 \<Longrightarrow> nodes_wf n2 \<Longrightarrow>
     ebitmap_match_any_loop n1 n2 \<longleftrightarrow> (\<exists>s. map_at n1 s AND map_at n2 s \<noteq> 0)"
proof (induction n1 n2 rule: ebitmap_match_any_loop.induct)
  case (1 x n1 y n2)
  note wf = nodes_wf_tl [OF "1.prems"(1)] nodes_wf_tl [OF "1.prems"(2)]
  let ?P = "\<lambda>n1 n2 s. map_at n1 s AND map_at n2 s \<noteq> 0"
  consider "startbit x < startbit y" | "startbit y < startbit x" | "startbit x = startbit y"
    by (metis linorder_cases)
  then show ?case
  proof cases
    case 1
    then have "?P (x # n1) (y # n2) s \<longleftrightarrow> ?P n1 (y # n2) s" for s
      using "1.prems" by (auto simp: map_at_zero)
    with 1 "1.IH"(1) wf "1.prems" show ?thesis by simp
  next
    case 2
    then have "?P (x # n1) (y # n2) s \<longleftrightarrow> ?P (x # n1) n2 s" for s
      using "1.prems" by (auto simp: map_at_zero)
    with 2 "1.IH"(2) wf "1.prems" show ?thesis by auto
  next
    case 3
    let ?p = "unat (startbit y)"
    have z: "map_at n1 ?p = 0" "map_at n2 ?p = 0"
      using "1.prems" 3 by (auto intro: map_at_below)
    have "?P (x # n1) (y # n2) s \<longleftrightarrow>
        (if s = ?p then node_map x AND node_map y \<noteq> 0 else ?P n1 n2 s)" for s
      using 3 by auto
    then have "(\<exists>s. ?P (x # n1) (y # n2) s) \<longleftrightarrow>
        node_map x AND node_map y \<noteq> 0 \<or> (\<exists>s. ?P n1 n2 s)"
      using z by (metis bit.conj_zero_right)
    with 3 "1.IH"(3) wf show ?thesis by simp
  qed
qed simp_all

theorem ebitmap_match_any_correct:
  assumes "ebitmap_wf e1" and "ebitmap_wf e2"
  shows "ebitmap_match_any e1 e2 \<longleftrightarrow> ebitmap_set e1 \<inter> ebitmap_set e2 \<noteq> {}"
proof -
  have wf: "nodes_wf (node e1)" "nodes_wf (node e2)" using assms by auto
  obtain e h' where e: "ebitmap_and e1 e2 [] = Inr (e, h')" "ebitmap_wf e"
      "ebitmap_set e = ebitmap_set e1 \<inter> ebitmap_set e2"
    by (rule outcome_total [OF ebitmap_and_correct [OF assms, of "[]"]]) auto
  have m: "map_at (node e) s = map_at (node e1) s AND map_at (node e2) s" for s
    using ebitmap_and_loop_correct [OF wf, of "[]"] e(1)
    by (auto simp: ebitmap_and_def merged_def bind_res_Inr_iff)
  have "ebitmap_set e = {} \<longleftrightarrow> (\<forall>s. map_at (node e) s = 0)"
  proof
    assume "ebitmap_set e = {}"
    then have "e = ebitmap_init"
      by (intro ebitmap_eqI [OF e(2)])
        (simp_all add: ebitmap_init_def ebitmap_wf_def nodes_end_def ebitmap_set_def)
    then show "\<forall>s. map_at (node e) s = 0" by (simp add: ebitmap_init_def)
  qed (auto simp: ebitmap_set_iff [OF wf_nodes [OF e(2)]])
  with m ebitmap_match_any_loop_iff [OF wf] e(3) show ?thesis
    by (auto simp: ebitmap_match_any_def)
qed

section \<open>Single bits\<close>

lemma in_chunk:
  assumes "64 dvd unat s" and "s \<le> b"
  shows "unat (b - s) = unat b mod 64 \<longleftrightarrow> unat b < unat s + 64"
    and "unat b < unat s + 64 \<longleftrightarrow> unat s = unat b div 64 * 64"
proof -
  from assms(2) have le: "unat s \<le> unat b" by (simp add: word_le_nat_alt)
  from assms(1) obtain k where k: "unat s = 64 * k" by (elim dvdE)
  have sub: "unat (b - s) = unat b - unat s" using assms(2) by simp
  show "unat b < unat s + 64 \<longleftrightarrow> unat s = unat b div 64 * 64" using le k by auto
  have "unat b = unat b - unat s + k * 64" using le k by simp
  then have m: "unat b mod 64 = (unat b - unat s) mod 64" by (metis mod_mult_self1)
  have "x = x mod 64 \<longleftrightarrow> x < 64" for x :: nat by (metis mod_less mod_less_divisor zero_less_numeral)
  then show "unat (b - s) = unat b mod 64 \<longleftrightarrow> unat b < unat s + 64"
    unfolding sub m using le by (simp add: less_diff_conv2 add.commute)
qed

lemma bit_in_node_eq:
  assumes "node_ok n" and "startbit n \<le> b" and "unat b < unat (startbit n) + 64"
  shows "bit_in_node n b = push_bit (unat b mod 64) 1"
  using assms in_chunk(1) [of "startbit n" b] by (simp add: bit_in_node_def node_ok_def)

lemma ebitmap_get_bit_loop_iff:
  "nodes_wf ns \<Longrightarrow>
     ebitmap_get_bit_loop ns b \<longleftrightarrow> bit (map_at ns (unat b div 64 * 64)) (unat b mod 64)"
proof (induction ns)
  case (Cons n ns)
  have ok: "node_ok n" "64 dvd unat (startbit n)"
    using Cons.prems by (simp_all add: nodes_wf_Cons node_ok_def)
  show ?case
  proof (cases "startbit n \<le> b")
    case True
    then show ?thesis
      using Cons.IH [OF nodes_wf_tl [OF Cons.prems]] in_chunk(2) [OF ok(2) True]
        bit_in_node_eq [OF ok(1) True] bit_AND_push_1 [of "unat b mod 64" "node_map n"]
      by auto
  next
    case False
    then have "unat b div 64 * 64 < unat (startbit n)"
      by (simp add: word_le_nat_alt not_le order_le_less_trans [OF div_times_less_eq_dividend])
    with False show ?thesis using map_at_below [OF Cons.prems] by auto
  qed
qed simp

theorem ebitmap_get_bit_correct:
  assumes "ebitmap_wf e"
  shows "ebitmap_get_bit e b \<longleftrightarrow> unat b \<in> ebitmap_set e"
proof -
  have "map_at (node e) (unat b div 64 * 64) = 0" if "highbit e < b"
  proof (rule ccontr)
    assume "map_at (node e) (unat b div 64 * 64) \<noteq> 0"
    then have "unat b div 64 * 64 + 64 \<le> nodes_end (node e)"
      using nodes_end_le_iff [of "node e" "nodes_end (node e)"] assms by blast
    with that assms show False by (simp add: ebitmap_wf_def word_less_nat_alt)
  qed
  with assms show ?thesis
    by (auto simp: ebitmap_get_bit_def ebitmap_set_iff wf_nodes ebitmap_get_bit_loop_iff)
qed

text \<open>\<open>put_bit\<close> is what the scan of \<open>ebitmap_set_bit\<close> does to the part of the list it enters.\<close>

definition bit_node :: "u32 \<Rightarrow> ebitmap_node" where
  "bit_node b = \<lparr>startbit = map_align b, node_map = push_bit (unat (b - map_align b)) 1\<rparr>"

fun put_bit :: "u32 \<Rightarrow> bool \<Rightarrow> ebitmap_node list \<Rightarrow> ebitmap_node list" where
  "put_bit b v [] = (if v then [bit_node b] else [])"
| "put_bit b v (n # ns) =
     (if startbit n \<le> b
      then if unat b < unat (startbit n) + 64
        then if v then n\<lparr>node_map := node_map n OR bit_in_node n b\<rparr> # ns
          else if node_map n AND NOT (bit_in_node n b) = 0 then ns
          else n\<lparr>node_map := node_map n AND NOT (bit_in_node n b)\<rparr> # ns
        else n # put_bit b v ns
      else if v then bit_node b # n # ns else n # ns)"

lemma align_unat [simp]: "unat (map_align b) = unat b div 64 * 64"
  using unat_AND_NOT_mask [of b 6] by (simp add: mask_eq_exp_minus_1 map_align_def)

lemma bit_node_map: "node_map (bit_node b) = push_bit (unat b mod 64) 1"
proof -
  have "map_align b \<le> b" by (simp add: word_le_nat_alt)
  then have "unat (b - map_align b) = unat b mod 64"
    by (simp add: minus_div_mult_eq_mod)
  then show ?thesis by (simp add: bit_node_def)
qed

lemma push_bit_1_nonzero: "k < 64 \<Longrightarrow> push_bit k (1 :: u64) \<noteq> 0"
  by (auto simp: bit_eq_iff bit_simps)

lemma bit_node_ok: "unat b < 2 ^ 32 - 64 \<Longrightarrow> node_ok (bit_node b)"
  unfolding node_ok_def bit_node_map
  using div_times_less_eq_dividend [of "unat b" 64]
  by (auto simp: bit_node_def push_bit_1_nonzero simp del: div_times_less_eq_dividend)

definition put_chunk :: "u32 \<Rightarrow> bool \<Rightarrow> (nat \<Rightarrow> u64) \<Rightarrow> nat \<Rightarrow> u64" where
  "put_chunk b v c s =
     (if s = unat b div 64 * 64
      then if v then c s OR push_bit (unat b mod 64) 1 else c s AND NOT (push_bit (unat b mod 64) 1)
      else c s)"

lemma put_bit_merged:
  "nodes_wf ns \<Longrightarrow> unat b < 2 ^ 32 - 64 \<Longrightarrow>
     merged (put_chunk b v (map_at ns)) (put_bit b v ns)"
proof (induction ns)
  case Nil
  then show ?case
    by (auto simp: put_chunk_def bit_node_map merged_Nil
        intro!: merged_Cons [OF merged_Nil] bit_node_ok)
      (auto simp: bit_node_def push_bit_1_nonzero)
next
  case (Cons n ns)
  have ok: "node_ok n" "64 dvd unat (startbit n)" and wf: "nodes_wf ns"
    using Cons.prems by (auto simp: nodes_wf_Cons node_ok_def)
  have m: "merged (map_at ns) ns" using wf by (simp add: merged_def)
  show ?case
  proof (cases "startbit n \<le> b")
    case True
    note here = in_chunk(2) [OF ok(2) True] bit_in_node_eq [OF ok(1) True]
    show ?thesis
    proof (cases "unat b < unat (startbit n) + 64")
      case in_n: True
      then have z: "map_at ns (unat b div 64 * 64) = 0"
        using map_at_below [OF Cons.prems(1)] here(1) by simp
      have upd: "put_chunk b v (map_at (n # ns)) s =
          (if s = unat (startbit n)
           then if v then node_map n OR bit_in_node n b else node_map n AND NOT (bit_in_node n b)
           else map_at ns s)" for s
        using here in_n by (auto simp: put_chunk_def)
      let ?m = "if v then node_map n OR bit_in_node n b else node_map n AND NOT (bit_in_node n b)"
      show ?thesis
      proof (cases "?m = 0")
        case True
        then have v: "\<not> v" using ok(1) by (auto simp: node_ok_def or_eq_0_iff)
        have "put_chunk b v (map_at (n # ns)) s = map_at ns s" for s
          using True v upd [of s] z here(1) in_n by simp
        with True v \<open>startbit n \<le> b\<close> in_n m show ?thesis
          by (simp add: merged_def del: map_at.simps(2))
      next
        case False
        have "merged (put_chunk b v (map_at (n # ns))) (n\<lparr>node_map := ?m\<rparr> # ns)"
          by (rule merged_Cons [OF m])
            (use False ok in \<open>simp_all add: upd node_ok_def map_at_below [OF Cons.prems(1)]
               del: map_at.simps(2)\<close>)
        with False \<open>startbit n \<le> b\<close> in_n show ?thesis
          by (cases v) (simp_all del: map_at.simps(2))
      qed
    next
      case False
      then have lt: "unat (startbit n) < unat b div 64 * 64"
        using ok(2) by (auto elim!: dvdE)
      have "merged (put_chunk b v (map_at (n # ns))) (n # put_bit b v ns)"
        by (rule merged_Cons [OF Cons.IH [OF wf Cons.prems(2)] ok(1)])
          (use lt map_at_below [OF Cons.prems(1)] in \<open>auto simp: put_chunk_def\<close>)
      with True False show ?thesis by (simp del: map_at.simps(2))
    qed
  next
    case False
    then have lt: "unat b div 64 * 64 < unat (startbit n)"
      by (simp add: word_le_nat_alt not_le order_le_less_trans [OF div_times_less_eq_dividend])
    then have z: "map_at (n # ns) (unat b div 64 * 64) = 0"
      using map_at_below [OF Cons.prems(1), of "unat b div 64 * 64"] by simp
    have m': "merged (map_at (n # ns)) (n # ns)" using Cons.prems(1) by (simp add: merged_def)
    show ?thesis
    proof (cases v)
      case True
      have "merged (put_chunk b v (map_at (n # ns))) (bit_node b # n # ns)"
        by (rule merged_Cons [OF m' bit_node_ok [OF Cons.prems(2)]])
          (use lt z True map_at_below [OF Cons.prems(1)] in
            \<open>auto simp: put_chunk_def bit_node_map simp del: map_at.simps(2),
             auto simp: bit_node_def\<close>)
      with True False show ?thesis by (simp del: map_at.simps(2))
    next
      case v: False
      have "put_chunk b v (map_at (n # ns)) s = map_at (n # ns) s" for s
        using v z by (auto simp: put_chunk_def)
      with v False m' show ?thesis by (simp add: merged_def del: map_at.simps(2))
    qed
  qed
qed

lemma nodes_end_simps:
  "nodes_end (ms @ n # ns) = nodes_end (n # ns)"
  "nodes_end [n] = unat (startbit n) + 64"
  "ns \<noteq> [] \<Longrightarrow> nodes_end (n # ns) = nodes_end ns"
  "ns \<noteq> [] \<Longrightarrow> nodes_end (ms @ ns) = nodes_end ns"
  by (simp_all add: nodes_end_def)

lemma unat_end: "node_ok n \<Longrightarrow> unat (startbit n + 64) = unat (startbit n) + 64"
  by (simp add: node_ok_def unat_word_ariths)

lemma set_bit_new_correct:
  assumes "node e = prev @ ns" and "unat (highbit e) = nodes_end (node e)"
    and "unat b < 2 ^ 32 - 64"
  shows "outcome h (set_bit_new e b v prev ns h) no_err
    (\<lambda>e'. node e' = prev @ (if v then bit_node b # ns else ns) \<and>
      unat (highbit e') = nodes_end (node e'))"
proof (cases v)
  case True
  have "unat (map_align b + 64) = unat (map_align b) + 64"
    using unat_end [OF bit_node_ok [OF assms(3)]] by (simp add: bit_node_def)
  with True assms show ?thesis
    by (cases "malloc h")
      (auto simp: set_bit_new_def Let_def bit_node_def nodes_end_simps dest: malloc_okD)
qed (use assms in \<open>simp add: set_bit_new_def\<close>)

lemma ebitmap_set_bit_loop_correct:
  assumes "node e = prev @ ns" and "unat (highbit e) = nodes_end (node e)"
    and "\<And>n. n \<in> set (node e) \<Longrightarrow> node_ok n" and "unat b < 2 ^ 32 - 64"
  shows "outcome h (ebitmap_set_bit_loop e b v prev ns h) no_err
    (\<lambda>e'. node e' = prev @ put_bit b v ns \<and> unat (highbit e') = nodes_end (node e'))"
  using assms
proof (induction ns arbitrary: prev)
  case Nil
  then show ?case using set_bit_new_correct [of e prev "[]" b h v] by auto
next
  case (Cons n ns)
  show ?case
  proof (cases "startbit n \<le> b")
    case le: True
    show ?thesis
    proof (cases "unat b < unat (startbit n) + 64")
      case True
      have prev: "prev \<noteq> [] \<Longrightarrow> node_ok (last prev)"
        using Cons.prems(1,3) by simp
      have upd: "nodes_end (prev @ n\<lparr>node_map := m\<rparr> # ns) = nodes_end (prev @ n # ns)" for m
        by (cases "ns = []") (simp_all add: nodes_end_simps)
      have drop: "nodes_end (prev @ ns) = (if ns = [] then nodes_end prev else nodes_end (node e))"
        using Cons.prems(1) by (simp add: nodes_end_simps)
      show ?thesis
        using le True Cons.prems(1,2) prev
        by (auto simp: Let_def upd drop unat_end nodes_end_def [of prev])
    next
      case False
      with le Cons.IH [of "prev @ [n]"] Cons.prems show ?thesis by simp
    qed
  next
    case False
    with set_bit_new_correct [of e prev "n # ns" b h v] Cons.prems show ?thesis by auto
  qed
qed

lemma map_align_overflow: "map_align b + 64 = 0 \<longleftrightarrow> unat b \<ge> 2 ^ 32 - 64"
proof -
  let ?x = "unat b"
  have x: "?x < 2 ^ 32" using unsigned_less [of b] by simp
  have eq: "map_align b + 64 = 0 \<longleftrightarrow> (?x div 64 * 64 + 64) mod 2 ^ 32 = 0"
    by (simp add: word_unat_eq_iff unat_word_ariths)
  show ?thesis
  proof (cases "?x \<ge> 2 ^ 32 - 64")
    case True
    with x have "?x div 64 = 67108863" by simp
    with True eq show ?thesis by simp
  next
    case False
    then have "?x div 64 \<le> 67108862" by simp
    with False eq show ?thesis by simp
  qed
qed

lemma put_chunk_bit:
  "bit (put_chunk b v c (k div 64 * 64)) (k mod 64) \<longleftrightarrow>
     (if k = unat b then v else bit (c (k div 64 * 64)) (k mod 64))"
proof (cases "k div 64 = unat b div 64")
  case True
  then have "k = unat b \<longleftrightarrow> k mod 64 = unat b mod 64" by (metis div_mult_mod_eq)
  with True show ?thesis
    by (auto simp: put_chunk_def bit_or_iff bit_and_iff bit_not_iff bit_push_bit_iff bit_1_iff
        simp del: push_bit_of_1)
next
  case False
  then have "k \<noteq> unat b" by auto
  with False show ?thesis by (auto simp: put_chunk_def)
qed

theorem ebitmap_set_bit_correct:
  assumes "ebitmap_wf e"
  shows "outcome h (ebitmap_set_bit e b v h) (\<lambda>err. err = EINVAL \<and> unat b \<ge> 2 ^ 32 - 64)
    (\<lambda>e'. ebitmap_wf e' \<and> unat b < 2 ^ 32 - 64 \<and>
      ebitmap_set e' = (if v then insert (unat b) (ebitmap_set e) else ebitmap_set e - {unat b}))"
proof -
  note ovf = map_align_overflow [of b]
  show ?thesis
  proof (cases "unat b \<ge> 2 ^ 32 - 64")
    case False
    then have b: "unat b < 2 ^ 32 - 64" by simp
    have wf: "nodes_wf (node e)" using assms by auto
    have loop: "outcome h (ebitmap_set_bit_loop e b v [] (node e) h) no_err
        (\<lambda>e'. node e' = put_bit b v (node e) \<and> unat (highbit e') = nodes_end (node e'))"
      using ebitmap_set_bit_loop_correct [of e "[]" "node e" b h v] assms wf b
      by (auto simp: ebitmap_wf_def nodes_wf_def)
    have R: "ebitmap_wf e'"
      "ebitmap_set e' = (if v then insert (unat b) (ebitmap_set e) else ebitmap_set e - {unat b})"
      if "node e' = put_bit b v (node e)" "unat (highbit e') = nodes_end (node e')" for e'
    proof -
      have m: "merged (put_chunk b v (map_at (node e))) (node e')"
        using put_bit_merged [OF wf b] that(1) by simp
      then show "ebitmap_wf e'" using that(2) by (simp add: ebitmap_wf_def merged_def)
      have "k \<in> ebitmap_set e' \<longleftrightarrow> (if k = unat b then v else k \<in> ebitmap_set e)" for k
        using m wf put_chunk_bit [of b v "map_at (node e)" k]
        by (simp add: ebitmap_set_iff merged_def)
      then show "ebitmap_set e' =
          (if v then insert (unat b) (ebitmap_set e) else ebitmap_set e - {unat b})"
        by (intro set_eqI) simp
    qed
    have eq: "ebitmap_set_bit e b v h = ebitmap_set_bit_loop e b v [] (node e) h"
      using False ovf by (simp add: ebitmap_set_bit_def)
    show ?thesis
      unfolding eq by (rule outcome_mono [OF loop]) (use R b in simp_all)
  qed (use ovf in \<open>simp add: ebitmap_set_bit_def\<close>)
qed

section \<open>Iteration and counting\<close>

abbreviation node_bits :: "ebitmap_node \<Rightarrow> nat \<Rightarrow> (ebitmap_node \<times> u32) list" where
  "node_bits n j \<equiv> map (\<lambda>i. (n, startbit n + of_nat i)) [j..<64]"

lemma unat_start_plus:
  "node_ok n \<Longrightarrow> i \<le> 64 \<Longrightarrow> unat (startbit n + of_nat i) = unat (startbit n) + i"
  by (subst unat_add_lt) (auto simp: node_ok_def unat_of_nat_lt)

lemma walk_node:
  assumes "node_ok n" and "unat (startbit n) + 64 \<le> unat len"
    and "ns = [] \<Longrightarrow> unat len = unat (startbit n) + 64"
  shows "j \<le> 63 \<Longrightarrow> ebitmap_walk (n # ns) (startbit n + of_nat j) len =
    node_bits n j @ (case ns of [] \<Rightarrow> [] | m # _ \<Rightarrow> ebitmap_walk ns (startbit m) len)"
proof (induction j rule: inc_induct)
  case base
  have u: "unat (startbit n + of_nat 63) = unat (startbit n) + 63"
    by (rule unat_start_plus [OF assms(1)]) simp
  have lt: "startbit n + of_nat 63 < len" using u assms(2) by (simp add: word_less_nat_alt)
  show ?case
  proof (cases ns)
    case Nil
    have "startbit n + of_nat 63 + 1 = startbit n + of_nat 64" by simp
    then have "unat (startbit n + of_nat 63 + 1) = unat len"
      using unat_start_plus [OF assms(1), of 64] assms(3) [OF Nil] by (simp add: add.commute)
    then have "startbit n + of_nat 63 + 1 = len" by (rule word_eq_unatI)
    then have stop: "ebitmap_walk [n] (startbit n + of_nat 63 + 1) len = []"
      by (subst ebitmap_walk.simps) simp
    show ?thesis
      using Nil lt stop by (subst ebitmap_walk.simps) (simp add: ebitmap_next_def)
  next
    case (Cons m ms)
    have "ebitmap_next (n # m # ms) (startbit n + of_nat 63) = (m # ms, startbit m)"
      using u by (simp add: ebitmap_next_def)
    then show ?thesis using Cons lt by (subst ebitmap_walk.simps) simp
  qed
next
  case (step j)
  have u: "unat (startbit n + of_nat j) = unat (startbit n) + j"
    by (rule unat_start_plus [OF assms(1)]) (use step in simp)
  have lt: "startbit n + of_nat j < len" using u step assms(2) by (simp add: word_less_nat_alt)
  have nxt: "ebitmap_next (n # ns) (startbit n + of_nat j) =
      (n # ns, startbit n + of_nat (Suc j))"
    using u step(2) by (auto simp: ebitmap_next_def add.commute split: list.splits)
  have "[j..<64] = j # [Suc j..<64]" using step(2) by (simp add: upt_rec)
  then show ?case
    using step.IH lt nxt by (subst ebitmap_walk.simps) simp
qed

lemma walk_nodes:
  assumes "nodes_wf ns" and "ns \<noteq> []" and "unat len = nodes_end ns"
  shows "ebitmap_walk ns (startbit (hd ns)) len = concat (map (\<lambda>n. node_bits n 0) ns)"
  using assms
proof (induction ns)
  case (Cons n ns)
  have ok: "node_ok n" and wf: "nodes_wf ns" using Cons.prems by (auto simp: nodes_wf_Cons)
  have ge: "unat (startbit n) + 64 \<le> unat len"
    using Cons.prems(1,3) ok nodes_end_le_iff [OF Cons.prems(1), of "unat len"]
    by (force simp: node_ok_def)
  have "ebitmap_walk (n # ns) (startbit n + of_nat 0) len =
      node_bits n 0 @ (case ns of [] \<Rightarrow> [] | m # _ \<Rightarrow> ebitmap_walk ns (startbit m) len)"
    by (rule walk_node [OF ok ge]) (use Cons.prems in \<open>auto simp: nodes_end_simps\<close>)
  then show ?case
    using Cons.IH [OF wf] Cons.prems(3) by (cases ns) (auto simp: nodes_end_simps)
qed simp

lemma node_get_bit_iff:
  assumes "node_ok n" and "i < 64"
  shows "ebitmap_node_get_bit n (startbit n + of_nat i) \<longleftrightarrow> bit (node_map n) i"
proof -
  have u: "unat (startbit n + of_nat i) = unat (startbit n) + i"
    by (rule unat_start_plus [OF assms(1)]) (use assms(2) in simp)
  then have "unat (startbit n + of_nat i - startbit n) = i"
    by (subst unat_diff) (simp_all add: word_le_nat_alt)
  with assms(2) show ?thesis
    by (simp add: ebitmap_node_get_bit_def bit_in_node_def bit_AND_push_1 del: push_bit_of_1)
qed

definition nodes_bits :: "ebitmap_node list \<Rightarrow> nat list" where
  "nodes_bits ns = concat (map (\<lambda>n. map (\<lambda>i. unat (startbit n) + i)
     (filter (bit (node_map n)) [0..<64])) ns)"

lemma positive_bits_eq:
  assumes "ebitmap_wf e"
  shows "map unat (ebitmap_positive_bits e) = nodes_bits (node e)"
proof (cases "node e = []")
  case True
  then show ?thesis
    by (simp add: ebitmap_positive_bits_def ebitmap_for_each_bit_def nodes_bits_def
        ebitmap_walk.simps)
next
  case False
  have "ebitmap_for_each_bit e = concat (map (\<lambda>n. node_bits n 0) (node e))"
    using walk_nodes [of "node e" "highbit e"] assms False
    by (auto simp: ebitmap_for_each_bit_def ebitmap_startbit_def ebitmap_length_def ebitmap_wf_def
        split: list.splits)
  moreover have "map unat (map snd (filter (\<lambda>(n, b). ebitmap_node_get_bit n b)
      (concat (map (\<lambda>n. node_bits n 0) ns)))) = nodes_bits ns"
    if "\<And>n. n \<in> set ns \<Longrightarrow> node_ok n" for ns
    using that
  proof (induction ns)
    case (Cons n ns)
    have "filter (\<lambda>(n, b). ebitmap_node_get_bit n b) (node_bits n 0) =
        map (\<lambda>i. (n, startbit n + of_nat i)) (filter (bit (node_map n)) [0..<64])"
      unfolding filter_map o_def
      by (rule arg_cong [where f = "map _"], rule filter_cong)
        (use Cons.prems in \<open>auto simp: node_get_bit_iff\<close>)
    moreover have "map (\<lambda>i. unat (startbit n + of_nat i)) (filter (bit (node_map n)) [0..<64]) =
        map (\<lambda>i. unat (startbit n) + i) (filter (bit (node_map n)) [0..<64])"
      by (rule map_cong) (use Cons.prems in \<open>auto simp: unat_start_plus\<close>)
    ultimately show ?case using Cons by (simp add: nodes_bits_def o_def)
  qed (simp add: nodes_bits_def)
  ultimately show ?thesis
    using assms by (auto simp: ebitmap_positive_bits_def ebitmap_wf_def nodes_wf_def)
qed

lemma nodes_bits_sorted: "nodes_wf ns \<Longrightarrow> sorted_wrt (<) (nodes_bits ns)"
proof (induction ns)
  case (Cons n ns)
  have al: "64 dvd unat (startbit m)" if "m \<in> set (n # ns)" for m
    using Cons.prems that by (auto simp: nodes_wf_def node_ok_def)
  have "unat (startbit n) + 64 \<le> unat (startbit m)" if "m \<in> set ns" for m
  proof -
    have "unat (startbit n) < unat (startbit m)"
      using Cons.prems that by (auto simp: nodes_wf_def word_less_nat_alt)
    with al [of n] al [of m] that show ?thesis by (auto elim!: dvdE)
  qed
  then have "\<forall>x \<in> set (map (\<lambda>i. unat (startbit n) + i) (filter (bit (node_map n)) [0..<64])).
      \<forall>y \<in> set (nodes_bits ns). x < y"
    by (fastforce simp: nodes_bits_def)
  moreover have "sorted_wrt (<) (map (\<lambda>i. unat (startbit n) + i)
      (filter (bit (node_map n)) [0..<64]))"
    by (simp add: sorted_wrt_map sorted_wrt_filter)
  ultimately show ?case
    using Cons.IH [OF nodes_wf_tl [OF Cons.prems]]
    by (auto simp: nodes_bits_def sorted_wrt_append)
qed (simp add: nodes_bits_def)

lemma nodes_bits_set: "set (nodes_bits (node e)) = ebitmap_set e"
proof -
  have "b \<in> set (nodes_bits (node e)) \<longleftrightarrow> b \<in> ebitmap_set e" for b
  proof
    assume "b \<in> ebitmap_set e"
    then obtain n where "n \<in> set (node e)" "unat (startbit n) \<le> b" "b < unat (startbit n) + 64"
        "bit (node_map n) (b - unat (startbit n))"
      by (auto simp: ebitmap_set_def)
    then show "b \<in> set (nodes_bits (node e))"
      by (force simp: nodes_bits_def image_iff intro!: bexI [of _ n] exI [of _ "b - unat (startbit n)"])
  next
    assume "b \<in> set (nodes_bits (node e))"
    then obtain n i where "n \<in> set (node e)" "b = unat (startbit n) + i" "i < 64" "bit (node_map n) i"
      by (auto simp: nodes_bits_def)
    then show "b \<in> ebitmap_set e" by (force simp: ebitmap_set_def)
  qed
  then show ?thesis by blast
qed

theorem ebitmap_positive_bits_correct:
  assumes "ebitmap_wf e"
  shows "map unat (ebitmap_positive_bits e) = sorted_list_of_set (ebitmap_set e)"
proof -
  have "sorted_wrt (<) (nodes_bits (node e))" using assms by (blast intro: nodes_bits_sorted)
  then have "sorted_list_of_set (set (nodes_bits (node e))) = nodes_bits (node e)"
    by (metis sorted_list_of_set.idem_if_sorted_distinct strict_sorted_iff)
  then show ?thesis by (simp add: positive_bits_eq [OF assms] nodes_bits_set)
qed

lemma positive_bits_iff:
  "ebitmap_wf e \<Longrightarrow> b \<in> set (ebitmap_positive_bits e) \<longleftrightarrow> ebitmap_get_bit e b"
proof -
  assume wf: "ebitmap_wf e"
  have "unat ` set (ebitmap_positive_bits e) = ebitmap_set e"
    using arg_cong [OF positive_bits_eq [OF wf], of set] by (simp add: nodes_bits_set)
  then show ?thesis
    by (metis ebitmap_get_bit_correct [OF wf] image_iff word_eq_unatI)
qed

lemma finite_ebitmap_set [simp]: "finite (ebitmap_set e)"
  using finite_set [of "nodes_bits (node e)"] by (simp add: nodes_bits_set)

lemma foldl_count:
  "foldl (\<lambda>c n. c + of_nat (f n)) c ns = c + of_nat (sum_list (map f ns))"
  for c :: "'a::semiring_1"
  by (induction ns arbitrary: c) (auto simp: add.assoc)

theorem ebitmap_cardinality_correct:
  assumes "ebitmap_wf e"
  shows "unat (ebitmap_cardinality e) = card (ebitmap_set e)"
proof -
  have "sum_list (map (\<lambda>n. popcountll (node_map n)) ns) = length (nodes_bits ns)" for ns
    by (induction ns) (auto simp: nodes_bits_def popcountll_def)
  moreover have "length (nodes_bits (node e)) = card (ebitmap_set e)"
    using nodes_bits_sorted [of "node e"] assms distinct_card [of "nodes_bits (node e)"]
    by (auto simp: nodes_bits_set strict_sorted_iff)
  moreover have "card (ebitmap_set e) < 2 ^ 32"
  proof -
    have "ebitmap_set e \<subseteq> {..< 2 ^ 32 - 1}"
      using assms by (force simp: ebitmap_set_def ebitmap_wf_def nodes_wf_def node_ok_def)
    from card_mono [OF _ this] show ?thesis by simp
  qed
  ultimately show ?thesis
    by (simp add: ebitmap_cardinality_def foldl_count unat_of_nat_lt)
qed

end
