(* ===== verification/Ebitmap_Ranges.thy ===== *)
theory Ebitmap_Ranges
  imports Ebitmap
begin

text \<open>
  The operations of \<open>ebitmap.c\<close> that count through the bit positions: complement up to a bound
  (\<open>ebitmap_not\<close>, \<open>ebitmap_andnot\<close>), ranges (\<open>ebitmap_init_range\<close>), the Hamming distance and
  the highest bit. The two counting loops run on a 32-bit counter: \<open>ebitmap_not\<close> returns exactly
  when \<open>maxbit\<close> is at most \<open>0xffffffc0\<close>, and \<open>ebitmap_init_range\<close> always does.
\<close>

unbundle bit_operations_syntax

section \<open>Complement\<close>

definition not_map :: "(nat \<Rightarrow> u64) \<Rightarrow> nat \<Rightarrow> nat \<Rightarrow> u64" where
  "not_map c maxbit s =
     (if s < maxbit \<and> 64 dvd s
      then if maxbit - s < 64 then NOT (c s) AND mask (maxbit - s) else NOT (c s)
      else 0)"

lemma not_chunk_eq:
  assumes "nodes_wf n" and "\<And>s. map_at n s \<noteq> 0 \<Longrightarrow> unat cur \<le> s"
    and "cur < maxbit" and "64 dvd unat cur"
  shows "not_chunk n cur maxbit = not_map (map_at n) (unat maxbit) (unat cur)"
proof -
  have "map_at n (unat cur) =
      (case n of x # _ \<Rightarrow> if startbit x = cur then node_map x else 0 | [] \<Rightarrow> 0)"
  proof (cases n)
    case (Cons x xs)
    have "map_at n (unat (startbit x)) \<noteq> 0"
      using assms(1) Cons by (simp add: nodes_wf_Cons node_ok_def)
    then have "unat cur \<le> unat (startbit x)" by (rule assms(2))
    with Cons assms(1) show ?thesis by (auto simp: map_at_below)
  qed simp
  moreover have "unat (maxbit - cur) = unat maxbit - unat cur" using assms(3) by simp
  moreover have "push_bit k (1 :: u64) - 1 = mask k" for k by (simp add: mask_eq_exp_minus_1)
  moreover have "unat cur < unat maxbit" using assms(3) by (simp add: word_less_nat_alt)
  ultimately show ?thesis
    using assms(4) by (auto simp: not_chunk_def not_map_def Let_def
        split: list.splits if_splits)
qed

lemma not_next_wf:
  assumes "nodes_wf n" and "\<And>s. map_at n s \<noteq> 0 \<Longrightarrow> unat cur \<le> s" and "64 dvd unat cur"
  shows "nodes_wf (not_next n cur)"
    and "map_at (not_next n cur) s = (if s = unat cur then 0 else map_at n s)"
    and "map_at (not_next n cur) s \<noteq> 0 \<Longrightarrow> unat cur + 64 \<le> s"
proof -
  show wf: "nodes_wf (not_next n cur)"
    using assms(1) by (auto simp: not_next_def split: list.splits dest: nodes_wf_tl)
  show map: "map_at (not_next n cur) s = (if s = unat cur then 0 else map_at n s)" for s
  proof (cases n)
    case (Cons x xs)
    have "map_at n (unat (startbit x)) \<noteq> 0"
      using assms(1) Cons by (simp add: nodes_wf_Cons node_ok_def)
    then have "unat cur \<le> unat (startbit x)" by (rule assms(2))
    with Cons assms(1) show ?thesis by (auto simp: not_next_def map_at_below)
  qed (simp add: not_next_def)
  assume s: "map_at (not_next n cur) s \<noteq> 0"
  then have n: "map_at n s \<noteq> 0" "s \<noteq> unat cur" using map [of s] by (auto split: if_splits)
  then have "64 dvd s"
    using assms(1) by (auto simp: map_at_nonzero nodes_wf_def node_ok_def)
  with assms(2) [OF n(1)] n(2) assms(3) show "unat cur + 64 \<le> s" by (auto elim!: dvdE)
qed

lemma counter_step:
  fixes cur maxbit :: u32
  assumes "cur < maxbit" and "64 dvd unat cur" and "unat maxbit \<le> 2 ^ 32 - 64"
  shows "unat (cur + 64) = unat cur + 64"
  using assms by (subst unat_add_lt) (auto simp: word_less_nat_alt)

lemma ebitmap_not_loop_correct:
  assumes "nodes_wf n" and "\<And>s. map_at n s \<noteq> 0 \<Longrightarrow> unat cur \<le> s"
    and "64 dvd unat cur" and "unat maxbit \<le> 2 ^ 32 - 64"
  shows "\<exists>r. ebitmap_not_loop dst n cur maxbit h = Some r \<and>
    outcome h r no_err (\<lambda>ns. \<exists>ms. ns = dst @ ms \<and>
      merged (\<lambda>s. if unat cur \<le> s then not_map (map_at n) (unat maxbit) s else 0) ms)"
  using assms
proof (induction "unat maxbit - unat cur" arbitrary: dst n cur h rule: less_induct)
  case less
  let ?c = "\<lambda>n (cur :: u32) s. if unat cur \<le> s then not_map (map_at n) (unat maxbit) s else 0"
  show ?case
  proof (cases "cur < maxbit")
    case False
    then have "merged (?c n cur) []" by (auto simp: merged_Nil not_map_def word_less_nat_alt)
    with False show ?thesis by (subst ebitmap_not_loop.simps) auto
  next
    case True
    note nxt = not_next_wf [OF less.prems(1,2,3)] and up = counter_step [OF True less.prems(3,4)]
    note chunk = not_chunk_eq [OF less.prems(1,2) True less.prems(3)]
    have IH: "\<exists>r. ebitmap_not_loop dst' (not_next n cur) (cur + 64) maxbit h' = Some r \<and>
        outcome h' r no_err (\<lambda>ns. \<exists>ms. ns = dst' @ ms \<and>
          merged (?c (not_next n cur) (cur + 64)) ms)" for dst' h'
      by (rule less.hyps) (use True nxt up less.prems in \<open>auto simp: word_less_nat_alt\<close>)
    have c: "?c n cur s = (if s = unat cur then not_chunk n cur maxbit
        else ?c (not_next n cur) (cur + 64) s)" for s
      using nxt(2) [of s] chunk less.prems(3) up by (auto simp: not_map_def elim!: dvdE)
    show ?thesis
    proof (cases "not_chunk n cur maxbit = 0")
      case zero: True
      then have eq: "?c n cur = ?c (not_next n cur) (cur + 64)"
        using c up by (auto simp: fun_eq_iff)
      from IH [of dst h] obtain r where r: "ebitmap_not_loop dst (not_next n cur) (cur + 64) maxbit h = Some r"
        "outcome h r no_err (\<lambda>ns. \<exists>ms. ns = dst @ ms \<and> merged (?c (not_next n cur) (cur + 64)) ms)"
        by blast
      have "ebitmap_not_loop dst n cur maxbit h = Some r"
        using True zero r(1) by (subst ebitmap_not_loop.simps) simp
      with r(2) eq show ?thesis by (intro exI [of _ r]) simp
    next
      case nz: False
      let ?new = "\<lparr>startbit = cur, node_map = not_chunk n cur maxbit\<rparr>"
      have ok: "node_ok ?new"
        using nz up less.prems(3,4) True by (auto simp: node_ok_def word_less_nat_alt)
      have cons: "merged (?c n cur) (?new # ms)" if "merged (?c (not_next n cur) (cur + 64)) ms" for ms
        by (rule merged_Cons [OF that ok]) (use c up in auto)
      show ?thesis
      proof (cases "fst (malloc h)")
        case ok: True
        from IH [of "dst @ [?new]" "snd (malloc h)"] obtain r where
          r: "ebitmap_not_loop (dst @ [?new]) (not_next n cur) (cur + 64) maxbit (snd (malloc h)) = Some r"
          "outcome (snd (malloc h)) r no_err (\<lambda>ns. \<exists>ms. ns = (dst @ [?new]) @ ms \<and>
            merged (?c (not_next n cur) (cur + 64)) ms)"
          by blast
        have "ebitmap_not_loop dst n cur maxbit h = Some r"
          using True nz ok r(1) by (subst ebitmap_not_loop.simps) simp
        moreover have "outcome h r no_err (\<lambda>ns. \<exists>ms. ns = dst @ ms \<and> merged (?c n cur) ms)"
        proof (cases r)
          case (Inl e)
          with r(2) mem_ok_malloc [of h] show ?thesis by auto
        next
          case (Inr p)
          with r(2) mem_ok_malloc [of h] cons show ?thesis by (cases p) fastforce
        qed
        ultimately show ?thesis by blast
      next
        case fail: False
        then have "ebitmap_not_loop dst n cur maxbit h = Some (Inl ENOMEM)"
          using True nz by (subst ebitmap_not_loop.simps) simp
        with fail mem_ok_malloc [of h] show ?thesis by auto
      qed
    qed
  qed
qed

lemma not_map_bit:
  assumes "bit (c (b div 64 * 64)) (b mod 64) \<longleftrightarrow> b \<in> S"
  shows "bit (not_map c m (b div 64 * 64)) (b mod 64) \<longleftrightarrow> b < m \<and> b \<notin> S"
proof -
  have "b div 64 * 64 + b mod 64 = b" by simp
  then have "b mod 64 < m - b div 64 * 64 \<longleftrightarrow> b < m" if "b div 64 * 64 < m" using that by linarith
  moreover have "b < m \<Longrightarrow> b div 64 * 64 < m" by (simp add: order_le_less_trans [OF div_times_less_eq_dividend])
  moreover have "b < m" if "b div 64 * 64 < m" "\<not> m - b div 64 * 64 < 64"
    using that by presburger
  ultimately show ?thesis
    using assms by (auto simp: not_map_def bit_not_iff bit_and_iff bit_mask_iff)
qed

theorem ebitmap_not_correct:
  assumes "ebitmap_wf e" and "unat maxbit \<le> 2 ^ 32 - 64"
  shows "\<exists>r. ebitmap_not e maxbit h = Some r \<and>
    outcome h r no_err (\<lambda>e'. ebitmap_wf e' \<and> ebitmap_set e' = {b. b < unat maxbit \<and> b \<notin> ebitmap_set e})"
proof -
  have wf: "nodes_wf (node e)" using assms(1) by auto
  obtain r where r: "ebitmap_not_loop [] (node e) 0 maxbit h = Some r"
    "outcome h r no_err (merged (not_map (map_at (node e)) (unat maxbit)))"
    using ebitmap_not_loop_correct [OF wf, of 0 maxbit "[]" h] assms(2) by auto
  have "outcome h (bind_res r (\<lambda>(ns, h'). Inr (set_highbit ns, h'))) no_err
      (\<lambda>e'. ebitmap_wf e' \<and> ebitmap_set e' = {b. b < unat maxbit \<and> b \<notin> ebitmap_set e})"
    by (rule outcome_set_highbit [OF r(2)])
      (simp add: not_map_bit [where S = "ebitmap_set e"] ebitmap_set_iff [OF wf])
  with r(1) show ?thesis by (simp add: ebitmap_not_def)
qed

theorem ebitmap_not_diverges:
  assumes "unat maxbit > 2 ^ 32 - 64"
  shows "ebitmap_not e maxbit [] = None"
proof -
  have "\<not> (64 dvd unat cur \<and> h = [] \<and> mb = maxbit)"
    if "ebitmap_not_loop dst n cur mb h = Some r" for dst n cur mb h r
  proof (rule ebitmap_not_loop.raw_induct
      [where P = "\<lambda>dst n cur mb h r. \<not> (64 dvd unat cur \<and> h = [] \<and> mb = maxbit)", OF _ that])
    fix loop dst n cur mb h r
    assume IH: "\<And>dst n cur mb h r. loop dst n cur mb h = Some r \<Longrightarrow>
        \<not> (64 dvd unat cur \<and> h = [] \<and> mb = maxbit)"
      and eq: "(if cur < mb
        then if not_chunk n cur mb \<noteq> 0
          then if fst (malloc h)
            then loop (dst @ [\<lparr>startbit = cur, node_map = not_chunk n cur mb\<rparr>])
                   (not_next n cur) (cur + 64) mb (snd (malloc h))
            else Some (Inl ENOMEM)
          else loop dst (not_next n cur) (cur + 64) mb h
        else Some (Inr (dst, h))) = Some r"
    show "\<not> (64 dvd unat cur \<and> h = [] \<and> mb = maxbit)"
    proof
      assume a: "64 dvd unat cur \<and> h = [] \<and> mb = maxbit"
      have lt: "unat cur < 2 ^ 32" using unsigned_less [of cur] by simp
      from a obtain k where k: "unat cur = 64 * k" by (elim conjE dvdE)
      with lt have "unat cur \<le> 2 ^ 32 - 64" by simp
      then have "cur < mb" using a assms by (simp add: word_less_nat_alt)
      moreover have "64 dvd unat (cur + 64)"
      proof (cases "unat cur + 64 < 2 ^ 32")
        case True
        then have "unat (cur + 64) = unat cur + 64" by (subst unat_add_lt) simp_all
        with k show ?thesis by simp
      next
        case False
        with \<open>unat cur \<le> 2 ^ 32 - 64\<close> have "unat cur + 64 = 2 ^ 32" by simp
        then have "unat (cur + 64) = 0" by (simp add: unat_word_ariths)
        then show ?thesis by simp
      qed
      ultimately show False
        using a eq IH [of _ _ "cur + 64" maxbit "[]"] by (auto split: if_splits)
    qed
  qed
  from this [of "[]" "node e" 0 maxbit "[]"] show ?thesis
    by (cases "ebitmap_not_loop [] (node e) 0 maxbit []") (auto simp: ebitmap_not_def)
qed

theorem ebitmap_andnot_correct:
  assumes "ebitmap_wf e1" and "ebitmap_wf e2" and "unat maxbit \<le> 2 ^ 32 - 64"
  shows "\<exists>r. ebitmap_andnot e1 e2 maxbit h = Some r \<and>
    outcome h r no_err (\<lambda>e'. ebitmap_wf e' \<and>
      ebitmap_set e' = {b \<in> ebitmap_set e1. b < unat maxbit \<and> b \<notin> ebitmap_set e2})"
proof -
  obtain r where r: "ebitmap_not e2 maxbit h = Some r" and o: "outcome h r no_err
      (\<lambda>e'. ebitmap_wf e' \<and> ebitmap_set e' = {b. b < unat maxbit \<and> b \<notin> ebitmap_set e2})"
    using ebitmap_not_correct [OF assms(2,3)] by blast
  have "outcome h (bind_res r (\<lambda>(e3, h'). ebitmap_and e1 e3 h')) no_err (\<lambda>e'. ebitmap_wf e' \<and>
      ebitmap_set e' = {b \<in> ebitmap_set e1. b < unat maxbit \<and> b \<notin> ebitmap_set e2})"
  proof (rule outcome_bind [OF o])
    fix e3 h'
    assume e3: "ebitmap_wf e3 \<and> ebitmap_set e3 = {b. b < unat maxbit \<and> b \<notin> ebitmap_set e2}"
    have "outcome h' (ebitmap_and e1 e3 h') no_err
        (\<lambda>e. ebitmap_wf e \<and> ebitmap_set e = ebitmap_set e1 \<inter> ebitmap_set e3)"
      using e3 by (intro ebitmap_and_correct assms) simp
    then show "outcome h' (case (e3, h') of (e3, h') \<Rightarrow> ebitmap_and e1 e3 h') no_err (\<lambda>e'. ebitmap_wf e' \<and>
        ebitmap_set e' = {b \<in> ebitmap_set e1. b < unat maxbit \<and> b \<notin> ebitmap_set e2})"
      using e3 by (auto elim!: outcome_mono)
  qed
  with r show ?thesis by (simp add: ebitmap_andnot_def)
qed

section \<open>Distance and highest bit\<close>

theorem ebitmap_hamming_distance_correct:
  assumes "ebitmap_wf e1" and "ebitmap_wf e2"
  shows "outcome h (ebitmap_hamming_distance e1 e2 h) (\<lambda>e. e = FAIL \<and> \<not> mem_ok h)
    (\<lambda>d. unat d = card ((ebitmap_set e1 - ebitmap_set e2) \<union> (ebitmap_set e2 - ebitmap_set e1)))"
proof (cases "ebitmap_cmp e1 e2")
  case True
  then show ?thesis using assms by (simp add: ebitmap_hamming_distance_def ebitmap_cmp_correct)
next
  case False
  have o: "outcome h (catch_res FAIL (ebitmap_xor e1 e2 h)) (\<lambda>e. e = FAIL \<and> \<not> mem_ok h)
      (\<lambda>e. ebitmap_wf e \<and>
        ebitmap_set e = (ebitmap_set e1 - ebitmap_set e2) \<union> (ebitmap_set e2 - ebitmap_set e1))"
    by (rule outcome_catch [OF ebitmap_xor_correct [OF assms]]) auto
  show ?thesis
    unfolding ebitmap_hamming_distance_def if_not_P [OF False]
    by (rule outcome_bind [OF o]) (simp add: ebitmap_cardinality_correct)
qed

lemma highest_bit_loop_correct:
  "m \<noteq> 0 \<Longrightarrow> \<exists>k < 64. bit m k \<and> (\<forall>j. bit m j \<longrightarrow> j \<le> k) \<and>
     highest_bit_loop m pos = pos + of_nat k"
proof (induction m pos rule: highest_bit_loop.induct)
  case (1 m pos)
  show ?case
  proof (cases "drop_bit 1 m = 0")
    case True
    have z: "\<not> bit m (Suc j)" for j
    proof -
      have "\<not> bit (drop_bit 1 m) j" using True by simp
      then show ?thesis by (simp only: bit_drop_bit_eq) simp
    qed
    have "bit m 0"
    proof (rule ccontr)
      assume "\<not> bit m 0"
      with z have "\<not> bit m j" for j by (cases j) auto
      then have "m = 0" by (intro bit_word_eqI) simp
      with \<open>m \<noteq> 0\<close> show False by simp
    qed
    moreover have "j = 0" if "bit m j" for j using z that by (cases j) auto
    ultimately show ?thesis using True
      by (subst highest_bit_loop.simps) (auto intro!: exI [of _ 0])
  next
    case False
    with "1.IH" obtain k where k: "k < 64" "bit m (Suc k)" "\<forall>j. bit m (Suc j) \<longrightarrow> j \<le> k"
      "highest_bit_loop (drop_bit 1 m) (pos + 1) = pos + 1 + of_nat k"
      by (auto simp: bit_drop_bit_eq simp del: drop_bit_Suc)
    have "Suc k < 64" using bit_imp_le_length [OF k(2)] by simp
    moreover have "j \<le> Suc k" if "bit m j" for j using k(3) that by (cases j) auto
    ultimately show ?thesis
      using k(2,4) False by (subst highest_bit_loop.simps) (auto intro!: exI [of _ "Suc k"])
  qed
qed

theorem ebitmap_highest_set_bit_correct:
  assumes "ebitmap_wf e" and "ebitmap_set e \<noteq> {}"
  shows "unat (ebitmap_highest_set_bit e) = Max (ebitmap_set e)"
proof -
  have ne: "node e \<noteq> []" using assms(2) by (auto simp: ebitmap_set_def)
  let ?n = "last (node e)"
  have wf: "nodes_wf (node e)" using assms(1) by auto
  have ok: "node_ok ?n" using wf ne by (simp add: nodes_wf_def)
  then obtain k where k: "k < 64" "bit (node_map ?n) k" "\<forall>j. bit (node_map ?n) j \<longrightarrow> j \<le> k"
    "highest_bit_loop (node_map ?n) 0 = 0 + of_nat k"
    using highest_bit_loop_correct [of "node_map ?n" 0] by (auto simp: node_ok_def)
  have eq: "unat (ebitmap_highest_set_bit e) = unat (startbit ?n) + k"
    using ne k(1,4) unat_start_plus [OF ok, of k] by (simp add: ebitmap_highest_set_bit_def Let_def)
  have "Max (ebitmap_set e) = unat (startbit ?n) + k"
  proof (rule Max_eqI)
    show "unat (startbit ?n) + k \<in> ebitmap_set e"
      using ne k(1,2) unfolding ebitmap_set_def by (auto intro!: bexI [of _ ?n])
  next
    fix b assume "b \<in> ebitmap_set e"
    then obtain n where n: "n \<in> set (node e)" "unat (startbit n) \<le> b"
      "b < unat (startbit n) + 64" "bit (node_map n) (b - unat (startbit n))"
      by (auto simp: ebitmap_set_def)
    show "b \<le> unat (startbit ?n) + k"
    proof (cases "n = ?n")
      case True
      with n(4) k(3) have "b - unat (startbit ?n) \<le> k" by blast
      then show ?thesis by simp
    next
      case False
      have "startbit n < startbit ?n"
        using sorted_wrt_last [of "\<lambda>a b. startbit a < startbit b" "node e" n] wf n(1) False by (simp add: nodes_wf_def)
      moreover have "64 dvd unat (startbit n)" "64 dvd unat (startbit ?n)"
        using wf ne n(1) by (auto simp: nodes_wf_def node_ok_def)
      ultimately have "unat (startbit n) + 64 \<le> unat (startbit ?n)"
        by (auto simp: word_less_nat_alt elim!: dvdE)
      with n(3) show ?thesis by simp
    qed
  qed simp
  with eq show ?thesis by simp
qed

section \<open>Ranges\<close>

lemma bit_ones: "bit (NOT 0 :: u64) j \<longleftrightarrow> j < 64"
  by (simp add: bit_simps)

lemma ones_bits:
  assumes "i < 64"
  shows "bit (push_bit a (NOT 0 :: u64)) i \<longleftrightarrow> a \<le> i"
    and "c \<le> 64 \<Longrightarrow> bit (drop_bit (64 - c) (NOT 0 :: u64)) i \<longleftrightarrow> i < c"
    and "c \<le> 64 \<Longrightarrow> bit (push_bit a (drop_bit (64 - c) (NOT 0 :: u64))) i \<longleftrightarrow> a \<le> i \<and> i < a + c"
proof -
  show "bit (push_bit a (NOT 0 :: u64)) i \<longleftrightarrow> a \<le> i"
    using assms by (simp only: bit_push_bit_iff bit_ones possible_bit_word) auto
  show "c \<le> 64 \<Longrightarrow> bit (drop_bit (64 - c) (NOT 0 :: u64)) i \<longleftrightarrow> i < c"
    using assms by (simp only: bit_drop_bit_eq bit_ones comp_def) linarith
  show "c \<le> 64 \<Longrightarrow> bit (push_bit a (drop_bit (64 - c) (NOT 0 :: u64))) i \<longleftrightarrow> a \<le> i \<and> i < a + c"
    using assms by (simp only: bit_push_bit_iff bit_drop_bit_eq bit_ones comp_def possible_bit_word) auto
qed

lemma range_chunk_bit:
  assumes "minbit \<le> maxbit" and "64 dvd unat s" and "i < 64"
    and "unat (map_align minbit) \<le> unat s" and "unat s \<le> unat (map_align maxbit)"
  shows "bit (range_chunk minbit maxbit s) i \<longleftrightarrow> unat minbit \<le> unat s + i \<and> unat s + i \<le> unat maxbit"
proof -
  obtain k where k: "unat s = 64 * k" using assms(2) by (elim dvdE)
  have eq: "s = map_align x \<longleftrightarrow> k = unat x div 64" for x
    using k by (simp add: word_unat_eq_iff del: unat_eq_iff)
  have lo: "unat minbit div 64 \<le> k" and hi: "k \<le> unat maxbit div 64"
    using assms(4,5) k by simp_all
  have le: "unat minbit \<le> unat maxbit" using assms(1) by (simp add: word_le_nat_alt)
  have a: "unat minbit = 64 * (unat minbit div 64) + unat minbit mod 64" "unat minbit mod 64 < 64"
    and b: "unat maxbit = 64 * (unat maxbit div 64) + unat maxbit mod 64" "unat maxbit mod 64 < 64"
    by simp_all
  have dmin: "unat (minbit - s) = unat minbit mod 64" if "k = unat minbit div 64"
  proof -
    have "s \<le> minbit" using that k by (simp add: word_le_nat_alt)
    then show ?thesis using that k by (simp add: minus_mult_div_eq_mod)
  qed
  have dmax: "unat (maxbit - s + 1) = unat maxbit mod 64 + 1" if "k = unat maxbit div 64"
  proof -
    have "s \<le> maxbit" using that k by (simp add: word_le_nat_alt)
    then have "unat (maxbit - s) = unat maxbit mod 64"
      using that k by (simp add: minus_mult_div_eq_mod)
    then show ?thesis by (subst unat_add_lt) simp_all
  qed
  have dd: "unat (maxbit - minbit + 1) = unat maxbit - unat minbit + 1"
    if "unat minbit div 64 = unat maxbit div 64"
  proof -
    have "unat maxbit - unat minbit < 64" using that a b by linarith
    with assms(1) show ?thesis by (subst unat_add_lt) simp_all
  qed
  note bits = ones_bits [OF assms(3)]
  consider "k \<noteq> unat minbit div 64" "k \<noteq> unat maxbit div 64"
    | "k = unat minbit div 64" "k \<noteq> unat maxbit div 64"
    | "k \<noteq> unat minbit div 64" "k = unat maxbit div 64"
    | "k = unat minbit div 64" "k = unat maxbit div 64" by blast
  then show ?thesis
  proof cases
    case 1
    with lo hi have "unat minbit div 64 < k" "k < unat maxbit div 64" by simp_all
    then have "unat minbit \<le> 64 * k + i" "64 * k + i \<le> unat maxbit" using assms(3) by linarith+
    with 1 eq k assms(3) show ?thesis by (simp add: range_chunk_def bit_not_iff)
  next
    case 2
    with hi have "64 * k + i \<le> unat maxbit" using assms(3) by linarith
    moreover have "unat minbit \<le> 64 * k + i \<longleftrightarrow> unat minbit mod 64 \<le> i" using 2(1) a by linarith
    moreover have "range_chunk minbit maxbit s = push_bit (unat minbit mod 64) (NOT 0)"
      unfolding range_chunk_def using 2 eq dmin by (simp only: Let_def simp_thms if_False if_True)
    ultimately show ?thesis using k bits(1) [of "unat minbit mod 64"] by (simp del: bit.compl_zero)
  next
    case 3
    with lo have "unat minbit \<le> 64 * k + i" by linarith
    moreover have "64 * k + i \<le> unat maxbit \<longleftrightarrow> i < unat maxbit mod 64 + 1" using 3(2) b by linarith
    moreover have "range_chunk minbit maxbit s = drop_bit (64 - (unat maxbit mod 64 + 1)) (NOT 0)"
      unfolding range_chunk_def using 3 eq dmax by (simp only: Let_def simp_thms if_False if_True)
    ultimately show ?thesis using k bits(2) [of "unat maxbit mod 64 + 1"] by (simp del: bit.compl_zero)
  next
    case 4
    then have same: "unat minbit div 64 = unat maxbit div 64" by simp
    have "64 * k + i \<le> unat maxbit \<longleftrightarrow> i < unat minbit mod 64 + (unat maxbit - unat minbit + 1)"
      using 4 le a b by linarith
    moreover have "unat minbit \<le> 64 * k + i \<longleftrightarrow> unat minbit mod 64 \<le> i" using 4(1) a by linarith
    moreover have "range_chunk minbit maxbit s =
        push_bit (unat minbit mod 64) (drop_bit (64 - (unat maxbit - unat minbit + 1)) (NOT 0))"
      unfolding range_chunk_def using 4 eq dmin dd [OF same] 
      by (simp only: Let_def simp_thms if_False if_True)
    moreover have "unat maxbit - unat minbit + 1 \<le> 64" using same a b by linarith
    ultimately show ?thesis
      using k bits(3) [of "unat maxbit - unat minbit + 1" "unat minbit mod 64"]
      by (simp del: bit.compl_zero)
  qed
qed

definition range_map :: "u32 \<Rightarrow> u32 \<Rightarrow> nat \<Rightarrow> nat \<Rightarrow> u64" where
  "range_map minbit maxbit start s =
     (if start \<le> s \<and> s \<le> unat (map_align maxbit) \<and> 64 dvd s
      then range_chunk minbit maxbit (of_nat s) else 0)"

lemma range_chunk_nonzero:
  assumes "minbit \<le> maxbit" and "64 dvd unat s"
    and "unat (map_align minbit) \<le> unat s" and "unat s \<le> unat (map_align maxbit)"
  shows "range_chunk minbit maxbit s \<noteq> 0"
proof -
  let ?x = "max (unat minbit) (unat s)"
  have "unat minbit \<le> unat maxbit" using assms(1) by (simp add: word_le_nat_alt)
  moreover have "unat minbit < unat (map_align minbit) + 64" "unat (map_align maxbit) \<le> unat maxbit"
    using div_mod_decomp [of "unat minbit" 64] mod_less_divisor [of 64 "unat minbit"]
    by (simp_all del: mod_less_divisor)
  ultimately have "?x < unat s + 64" "unat minbit \<le> ?x" "?x \<le> unat maxbit"
    using assms(3,4) by linarith+
  then have "bit (range_chunk minbit maxbit s) (?x - unat s)"
    using range_chunk_bit [OF assms(1,2) _ assms(3,4), of "?x - unat s"] by (simp add: less_diff_conv2)
  then show ?thesis by auto
qed

lemma init_range_loop_correct:
  assumes "minbit \<le> maxbit" and "64 dvd unat cur" and "unat (map_align minbit) \<le> unat cur"
    and "unat (map_align maxbit) + 64 < 2 ^ 32"
  shows "\<exists>r. init_range_loop dst minbit maxbit cur h = Some r \<and>
    outcome h r no_err (\<lambda>ns. \<exists>ms. ns = dst @ ms \<and>
      merged (range_map minbit maxbit (unat cur)) ms)"
  using assms(2,3)
proof (induction "2 ^ 32 - unat cur" arbitrary: dst cur h rule: less_induct)
  case less
  show ?case
  proof (cases "cur \<le> map_align maxbit")
    case False
    then have "merged (range_map minbit maxbit (unat cur)) []"
      by (intro merged_Nil) (auto simp: range_map_def word_le_nat_alt)
    with False show ?thesis by (subst init_range_loop.simps) auto
  next
    case True
    then have le: "unat cur \<le> unat (map_align maxbit)" by (simp only: word_le_nat_alt)
    then have up: "unat (cur + 64) = unat cur + 64"
      using assms(4) by (subst unat_add_lt) simp_all
    let ?new = "\<lparr>startbit = cur, node_map = range_chunk minbit maxbit cur\<rparr>"
    have IH: "\<exists>r. init_range_loop dst' minbit maxbit (cur + 64) h' = Some r \<and>
        outcome h' r no_err (\<lambda>ns. \<exists>ms. ns = dst' @ ms \<and>
          merged (range_map minbit maxbit (unat cur + 64)) ms)" for dst' h'
      using less.hyps [of "cur + 64" dst' h'] le assms(4) less.prems up by simp
    have ok: "node_ok ?new"
      using range_chunk_nonzero [OF assms(1) less.prems le] le assms(4) less.prems(1)
      by (simp add: node_ok_def)
    have cons: "merged (range_map minbit maxbit (unat cur)) (?new # ms)"
      if "merged (range_map minbit maxbit (unat cur + 64)) ms" for ms
      by (rule merged_Cons [OF that ok])
        (use less.prems(1) le in \<open>auto simp: range_map_def elim!: dvdE\<close>)
    show ?thesis
    proof (cases "fst (malloc h)")
      case mem: True
      from IH [of "dst @ [?new]" "snd (malloc h)"] obtain r where
        r: "init_range_loop (dst @ [?new]) minbit maxbit (cur + 64) (snd (malloc h)) = Some r"
        "outcome (snd (malloc h)) r no_err (\<lambda>ns. \<exists>ms. ns = (dst @ [?new]) @ ms \<and>
          merged (range_map minbit maxbit (unat cur + 64)) ms)"
        by blast
      have "init_range_loop dst minbit maxbit cur h = Some r"
        using True mem r(1) by (subst init_range_loop.simps) simp
      moreover have "outcome h r no_err (\<lambda>ns. \<exists>ms. ns = dst @ ms \<and>
          merged (range_map minbit maxbit (unat cur)) ms)"
      proof (cases r)
        case (Inl e)
        with r(2) mem_ok_malloc [of h] show ?thesis by auto
      next
        case (Inr p)
        with r(2) mem_ok_malloc [of h] cons show ?thesis by (cases p) fastforce
      qed
      ultimately show ?thesis by blast
    next
      case fail: False
      then have "init_range_loop dst minbit maxbit cur h = Some (Inl ENOMEM)"
        using True by (subst init_range_loop.simps) simp
      with fail mem_ok_malloc [of h] show ?thesis by auto
    qed
  qed
qed

lemma nodes_end_eq:
  assumes "nodes_wf ns" and "map_at ns m \<noteq> 0" and "\<And>s. map_at ns s \<noteq> 0 \<Longrightarrow> s \<le> m"
  shows "nodes_end ns = m + 64"
proof (rule antisym)
  show "nodes_end ns \<le> m + 64" using assms by (simp add: nodes_end_le_iff)
  show "m + 64 \<le> nodes_end ns"
    using nodes_end_le_iff [OF assms(1), of "nodes_end ns"] assms(2) by blast
qed

theorem ebitmap_init_range_correct:
  assumes "minbit \<le> maxbit" and "unat maxbit < 2 ^ 32 - 64"
  shows "\<exists>r. ebitmap_init_range minbit maxbit h = Some r \<and>
    outcome h r no_err (\<lambda>e. ebitmap_wf e \<and> ebitmap_set e = {unat minbit..unat maxbit})"
proof -
  let ?lo = "unat (map_align minbit)" and ?hi = "unat (map_align maxbit)"
  have le: "unat minbit \<le> unat maxbit" using assms(1) by (simp add: word_le_nat_alt)
  then have lohi: "?lo \<le> ?hi" by (simp add: div_le_mono)
  have hi: "?hi + 64 < 2 ^ 32"
    using assms(2) div_times_less_eq_dividend [of "unat maxbit" 64] by (simp del: div_times_less_eq_dividend)
  have end_hi: "unat (map_align maxbit + 64) = ?hi + 64" using hi by (subst unat_add_lt) simp_all
  have guards: "\<not> minbit > maxbit" "map_align minbit + 64 \<noteq> 0" "map_align maxbit + 64 \<noteq> 0"
    using assms le map_align_overflow [of minbit] map_align_overflow [of maxbit] by auto
  obtain r where r: "init_range_loop [] minbit maxbit (map_align minbit) h = Some r"
    "outcome h r no_err (merged (range_map minbit maxbit ?lo))"
    using init_range_loop_correct [OF assms(1), of "map_align minbit" "[]" h] hi by auto
  let ?mk = "\<lambda>(ns, h'). Inr (\<lparr>node = ns, highbit = map_align maxbit + 64\<rparr>, h')"
  have "outcome h (bind_res r ?mk) no_err
      (\<lambda>e. ebitmap_wf e \<and> ebitmap_set e = {unat minbit..unat maxbit})"
  proof (rule outcome_bind [OF r(2)])
    fix ns h'
    assume m: "merged (range_map minbit maxbit ?lo) ns"
    let ?e = "\<lparr>node = ns, highbit = map_align maxbit + 64\<rparr>"
    have wf: "nodes_wf ns" and c: "\<And>s. map_at ns s = range_map minbit maxbit ?lo s"
      using m by (auto simp: merged_def)
    have "(of_nat ?hi :: u32) = map_align maxbit" using hi by (intro word_eq_unatI unat_of_nat_lt) simp
    then have "map_at ns ?hi \<noteq> 0"
      unfolding c range_map_def
      using lohi range_chunk_nonzero [OF assms(1), of "map_align maxbit"] by (simp del: of_nat_mult)
    moreover have "s \<le> ?hi" if "map_at ns s \<noteq> 0" for s
      using that unfolding c range_map_def by (auto split: if_splits)
    ultimately have "nodes_end ns = ?hi + 64" by (rule nodes_end_eq [OF wf])
    then have "ebitmap_wf ?e" using wf end_hi by (simp add: ebitmap_wf_def)
    moreover
    have "b \<in> ebitmap_set ?e \<longleftrightarrow> b \<in> {unat minbit..unat maxbit}" for b
    proof -
      have bd: "b div 64 * 64 + b mod 64 = b" by simp
      have dec: "b \<le> x \<Longrightarrow> b div 64 * 64 \<le> x div 64 * 64"
        "x \<le> b \<Longrightarrow> x div 64 * 64 \<le> b div 64 * 64" for x :: nat by (simp_all add: div_le_mono)
      show ?thesis
      proof (cases "?lo \<le> b div 64 * 64 \<and> b div 64 * 64 \<le> ?hi")
        case True
        then have "unat (of_nat (b div 64 * 64) :: u32) = b div 64 * 64"
          using hi by (intro unat_of_nat_lt) simp
        with True show ?thesis
          using range_chunk_bit [OF assms(1), of "of_nat (b div 64 * 64)" "b mod 64"] bd
          by (simp add: ebitmap_set_iff wf c range_map_def)
      next
        case False
        then have "b \<notin> {unat minbit..unat maxbit}"
          using dec(1) [of "unat maxbit"] dec(2) [of "unat minbit"] by auto
        with False show ?thesis by (auto simp: ebitmap_set_iff wf c range_map_def)
      qed
    qed
    then have "ebitmap_set ?e = {unat minbit..unat maxbit}" by (intro set_eqI)
    ultimately show "outcome h' (?mk (ns, h')) no_err
        (\<lambda>e. ebitmap_wf e \<and> ebitmap_set e = {unat minbit..unat maxbit})"
      by simp
  qed
  with r(1) guards show ?thesis by (simp add: ebitmap_init_range_def split_def)
qed

theorem ebitmap_init_range_errors:
  "minbit > maxbit \<Longrightarrow> ebitmap_init_range minbit maxbit h = Some (Inl EINVAL)"
  "minbit \<le> maxbit \<Longrightarrow> unat maxbit \<ge> 2 ^ 32 - 64 \<Longrightarrow>
     ebitmap_init_range minbit maxbit h = Some (Inl EOVERFLOW)"
  by (auto simp: ebitmap_init_range_def map_align_overflow)

section \<open>Properties\<close>

lemma sample_wf:
  "ebitmap_wf ebitmap_init"
  "ebitmap_wf \<lparr>node = [\<lparr>startbit = 0, node_map = 6\<rparr>, \<lparr>startbit = 128, node_map = 1\<rparr>], highbit = 192\<rparr>"
  "ebitmap_wf \<lparr>node = [\<lparr>startbit = 64, node_map = 1\<rparr>, \<lparr>startbit = 128, node_map = 3\<rparr>], highbit = 192\<rparr>"
  by (simp_all add: ebitmap_wf_def ebitmap_init_def nodes_wf_def nodes_end_def node_ok_def)

text \<open>
  C24: Set algebra. On well-formed bitmaps and under any pattern of allocation failures,
  \<open>ebitmap_or\<close>, \<open>ebitmap_and\<close> and \<open>ebitmap_xor\<close> return a well-formed bitmap of the union,
  the intersection and the symmetric difference, \<open>ebitmap_union\<close> adds its second argument to
  the first, and \<open>ENOMEM\<close> is returned only when an allocation failed.
\<close>

theorem ebitmap_set_algebra:
  assumes "ebitmap_wf e1" and "ebitmap_wf e2"
  shows "outcome h (ebitmap_or e1 e2 h) no_err
      (\<lambda>e. ebitmap_wf e \<and> ebitmap_set e = ebitmap_set e1 \<union> ebitmap_set e2) \<and>
    outcome h (ebitmap_and e1 e2 h) no_err
      (\<lambda>e. ebitmap_wf e \<and> ebitmap_set e = ebitmap_set e1 \<inter> ebitmap_set e2) \<and>
    outcome h (ebitmap_xor e1 e2 h) no_err
      (\<lambda>e. ebitmap_wf e \<and>
        ebitmap_set e = (ebitmap_set e1 - ebitmap_set e2) \<union> (ebitmap_set e2 - ebitmap_set e1)) \<and>
    outcome h (ebitmap_union e1 e2 h) (\<lambda>e. e = FAIL \<and> \<not> mem_ok h)
      (\<lambda>e. ebitmap_wf e \<and> ebitmap_set e = ebitmap_set e1 \<union> ebitmap_set e2)"
proof -
  have "outcome h (ebitmap_union e1 e2 h) (\<lambda>e. e = FAIL \<and> \<not> mem_ok h)
      (\<lambda>e. ebitmap_wf e \<and> ebitmap_set e = ebitmap_set e1 \<union> ebitmap_set e2)"
    unfolding ebitmap_union_def by (rule outcome_catch [OF ebitmap_or_correct [OF assms]]) simp_all
  then show ?thesis
    using assms ebitmap_or_correct ebitmap_and_correct ebitmap_xor_correct by simp
qed

theorem ebitmap_set_algebra_witness:
  "outcome [True, False]
    (ebitmap_or
      \<lparr>node = [\<lparr>startbit = 0, node_map = 6\<rparr>, \<lparr>startbit = 128, node_map = 1\<rparr>], highbit = 192\<rparr>
      \<lparr>node = [\<lparr>startbit = 64, node_map = 1\<rparr>, \<lparr>startbit = 128, node_map = 3\<rparr>], highbit = 192\<rparr>
      [True, False]) no_err (\<lambda>e. ebitmap_wf e)"
  by (rule outcome_mono [OF conjunct1 [OF ebitmap_set_algebra]]) (simp_all add: sample_wf)

text \<open>
  C25: Reading what was stored. \<open>ebitmap_set_bit\<close> fails only for bits of the last chunk
  (\<open>EINVAL\<close>) or for want of memory; when it succeeds, \<open>ebitmap_get_bit\<close> returns the stored
  value at that bit and the old value at every other.
\<close>

theorem ebitmap_set_bit_get_bit:
  assumes "ebitmap_wf e"
  shows "outcome h (ebitmap_set_bit e b v h) (\<lambda>err. err = EINVAL \<and> unat b \<ge> 2 ^ 32 - 64)
    (\<lambda>e'. ebitmap_wf e' \<and> unat b < 2 ^ 32 - 64 \<and>
      (\<forall>b'. ebitmap_get_bit e' b' = (if b' = b then v else ebitmap_get_bit e b')))"
  by (rule outcome_mono [OF ebitmap_set_bit_correct [OF assms]])
    (auto simp: ebitmap_get_bit_correct assms simp flip: unat_eq_iff)

theorem ebitmap_set_bit_get_bit_witness:
  "outcome [] (ebitmap_set_bit ebitmap_init 70 True []) (\<lambda>err. err = EINVAL)
    (\<lambda>e'. ebitmap_get_bit e' 70)"
  by (rule outcome_mono [OF ebitmap_set_bit_get_bit]) (simp_all add: sample_wf)

text \<open>
  Comparisons. \<open>ebitmap_cmp\<close>, \<open>ebitmap_contains\<close> and \<open>ebitmap_match_any\<close> decide equality,
  inclusion and overlap of the sets, \<open>ebitmap_cardinality\<close> counts the elements and
  the iterator of the \<open>ebitmap_for_each_positive_bit\<close> macros lists each of them once, in
  increasing order.
\<close>

theorem ebitmap_set_queries:
  assumes "ebitmap_wf e1" and "ebitmap_wf e2"
  shows "(ebitmap_cmp e1 e2 \<longleftrightarrow> ebitmap_set e1 = ebitmap_set e2) \<and>
    (ebitmap_contains e1 e2 \<longleftrightarrow> ebitmap_set e2 \<subseteq> ebitmap_set e1) \<and>
    (ebitmap_match_any e1 e2 \<longleftrightarrow> ebitmap_set e1 \<inter> ebitmap_set e2 \<noteq> {}) \<and>
    unat (ebitmap_cardinality e1) = card (ebitmap_set e1) \<and>
    map unat (ebitmap_positive_bits e1) = sorted_list_of_set (ebitmap_set e1)"
  using assms by (simp add: ebitmap_cmp_correct ebitmap_contains_correct ebitmap_match_any_correct
      ebitmap_cardinality_correct ebitmap_positive_bits_correct)

theorem ebitmap_set_queries_witness:
  "ebitmap_contains
      \<lparr>node = [\<lparr>startbit = 0, node_map = 6\<rparr>, \<lparr>startbit = 128, node_map = 1\<rparr>], highbit = 192\<rparr>
      ebitmap_init \<longleftrightarrow>
    ebitmap_set ebitmap_init \<subseteq> ebitmap_set
      \<lparr>node = [\<lparr>startbit = 0, node_map = 6\<rparr>, \<lparr>startbit = 128, node_map = 1\<rparr>], highbit = 192\<rparr>"
  by (rule conjunct1 [OF conjunct2 [OF ebitmap_set_queries]]) (rule sample_wf)+

text \<open>
  C26: Complement. For every \<open>maxbit\<close> the 32-bit loop counter can reach, \<open>ebitmap_not\<close> and
  \<open>ebitmap_andnot\<close> return and compute the complement below \<open>maxbit\<close> and the difference; for
  every larger \<open>maxbit\<close> the counter wraps to 0 and \<open>ebitmap_not\<close> does not return (unless an
  allocation fails, here none does).
\<close>

theorem ebitmap_complement:
  assumes "ebitmap_wf e1" and "ebitmap_wf e2"
  shows "if unat maxbit \<le> 2 ^ 32 - 64
    then (\<exists>r. ebitmap_not e2 maxbit h = Some r \<and> outcome h r no_err
        (\<lambda>e. ebitmap_wf e \<and> ebitmap_set e = {b. b < unat maxbit \<and> b \<notin> ebitmap_set e2})) \<and>
      (\<exists>r. ebitmap_andnot e1 e2 maxbit h = Some r \<and> outcome h r no_err
        (\<lambda>e. ebitmap_wf e \<and>
          ebitmap_set e = {b \<in> ebitmap_set e1. b < unat maxbit \<and> b \<notin> ebitmap_set e2}))
    else ebitmap_not e2 maxbit [] = None"
  using assms ebitmap_not_correct ebitmap_andnot_correct ebitmap_not_diverges by simp

theorem ebitmap_complement_witness:
  "ebitmap_not ebitmap_init 0xffffffc1 [] = None"
  using ebitmap_complement [OF sample_wf(2) sample_wf(1), of "0xffffffc1"] by simp

text \<open>
  Ranges. \<open>ebitmap_init_range\<close> always returns: with the bitmap of \<open>{minbit..maxbit}\<close>, with
  \<open>EINVAL\<close> exactly for an empty range, with \<open>EOVERFLOW\<close> exactly when the range reaches the
  last chunk, or with \<open>ENOMEM\<close> after a failed allocation.
\<close>

theorem ebitmap_init_range_total:
  "\<exists>r. ebitmap_init_range minbit maxbit h = Some r \<and>
    outcome h r (\<lambda>e. e = EINVAL \<and> minbit > maxbit \<or>
        e = EOVERFLOW \<and> minbit \<le> maxbit \<and> unat maxbit \<ge> 2 ^ 32 - 64)
      (\<lambda>e. minbit \<le> maxbit \<and> unat maxbit < 2 ^ 32 - 64 \<and>
        ebitmap_wf e \<and> ebitmap_set e = {unat minbit..unat maxbit})"
proof (cases "minbit \<le> maxbit \<and> unat maxbit < 2 ^ 32 - 64")
  case True
  then obtain r where "ebitmap_init_range minbit maxbit h = Some r"
    and r: "outcome h r no_err (\<lambda>e. ebitmap_wf e \<and> ebitmap_set e = {unat minbit..unat maxbit})"
    using ebitmap_init_range_correct by blast
  moreover have "outcome h r (\<lambda>e. e = EINVAL \<and> minbit > maxbit \<or>
        e = EOVERFLOW \<and> minbit \<le> maxbit \<and> unat maxbit \<ge> 2 ^ 32 - 64)
      (\<lambda>e. minbit \<le> maxbit \<and> unat maxbit < 2 ^ 32 - 64 \<and>
        ebitmap_wf e \<and> ebitmap_set e = {unat minbit..unat maxbit})"
    by (rule outcome_mono [OF r]) (use True in simp_all)
  ultimately show ?thesis by blast
next
  case False
  then show ?thesis
    using ebitmap_init_range_errors [of maxbit minbit h] ebitmap_init_range_errors(2) [of minbit maxbit h]
    by (cases "minbit \<le> maxbit") (simp_all add: not_le)
qed

end
