(* ===== verification/Policy_File.thy ===== *)
theory Policy_File
  imports Prelude
begin

text \<open>
  The binary policy stream of \<open>services.c\<close> and \<open>private.h\<close>: \<open>next_entry\<close>, \<open>put_entry\<close>,
  \<open>str_read\<close> and the little-endian conversions.

  A \<open>policy_file\<close> is a memory region or a \<open>FILE\<close>. \<open>pdata\<close> holds the bytes still to be read, or,
  for a file that is written, the bytes written so far; \<open>plen\<close> is the C field \<open>len\<close>: the bytes
  left in the memory region (both directions), the running total of a \<open>PF_LEN\<close> file, and for a
  \<open>FILE\<close> that is written the number of bytes the device still takes. Reading a \<open>FILE\<close> is
  \<open>fread\<close> of one item, which fails when the item is empty or the file too short.
\<close>

unbundle bit_operations_syntax

datatype pf_type = PF_USE_MEMORY | PF_USE_STDIO | PF_LEN

record policy_file =
  ptype :: pf_type
  pdata :: "u8 list"
  plen :: nat

definition next_entry :: "policy_file \<Rightarrow> nat \<Rightarrow> (u8 list \<times> policy_file) result" where
  "next_entry fp bytes =
     (case ptype fp of
        PF_USE_STDIO \<Rightarrow>
          if bytes = 0 \<or> length (pdata fp) < bytes then Inl FAIL
          else Inr (take bytes (pdata fp), fp\<lparr>pdata := drop bytes (pdata fp)\<rparr>)
      | PF_USE_MEMORY \<Rightarrow>
          if bytes > plen fp then Inl FAIL
          else Inr (take bytes (pdata fp),
                 fp\<lparr>pdata := drop bytes (pdata fp), plen := plen fp - bytes\<rparr>)
      | PF_LEN \<Rightarrow> Inl FAIL)"

text \<open>The number of items written; the callers compare it with \<open>n\<close>.\<close>

definition put_entry :: "u8 list \<Rightarrow> nat \<Rightarrow> nat \<Rightarrow> policy_file \<Rightarrow> nat \<times> policy_file" where
  "put_entry ptr sz n fp =
     (if sz * n \<ge> 2 ^ 64 then (0, fp)
      else case ptype fp of
        PF_USE_STDIO \<Rightarrow>
          (if sz * n \<le> plen fp
           then (n, fp\<lparr>pdata := pdata fp @ take (sz * n) ptr, plen := plen fp - sz * n\<rparr>)
           else (plen fp div sz,
             fp\<lparr>pdata := pdata fp @ take (plen fp) ptr, plen := 0\<rparr>))
      | PF_USE_MEMORY \<Rightarrow>
          (if sz * n > plen fp then (0, fp)
           else (n, fp\<lparr>pdata := pdata fp @ take (sz * n) ptr, plen := plen fp - sz * n\<rparr>))
      | PF_LEN \<Rightarrow> (n, fp\<lparr>plen := plen fp + sz * n\<rparr>))"

definition exceeds_available_bytes :: "policy_file \<Rightarrow> nat \<Rightarrow> nat \<Rightarrow> bool" where
  "exceeds_available_bytes fp x req_elem_size =
     (if ptype fp \<noteq> PF_USE_MEMORY then False
      else if x * req_elem_size \<ge> 2 ^ 64 then True
      else x * req_elem_size > plen fp)"

definition zero_or_saturated :: "'a::len word \<Rightarrow> bool" where
  "zero_or_saturated x \<longleftrightarrow> x = 0 \<or> x = - 1"

definition str_read :: "policy_file \<Rightarrow> u64 \<Rightarrow> heap \<Rightarrow> ((u8 list \<times> policy_file) \<times> heap) result" where
  "str_read fp len h =
     (if zero_or_saturated len \<or> exceeds_available_bytes fp (unat len) 1 then Inl FAIL
      else case malloc h of (ok, h') \<Rightarrow>
        if ok then bind_res (next_entry fp (unat len)) (\<lambda>r. Inr (r, h')) else Inl FAIL)"

section \<open>Little-endian integers\<close>

definition le_bytes :: "nat \<Rightarrow> 'a::len word \<Rightarrow> u8 list" where
  "le_bytes n w = map (\<lambda>i. ucast (drop_bit (8 * i) w)) [0..<n]"

fun le_value :: "u8 list \<Rightarrow> nat" where
  "le_value [] = 0"
| "le_value (b # bs) = unat b + 256 * le_value bs"

definition le_word :: "u8 list \<Rightarrow> 'a::len word" where
  "le_word bs = of_nat (le_value bs)"

text \<open>Arrays of 16-, 32- and 64-bit integers as they are read and written in one call.\<close>

definition next_words :: "nat \<Rightarrow> policy_file \<Rightarrow> nat \<Rightarrow> ('a::len word list \<times> policy_file) result" where
  "next_words sz fp n =
     bind_res (next_entry fp (sz * n)) (\<lambda>(bs, fp').
       Inr (map (\<lambda>i. le_word (take sz (drop (sz * i) bs))) [0..<n], fp'))"

definition put_words :: "nat \<Rightarrow> 'a::len word list \<Rightarrow> policy_file \<Rightarrow> policy_file result" where
  "put_words sz ws fp =
     (case put_entry (concat (map (le_bytes sz) ws)) sz (length ws) fp of (items, fp') \<Rightarrow>
        if items \<noteq> length ws then Inl FAIL else Inr fp')"

lemma length_le_bytes [simp]: "length (le_bytes n w) = n"
  by (simp add: le_bytes_def)

lemma le_bytes_Suc: "le_bytes (Suc n) w = ucast w # le_bytes n (drop_bit 8 w)"
proof -
  have "[0..<Suc n] = 0 # map Suc [0..<n]" by (simp add: map_Suc_upt upt_conv_Cons del: upt_Suc)
  then show ?thesis by (simp add: le_bytes_def o_def add.commute)
qed

lemma le_value_bytes: "le_value (le_bytes n w) = unat w mod 256 ^ n"
proof (induction n arbitrary: w)
  case 0
  show ?case by (simp add: le_bytes_def)
next
  case (Suc n)
  have "unat (ucast w :: u8) = unat w mod 256"
    by (simp add: unsigned_ucast_eq take_bit_eq_mod)
  moreover have "unat (drop_bit 8 w) = unat w div 256"
    by (simp only: unat_drop_bit_eq) (simp add: drop_bit_eq_div)
  ultimately show ?case
    using Suc [of "drop_bit 8 w"] by (simp add: le_bytes_Suc mod_mult2_eq)
qed

lemma le_word_bytes:
  fixes w :: "'a::len word"
  assumes "LENGTH('a) = 8 * n"
  shows "le_word (le_bytes n w) = w"
proof -
  have "unat w < 256 ^ n"
    using unsigned_less [of w] assms by (simp add: power_mult)
  then show ?thesis by (simp add: le_word_def le_value_bytes)
qed

lemma concat_chunk:
  "i < length ws \<Longrightarrow> take n (drop (n * i) (concat (map (le_bytes n) ws))) = le_bytes n (ws ! i)"
proof (induction ws arbitrary: i)
  case (Cons w ws)
  then show ?case by (cases i) auto
qed simp

lemma length_concat_le [simp]: "length (concat (map (le_bytes n) ws)) = n * length ws"
  by (induction ws) auto

lemma next_words_memory:
  fixes ws :: "'a::len word list"
  assumes "LENGTH('a) = 8 * n" and "ptype fp = PF_USE_MEMORY"
    and "pdata fp = concat (map (le_bytes n) ws) @ rest" and "plen fp = n * length ws + k"
    and "m = length ws"
  shows "next_words n fp m = Inr (ws, fp\<lparr>pdata := rest, plen := k\<rparr>)"
proof -
  have "map (\<lambda>i. le_word (take n (drop (n * i) (concat (map (le_bytes n) ws))))) [0..<length ws] = ws"
    using assms(1) by (intro nth_equalityI) (simp_all add: concat_chunk le_word_bytes)
  then show ?thesis
    using assms by (simp add: next_words_def next_entry_def)
qed

lemma put_words_memory:
  assumes "ptype fp = PF_USE_MEMORY" and "n * length ws \<le> plen fp" and "plen fp < 2 ^ 64"
  shows "put_words n ws fp = Inr (fp\<lparr>pdata := pdata fp @ concat (map (le_bytes n) ws),
    plen := plen fp - n * length ws\<rparr>)"
  using assms by (simp add: put_words_def put_entry_def)

lemma next_words_length: "next_words n fp m = Inr (ws, fp') \<Longrightarrow> length ws = m"
  by (auto simp: next_words_def bind_res_Inr_iff)

end
