(* ===== verification/Ebitmap_IO.thy ===== *)
theory Ebitmap_IO
  imports Ebitmap Policy_File
begin

text \<open>
  The binary form of a bitmap: \<open>ebitmap_read\<close> of \<open>ebitmap.c\<close> and \<open>ebitmap_write\<close> of
  \<open>write.c\<close>. The reader accepts well-formed bitmaps only, whatever the bytes are, and it reads
  back what the writer wrote.
\<close>

unbundle bit_operations_syntax

section \<open>Reading\<close>

text \<open>
  The loop over the \<open>count\<close> map entries; \<open>l\<close> is the last node linked. An error after a
  successful \<open>next_entry\<close> finds \<open>rc = 0\<close> and becomes \<open>-EINVAL\<close>.
\<close>

fun ebitmap_read_loop ::
  "nat \<Rightarrow> u32 \<Rightarrow> ebitmap_node list \<Rightarrow> policy_file \<Rightarrow> heap \<Rightarrow>
    ((ebitmap_node list \<times> policy_file) \<times> heap) result" where
  "ebitmap_read_loop 0 hb ns fp h = Inr ((ns, fp), h)"
| "ebitmap_read_loop (Suc i) hb ns fp h =
     bind_res (next_words 4 fp 1) (\<lambda>(buf, fp).
       case malloc h of (ok, h) \<Rightarrow>
         if \<not> ok then Inl ENOMEM
         else let start = (buf ! 0 :: u32) in
           if start AND 63 \<noteq> 0 then Inl EINVAL
           else if unat start > unat hb - MAPSIZE then Inl EINVAL
           else bind_res (next_words 8 fp 1) (\<lambda>(map, fp).
             if map ! 0 = (0 :: u64) then Inl EINVAL
             else if ns \<noteq> [] \<and> start \<le> startbit (last ns) then Inl EINVAL
             else ebitmap_read_loop i hb (ns @ [\<lparr>startbit = start, node_map = map ! 0\<rparr>]) fp h))"

definition ebitmap_read :: "policy_file \<Rightarrow> heap \<Rightarrow> ((ebitmap \<times> policy_file) \<times> heap) result" where
  "ebitmap_read fp h =
     bind_res (next_words 4 fp 3) (\<lambda>(buf, fp).
       let mapsize = buf ! 0; hb = buf ! 1; count = (buf ! 2 :: u32) in
       if mapsize \<noteq> 64 then Inl EINVAL
       else if hb = 0 then Inr ((\<lparr>node = [], highbit = hb\<rparr>, fp), h)
       else if hb AND 63 \<noteq> 0 then Inl EINVAL
       else if count = 0 then Inl EINVAL
       else bind_res (ebitmap_read_loop (unat count) hb [] fp h) (\<lambda>((ns, fp), h).
         if unat (startbit (last ns)) + MAPSIZE \<noteq> unat hb then Inl EINVAL
         else Inr ((\<lparr>node = ns, highbit = hb\<rparr>, fp), h)))"

section \<open>Writing\<close>

fun ebitmap_write_loop :: "ebitmap_node list \<Rightarrow> policy_file \<Rightarrow> policy_file result" where
  "ebitmap_write_loop [] fp = Inr fp"
| "ebitmap_write_loop (n # ns) fp =
     bind_res (put_words 4 [startbit n] fp) (\<lambda>fp.
     bind_res (put_words 8 [node_map n] fp) (\<lambda>fp.
     ebitmap_write_loop ns fp))"

definition ebitmap_write :: "ebitmap \<Rightarrow> policy_file \<Rightarrow> policy_file result" where
  "ebitmap_write e fp =
     bind_res (put_words 4 [64, highbit e, of_nat (length (node e))] fp) (\<lambda>fp.
     ebitmap_write_loop (node e) fp)"

section \<open>The reader accepts well-formed bitmaps only\<close>

lemma aligned_iff: "w AND 63 = 0 \<longleftrightarrow> 64 dvd unat w" for w :: u32
proof -
  have "w AND 63 = take_bit 6 w"
    by (simp add: take_bit_eq_mask mask_eq_exp_minus_1)
  moreover have "unat (take_bit 6 w) = unat w mod 64"
    by (simp only: unsigned_take_bit_eq) (simp add: take_bit_eq_mod)
  ultimately have "w AND 63 = 0 \<longleftrightarrow> unat w mod 64 = 0" by (metis unsigned_0 unat_eq_iff)
  then show ?thesis by (simp add: dvd_eq_mod_eq_0)
qed

lemma nodes_wf_snoc:
  "nodes_wf ns \<Longrightarrow> node_ok n \<Longrightarrow> (ns \<noteq> [] \<Longrightarrow> startbit (last ns) < startbit n) \<Longrightarrow>
     nodes_wf (ns @ [n])"
proof -
  assume wf: "nodes_wf ns" and ok: "node_ok n"
    and lt: "ns \<noteq> [] \<Longrightarrow> startbit (last ns) < startbit n"
  have "startbit m < startbit n" if "m \<in> set ns" for m
  proof (cases "m = last ns")
    case False
    with sorted_wrt_last [of "\<lambda>a b. startbit a < startbit b" ns m] wf that
    have "startbit m < startbit (last ns)" by (simp add: nodes_wf_def)
    with lt that show ?thesis by (cases "ns = []") auto
  next
    case True
    with lt that show ?thesis by (cases "ns = []") auto
  qed
  with wf ok show ?thesis by (auto simp: nodes_wf_def sorted_wrt_append)
qed

lemma ebitmap_read_loop_wf:
  "ebitmap_read_loop i hb ns fp h = Inr ((ns', fp'), h') \<Longrightarrow> nodes_wf ns \<Longrightarrow> 64 \<le> unat hb \<Longrightarrow>
     nodes_wf ns' \<and> length ns' = length ns + i"
proof (induction i hb ns fp h rule: ebitmap_read_loop.induct)
  case (2 i hb ns fp h)
  note run = "2.prems"(1) [simplified ebitmap_read_loop.simps Let_def]
  obtain buf fp1 where r1: "next_words 4 fp 1 = Inr (buf :: u32 list, fp1)"
    using run by (cases "next_words 4 fp 1 :: (u32 list \<times> policy_file) result") auto
  obtain h1 where mem: "malloc h = (True, h1)"
    using run r1 by (cases "malloc h") (auto split: if_splits)
  have al: "buf ! 0 AND 63 = 0" and bd: "\<not> unat (buf ! 0) > unat hb - 64"
    using run r1 mem by (auto split: if_splits)
  obtain mp fp2 where r2: "next_words 8 fp1 1 = Inr (mp :: u64 list, fp2)"
    using run r1 mem al bd by (cases "next_words 8 fp1 1 :: (u64 list \<times> policy_file) result") auto
  have nz: "mp ! 0 \<noteq> 0" and lt: "\<not> (ns \<noteq> [] \<and> buf ! 0 \<le> startbit (last ns))"
    and rest: "ebitmap_read_loop i hb (ns @ [\<lparr>startbit = buf ! 0, node_map = mp ! 0\<rparr>]) fp2 h1 =
         Inr ((ns', fp'), h')"
    using run r1 mem al bd r2 by (auto split: if_splits)
  have "unat hb < 2 ^ 32" using unsigned_less [of hb] by simp
  then have "node_ok \<lparr>startbit = buf ! 0, node_map = mp ! 0\<rparr>"
    using al bd nz "2.prems"(3) by (auto simp: node_ok_def aligned_iff)
  then have "nodes_wf (ns @ [\<lparr>startbit = buf ! 0, node_map = mp ! 0\<rparr>])"
    using "2.prems"(2) lt by (intro nodes_wf_snoc) auto
  moreover have "nodes_wf ns' \<and> length ns' = length (ns @ [\<lparr>startbit = buf ! 0, node_map = mp ! 0\<rparr>]) + i"
    by (rule "2.IH" [OF r1 refl mem [symmetric] _ refl _ _ r2 refl]) (use mem al bd nz lt rest calculation "2.prems"(3) in auto)
  ultimately show ?case by simp
qed simp

theorem ebitmap_read_wf:
  assumes "ebitmap_read fp h = Inr ((e, fp'), h')"
  shows "ebitmap_wf e"
proof -
  from assms obtain buf fp1 where "next_words 4 fp 3 = Inr (buf :: u32 list, fp1)"
    by (auto simp: ebitmap_read_def bind_res_Inr_iff)
  with assms have "e = \<lparr>node = [], highbit = 0\<rparr> \<or>
      (\<exists>ns fp2 h2. buf ! 1 \<noteq> 0 \<and> buf ! 1 AND 63 = (0 :: u32) \<and> buf ! 2 \<noteq> (0 :: u32) \<and>
        ebitmap_read_loop (unat (buf ! 2)) (buf ! 1) [] fp1 h = Inr ((ns, fp2), h2) \<and>
        unat (startbit (last ns)) + MAPSIZE = unat (buf ! 1) \<and> e = \<lparr>node = ns, highbit = buf ! 1\<rparr>)"
    by (auto simp: ebitmap_read_def bind_res_Inr_iff Let_def split: if_splits)
  then show ?thesis
  proof
    assume "\<exists>ns fp2 h2. buf ! 1 \<noteq> 0 \<and> buf ! 1 AND 63 = (0 :: u32) \<and> buf ! 2 \<noteq> (0 :: u32) \<and>
        ebitmap_read_loop (unat (buf ! 2)) (buf ! 1) [] fp1 h = Inr ((ns, fp2), h2) \<and>
        unat (startbit (last ns)) + MAPSIZE = unat (buf ! 1) \<and> e = \<lparr>node = ns, highbit = buf ! 1\<rparr>"
    then obtain ns fp2 h2 where b: "buf ! 1 \<noteq> 0" "buf ! 1 AND 63 = (0 :: u32)" "buf ! 2 \<noteq> (0 :: u32)"
      "ebitmap_read_loop (unat (buf ! 2)) (buf ! 1) [] fp1 h = Inr ((ns, fp2), h2)"
      "unat (startbit (last ns)) + MAPSIZE = unat (buf ! 1)" "e = \<lparr>node = ns, highbit = buf ! 1\<rparr>"
      by blast
    have "64 \<le> unat (buf ! 1)"
      using b(1,2) by (auto simp: aligned_iff unat_gt_0 [symmetric] simp del: unat_gt_0 intro: dvd_imp_le)
    with ebitmap_read_loop_wf [OF b(4)] b(3) have "nodes_wf ns" "ns \<noteq> []"
      by (auto simp: unat_eq_zero)
    with b(5,6) show ?thesis by (simp add: ebitmap_wf_def nodes_end_def)
  qed (simp add: ebitmap_wf_def nodes_end_def)
qed

section \<open>Round trip\<close>

definition node_bytes :: "ebitmap_node \<Rightarrow> u8 list" where
  "node_bytes n = le_bytes 4 (startbit n) @ le_bytes 8 (node_map n)"

definition ebitmap_bytes :: "ebitmap \<Rightarrow> u8 list" where
  "ebitmap_bytes e =
     concat (map (le_bytes 4) [64 :: u32, highbit e, of_nat (length (node e))]) @
     concat (map node_bytes (node e))"

lemma ebitmap_write_loop_memory:
  "ptype fp = PF_USE_MEMORY \<Longrightarrow> 12 * length ns \<le> plen fp \<Longrightarrow> plen fp < 2 ^ 64 \<Longrightarrow>
     ebitmap_write_loop ns fp = Inr (fp\<lparr>pdata := pdata fp @ concat (map node_bytes ns),
       plen := plen fp - 12 * length ns\<rparr>)"
proof (induction ns arbitrary: fp)
  case (Cons n ns)
  then show ?case by (simp add: put_words_memory node_bytes_def)
qed simp

theorem ebitmap_write_memory:
  assumes "ptype fp = PF_USE_MEMORY" and "length (ebitmap_bytes e) \<le> plen fp" and "plen fp < 2 ^ 64"
  shows "ebitmap_write e fp = Inr (fp\<lparr>pdata := pdata fp @ ebitmap_bytes e,
    plen := plen fp - length (ebitmap_bytes e)\<rparr>)"
proof -
  have len: "length (concat (map node_bytes ns)) = 12 * length ns" for ns
    by (induction ns) (auto simp: node_bytes_def)
  show ?thesis
    using assms len
    by (simp add: ebitmap_write_def put_words_memory ebitmap_write_loop_memory ebitmap_bytes_def)
qed

lemma ebitmap_read_loop_bytes:
  assumes "nodes_wf (pre @ ns)" and "nodes_end (pre @ ns) \<le> unat hb" and "64 \<le> unat hb"
    and "ptype fp = PF_USE_MEMORY" and "pdata fp = concat (map node_bytes ns) @ rest"
    and "plen fp = 12 * length ns + k"
  shows "ebitmap_read_loop (length ns) hb pre fp [] =
    Inr ((pre @ ns, fp\<lparr>pdata := rest, plen := k\<rparr>), [])"
  using assms
proof (induction ns arbitrary: pre fp)
  case (Cons n ns)
  have ok: "node_ok n" using Cons.prems(1) by (simp add: nodes_wf_def)
  have "unat (startbit n) + 64 \<le> nodes_end (pre @ n # ns)"
  proof (cases "ns = []")
    case False
    then have "startbit n < startbit (last ns)"
      using Cons.prems(1) by (auto simp: nodes_wf_def sorted_wrt_append)
    with False show ?thesis by (simp add: nodes_end_def word_less_nat_alt)
  qed (simp add: nodes_end_def)
  then have bd: "\<not> unat hb - 64 < unat (startbit n)" using Cons.prems(2,3) by linarith
  let ?fp1 = "fp\<lparr>pdata := le_bytes 8 (node_map n) @ concat (map node_bytes ns) @ rest,
    plen := 8 + 12 * length ns + k\<rparr>"
  let ?fp2 = "fp\<lparr>pdata := concat (map node_bytes ns) @ rest, plen := 12 * length ns + k\<rparr>"
  have r1: "next_words 4 fp (Suc 0) = Inr ([startbit n], ?fp1)"
    by (rule next_words_memory) (use Cons.prems in \<open>auto simp: node_bytes_def [of n]\<close>)
  have r2: "next_words 8 ?fp1 (Suc 0) = Inr ([node_map n], ?fp2)"
    by (subst next_words_memory [where ws = "[node_map n]"
          and rest = "concat (map node_bytes ns) @ rest" and k = "12 * length ns + k"])
      (use Cons.prems in auto)
  have eta: "\<lparr>startbit = startbit n, node_map = node_map n\<rparr> = n" by simp
  have lt: "\<not> (pre \<noteq> [] \<and> startbit n \<le> startbit (last pre))"
    using Cons.prems(1) by (cases "pre = []") (auto simp: nodes_wf_def sorted_wrt_append not_le)
  have "ebitmap_read_loop (length (n # ns)) hb pre fp [] =
      ebitmap_read_loop (length ns) hb (pre @ [n]) ?fp2 []"
    using r1 r2 ok bd by (simp add: aligned_iff node_ok_def Let_def if_not_P [OF lt] eta)
  also have "\<dots> = Inr (((pre @ [n]) @ ns, ?fp2\<lparr>pdata := rest, plen := k\<rparr>), [])"
    by (rule Cons.IH) (use Cons.prems in simp_all)
  finally show ?case by simp
qed simp

theorem ebitmap_read_bytes:
  assumes "ebitmap_wf e" and "ptype fp = PF_USE_MEMORY"
    and "pdata fp = ebitmap_bytes e @ rest" and "plen fp = length (ebitmap_bytes e) + k"
  shows "ebitmap_read fp [] = Inr ((e, fp\<lparr>pdata := rest, plen := k\<rparr>), [])"
proof -
  have wf: "nodes_wf (node e)" and hb: "unat (highbit e) = nodes_end (node e)"
    using assms(1) by (auto simp: ebitmap_wf_def)
  have len: "length (concat (map node_bytes ns)) = 12 * length ns" for ns
    by (induction ns) (auto simp: node_bytes_def)
  let ?fp1 = "fp\<lparr>pdata := concat (map node_bytes (node e)) @ rest, plen := 12 * length (node e) + k\<rparr>"
  have r: "next_words 4 fp 3 = Inr ([64 :: u32, highbit e, of_nat (length (node e))], ?fp1)"
    by (rule next_words_memory) (use assms len in \<open>auto simp: ebitmap_bytes_def\<close>)
  show ?thesis
  proof (cases "node e = []")
    case True
    then have "highbit e = 0" using hb by (simp add: nodes_end_def unat_eq_zero)
    then show ?thesis using r True by (cases e) (simp add: ebitmap_read_def)
  next
    case False
    have "length (node e) < 2 ^ 32"
    proof -
      have "distinct (map startbit (node e))"
        using wf by (auto simp: nodes_wf_def sorted_wrt_map [symmetric] strict_sorted_iff)
      then have "length (node e) = card (startbit ` set (node e))"
        by (metis distinct_card length_map set_map)
      also have "\<dots> = card (unat ` startbit ` set (node e))"
        by (rule card_image [symmetric]) (auto intro: inj_onI)
      also have "\<dots> \<le> card {..< 2 ^ 32 - 1 :: nat}"
        using wf by (intro card_mono) (auto simp: nodes_wf_def node_ok_def)
      finally show ?thesis by simp
    qed
    then have cnt: "unat (of_nat (length (node e)) :: u32) = length (node e)"
      by (intro unat_of_nat_lt) simp
    have ok: "node_ok (last (node e))" using wf False by (simp add: nodes_wf_def)
    have end': "unat (startbit (last (node e))) + 64 = unat (highbit e)"
      using hb False by (simp add: nodes_end_def)
    have hb_ok: "highbit e \<noteq> 0" "highbit e AND 63 = 0" "64 \<le> unat (highbit e)"
      using end' nodes_end_aligned [OF wf] hb by (auto simp: aligned_iff)
    have cnt0: "(of_nat (length (node e)) :: u32) \<noteq> 0" using cnt False by (metis length_0_conv unsigned_0)
    have "ebitmap_read_loop (length (node e)) (highbit e) [] ?fp1 [] =
        Inr (([] @ node e, ?fp1\<lparr>pdata := rest, plen := k\<rparr>), [])"
      by (rule ebitmap_read_loop_bytes) (use wf hb hb_ok assms(2) in simp_all)
    then show ?thesis
      using r hb_ok cnt cnt0 end' by (simp add: ebitmap_read_def Let_def)
  qed
qed

section \<open>Properties\<close>

text \<open>
  C27: Validation of untrusted input. Whatever bytes the policy file holds, a bitmap that
  \<open>ebitmap_read\<close> accepts is well formed: chunks aligned, non-empty, strictly increasing and
  ending exactly at \<open>highbit\<close>; so every operation above may be applied to it.
\<close>

theorem ebitmap_read_accepts_wf:
  "case ebitmap_read fp h of Inl _ \<Rightarrow> True | Inr ((e, fp'), h') \<Rightarrow> ebitmap_wf e"
  by (auto split: sum.split dest: ebitmap_read_wf)

text \<open>
  C28: Round trip. A well-formed bitmap that \<open>ebitmap_write\<close> puts into a large enough memory
  region is read back unchanged by \<open>ebitmap_read\<close>, and the reader stops exactly at the byte
  where the writer stopped.
\<close>

theorem ebitmap_write_read:
  assumes "ebitmap_wf e" and "n < 2 ^ 64" and "length (ebitmap_bytes e) \<le> n"
  shows "\<exists>fp. ebitmap_write e \<lparr>ptype = PF_USE_MEMORY, pdata = [], plen = n\<rparr> = Inr fp \<and>
    ebitmap_read \<lparr>ptype = PF_USE_MEMORY, pdata = pdata fp @ rest, plen = length (pdata fp @ rest)\<rparr> [] =
      Inr ((e, \<lparr>ptype = PF_USE_MEMORY, pdata = rest, plen = length rest\<rparr>), [])"
  using assms by (simp add: ebitmap_write_memory ebitmap_read_bytes [where rest = rest])

theorem ebitmap_write_read_witness:
  "\<exists>fp. ebitmap_write \<lparr>node = [\<lparr>startbit = 64, node_map = 5\<rparr>], highbit = 128\<rparr>
      \<lparr>ptype = PF_USE_MEMORY, pdata = [], plen = 100\<rparr> = Inr fp \<and>
    ebitmap_read \<lparr>ptype = PF_USE_MEMORY, pdata = pdata fp @ [7], plen = length (pdata fp @ [7])\<rparr> [] =
      Inr ((\<lparr>node = [\<lparr>startbit = 64, node_map = 5\<rparr>], highbit = 128\<rparr>,
        \<lparr>ptype = PF_USE_MEMORY, pdata = [7], plen = length [7 :: u8]\<rparr>), [])"
  by (rule ebitmap_write_read)
    (simp_all add: ebitmap_wf_def nodes_wf_def nodes_end_def node_ok_def ebitmap_bytes_def node_bytes_def)

end
