(* ===== verification/Hashtab.thy ===== *)
theory Hashtab
  imports Prelude "HOL-Library.Multiset"
begin

text \<open>
  The hash table of \<open>hashtab.c\<close>: an array of chains, each sorted by the key comparison, that
  doubles when it holds as many entries as slots. The hash and comparison functions are fields
  of the table as in the code; what the table needs of them is the locale \<open>key_order\<close>, which
  \<open>Symtab\<close> discharges for the code's three pairs of functions.

  A chain is the list of its (key, datum) nodes. The hash functions of the code read nothing of
  the table but \<open>size\<close>, so \<open>hash_value\<close> takes the size; \<open>keycmp\<close> ignores its table.
  A table pointer that may be \<open>NULL\<close> is an option. Where the code calls a callback with a \<open>void *\<close>
  argument, the callback here is a function on the state that argument points to.
\<close>

unbundle bit_operations_syntax

section \<open>Data\<close>

record ('k, 'd) hashtab =
  htable :: "('k \<times> 'd) list list"
  htsize :: u32
  nel :: u32
  hash_value :: "u32 \<Rightarrow> 'k \<Rightarrow> u32"
  keycmp :: "'k \<Rightarrow> 'k \<Rightarrow> int"

section \<open>Operations\<close>

definition hashtab_create ::
  "(u32 \<Rightarrow> 'k \<Rightarrow> u32) \<Rightarrow> ('k \<Rightarrow> 'k \<Rightarrow> int) \<Rightarrow> u32 \<Rightarrow> heap \<Rightarrow> ('k, 'd) hashtab option \<times> heap" where
  "hashtab_create hv kc sz h = (case malloc h of (ok, h) \<Rightarrow>
     if \<not> ok then (None, h)
     else case malloc h of (ok, h) \<Rightarrow>
       if \<not> ok then (None, h)
       else (Some \<lparr>htable = replicate (unat sz) [], htsize = sz, nel = 0,
               hash_value = hv, keycmp = kc\<rparr>, h))"

text \<open>
  \<open>while (new_size <= h->nel && new_size * 2 != 0) new_size *= 2\<close>: at most 31 turns, since every
  turn shifts a set bit towards the sign bit.
\<close>

lemma push_bit_all_word:
  fixes w :: "'b::len word"
  shows "push_bit LENGTH('b) w = 0"
  by (intro bit_word_eqI) (simp add: bit_push_bit_iff)

definition shifts_left :: "'a::len word \<Rightarrow> nat" where
  "shifts_left w = (LEAST i. push_bit i w = 0)"

lemma shifts_left_double:
  fixes w :: "'a::len word"
  assumes "w * 2 \<noteq> 0"
  shows "shifts_left (w * 2) < shifts_left w"
proof -
  have double: "push_bit i (w * 2) = push_bit (Suc i) w" for i
    by (simp add: push_bit_eq_mult ac_simps)
  have "w \<noteq> 0" using assms by auto
  then have "\<not> push_bit 0 w = 0" by simp
  then have "shifts_left w = Suc (LEAST i. push_bit (Suc i) w = 0)"
    unfolding shifts_left_def using push_bit_all_word
    by (intro Least_Suc [where P = "\<lambda>i. push_bit i w = 0" and n = "LENGTH('a)"])
  then show ?thesis by (simp only: shifts_left_def double lessI)
qed

function new_size_loop :: "u32 \<Rightarrow> u32 \<Rightarrow> u32" where
  "new_size_loop n new_size =
     (if new_size \<le> n \<and> new_size * 2 \<noteq> 0 then new_size_loop n (new_size * 2) else new_size)"
  by pat_completeness auto

termination
  by (relation "measure (\<lambda>(_, s). shifts_left s)") (simp_all add: shifts_left_double)

declare new_size_loop.simps [simp del]

text \<open>The inner loop of the move: the node goes before the first one it does not exceed.\<close>

fun chain_link :: "('k \<Rightarrow> 'k \<Rightarrow> int) \<Rightarrow> 'k \<times> 'd \<Rightarrow> ('k \<times> 'd) list \<Rightarrow> ('k \<times> 'd) list" where
  "chain_link kc cur [] = [cur]"
| "chain_link kc cur (n # ns) =
     (if kc (fst cur) (fst n) > 0 then n # chain_link kc cur ns else cur # n # ns)"

definition move_entry ::
  "('k, 'd) hashtab \<Rightarrow> ('k \<times> 'd) list list \<Rightarrow> 'k \<times> 'd \<Rightarrow> ('k \<times> 'd) list list" where
  "move_entry h t cur =
     (let hvalue = unat (hash_value h (htsize h) (fst cur)) in
      t[hvalue := chain_link (keycmp h) cur (t ! hvalue)])"

definition hashtab_check_resize :: "('k, 'd) hashtab \<Rightarrow> heap \<Rightarrow> ('k, 'd) hashtab \<times> heap" where
  "hashtab_check_resize h hp =
     (let new_size = new_size_loop (nel h) (htsize h) in
      if htsize h = new_size then (h, hp)
      else case malloc hp of (ok, hp) \<Rightarrow>
        if \<not> ok then (h, hp)
        else let h' = h\<lparr>htsize := new_size\<rparr> in
          (h'\<lparr>htable := fold (\<lambda>chain t. fold (\<lambda>cur t. move_entry h' t cur) chain t)
                 (htable h) (replicate (unat new_size) [])\<rparr>, hp))"

text \<open>The scan of \<open>hashtab_insert\<close>, returning the chain with the new node linked in.\<close>

fun chain_insert ::
  "('k \<Rightarrow> 'k \<Rightarrow> int) \<Rightarrow> 'k \<Rightarrow> 'd \<Rightarrow> ('k \<times> 'd) list \<Rightarrow> ('k \<times> 'd) list option" where
  "chain_insert kc key datum [] = Some [(key, datum)]"
| "chain_insert kc key datum (cur # ns) =
     (let cmp = kc key (fst cur) in
      if cmp > 0 then map_option ((#) cur) (chain_insert kc key datum ns)
      else if cmp = 0 then None
      else Some ((key, datum) # cur # ns))"

definition hashtab_insert ::
  "('k, 'd) hashtab option \<Rightarrow> 'k \<Rightarrow> 'd \<Rightarrow> heap \<Rightarrow> unit result \<times> ('k, 'd) hashtab option \<times> heap" where
  "hashtab_insert ho key datum hp = (case ho of
       None \<Rightarrow> (Inl ENOMEM, None, hp)
     | Some h \<Rightarrow>
         if nel h = - 1 then (Inl ENOMEM, Some h, hp)
         else case hashtab_check_resize h hp of (h, hp) \<Rightarrow>
           let hvalue = unat (hash_value h (htsize h) key) in
           case chain_insert (keycmp h) key datum (htable h ! hvalue) of
             None \<Rightarrow> (Inl EEXIST, Some h, hp)
           | Some chain \<Rightarrow> (case malloc hp of (ok, hp) \<Rightarrow>
               if \<not> ok then (Inl ENOMEM, Some h, hp)
               else (Inr (), Some (h\<lparr>htable := (htable h)[hvalue := chain], nel := nel h + 1\<rparr>), hp)))"

fun chain_remove ::
  "('k \<Rightarrow> 'k \<Rightarrow> int) \<Rightarrow> 'k \<Rightarrow> ('k \<times> 'd) list \<Rightarrow> (('k \<times> 'd) \<times> ('k \<times> 'd) list) option" where
  "chain_remove kc key [] = None"
| "chain_remove kc key (cur # ns) =
     (let cmp = kc key (fst cur) in
      if cmp > 0 then map_option (apsnd ((#) cur)) (chain_remove kc key ns)
      else if cmp = 0 then Some (cur, ns)
      else None)"

definition hashtab_remove ::
  "('k, 'd) hashtab option \<Rightarrow> 'k \<Rightarrow> ('k \<Rightarrow> 'd \<Rightarrow> 's \<Rightarrow> 's) option \<Rightarrow> 's \<Rightarrow>
    unit result \<times> ('k, 'd) hashtab option \<times> 's" where
  "hashtab_remove ho key destroy args = (case ho of
       None \<Rightarrow> (Inl ENOENT, None, args)
     | Some h \<Rightarrow>
         let hvalue = unat (hash_value h (htsize h) key) in
         case chain_remove (keycmp h) key (htable h ! hvalue) of
           None \<Rightarrow> (Inl ENOENT, Some h, args)
         | Some ((k, d), chain) \<Rightarrow>
             (Inr (), Some (h\<lparr>htable := (htable h)[hvalue := chain], nel := nel h - 1\<rparr>),
              case destroy of None \<Rightarrow> args | Some f \<Rightarrow> f k d args))"

fun chain_search :: "('k \<Rightarrow> 'k \<Rightarrow> int) \<Rightarrow> 'k \<Rightarrow> ('k \<times> 'd) list \<Rightarrow> 'd option" where
  "chain_search kc key [] = None"
| "chain_search kc key (cur # ns) =
     (let cmp = kc key (fst cur) in
      if cmp > 0 then chain_search kc key ns
      else if cmp = 0 then Some (snd cur)
      else None)"

definition hashtab_search :: "('k, 'd) hashtab option \<Rightarrow> 'k \<Rightarrow> 'd option" where
  "hashtab_search ho key = (case ho of
       None \<Rightarrow> None
     | Some h \<Rightarrow> chain_search (keycmp h) key (htable h ! unat (hash_value h (htsize h) key)))"

text \<open>\<open>apply\<close> returns its status, 0 to go on, and the new state behind \<open>args\<close>.\<close>

fun chain_apply :: "('k \<Rightarrow> 'd \<Rightarrow> 's \<Rightarrow> int \<times> 's) \<Rightarrow> ('k \<times> 'd) list \<Rightarrow> 's \<Rightarrow> int \<times> 's" where
  "chain_apply f [] args = (0, args)"
| "chain_apply f ((k, d) # ns) args = (case f k d args of (ret, args) \<Rightarrow>
     if ret \<noteq> 0 then (ret, args) else chain_apply f ns args)"

fun chains_apply :: "('k \<Rightarrow> 'd \<Rightarrow> 's \<Rightarrow> int \<times> 's) \<Rightarrow> ('k \<times> 'd) list list \<Rightarrow> 's \<Rightarrow> int \<times> 's" where
  "chains_apply f [] args = (0, args)"
| "chains_apply f (c # cs) args = (case chain_apply f c args of (ret, args) \<Rightarrow>
     if ret \<noteq> 0 then (ret, args) else chains_apply f cs args)"

definition hashtab_map ::
  "('k, 'd) hashtab option \<Rightarrow> ('k \<Rightarrow> 'd \<Rightarrow> 's \<Rightarrow> int \<times> 's) \<Rightarrow> 's \<Rightarrow> int \<times> 's" where
  "hashtab_map ho f args = (case ho of
       None \<Rightarrow> (0, args)
     | Some h \<Rightarrow> chains_apply f (htable h) args)"

section \<open>Interface: hash and comparison functions\<close>

text \<open>
  What the table relies on: the hash of a key is a slot of the table, and the comparison is a
  strict linear order that identifies equal keys only.
\<close>

locale key_order =
  fixes hash :: "u32 \<Rightarrow> 'k \<Rightarrow> u32" and cmp :: "'k \<Rightarrow> 'k \<Rightarrow> int"
  assumes hash_slot: "s \<noteq> 0 \<Longrightarrow> hash s k < s"
    and cmp_eq: "cmp a b = 0 \<longleftrightarrow> a = b"
    and cmp_flip: "0 < cmp a b \<longleftrightarrow> cmp b a < 0"
    and cmp_trans: "0 < cmp a b \<Longrightarrow> 0 < cmp b c \<Longrightarrow> 0 < cmp a c"

section \<open>Invariant and abstraction\<close>

definition chain_sorted :: "('k \<Rightarrow> 'k \<Rightarrow> int) \<Rightarrow> ('k \<times> 'd) list \<Rightarrow> bool" where
  "chain_sorted kc c \<longleftrightarrow> sorted_wrt (\<lambda>a b. kc (fst a) (fst b) < 0) c"

definition chains_wf ::
  "(u32 \<Rightarrow> 'k \<Rightarrow> u32) \<Rightarrow> ('k \<Rightarrow> 'k \<Rightarrow> int) \<Rightarrow> u32 \<Rightarrow> ('k \<times> 'd) list list \<Rightarrow> bool" where
  "chains_wf hv kc s t \<longleftrightarrow> s \<noteq> 0 \<and> length t = unat s \<and>
     (\<forall>i < length t. chain_sorted kc (t ! i) \<and> (\<forall>n \<in> set (t ! i). unat (hv s (fst n)) = i))"

definition hashtab_wf :: "('k, 'd) hashtab \<Rightarrow> bool" where
  "hashtab_wf h \<longleftrightarrow> chains_wf (hash_value h) (keycmp h) (htsize h) (htable h) \<and>
     unat (nel h) = length (concat (htable h))"

definition hashtab_abs :: "('k, 'd) hashtab \<Rightarrow> 'k \<rightharpoonup> 'd" where
  "hashtab_abs h = map_of (concat (htable h))"

lemma chains_wfD:
  assumes "chains_wf hv kc s t" and "i < length t"
  shows "chain_sorted kc (t ! i)" and "n \<in> set (t ! i) \<Longrightarrow> unat (hv s (fst n)) = i"
  using assms by (simp_all add: chains_wf_def)

lemma mset_concat_update:
  "i < length t \<Longrightarrow> mset (concat (t[i := c])) + mset (t ! i) = mset (concat t) + mset c"
proof (induction t arbitrary: i)
  case (Cons x t)
  then show ?case by (cases i) (auto simp: ac_simps)
qed simp

lemma map_of_mset:
  assumes "mset xs = mset ys" and "distinct (map fst xs)"
  shows "map_of xs = map_of ys"
proof -
  have "mset (map fst xs) = mset (map fst ys)" using assms(1) by simp
  then have d: "distinct (map fst ys)"
    using assms(2) mset_eq_imp_distinct_iff [of "map fst xs" "map fst ys"] by simp
  show ?thesis using map_of_inject_set [OF assms(2) d] mset_eq_setD [OF assms(1)] by simp
qed

lemma map_of_mset_add:
  assumes "mset ys = add_mset (k, d) (mset xs)" and "distinct (map fst ys)"
  shows "map_of ys = (map_of xs)(k \<mapsto> d)" and "map_of xs k = None"
proof -
  have m: "mset ys = mset ((k, d) # xs)" using assms(1) by simp
  show "map_of ys = (map_of xs)(k \<mapsto> d)" using map_of_mset [OF m assms(2)] by simp
  have "mset (map fst ys) = mset (map fst ((k, d) # xs))" using m by (simp only: mset_map)
  then have "distinct (map fst ys) \<longleftrightarrow> distinct (map fst ((k, d) # xs))"
    by (rule mset_eq_imp_distinct_iff)
  with assms(2) have "distinct (map fst ((k, d) # xs))" by (simp only:)
  then show "map_of xs k = None" by (simp add: map_of_eq_None_iff)
qed

context key_order
begin

lemma cmp_less: "cmp a b < 0 \<longleftrightarrow> 0 < cmp b a"
  by (simp add: cmp_flip)

lemma cmp_less_trans: "cmp a b < 0 \<Longrightarrow> cmp b c < 0 \<Longrightarrow> cmp a c < 0"
  using cmp_trans [of c b a] by (simp add: cmp_less)

lemma cmp_irrefl: "\<not> cmp a a < 0"
  using cmp_eq [of a a] by simp

lemma cmp_not: "\<not> 0 < cmp a b \<Longrightarrow> a \<noteq> b \<Longrightarrow> cmp a b < 0"
  using cmp_eq [of a b] by linarith

lemma chain_sorted_distinct: "chain_sorted cmp c \<Longrightarrow> distinct (map fst c)"
  unfolding chain_sorted_def
proof (induction c)
  case (Cons a c)
  have "fst a \<notin> fst ` set c"
  proof
    assume "fst a \<in> fst ` set c"
    then obtain b where "b \<in> set c" "fst b = fst a" by auto
    with Cons.prems have "cmp (fst a) (fst a) < 0" by fastforce
    with cmp_irrefl show False by blast
  qed
  with Cons show ?case by simp
qed simp

lemma chain_link_mset [simp]: "mset (chain_link cmp cur c) = add_mset cur (mset c)"
  by (induction c) auto

lemma chain_link_set [simp]: "set (chain_link cmp cur c) = insert cur (set c)"
  by (induction c) auto

lemma chain_link_sorted:
  assumes "chain_sorted cmp c" and "fst cur \<notin> fst ` set c"
  shows "chain_sorted cmp (chain_link cmp cur c)"
  using assms unfolding chain_sorted_def
proof (induction c)
  case (Cons n ns)
  show ?case
  proof (cases "cmp (fst cur) (fst n) > 0")
    case True
    with Cons show ?thesis by (auto simp: cmp_less)
  next
    case False
    with Cons.prems(2) have less: "cmp (fst cur) (fst n) < 0" by (intro cmp_not) auto
    with Cons.prems(1) have "\<forall>b \<in> set ns. cmp (fst cur) (fst b) < 0"
      by (auto intro: cmp_less_trans [OF less])
    with False less Cons.prems(1) show ?thesis by simp
  qed
qed simp

lemma chain_search_map_of: "chain_sorted cmp c \<Longrightarrow> chain_search cmp k c = map_of c k"
  unfolding chain_sorted_def
proof (induction c)
  case (Cons n ns)
  obtain k' d where n: "n = (k', d)" by (cases n)
  show ?case
  proof (cases "k = k'")
    case True
    then show ?thesis using n cmp_eq [of k k'] by simp
  next
    case False
    have "map_of ns k = None" if "cmp k k' < 0"
    proof (rule ccontr)
      assume "map_of ns k \<noteq> None"
      then obtain d' where "(k, d') \<in> set ns" by (auto dest: map_of_SomeD)
      with Cons.prems n have "cmp k' k < 0" by auto
      with that cmp_less_trans cmp_irrefl show False by blast
    qed
    with Cons False n cmp_not [of k k'] cmp_eq [of k k'] show ?thesis
      by (auto simp: Let_def)
  qed
qed simp

lemma chain_insert_None: "chain_sorted cmp c \<Longrightarrow> chain_insert cmp k d c = None \<longleftrightarrow> map_of c k \<noteq> None"
  unfolding chain_search_map_of [symmetric]
  by (induction c) (auto simp: Let_def chain_sorted_def)

lemma chain_insert_link: "chain_insert cmp k d c = Some c' \<Longrightarrow> c' = chain_link cmp (k, d) c"
proof (induction c arbitrary: c')
  case (Cons n ns)
  then show ?case by (auto simp: Let_def split: if_splits)
qed simp

lemma chain_remove_None: "chain_sorted cmp c \<Longrightarrow> chain_remove cmp k c = None \<longleftrightarrow> map_of c k = None"
  unfolding chain_search_map_of [symmetric]
  by (induction c) (auto simp: Let_def chain_sorted_def)

lemma chain_remove_Some:
  "chain_remove cmp k c = Some (x, c') \<Longrightarrow> fst x = k \<and> mset c = add_mset x (mset c')"
proof (induction c arbitrary: c')
  case (Cons n ns)
  then show ?case by (auto simp: Let_def cmp_eq split: if_splits)
qed simp

lemma chain_remove_sorted:
  "chain_remove cmp k c = Some (x, c') \<Longrightarrow> chain_sorted cmp c \<Longrightarrow> chain_sorted cmp c'"
  unfolding chain_sorted_def
proof (induction c arbitrary: c')
  case (Cons n ns)
  show ?case
  proof (cases "cmp k (fst n) > 0")
    case True
    with Cons.prems(1) obtain c'' where r: "chain_remove cmp k ns = Some (x, c'')" and c': "c' = n # c''"
      by (auto simp: Let_def)
    have "set c'' \<subseteq> set ns" using chain_remove_Some [OF r] by (metis mset_subset_eq_add_right add_mset_add_single set_mset_mset set_mset_mono union_commute)
    with Cons.IH [OF r] Cons.prems(2) c' show ?thesis by auto
  next
    case False
    with Cons.prems show ?thesis by (auto simp: Let_def split: if_splits)
  qed
qed simp

end

section \<open>The table as a map\<close>

lemma in_concat_nth: "n \<in> set (concat t) \<longleftrightarrow> (\<exists>i < length t. n \<in> set (t ! i))"
proof -
  have "n \<in> set (concat t) \<longleftrightarrow> (\<exists>c \<in> set t. n \<in> set c)" by simp
  also have "\<dots> \<longleftrightarrow> (\<exists>i < length t. n \<in> set (t ! i))"
    by (simp only: in_set_conv_nth Bex_def) blast
  finally show ?thesis .
qed

lemma distinct_concat_slots:
  assumes "\<And>i. i < length t \<Longrightarrow> distinct (map fst (t ! i)) \<and> (\<forall>n \<in> set (t ! i). g (fst n) = off + i)"
  shows "distinct (map fst (concat t))"
  using assms
proof (induction t arbitrary: off)
  case (Cons c t)
  have tail: "distinct (map fst (t ! i)) \<and> (\<forall>n \<in> set (t ! i). g (fst n) = Suc off + i)"
    if "i < length t" for i
    using Cons.prems [of "Suc i"] that by simp
  have head: "distinct (map fst c)" "\<forall>n \<in> set c. g (fst n) = off"
    using Cons.prems [of 0] by simp_all
  have "g (fst n) > off" if n: "n \<in> set (concat t)" for n
  proof -
    from n obtain i where "i < length t" "n \<in> set (t ! i)" by (auto simp only: in_concat_nth)
    with tail [of i] show ?thesis by auto
  qed
  with head(2) have "fst ` set c \<inter> fst ` set (concat t) = {}" by fastforce
  with head(1) Cons.IH [OF tail] show ?case by simp
qed simp

context key_order
begin

lemma chains_distinct:
  assumes "chains_wf hash cmp s t"
  shows "distinct (map fst (concat t))"
  using assms by (intro distinct_concat_slots [where g = "\<lambda>k. unat (hash s k)" and off = 0])
    (auto simp: chains_wf_def chain_sorted_distinct)

lemma chains_slot:
  assumes "chains_wf hash cmp s t"
  shows "unat (hash s k) < length t"
  using assms hash_slot [of s k] by (simp add: chains_wf_def word_less_nat_alt)

lemma chains_lookup:
  assumes wf: "chains_wf hash cmp s t"
  shows "map_of (concat t) k = map_of (t ! unat (hash s k)) k"
proof -
  have slot: "distinct (map fst (t ! unat (hash s k)))"
    using wf chains_slot [OF wf] by (auto simp: chains_wf_def chain_sorted_distinct)
  have "(k, d) \<in> set (concat t) \<longleftrightarrow> (k, d) \<in> set (t ! unat (hash s k))" for d
  proof
    assume "(k, d) \<in> set (concat t)"
    then obtain i where "i < length t" "(k, d) \<in> set (t ! i)" by (auto simp only: in_concat_nth)
    with chains_wfD(2) [OF wf, of i "(k, d)"] show "(k, d) \<in> set (t ! unat (hash s k))" by simp
  next
    assume "(k, d) \<in> set (t ! unat (hash s k))"
    with chains_slot [OF wf, of k] show "(k, d) \<in> set (concat t)" by (auto simp only: in_concat_nth)
  qed
  then have "map_of (concat t) k = Some d \<longleftrightarrow> map_of (t ! unat (hash s k)) k = Some d" for d
    using chains_distinct [OF wf] slot by simp
  then show ?thesis by (metis option.exhaust)
qed

lemma chains_update:
  assumes "chains_wf hash cmp s t" and "i < length t"
    and "chain_sorted cmp c" and "\<forall>n \<in> set c. unat (hash s (fst n)) = i"
  shows "chains_wf hash cmp s (t[i := c])"
  using assms by (auto simp: chains_wf_def nth_list_update)

lemma chains_empty: "s \<noteq> 0 \<Longrightarrow> chains_wf hash cmp s (replicate (unat s) [])"
  by (simp add: chains_wf_def chain_sorted_def)

lemma chains_link:
  assumes wf: "chains_wf hash cmp s t" and new: "fst cur \<notin> fst ` set (concat t)"
    and i: "i = unat (hash s (fst cur))"
  shows "chains_wf hash cmp s (t[i := chain_link cmp cur (t ! i)])"
    and "mset (concat (t[i := chain_link cmp cur (t ! i)])) = add_mset cur (mset (concat t))"
proof -
  have il: "i < length t" using chains_slot [OF wf] i by simp
  then have "set (t ! i) \<subseteq> set (concat t)" by (auto simp only: in_concat_nth)
  then have "fst cur \<notin> fst ` set (t ! i)" using new by blast
  then show "chains_wf hash cmp s (t[i := chain_link cmp cur (t ! i)])"
    using chains_wfD [OF wf il] i
    by (intro chains_update [OF wf il] chain_link_sorted) (auto simp del: unat_eq_iff)
  show "mset (concat (t[i := chain_link cmp cur (t ! i)])) = add_mset cur (mset (concat t))"
    using mset_concat_update [OF il, of "chain_link cmp cur (t ! i)"] by simp
qed

text \<open>Moving a list of entries with new keys into a table of the new size.\<close>

lemma move_entries:
  assumes "hash_value h = hash" and "keycmp h = cmp" and "chains_wf hash cmp (htsize h) t"
    and "distinct (map fst xs)" and "fst ` set xs \<inter> fst ` set (concat t) = {}"
  shows "chains_wf hash cmp (htsize h) (fold (\<lambda>cur t. move_entry h t cur) xs t) \<and>
    mset (concat (fold (\<lambda>cur t. move_entry h t cur) xs t)) = mset xs + mset (concat t)"
  using assms
proof (induction xs arbitrary: t)
  case (Cons x xs)
  let ?i = "unat (hash (htsize h) (fst x))"
  let ?t = "t[?i := chain_link cmp x (t ! ?i)]"
  have step: "move_entry h t x = ?t" using Cons.prems(1, 2) by (simp add: move_entry_def Let_def)
  have new: "fst x \<notin> fst ` set (concat t)" using Cons.prems(5) by simp
  have wf: "chains_wf hash cmp (htsize h) ?t" and m: "mset (concat ?t) = add_mset x (mset (concat t))"
    using chains_link [OF Cons.prems(3) new refl] by simp_all
  have "set (concat ?t) = insert x (set (concat t))" using m by (metis set_mset_add_mset_insert set_mset_mset)
  then have "fst ` set xs \<inter> fst ` set (concat ?t) = {}" using Cons.prems(4, 5) by auto
  with Cons.IH [OF Cons.prems(1, 2) wf] Cons.prems(4) m step show ?case by simp
qed simp

end

lemma fold_concat: "fold (\<lambda>c t. fold f c t) cs t = fold f (concat cs) t"
  by (induction cs arbitrary: t) simp_all

lemma new_size_loop_nonzero: "s \<noteq> 0 \<Longrightarrow> new_size_loop n s \<noteq> 0"
proof (induction n s rule: new_size_loop.induct)
  case (1 n s)
  then show ?case by (cases "s \<le> n \<and> s * 2 \<noteq> 0") (auto simp: new_size_loop.simps [of n s])
qed

text \<open>The tables a component builds: well formed and with the given two functions.\<close>

definition keyed_table :: "(u32 \<Rightarrow> 'k \<Rightarrow> u32) \<Rightarrow> ('k \<Rightarrow> 'k \<Rightarrow> int) \<Rightarrow> ('k, 'd) hashtab \<Rightarrow> bool" where
  "keyed_table hv kc h \<longleftrightarrow> hashtab_wf h \<and> hash_value h = hv \<and> keycmp h = kc"

context key_order
begin

lemma keyed_chains: "keyed_table hash cmp h \<Longrightarrow> chains_wf hash cmp (htsize h) (htable h)"
  by (auto simp: keyed_table_def hashtab_wf_def)

lemma keyed_distinct: "keyed_table hash cmp h \<Longrightarrow> distinct (map fst (concat (htable h)))"
  by (rule chains_distinct [OF keyed_chains])

lemma check_resize_keeps:
  assumes "keyed_table hash cmp h" and "hashtab_check_resize h hp = (h', hp')"
  shows "keyed_table hash cmp h' \<and> hashtab_abs h' = hashtab_abs h \<and> nel h' = nel h \<and>
    mset (concat (htable h')) = mset (concat (htable h)) \<and> (mem_ok hp \<longrightarrow> mem_ok hp')"
proof -
  let ?s = "new_size_loop (nel h) (htsize h)"
  obtain ok hp2 where m: "malloc hp = (ok, hp2)" by (cases "malloc hp")
  show ?thesis
  proof (cases "htsize h = ?s \<or> \<not> ok")
    case True
    with assms m show ?thesis
      by (auto simp: hashtab_check_resize_def Let_def dest: malloc_okD split: if_splits)
  next
    case False
    let ?h = "h\<lparr>htsize := ?s\<rparr>"
    let ?t = "fold (\<lambda>cur t. move_entry ?h t cur) (concat (htable h)) (replicate (unat ?s) [])"
    have fields: "hash_value ?h = hash" "keycmp ?h = cmp" "htsize ?h = ?s"
      using assms(1) by (simp_all add: keyed_table_def)
    have "htsize h \<noteq> 0" using keyed_chains [OF assms(1)] by (simp add: chains_wf_def)
    then have "chains_wf hash cmp (htsize ?h) (replicate (unat ?s) [])"
      by (simp add: chains_empty new_size_loop_nonzero)
    from move_entries [OF fields(1, 2) this keyed_distinct [OF assms(1)]]
    have wf: "chains_wf hash cmp ?s ?t" and ms: "mset (concat ?t) = mset (concat (htable h))"
      by simp_all
    have h': "h' = ?h\<lparr>htable := ?t\<rparr>" and hp': "hp' = hp2"
      using assms(2) m False by (simp_all add: hashtab_check_resize_def Let_def fold_concat)
    have "keyed_table hash cmp h'"
      using wf assms(1) ms h' by (simp add: keyed_table_def hashtab_wf_def flip: size_mset)
    moreover have "hashtab_abs h' = hashtab_abs h"
      using map_of_mset [OF ms chains_distinct [OF wf]] h' by (simp add: hashtab_abs_def)
    ultimately show ?thesis using ms h' hp' m by (auto dest: malloc_okD)
  qed
qed

end

text \<open>What \<open>hashtab_insert\<close> promises: \<open>r\<close> is its status and \<open>h'\<close> the table it leaves.\<close>

definition inserted :: "('k, 'd) hashtab \<Rightarrow> 'k \<Rightarrow> 'd \<Rightarrow> heap \<Rightarrow> unit result \<Rightarrow> ('k, 'd) hashtab \<Rightarrow> bool" where
  "inserted h k d hp r h' \<longleftrightarrow> (case r of
      Inr _ \<Rightarrow> hashtab_abs h k = None \<and> hashtab_abs h' = (hashtab_abs h)(k \<mapsto> d) \<and> nel h' = nel h + 1
    | Inl e \<Rightarrow> hashtab_abs h' = hashtab_abs h \<and> nel h' = nel h \<and>
        (e = EEXIST \<and> hashtab_abs h k \<noteq> None \<or>
         e = ENOMEM \<and> (nel h = - 1 \<or> hashtab_abs h k = None \<and> \<not> mem_ok hp)))"

context key_order
begin

lemma search_abs:
  assumes "keyed_table hash cmp h"
  shows "hashtab_search (Some h) k = hashtab_abs h k"
proof -
  have wf: "chains_wf hash cmp (htsize h) (htable h)" using keyed_chains [OF assms] .
  have "hashtab_search (Some h) k = map_of (htable h ! unat (hash (htsize h) k)) k"
    using assms chains_wfD(1) [OF wf chains_slot [OF wf]]
    by (simp add: hashtab_search_def keyed_table_def chain_search_map_of)
  then show ?thesis by (simp add: hashtab_abs_def chains_lookup [OF wf])
qed

lemma insert_into_chain:
  assumes "keyed_table hash cmp h" and "nel h \<noteq> - 1" and i: "i = unat (hash (htsize h) k)"
    and c: "chain_insert cmp k d (htable h ! i) = Some c"
    and h': "h' = h\<lparr>htable := (htable h)[i := c], nel := nel h + 1\<rparr>"
  shows "keyed_table hash cmp h' \<and> hashtab_abs h k = None \<and> hashtab_abs h' = (hashtab_abs h)(k \<mapsto> d)"
proof -
  have wf: "chains_wf hash cmp (htsize h) (htable h)" using keyed_chains [OF assms(1)] .
  have il: "i < length (htable h)" using chains_slot [OF wf] i by simp
  have "map_of (htable h ! i) k = None"
    using chain_insert_None [OF chains_wfD(1) [OF wf il], of k d] c by simp
  then have none: "map_of (concat (htable h)) k = None" using chains_lookup [OF wf] i by simp
  then have new: "fst (k, d) \<notin> fst ` set (concat (htable h))"
    by (simp only: map_of_eq_None_iff fst_conv) simp
  note link = chains_link [OF wf new, of i, folded chain_insert_link [OF c], simplified fst_conv, OF i]
  have "1 + nel h \<noteq> 0" using assms(2) by (metis add.commute eq_neg_iff_add_eq_0)
  then have "unat (nel h + 1) = Suc (unat (nel h))" by (metis unatSuc add.commute)
  then have "keyed_table hash cmp h'"
    using assms(1) link h' i by (simp add: keyed_table_def hashtab_wf_def flip: size_mset)
  moreover have "hashtab_abs h' = (hashtab_abs h)(k \<mapsto> d)"
    using map_of_mset_add(1) [OF link(2) chains_distinct [OF link(1)]] h' i
    by (simp add: hashtab_abs_def)
  ultimately show ?thesis using none by (simp add: hashtab_abs_def)
qed

lemma insert_abs:
  assumes h: "keyed_table hash cmp h" and ins: "hashtab_insert (Some h) k d hp = (r, ho', hp')"
  shows "\<exists>h'. ho' = Some h' \<and> keyed_table hash cmp h' \<and> inserted h k d hp r h' \<and>
    (mem_ok hp \<longrightarrow> mem_ok hp')"
proof (cases "nel h = - 1")
  case True
  with assms show ?thesis by (auto simp: hashtab_insert_def inserted_def)
next
  case False
  obtain h1 hp1 where rs: "hashtab_check_resize h hp = (h1, hp1)" by (cases "hashtab_check_resize h hp")
  have k1: "keyed_table hash cmp h1" and same: "hashtab_abs h1 = hashtab_abs h" "nel h1 = nel h"
    and mem: "mem_ok hp \<longrightarrow> mem_ok hp1"
    using check_resize_keeps [OF h rs] by simp_all
  have fields: "hash_value h1 = hash" "keycmp h1 = cmp" using k1 by (simp_all add: keyed_table_def)
  let ?i = "unat (hash (htsize h1) k)"
  have wf: "chains_wf hash cmp (htsize h1) (htable h1)" using keyed_chains [OF k1] .
  show ?thesis
  proof (cases "chain_insert cmp k d (htable h1 ! ?i)")
    case None
    then have "hashtab_abs h1 k \<noteq> None"
      using chain_insert_None [OF chains_wfD(1) [OF wf chains_slot [OF wf]]] chains_lookup [OF wf]
      by (simp add: hashtab_abs_def)
    with ins False None rs fields same mem k1 show ?thesis
      by (auto simp: hashtab_insert_def inserted_def Let_def)
  next
    case (Some c)
    have "nel h1 \<noteq> - 1" using False same by simp
    note into = insert_into_chain [OF k1 this refl Some refl]
    obtain ok hp2 where m: "malloc hp1 = (ok, hp2)" by (cases "malloc hp1")
    show ?thesis
    proof (cases ok)
      case True
      with ins False Some rs fields m into same mem show ?thesis
        by (auto simp: hashtab_insert_def inserted_def Let_def dest: malloc_okD)
    next
      case no: False
      with m have "\<not> mem_ok hp1" by (auto dest: malloc_okD)
      with no ins False Some rs fields m into same mem k1 show ?thesis
        by (auto simp: hashtab_insert_def inserted_def Let_def)
    qed
  qed
qed

lemma remove_abs:
  assumes h: "keyed_table hash cmp h" and rm: "hashtab_remove (Some h) k destroy args = (r, ho', args')"
  shows "\<exists>h'. ho' = Some h' \<and> keyed_table hash cmp h' \<and>
    (case hashtab_abs h k of
       None \<Rightarrow> r = Inl ENOENT \<and> h' = h \<and> args' = args
     | Some d \<Rightarrow> r = Inr () \<and> hashtab_abs h' = (hashtab_abs h)(k := None) \<and>
         args' = (case destroy of None \<Rightarrow> args | Some f \<Rightarrow> f k d args))"
proof -
  let ?i = "unat (hash (htsize h) k)"
  have fields: "hash_value h = hash" "keycmp h = cmp" using h by (simp_all add: keyed_table_def)
  have wf: "chains_wf hash cmp (htsize h) (htable h)" using keyed_chains [OF h] .
  have il: "?i < length (htable h)" by (rule chains_slot [OF wf])
  note sorted = chains_wfD(1) [OF wf il]
  have lookup: "hashtab_abs h k = map_of (htable h ! ?i) k"
    by (simp add: hashtab_abs_def chains_lookup [OF wf])
  show ?thesis
  proof (cases "chain_remove cmp k (htable h ! ?i)")
    case None
    then have "hashtab_abs h k = None" using chain_remove_None [OF sorted] lookup by simp
    with None rm h fields show ?thesis by (simp add: hashtab_remove_def Let_def)
  next
    case (Some xc)
    obtain k' d c where xc: "xc = ((k', d), c)" by (cases xc) auto
    with Some have rmv: "chain_remove cmp k (htable h ! ?i) = Some ((k', d), c)" by simp
    have k': "k' = k" and mc: "mset (htable h ! ?i) = add_mset (k, d) (mset c)"
      using chain_remove_Some [OF rmv] by auto
    let ?t = "(htable h)[?i := c]"
    have ms: "mset (concat (htable h)) = add_mset (k, d) (mset (concat ?t))"
      using mset_concat_update [OF il, of c] mc by simp
    have "set c \<subseteq> set (htable h ! ?i)"
      using mset_eq_setD [of "htable h ! ?i" "(k, d) # c"] mc by auto
    then have wf': "chains_wf hash cmp (htsize h) ?t"
      using chain_remove_sorted [OF rmv sorted] chains_wfD(2) [OF wf il]
      by (intro chains_update [OF wf il]) blast+
    have none: "map_of (concat ?t) k = None" and upd: "map_of (concat (htable h)) = (map_of (concat ?t))(k \<mapsto> d)"
      using map_of_mset_add [OF ms keyed_distinct [OF h]] by simp_all
    have "unat (nel h) = Suc (length (concat ?t))"
      using h arg_cong [OF ms, of size] by (simp add: keyed_table_def hashtab_wf_def)
    then have "unat (nel h - 1) = length (concat ?t)"
      by (metis unat_diff diff_Suc_1 unat_1 word_le_nat_alt le_add1 plus_1_eq_Suc)
    then have "keyed_table hash cmp (h\<lparr>htable := ?t, nel := nel h - 1\<rparr>)"
      using h wf' by (simp add: keyed_table_def hashtab_wf_def)
    moreover have "map_of (concat ?t) = (map_of (concat (htable h)))(k := None)"
      using none upd by auto
    ultimately show ?thesis
      using rm fields rmv k' upd by (auto simp: hashtab_remove_def hashtab_abs_def Let_def)
  qed
qed

end

lemma chain_apply_append:
  "chain_apply f (xs @ ys) args = (case chain_apply f xs args of (ret, args) \<Rightarrow>
     if ret \<noteq> 0 then (ret, args) else chain_apply f ys args)"
  by (induction xs arbitrary: args) (auto split: prod.splits)

lemma chains_apply_concat: "chains_apply f cs args = chain_apply f (concat cs) args"
  by (induction cs arbitrary: args) (simp_all add: chain_apply_append split: prod.splits)

lemma hashtab_map_entries: "hashtab_map (Some h) f args = chain_apply f (concat (htable h)) args"
  by (simp add: hashtab_map_def chains_apply_concat)

lemma hashtab_create_keyed:
  assumes "hashtab_create hv kc sz h = (Some t, h')" and "sz \<noteq> 0"
  shows "keyed_table hv kc t \<and> hashtab_abs t = Map.empty \<and> nel t = 0"
  using assms
  by (auto simp: hashtab_create_def keyed_table_def hashtab_wf_def chains_wf_def chain_sorted_def
      hashtab_abs_def split: prod.splits if_splits)

section \<open>Interface: tables as maps\<close>

text \<open>
  What the clients of a table use: a search returns the datum of the abstract map, and an
  insertion either adds a new key or leaves the map alone. \<open>insert_all\<close> is the loop of a loader
  that inserts one entry after the other and stops at the first error.
\<close>

fun insert_all ::
  "('t \<Rightarrow> 'k \<Rightarrow> 'd \<Rightarrow> heap \<Rightarrow> unit result \<times> 't \<times> heap) \<Rightarrow> ('k \<times> 'd) list \<Rightarrow> 't \<Rightarrow> heap \<Rightarrow>
    unit result \<times> 't \<times> heap" where
  "insert_all ins [] t h = (Inr (), t, h)"
| "insert_all ins ((k, d) # xs) t h = (case ins t k d h of (r, t, h) \<Rightarrow>
     (case r of Inl e \<Rightarrow> (Inl e, t, h) | Inr _ \<Rightarrow> insert_all ins xs t h))"

locale lookup_table =
  fixes inv :: "'t \<Rightarrow> bool" and abs :: "'t \<Rightarrow> 'k \<rightharpoonup> 'd" and search :: "'t \<Rightarrow> 'k \<Rightarrow> 'd option"
    and insert :: "'t \<Rightarrow> 'k \<Rightarrow> 'd \<Rightarrow> heap \<Rightarrow> unit result \<times> 't \<times> heap"
  assumes search: "inv t \<Longrightarrow> search t k = abs t k"
    and insert_inv: "inv t \<Longrightarrow> insert t k d h = (r, t', h') \<Longrightarrow> inv t'"
    and insert_new: "inv t \<Longrightarrow> insert t k d h = (Inr u, t', h') \<Longrightarrow>
      abs t k = None \<and> abs t' = (abs t)(k \<mapsto> d)"
    and insert_fail: "inv t \<Longrightarrow> insert t k d h = (Inl e, t', h') \<Longrightarrow>
      abs t' = abs t \<and> (e = EEXIST \<and> abs t k \<noteq> None \<or> e = ENOMEM)"
begin

lemma search_insert:
  assumes "inv t" and "insert t k d h = (Inr u, t', h')"
  shows "search t' k' = (if k' = k then Some d else search t k')"
  using assms insert_inv [OF assms] insert_new [OF assms] by (simp add: search)

lemma insert_all_ok:
  assumes "inv t" and "insert_all insert xs t h = (r, t', h')"
  shows "inv t' \<and> (case r of
      Inr _ \<Rightarrow> distinct (map fst xs) \<and> dom (abs t) \<inter> fst ` set xs = {} \<and> abs t' = abs t ++ map_of xs
    | Inl e \<Rightarrow> e = EEXIST \<or> e = ENOMEM)"
  using assms
proof (induction xs arbitrary: t h)
  case (Cons x xs)
  obtain k d where x: "x = (k, d)" by (cases x)
  obtain r1 t1 h1 where ins: "insert t k d h = (r1, t1, h1)" by (cases "insert t k d h") auto
  have inv: "inv t1" using insert_inv [OF Cons.prems(1) ins] .
  show ?case
  proof (cases r1)
    case (Inl e)
    with insert_fail [OF Cons.prems(1)] ins have "e = EEXIST \<or> e = ENOMEM" by blast
    with Inl Cons.prems(2) ins x inv show ?thesis by auto
  next
    case (Inr u)
    then have rest: "insert_all insert xs t1 h1 = (r, t', h')" using Cons.prems(2) ins x by simp
    have new: "abs t k = None" "abs t1 = (abs t)(k \<mapsto> d)"
      using insert_new [OF Cons.prems(1)] ins Inr by blast+
    have *: "abs t1 ++ map_of xs = abs t ++ map_of ((k, d) # xs)"
      if "dom (abs t1) \<inter> fst ` set xs = {}"
    proof -
      have "map_of xs k = None" using that new(2) by (auto simp: map_of_eq_None_iff)
      then show ?thesis using new(2) by (auto simp: map_add_def fun_eq_iff split: option.split)
    qed
    show ?thesis
    proof (cases r)
      case (Inl e)
      with Cons.IH [OF inv rest] show ?thesis by simp
    next
      case (Inr w)
      with Cons.IH [OF inv rest] have
        IH: "inv t'" "distinct (map fst xs)" "dom (abs t1) \<inter> fst ` set xs = {}"
          "abs t' = abs t1 ++ map_of xs" by simp_all
      have "k \<notin> fst ` set xs" using IH(3) new(2) by auto
      moreover have "dom (abs t) \<inter> fst ` set (x # xs) = {}" using IH(3) new x by auto
      ultimately show ?thesis using IH * [OF IH(3)] x Inr by simp
    qed
  qed
qed auto

end

definition table_abs :: "('k, 'd) hashtab option \<Rightarrow> 'k \<rightharpoonup> 'd" where
  "table_abs ho = (case ho of None \<Rightarrow> Map.empty | Some h \<Rightarrow> hashtab_abs h)"

definition table_wf ::
  "(u32 \<Rightarrow> 'k \<Rightarrow> u32) \<Rightarrow> ('k \<Rightarrow> 'k \<Rightarrow> int) \<Rightarrow> ('k, 'd) hashtab option \<Rightarrow> bool" where
  "table_wf hv kc ho \<longleftrightarrow> (case ho of None \<Rightarrow> False | Some h \<Rightarrow> keyed_table hv kc h)"

lemma table_Some [simp]:
  "table_abs (Some h) = hashtab_abs h"
  "table_wf hv kc (Some h) \<longleftrightarrow> keyed_table hv kc h"
  by (simp_all add: table_abs_def table_wf_def)

lemma table_wfE:
  assumes "table_wf hv kc ho"
  obtains h where "ho = Some h" and "keyed_table hv kc h"
  using assms by (auto simp: table_wf_def split: option.splits)

context key_order
begin

lemma table_laws: "lookup_table (table_wf hash cmp) table_abs hashtab_search hashtab_insert"
proof
  fix t :: "('k, 'd) hashtab option" and t' k d h h' r e u
  assume "table_wf hash cmp t"
  then obtain h0 where t: "t = Some h0" and k0: "keyed_table hash cmp h0" by (rule table_wfE)
  show "hashtab_search t k = table_abs t k" using search_abs [OF k0] t by simp
  show "table_wf hash cmp t'" if "hashtab_insert t k d h = (r, t', h')"
    using insert_abs [OF k0 that [unfolded t]] by auto
  show "table_abs t k = None \<and> table_abs t' = (table_abs t)(k \<mapsto> d)"
    if "hashtab_insert t k d h = (Inr u, t', h')"
    using insert_abs [OF k0 that [unfolded t]] t by (auto simp: inserted_def)
  show "table_abs t' = table_abs t \<and> (e = EEXIST \<and> table_abs t k \<noteq> None \<or> e = ENOMEM)"
    if "hashtab_insert t k d h = (Inl e, t', h')"
    using insert_abs [OF k0 that [unfolded t]] t by (auto simp: inserted_def)
qed

end

end
