(* ===== verification/Symtab.thy ===== *)
theory Symtab
  imports Hashtab
begin

text \<open>
  Symbol tables (\<open>symtab.c\<close>) and the other keyed tables of the policy database
  (\<open>policydb.c\<close>): their hash and comparison functions, which meet the interface \<open>key_order\<close> of
  the hash table, and the interface \<open>lookup_table\<close> that the clients of a table rest on.

  A C string is the list of its characters before the terminating NUL; the lists that occur
  contain no NUL. \<open>strcmp\<close> is modelled by the sign of its result, all that C promises.
\<close>

unbundle bit_operations_syntax

section \<open>Key comparison and hashing\<close>

fun strcmp :: "string \<Rightarrow> string \<Rightarrow> int" where
  "strcmp [] [] = 0"
| "strcmp [] (d # t) = - 1"
| "strcmp (c # s) [] = 1"
| "strcmp (c # s) (d # t) =
     (if c = d then strcmp s t
      else if (of_char c :: nat) < of_char d then - 1 else 1)"

definition symhash :: "u32 \<Rightarrow> string \<Rightarrow> u32" where
  "symhash sz key =
     (foldl (\<lambda>hash c. (push_bit 5 hash + hash) XOR of_char c) 5381 key) AND (sz - 1)"

definition symcmp :: "string \<Rightarrow> string \<Rightarrow> int" where
  "symcmp key1 key2 = strcmp key1 key2"

record filename_trans_key =
  ttype :: u32
  tclass :: u32
  ftname :: string

record range_trans =
  rt_source_type :: u32
  rt_target_type :: u32
  rt_target_class :: u32

definition spaceship_cmp :: "u32 \<Rightarrow> u32 \<Rightarrow> int" where
  "spaceship_cmp a b = of_bool (a > b) - of_bool (a < b)"

definition partial_name_hash :: "u64 \<Rightarrow> u64 \<Rightarrow> u64" where
  "partial_name_hash c prevhash = (prevhash + push_bit 4 c + drop_bit 4 c) * 11"

definition filenametr_hash :: "u32 \<Rightarrow> filename_trans_key \<Rightarrow> u32" where
  "filenametr_hash sz ft =
     ucast (foldl (\<lambda>hash c. partial_name_hash (of_char c) hash)
       (ucast (ttype ft XOR tclass ft)) (ftname ft) AND ucast (sz - 1))"

definition filenametr_cmp :: "filename_trans_key \<Rightarrow> filename_trans_key \<Rightarrow> int" where
  "filenametr_cmp ft1 ft2 =
     (let v = spaceship_cmp (ttype ft1) (ttype ft2) in
      if v \<noteq> 0 then v
      else let v = spaceship_cmp (tclass ft1) (tclass ft2) in
        if v \<noteq> 0 then v
        else strcmp (ftname ft1) (ftname ft2))"

definition rangetr_hash :: "u32 \<Rightarrow> range_trans \<Rightarrow> u32" where
  "rangetr_hash sz key =
     (rt_source_type key + push_bit 3 (rt_target_type key) + push_bit 5 (rt_target_class key)) AND (sz - 1)"

definition rangetr_cmp :: "range_trans \<Rightarrow> range_trans \<Rightarrow> int" where
  "rangetr_cmp key1 key2 =
     (let v = spaceship_cmp (rt_source_type key1) (rt_source_type key2) in
      if v \<noteq> 0 then v
      else let v = spaceship_cmp (rt_target_type key1) (rt_target_type key2) in
        if v \<noteq> 0 then v
        else spaceship_cmp (rt_target_class key1) (rt_target_class key2))"

section \<open>Symbol tables\<close>

record 'd symtab =
  table :: "(string, 'd) hashtab option"
  nprim :: u32

definition symtab_init :: "'d symtab \<Rightarrow> u32 \<Rightarrow> heap \<Rightarrow> unit result \<times> 'd symtab \<times> heap" where
  "symtab_init s sz h = (case hashtab_create symhash symcmp sz h of (t, h) \<Rightarrow>
     let s = s\<lparr>table := t\<rparr> in
     if t = None then (Inl FAIL, s, h) else (Inr (), s\<lparr>nprim := 0\<rparr>, h))"

section \<open>The functions meet the interface of the hash table\<close>

lemma AND_size_less: "s \<noteq> 0 \<Longrightarrow> w AND (s - 1) < s" for s w :: "'a::len word"
proof -
  assume "s \<noteq> 0"
  then have "s - 1 < s" by (simp add: word_less_nat_alt measure_unat)
  moreover have "w AND (s - 1) \<le> s - 1" by (rule word_and_le1)
  ultimately show ?thesis by (rule le_less_trans [rotated])
qed

lemma of_char_less_cases: "c \<noteq> d \<Longrightarrow> (of_char c :: nat) < of_char d \<or> (of_char d :: nat) < of_char c"
  by (metis of_char_eq_iff linorder_neqE_nat)

lemma strcmp_eq: "strcmp a b = 0 \<longleftrightarrow> a = b"
  by (induction a b rule: strcmp.induct) auto

lemma strcmp_flip: "0 < strcmp a b \<longleftrightarrow> strcmp b a < 0"
  by (induction a b rule: strcmp.induct) (auto dest: of_char_less_cases)

lemma strcmp_trans: "0 < strcmp a b \<Longrightarrow> 0 < strcmp b c \<Longrightarrow> 0 < strcmp a c"
proof (induction a b arbitrary: c rule: strcmp.induct)
  case (4 x s y t)
  then show ?case
    by (cases c) (auto split: if_splits dest: of_char_less_cases)
next
  case (3 x s)
  then show ?case by (cases c) auto
qed auto

lemma spaceship_eq: "spaceship_cmp a b = 0 \<longleftrightarrow> a = b"
  by (auto simp: spaceship_cmp_def)

lemma spaceship_flip: "0 < spaceship_cmp a b \<longleftrightarrow> spaceship_cmp b a < 0"
  by (auto simp: spaceship_cmp_def)

lemma spaceship_pos: "0 < spaceship_cmp a b \<longleftrightarrow> b < a"
  by (auto simp: spaceship_cmp_def)

lemma spaceship_neg: "spaceship_cmp a b < 0 \<longleftrightarrow> a < b"
  by (auto simp: spaceship_cmp_def)

lemmas spaceship = spaceship_eq spaceship_pos spaceship_neg

interpretation sym: key_order symhash symcmp
proof
  fix a b c :: string
  show "0 < symcmp a c" if "0 < symcmp a b" "0 < symcmp b c"
    using strcmp_trans that by (simp add: symcmp_def)
qed (simp_all add: symhash_def symcmp_def AND_size_less strcmp_eq strcmp_flip)

lemma filenametr_slot:
  assumes "s \<noteq> 0"
  shows "filenametr_hash s k < s"
proof -
  let ?w = "foldl (\<lambda>hash c. partial_name_hash (of_char c) hash)
       (ucast (ttype k XOR tclass k)) (ftname k) :: u64"
  have "ucast (?w AND ucast (s - 1)) = (ucast ?w :: u32) AND (s - 1)"
    by (rule bit_word_eqI) (auto simp: bit_simps)
  then show ?thesis using AND_size_less [OF assms] by (simp only: filenametr_hash_def)
qed

interpretation filenametr: key_order filenametr_hash filenametr_cmp
proof
  fix a b c :: filename_trans_key
  show "filenametr_cmp a b = 0 \<longleftrightarrow> a = b"
    by (auto simp: filenametr_cmp_def Let_def spaceship_eq strcmp_eq intro: filename_trans_key.equality)
  show "0 < filenametr_cmp a b \<longleftrightarrow> filenametr_cmp b a < 0"
    by (auto simp: filenametr_cmp_def Let_def spaceship strcmp_flip)
  show "0 < filenametr_cmp a c" if "0 < filenametr_cmp a b" "0 < filenametr_cmp b c"
    using that by (auto simp: filenametr_cmp_def Let_def spaceship split: if_splits intro: strcmp_trans)
qed (rule filenametr_slot)

interpretation rangetr: key_order rangetr_hash rangetr_cmp
proof
  fix a b c :: range_trans
  show "rangetr_cmp a b = 0 \<longleftrightarrow> a = b"
    by (auto simp: rangetr_cmp_def Let_def spaceship_eq intro: range_trans.equality)
  show "0 < rangetr_cmp a b \<longleftrightarrow> rangetr_cmp b a < 0"
    by (auto simp: rangetr_cmp_def Let_def spaceship)
  show "0 < rangetr_cmp a c" if "0 < rangetr_cmp a b" "0 < rangetr_cmp b c"
    using that by (auto simp: rangetr_cmp_def Let_def spaceship split: if_splits)
qed (simp add: rangetr_hash_def AND_size_less)

interpretation sym_table: lookup_table "table_wf symhash symcmp" table_abs hashtab_search hashtab_insert
  by (rule sym.table_laws)

interpretation filenametr_table:
  lookup_table "table_wf filenametr_hash filenametr_cmp" table_abs hashtab_search hashtab_insert
  by (rule filenametr.table_laws)

interpretation rangetr_table:
  lookup_table "table_wf rangetr_hash rangetr_cmp" table_abs hashtab_search hashtab_insert
  by (rule rangetr.table_laws)

section \<open>Properties\<close>

text \<open>The table \<open>symtab_init\<close> creates.\<close>

definition new_symtab :: "u32 \<Rightarrow> (string, 'd) hashtab" where
  "new_symtab sz = \<lparr>htable = replicate (unat sz) [], htsize = sz, nel = 0,
     hash_value = symhash, keycmp = symcmp\<rparr>"

lemma symtab_init_new:
  "symtab_init s sz [] = (Inr (), s\<lparr>table := Some (new_symtab sz), nprim := 0\<rparr>, [])"
  by (simp add: symtab_init_def hashtab_create_def new_symtab_def)

lemma new_symtab:
  assumes "sz \<noteq> 0"
  shows "keyed_table symhash symcmp (new_symtab sz :: (string, 'd) hashtab)"
    and "hashtab_abs (new_symtab sz :: (string, 'd) hashtab) = Map.empty"
    and "nel (new_symtab sz :: (string, 'd) hashtab) = 0"
    and "hashtab_search (Some (new_symtab sz :: (string, 'd) hashtab)) k = None"
proof -
  have "hashtab_create symhash symcmp sz [] = (Some (new_symtab sz :: (string, 'd) hashtab), [])"
    by (simp add: hashtab_create_def new_symtab_def)
  from hashtab_create_keyed [OF this assms]
  show k: "keyed_table symhash symcmp (new_symtab sz :: (string, 'd) hashtab)"
    and a: "hashtab_abs (new_symtab sz :: (string, 'd) hashtab) = Map.empty"
    and "nel (new_symtab sz :: (string, 'd) hashtab) = 0" by simp_all
  show "hashtab_search (Some (new_symtab sz :: (string, 'd) hashtab)) k = None"
    using sym.search_abs [OF k] a by simp
qed

text \<open>
  C29: Insertion into a symbol table. On a well-formed table (also when it is resized on the
  way) \<open>hashtab_insert\<close> leaves a well-formed table; it succeeds only for a new key, and then
  every later search sees the new datum at that key and the old data elsewhere; it reports
  \<open>EEXIST\<close> only for a present key and \<open>ENOMEM\<close> only when an allocation failed or the
  table is full, and in both cases all searches are as before.
\<close>

theorem hashtab_insert_search:
  assumes "keyed_table symhash symcmp h"
  shows "case hashtab_insert (Some h) k d hp of (r, ho, hp') \<Rightarrow>
    table_wf symhash symcmp ho \<and>
    (r = Inr () \<and> hashtab_search (Some h) k = None \<and>
       (\<forall>k'. hashtab_search ho k' = (if k' = k then Some d else hashtab_search (Some h) k')) \<or>
     r = Inl EEXIST \<and> hashtab_search (Some h) k \<noteq> None \<and>
       (\<forall>k'. hashtab_search ho k' = hashtab_search (Some h) k') \<or>
     r = Inl ENOMEM \<and> (\<not> mem_ok hp \<or> nel h = - 1) \<and>
       (\<forall>k'. hashtab_search ho k' = hashtab_search (Some h) k'))"
proof -
  obtain r ho hp' where ins: "hashtab_insert (Some h) k d hp = (r, ho, hp')"
    by (cases "hashtab_insert (Some h) k d hp") auto
  from sym.insert_abs [OF assms ins] obtain h' where
    h': "ho = Some h'" "keyed_table symhash symcmp h'" "inserted h k d hp r h'" by blast
  show ?thesis
    using h'(3) by (cases r)
      (auto simp: ins h'(1, 2) sym.search_abs [OF assms] sym.search_abs [OF h'(2)] inserted_def)
qed

theorem hashtab_insert_search_witness:
  "case hashtab_insert (Some (new_symtab 2)) ''root'' (1 :: nat) [] of (r, ho, hp') \<Rightarrow>
    r = Inr () \<and> hashtab_search ho ''root'' = Some 1 \<and> hashtab_search ho ''user'' = None"
  using hashtab_insert_search [OF new_symtab(1) [of 2], of "''root''" "1 :: nat" "[]"]
  by (auto simp: new_symtab split: prod.splits)

text \<open>
  Removal and traversal. \<open>hashtab_remove\<close> deletes exactly the named key and hands the pair
  to \<open>destroy\<close>, or reports \<open>ENOENT\<close> and changes nothing; \<open>hashtab_map\<close> with a callback that
  always returns 0 is called on every entry of the table exactly once.
\<close>

theorem hashtab_remove_map:
  assumes "keyed_table symhash symcmp h"
  shows "(case hashtab_remove (Some h) k destroy args of (r, ho, args') \<Rightarrow>
      table_wf symhash symcmp ho \<and>
      (case hashtab_search (Some h) k of
         None \<Rightarrow> r = Inl ENOENT \<and> ho = Some h \<and> args' = args
       | Some d \<Rightarrow> r = Inr () \<and>
           (\<forall>k'. hashtab_search ho k' = (if k' = k then None else hashtab_search (Some h) k')) \<and>
           args' = (case destroy of None \<Rightarrow> args | Some f \<Rightarrow> f k d args))) \<and>
    (\<exists>es. hashtab_map (Some h) (\<lambda>k d visited. (0, visited @ [(k, d)])) [] = (0, es) \<and>
      distinct (map fst es) \<and> (\<forall>k d. (k, d) \<in> set es \<longleftrightarrow> hashtab_search (Some h) k = Some d))"
proof
  obtain r ho args' where rm: "hashtab_remove (Some h) k destroy args = (r, ho, args')"
    by (cases "hashtab_remove (Some h) k destroy args") auto
  from sym.remove_abs [OF assms rm] obtain h' where h': "ho = Some h'" "keyed_table symhash symcmp h'"
    and r: "case hashtab_abs h k of None \<Rightarrow> r = Inl ENOENT \<and> h' = h \<and> args' = args
       | Some d \<Rightarrow> r = Inr () \<and> hashtab_abs h' = (hashtab_abs h)(k := None) \<and>
           args' = (case destroy of None \<Rightarrow> args | Some f \<Rightarrow> f k d args)" by blast
  show "case hashtab_remove (Some h) k destroy args of (r, ho, args') \<Rightarrow>
      table_wf symhash symcmp ho \<and>
      (case hashtab_search (Some h) k of
         None \<Rightarrow> r = Inl ENOENT \<and> ho = Some h \<and> args' = args
       | Some d \<Rightarrow> r = Inr () \<and>
           (\<forall>k'. hashtab_search ho k' = (if k' = k then None else hashtab_search (Some h) k')) \<and>
           args' = (case destroy of None \<Rightarrow> args | Some f \<Rightarrow> f k d args))"
    using r by (auto simp: rm h' sym.search_abs [OF assms] sym.search_abs [OF h'(2)] split: option.splits)
next
  have "chain_apply (\<lambda>k d visited. (0, visited @ [(k, d)])) es vs = (0, vs @ es)"
    for es vs :: "(string \<times> 'a) list"
    by (induction es arbitrary: vs) auto
  then have "hashtab_map (Some h) (\<lambda>k d visited. (0, visited @ [(k, d)])) [] = (0, concat (htable h))"
    by (simp add: hashtab_map_entries)
  with sym.keyed_distinct [OF assms] show
    "\<exists>es. hashtab_map (Some h) (\<lambda>k d visited. (0, visited @ [(k, d)])) [] = (0, es) \<and>
      distinct (map fst es) \<and> (\<forall>k d. (k, d) \<in> set es \<longleftrightarrow> hashtab_search (Some h) k = Some d)"
    by (simp add: sym.search_abs [OF assms] hashtab_abs_def del: set_concat)
qed

theorem hashtab_remove_map_witness:
  "case hashtab_remove (Some (new_symtab 2)) ''root'' (Some (\<lambda>k (d :: nat) n. n + d)) 5 of
    (r, ho, args) \<Rightarrow> r = Inl ENOENT \<and> args = 5"
  using hashtab_remove_map [OF new_symtab(1) [of 2],
      where k = "''root''" and destroy = "Some (\<lambda>k (d :: nat) n. n + d)" and args = 5]
  by (auto simp: new_symtab split: prod.splits)

end
