(* ===== verification/Avtab.thy ===== *)
theory Avtab
  imports Policy_File Hashtab "HOL-Library.Product_Lexorder"
begin

text \<open>
  The access vector table of \<open>avtab.c\<close>: type enforcement rules indexed by source type, target
  type and class. A chain of the hash table is the list of its nodes and a node pointer is the
  suffix of the chain that starts at the node (\<open>[]\<close> is \<open>NULL\<close>), so \<open>node->next\<close> is the tail. A
  table whose \<open>htable\<close> is \<open>NULL\<close> has \<open>avtable = None\<close>; table arguments are never \<open>NULL\<close>. The
  node fields \<open>parse_context\<close> and \<open>merged\<close>, which only the policy compiler and the writer of
  the format before version 20 use, are left out.
\<close>

unbundle bit_operations_syntax

section \<open>Data\<close>

record avtab_key =
  source_type :: u16
  target_type :: u16
  target_class :: u16
  specified :: u16

record avtab_extended_perms =
  xspecified :: u8
  driver :: u8
  perms :: "u32 list"

record avtab_datum =
  data :: u32
  xperms :: "avtab_extended_perms option"

type_synonym avtab_node = "avtab_key \<times> avtab_datum"

record avtab =
  avtable :: "avtab_node list list option"
  avnel :: u32
  nslot :: u32
  avmask :: u32

abbreviation AVTAB_ALLOWED :: "'a::len word" where "AVTAB_ALLOWED \<equiv> 0x0001"
abbreviation AVTAB_AUDITALLOW :: "'a::len word" where "AVTAB_AUDITALLOW \<equiv> 0x0002"
abbreviation AVTAB_AUDITDENY :: "'a::len word" where "AVTAB_AUDITDENY \<equiv> 0x0004"
abbreviation AVTAB_AV :: "'a::len word" where "AVTAB_AV \<equiv> 0x0007"
abbreviation AVTAB_TRANSITION :: "'a::len word" where "AVTAB_TRANSITION \<equiv> 0x0010"
abbreviation AVTAB_MEMBER :: "'a::len word" where "AVTAB_MEMBER \<equiv> 0x0020"
abbreviation AVTAB_CHANGE :: "'a::len word" where "AVTAB_CHANGE \<equiv> 0x0040"
abbreviation AVTAB_TYPE :: "'a::len word" where "AVTAB_TYPE \<equiv> 0x0070"
abbreviation AVTAB_XPERMS_ALLOWED :: "'a::len word" where "AVTAB_XPERMS_ALLOWED \<equiv> 0x0100"
abbreviation AVTAB_XPERMS_AUDITALLOW :: "'a::len word" where "AVTAB_XPERMS_AUDITALLOW \<equiv> 0x0200"
abbreviation AVTAB_XPERMS_DONTAUDIT :: "'a::len word" where "AVTAB_XPERMS_DONTAUDIT \<equiv> 0x0400"
abbreviation AVTAB_XPERMS :: "'a::len word" where "AVTAB_XPERMS \<equiv> 0x0700"
abbreviation AVTAB_ENABLED :: "'a::len word" where "AVTAB_ENABLED \<equiv> 0x8000"
abbreviation AVTAB_ENABLED_OLD :: u32 where "AVTAB_ENABLED_OLD \<equiv> 0x80000000"

section \<open>Hashing and key comparison\<close>

definition hash_mix :: "u32 \<Rightarrow> u32 \<Rightarrow> u32" where
  "hash_mix hash input =
     (let v = input * 0xcc9e2d51;
          v = push_bit 15 v OR drop_bit 17 v;
          v = v * 0x1b873593;
          hash = hash XOR v;
          hash = push_bit 13 hash OR drop_bit 19 hash
      in hash * 5 + 0xe6546b64)"

definition avtab_hash :: "avtab_key \<Rightarrow> u32 \<Rightarrow> u32" where
  "avtab_hash keyp mask' =
     (let hash = hash_mix 0 (ucast (target_class keyp));
          hash = hash_mix hash (ucast (target_type keyp));
          hash = hash_mix hash (ucast (source_type keyp));
          hash = hash XOR drop_bit 16 hash;
          hash = hash * 0x85ebca6b;
          hash = hash XOR drop_bit 13 hash;
          hash = hash * 0xc2b2ae35;
          hash = hash XOR drop_bit 16 hash
      in hash AND mask')"

definition key_same :: "avtab_key \<Rightarrow> avtab_key \<Rightarrow> bool" where
  "key_same k c \<longleftrightarrow> source_type k = source_type c \<and> target_type k = target_type c \<and>
     target_class k = target_class c"

text \<open>The match condition of every scan, and the three conditions under which a scan stops: the key sorts before the node.\<close>

definition key_before :: "avtab_key \<Rightarrow> avtab_key \<Rightarrow> bool" where
  "key_before k c \<longleftrightarrow> source_type k < source_type c \<or>
     source_type k = source_type c \<and> target_type k < target_type c \<or>
     source_type k = source_type c \<and> target_type k = target_type c \<and>
       target_class k < target_class c"

definition node_matches :: "avtab_key \<Rightarrow> u16 \<Rightarrow> avtab_node \<Rightarrow> bool" where
  "node_matches key spec cur \<longleftrightarrow>
     key_same key (fst cur) \<and> spec AND specified (fst cur) \<noteq> 0"

definition key_spec :: "avtab_key \<Rightarrow> u16" where
  "key_spec k = specified k AND NOT AVTAB_ENABLED"

section \<open>Operations\<close>

definition avtab_init :: "avtab \<Rightarrow> avtab" where
  "avtab_init h = h\<lparr>avtable := None, avnel := 0\<rparr>"

function work_shift :: "u32 \<Rightarrow> u32 \<Rightarrow> u32" where
  "work_shift work shift = (if work \<noteq> 0 then work_shift (drop_bit 1 work) (shift + 1) else shift)"
  by pat_completeness auto

termination
  by (relation "measure (\<lambda>(w, _). unat w)") (simp_all add: unat_drop_bit_less [unfolded One_nat_def])

declare work_shift.simps [simp del]

definition avtab_alloc :: "avtab \<Rightarrow> u32 \<Rightarrow> heap \<Rightarrow> (avtab \<times> heap) result" where
  "avtab_alloc h nrules hp =
     (if nrules = 0 then Inr (h\<lparr>avnel := 0, nslot := 0, avmask := 0\<rparr>, hp)
      else let shift = work_shift nrules 0;
               shift = (if shift > 2 then shift - 2 else shift);
               nsl = push_bit (unat shift) 1;
               nsl = (if nsl > push_bit 20 1 then push_bit 20 1 else nsl)
        in case malloc hp of (ok, hp) \<Rightarrow>
          if \<not> ok then Inl FAIL
          else Inr (h\<lparr>avtable := Some (replicate (unat nsl) []), avnel := 0, nslot := nsl,
            avmask := nsl - 1\<rparr>, hp))"

definition avtab_destroy :: "avtab \<Rightarrow> avtab" where
  "avtab_destroy h = (case avtable h of None \<Rightarrow> h
     | Some _ \<Rightarrow> h\<lparr>avtable := None, nslot := 0, avmask := 0\<rparr>)"

text \<open>
  \<open>avtab_insert_node\<close>: the node that is linked in. Extended permissions are copied, or zeroed
  for the caller to fill in; they need a second allocation.
\<close>

definition avtab_new_node ::
  "avtab_key \<Rightarrow> avtab_datum \<Rightarrow> heap \<Rightarrow> avtab_node option \<times> heap" where
  "avtab_new_node key datum hp = (case malloc hp of (ok, hp) \<Rightarrow>
     if \<not> ok then (None, hp)
     else if specified key AND AVTAB_XPERMS \<noteq> 0
     then case malloc hp of (ok, hp) \<Rightarrow>
       if \<not> ok then (None, hp)
       else (Some (key, \<lparr>data = data datum, xperms = Some (case xperms datum of
           None \<Rightarrow> \<lparr>xspecified = 0, driver = 0, perms = replicate 8 0\<rparr> | Some x \<Rightarrow> x)\<rparr>), hp)
     else (Some (key, datum), hp))"

text \<open>
  The scans. \<open>ins_split\<close> is the chain before and from the node at which the loop of
  \<open>avtab_insert\<close> or \<open>avtab_insert_nonunique\<close> breaks; \<open>None\<close> is \<open>SEPOL_EEXIST\<close>.
\<close>

fun ins_split ::
  "bool \<Rightarrow> avtab_key \<Rightarrow> avtab_node list \<Rightarrow> (avtab_node list \<times> avtab_node list) option" where
  "ins_split uniq key [] = Some ([], [])"
| "ins_split uniq key (cur # ns) =
     (if node_matches key (key_spec key) cur
      then (if uniq \<and> key_spec key AND AVTAB_XPERMS = 0 then None else Some ([], cur # ns))
      else if key_before key (fst cur) then Some ([], cur # ns)
      else map_option (apfst ((#) cur)) (ins_split uniq key ns))"

definition avtab_insert ::
  "avtab \<Rightarrow> avtab_key \<Rightarrow> avtab_datum \<Rightarrow> heap \<Rightarrow> unit result \<times> avtab \<times> heap" where
  "avtab_insert h key datum hp = (case avtable h of
       None \<Rightarrow> (Inl ENOMEM, h, hp)
     | Some t \<Rightarrow>
         let hvalue = unat (avtab_hash key (avmask h)) in
         case ins_split True key (t ! hvalue) of
           None \<Rightarrow> (Inl EEXIST, h, hp)
         | Some (before, after) \<Rightarrow> (case avtab_new_node key datum hp of
             (None, hp) \<Rightarrow> (Inl ENOMEM, h, hp)
           | (Some n, hp) \<Rightarrow>
               (Inr (), h\<lparr>avtable := Some (t[hvalue := before @ n # after]), avnel := avnel h + 1\<rparr>, hp)))"

text \<open>Returns the pointer to the new node, that is the chain from it.\<close>

definition avtab_insert_nonunique ::
  "avtab \<Rightarrow> avtab_key \<Rightarrow> avtab_datum \<Rightarrow> heap \<Rightarrow> avtab_node list \<times> avtab \<times> heap" where
  "avtab_insert_nonunique h key datum hp = (case avtable h of
       None \<Rightarrow> ([], h, hp)
     | Some t \<Rightarrow>
         let hvalue = unat (avtab_hash key (avmask h)) in
         case ins_split False key (t ! hvalue) of
           None \<Rightarrow> ([], h, hp)
         | Some (before, after) \<Rightarrow> (case avtab_new_node key datum hp of
             (None, hp) \<Rightarrow> ([], h, hp)
           | (Some n, hp) \<Rightarrow>
               (n # after,
                h\<lparr>avtable := Some (t[hvalue := before @ n # after]), avnel := avnel h + 1\<rparr>, hp)))"

fun node_scan :: "avtab_key \<Rightarrow> u16 \<Rightarrow> avtab_node list \<Rightarrow> avtab_node list" where
  "node_scan key spec [] = []"
| "node_scan key spec (cur # ns) =
     (if node_matches key spec cur then cur # ns
      else if key_before key (fst cur) then []
      else node_scan key spec ns)"

definition avtab_search_node :: "avtab \<Rightarrow> avtab_key \<Rightarrow> avtab_node list" where
  "avtab_search_node h key = (case avtable h of
       None \<Rightarrow> []
     | Some t \<Rightarrow> node_scan key (key_spec key) (t ! unat (avtab_hash key (avmask h))))"

definition avtab_search :: "avtab \<Rightarrow> avtab_key \<Rightarrow> avtab_datum option" where
  "avtab_search h key = (case avtable h of
       None \<Rightarrow> None
     | Some t \<Rightarrow> (case node_scan key (key_spec key) (t ! unat (avtab_hash key (avmask h))) of
           [] \<Rightarrow> None
         | cur # _ \<Rightarrow> Some (snd cur)))"

definition avtab_search_node_next :: "avtab_node list \<Rightarrow> u32 \<Rightarrow> avtab_node list" where
  "avtab_search_node_next node spec = (case node of
       [] \<Rightarrow> []
     | n # ns \<Rightarrow> node_scan (fst n) (ucast (spec AND NOT (AVTAB_ENABLED OR AVTAB_ENABLED_OLD))) ns)"

text \<open>\<open>apply\<close> returns its status, 0 to go on, and the new state behind \<open>args\<close>.\<close>

fun nodes_apply ::
  "(avtab_key \<Rightarrow> avtab_datum \<Rightarrow> 's \<Rightarrow> int \<times> 's) \<Rightarrow> avtab_node list \<Rightarrow> 's \<Rightarrow> int \<times> 's" where
  "nodes_apply f [] args = (0, args)"
| "nodes_apply f ((k, d) # ns) args = (case f k d args of (ret, args) \<Rightarrow>
     if ret \<noteq> 0 then (ret, args) else nodes_apply f ns args)"

definition avtab_map ::
  "avtab \<Rightarrow> (avtab_key \<Rightarrow> avtab_datum \<Rightarrow> 's \<Rightarrow> int \<times> 's) \<Rightarrow> 's \<Rightarrow> int \<times> 's" where
  "avtab_map h f args = (case avtable h of
       None \<Rightarrow> (0, args)
     | Some t \<Rightarrow> nodes_apply f (concat t) args)"

text \<open>
  The loop header \<open>for (node = first; node; node = avtab_search_node_next(node, spec))\<close> of the
  functions that look at every rule for a key: the nodes it visits.
\<close>

lemma node_scan_length: "length (node_scan key spec c) \<le> length c"
  by (induction c) auto

function avtab_node_loop :: "avtab_node list \<Rightarrow> u32 \<Rightarrow> avtab_node list" where
  "avtab_node_loop [] spec = []"
| "avtab_node_loop (n # ns) spec = n # avtab_node_loop (avtab_search_node_next (n # ns) spec) spec"
  by pat_completeness auto

termination
  by (relation "measure (\<lambda>(c, _). length c)")
    (auto simp: avtab_search_node_next_def less_Suc_eq_le node_scan_length)

section \<open>Order of the keys\<close>

definition key_rank :: "avtab_key \<Rightarrow> u16 \<times> u16 \<times> u16" where
  "key_rank k = (source_type k, target_type k, target_class k)"

lemma key_same_rank: "key_same k c \<longleftrightarrow> key_rank k = key_rank c"
  by (auto simp: key_same_def key_rank_def)

lemma key_before_rank: "key_before k c \<longleftrightarrow> key_rank k < key_rank c"
  by (auto simp: key_before_def key_rank_def less_prod_def)

lemma key_same_hash: "key_same k c \<Longrightarrow> avtab_hash k m = avtab_hash c m"
  by (simp add: key_same_def avtab_hash_def)

definition chain_ord :: "avtab_node list \<Rightarrow> bool" where
  "chain_ord c \<longleftrightarrow> sorted_wrt (\<lambda>a b. key_rank (fst a) \<le> key_rank (fst b)) c"

lemma chain_ord_simps [simp]:
  "chain_ord []"
  "chain_ord (n # ns) \<longleftrightarrow> (\<forall>m \<in> set ns. key_rank (fst n) \<le> key_rank (fst m)) \<and> chain_ord ns"
  by (simp_all add: chain_ord_def)

lemma chain_ord_append:
  "chain_ord (xs @ ys) \<longleftrightarrow> chain_ord xs \<and> chain_ord ys \<and>
     (\<forall>a \<in> set xs. \<forall>b \<in> set ys. key_rank (fst a) \<le> key_rank (fst b))"
  by (simp add: chain_ord_def sorted_wrt_append)

lemma before_none:
  assumes "chain_ord (n # ns)" and "key_rank key < key_rank (fst n)" and "m \<in> set (n # ns)"
  shows "\<not> key_same key (fst m)"
proof -
  have "key_rank (fst n) \<le> key_rank (fst m)" using assms(1, 3) by auto
  with assms(2) have "key_rank key < key_rank (fst m)" by (rule less_le_trans)
  then show ?thesis by (auto simp: key_same_rank)
qed

lemma node_scan_dropWhile:
  "chain_ord c \<Longrightarrow> node_scan key spec c = dropWhile (\<lambda>n. \<not> node_matches key spec n) c"
proof (induction c)
  case (Cons n ns)
  have IH: "node_scan key spec ns = dropWhile (\<lambda>n. \<not> node_matches key spec n) ns"
    using Cons by simp
  have none: "dropWhile (\<lambda>n. \<not> node_matches key spec n) ns = []" if "key_before key (fst n)"
  proof -
    have "\<not> key_same key (fst m)" if "m \<in> set ns" for m
      using before_none [OF Cons.prems] that \<open>key_before key (fst n)\<close> by (simp add: key_before_rank)
    then show ?thesis by (simp add: dropWhile_eq_Nil_conv node_matches_def)
  qed
  show ?case
    by (cases "node_matches key spec n"; cases "key_before key (fst n)") (simp_all add: IH none)
qed simp

lemma node_scan_suffix: "\<exists>p. c = p @ node_scan key spec c"
proof (induction c)
  case (Cons n ns)
  then obtain p where p: "ns = p @ node_scan key spec ns" ..
  show ?case
  proof (cases "node_matches key spec n \<or> key_before key (fst n)")
    case True
    then show ?thesis by auto
  next
    case False
    then have "n # ns = (n # p) @ node_scan key spec (n # ns)" using p by auto
    then show ?thesis ..
  qed
qed simp

lemma node_scan_same: "key_same k k' \<Longrightarrow> node_scan k spec c = node_scan k' spec c"
  by (induction c) (simp_all add: node_matches_def key_same_rank key_before_rank)

lemma node_loop_filter:
  assumes "chain_ord c" and "ucast (spec AND NOT (AVTAB_ENABLED OR AVTAB_ENABLED_OLD)) = sp"
  shows "avtab_node_loop (node_scan key sp c) spec = filter (node_matches key sp) c"
  using assms
proof (induction "length c" arbitrary: c rule: less_induct)
  case less
  note scan = node_scan_dropWhile [OF less.prems(1)]
  show ?case
  proof (cases "node_scan key sp c")
    case Nil
    with scan have "dropWhile (\<lambda>n. \<not> node_matches key sp n) c = []" by simp
    then have "filter (node_matches key sp) c = []"
      by (simp add: dropWhile_eq_Nil_conv filter_empty_conv)
    with Nil show ?thesis by simp
  next
    case (Cons n ns)
    obtain p where c: "c = p @ n # ns" using node_scan_suffix [of c key sp] Cons by auto
    have "dropWhile (\<lambda>n. \<not> node_matches key sp n) c = n # ns" using scan Cons by simp
    then have n: "node_matches key sp n" by (metis dropWhile_eq_Cons_conv)
    have p: "filter (node_matches key sp) p = []"
    proof -
      have "takeWhile (\<lambda>n. \<not> node_matches key sp n) c = p"
        using scan Cons c by (metis append_same_eq takeWhile_dropWhile_id)
      then show ?thesis by (metis (no_types, lifting) filter_False set_takeWhileD)
    qed
    have ns: "chain_ord ns" using less.prems(1) c by (simp add: chain_ord_append)
    have "avtab_search_node_next (n # ns) spec = node_scan key sp ns"
      using less.prems(2) node_scan_same [of key "fst n"] n
      by (simp add: avtab_search_node_next_def node_matches_def)
    then have "avtab_node_loop (n # ns) spec = n # filter (node_matches key sp) ns"
      using less.hyps [of ns] ns less.prems(2) c by simp
    with Cons n p c show ?thesis by simp
  qed
qed

section \<open>The table as a list of rules\<close>

definition avtab_nodes :: "avtab \<Rightarrow> avtab_node list" where
  "avtab_nodes h = (case avtable h of None \<Rightarrow> [] | Some t \<Rightarrow> concat t)"

definition avtab_wf :: "avtab \<Rightarrow> bool" where
  "avtab_wf h \<longleftrightarrow> (case avtable h of None \<Rightarrow> True | Some t \<Rightarrow>
     nslot h \<noteq> 0 \<and> length t = unat (nslot h) \<and> avmask h = nslot h - 1 \<and>
     (\<forall>i < length t. chain_ord (t ! i) \<and>
       (\<forall>n \<in> set (t ! i). unat (avtab_hash (fst n) (avmask h)) = i)))"

text \<open>The datum a new node holds when both allocations succeed.\<close>

definition stored_datum :: "avtab_key \<Rightarrow> avtab_datum \<Rightarrow> avtab_datum" where
  "stored_datum key datum =
     (if specified key AND AVTAB_XPERMS \<noteq> 0
      then \<lparr>data = data datum, xperms = Some (case xperms datum of
           None \<Rightarrow> \<lparr>xspecified = 0, driver = 0, perms = replicate 8 0\<rparr> | Some x \<Rightarrow> x)\<rparr>
      else datum)"

lemma new_node_cases:
  obtains (ok) hp' where "avtab_new_node key datum hp = (Some (key, stored_datum key datum), hp')"
      and "mem_ok hp \<longrightarrow> mem_ok hp'"
  | (fail) hp' where "avtab_new_node key datum hp = (None, hp')" and "\<not> mem_ok hp"
proof -
  obtain ok1 hp1 where m1: "malloc hp = (ok1, hp1)" by (cases "malloc hp")
  obtain ok2 hp2 where m2: "malloc hp1 = (ok2, hp2)" by (cases "malloc hp1")
  have 1: "mem_ok hp \<Longrightarrow> ok1 \<and> mem_ok hp1" using m1 by (rule malloc_okD)
  have 2: "mem_ok hp1 \<Longrightarrow> ok2 \<and> mem_ok hp2" using m2 by (rule malloc_okD)
  consider "\<not> ok1" | "ok1" "specified key AND AVTAB_XPERMS = 0"
    | "ok1" "specified key AND AVTAB_XPERMS \<noteq> 0" "\<not> ok2"
    | "ok1" "specified key AND AVTAB_XPERMS \<noteq> 0" "ok2" by blast
  then show thesis
  proof cases
    case 1
    then show thesis using m1 \<open>mem_ok hp \<Longrightarrow> ok1 \<and> mem_ok hp1\<close>
      by (intro fail [of hp1]) (auto simp: avtab_new_node_def)
  next
    case 2
    then show thesis using m1 \<open>mem_ok hp \<Longrightarrow> ok1 \<and> mem_ok hp1\<close>
      by (intro ok [of hp1]) (auto simp: avtab_new_node_def stored_datum_def)
  next
    case 3
    then show thesis using m1 m2 1 2
      by (intro fail [of hp2]) (auto simp: avtab_new_node_def)
  next
    case 4
    then show thesis using m1 m2 1 2
      by (intro ok [of hp2]) (auto simp: avtab_new_node_def stored_datum_def)
  qed
qed

lemma hash_slot:
  assumes "avtab_wf h" and "avtable h = Some t"
  shows "unat (avtab_hash k (avmask h)) < length t"
proof -
  have "avtab_hash k (avmask h) \<le> avmask h"
    by (simp add: avtab_hash_def Let_def word_and_le1)
  moreover have "nslot h - 1 < nslot h" if "nslot h \<noteq> 0"
    using that by (simp add: word_less_nat_alt measure_unat)
  ultimately show ?thesis
    using assms by (auto simp: avtab_wf_def word_less_nat_alt word_le_nat_alt)
qed

lemma avtab_wfD:
  assumes "avtab_wf h" and "avtable h = Some t" and "i < length t"
  shows "chain_ord (t ! i)" and "n \<in> set (t ! i) \<Longrightarrow> unat (avtab_hash (fst n) (avmask h)) = i"
  using assms unfolding avtab_wf_def by (auto simp only: option.case)

lemma filter_concat_slot:
  assumes "i < length t" and "\<And>j n. j < length t \<Longrightarrow> j \<noteq> i \<Longrightarrow> n \<in> set (t ! j) \<Longrightarrow> \<not> P n"
  shows "filter P (concat t) = filter P (t ! i)"
proof -
  have t: "t = take i t @ t ! i # drop (Suc i) t" using assms(1) by (rule id_take_nth_drop)
  have "\<not> P n" if "c \<in> set (take i t)" "n \<in> set c" for c n
  proof -
    from that(1) obtain j where "j < i" "j < length t" "c = t ! j" by (auto simp: in_set_conv_nth)
    with assms(2) [of j n] that(2) show ?thesis by simp
  qed
  moreover have "\<not> P n" if "c \<in> set (drop (Suc i) t)" "n \<in> set c" for c n
  proof -
    from that(1) obtain j where "j < length (drop (Suc i) t)" "c = drop (Suc i) t ! j"
      by (metis in_set_conv_nth)
    then have "Suc i + j < length t" "c = t ! (Suc i + j)" by simp_all
    with assms(2) [of "Suc i + j" n] that(2) show ?thesis by simp
  qed
  ultimately have none: "filter P (concat (take i t)) = []" "filter P (concat (drop (Suc i) t)) = []"
    by (auto simp: filter_empty_conv)
  have "filter P (concat t) = filter P (concat (take i t @ t ! i # drop (Suc i) t))" using t by simp
  with none show ?thesis by simp
qed

lemma nodes_filter:
  assumes "avtab_wf h" and "avtable h = Some t"
  shows "filter (node_matches key spec) (avtab_nodes h) =
    filter (node_matches key spec) (t ! unat (avtab_hash key (avmask h)))"
  unfolding avtab_nodes_def assms(2) option.case
proof (rule filter_concat_slot [OF hash_slot [OF assms]])
  fix j n
  assume j: "j < length t" "j \<noteq> unat (avtab_hash key (avmask h))" "n \<in> set (t ! j)"
  show "\<not> node_matches key spec n"
  proof
    assume "node_matches key spec n"
    then have "avtab_hash key (avmask h) = avtab_hash (fst n) (avmask h)"
      by (intro key_same_hash) (simp add: node_matches_def)
    with avtab_wfD(2) [OF assms j(1, 3)] j(2) show False by simp
  qed
qed

lemma search_hd: "(case dropWhile (\<lambda>n. \<not> P n) c of [] \<Rightarrow> None | cur # _ \<Rightarrow> Some (f cur)) =
    map_option f (find P c)"
  by (induction c) auto

lemma find_filter: "find P c = (case filter P c of [] \<Rightarrow> None | x # _ \<Rightarrow> Some x)"
  by (induction c) auto

lemma avtab_search_find:
  assumes "avtab_wf h"
  shows "avtab_search h key = map_option snd (find (node_matches key (key_spec key)) (avtab_nodes h))"
proof (cases "avtable h")
  case None
  then show ?thesis by (simp add: avtab_search_def avtab_nodes_def)
next
  case (Some t)
  note ord = avtab_wfD(1) [OF assms Some hash_slot [OF assms Some]]
  have "avtab_search h key =
      map_option snd (find (node_matches key (key_spec key)) (t ! unat (avtab_hash key (avmask h))))"
    using Some by (simp add: avtab_search_def node_scan_dropWhile [OF ord] search_hd)
  then show ?thesis by (simp add: find_filter nodes_filter [OF assms Some])
qed

lemma key_spec_ucast:
  "ucast (ucast (specified key) AND NOT (AVTAB_ENABLED OR AVTAB_ENABLED_OLD)) = key_spec key"
proof (rule bit_word_eqI)
  fix n assume "n < LENGTH(16)"
  then have n: "n \<in> set [0..<16]" by simp
  have "\<forall>n \<in> set [0..<16]. bit (ucast (ucast (specified key) AND NOT (AVTAB_ENABLED OR AVTAB_ENABLED_OLD)) :: u16) n
      = bit (key_spec key) n"
    by (simp add: upt_rec key_spec_def bit_simps)
  then show "bit (ucast (ucast (specified key) AND NOT (AVTAB_ENABLED OR AVTAB_ENABLED_OLD)) :: u16) n
      = bit (key_spec key) n"
    using n by blast
qed

lemma avtab_loop_filter:
  assumes "avtab_wf h"
  shows "avtab_node_loop (avtab_search_node h key) (ucast (specified key)) =
    filter (node_matches key (key_spec key)) (avtab_nodes h)"
proof (cases "avtable h")
  case None
  then show ?thesis by (simp add: avtab_search_node_def avtab_nodes_def)
next
  case (Some t)
  note ord = avtab_wfD(1) [OF assms Some hash_slot [OF assms Some]]
  show ?thesis
    using node_loop_filter [OF ord key_spec_ucast, of key] Some
    by (simp add: avtab_search_node_def nodes_filter [OF assms Some])
qed

section \<open>Insertion\<close>

lemma ins_split_None:
  assumes "ins_split uniq key c = None"
  shows "uniq \<and> key_spec key AND AVTAB_XPERMS = 0 \<and> (\<exists>n \<in> set c. node_matches key (key_spec key) n)"
  using assms by (induction c) (auto split: if_splits)

lemma ins_split_Some:
  assumes "ins_split uniq key c = Some (b, a)"
  shows "c = b @ a \<and> (\<forall>n \<in> set b. \<not> node_matches key (key_spec key) n \<and> \<not> key_before key (fst n)) \<and>
    (a = [] \<or> node_matches key (key_spec key) (hd a) \<and> (uniq \<longrightarrow> key_spec key AND AVTAB_XPERMS \<noteq> 0) \<or>
     key_before key (fst (hd a)))"
  using assms
proof (induction c arbitrary: b)
  case (Cons n ns)
  show ?case
  proof (cases "node_matches key (key_spec key) n \<or> key_before key (fst n)")
    case True
    with Cons.prems show ?thesis by (auto split: if_splits)
  next
    case False
    with Cons.prems obtain b' where "ins_split uniq key ns = Some (b', a)" and b: "b = n # b'"
      by auto
    with Cons.IH False show ?thesis by simp
  qed
qed simp

lemma ins_split_ord:
  assumes "chain_ord c" and "ins_split uniq key c = Some (b, a)"
  shows "chain_ord (b @ (key, d) # a)"
proof -
  note split = ins_split_Some [OF assms(2)]
  then have c: "chain_ord (b @ a)" using assms(1) by simp
  have b: "key_rank (fst n) \<le> key_rank key" if "n \<in> set b" for n
    using split that by (auto simp: key_before_rank)
  have "key_rank key \<le> key_rank (fst (hd a))" if "a \<noteq> []"
    using split that by (auto simp: key_before_rank node_matches_def key_same_rank)
  then have "key_rank key \<le> key_rank (fst n)" if "n \<in> set a" for n
    using c that by (cases a) (auto simp: chain_ord_append intro: order_trans)
  with b c show ?thesis by (auto simp: chain_ord_append)
qed

text \<open>Linking the node \<open>(key, d)\<close> into its chain, for either insertion function.\<close>

definition linked :: "avtab \<Rightarrow> avtab_node list list \<Rightarrow> avtab_key \<Rightarrow> avtab_datum \<Rightarrow>
    avtab_node list \<Rightarrow> avtab_node list \<Rightarrow> avtab" where
  "linked h t key d b a =
     h\<lparr>avtable := Some (t[unat (avtab_hash key (avmask h)) := b @ (key, d) # a]), avnel := avnel h + 1\<rparr>"

lemma linked_wf:
  assumes "avtab_wf h" and "avtable h = Some t"
    and split: "ins_split uniq key (t ! unat (avtab_hash key (avmask h))) = Some (b, a)"
  shows "avtab_wf (linked h t key d b a)"
    and "mset (avtab_nodes (linked h t key d b a)) = add_mset (key, d) (mset (avtab_nodes h))"
    and "filter (node_matches key (key_spec key)) (avtab_nodes (linked h t key d b a)) =
      filter (node_matches key (key_spec key)) ((key, d) # avtab_nodes h)"
    and "\<not> node_matches k spec (key, d) \<Longrightarrow>
      filter (node_matches k spec) (avtab_nodes (linked h t key d b a)) =
      filter (node_matches k spec) (avtab_nodes h)"
proof -
  let ?i = "unat (avtab_hash key (avmask h))" and ?h = "linked h t key d b a"
  note slot = hash_slot [OF assms(1, 2), of key]
  note c = ins_split_Some [OF split]
  have t: "avtable ?h = Some (t[?i := b @ (key, d) # a])" by (simp add: linked_def)
  have mask: "avmask ?h = avmask h" by (simp add: linked_def)
  have cset: "set (t ! ?i) = set b \<union> set a" using c by (metis set_append)
  have base: "nslot h \<noteq> 0 \<and> length t = unat (nslot h) \<and> avmask h = nslot h - 1"
    using assms(1, 2) unfolding avtab_wf_def by (auto simp only: option.case)
  have "chain_ord (t[?i := b @ (key, d) # a] ! j) \<and>
      (\<forall>n \<in> set (t[?i := b @ (key, d) # a] ! j). unat (avtab_hash (fst n) (avmask h)) = j)"
    if j: "j < length t" for j
  proof (cases "j = ?i")
    case True
    with slot cset avtab_wfD [OF assms(1, 2) slot] ins_split_ord [OF _ split]
    show ?thesis by (auto simp del: unat_eq_iff)
  next
    case False
    with avtab_wfD [OF assms(1, 2) j] show ?thesis by (auto simp del: unat_eq_iff)
  qed
  then show wf: "avtab_wf ?h"
    unfolding avtab_wf_def t mask option.case using base by (simp add: linked_def)
  show "mset (avtab_nodes ?h) = add_mset (key, d) (mset (avtab_nodes h))"
    using mset_concat_update [OF slot, of "b @ (key, d) # a"] c assms(2)
    by (simp add: avtab_nodes_def linked_def)
  have chain: "filter (node_matches k spec) (avtab_nodes ?h) =
      filter (node_matches k spec) (t[?i := b @ (key, d) # a] ! unat (avtab_hash k (avmask h)))"
    for k spec using nodes_filter [OF wf t] mask by simp
  have "filter (node_matches key (key_spec key)) b = []" using c by (auto simp: filter_empty_conv)
  with chain [of key "key_spec key"] c slot nodes_filter [OF assms(1, 2), of key "key_spec key"]
  show "filter (node_matches key (key_spec key)) (avtab_nodes ?h) =
      filter (node_matches key (key_spec key)) ((key, d) # avtab_nodes h)"
    by (metis (no_types, lifting) append_Nil filter.simps(2) filter_append nth_list_update_eq)
  show "filter (node_matches k spec) (avtab_nodes ?h) = filter (node_matches k spec) (avtab_nodes h)"
    if "\<not> node_matches k spec (key, d)"
    using chain [of k spec] c slot that nodes_filter [OF assms(1, 2), of k spec]
    by (metis (no_types, lifting) filter.simps(2) filter_append nth_list_update)
qed

lemma avtab_insert_cases:
  assumes "avtable h = Some t" and "avtab_insert h key datum hp = (r, h', hp')"
  obtains (ok) b a where "r = Inr ()" and "mem_ok hp \<longrightarrow> mem_ok hp'"
      and "ins_split True key (t ! unat (avtab_hash key (avmask h))) = Some (b, a)"
      and "h' = linked h t key (stored_datum key datum) b a"
  | (exists) "r = Inl EEXIST" and "h' = h" and "hp' = hp"
      and "ins_split True key (t ! unat (avtab_hash key (avmask h))) = None"
  | (nomem) "r = Inl ENOMEM" and "h' = h" and "\<not> mem_ok hp"
proof (cases "ins_split True key (t ! unat (avtab_hash key (avmask h)))")
  case None
  with assms show thesis by (intro exists) (auto simp: avtab_insert_def)
next
  case (Some p)
  obtain b a where p: "p = (b, a)" by (cases p)
  show thesis
  proof (cases rule: new_node_cases [of key datum hp])
    case (ok hp2)
    with Some p assms show thesis by (intro that(1)) (auto simp: avtab_insert_def linked_def)
  next
    case (fail hp2)
    with Some p assms show thesis by (intro nomem) (auto simp: avtab_insert_def)
  qed
qed

lemma search_linked:
  assumes "avtab_wf h" and "avtable h = Some t"
    and "ins_split uniq key (t ! unat (avtab_hash key (avmask h))) = Some (b, a)"
  shows "key_spec key \<noteq> 0 \<Longrightarrow> avtab_search (linked h t key d b a) key = Some d"
    and "\<not> node_matches k (key_spec k) (key, d) \<Longrightarrow>
      avtab_search (linked h t key d b a) k = avtab_search h k"
proof -
  note lw = linked_wf [OF assms]
  show "avtab_search (linked h t key d b a) k = avtab_search h k"
    if "\<not> node_matches k (key_spec k) (key, d)"
    by (simp add: avtab_search_find lw(1) assms(1) find_filter lw(4) [OF that])
  assume spec: "key_spec key \<noteq> 0"
  have "key_spec key AND specified key = key_spec key"
    by (rule bit_word_eqI) (auto simp: key_spec_def bit_simps)
  with spec have "node_matches key (key_spec key) (key, d)"
    by (simp add: node_matches_def key_same_rank)
  then show "avtab_search (linked h t key d b a) key = Some d"
    by (simp add: avtab_search_find lw(1) find_filter lw(3))
qed

text \<open>The scan of \<open>avtab_insert\<close> finds a rule for the same key, if there is one and it may not be doubled.\<close>

lemma ins_split_unique:
  assumes "chain_ord c"
  shows "ins_split True key c = None \<longleftrightarrow>
    key_spec key AND AVTAB_XPERMS = 0 \<and> (\<exists>n \<in> set c. node_matches key (key_spec key) n)"
proof (cases "ins_split True key c")
  case None
  then show ?thesis using ins_split_None [OF None] by simp
next
  case (Some p)
  obtain b a where p: "p = (b, a)" by (cases p)
  note c = ins_split_Some [OF Some [unfolded p]]
  have "\<not> node_matches key (key_spec key) n"
    if "n \<in> set a" "key_spec key AND AVTAB_XPERMS = 0" for n
  proof -
    obtain m a' where a: "a = m # a'" using \<open>n \<in> set a\<close> by (cases a) auto
    have "key_before key (fst m)" using c that(2) a by auto
    moreover have "key_rank (fst m) \<le> key_rank (fst n)"
      using assms c that(1) a by (auto simp: chain_ord_append)
    ultimately show ?thesis by (auto simp: node_matches_def key_same_rank key_before_rank)
  qed
  then show ?thesis using c Some p by auto
qed

definition node_allocs :: "avtab_key \<Rightarrow> nat" where
  "node_allocs key = (if specified key AND AVTAB_XPERMS \<noteq> 0 then 2 else 1)"

lemma new_node_allocs:
  "fst (avtab_new_node key datum hp) =
    (if False \<in> set (take (node_allocs key) hp) then None else Some (key, stored_datum key datum))"
proof (cases hp)
  case (Cons x xs)
  then show ?thesis
    by (cases xs) (auto simp: avtab_new_node_def stored_datum_def node_allocs_def)
qed (auto simp: avtab_new_node_def stored_datum_def node_allocs_def)

section \<open>Properties\<close>

lemma work_shift_bound:
  "unat w < 2 ^ k \<Longrightarrow> unat s + k < 2 ^ 32 \<Longrightarrow> unat (work_shift w s) \<le> unat s + k"
proof (induction k arbitrary: w s)
  case 0
  then have "w = 0" by (simp add: unat_eq_zero)
  then show ?case by (simp add: work_shift.simps [of 0 s])
next
  case (Suc k)
  show ?case
  proof (cases "w = 0")
    case True
    then show ?thesis by (simp add: work_shift.simps [of 0 s])
  next
    case False
    have w: "unat (drop_bit 1 w) < 2 ^ k"
      using Suc.prems(1) by (simp only: unat_drop_bit_eq) (simp add: drop_bit_eq_div less_mult_imp_div_less)
    have s: "unat (s + 1) = unat s + 1"
      using Suc.prems(2) unat_add_lt [of s 1] by simp
    have "unat (work_shift (drop_bit 1 w) (s + 1)) \<le> unat (s + 1) + k"
      using Suc.prems(2) w s by (intro Suc.IH) simp_all
    then show ?thesis using False s by (simp add: work_shift.simps [of w s])
  qed
qed

lemma push_bit_1_small: "k < LENGTH('a) \<Longrightarrow> push_bit k (1 :: 'a::len word) \<noteq> 0"
  by (auto simp: bit_eq_iff bit_simps)

lemma avtab_alloc_wf:
  assumes "avtab_alloc h n hp = Inr (h', hp')" and "avtable h = None"
  shows "avtab_wf h' \<and> avtab_nodes h' = [] \<and> (n \<noteq> 0 \<longrightarrow> avtable h' \<noteq> None)"
proof (cases "n = 0")
  case True
  with assms show ?thesis by (auto simp: avtab_alloc_def avtab_wf_def avtab_nodes_def)
next
  case False
  define shift where "shift = (if work_shift n 0 > 2 then work_shift n 0 - 2 else work_shift n 0)"
  define nsl :: u32 where "nsl = (if push_bit (unat shift) 1 > (push_bit 20 1 :: u32)
    then push_bit 20 1 else push_bit (unat shift) 1)"
  obtain ok hp2 where m: "malloc hp = (ok, hp2)" by (cases "malloc hp")
  with assms False have h': "h' = h\<lparr>avtable := Some (replicate (unat nsl) []), avnel := 0,
      nslot := nsl, avmask := nsl - 1\<rparr>"
    by (auto simp: avtab_alloc_def shift_def nsl_def Let_def split: if_splits)
  have "unat (work_shift n 0) \<le> 32"
    using work_shift_bound [of n 32 0] unsigned_less [of n] by simp
  then have "unat shift < 32"
    by (auto simp: shift_def word_less_nat_alt word_le_nat_alt)
  then have "push_bit (unat shift) (1 :: u32) \<noteq> 0" by (intro push_bit_1_small) simp
  moreover have "push_bit 20 (1 :: u32) \<noteq> 0" by (intro push_bit_1_small) simp
  ultimately have "nsl \<noteq> 0" by (simp add: nsl_def)
  with h' show ?thesis by (simp add: avtab_wf_def avtab_nodes_def)
qed

text \<open>The table that \<open>avtab_alloc\<close> leaves for one rule, used in the examples.\<close>

definition small_avtab :: avtab where
  "small_avtab = \<lparr>avtable = Some [[], []], avnel = 0, nslot = 2, avmask = 1\<rparr>"

lemma small_avtab_wf: "avtab_wf small_avtab"
  by (auto simp: small_avtab_def avtab_wf_def less_Suc_eq)

lemma small_avtab_search [simp]: "avtab_search small_avtab k = None"
  by (simp add: avtab_search_find [OF small_avtab_wf]) (simp add: avtab_nodes_def small_avtab_def)

text \<open>
  C30: Insertion into the access vector table. On a well-formed, allocated table
  \<open>avtab_insert\<close> reports \<open>SEPOL_EEXIST\<close>, without allocating, exactly when the key has no extended
  permissions and the table has a rule for the same types and class with a common specifier.
  Otherwise it reports \<open>SEPOL_ENOMEM\<close> exactly when the allocation of the node, or that of its extended
  permissions, fails. In all other cases it succeeds: the rule is added to the rules of the
  table (extended permissions completed by \<open>avtab_insert_node\<close>), a search for its key finds it, and
  searches it does not match are as before. After a failure the table is unchanged; it is always well formed.
\<close>

theorem avtab_insert_search:
  assumes "avtab_wf h" and "avtable h \<noteq> None" and "key_spec key \<noteq> 0"
  shows "case avtab_insert h key datum hp of (r, h', hp') \<Rightarrow> avtab_wf h' \<and>
    (if key_spec key AND AVTAB_XPERMS = 0 \<and> (\<exists>n \<in> set (avtab_nodes h). node_matches key (key_spec key) n)
     then r = Inl EEXIST \<and> h' = h \<and> hp' = hp
     else if False \<in> set (take (if specified key AND AVTAB_XPERMS \<noteq> 0 then 2 else 1) hp)
     then r = Inl ENOMEM \<and> h' = h
     else r = Inr () \<and> avtab_search h' key = Some (stored_datum key datum) \<and>
       mset (avtab_nodes h') = add_mset (key, stored_datum key datum) (mset (avtab_nodes h)) \<and>
       (\<forall>k. \<not> node_matches k (key_spec k) (key, datum) \<longrightarrow> avtab_search h' k = avtab_search h k))"
proof -
  obtain t where t: "avtable h = Some t" using assms(2) by auto
  let ?c = "t ! unat (avtab_hash key (avmask h))"
  let ?dup = "key_spec key AND AVTAB_XPERMS = 0 \<and> (\<exists>n \<in> set (avtab_nodes h). node_matches key (key_spec key) n)"
  note slot = hash_slot [OF assms(1) t]
  have "(\<exists>n \<in> set (avtab_nodes h). node_matches key (key_spec key) n) \<longleftrightarrow>
      (\<exists>n \<in> set ?c. node_matches key (key_spec key) n)"
    using nodes_filter [OF assms(1) t, of key "key_spec key"] by (metis (mono_tags, lifting) filter_empty_conv)
  then have dup: "ins_split True key ?c = None \<longleftrightarrow> ?dup"
    using ins_split_unique [OF avtab_wfD(1) [OF assms(1) t slot], of key] by simp
  have same: "node_matches k (key_spec k) (key, stored_datum key datum) =
      node_matches k (key_spec k) (key, datum)" for k by (simp add: node_matches_def)
  obtain x hp2 where new: "avtab_new_node key datum hp = (x, hp2)" by fastforce
  show ?thesis
  proof (cases "ins_split True key ?c")
    case None
    then have "avtab_insert h key datum hp = (Inl EEXIST, h, hp)" by (simp add: avtab_insert_def t)
    then show ?thesis unfolding if_P [OF None [unfolded dup]] using assms(1) by simp
  next
    case (Some p)
    obtain b a where p: "p = (b, a)" by (cases p)
    have nd: "\<not> ?dup" using Some dup by (metis option.distinct(1))
    note split = Some [unfolded p]
    show ?thesis
    proof (cases "False \<in> set (take (node_allocs key) hp)")
      case True
      then have "x = None" using new_node_allocs [of key datum hp] new by simp
      then have "avtab_insert h key datum hp = (Inl ENOMEM, h, hp2)" using split new by (simp add: avtab_insert_def t)
      then show ?thesis unfolding if_not_P [OF nd] if_P [OF True [unfolded node_allocs_def]] using assms(1) by simp
    next
      case False
      then have "x = Some (key, stored_datum key datum)" using new_node_allocs [of key datum hp] new by simp
      then have run: "avtab_insert h key datum hp = (Inr (), linked h t key (stored_datum key datum) b a, hp2)"
        using split new by (simp add: avtab_insert_def t linked_def)
      note search = search_linked [OF assms(1) t split]
      show ?thesis
        unfolding if_not_P [OF nd] if_not_P [OF False [unfolded node_allocs_def]] run prod.case
        using search(1) [OF assms(3)] search(2) same linked_wf(1, 2) [OF assms(1) t split] by simp
    qed
  qed
qed

theorem avtab_insert_search_witness:
  "case avtab_insert small_avtab
      \<lparr>source_type = 1, target_type = 2, target_class = 3, specified = AVTAB_ALLOWED\<rparr>
      \<lparr>data = 5, xperms = None\<rparr> [] of (r, h', hp') \<Rightarrow>
    r = Inr () \<and> avtab_search h'
      \<lparr>source_type = 1, target_type = 2, target_class = 3, specified = AVTAB_ALLOWED\<rparr> =
        Some \<lparr>data = 5, xperms = None\<rparr>"
proof -
  let ?k = "\<lparr>source_type = 1, target_type = 2, target_class = 3, specified = AVTAB_ALLOWED\<rparr>"
  have "key_spec ?k \<noteq> 0" "avtable small_avtab \<noteq> None"
    by (simp_all add: key_spec_def small_avtab_def)
  from avtab_insert_search [OF small_avtab_wf this(2, 1), where datum = "\<lparr>data = 5, xperms = None\<rparr>" and hp = "[]"]
  show ?thesis by (auto simp: stored_datum_def avtab_nodes_def small_avtab_def split: prod.splits)
qed

text \<open>
  Rule enumeration. The loop
  \<open>for (node = avtab_search_node(h, key); node; node = avtab_search_node_next(node, key.specified))\<close>
  visits exactly the rules of the table for the key's types and class whose specifier meets
  the key's, each once and in table order, and \<open>avtab_search\<close> returns the first of them.
\<close>

theorem avtab_enumeration:
  assumes "avtab_wf h"
  shows "avtab_node_loop (avtab_search_node h key) (ucast (specified key)) =
      filter (node_matches key (key_spec key)) (avtab_nodes h) \<and>
    avtab_search h key =
      (case filter (node_matches key (key_spec key)) (avtab_nodes h) of
         [] \<Rightarrow> None | n # _ \<Rightarrow> Some (snd n))"
  by (simp add: avtab_loop_filter [OF assms] avtab_search_find [OF assms] find_filter split: list.split)

theorem avtab_enumeration_witness:
  "avtab_node_loop (avtab_search_node small_avtab
      \<lparr>source_type = 1, target_type = 2, target_class = 3, specified = AVTAB_AV\<rparr>) AVTAB_AV = []"
  using avtab_enumeration [OF small_avtab_wf,
    of "\<lparr>source_type = 1, target_type = 2, target_class = 3, specified = AVTAB_AV\<rparr>"]
  by (simp add: avtab_nodes_def small_avtab_def)

end
