(* ===== verification/Avtab_IO.thy ===== *)
theory Avtab_IO
  imports Avtab
begin

text \<open>
  The binary form of the access vector table: \<open>avtab_read_item\<close> and \<open>avtab_read\<close> of
  \<open>avtab.c\<close>, both formats, and the format since version 20 of \<open>avtab_write_item\<close> and
  \<open>avtab_write\<close> of \<open>write.c\<close>.

  \<open>mcompat\<close> is the global \<open>avtab_android_m_compat\<close>, which the functions that read or set it take
  and return. \<open>insertf\<close> is the callback of \<open>avtab_read_item\<close> with the state it works on (the
  table and the \<open>void *\<close> argument). Log messages are not modelled; when an item cannot be
  read the caller destroys what was built, so an error carries no state but \<open>mcompat\<close>.
\<close>

unbundle bit_operations_syntax

type_synonym 's insertf = "'s \<Rightarrow> avtab_key \<Rightarrow> avtab_datum \<Rightarrow> heap \<Rightarrow> unit result \<times> 's \<times> heap"

abbreviation POLICYDB_VERSION_AVTAB :: u32 where "POLICYDB_VERSION_AVTAB \<equiv> 20"
abbreviation POLICYDB_VERSION_XPERMS_IOCTL :: u32 where "POLICYDB_VERSION_XPERMS_IOCTL \<equiv> 30"
abbreviation AVTAB_OPTYPE :: u16 where "AVTAB_OPTYPE \<equiv> 0x7000"
abbreviation IOCTLFUNCTION :: u8 where "IOCTLFUNCTION \<equiv> 1"
abbreviation IOCTLDRIVER :: u8 where "IOCTLDRIVER \<equiv> 2"
abbreviation XPERMS_NLMSG :: u8 where "XPERMS_NLMSG \<equiv> 3"

section \<open>Reading\<close>

definition spec_order :: "u16 list" where
  "spec_order = [AVTAB_ALLOWED, AVTAB_AUDITDENY, AVTAB_AUDITALLOW, AVTAB_TRANSITION, AVTAB_CHANGE,
     AVTAB_MEMBER, AVTAB_XPERMS_ALLOWED, AVTAB_XPERMS_AUDITALLOW, AVTAB_XPERMS_DONTAUDIT]"

text \<open>The loop over \<open>spec_order\<close> of the old format; \<open>items\<close> is the index into \<open>buf32\<close>.\<close>

fun read_specs ::
  "u16 list \<Rightarrow> u32 \<Rightarrow> u32 list \<Rightarrow> nat \<Rightarrow> nat \<Rightarrow> u16 \<Rightarrow> avtab_key \<Rightarrow> 's insertf \<Rightarrow> 's \<Rightarrow> heap \<Rightarrow>
    (nat \<times> 's \<times> heap) result" where
  "read_specs [] val buf32 items items2 enabled key insertf s hp = Inr (items, s, hp)"
| "read_specs (sp # sps) val buf32 items items2 enabled key insertf s hp =
     (if val AND ucast sp \<noteq> 0
      then if items \<ge> items2 then Inl FAIL
        else case insertf s (key\<lparr>specified := sp OR enabled\<rparr>) \<lparr>data = buf32 ! items, xperms = None\<rparr> hp of
            (Inl e, _, _) \<Rightarrow> Inl e
          | (Inr _, s, hp) \<Rightarrow> read_specs sps val buf32 (items + 1) items2 enabled key insertf s hp
      else read_specs sps val buf32 items items2 enabled key insertf s hp)"

definition avtab_read_item_old ::
  "policy_file \<Rightarrow> 's insertf \<Rightarrow> 's \<Rightarrow> heap \<Rightarrow> (policy_file \<times> 's \<times> heap) result" where
  "avtab_read_item_old fp insertf s hp =
     (case next_words 4 fp 1 of Inl _ \<Rightarrow> Inl FAIL | Inr (buf32, fp) \<Rightarrow>
      let items2 = unat (buf32 ! 0 :: u32) in
      if items2 < 5 \<or> items2 > 8 then Inl FAIL
      else case next_words 4 fp items2 of Inl _ \<Rightarrow> Inl FAIL | Inr (buf32 :: u32 list, fp) \<Rightarrow>
      if ucast (ucast (buf32 ! 0) :: u16) \<noteq> buf32 ! 0 then Inl FAIL
      else if ucast (ucast (buf32 ! 1) :: u16) \<noteq> buf32 ! 1 then Inl FAIL
      else if ucast (ucast (buf32 ! 2) :: u16) \<noteq> buf32 ! 2 then Inl FAIL
      else let val = buf32 ! 3;
               enabled = (if val AND AVTAB_ENABLED_OLD \<noteq> 0 then AVTAB_ENABLED else 0) in
      if val AND (AVTAB_AV OR AVTAB_TYPE) = 0 then Inl FAIL
      else if val AND AVTAB_AV \<noteq> 0 \<and> val AND AVTAB_TYPE \<noteq> 0 then Inl FAIL
      else bind_res (read_specs spec_order val buf32 4 items2 enabled
          \<lparr>source_type = ucast (buf32 ! 0), target_type = ucast (buf32 ! 1),
            target_class = ucast (buf32 ! 2), specified = 0\<rparr> insertf s hp) (\<lambda>(items, s, hp).
        if items \<noteq> items2 then Inl FAIL else Inr (fp, s, hp)))"

definition popcount :: "u16 \<Rightarrow> nat" where
  "popcount w = length (filter (bit w) [0..<16])"

text \<open>
  The end of the branch for extended permissions: the eight words and the call of \<open>insertf\<close>;
  \<open>call_insertf\<close> is the final \<open>return insertf(a, &key, &datum, p)\<close>.
\<close>

definition call_insertf ::
  "'s insertf \<Rightarrow> policy_file \<Rightarrow> avtab_key \<Rightarrow> avtab_datum \<Rightarrow> 's \<Rightarrow> heap \<Rightarrow>
    (policy_file \<times> 's \<times> heap) result" where
  "call_insertf insertf fp key datum s hp = (case insertf s key datum hp of
       (Inl e, _, _) \<Rightarrow> Inl e
     | (Inr _, s, hp) \<Rightarrow> Inr (fp, s, hp))"

definition read_perms ::
  "policy_file \<Rightarrow> avtab_key \<Rightarrow> u8 \<Rightarrow> u8 \<Rightarrow> 's insertf \<Rightarrow> 's \<Rightarrow> heap \<Rightarrow>
    (policy_file \<times> 's \<times> heap) result" where
  "read_perms fp key xspec drv insertf s hp =
     (case next_words 4 fp 8 of Inl _ \<Rightarrow> Inl FAIL
      | Inr (buf32, fp) \<Rightarrow> call_insertf insertf fp key
          \<lparr>data = 0, xperms = Some \<lparr>xspecified = xspec, driver = drv, perms = buf32\<rparr>\<rparr> s hp)"

definition avtab_read_item ::
  "policy_file \<Rightarrow> u32 \<Rightarrow> bool \<Rightarrow> 's insertf \<Rightarrow> 's \<Rightarrow> heap \<Rightarrow>
    (policy_file \<times> 's \<times> heap) result \<times> bool" where
  "avtab_read_item fp vers mcompat insertf s hp =
     (if vers < POLICYDB_VERSION_AVTAB then (avtab_read_item_old fp insertf s hp, mcompat)
      else case next_words 2 fp 4 of Inl _ \<Rightarrow> (Inl FAIL, mcompat) | Inr (buf16 :: u16 list, fp) \<Rightarrow>
      let optype = (vers = POLICYDB_VERSION_XPERMS_IOCTL \<and> buf16 ! 3 AND AVTAB_OPTYPE \<noteq> 0);
          key = \<lparr>source_type = buf16 ! 0, target_type = buf16 ! 1, target_class = buf16 ! 2,
            specified = (if optype then drop_bit 4 (buf16 ! 3) else buf16 ! 3)\<rparr>;
          xspec = (if optype then IOCTLDRIVER else 0);
          mcompat = (mcompat \<or> optype)
      in
      if specified key AND NOT (AVTAB_AV OR AVTAB_TYPE OR AVTAB_XPERMS OR AVTAB_ENABLED) \<noteq> 0
      then (Inl FAIL, mcompat)
      else if popcount (specified key AND NOT AVTAB_ENABLED) \<noteq> 1 then (Inl FAIL, mcompat)
      else if vers < POLICYDB_VERSION_XPERMS_IOCTL \<and> specified key AND AVTAB_XPERMS \<noteq> 0
      then (Inl FAIL, mcompat)
      else if specified key AND AVTAB_XPERMS \<noteq> 0
      then case next_words 1 fp 1 of Inl _ \<Rightarrow> (Inl FAIL, mcompat) | Inr (buf8 :: u8 list, fp) \<Rightarrow>
        if mcompat \<or> vers = POLICYDB_VERSION_XPERMS_IOCTL \<and> buf8 ! 0 \<noteq> IOCTLFUNCTION \<and>
            buf8 ! 0 \<noteq> IOCTLDRIVER \<and> buf8 ! 0 \<noteq> XPERMS_NLMSG
        then (read_perms fp key (if xspec = 0 then IOCTLFUNCTION else xspec) (buf8 ! 0) insertf s hp, True)
        else case next_words 1 fp 1 of Inl _ \<Rightarrow> (Inl FAIL, mcompat) | Inr (buf8', fp) \<Rightarrow>
          (read_perms fp key (buf8 ! 0) (buf8' ! 0) insertf s hp, mcompat)
      else case next_words 4 fp 1 of Inl _ \<Rightarrow> (Inl FAIL, mcompat) | Inr (buf32, fp) \<Rightarrow>
        (call_insertf insertf fp key \<lparr>data = buf32 ! 0, xperms = None\<rparr> s hp, mcompat))"

definition avtab_insertf :: "avtab insertf" where
  "avtab_insertf a k d hp = avtab_insert a k d hp"

fun read_items ::
  "nat \<Rightarrow> policy_file \<Rightarrow> u32 \<Rightarrow> bool \<Rightarrow> 's insertf \<Rightarrow> 's \<Rightarrow> heap \<Rightarrow>
    (policy_file \<times> 's \<times> heap) result \<times> bool" where
  "read_items 0 fp vers mcompat insertf s hp = (Inr (fp, s, hp), mcompat)"
| "read_items (Suc i) fp vers mcompat insertf s hp =
     (case avtab_read_item fp vers mcompat insertf s hp of
        (Inl _, mcompat) \<Rightarrow> (Inl FAIL, mcompat)
      | (Inr (fp, s, hp), mcompat) \<Rightarrow> read_items i fp vers mcompat insertf s hp)"

definition avtab_read ::
  "avtab \<Rightarrow> policy_file \<Rightarrow> u32 \<Rightarrow> bool \<Rightarrow> heap \<Rightarrow> (policy_file \<times> avtab \<times> heap) result \<times> bool" where
  "avtab_read a fp vers mcompat hp =
     (case next_words 4 fp 1 of Inl _ \<Rightarrow> (Inl FAIL, mcompat) | Inr (buf, fp) \<Rightarrow>
      let n = (buf ! 0 :: u32) in
      if zero_or_saturated n \<or> exceeds_available_bytes fp (unat n) 12 then (Inl FAIL, mcompat)
      else case avtab_alloc a n hp of Inl _ \<Rightarrow> (Inl FAIL, mcompat)
        | Inr (a, hp) \<Rightarrow> read_items (unat n) fp vers mcompat avtab_insertf a hp)"

section \<open>Writing\<close>

text \<open>
  The part of \<open>avtab_write_item\<close> for the format since version 20. \<open>xperms\<close> is dereferenced
  without a check: every node of a table with extended permissions has them.
\<close>

definition avtab_write_item ::
  "u32 \<Rightarrow> bool \<Rightarrow> bool \<Rightarrow> avtab_node \<Rightarrow> policy_file \<Rightarrow> policy_file result" where
  "avtab_write_item policyvers selinux mcompat cur fp =
     (let key = fst cur; datum = snd cur; xp = the (xperms datum) in
      bind_res (put_words 2 [source_type key, target_type key, target_class key,
          if mcompat \<and> specified key AND AVTAB_XPERMS \<noteq> 0 \<and> xspecified xp = IOCTLDRIVER
          then push_bit 4 (specified key) else specified key] fp) (\<lambda>fp.
      if policyvers < POLICYDB_VERSION_XPERMS_IOCTL \<and> specified key AND AVTAB_XPERMS \<noteq> 0 then Inl FAIL
      else if \<not> selinux \<and> specified key AND AVTAB_XPERMS \<noteq> 0 then Inl FAIL
      else if specified key AND AVTAB_XPERMS \<noteq> 0
      then bind_res (if mcompat then Inr fp else put_words 1 [xspecified xp] fp) (\<lambda>fp.
        bind_res (put_words 1 [driver xp] fp) (\<lambda>fp.
        put_words 4 (perms xp) fp))
      else put_words 4 [data datum] fp))"

fun write_items ::
  "u32 \<Rightarrow> bool \<Rightarrow> bool \<Rightarrow> avtab_node list \<Rightarrow> policy_file \<Rightarrow> policy_file result" where
  "write_items policyvers selinux mcompat [] fp = Inr fp"
| "write_items policyvers selinux mcompat (cur # ns) fp =
     bind_res (avtab_write_item policyvers selinux mcompat cur fp) (\<lambda>fp.
     write_items policyvers selinux mcompat ns fp)"

definition avtab_write ::
  "u32 \<Rightarrow> bool \<Rightarrow> bool \<Rightarrow> avtab \<Rightarrow> policy_file \<Rightarrow> policy_file result" where
  "avtab_write policyvers selinux mcompat a fp =
     bind_res (put_words 4 [avnel a] fp) (\<lambda>fp.
     write_items policyvers selinux mcompat (avtab_nodes a) fp)"

section \<open>Round trip\<close>

text \<open>The rules the format since version 20 can hold at policy version \<open>vers\<close>.\<close>

definition valid_rule :: "u32 \<Rightarrow> avtab_node \<Rightarrow> bool" where
  "valid_rule vers n \<longleftrightarrow> (case n of (k, d) \<Rightarrow>
     specified k AND NOT (AVTAB_AV OR AVTAB_TYPE OR AVTAB_XPERMS OR AVTAB_ENABLED) = 0 \<and>
     popcount (key_spec k) = 1 \<and>
     (if specified k AND AVTAB_XPERMS \<noteq> 0
      then vers \<ge> POLICYDB_VERSION_XPERMS_IOCTL \<and> data d = 0 \<and>
        (\<exists>x. xperms d = Some x \<and> length (perms x) = 8 \<and>
          (vers = POLICYDB_VERSION_XPERMS_IOCTL \<longrightarrow>
            xspecified x = IOCTLFUNCTION \<or> xspecified x = IOCTLDRIVER \<or> xspecified x = XPERMS_NLMSG))
      else xperms d = None))"

definition rule_bytes :: "avtab_node \<Rightarrow> u8 list" where
  "rule_bytes n = (case n of (k, d) \<Rightarrow>
     concat (map (le_bytes 2) [source_type k, target_type k, target_class k, specified k]) @
     (if specified k AND AVTAB_XPERMS \<noteq> 0
      then concat (map (le_bytes 1) [xspecified (the (xperms d))]) @
        concat (map (le_bytes 1) [driver (the (xperms d))]) @
        concat (map (le_bytes 4) (perms (the (xperms d))))
      else concat (map (le_bytes 4) [data d])))"

lemma valid_no_optype:
  "s AND NOT (AVTAB_AV OR AVTAB_TYPE OR AVTAB_XPERMS OR AVTAB_ENABLED) = 0 \<Longrightarrow> s AND AVTAB_OPTYPE = 0"
  for s :: u16
proof -
  assume s: "s AND NOT (AVTAB_AV OR AVTAB_TYPE OR AVTAB_XPERMS OR AVTAB_ENABLED) = 0"
  have "s AND AVTAB_OPTYPE =
      (s AND NOT (AVTAB_AV OR AVTAB_TYPE OR AVTAB_XPERMS OR AVTAB_ENABLED)) AND AVTAB_OPTYPE"
    by (simp add: and.assoc)
  then show ?thesis using s by simp
qed

lemma avtab_write_item_memory:
  assumes "valid_rule vers n" and "ptype fp = PF_USE_MEMORY"
    and "length (rule_bytes n) \<le> plen fp" and "plen fp < 2 ^ 64"
  shows "avtab_write_item vers True False n fp = Inr (fp\<lparr>pdata := pdata fp @ rule_bytes n,
    plen := plen fp - length (rule_bytes n)\<rparr>)"
proof -
  obtain k d where n: "n = (k, d)" by (cases n)
  show ?thesis
  proof (cases "specified k AND AVTAB_XPERMS = 0")
    case True
    then show ?thesis
      using assms n by (simp add: avtab_write_item_def rule_bytes_def put_words_memory)
  next
    case False
    then obtain x where x: "xperms d = Some x" "length (perms x) = 8" "vers \<ge> 30"
      using assms(1) n by (auto simp: valid_rule_def)
    with False show ?thesis
      using assms n by (simp add: avtab_write_item_def rule_bytes_def put_words_memory not_less)
  qed
qed

lemma avtab_read_item_bytes:
  assumes "valid_rule vers n" and "vers \<ge> POLICYDB_VERSION_AVTAB"
    and "ptype fp = PF_USE_MEMORY" and "pdata fp = rule_bytes n @ rest"
    and "plen fp = length (rule_bytes n) + m"
  shows "avtab_read_item fp vers False insertf s hp =
    (call_insertf insertf (fp\<lparr>pdata := rest, plen := m\<rparr>) (fst n) (snd n) s hp, False)"
proof -
  obtain k d where n: "n = (k, d)" by (cases n)
  let ?ws = "[source_type k, target_type k, target_class k, specified k]"
  have spec: "specified k AND NOT (AVTAB_AV OR AVTAB_TYPE OR AVTAB_XPERMS OR AVTAB_ENABLED) = 0"
      "popcount (specified k AND NOT AVTAB_ENABLED) = 1"
    using assms(1) n by (simp_all add: valid_rule_def key_spec_def)
  note noopt = valid_no_optype [OF spec(1)]
  have vers: "\<not> vers < POLICYDB_VERSION_AVTAB" using assms(2) by simp
  have eta: "\<lparr>source_type = source_type k, target_type = target_type k,
      target_class = target_class k, specified = specified k\<rparr> = k" by simp
  show ?thesis
  proof (cases "specified k AND AVTAB_XPERMS = 0")
    case True
    then have none: "xperms d = None" using assms(1) n by (simp add: valid_rule_def)
    have "next_words 2 fp 4 = Inr (?ws, fp\<lparr>pdata := concat (map (le_bytes 4) [data d]) @ rest,
        plen := 4 + m\<rparr>)"
      by (rule next_words_memory) (use assms n True in \<open>simp_all add: rule_bytes_def\<close>)
    moreover have "next_words 4 (fp\<lparr>pdata := concat (map (le_bytes 4) [data d]) @ rest, plen := 4 + m\<rparr>) 1
        = Inr ([data d], fp\<lparr>pdata := rest, plen := m\<rparr>)"
      by (subst next_words_memory [where ws = "[data d]" and k = m and rest = rest])
        (use assms(3) in simp_all)
    moreover have "\<lparr>data = data d, xperms = None\<rparr> = d" using none by simp
    ultimately show ?thesis
      using vers spec True n noopt by (simp add: avtab_read_item_def eta)
  next
    case False
    then obtain x where x: "xperms d = Some x" "length (perms x) = 8" "vers \<ge> 30" "data d = 0"
      "vers = 30 \<longrightarrow> xspecified x = IOCTLFUNCTION \<or> xspecified x = IOCTLDRIVER \<or> xspecified x = XPERMS_NLMSG"
      using assms(1) n by (auto simp: valid_rule_def)
    have etax: "\<lparr>xspecified = xspecified x, driver = driver x, perms = perms x\<rparr> = x" by simp
    let ?p = "concat (map (le_bytes 4) (perms x)) @ rest"
    let ?d = "concat (map (le_bytes 1) [driver x]) @ ?p"
    let ?s = "concat (map (le_bytes 1) [xspecified x]) @ ?d"
    have "next_words 2 fp 4 = Inr (?ws, fp\<lparr>pdata := ?s, plen := 34 + m\<rparr>)"
      by (rule next_words_memory) (use assms n False x in \<open>simp_all add: rule_bytes_def\<close>)
    moreover have "next_words 1 (fp\<lparr>pdata := ?s, plen := 34 + m\<rparr>) 1 =
        Inr ([xspecified x], fp\<lparr>pdata := ?d, plen := 33 + m\<rparr>)"
      by (subst next_words_memory [where ws = "[xspecified x]" and k = "33 + m" and rest = ?d])
        (use assms(3) in simp_all)
    moreover have "next_words 1 (fp\<lparr>pdata := ?d, plen := 33 + m\<rparr>) 1 =
        Inr ([driver x], fp\<lparr>pdata := ?p, plen := 32 + m\<rparr>)"
      by (subst next_words_memory [where ws = "[driver x]" and k = "32 + m" and rest = ?p])
        (use assms(3) in simp_all)
    moreover have "next_words 4 (fp\<lparr>pdata := ?p, plen := 32 + m\<rparr>) 8 =
        Inr (perms x, fp\<lparr>pdata := rest, plen := m\<rparr>)"
      by (subst next_words_memory [where ws = "perms x" and k = m and rest = rest])
        (use assms(3) x in simp_all)
    moreover have "snd n = \<lparr>data = 0, xperms = Some x\<rparr>" using n x by simp
    moreover have "(vers = 30 \<and> xspecified x \<noteq> IOCTLFUNCTION \<and> xspecified x \<noteq> IOCTLDRIVER \<and>
        xspecified x \<noteq> XPERMS_NLMSG) = False" using x(5) by blast
    moreover have "(vers < 30) = False" using x(3) by simp
    ultimately show ?thesis
      using vers spec False n noopt
      by (simp add: avtab_read_item_def read_perms_def eta etax)
  qed
qed

text \<open>A table a policy of version \<open>vers\<close> holds: valid rules, the ordinary ones all different.\<close>

definition rule_id :: "avtab_node \<Rightarrow> (u16 \<times> u16 \<times> u16) \<times> u16" where
  "rule_id n = (key_rank (fst n), key_spec (fst n))"

definition ordinary :: "avtab_node \<Rightarrow> bool" where
  "ordinary n \<longleftrightarrow> key_spec (fst n) AND AVTAB_XPERMS = 0"

definition rules_ok :: "u32 \<Rightarrow> avtab_node multiset \<Rightarrow> bool" where
  "rules_ok vers M \<longleftrightarrow> (\<forall>n \<in># M. valid_rule vers n) \<and>
     (\<forall>i. count (image_mset rule_id (filter_mset ordinary M)) i \<le> 1)"

lemma popcount_one:
  assumes "popcount w = 1"
  obtains i where "\<And>j. bit w j \<longleftrightarrow> j = i"
proof -
  from assms obtain i where i: "filter (bit w) [0..<16] = [i]"
    unfolding popcount_def by (metis One_nat_def length_0_conv length_Suc_conv)
  have "bit w j \<longleftrightarrow> j = i" for j
  proof -
    have "bit w j \<longleftrightarrow> j \<in> set (filter (bit w) [0..<16])"
      using bit_imp_le_length [of w j] by auto
    then show ?thesis by (simp only: i) simp
  qed
  then show thesis by (rule that)
qed

lemma single_bits_meet:
  assumes "popcount v = 1" and "popcount w = 1" and "v AND w \<noteq> 0"
  shows "v = w"
proof -
  obtain i where i: "\<And>j. bit v j \<longleftrightarrow> j = i" using popcount_one [OF assms(1)] by blast
  obtain k where k: "\<And>j. bit w j \<longleftrightarrow> j = k" using popcount_one [OF assms(2)] by blast
  have "i = k" using assms(3) by (auto simp: bit_eq_iff bit_simps i k)
  then show ?thesis by (auto simp: bit_eq_iff i k)
qed

lemma key_spec_AND: "key_spec k AND s = key_spec k AND (s AND NOT AVTAB_ENABLED)"
  by (rule bit_word_eqI) (auto simp: key_spec_def bit_simps)

lemma match_rule_id:
  assumes "popcount (key_spec key) = 1" and "popcount (key_spec (fst n)) = 1"
  shows "node_matches key (key_spec key) n \<longleftrightarrow> rule_id n = (key_rank key, key_spec key)"
proof -
  have "key_spec key AND specified (fst n) = key_spec key AND key_spec (fst n)"
    by (simp add: key_spec_AND [of key "specified (fst n)"] key_spec_def [of "fst n"])
  moreover have "key_spec key \<noteq> 0" using assms(1) by (auto simp: popcount_def)
  ultimately show ?thesis
    using single_bits_meet [OF assms]
    by (auto simp: node_matches_def rule_id_def key_same_rank)
qed

lemma valid_popcount: "valid_rule vers n \<Longrightarrow> popcount (key_spec (fst n)) = 1"
  by (cases n) (simp add: valid_rule_def)

lemma valid_stored: "valid_rule vers (k, d) \<Longrightarrow> stored_datum k d = d"
  by (auto simp: valid_rule_def stored_datum_def split: if_splits)

lemma insert_rule:
  assumes "avtab_wf a" and "avtable a \<noteq> None" and "rules_ok vers (add_mset n (mset (avtab_nodes a)))"
  shows "\<exists>a'. call_insertf avtab_insertf fp (fst n) (snd n) a [] = Inr (fp, a', []) \<and> avtab_wf a' \<and>
    avtable a' \<noteq> None \<and> mset (avtab_nodes a') = add_mset n (mset (avtab_nodes a))"
proof -
  obtain k d where n: "n = (k, d)" by (cases n)
  obtain t where t: "avtable a = Some t" using assms(2) by auto
  have valid: "valid_rule vers n" using assms(3) by (simp add: rules_ok_def)
  let ?c = "t ! unat (avtab_hash k (avmask a))"
  have "ins_split True k ?c \<noteq> None"
  proof
    assume "ins_split True k ?c = None"
    from ins_split_None [OF this] obtain m where ord: "key_spec k AND AVTAB_XPERMS = 0"
      and m: "m \<in> set ?c" "node_matches k (key_spec k) m" by blast
    have mem: "m \<in> set (avtab_nodes a)"
      using m(1) hash_slot [OF assms(1) t] t by (auto simp: avtab_nodes_def)
    then have "valid_rule vers m" using assms(3) by (simp add: rules_ok_def)
    then have id: "rule_id m = rule_id n"
      using m(2) match_rule_id valid_popcount valid n by (fastforce simp: rule_id_def)
    then have "ordinary m" "ordinary n" using ord n by (simp_all add: rule_id_def ordinary_def)
    then have "count (image_mset rule_id (filter_mset ordinary (add_mset n (mset (avtab_nodes a))))) (rule_id n) =
        Suc (count (image_mset rule_id (filter_mset ordinary (mset (avtab_nodes a)))) (rule_id m))"
      using id by simp
    moreover have "rule_id m \<in># image_mset rule_id (filter_mset ordinary (mset (avtab_nodes a)))"
      using mem \<open>ordinary m\<close> by simp
    ultimately show False using assms(3) unfolding rules_ok_def
      by (metis One_nat_def Suc_le_mono count_greater_zero_iff leD le_zero_eq)
  qed
  then obtain b c where split: "ins_split True k ?c = Some (b, c)" by auto
  have "avtab_insert a k d [] = (Inr (), linked a t k d b c, [])"
    using t split valid_stored [of vers k d] valid n
    by (auto simp: avtab_insert_def avtab_new_node_def linked_def stored_datum_def split: if_splits)
  then show ?thesis
    using linked_wf(1, 2) [OF assms(1) t split] n
    by (simp add: call_insertf_def avtab_insertf_def linked_def)
qed

lemma read_items_bytes:
  assumes "avtab_wf a" and "avtable a \<noteq> None" and "rules_ok vers (mset (avtab_nodes a) + mset ns)"
    and "vers \<ge> POLICYDB_VERSION_AVTAB" and "ptype fp = PF_USE_MEMORY"
    and "pdata fp = concat (map rule_bytes ns) @ rest"
    and "plen fp = length (concat (map rule_bytes ns)) + m"
  shows "\<exists>a'. read_items (length ns) fp vers False avtab_insertf a [] =
      (Inr (fp\<lparr>pdata := rest, plen := m\<rparr>, a', []), False) \<and>
    avtab_wf a' \<and> mset (avtab_nodes a') = mset (avtab_nodes a) + mset ns"
  using assms
proof (induction ns arbitrary: a fp)
  case (Cons n ns)
  let ?fp = "fp\<lparr>pdata := concat (map rule_bytes ns) @ rest,
    plen := length (concat (map rule_bytes ns)) + m\<rparr>"
  have "valid_rule vers n" using Cons.prems(3) by (simp add: rules_ok_def)
  then have item: "avtab_read_item fp vers False avtab_insertf a [] =
      (call_insertf avtab_insertf ?fp (fst n) (snd n) a [], False)"
    using Cons.prems by (intro avtab_read_item_bytes) simp_all
  have "rules_ok vers (add_mset n (mset (avtab_nodes a)))"
  proof -
    have "add_mset n (mset (avtab_nodes a)) \<subseteq># mset (avtab_nodes a) + mset (n # ns)" by simp
    then show ?thesis using Cons.prems(3) unfolding rules_ok_def
      by (meson image_mset_subseteq_mono le_trans mset_subset_eqD mset_subset_eq_count
          multiset_filter_mono)
  qed
  from insert_rule [OF Cons.prems(1, 2) this, of ?fp] obtain a' where a':
    "call_insertf avtab_insertf ?fp (fst n) (snd n) a [] = Inr (?fp, a', [])" "avtab_wf a'"
    "avtable a' \<noteq> None" "mset (avtab_nodes a') = add_mset n (mset (avtab_nodes a))" by blast
  have "\<exists>a''. read_items (length ns) ?fp vers False avtab_insertf a' [] =
      (Inr (?fp\<lparr>pdata := rest, plen := m\<rparr>, a'', []), False) \<and>
    avtab_wf a'' \<and> mset (avtab_nodes a'') = mset (avtab_nodes a') + mset ns"
    by (rule Cons.IH) (use Cons.prems a' in simp_all)
  then show ?case using item a' by simp
qed auto

lemma write_items_memory:
  assumes "\<forall>n \<in> set ns. valid_rule vers n" and "ptype fp = PF_USE_MEMORY"
    and "length (concat (map rule_bytes ns)) \<le> plen fp" and "plen fp < 2 ^ 64"
  shows "write_items vers True False ns fp = Inr (fp\<lparr>pdata := pdata fp @ concat (map rule_bytes ns),
    plen := plen fp - length (concat (map rule_bytes ns))\<rparr>)"
  using assms
proof (induction ns arbitrary: fp)
  case (Cons n ns)
  then show ?case by (simp add: avtab_write_item_memory)
qed simp

lemma rule_bytes_length: "valid_rule vers n \<Longrightarrow> 12 \<le> length (rule_bytes n)"
  by (auto simp: valid_rule_def rule_bytes_def split: prod.splits if_splits)

lemma rules_bytes_length:
  "\<forall>n \<in> set ns. valid_rule vers n \<Longrightarrow> 12 * length ns \<le> length (concat (map rule_bytes ns))"
proof (induction ns)
  case (Cons n ns)
  then show ?case using rule_bytes_length [of vers n] by simp
qed simp

lemma mset_short_eq:
  assumes "mset xs = mset ys" and "length ys \<le> 1"
  shows "xs = ys"
proof (cases ys)
  case (Cons y zs)
  with assms(2) have "ys = [y]" by simp
  with assms(1) show ?thesis by (simp add: mset_single_iff)
qed (use assms(1) in simp)

lemma count_image_size: "count (image_mset f M) y = size (filter_mset (\<lambda>x. f x = y) M)"
  by (induction M) auto

lemma unique_search:
  assumes "avtab_wf a" and "avtab_wf a'" and "mset (avtab_nodes a') = mset (avtab_nodes a)"
    and "rules_ok vers (mset (avtab_nodes a))"
    and "popcount (key_spec key) = 1" and "key_spec key AND AVTAB_XPERMS = 0"
  shows "avtab_search a' key = avtab_search a key"
proof -
  let ?P = "node_matches key (key_spec key)"
  let ?id = "(key_rank key, key_spec key)"
  have same: "mset (filter ?P (avtab_nodes a')) = mset (filter ?P (avtab_nodes a))"
    using assms(3) by simp
  have "filter_mset ?P (mset (avtab_nodes a)) =
      filter_mset (\<lambda>n. rule_id n = ?id) (filter_mset ordinary (mset (avtab_nodes a)))"
    unfolding filter_filter_mset
  proof (rule filter_mset_cong [OF refl])
    fix n assume "n \<in># mset (avtab_nodes a)"
    then have "popcount (key_spec (fst n)) = 1"
      using assms(4) valid_popcount [of vers n] by (simp add: rules_ok_def)
    with match_rule_id [OF assms(5)] assms(6)
    show "?P n \<longleftrightarrow> ordinary n \<and> rule_id n = ?id" by (auto simp: rule_id_def ordinary_def)
  qed
  then have "size (filter_mset ?P (mset (avtab_nodes a))) =
      count (image_mset rule_id (filter_mset ordinary (mset (avtab_nodes a)))) ?id"
    by (simp only: count_image_size)
  moreover have "count (image_mset rule_id (filter_mset ordinary (mset (avtab_nodes a)))) ?id \<le> 1"
    using assms(4) unfolding rules_ok_def by blast
  ultimately have "length (filter ?P (avtab_nodes a)) \<le> 1"
    by (simp flip: size_mset)
  then have "filter ?P (avtab_nodes a') = filter ?P (avtab_nodes a)"
    using same by (intro mset_short_eq)
  then show ?thesis by (simp add: avtab_search_find assms(1, 2) find_filter)
qed

section \<open>Properties\<close>

text \<open>
  C31: Round trip of the access vector table. A table of valid, pairwise different rules that
  \<open>avtab_write\<close> puts into a large enough memory region is accepted by \<open>avtab_read\<close>, which
  consumes exactly the written bytes; the new table is well formed, holds the same rules
  and answers every search for an access vector or type rule as the old one did.
\<close>

theorem avtab_write_read:
  assumes "avtab_wf a" and "rules_ok vers (mset (avtab_nodes a))" and "avtable a0 = None"
    and "unat (avnel a) = length (avtab_nodes a)" and "0 < unat (avnel a)" and "unat (avnel a) < 2 ^ 32 - 1"
    and "vers \<ge> POLICYDB_VERSION_AVTAB" and "n < 2 ^ 64"
    and "4 + length (concat (map rule_bytes (avtab_nodes a))) \<le> n"
  shows "\<exists>fp a'. avtab_write vers True False a \<lparr>ptype = PF_USE_MEMORY, pdata = [], plen = n\<rparr> = Inr fp \<and>
    avtab_read a0 \<lparr>ptype = PF_USE_MEMORY, pdata = pdata fp @ rest, plen = length (pdata fp @ rest)\<rparr>
        vers False [] =
      (Inr (\<lparr>ptype = PF_USE_MEMORY, pdata = rest, plen = length rest\<rparr>, a', []), False) \<and>
    avtab_wf a' \<and> mset (avtab_nodes a') = mset (avtab_nodes a) \<and>
    (\<forall>key. popcount (key_spec key) = 1 \<and> key_spec key AND AVTAB_XPERMS = 0 \<longrightarrow>
      avtab_search a' key = avtab_search a key)"
proof -
  let ?ns = "avtab_nodes a" and ?n = "avnel a"
  let ?bytes = "concat (map rule_bytes ?ns)"
  have valid: "\<forall>n \<in> set ?ns. valid_rule vers n" using assms(2) by (simp add: rules_ok_def)
  have put: "put_words 4 [?n] \<lparr>ptype = PF_USE_MEMORY, pdata = [], plen = n\<rparr> =
      Inr \<lparr>ptype = PF_USE_MEMORY, pdata = le_bytes 4 ?n, plen = n - 4\<rparr>"
    using assms by (simp add: put_words_memory)
  have wr: "avtab_write vers True False a \<lparr>ptype = PF_USE_MEMORY, pdata = [], plen = n\<rparr> =
      Inr \<lparr>ptype = PF_USE_MEMORY, pdata = le_bytes 4 ?n @ ?bytes, plen = n - 4 - length ?bytes\<rparr>"
    unfolding avtab_write_def put bind_res_simps
    by (subst write_items_memory [OF valid]) (use assms(8, 9) in simp_all)
  let ?in = "\<lparr>ptype = PF_USE_MEMORY, pdata = (le_bytes 4 ?n @ ?bytes) @ rest,
    plen = length ((le_bytes 4 ?n @ ?bytes) @ rest)\<rparr>"
  let ?fp = "\<lparr>ptype = PF_USE_MEMORY, pdata = ?bytes @ rest, plen = length ?bytes + length rest\<rparr>"
  have get: "next_words 4 ?in 1 = Inr ([?n], ?fp)"
    by (subst next_words_memory [where ws = "[?n]" and rest = "?bytes @ rest"
          and k = "length ?bytes + length rest"]) simp_all
  have "?n \<noteq> 0" "?n \<noteq> - 1"
    using assms(5, 6) by (auto simp: unsigned_minus_1_eq_mask mask_eq_exp_minus_1)
  then have size: "\<not> zero_or_saturated ?n" by (simp add: zero_or_saturated_def)
  have "12 * unat ?n \<le> length ?bytes" using rules_bytes_length [OF valid] assms(4) by simp
  then have avail: "\<not> exceeds_available_bytes ?fp (unat ?n) 12"
    using assms(6) by (simp add: exceeds_available_bytes_def)
  have "\<exists>b. avtab_alloc a0 ?n [] = Inr (b, [])"
    by (cases "?n = 0") (simp_all add: avtab_alloc_def Let_def)
  then obtain b where alloc: "avtab_alloc a0 ?n [] = Inr (b, [])" ..
  from avtab_alloc_wf [OF alloc assms(3)] \<open>?n \<noteq> 0\<close>
  have b: "avtab_wf b" "avtab_nodes b = []" "avtable b \<noteq> None" by simp_all
  have "\<exists>a'. read_items (length ?ns) ?fp vers False avtab_insertf b [] =
      (Inr (?fp\<lparr>pdata := rest, plen := length rest\<rparr>, a', []), False) \<and>
    avtab_wf a' \<and> mset (avtab_nodes a') = mset (avtab_nodes b) + mset ?ns"
    by (rule read_items_bytes) (use b assms(2, 7) in simp_all)
  then obtain a' where a': "read_items (length ?ns) ?fp vers False avtab_insertf b [] =
      (Inr (?fp\<lparr>pdata := rest, plen := length rest\<rparr>, a', []), False)"
    and wf: "avtab_wf a'" and ms: "mset (avtab_nodes a') = mset ?ns" using b(2) by auto
  have rd: "avtab_read a0 ?in vers False [] =
      (Inr (\<lparr>ptype = PF_USE_MEMORY, pdata = rest, plen = length rest\<rparr>, a', []), False)"
    using get size avail alloc a' assms(4) by (simp add: avtab_read_def)
  let ?out = "\<lparr>ptype = PF_USE_MEMORY, pdata = le_bytes 4 ?n @ ?bytes, plen = n - 4 - length ?bytes\<rparr>"
  show ?thesis
  proof (intro exI conjI)
    show "avtab_write vers True False a \<lparr>ptype = PF_USE_MEMORY, pdata = [], plen = n\<rparr> = Inr ?out"
      by (rule wr)
    show "avtab_read a0 \<lparr>ptype = PF_USE_MEMORY, pdata = pdata ?out @ rest,
        plen = length (pdata ?out @ rest)\<rparr> vers False [] =
      (Inr (\<lparr>ptype = PF_USE_MEMORY, pdata = rest, plen = length rest\<rparr>, a', []), False)"
      using rd by simp
    show "\<forall>key. popcount (key_spec key) = 1 \<and> key_spec key AND AVTAB_XPERMS = 0 \<longrightarrow>
        avtab_search a' key = avtab_search a key"
      using unique_search [OF assms(1) wf ms assms(2)] by blast
  qed (fact wf ms)+
qed

theorem avtab_write_read_witness:
  "\<exists>fp a'. avtab_write 33 True False
      \<lparr>avtable = Some [[(\<lparr>source_type = 1, target_type = 2, target_class = 3, specified = AVTAB_ALLOWED\<rparr>,
        \<lparr>data = 5, xperms = None\<rparr>)]], avnel = 1, nslot = 1, avmask = 0\<rparr>
      \<lparr>ptype = PF_USE_MEMORY, pdata = [], plen = 100\<rparr> = Inr fp \<and>
    avtab_read \<lparr>avtable = None, avnel = 0, nslot = 0, avmask = 0\<rparr>
      \<lparr>ptype = PF_USE_MEMORY, pdata = pdata fp @ [], plen = length (pdata fp @ [])\<rparr> 33 False [] =
        (Inr (\<lparr>ptype = PF_USE_MEMORY, pdata = [], plen = length ([] :: u8 list)\<rparr>, a', []), False)"
proof -
  let ?r = "(\<lparr>source_type = 1, target_type = 2, target_class = 3, specified = AVTAB_ALLOWED\<rparr>,
    \<lparr>data = 5, xperms = None\<rparr>)"
  let ?a = "\<lparr>avtable = Some [[?r]], avnel = 1, nslot = 1, avmask = 0\<rparr>"
  have wf: "avtab_wf ?a" by (simp add: avtab_wf_def avtab_hash_def Let_def)
  have nodes: "avtab_nodes ?a = [?r]" by (simp add: avtab_nodes_def)
  have "[0..<16] = [0, 1, 2, 3, 4, 5, 6, 7, 8, 9, 10, 11, 12, 13, 14, 15 :: nat]"
    by (simp add: upt_rec)
  then have "popcount (key_spec (fst ?r)) = 1" by (simp add: popcount_def key_spec_def)
  then have ok: "rules_ok 33 (mset (avtab_nodes ?a))"
    unfolding nodes by (simp add: rules_ok_def valid_rule_def)
  have bytes: "4 + length (concat (map rule_bytes (avtab_nodes ?a))) \<le> 100"
    unfolding nodes by (simp add: rule_bytes_def)
  from avtab_write_read [OF wf ok, of "\<lparr>avtable = None, avnel = 0, nslot = 0, avmask = 0\<rparr>" 100 "[]"] bytes
  show ?thesis by (auto simp: nodes)
qed

end
