(* ===== verification/Mls_Types.thy ===== *)
theory Mls_Types
  imports Ebitmap_Ranges
begin

text \<open>
  Multi-level security levels and ranges (\<open>mls_types.h\<close>): dominance of levels, containment and
  combination of ranges. The array \<open>level[2]\<close> of a range is the pair of fields \<open>low\<close> and
  \<open>high\<close>. A function that fills a structure through a pointer returns the structure; when it
  fails the callers destroy the structure, so an error carries none.
\<close>

section \<open>Data and operations\<close>

record mls_level =
  sens :: u32
  cat :: ebitmap

record mls_range =
  low :: mls_level
  high :: mls_level

definition mls_level_init :: mls_level where
  "mls_level_init = \<lparr>sens = 0, cat = ebitmap_init\<rparr>"

definition mls_level_destroy :: "mls_level \<Rightarrow> mls_level" where
  "mls_level_destroy level = mls_level_init"

definition mls_level_cpy :: "mls_level \<Rightarrow> heap \<Rightarrow> (mls_level \<times> heap) result" where
  "mls_level_cpy src h = catch_res FAIL (bind_res (ebitmap_cpy (cat src) h) (\<lambda>(c, h).
     Inr (\<lparr>sens = sens src, cat = c\<rparr>, h)))"

definition mls_level_eq :: "mls_level \<Rightarrow> mls_level \<Rightarrow> bool" where
  "mls_level_eq l1 l2 \<longleftrightarrow> sens l1 = sens l2 \<and> ebitmap_cmp (cat l1) (cat l2)"

definition mls_level_dom :: "mls_level \<Rightarrow> mls_level \<Rightarrow> bool" where
  "mls_level_dom l1 l2 \<longleftrightarrow> sens l1 \<ge> sens l2 \<and> ebitmap_contains (cat l1) (cat l2)"

definition mls_level_incomp :: "mls_level \<Rightarrow> mls_level \<Rightarrow> bool" where
  "mls_level_incomp l1 l2 \<longleftrightarrow> \<not> mls_level_dom l1 l2 \<and> \<not> mls_level_dom l2 l1"

definition mls_level_between :: "mls_level \<Rightarrow> mls_level \<Rightarrow> mls_level \<Rightarrow> bool" where
  "mls_level_between l1 l2 l3 \<longleftrightarrow> mls_level_dom l1 l2 \<and> mls_level_dom l3 l1"

definition mls_range_contains :: "mls_range \<Rightarrow> mls_range \<Rightarrow> bool" where
  "mls_range_contains r1 r2 \<longleftrightarrow>
     mls_level_dom (low r2) (low r1) \<and> mls_level_dom (high r1) (high r2)"

definition mls_range_cpy :: "mls_range \<Rightarrow> heap \<Rightarrow> (mls_range \<times> heap) result" where
  "mls_range_cpy src h = bind_res (mls_level_cpy (low src) h) (\<lambda>(l, h).
     bind_res (mls_level_cpy (high src) h) (\<lambda>(u, h). Inr (\<lparr>low = l, high = u\<rparr>, h)))"

definition mls_range_init :: mls_range where
  "mls_range_init = \<lparr>low = mls_level_init, high = mls_level_init\<rparr>"

definition mls_range_destroy :: "mls_range \<Rightarrow> mls_range" where
  "mls_range_destroy r = \<lparr>low = mls_level_destroy (low r), high = mls_level_destroy (high r)\<rparr>"

definition mls_range_eq :: "mls_range \<Rightarrow> mls_range \<Rightarrow> bool" where
  "mls_range_eq r1 r2 \<longleftrightarrow> mls_level_eq (low r1) (low r2) \<and> mls_level_eq (high r1) (high r2)"

definition mls_range_glblub :: "mls_range \<Rightarrow> mls_range \<Rightarrow> heap \<Rightarrow> (mls_range \<times> heap) result" where
  "mls_range_glblub r1 r2 h =
     (if sens (high r1) < sens (low r2) \<or> sens (high r2) < sens (low r1) then Inl EINVAL
      else bind_res (catch_res FAIL (ebitmap_and (cat (low r1)) (cat (low r2)) h)) (\<lambda>(cl, h).
        bind_res (catch_res FAIL (ebitmap_and (cat (high r1)) (cat (high r2)) h)) (\<lambda>(cu, h).
        Inr (\<lparr>low = \<lparr>sens = max (sens (low r1)) (sens (low r2)), cat = cl\<rparr>,
          high = \<lparr>sens = min (sens (high r1)) (sens (high r2)), cat = cu\<rparr>\<rparr>, h))))"

section \<open>Interface: dominance\<close>

text \<open>
  What the MLS code relies on of levels: \<open>dom\<close> is a partial order on the levels that occur,
  up to the equality \<open>eq\<close>. Ranges are pairs of a low and a high level.
\<close>

locale dominance =
  fixes ok :: "'l \<Rightarrow> bool" and eq :: "'l \<Rightarrow> 'l \<Rightarrow> bool" and dom :: "'l \<Rightarrow> 'l \<Rightarrow> bool"
  assumes dom_refl: "ok a \<Longrightarrow> dom a a"
    and dom_trans: "\<lbrakk>ok a; ok b; ok c; dom a b; dom b c\<rbrakk> \<Longrightarrow> dom a c"
    and dom_antisym: "\<lbrakk>ok a; ok b; dom a b; dom b a\<rbrakk> \<Longrightarrow> eq a b"
    and eq_dom: "\<lbrakk>ok a; ok b; eq a b\<rbrakk> \<Longrightarrow> dom a b \<and> dom b a"
begin

text \<open>A range \<open>(l, u)\<close> contains \<open>(l', u')\<close>.\<close>

lemma contains_trans:
  assumes "ok l1" "ok l2" "ok l3" "ok u1" "ok u2" "ok u3"
    and "dom l2 l1 \<and> dom u1 u2" and "dom l3 l2 \<and> dom u2 u3"
  shows "dom l3 l1 \<and> dom u1 u3"
  using assms dom_trans by blast

lemma contains_antisym:
  assumes "ok l1" "ok l2" "ok u1" "ok u2" and "dom l2 l1 \<and> dom u1 u2" and "dom l1 l2 \<and> dom u2 u1"
  shows "eq l1 l2 \<and> eq u1 u2"
  using assms dom_antisym by blast

lemma contained_valid:
  assumes "ok l1" "ok l2" "ok u1" "ok u2" and "dom u2 l2" and "dom l2 l1 \<and> dom u1 u2"
  shows "dom u1 l1"
  using assms by (meson dom_trans)

end

section \<open>Levels are ordered by dominance\<close>

definition level_wf :: "mls_level \<Rightarrow> bool" where
  "level_wf l \<longleftrightarrow> ebitmap_wf (cat l)"

definition level_abs :: "mls_level \<Rightarrow> nat \<times> nat set" where
  "level_abs l = (unat (sens l), ebitmap_set (cat l))"

definition range_wf :: "mls_range \<Rightarrow> bool" where
  "range_wf r \<longleftrightarrow> level_wf (low r) \<and> level_wf (high r)"

definition valid_range :: "mls_range \<Rightarrow> bool" where
  "valid_range r \<longleftrightarrow> range_wf r \<and> mls_level_dom (high r) (low r)"

lemma level_init_wf [simp]: "level_wf mls_level_init"
  by (simp add: level_wf_def mls_level_init_def sample_wf)

lemma mls_level_eq_abs:
  "level_wf a \<Longrightarrow> level_wf b \<Longrightarrow> mls_level_eq a b \<longleftrightarrow> level_abs a = level_abs b"
  by (simp add: mls_level_eq_def level_abs_def level_wf_def ebitmap_cmp_correct)

lemma mls_level_dom_abs:
  "level_wf a \<Longrightarrow> level_wf b \<Longrightarrow> mls_level_dom a b \<longleftrightarrow>
     fst (level_abs b) \<le> fst (level_abs a) \<and> snd (level_abs b) \<subseteq> snd (level_abs a)"
  by (simp add: mls_level_dom_def level_abs_def level_wf_def ebitmap_contains_correct
      word_le_nat_alt)

interpretation lvl: dominance level_wf mls_level_eq mls_level_dom
  by unfold_locales (auto simp: mls_level_eq_abs mls_level_dom_abs prod_eq_iff)

section \<open>Copies and combination\<close>

lemma mls_level_cpy_correct:
  "outcome h (mls_level_cpy src h) (\<lambda>e. e = FAIL \<and> \<not> mem_ok h) (\<lambda>l. l = src)"
  unfolding mls_level_cpy_def
  by (rule outcome_catch [where E = no_err], rule outcome_bind [OF ebitmap_cpy_correct]) simp_all

lemma mls_range_cpy_correct:
  "outcome h (mls_range_cpy src h) (\<lambda>e. e = FAIL \<and> \<not> mem_ok h) (\<lambda>r. r = src)"
  unfolding mls_range_cpy_def
proof (rule outcome_step [OF mls_level_cpy_correct])
  fix l h'
  assume l: "l = low src" and m: "mem_ok h \<longrightarrow> mem_ok h'"
  show "outcome h' (case (l, h') of (l, h) \<Rightarrow>
      bind_res (mls_level_cpy (high src) h) (\<lambda>(u, h). Inr (\<lparr>low = l, high = u\<rparr>, h)))
      (\<lambda>e. e = FAIL \<and> \<not> mem_ok h) (\<lambda>r. r = src)"
    unfolding prod.case
    by (rule outcome_step [OF mls_level_cpy_correct]) (use m l in auto)
qed simp

lemma glblub_correct:
  assumes "range_wf r1" and "range_wf r2"
  shows "outcome h (mls_range_glblub r1 r2 h)
    (\<lambda>e. e = EINVAL \<and> (sens (high r1) < sens (low r2) \<or> sens (high r2) < sens (low r1)) \<or>
      e = FAIL \<and> \<not> mem_ok h)
    (\<lambda>r. range_wf r \<and> \<not> sens (high r1) < sens (low r2) \<and> \<not> sens (high r2) < sens (low r1) \<and>
      sens (low r) = max (sens (low r1)) (sens (low r2)) \<and>
      sens (high r) = min (sens (high r1)) (sens (high r2)) \<and>
      ebitmap_set (cat (low r)) = ebitmap_set (cat (low r1)) \<inter> ebitmap_set (cat (low r2)) \<and>
      ebitmap_set (cat (high r)) = ebitmap_set (cat (high r1)) \<inter> ebitmap_set (cat (high r2)))"
  (is "outcome h _ ?E ?P")
proof (cases "sens (high r1) < sens (low r2) \<or> sens (high r2) < sens (low r1)")
  case True
  then show ?thesis by (simp add: mls_range_glblub_def)
next
  case False
  have wf: "ebitmap_wf (cat (low r1))" "ebitmap_wf (cat (low r2))" "ebitmap_wf (cat (high r1))"
      "ebitmap_wf (cat (high r2))"
    using assms by (simp_all add: range_wf_def level_wf_def)
  have and_low: "outcome h (catch_res FAIL (ebitmap_and (cat (low r1)) (cat (low r2)) h))
      (\<lambda>e. e = FAIL \<and> \<not> mem_ok h) (\<lambda>e. ebitmap_wf e \<and>
        ebitmap_set e = ebitmap_set (cat (low r1)) \<inter> ebitmap_set (cat (low r2)))"
    by (rule outcome_catch [OF ebitmap_and_correct [OF wf(1, 2)]]) simp_all
  have and_high: "outcome h' (catch_res FAIL (ebitmap_and (cat (high r1)) (cat (high r2)) h'))
      (\<lambda>e. e = FAIL \<and> \<not> mem_ok h') (\<lambda>e. ebitmap_wf e \<and>
        ebitmap_set e = ebitmap_set (cat (high r1)) \<inter> ebitmap_set (cat (high r2)))" for h'
    by (rule outcome_catch [OF ebitmap_and_correct [OF wf(3, 4)]]) simp_all
  show ?thesis
    unfolding mls_range_glblub_def if_not_P [OF False]
  proof (rule outcome_step [OF and_low])
    fix cl h'
    assume cl: "ebitmap_wf cl \<and> ebitmap_set cl = ebitmap_set (cat (low r1)) \<inter> ebitmap_set (cat (low r2))"
      and m: "mem_ok h \<longrightarrow> mem_ok h'"
    show "outcome h' (case (cl, h') of (cl, h) \<Rightarrow>
        bind_res (catch_res FAIL (ebitmap_and (cat (high r1)) (cat (high r2)) h)) (\<lambda>(cu, h).
        Inr (\<lparr>low = \<lparr>sens = max (sens (low r1)) (sens (low r2)), cat = cl\<rparr>,
          high = \<lparr>sens = min (sens (high r1)) (sens (high r2)), cat = cu\<rparr>\<rparr>, h))) ?E ?P"
      unfolding prod.case
      by (rule outcome_step [OF and_high]) (use False cl m in \<open>auto simp: range_wf_def level_wf_def\<close>)
  qed simp
qed

lemma glblub_valid:
  assumes "valid_range r1" and "valid_range r2"
  shows "outcome h (mls_range_glblub r1 r2 h)
    (\<lambda>e. e = EINVAL \<and> (sens (high r1) < sens (low r2) \<or> sens (high r2) < sens (low r1)) \<or>
      e = FAIL \<and> \<not> mem_ok h)
    (\<lambda>r. valid_range r \<and>
      sens (low r) = max (sens (low r1)) (sens (low r2)) \<and>
      sens (high r) = min (sens (high r1)) (sens (high r2)) \<and>
      ebitmap_set (cat (low r)) = ebitmap_set (cat (low r1)) \<inter> ebitmap_set (cat (low r2)) \<and>
      ebitmap_set (cat (high r)) = ebitmap_set (cat (high r1)) \<inter> ebitmap_set (cat (high r2)))"
proof -
  have wf: "range_wf r1" "range_wf r2" using assms by (simp_all add: valid_range_def)
  have lows: "sens (low r1) \<le> sens (high r1)" "sens (low r2) \<le> sens (high r2)"
    and cats: "ebitmap_set (cat (low r1)) \<subseteq> ebitmap_set (cat (high r1))"
      "ebitmap_set (cat (low r2)) \<subseteq> ebitmap_set (cat (high r2))"
    using assms by (auto simp: valid_range_def mls_level_dom_def range_wf_def level_wf_def
        ebitmap_contains_correct)
  show ?thesis
  proof (rule outcome_mono [OF glblub_correct [OF wf]], goal_cases)
    case (1 r)
    then have "sens (low r) \<le> sens (high r)" using lows by (auto simp: max_def min_def not_less)
    with 1 cats have "mls_level_dom (high r) (low r)"
      by (auto simp: mls_level_dom_abs range_wf_def level_abs_def word_le_nat_alt)
    with 1 show ?case by (simp add: valid_range_def)
  qed
qed

section \<open>Properties\<close>

text \<open>
  Combination of ranges. On two valid ranges (the high level dominates the low one)
  \<open>mls_range_glblub\<close> fails with \<open>EINVAL\<close> exactly when they have no sensitivity in common, and
  otherwise, memory permitting, returns a valid range: the greater of the low and the
  lesser of the high sensitivities with the common categories of the low and of the high levels.
\<close>

theorem mls_range_glblub_valid:
  assumes "valid_range r1" and "valid_range r2"
  shows "outcome h (mls_range_glblub r1 r2 h)
    (\<lambda>e. e = EINVAL \<and> (\<nexists>s. sens (low r1) \<le> s \<and> s \<le> sens (high r1) \<and>
        sens (low r2) \<le> s \<and> s \<le> sens (high r2)) \<or> e = FAIL \<and> \<not> mem_ok h)
    (\<lambda>r. valid_range r \<and>
      sens (low r) = max (sens (low r1)) (sens (low r2)) \<and>
      sens (high r) = min (sens (high r1)) (sens (high r2)) \<and>
      ebitmap_set (cat (low r)) = ebitmap_set (cat (low r1)) \<inter> ebitmap_set (cat (low r2)) \<and>
      ebitmap_set (cat (high r)) = ebitmap_set (cat (high r1)) \<inter> ebitmap_set (cat (high r2)))"
  by (rule outcome_mono [OF glblub_valid [OF assms]]) (simp, meson leD le_less_trans order.trans)

theorem mls_range_glblub_valid_witness:
  "outcome [] (mls_range_glblub
      \<lparr>low = \<lparr>sens = 1, cat = ebitmap_init\<rparr>, high = \<lparr>sens = 3, cat = ebitmap_init\<rparr>\<rparr>
      \<lparr>low = \<lparr>sens = 2, cat = ebitmap_init\<rparr>, high = \<lparr>sens = 5, cat = ebitmap_init\<rparr>\<rparr> []) no_err
    (\<lambda>r. valid_range r \<and> sens (low r) = 2 \<and> sens (high r) = 3)"
  by (rule outcome_mono [OF mls_range_glblub_valid])
    (auto simp: valid_range_def range_wf_def level_wf_def mls_level_dom_def sample_wf
      ebitmap_contains_correct intro!: exI [of _ 2])

end
