(* ===== verification/Context.thy ===== *)
theory Context
  imports Mls_Types
begin

text \<open>
  Security contexts (\<open>policydb/context.h\<close>): initialisation, copies and comparison. As for the MLS
  types, an operation that fills \<open>dst\<close> returns it, and an error carries none, because every
  caller destroys the context then. The functions that set only the range of \<open>dst\<close> take it
  as an argument.
\<close>

record context_struct =
  cuser :: u32
  crole :: u32
  ctype :: u32
  crange :: mls_range

definition mls_context_init :: "context_struct \<Rightarrow> context_struct" where
  "mls_context_init c = c\<lparr>crange := mls_range_init\<rparr>"

definition mls_context_cpy ::
  "context_struct \<Rightarrow> context_struct \<Rightarrow> heap \<Rightarrow> (context_struct \<times> heap) result" where
  "mls_context_cpy dst src h = bind_res (mls_range_cpy (crange src) h) (\<lambda>(r, h).
     Inr (dst\<lparr>crange := r\<rparr>, h))"

definition mls_context_cpy_low ::
  "context_struct \<Rightarrow> context_struct \<Rightarrow> heap \<Rightarrow> (context_struct \<times> heap) result" where
  "mls_context_cpy_low dst src h =
     bind_res (ebitmap_cpy (cat (low (crange src))) h) (\<lambda>(c0, h).
     bind_res (ebitmap_cpy (cat (low (crange src))) h) (\<lambda>(c1, h).
     Inr (dst\<lparr>crange := \<lparr>low = \<lparr>sens = sens (low (crange src)), cat = c0\<rparr>,
       high = \<lparr>sens = sens (low (crange src)), cat = c1\<rparr>\<rparr>\<rparr>, h)))"

definition mls_context_cpy_high ::
  "context_struct \<Rightarrow> context_struct \<Rightarrow> heap \<Rightarrow> (context_struct \<times> heap) result" where
  "mls_context_cpy_high dst src h =
     bind_res (ebitmap_cpy (cat (high (crange src))) h) (\<lambda>(c0, h).
     bind_res (ebitmap_cpy (cat (high (crange src))) h) (\<lambda>(c1, h).
     Inr (dst\<lparr>crange := \<lparr>low = \<lparr>sens = sens (high (crange src)), cat = c0\<rparr>,
       high = \<lparr>sens = sens (high (crange src)), cat = c1\<rparr>\<rparr>\<rparr>, h)))"

definition mls_context_glblub ::
  "context_struct \<Rightarrow> context_struct \<Rightarrow> context_struct \<Rightarrow> heap \<Rightarrow> (context_struct \<times> heap) result" where
  "mls_context_glblub dst c1 c2 h = bind_res (mls_range_glblub (crange c1) (crange c2) h) (\<lambda>(r, h).
     Inr (dst\<lparr>crange := r\<rparr>, h))"

definition mls_context_cmp :: "context_struct \<Rightarrow> context_struct \<Rightarrow> bool" where
  "mls_context_cmp c1 c2 \<longleftrightarrow> mls_level_eq (low (crange c1)) (low (crange c2)) \<and>
     mls_level_eq (high (crange c1)) (high (crange c2))"

definition mls_context_destroy :: "context_struct \<Rightarrow> context_struct" where
  "mls_context_destroy c = mls_context_init (c\<lparr>crange := mls_range_destroy (crange c)\<rparr>)"

definition context_init :: context_struct where
  "context_init = \<lparr>cuser = 0, crole = 0, ctype = 0, crange = mls_range_init\<rparr>"

definition context_cpy :: "context_struct \<Rightarrow> heap \<Rightarrow> (context_struct \<times> heap) result" where
  "context_cpy src h = mls_context_cpy
     \<lparr>cuser = cuser src, crole = crole src, ctype = ctype src, crange = mls_range_init\<rparr> src h"

definition context_destroy :: "context_struct \<Rightarrow> context_struct" where
  "context_destroy c = mls_context_destroy (c\<lparr>cuser := 0, crole := 0, ctype := 0\<rparr>)"

definition context_cmp :: "context_struct \<Rightarrow> context_struct \<Rightarrow> bool" where
  "context_cmp c1 c2 \<longleftrightarrow> cuser c1 = cuser c2 \<and> crole c1 = crole c2 \<and> ctype c1 = ctype c2 \<and>
     mls_context_cmp c1 c2"

definition context_wf :: "context_struct \<Rightarrow> bool" where
  "context_wf c \<longleftrightarrow> range_wf (crange c)"

lemma context_init_wf [simp]: "context_wf context_init"
  by (simp add: context_wf_def context_init_def range_wf_def mls_range_init_def)

lemma context_cpy_correct:
  "outcome h (context_cpy src h) (\<lambda>e. e = FAIL \<and> \<not> mem_ok h) (\<lambda>c. c = src)"
  unfolding context_cpy_def mls_context_cpy_def
  by (rule outcome_step [OF mls_range_cpy_correct]) auto

lemma mls_context_cpy_correct:
  "outcome h (mls_context_cpy dst src h) (\<lambda>e. e = FAIL \<and> \<not> mem_ok h)
    (\<lambda>c. c = dst\<lparr>crange := crange src\<rparr>)"
  unfolding mls_context_cpy_def
  by (rule outcome_step [OF mls_range_cpy_correct]) auto

lemma mls_context_cpy_low_correct:
  "outcome h (mls_context_cpy_low dst src h) no_err
    (\<lambda>c. c = dst\<lparr>crange := \<lparr>low = low (crange src), high = low (crange src)\<rparr>\<rparr>)"
  unfolding mls_context_cpy_low_def
  by (rule outcome_bind [OF ebitmap_cpy_correct], simp, rule outcome_bind [OF ebitmap_cpy_correct]) auto

lemma mls_context_cpy_high_correct:
  "outcome h (mls_context_cpy_high dst src h) no_err
    (\<lambda>c. c = dst\<lparr>crange := \<lparr>low = high (crange src), high = high (crange src)\<rparr>\<rparr>)"
  unfolding mls_context_cpy_high_def
  by (rule outcome_bind [OF ebitmap_cpy_correct], simp, rule outcome_bind [OF ebitmap_cpy_correct]) auto

lemma context_cmp_refl: "context_wf c \<Longrightarrow> context_cmp c c"
  by (simp add: context_cmp_def mls_context_cmp_def context_wf_def range_wf_def mls_level_eq_abs)

text \<open>Contexts up to the layout of their bitmaps.\<close>

definition context_abs :: "context_struct \<Rightarrow> u32 \<times> u32 \<times> u32 \<times> (nat \<times> nat set) \<times> (nat \<times> nat set)" where
  "context_abs c = (cuser c, crole c, ctype c, level_abs (low (crange c)), level_abs (high (crange c)))"

lemma context_cmp_abs:
  "context_wf c1 \<Longrightarrow> context_wf c2 \<Longrightarrow> context_cmp c1 c2 \<longleftrightarrow> context_abs c1 = context_abs c2"
  by (auto simp: context_cmp_def mls_context_cmp_def context_wf_def range_wf_def mls_level_eq_abs
      context_abs_def)

end
