(* ===== verification/Policydb.thy ===== *)
theory Policydb
  imports Symtab Avtab Context
begin

text \<open>
  The policy database of \<open>policydb.h\<close>: the datum types of its symbol tables and the record
  \<open>policydb\<close>, with the fields that the modelled functions use. Left out are source lines and file names
  and the pointers that only the linker uses.

  Arrays indexed by value are lists; a slot may be \<open>NULL\<close>. Reading outside an array is undefined
  in C, and the theorems assume well-formed databases where that matters. The \<open>*_val_to_struct\<close>
  arrays point to the datums that the symbol tables hold; the only one that is changed
  through such a pointer is the state of a boolean, which is kept in \<open>bool_val_to_struct\<close>. An
  entry of an \<open>ocontexts\<close> list is a record over the member of the union that its list uses.
  A pointer to a node of \<open>te_cond_avtab\<close> is the pair of its slot and its position in the chain.
\<close>

section \<open>Source form of sets and rules\<close>

text \<open>
  The compiler's form of a set of types, roles or levels, before attributes are expanded. Lists of rules
  in this form hang below the conditionals; they are empty in a kernel policy.
\<close>

record type_set =
  ts_types :: ebitmap
  negset :: ebitmap
  ts_flags :: u32

record role_set =
  rs_roles :: ebitmap
  rs_flags :: u32

record mls_semantic_cat =
  cat_low :: u32
  cat_high :: u32

record mls_semantic_level =
  ssens :: u32
  scats :: "mls_semantic_cat list"

record mls_semantic_range =
  slow :: mls_semantic_level
  shigh :: mls_semantic_level

record class_perm_node =
  cp_class :: u32  \<comment> \<open>\<open>tclass\<close>\<close>
  cp_data :: u32

record av_extended_perms =
  ax_specified :: u8
  ax_driver :: u8
  ax_perms :: "u32 list"

record avrule =
  ar_specified :: u32
  ar_flags :: u32
  stypes :: type_set
  ttypes :: type_set
  ar_perms :: "class_perm_node list"
  ar_xperms :: "av_extended_perms option"

definition type_set_init :: type_set where
  "type_set_init = \<lparr>ts_types = ebitmap_init, negset = ebitmap_init, ts_flags = 0\<rparr>"

section \<open>Constraints\<close>

record constraint_expr =
  expr_type :: u32
  cattr :: u32
  cop :: u32
  cnames :: ebitmap
  type_names :: type_set

record constraint_node =
  permissions :: u32
  cnode_expr :: "constraint_expr list"

section \<open>Datums\<close>

record perm_datum =
  perm_value :: u32

record common_datum =
  common_value :: u32
  common_permissions :: "perm_datum symtab"

record class_datum =
  class_value :: u32
  comdatum :: "common_datum option"
  class_permissions :: "perm_datum symtab"
  constraints :: "constraint_node list"
  validatetrans :: "constraint_node list"
  default_user :: u8
  default_role :: u8
  default_type :: u8
  default_range :: u8

record role_datum =
  role_value :: u32
  dominates :: ebitmap
  role_types :: ebitmap  \<comment> \<open>\<open>types.types\<close>\<close>
  role_cache :: ebitmap
  role_bounds :: u32
  role_negset :: ebitmap  \<comment> \<open>\<open>types.negset\<close>\<close>
  role_tflags :: u32  \<comment> \<open>\<open>types.flags\<close>\<close>
  role_flavor :: u32
  role_roles :: ebitmap

record type_datum =
  type_value :: u32
  flavor :: u32
  type_bounds :: u32
  primary :: u32
  attr_types :: ebitmap  \<comment> \<open>\<open>types\<close>\<close>
  type_flags :: u32

record user_datum =
  user_value :: u32
  user_roles :: ebitmap  \<comment> \<open>\<open>roles.roles\<close>\<close>
  user_cache :: ebitmap
  exp_range :: mls_range
  exp_dfltlevel :: mls_level
  user_bounds :: u32
  user_rflags :: u32  \<comment> \<open>\<open>roles.flags\<close>\<close>
  sem_range :: mls_semantic_range
  sem_dfltlevel :: mls_semantic_level

record level_datum =
  level_of :: mls_level
  level_isalias :: bool
  notdefined :: u8

record cat_datum =
  cat_value :: u32
  cat_isalias :: bool

record cond_bool_datum =
  bool_value :: u32
  bstate :: int
  bflags :: u32

record role_trans =
  rtr_role :: u32
  rtr_type :: u32
  rtr_tclass :: u32
  new_role :: u32

record role_allow =
  ra_role :: u32
  ra_new_role :: u32

section \<open>Conditionals\<close>

type_synonym avtab_ptr = "nat \<times> nat"

record cond_expr =
  cexpr_type :: u32
  boolean :: u32

record cond_node =
  cur_state :: int
  cexpr :: "cond_expr list"
  true_list :: "avtab_ptr list"
  false_list :: "avtab_ptr list"
  nbools :: u32
  bool_ids :: "u32 list"
  expr_pre_comp :: u32
  cflags :: u32
  avtrue_list :: "avrule list"
  avfalse_list :: "avrule list"

section \<open>Object contexts\<close>

record 'u ocontext =
  ocon_u :: 'u
  ocon_v :: u32  \<comment> \<open>\<open>v.sclass\<close> or \<open>v.behavior\<close>\<close>
  context0 :: context_struct
  context1 :: context_struct
  sid0 :: u32
  sid1 :: u32

record port_u =
  protocol :: u8
  low_port :: u16
  high_port :: u16

record node_u =
  addr :: u32
  nmask :: u32

record node6_u =
  addr6 :: "u32 list"
  mask6 :: "u32 list"

record ibpkey_u =
  subnet_prefix :: u64
  low_pkey :: u16
  high_pkey :: u16

record ibendport_u =
  dev_name :: string
  ibport :: u8

record genfs =
  fstype :: string
  genfs_head :: "string ocontext list"

text \<open>The members of the union on the platform Xen; the lists of the other platform are empty.\<close>

record iomem_u =
  low_iomem :: u64
  high_iomem :: u64

record ioport_u =
  low_ioport :: u32
  high_ioport :: u32

section \<open>File name transitions and module rules\<close>

record filename_trans_datum =
  ft_stypes :: ebitmap
  otype :: u32

record role_trans_rule =
  rtx_roles :: role_set
  rtx_types :: type_set
  rtx_classes :: ebitmap
  rtx_new_role :: u32

record role_allow_rule =
  rax_roles :: role_set
  rax_new_roles :: role_set

record range_trans_rule =
  rgx_stypes :: type_set
  rgx_ttypes :: type_set
  rgx_tclasses :: ebitmap
  rgx_trange :: mls_semantic_range

record filename_trans_rule =
  fx_flags :: u32
  fx_name :: string
  fx_stypes :: type_set
  fx_ttypes :: type_set
  fx_tclass :: u32
  fx_otype :: u32

text \<open>The arrays of a scope index and of a declaration have one entry for each kind of symbol.\<close>

record scope_index =
  si_scope :: "ebitmap list"
  class_perms_map :: "ebitmap list"

text \<open>
  Of the datums in the symbol tables of a declaration only the first 32 bits are kept, which are \<open>s.value\<close>
  (for a sensitivity, whose datum starts with a pointer, they are part of the pointer).
\<close>

record avrule_decl =
  d_cond_list :: "cond_node list"
  d_avrules :: "avrule list"
  role_tr_rules :: "role_trans_rule list"
  role_allow_rules :: "role_allow_rule list"
  range_tr_rules :: "range_trans_rule list"
  required :: scope_index
  declared :: scope_index
  filename_trans_rules :: "filename_trans_rule list"
  d_symtab :: "u32 symtab list"
  decl_id :: u32
  decl_enabled :: u32  \<comment> \<open>\<open>enabled\<close>\<close>

text \<open>\<open>enabled\<close> of a block points to one of its declarations; here it is the position in \<open>branch_list\<close>.\<close>

record avrule_block =
  branch_list :: "avrule_decl list"
  block_enabled :: "nat option"  \<comment> \<open>\<open>enabled\<close>\<close>
  block_flags :: u32

record scope_datum =
  scope_kind :: u32  \<comment> \<open>\<open>scope\<close>\<close>
  decl_ids :: "u32 list"

section \<open>The database\<close>

record policydb =
  mls :: bool
  p_classes :: "class_datum symtab"
  p_roles :: "role_datum symtab"
  p_types :: "type_datum symtab"
  p_users :: "user_datum symtab"
  p_levels :: "level_datum symtab"
  p_cats :: "cat_datum symtab"
  p_class_val_to_name :: "string option list"
  p_role_val_to_name :: "string option list"
  p_type_val_to_name :: "string option list"
  p_user_val_to_name :: "string option list"
  p_sens_val_to_name :: "string option list"
  p_cat_val_to_name :: "string option list"
  class_val_to_struct :: "class_datum option list"
  role_val_to_struct :: "role_datum option list"
  user_val_to_struct :: "user_datum option list"
  type_val_to_struct :: "type_datum option list"
  te_avtab :: avtab
  bool_val_to_struct :: "cond_bool_datum option list"
  te_cond_avtab :: avtab
  cond_list :: "cond_node list"
  role_tr :: "role_trans list"
  role_allows :: "role_allow list"  \<comment> \<open>\<open>role_allow\<close>\<close>
  ocon_fs :: "string ocontext list"
  ocon_port :: "port_u ocontext list"
  ocon_netif :: "string ocontext list"
  ocon_node :: "node_u ocontext list"
  ocon_fsuse :: "string ocontext list"
  ocon_node6 :: "node6_u ocontext list"
  ocon_ibpkey :: "ibpkey_u ocontext list"
  ocon_ibendport :: "ibendport_u ocontext list"
  genfs_list :: "genfs list"  \<comment> \<open>\<open>genfs\<close>\<close>
  range_tr :: "(range_trans, mls_range) hashtab option"
  type_attr_map :: "ebitmap list"
  attr_type_map :: "ebitmap list"
  policy_type :: u32
  policyvers :: u32
  process_class :: u16
  dir_class :: u16
  process_trans :: u32
  process_trans_dyntrans :: u32
  target_platform :: int
  handle_unknown :: u32
  p_commons :: "common_datum symtab"
  p_bools :: "cond_bool_datum symtab"
  p_common_val_to_name :: "string option list"
  p_bool_val_to_name :: "string option list"
  p_scope :: "scope_datum symtab list"
  p_global :: "avrule_block list"
  filename_trans :: "(filename_trans_key, filename_trans_datum list) hashtab option"
  policycaps :: ebitmap
  permissive_map :: ebitmap
  ocon_isid :: "string ocontext list"
  ocon_pirq :: "u16 ocontext list"
  ocon_ioport :: "ioport_u ocontext list"
  ocon_iomem :: "iomem_u ocontext list"
  ocon_pcidevice :: "u32 ocontext list"
  ocon_devicetree :: "string ocontext list"
  android_extra :: u32
  filename_trans_count :: u32
  policy_name :: "string option"  \<comment> \<open>\<open>name\<close>\<close>
  policy_version :: "string option"  \<comment> \<open>\<open>version\<close>\<close>
  decl_val_to_struct :: "avrule_decl option list"

definition OBJECT_R_VAL :: u32 where "OBJECT_R_VAL = 1"

text \<open>\<open>array[value - 1]\<close> for an array of names or of datum pointers.\<close>

definition val_name :: "string option list \<Rightarrow> u32 \<Rightarrow> string option" where
  "val_name arr value = arr ! unat (value - 1)"

definition val_struct :: "'d option list \<Rightarrow> u32 \<Rightarrow> 'd option" where
  "val_struct arr value = arr ! unat (value - 1)"

end
