(* ===== verification/Conditional.thy ===== *)
theory Conditional
  imports Policydb
begin

text \<open>
  Conditional policy (\<open>conditional.c\<close>): evaluation, normalisation and comparison of the boolean
  expressions, the search for an existing conditional, enabling and disabling of conditional
  rules, and their contribution to an access decision.

  An expression is the list of its operators and operands in reverse Polish notation. The array
  \<open>s[]\<close> of the evaluator is a list with the top of the stack first, so \<open>sp = length - 1\<close> and
  \<open>s[0]\<close> is its last element; \<open>s[0]\<close> starts as -1, the value of an empty stack. A list of rules
  points into \<open>te_cond_avtab\<close>.
\<close>

unbundle bit_operations_syntax

section \<open>Evaluation\<close>

abbreviation COND_BOOL :: u32 where "COND_BOOL \<equiv> 1"
abbreviation COND_NOT :: u32 where "COND_NOT \<equiv> 2"
abbreviation COND_OR :: u32 where "COND_OR \<equiv> 3"
abbreviation COND_AND :: u32 where "COND_AND \<equiv> 4"
abbreviation COND_XOR :: u32 where "COND_XOR \<equiv> 5"
abbreviation COND_EQ :: u32 where "COND_EQ \<equiv> 6"
abbreviation COND_NEQ :: u32 where "COND_NEQ \<equiv> 7"
abbreviation COND_EXPR_MAXDEPTH :: nat where "COND_EXPR_MAXDEPTH \<equiv> 10"
abbreviation COND_MAX_BOOLS :: nat where "COND_MAX_BOOLS \<equiv> 5"

type_synonym bools = "cond_bool_datum option list"

definition bool_state :: "bools \<Rightarrow> u32 \<Rightarrow> int" where
  "bool_state bs b = bstate (the (val_struct bs b))"

definition cond_binop :: "u32 \<Rightarrow> (int \<Rightarrow> int \<Rightarrow> int) option" where
  "cond_binop ty =
     (if ty = COND_OR then Some (\<lambda>x y. x OR y)
      else if ty = COND_AND then Some (\<lambda>x y. x AND y)
      else if ty = COND_XOR then Some (\<lambda>x y. x XOR y)
      else if ty = COND_EQ then Some (\<lambda>x y. of_bool (x = y))
      else if ty = COND_NEQ then Some (\<lambda>x y. of_bool (x \<noteq> y))
      else None)"

fun cond_eval_loop :: "bools \<Rightarrow> cond_expr list \<Rightarrow> int list \<Rightarrow> int" where
  "cond_eval_loop bs [] s = (if s = [] then - 1 else last s)"
| "cond_eval_loop bs (cur # es) s =
     (if cexpr_type cur = COND_BOOL
      then (if length s = COND_EXPR_MAXDEPTH then - 1
        else cond_eval_loop bs es (bool_state bs (boolean cur) # s))
      else if cexpr_type cur = COND_NOT
      then (case s of [] \<Rightarrow> - 1 | x # s' \<Rightarrow> cond_eval_loop bs es (of_bool (x = 0) # s'))
      else case cond_binop (cexpr_type cur) of
        None \<Rightarrow> - 1
      | Some f \<Rightarrow> (case s of y # x # s' \<Rightarrow> cond_eval_loop bs es (f x y # s') | _ \<Rightarrow> - 1))"

definition cond_evaluate_expr :: "bools \<Rightarrow> cond_expr list \<Rightarrow> int" where
  "cond_evaluate_expr bs e = cond_eval_loop bs e []"

section \<open>Comparison, creation and search\<close>

definition bool_present :: "u32 \<Rightarrow> u32 list \<Rightarrow> u32 \<Rightarrow> bool" where
  "bool_present target bools num_bools \<longleftrightarrow>
     \<not> unat num_bools > COND_MAX_BOOLS \<and> target \<in> set (take (unat num_bools) bools)"

definition same_bools :: "cond_node \<Rightarrow> cond_node \<Rightarrow> bool" where
  "same_bools a b \<longleftrightarrow> nbools a = nbools b \<and>
     (\<forall>i < unat (nbools a). bool_present (bool_ids a ! i) (bool_ids b) (nbools a))"

fun exprs_equal :: "cond_expr list \<Rightarrow> cond_expr list \<Rightarrow> bool" where
  "exprs_equal [] [] = True"
| "exprs_equal (x # xs) (y # ys) =
     (if cexpr_type x \<noteq> cexpr_type y then False
      else if cexpr_type x = COND_BOOL \<and> boolean x \<noteq> boolean y then False
      else exprs_equal xs ys)"
| "exprs_equal _ _ = False"

definition cond_expr_equal :: "cond_node option \<Rightarrow> cond_node option \<Rightarrow> bool" where
  "cond_expr_equal ao bo = (case (ao, bo) of
       (Some a, Some b) \<Rightarrow>
         if nbools a \<noteq> nbools b then False
         else if unat (nbools a) \<le> COND_MAX_BOOLS \<and> unat (nbools b) \<le> COND_MAX_BOOLS
         then (if \<not> same_bools a b then False else expr_pre_comp a = expr_pre_comp b)
         else exprs_equal (cexpr a) (cexpr b)
     | _ \<Rightarrow> False)"

text \<open>\<open>NULL\<close>, here \<open>[]\<close>, is both the copy of an empty expression and the sign of failure.\<close>

fun cond_copy_expr :: "cond_expr list \<Rightarrow> heap \<Rightarrow> cond_expr list option \<times> heap" where
  "cond_copy_expr [] h = (Some [], h)"
| "cond_copy_expr (cur # es) h = (case malloc h of (ok, h) \<Rightarrow>
     if \<not> ok then (None, h)
     else case cond_copy_expr es h of
       (None, h) \<Rightarrow> (None, h)
     | (Some es, h) \<Rightarrow> (Some (cur # es), h))"

definition cond_node_create ::
  "bools \<Rightarrow> cond_node option \<Rightarrow> heap \<Rightarrow> cond_node option \<times> heap" where
  "cond_node_create bs src h = (case malloc h of (ok, h) \<Rightarrow>
     if \<not> ok then (None, h)
     else let new_node = \<lparr>cur_state = 0, cexpr = [], true_list = [], false_list = [], nbools = 0,
         bool_ids = replicate COND_MAX_BOOLS 0, expr_pre_comp = 0, cflags = 0, avtrue_list = [], avfalse_list = []\<rparr> in
       case src of
         None \<Rightarrow> (Some new_node, h)
       | Some n \<Rightarrow> (case cond_copy_expr (cexpr n) h of
           (None, h) \<Rightarrow> (None, h)
         | (Some e, h) \<Rightarrow>
             if e = [] then (None, h)
             else (Some (new_node\<lparr>cexpr := e, cur_state := cond_evaluate_expr bs e,
                 nbools := nbools n,
                 bool_ids := take (min (unat (nbools n)) COND_MAX_BOOLS) (bool_ids n) @
                   replicate (COND_MAX_BOOLS - min (unat (nbools n)) COND_MAX_BOOLS) 0,
                 expr_pre_comp := expr_pre_comp n, cflags := cflags n\<rparr>), h)))"

text \<open>
  The result of \<open>cond_node_find\<close>: the position of the matching node in the list, or the new node
  (\<open>*was_created = 1\<close>), which is \<open>NULL\<close> for want of memory.
\<close>

fun cond_haystack :: "cond_node \<Rightarrow> cond_node list \<Rightarrow> nat option" where
  "cond_haystack needle [] = None"
| "cond_haystack needle (n # ns) =
     (if cond_expr_equal (Some needle) (Some n) then Some 0
      else map_option Suc (cond_haystack needle ns))"

definition cond_node_find ::
  "bools \<Rightarrow> cond_node \<Rightarrow> cond_node list \<Rightarrow> heap \<Rightarrow> (nat + cond_node option) \<times> heap" where
  "cond_node_find bs needle haystack h = (case cond_haystack needle haystack of
       Some i \<Rightarrow> (Inl i, h)
     | None \<Rightarrow> apfst Inr (cond_node_create bs (Some needle) h))"

definition cond_node_search ::
  "policydb \<Rightarrow> cond_node list \<Rightarrow> cond_node \<Rightarrow> heap \<Rightarrow> (nat + cond_node option) \<times> policydb \<times> heap" where
  "cond_node_search p cl cn h = (case cond_node_find (bool_val_to_struct p) cn cl h of (r, h) \<Rightarrow>
     (case r of
        Inr (Some n) \<Rightarrow> (r, p\<lparr>cond_list := n # cond_list p\<rparr>, h)
      | _ \<Rightarrow> (r, p, h)))"

section \<open>Normalisation\<close>

fun collect_bools :: "cond_expr list \<Rightarrow> u32 list \<Rightarrow> u32 \<Rightarrow> u32 list \<times> u32" where
  "collect_bools [] ids n = (ids, n)"
| "collect_bools (e # es) ids n =
     (if cexpr_type e = COND_BOOL \<and> \<not> bool_present (boolean e) ids n
      then (if unat n < COND_MAX_BOOLS
        then collect_bools es (ids[unat n := boolean e]) (n + 1)
        else collect_bools es ids (n + 1))
      else collect_bools es ids n)"

definition set_bool :: "u32 \<Rightarrow> int \<Rightarrow> bools \<Rightarrow> bools" where
  "set_bool b st bs = bs[unat (b - 1) := map_option (\<lambda>d. d\<lparr>bstate := st\<rparr>) (val_struct bs b)]"

text \<open>Set the booleans of the expression from the bits of \<open>test\<close>.\<close>

definition set_bools :: "u32 list \<Rightarrow> nat \<Rightarrow> bools \<Rightarrow> bools" where
  "set_bools ids test bs =
     fold (\<lambda>j bs. set_bool (ids ! j) (of_bool (bit test j)) bs) [0..<length ids] bs"

fun precomp_loop :: "nat list \<Rightarrow> u32 list \<Rightarrow> cond_expr list \<Rightarrow> bools \<Rightarrow> u32 \<Rightarrow> u32 result \<times> bools" where
  "precomp_loop [] ids e bs pre = (Inr pre, bs)"
| "precomp_loop (test # ts) ids e bs pre =
     (let bs = set_bools ids test bs; k = cond_evaluate_expr bs e in
      if k = - 1 then (Inl FAIL, bs)
      else precomp_loop ts ids e bs (if k \<noteq> 0 then pre OR push_bit test 1 else pre))"

text \<open>An expression is never \<open>NULL\<close> here. The booleans are changed only while the table is filled.\<close>

definition cond_normalize_expr ::
  "bools \<Rightarrow> cond_node \<Rightarrow> unit result \<times> cond_node \<times> bools" where
  "cond_normalize_expr bs cn0 =
     (let cn = cn0\<lparr>nbools := 0, bool_ids := replicate COND_MAX_BOOLS 0, expr_pre_comp := 0\<rparr>;
          neg = (cexpr_type (last (cexpr cn)) = COND_NOT) in
      if neg \<and> length (cexpr cn) = 1 then (Inl FAIL, cn, bs)
      else let cn = (if neg then cn\<lparr>cexpr := butlast (cexpr cn), true_list := false_list cn,
              false_list := true_list cn, avtrue_list := avfalse_list cn, avfalse_list := avtrue_list cn\<rparr>
            else cn) in
        case collect_bools (cexpr cn) (bool_ids cn) 0 of (ids, n) \<Rightarrow>
        let cn = cn\<lparr>bool_ids := ids, nbools := n\<rparr> in
        if unat n \<le> COND_MAX_BOOLS
        then let used = take (unat n) ids; orig = map (bool_state bs) used in
          case precomp_loop [0..<2 ^ unat n] used (cexpr cn) bs 0 of
            (Inl e, bs) \<Rightarrow> (Inl e, cn, bs)
          | (Inr pre, bs) \<Rightarrow> (Inr (), cn\<lparr>expr_pre_comp := pre\<rparr>,
              fold (\<lambda>i bs. set_bool (used ! i) (orig ! i) bs) [0..<length used] bs)
        else (Inr (), cn, bs))"

section \<open>Lists of rules\<close>

definition ptr_node :: "avtab \<Rightarrow> avtab_ptr \<Rightarrow> avtab_node" where
  "ptr_node a ptr = the (avtable a) ! fst ptr ! snd ptr"

text \<open>Rules of type kind are moved to the front; \<open>pre\<close> is the part of the list from \<open>top\<close> to \<open>p\<close>.\<close>

fun optimize_loop :: "avtab \<Rightarrow> avtab_ptr list \<Rightarrow> avtab_ptr list \<Rightarrow> avtab_ptr list" where
  "optimize_loop a pre [] = pre"
| "optimize_loop a pre (cur # l) =
     (if specified (fst (ptr_node a cur)) AND AVTAB_TYPE \<noteq> 0 \<and> pre \<noteq> []
      then optimize_loop a (cur # pre) l
      else optimize_loop a (pre @ [cur]) l)"

definition cond_optimize :: "avtab \<Rightarrow> avtab_ptr list \<Rightarrow> avtab_ptr list" where
  "cond_optimize a l = optimize_loop a [] l"

definition cond_optimize_lists :: "avtab \<Rightarrow> cond_node list \<Rightarrow> cond_node list" where
  "cond_optimize_lists a cl = map (\<lambda>n. n\<lparr>true_list := cond_optimize a (true_list n),
     false_list := cond_optimize a (false_list n)\<rparr>) cl"

fun cond_av_list_search :: "avtab \<Rightarrow> avtab_key \<Rightarrow> avtab_ptr list \<Rightarrow> avtab_datum option" where
  "cond_av_list_search a key [] = None"
| "cond_av_list_search a key (cur # l) =
     (if key_same (fst (ptr_node a cur)) key then Some (snd (ptr_node a cur))
      else cond_av_list_search a key l)"

section \<open>Enabling rules\<close>

definition set_enabled :: "bool \<Rightarrow> avtab_ptr \<Rightarrow> avtab \<Rightarrow> avtab" where
  "set_enabled on ptr a = (case ptr of (i, j) \<Rightarrow>
     a\<lparr>avtable := map_option (\<lambda>t. t[i := (t ! i)[j := apfst (\<lambda>k. k\<lparr>specified :=
         (if on then specified k OR AVTAB_ENABLED else specified k AND NOT AVTAB_ENABLED)\<rparr>)
         (t ! i ! j)]]) (avtable a)\<rparr>)"

definition evaluate_cond_node :: "bools \<Rightarrow> cond_node \<Rightarrow> avtab \<Rightarrow> cond_node \<times> avtab" where
  "evaluate_cond_node bs nd a =
     (let new_state = cond_evaluate_expr bs (cexpr nd) in
      if new_state \<noteq> cur_state nd
      then (nd\<lparr>cur_state := new_state\<rparr>,
        fold (set_enabled (new_state = 0)) (false_list nd)
          (fold (set_enabled (\<not> new_state \<le> 0)) (true_list nd) a))
      else (nd, a))"

fun evaluate_conds_loop :: "bools \<Rightarrow> cond_node list \<Rightarrow> avtab \<Rightarrow> cond_node list \<times> avtab" where
  "evaluate_conds_loop bs [] a = ([], a)"
| "evaluate_conds_loop bs (cur # ns) a = (case evaluate_cond_node bs cur a of (cur, a) \<Rightarrow>
     apfst ((#) cur) (evaluate_conds_loop bs ns a))"

definition evaluate_conds :: "policydb \<Rightarrow> policydb" where
  "evaluate_conds p = (case evaluate_conds_loop (bool_val_to_struct p) (cond_list p) (te_cond_avtab p) of
     (cl, a) \<Rightarrow> p\<lparr>cond_list := cl, te_cond_avtab := a\<rparr>)"

section \<open>Access decisions\<close>

record sepol_av_decision =
  allowed :: u32
  decided :: u32
  auditallow :: u32
  auditdeny :: u32
  seqno :: u32

definition cond_node_av :: "avtab_node \<Rightarrow> sepol_av_decision \<Rightarrow> sepol_av_decision" where
  "cond_node_av n avd =
     (let sp = specified (fst n);
          avd = (if sp AND (AVTAB_ALLOWED OR AVTAB_ENABLED) = AVTAB_ALLOWED OR AVTAB_ENABLED
            then avd\<lparr>allowed := allowed avd OR data (snd n)\<rparr> else avd);
          avd = (if sp AND (AVTAB_AUDITDENY OR AVTAB_ENABLED) = AVTAB_AUDITDENY OR AVTAB_ENABLED
            then avd\<lparr>auditdeny := auditdeny avd AND data (snd n)\<rparr> else avd)
      in if sp AND (AVTAB_AUDITALLOW OR AVTAB_ENABLED) = AVTAB_AUDITALLOW OR AVTAB_ENABLED
         then avd\<lparr>auditallow := auditallow avd OR data (snd n)\<rparr> else avd)"

definition cond_compute_av :: "avtab \<Rightarrow> avtab_key \<Rightarrow> sepol_av_decision \<Rightarrow> sepol_av_decision" where
  "cond_compute_av ctab key avd =
     fold cond_node_av (avtab_node_loop (avtab_search_node ctab key) (ucast (specified key))) avd"

section \<open>The evaluator computes the value of a formula\<close>

text \<open>
  The expressions the compiler emits are the postfix forms of formulas. \<open>stack_need\<close> is the
  number of stack cells an evaluation uses.
\<close>

datatype cond_tree = Leaf u32 | Neg cond_tree | Bin u32 cond_tree cond_tree

fun tree_ok :: "cond_tree \<Rightarrow> bool" where
  "tree_ok (Leaf b) = True"
| "tree_ok (Neg t) = tree_ok t"
| "tree_ok (Bin ty t u) \<longleftrightarrow> ty \<noteq> COND_BOOL \<and> ty \<noteq> COND_NOT \<and> cond_binop ty \<noteq> None \<and> tree_ok t \<and> tree_ok u"

fun postfix :: "cond_tree \<Rightarrow> cond_expr list" where
  "postfix (Leaf b) = [\<lparr>cexpr_type = COND_BOOL, boolean = b\<rparr>]"
| "postfix (Neg t) = postfix t @ [\<lparr>cexpr_type = COND_NOT, boolean = 0\<rparr>]"
| "postfix (Bin ty t u) = postfix t @ postfix u @ [\<lparr>cexpr_type = ty, boolean = 0\<rparr>]"

fun stack_need :: "cond_tree \<Rightarrow> nat" where
  "stack_need (Leaf b) = 1"
| "stack_need (Neg t) = stack_need t"
| "stack_need (Bin ty t u) = max (stack_need t) (1 + stack_need u)"

fun tree_val :: "bools \<Rightarrow> cond_tree \<Rightarrow> int" where
  "tree_val bs (Leaf b) = bool_state bs b"
| "tree_val bs (Neg t) = of_bool (tree_val bs t = 0)"
| "tree_val bs (Bin ty t u) = the (cond_binop ty) (tree_val bs t) (tree_val bs u)"

lemma stack_need_pos: "0 < stack_need t"
  by (induction t) simp_all

lemma eval_postfix:
  assumes "tree_ok t" "length s \<le> COND_EXPR_MAXDEPTH"
  shows "cond_eval_loop bs (postfix t @ es) s =
    (if length s + stack_need t \<le> COND_EXPR_MAXDEPTH then cond_eval_loop bs es (tree_val bs t # s)
     else - 1)"
  using assms
proof (induction t arbitrary: es s)
  case (Leaf b)
  then show ?case by auto
next
  case (Neg t)
  then show ?case by simp
next
  case (Bin ty t u)
  then obtain f where f: "cond_binop ty = Some f" by auto
  have t: "cond_eval_loop bs (postfix (Bin ty t u) @ es) s =
    (if length s + stack_need t \<le> COND_EXPR_MAXDEPTH
     then cond_eval_loop bs (postfix u @ \<lparr>cexpr_type = ty, boolean = 0\<rparr> # es) (tree_val bs t # s)
     else - 1)"
    using Bin.IH(1) [of s "postfix u @ \<lparr>cexpr_type = ty, boolean = 0\<rparr> # es"] Bin.prems by simp
  show ?case
  proof (cases "length s + stack_need t \<le> COND_EXPR_MAXDEPTH")
    case True
    then have "length (tree_val bs t # s) \<le> COND_EXPR_MAXDEPTH"
      using stack_need_pos [of t] by simp
    then show ?thesis
      using t True f Bin.prems
        nat_add_max_right [of "length s" "stack_need t" "Suc (stack_need u)"]
        Bin.IH(2) [of "tree_val bs t # s" "\<lparr>cexpr_type = ty, boolean = 0\<rparr> # es"]
      by simp
  qed (use t nat_add_max_right [of "length s" "stack_need t" "Suc (stack_need u)"] in simp)
qed

definition bools_01 :: "bools \<Rightarrow> bool" where
  "bools_01 bs \<longleftrightarrow> (\<forall>d \<in> set bs. case d of None \<Rightarrow> True | Some d \<Rightarrow> bstate d \<in> {0, 1})"

definition bool_known :: "bools \<Rightarrow> u32 \<Rightarrow> bool" where
  "bool_known bs b \<longleftrightarrow> b \<noteq> 0 \<and> unat b \<le> length bs \<and> val_struct bs b \<noteq> None"

definition expr_bools :: "cond_expr list \<Rightarrow> u32 set" where
  "expr_bools e = boolean ` {x \<in> set e. cexpr_type x = COND_BOOL}"

lemma bool_index: "bool_known bs b \<Longrightarrow> unat (b - 1) < length bs"
  using unat_gt_0 [of b] by (auto simp: bool_known_def unat_minus_one)

lemma bool_state_01:
  assumes "bools_01 bs" "bool_known bs b"
  shows "bool_state bs b = 0 \<or> bool_state bs b = 1"
proof -
  obtain d where d: "bs ! unat (b - 1) = Some d"
    using assms(2) by (auto simp: bool_known_def val_struct_def)
  then have "Some d \<in> set bs" using bool_index [OF assms(2)] nth_mem by metis
  then have "bstate d \<in> {0, 1}" using assms(1) by (auto simp: bools_01_def)
  then show ?thesis using d by (simp add: bool_state_def val_struct_def)
qed

lemma cond_binop_01:
  assumes "cond_binop ty = Some f" "x \<in> {0, 1}" "y \<in> {0, 1}"
  shows "f x y = 0 \<or> f x y = 1"
  using assms by (auto simp: cond_binop_def split: if_splits)

lemma tree_val_01:
  assumes "tree_ok t" "bools_01 bs" "\<forall>b \<in> expr_bools (postfix t). bool_known bs b"
  shows "tree_val bs t \<in> {0, 1}"
  using assms
proof (induction t)
  case (Leaf b)
  then show ?case using bool_state_01 by (simp add: expr_bools_def)
next
  case (Neg t)
  then show ?case by simp
next
  case (Bin ty t u)
  then obtain f where "cond_binop ty = Some f" by auto
  moreover have "tree_val bs t \<in> {0, 1}" "tree_val bs u \<in> {0, 1}"
    using Bin by (auto simp: expr_bools_def)
  ultimately show ?case using cond_binop_01 [of ty f] by simp
qed

text \<open>An operator carries no operand: the unused field of the nodes is ignored by \<open>shape\<close>.\<close>

definition shape :: "cond_expr \<Rightarrow> cond_expr" where
  "shape x = (if cexpr_type x = COND_BOOL then x else x\<lparr>boolean := 0\<rparr>)"

lemma eval_shape: "cond_eval_loop bs (map shape es) s = cond_eval_loop bs es s"
proof (induction es arbitrary: s)
  case (Cons x es)
  have "cexpr_type (shape x) = cexpr_type x"
    "cexpr_type x = COND_BOOL \<Longrightarrow> boolean (shape x) = boolean x"
    by (simp_all add: shape_def)
  then show ?case using Cons.IH by (auto split: list.splits option.splits)
qed simp

lemma eval_not_undefined:
  assumes "cond_eval_loop bs es (map (tree_val bs) ts) \<noteq> - 1" "\<forall>t \<in> set ts. tree_ok t"
  shows "\<exists>us. us \<noteq> [] \<and> (\<forall>t \<in> set us. tree_ok t) \<and>
    concat (map postfix (rev ts)) @ map shape es = concat (map postfix us) \<and>
    cond_eval_loop bs es (map (tree_val bs) ts) = tree_val bs (hd us)"
  using assms
proof (induction es arbitrary: ts)
  case Nil
  then have "ts \<noteq> []" by auto
  with Nil show ?case
    by (intro exI [of _ "rev ts"]) (simp add: hd_rev last_map)
next
  case (Cons x es)
  consider (bool) "cexpr_type x = COND_BOOL" | (neg) "cexpr_type x = COND_NOT"
    | (bin) f where "cexpr_type x \<noteq> COND_BOOL" "cexpr_type x \<noteq> COND_NOT" "cond_binop (cexpr_type x) = Some f"
    using Cons.prems(1) by (cases "cond_binop (cexpr_type x)") (auto split: if_splits)
  then show ?case
  proof cases
    case bool
    have sx: "shape x = \<lparr>cexpr_type = COND_BOOL, boolean = boolean x\<rparr>"
      using bool by (simp add: shape_def)
    have e: "cond_eval_loop bs (x # es) (map (tree_val bs) ts) =
        cond_eval_loop bs es (map (tree_val bs) (Leaf (boolean x) # ts))"
      using Cons.prems(1) bool by (simp split: if_splits)
    then obtain us where "us \<noteq> []" "\<forall>t \<in> set us. tree_ok t"
      "concat (map postfix (rev (Leaf (boolean x) # ts))) @ map shape es = concat (map postfix us)"
      "cond_eval_loop bs es (map (tree_val bs) (Leaf (boolean x) # ts)) = tree_val bs (hd us)"
      using Cons.IH [of "Leaf (boolean x) # ts"] Cons.prems by auto
    then show ?thesis using e sx by (intro exI [of _ us]) simp
  next
    case neg
    then obtain t ts' where ts: "ts = t # ts'"
      using Cons.prems(1) by (cases ts) simp_all
    have sx: "shape x = \<lparr>cexpr_type = COND_NOT, boolean = 0\<rparr>"
      using neg by (simp add: shape_def)
    have e: "cond_eval_loop bs (x # es) (map (tree_val bs) ts) =
        cond_eval_loop bs es (map (tree_val bs) (Neg t # ts'))"
      using neg ts by simp
    then obtain us where "us \<noteq> []" "\<forall>t \<in> set us. tree_ok t"
      "concat (map postfix (rev (Neg t # ts'))) @ map shape es = concat (map postfix us)"
      "cond_eval_loop bs es (map (tree_val bs) (Neg t # ts')) = tree_val bs (hd us)"
      using Cons.IH [of "Neg t # ts'"] Cons.prems ts by auto
    then show ?thesis using e sx ts by (intro exI [of _ us]) simp
  next
    case bin
    then obtain u t ts' where ts: "ts = u # t # ts'"
      using Cons.prems(1) by (cases ts; cases "tl ts") simp_all
    have sx: "shape x = \<lparr>cexpr_type = cexpr_type x, boolean = 0\<rparr>"
      using bin by (simp add: shape_def)
    let ?b = "Bin (cexpr_type x) t u"
    have e: "cond_eval_loop bs (x # es) (map (tree_val bs) ts) =
        cond_eval_loop bs es (map (tree_val bs) (?b # ts'))"
      using bin ts by simp
    then obtain us where "us \<noteq> []" "\<forall>t \<in> set us. tree_ok t"
      "concat (map postfix (rev (?b # ts'))) @ map shape es = concat (map postfix us)"
      "cond_eval_loop bs es (map (tree_val bs) (?b # ts')) = tree_val bs (hd us)"
      using Cons.IH [of "?b # ts'"] Cons.prems ts bin by auto
    then show ?thesis using e sx ts by (intro exI [of _ us]) simp
  qed
qed

text \<open>
  C33: On the postfix form of a formula the evaluator returns the value of the formula exactly when
  ten stack cells suffice, and -1 otherwise. Conversely, if any list of nodes evaluates to
  something other than -1 then it is a sequence of well-formed formulas and the result is the
  value of the first one: a list with left-over operands is accepted, and the rest is ignored.
\<close>

theorem cond_evaluate_expr_tree:
  shows "(\<forall>t. tree_ok t \<longrightarrow> cond_evaluate_expr bs (postfix t) =
      (if stack_need t \<le> COND_EXPR_MAXDEPTH then tree_val bs t else - 1)) \<and>
    (\<forall>e. cond_evaluate_expr bs e \<noteq> - 1 \<longrightarrow> (\<exists>t ts. tree_ok t \<and> (\<forall>u \<in> set ts. tree_ok u) \<and>
      map shape e = postfix t @ concat (map postfix ts) \<and> cond_evaluate_expr bs e = tree_val bs t))"
proof (intro conjI allI impI)
  fix t
  assume "tree_ok t"
  then show "cond_evaluate_expr bs (postfix t) =
      (if stack_need t \<le> COND_EXPR_MAXDEPTH then tree_val bs t else - 1)"
    using eval_postfix [of t "[]" bs "[]"] by (simp add: cond_evaluate_expr_def)
next
  fix e
  assume "cond_evaluate_expr bs e \<noteq> - 1"
  then obtain us where us: "us \<noteq> []" "\<forall>t \<in> set us. tree_ok t" "map shape e = concat (map postfix us)"
    "cond_evaluate_expr bs e = tree_val bs (hd us)"
    using eval_not_undefined [of bs e "[]"] by (auto simp: cond_evaluate_expr_def)
  then show "\<exists>t ts. tree_ok t \<and> (\<forall>u \<in> set ts. tree_ok u) \<and>
      map shape e = postfix t @ concat (map postfix ts) \<and> cond_evaluate_expr bs e = tree_val bs t"
    by (cases us) auto
qed

lemma cond_evaluate_expr_tree_witness:
  "cond_evaluate_expr [Some \<lparr>bool_value = 1, bstate = 1, bflags = 0\<rparr>, Some \<lparr>bool_value = 2, bstate = 0, bflags = 0\<rparr>]
     (postfix (Bin COND_AND (Leaf 1) (Neg (Leaf 2)))) = 1 \<and>
   tree_ok (Bin COND_AND (Leaf 1) (Neg (Leaf 2)))"
  using cond_evaluate_expr_tree [THEN conjunct1, rule_format,
      of "Bin COND_AND (Leaf 1) (Neg (Leaf 2))"
      "[Some \<lparr>bool_value = 1, bstate = 1, bflags = 0\<rparr>, Some \<lparr>bool_value = 2, bstate = 0, bflags = 0\<rparr>]"]
  by (simp add: cond_binop_def bool_state_def val_struct_def)

section \<open>Reordering the rules of a list\<close>

definition is_type_rule :: "avtab \<Rightarrow> avtab_ptr \<Rightarrow> bool" where
  "is_type_rule a ptr \<longleftrightarrow> specified (fst (ptr_node a ptr)) AND AVTAB_TYPE \<noteq> 0"

text \<open>
  \<open>cond_optimize\<close> moves the type rules to the front, in reverse order, and keeps the order of
  the other rules; no rule is lost or duplicated.
\<close>

theorem cond_optimize_partition:
  "cond_optimize a l = rev (filter (is_type_rule a) l) @ filter (\<lambda>p. \<not> is_type_rule a p) l"
proof -
  have "optimize_loop a (rev ts @ ns) l =
      rev (ts @ filter (is_type_rule a) l) @ ns @ filter (\<lambda>p. \<not> is_type_rule a p) l"
    for ts ns
  proof (induction l arbitrary: ts ns)
    case (Cons p l)
    show ?case
    proof (cases "is_type_rule a p")
      case True
      then have "optimize_loop a (rev ts @ ns) (p # l) = optimize_loop a (rev (ts @ [p]) @ ns) l"
        by (cases "ts = [] \<and> ns = []") (auto simp: is_type_rule_def)
      then show ?thesis using Cons.IH [of "ts @ [p]" ns] True by simp
    next
      case False
      then have "optimize_loop a (rev ts @ ns) (p # l) = optimize_loop a (rev ts @ (ns @ [p])) l"
        by (simp add: is_type_rule_def)
      then show ?thesis using Cons.IH [of ts "ns @ [p]"] False by simp
    qed
  qed simp
  from this [of "[]" "[]"] show ?thesis by (simp add: cond_optimize_def)
qed

end
