(* ===== verification/Sample_Policy.thy ===== *)
theory Sample_Policy
  imports Policydb
begin

text \<open>
  A small policy, used as the concrete input of the examples: one class \<open>process\<close> with the
  permission \<open>fork\<close>, one user, one role, two types of which the second is bounded by the first,
  one sensitivity, two categories, and one boolean that switches one conditional rule.
\<close>

definition one_slot :: "avtab_key \<Rightarrow> u32 \<Rightarrow> avtab" where
  "one_slot k d = \<lparr>avtable = Some [[(k, \<lparr>data = d, xperms = None\<rparr>)]], avnel = 1, nslot = 1, avmask = 0\<rparr>"

lemma avtab_hash_0 [simp]: "avtab_hash k 0 = 0"
  by (simp add: avtab_hash_def Let_def)

lemma one_slot_wf [simp]: "avtab_wf (one_slot k d)"
  by (simp add: one_slot_def avtab_wf_def)

lemma one_slot_nodes [simp]: "avtab_nodes (one_slot k d) = [(k, \<lparr>data = d, xperms = None\<rparr>)]"
  by (simp add: one_slot_def avtab_nodes_def)

text \<open>A symbol table of one chain; the entries are given in the order of their names.\<close>

definition one_chain :: "(string \<times> 'd) list \<Rightarrow> 'd symtab" where
  "one_chain xs = \<lparr>table = Some \<lparr>htable = [xs], htsize = 1, nel = of_nat (length xs),
     hash_value = symhash, keycmp = symcmp\<rparr>, nprim = of_nat (length xs)\<rparr>"

lemma symhash_1 [simp]: "symhash 1 k = 0"
  by (simp add: symhash_def)

lemma one_chain_keyed:
  "length xs < 2 ^ 32 \<Longrightarrow> sorted_wrt (\<lambda>a b. symcmp (fst a) (fst b) < 0) xs \<Longrightarrow>
    table (one_chain xs) = Some h \<Longrightarrow> keyed_table symhash symcmp h"
  by (auto simp: one_chain_def keyed_table_def hashtab_wf_def chains_wf_def chain_sorted_def
      unat_of_nat_lt)

definition bitmap_of :: "u64 \<Rightarrow> ebitmap" where
  "bitmap_of m = \<lparr>node = [\<lparr>startbit = 0, node_map = m\<rparr>], highbit = 64\<rparr>"

definition sample_level :: mls_level where
  "sample_level = \<lparr>sens = 1, cat = ebitmap_init\<rparr>"

definition sample_context :: "u32 \<Rightarrow> context_struct" where
  "sample_context t = \<lparr>cuser = 1, crole = 1, ctype = t, crange = \<lparr>low = sample_level, high = sample_level\<rparr>\<rparr>"

definition process_datum :: class_datum where
  "process_datum = \<lparr>class_value = 1, comdatum = None,
     class_permissions = one_chain [(''fork'', \<lparr>perm_value = 1\<rparr>)],
     constraints = [], validatetrans = [], default_user = 0, default_role = 0, default_type = 0,
     default_range = 0\<rparr>"

definition sample_role :: role_datum where
  "sample_role = \<lparr>role_value = 1, dominates = bitmap_of 1, role_types = bitmap_of 3,
     role_cache = bitmap_of 3, role_bounds = 0, role_negset = ebitmap_init, role_tflags = 0,
     role_flavor = 0, role_roles = ebitmap_init\<rparr>"

abbreviation no_sem_level :: mls_semantic_level where
  "no_sem_level \<equiv> \<lparr>ssens = 0, scats = []\<rparr>"

definition sample_user :: user_datum where
  "sample_user = \<lparr>user_value = 1, user_roles = bitmap_of 1, user_cache = bitmap_of 1,
     exp_range = \<lparr>low = sample_level, high = \<lparr>sens = 1, cat = bitmap_of 3\<rparr>\<rparr>,
     exp_dfltlevel = sample_level, user_bounds = 0, user_rflags = 0, sem_range = \<lparr>slow = no_sem_level, shigh = no_sem_level\<rparr>,
     sem_dfltlevel = no_sem_level\<rparr>"

definition sample_node :: cond_node where
  "sample_node = \<lparr>cur_state = 0, cexpr = [\<lparr>cexpr_type = 1, boolean = 1\<rparr>], true_list = [(0, 0)],
     false_list = [], nbools = 1, bool_ids = [1, 0, 0, 0, 0], expr_pre_comp = 2, cflags = 0, avtrue_list = [], avfalse_list = []\<rparr>"

abbreviation sample_rule :: "u16 \<Rightarrow> avtab_key" where
  "sample_rule t \<equiv> \<lparr>source_type = t, target_type = 1, target_class = 1, specified = AVTAB_ALLOWED\<rparr>"

definition sample_policy :: policydb where
  "sample_policy = \<lparr>
     mls = True,
     p_classes = one_chain [(''process'', process_datum)],
     p_roles = one_chain [(''r'', sample_role)],
     p_types = one_chain [(''a'', \<lparr>type_value = 1, flavor = 0, type_bounds = 0, primary = 0, attr_types = ebitmap_init, type_flags = 0\<rparr>), (''b'', \<lparr>type_value = 2, flavor = 0, type_bounds = 1, primary = 0, attr_types = ebitmap_init, type_flags = 0\<rparr>)],
     p_users = one_chain [(''u'', sample_user)],
     p_levels = one_chain [(''s0'', \<lparr>level_of = \<lparr>sens = 1, cat = bitmap_of 3\<rparr>, level_isalias = False, notdefined = 0\<rparr>)],
     p_cats = one_chain [(''c0'', \<lparr>cat_value = 1, cat_isalias = False\<rparr>), (''c1'', \<lparr>cat_value = 2, cat_isalias = False\<rparr>)],
     p_class_val_to_name = [Some ''process''],
     p_role_val_to_name = [Some ''r''],
     p_type_val_to_name = [Some ''a'', Some ''b''],
     p_user_val_to_name = [Some ''u''],
     p_sens_val_to_name = [Some ''s0''],
     p_cat_val_to_name = [Some ''c0'', Some ''c1''],
     class_val_to_struct = [Some process_datum],
     role_val_to_struct = [Some sample_role],
     user_val_to_struct = [Some sample_user],
     type_val_to_struct = [Some \<lparr>type_value = 1, flavor = 0, type_bounds = 0, primary = 0, attr_types = ebitmap_init, type_flags = 0\<rparr>, Some \<lparr>type_value = 2, flavor = 0, type_bounds = 1, primary = 0, attr_types = ebitmap_init, type_flags = 0\<rparr>],
     te_avtab = one_slot (sample_rule 1) 1,
     bool_val_to_struct = [Some \<lparr>bool_value = 1, bstate = 1, bflags = 0\<rparr>],
     te_cond_avtab = one_slot (sample_rule 2) 1,
     cond_list = [sample_node],
     role_tr = [],
     role_allows = [],
     ocon_fs = [], ocon_port = [], ocon_netif = [], ocon_node = [], ocon_fsuse = [], ocon_node6 = [],
     ocon_ibpkey = [], ocon_ibendport = [],
     genfs_list = [],
     range_tr = None,
     type_attr_map = [bitmap_of 1, bitmap_of 2],
     attr_type_map = [bitmap_of 1, bitmap_of 2],
     policy_type = 0,
     policyvers = 30,
     process_class = 1,
     dir_class = 0,
     process_trans = 0,
     process_trans_dyntrans = 0,
     target_platform = 0, handle_unknown = 0, p_commons = one_chain [], p_bools = one_chain [(''x'', \<lparr>bool_value = 1, bstate = 1, bflags = 0\<rparr>)],
     p_common_val_to_name = [], p_bool_val_to_name = [Some ''x''], p_scope = replicate 8 (one_chain []), p_global = [],
     filename_trans = None, policycaps = ebitmap_init, permissive_map = ebitmap_init, ocon_isid = [], ocon_pirq = [],
     ocon_ioport = [], ocon_iomem = [], ocon_pcidevice = [], ocon_devicetree = [],
     android_extra = 0, filename_trans_count = 0, policy_name = None, policy_version = None, decl_val_to_struct = []\<rparr>"

lemma bitmap_of_wf [simp]: "m \<noteq> 0 \<Longrightarrow> ebitmap_wf (bitmap_of m)"
  by (simp add: bitmap_of_def ebitmap_wf_def nodes_wf_def nodes_end_def node_ok_def)

lemma bitmap_of_bit [simp]: "ebitmap_get_bit (bitmap_of m) b \<longleftrightarrow> bit m (unat b)"
proof (cases "unat b < 64")
  case True
  have "m AND push_bit (unat b) 1 \<noteq> 0 \<longleftrightarrow> bit m (unat b)"
    by (rule bit_AND_push_1) (use True in simp)
  then have "ebitmap_get_bit_loop [\<lparr>startbit = 0, node_map = m\<rparr>] b \<longleftrightarrow> bit m (unat b)"
    using True unfolding ebitmap_get_bit_loop.simps bit_in_node_def ebitmap_node.simps diff_0_right by simp
  then show ?thesis
    using True by (simp add: bitmap_of_def ebitmap_get_bit_def word_less_nat_alt)
next
  case False
  then have "\<not> bit m (unat b)" using bit_imp_le_length [of m "unat b"] by auto
  then show ?thesis using False by (simp add: bitmap_of_def ebitmap_get_bit_def)
qed

end
