(* ===== verification/Conditional_Rules.thy ===== *)
theory Conditional_Rules
  imports Conditional Sample_Policy
begin

text \<open>
  What the conditional policy promises: \<open>cond_normalize_expr\<close> keeps the meaning of an expression and
  computes its truth table, what \<open>cond_expr_equal\<close> decides on normalised nodes, and which rules
  are enabled after \<open>evaluate_conds\<close>.
\<close>

unbundle bit_operations_syntax

section \<open>Normalisation keeps the meaning\<close>

lemma eval_cong:
  assumes "\<forall>b \<in> expr_bools e. bool_state bs b = bool_state bs' b"
  shows "cond_eval_loop bs e s = cond_eval_loop bs' e s"
  using assms
proof (induction e arbitrary: s)
  case (Cons x e)
  then have "cond_eval_loop bs e s' = cond_eval_loop bs' e s'" for s'
    by (auto simp: expr_bools_def)
  moreover have "cexpr_type x = COND_BOOL \<Longrightarrow> bool_state bs (boolean x) = bool_state bs' (boolean x)"
    using Cons.prems by (simp add: expr_bools_def)
  ultimately show ?case by (simp split: list.splits option.splits)
qed simp

lemma expr_bools_simps [simp]:
  "expr_bools [] = {}"
  "expr_bools (x # es) = (if cexpr_type x = COND_BOOL then insert (boolean x) (expr_bools es) else expr_bools es)"
  "expr_bools (es @ fs) = expr_bools es \<union> expr_bools fs"
  by (auto simp: expr_bools_def)

lemma finite_expr_bools [simp]: "finite (expr_bools es)"
  by (simp add: expr_bools_def)

subsection \<open>Setting booleans\<close>

definition slot :: "u32 \<Rightarrow> nat" where
  "slot b = unat (b - 1)"

lemma slot_inj: "slot b = slot c \<longleftrightarrow> b = c"
  by (simp add: slot_def)

lemma slot_less: "bool_known bs b \<Longrightarrow> slot b < length bs"
  by (simp add: slot_def bool_index)

lemma bool_known_slot: "bool_known bs b \<longleftrightarrow> b \<noteq> 0 \<and> unat b \<le> length bs \<and> bs ! slot b \<noteq> None"
  by (simp add: bool_known_def val_struct_def slot_def)

lemma bool_state_slot: "bool_state bs b = bstate (the (bs ! slot b))"
  by (simp add: bool_state_def val_struct_def slot_def)

lemma set_bool_slot:
  "set_bool b st bs = bs[slot b := map_option (\<lambda>d. d\<lparr>bstate := st\<rparr>) (bs ! slot b)]"
  by (simp add: set_bool_def val_struct_def slot_def)

abbreviation assign :: "u32 list \<Rightarrow> (nat \<Rightarrow> int) \<Rightarrow> nat \<Rightarrow> bools \<Rightarrow> bools" where
  "assign ids f n bs \<equiv> fold (\<lambda>j bs. set_bool (ids ! j) (f j) bs) [0..<n] bs"

lemma length_assign [simp]: "length (assign ids f n bs) = length bs"
  by (induction n) (simp_all add: set_bool_slot)

lemma assign_out: "i \<notin> slot ` set (take n ids) \<Longrightarrow> n \<le> length ids \<Longrightarrow> assign ids f n bs ! i = bs ! i"
  by (induction n) (simp_all add: set_bool_slot take_Suc_conv_app_nth)

lemma assign_in:
  assumes "distinct ids" "n \<le> length ids" "j < n" "\<forall>b \<in> set ids. slot b < length bs"
  shows "assign ids f n bs ! slot (ids ! j) =
    map_option (\<lambda>d. d\<lparr>bstate := f j\<rparr>) (bs ! slot (ids ! j))"
  using assms
proof (induction n)
  case (Suc n)
  have l: "slot (ids ! n) < length bs" using Suc.prems by simp
  show ?case
  proof (cases "j = n")
    case True
    have "ids ! n \<notin> set (take n ids)"
      using Suc.prems(1,2) by (auto simp: in_set_conv_nth nth_eq_iff_index_eq)
    then have "slot (ids ! n) \<notin> slot ` set (take n ids)"
      by (auto simp: slot_inj)
    then have "assign ids f n bs ! slot (ids ! n) = bs ! slot (ids ! n)"
      using assign_out Suc.prems(2) by simp
    then show ?thesis using True l by (simp add: set_bool_slot [of "ids ! n"])
  next
    case False
    then have "slot (ids ! j) \<noteq> slot (ids ! n)"
      using Suc.prems by (auto simp: slot_inj nth_eq_iff_index_eq)
    then show ?thesis using Suc False by (simp add: set_bool_slot [of "ids ! n"])
  qed
qed simp

definition bools_like :: "u32 list \<Rightarrow> bools \<Rightarrow> bools \<Rightarrow> bool" where
  "bools_like ids bs bs' \<longleftrightarrow> length bs' = length bs \<and>
     (\<forall>i. if i \<in> slot ` set ids then \<exists>x. bs' ! i = map_option (\<lambda>d. d\<lparr>bstate := x\<rparr>) (bs ! i)
          else bs' ! i = bs ! i)"

lemma bools_like_refl: "bools_like ids bs bs"
proof -
  have "\<exists>x. b = map_option (\<lambda>d. d\<lparr>bstate := x\<rparr>) b" for b :: "cond_bool_datum option"
    by (cases b) (auto intro: exI [of _ "bstate (the b)"])
  then show ?thesis by (simp add: bools_like_def)
qed

lemma bools_like_assign:
  assumes "bools_like ids bs bs'" "distinct ids" "\<forall>b \<in> set ids. slot b < length bs"
  shows "bools_like ids bs (assign ids f (length ids) bs')"
  unfolding bools_like_def
proof (intro conjI allI)
  show "length (assign ids f (length ids) bs') = length bs"
    using assms(1) by (simp add: bools_like_def)
  fix i
  show "if i \<in> slot ` set ids
    then \<exists>x. assign ids f (length ids) bs' ! i = map_option (\<lambda>d. d\<lparr>bstate := x\<rparr>) (bs ! i)
    else assign ids f (length ids) bs' ! i = bs ! i"
  proof (cases "i \<in> slot ` set ids")
    case True
    then obtain j where j: "j < length ids" "i = slot (ids ! j)"
      by (auto simp: in_set_conv_nth)
    have "\<forall>b \<in> set ids. slot b < length bs'"
      using assms by (simp add: bools_like_def)
    then have "assign ids f (length ids) bs' ! i = map_option (\<lambda>d. d\<lparr>bstate := f j\<rparr>) (bs' ! i)"
      using assign_in [of ids "length ids" j bs' f] assms(2) j by simp
    moreover obtain x where "bs' ! i = map_option (\<lambda>d. d\<lparr>bstate := x\<rparr>) (bs ! i)"
      using assms(1) True unfolding bools_like_def by metis
    ultimately show ?thesis using True
      by (auto simp: option.map_comp comp_def intro!: exI [of _ "f j"])
  next
    case False
    then show ?thesis
      using assign_out [of i "length ids" ids f bs'] assms(1) by (simp add: bools_like_def)
  qed
qed

text \<open>Restoring the saved values undoes any changes to the booleans of the list.\<close>

lemma assign_restore:
  assumes "bools_like ids bs bs'" "distinct ids" "\<forall>b \<in> set ids. bool_known bs b"
  shows "assign ids (\<lambda>i. map (bool_state bs) ids ! i) (length ids) bs' = bs"
proof (rule nth_equalityI)
  show "length (assign ids (\<lambda>i. map (bool_state bs) ids ! i) (length ids) bs') = length bs"
    using assms(1) by (simp add: bools_like_def)
  fix i
  show "assign ids (\<lambda>i. map (bool_state bs) ids ! i) (length ids) bs' ! i = bs ! i"
  proof (cases "i \<in> slot ` set ids")
    case True
    then obtain j where j: "j < length ids" "i = slot (ids ! j)"
      by (auto simp: in_set_conv_nth)
    have "\<forall>b \<in> set ids. slot b < length bs'"
      using assms slot_less by (simp add: bools_like_def)
    then have "assign ids (\<lambda>i. map (bool_state bs) ids ! i) (length ids) bs' ! i =
        map_option (\<lambda>d. d\<lparr>bstate := bool_state bs (ids ! j)\<rparr>) (bs' ! i)"
      using assign_in [of ids "length ids" j bs'] assms(2) j by simp
    moreover obtain x where "bs' ! i = map_option (\<lambda>d. d\<lparr>bstate := x\<rparr>) (bs ! i)"
      using assms(1) True unfolding bools_like_def by metis
    ultimately show ?thesis
      using j by (cases "bs ! i") (simp_all add: bool_state_slot)
  next
    case False
    then show ?thesis
      using assign_out [of i "length ids" ids _ bs'] assms(1) by (simp add: bools_like_def)
  qed
qed

lemma bool_state_set_bools:
  assumes "bools_like ids bs bs'" "distinct ids" "\<forall>b \<in> set ids. bool_known bs b" "j < length ids"
  shows "bool_state (set_bools ids test bs') (ids ! j) = of_bool (bit test j)"
proof -
  have l: "\<forall>b \<in> set ids. slot b < length bs'"
    using assms slot_less by (simp add: bools_like_def)
  have "bs ! slot (ids ! j) \<noteq> None"
    using assms(3,4) by (simp add: bool_known_slot)
  moreover obtain x where "bs' ! slot (ids ! j) = map_option (\<lambda>d. d\<lparr>bstate := x\<rparr>) (bs ! slot (ids ! j))"
    using assms(1,4) unfolding bools_like_def by (metis imageI nth_mem)
  ultimately show ?thesis
    using assign_in [OF assms(2) le_refl assms(4) l] by (auto simp: set_bools_def bool_state_slot)
qed

subsection \<open>The truth table\<close>

definition table_index :: "u32 list \<Rightarrow> bools \<Rightarrow> nat" where
  "table_index ids bs = horner_sum of_bool 2 (map (\<lambda>b. bool_state bs b \<noteq> 0) ids)"

lemma bit_table_index: "j < length ids \<Longrightarrow> bit (table_index ids bs) j \<longleftrightarrow> bool_state bs (ids ! j) \<noteq> 0"
  by (simp add: table_index_def bit_horner_sum_bit_iff)

lemma table_index_less: "table_index ids bs < 2 ^ length ids"
proof -
  have "horner_sum of_bool 2 xs < (2 :: nat) ^ length xs" for xs
    by (induction xs) auto
  from this [of "map (\<lambda>b. bool_state bs b \<noteq> 0) ids"] show ?thesis
    by (simp add: table_index_def)
qed

lemma eval_assignment:
  assumes "bools_like ids bs bs'" "distinct ids" "\<forall>b \<in> set ids. bool_known bs b"
    and "expr_bools e \<subseteq> set ids" "\<forall>b \<in> set ids. bool_state bs2 b \<in> {0, 1}"
  shows "cond_evaluate_expr (set_bools ids (table_index ids bs2) bs') e = cond_evaluate_expr bs2 e"
  unfolding cond_evaluate_expr_def
proof (rule eval_cong, rule ballI)
  fix b
  assume "b \<in> expr_bools e"
  then obtain j where j: "j < length ids" "b = ids ! j"
    using assms(4) by (metis in_set_conv_nth subsetD)
  have "bool_state bs2 b \<in> {0, 1}" using assms(5) j by simp
  then show "bool_state (set_bools ids (table_index ids bs2) bs') b = bool_state bs2 b"
    using bool_state_set_bools [OF assms(1-3) j(1)] bit_table_index [OF j(1), of bs2] j(2) by auto
qed

lemma eval_set_bools_like:
  assumes "bools_like ids bs bs'" "distinct ids" "\<forall>b \<in> set ids. bool_known bs b" "expr_bools e \<subseteq> set ids"
  shows "cond_evaluate_expr (set_bools ids test bs') e = cond_evaluate_expr (set_bools ids test bs) e"
  unfolding cond_evaluate_expr_def
proof (rule eval_cong, rule ballI)
  fix b
  assume "b \<in> expr_bools e"
  then obtain j where "j < length ids" "b = ids ! j"
    using assms(4) by (metis in_set_conv_nth subsetD)
  then show "bool_state (set_bools ids test bs') b = bool_state (set_bools ids test bs) b"
    using bool_state_set_bools [OF assms(1-3)] bool_state_set_bools [OF bools_like_refl assms(2,3)]
    by simp
qed

lemma precomp_loop_spec:
  assumes "bools_like ids bs bs'" "distinct ids" "\<forall>b \<in> set ids. bool_known bs b" "expr_bools e \<subseteq> set ids"
    and "\<forall>test \<in> set ts. cond_evaluate_expr (set_bools ids test bs) e \<noteq> - 1 \<and> test < 32"
  shows "\<exists>pre' bs''. precomp_loop ts ids e bs' pre = (Inr pre', bs'') \<and> bools_like ids bs bs'' \<and>
    (\<forall>k < 32. bit pre' k \<longleftrightarrow>
      bit pre k \<or> k \<in> set ts \<and> cond_evaluate_expr (set_bools ids k bs) e \<noteq> 0)"
  using assms(1,5)
proof (induction ts arbitrary: bs' pre)
  case (Cons test ts)
  let ?k = "cond_evaluate_expr (set_bools ids test bs) e"
  let ?pre = "if ?k \<noteq> 0 then pre OR push_bit test 1 else pre"
  have k: "cond_evaluate_expr (set_bools ids test bs') e = ?k" "?k \<noteq> - 1" "test < 32"
    using eval_set_bools_like [OF Cons.prems(1) assms(2-4)] Cons.prems(2) by simp_all
  have like: "bools_like ids bs (set_bools ids test bs')"
    unfolding set_bools_def
    by (rule bools_like_assign [OF Cons.prems(1) assms(2)]) (simp add: assms(3) slot_less)
  obtain pre' bs'' where r: "precomp_loop ts ids e (set_bools ids test bs') ?pre = (Inr pre', bs'')"
    "bools_like ids bs bs''"
    "\<forall>k < 32. bit pre' k \<longleftrightarrow>
      bit ?pre k \<or> k \<in> set ts \<and> cond_evaluate_expr (set_bools ids k bs) e \<noteq> 0"
    using Cons.IH [OF like, of ?pre] Cons.prems(2) by auto
  have "bit ?pre i \<longleftrightarrow> bit pre i \<or> i = test \<and> ?k \<noteq> 0" if "i < 32" for i
    using that k(3) by (auto simp: bit_simps)
  with r k show ?case by auto
qed auto

lemma precomp_loop_fails:
  assumes "\<And>bs. cond_evaluate_expr bs e = - 1" "ts \<noteq> []"
  shows "fst (precomp_loop ts ids e bs pre) = Inl FAIL"
  using assms by (cases ts) (simp_all add: Let_def)

lemma take_list_update_Suc:
  "n < length xs \<Longrightarrow> take (Suc n) (xs[n := x]) = take n xs @ [x]"
  by (simp add: take_Suc_conv_app_nth)

lemma collect_bools_spec:
  assumes "length ids = COND_MAX_BOOLS" "unat n + length es < 2 ^ 32" "finite S"
    and "unat n \<le> COND_MAX_BOOLS \<longrightarrow> distinct (take (unat n) ids) \<and> set (take (unat n) ids) = S"
    and "unat n > COND_MAX_BOOLS \<longrightarrow> card S > COND_MAX_BOOLS"
    and "collect_bools es ids n = (ids', n')"
  shows "length ids' = COND_MAX_BOOLS \<and>
    (unat n' \<le> COND_MAX_BOOLS \<longrightarrow>
      distinct (take (unat n') ids') \<and> set (take (unat n') ids') = S \<union> expr_bools es) \<and>
    (unat n' > COND_MAX_BOOLS \<longrightarrow> card (S \<union> expr_bools es) > COND_MAX_BOOLS)"
  using assms
proof (induction es arbitrary: ids n S)
  case Nil
  then show ?case by auto
next
  case (Cons e es)
  have n1: "unat (n + 1) = unat n + 1"
    using Cons.prems(2) by (simp add: unat_add_lt)
  consider (skip) "\<not> (cexpr_type e = COND_BOOL \<and> \<not> bool_present (boolean e) ids n)"
    | (add) "cexpr_type e = COND_BOOL" "\<not> bool_present (boolean e) ids n" "unat n < COND_MAX_BOOLS"
    | (count) "cexpr_type e = COND_BOOL" "\<not> bool_present (boolean e) ids n" "\<not> unat n < COND_MAX_BOOLS"
    by blast
  then show ?case
  proof cases
    case skip
    have "S \<union> expr_bools (e # es) = S \<union> expr_bools es"
      using skip Cons.prems(4) by (auto simp: bool_present_def)
    moreover have "collect_bools es ids n = (ids', n')"
      using Cons.prems(6) skip by auto
    ultimately show ?thesis
      using Cons.IH [OF Cons.prems(1) _ Cons.prems(3-5)] Cons.prems(2) by simp
  next
    case add
    have notin: "boolean e \<notin> S"
      using add Cons.prems(4) by (simp add: bool_present_def)
    have t: "take (unat (n + 1)) (ids[unat n := boolean e]) = take (unat n) ids @ [boolean e]"
      using add Cons.prems(1) n1 take_list_update_Suc [of "unat n" ids] by simp
    have "collect_bools es (ids[unat n := boolean e]) (n + 1) = (ids', n')"
      using Cons.prems(6) add by simp
    moreover have "S \<union> expr_bools (e # es) = insert (boolean e) S \<union> expr_bools es"
      using add by auto
    ultimately show ?thesis
      using Cons.IH [of "ids[unat n := boolean e]" "n + 1" "insert (boolean e) S"]
        Cons.prems add n1 t notin by auto
  next
    case count
    have big: "card (insert (boolean e) S) > COND_MAX_BOOLS"
    proof (cases "unat n = COND_MAX_BOOLS")
      case True
      then have "boolean e \<notin> S" "card S = COND_MAX_BOOLS"
        using count Cons.prems(1,4) distinct_card [of ids] by (auto simp: bool_present_def)
      then show ?thesis using Cons.prems(3) by simp
    next
      case False
      then have "card S > COND_MAX_BOOLS" using count Cons.prems(5) by simp
      then show ?thesis using Cons.prems(3) by (simp add: card_insert_if)
    qed
    have "collect_bools es ids (n + 1) = (ids', n')"
      using Cons.prems(6) count by simp
    moreover have "S \<union> expr_bools (e # es) = insert (boolean e) S \<union> expr_bools es"
      using count by auto
    ultimately show ?thesis
      using Cons.IH [of ids "n + 1" "insert (boolean e) S"] Cons.prems count n1 big by auto
  qed
qed

subsection \<open>The normal form\<close>

definition used_ids :: "cond_node \<Rightarrow> u32 list" where
  "used_ids n = take (unat (nbools n)) (bool_ids n)"

text \<open>What \<open>cond_normalize_expr\<close> promises about a node.\<close>

definition normalised :: "cond_node \<Rightarrow> bool" where
  "normalised n \<longleftrightarrow>
     (if unat (nbools n) \<le> COND_MAX_BOOLS
      then length (used_ids n) = unat (nbools n) \<and> distinct (used_ids n) \<and>
        set (used_ids n) = expr_bools (cexpr n) \<and>
        (\<forall>bs. (\<forall>b \<in> expr_bools (cexpr n). bool_state bs b \<in> {0, 1}) \<longrightarrow>
          (bit (expr_pre_comp n) (table_index (used_ids n) bs) \<longleftrightarrow>
            cond_evaluate_expr bs (cexpr n) \<noteq> 0))
      else card (expr_bools (cexpr n)) > COND_MAX_BOOLS)"

text \<open>The rules a conditional puts into force.\<close>

definition chosen_rules :: "bools \<Rightarrow> cond_node \<Rightarrow> avtab_ptr list" where
  "chosen_rules bs n =
     (let k = cond_evaluate_expr bs (cexpr n) in
      if k > 0 then true_list n else if k = 0 then false_list n else [])"

text \<open>The same for the rules of a module, before they are expanded.\<close>

definition chosen_avrules :: "bools \<Rightarrow> cond_node \<Rightarrow> avrule list" where
  "chosen_avrules bs n =
     (let k = cond_evaluate_expr bs (cexpr n) in
      if k > 0 then avtrue_list n else if k = 0 then avfalse_list n else [])"

abbreviation chosen :: "bools \<Rightarrow> cond_node \<Rightarrow> avtab_ptr list \<times> avrule list" where
  "chosen bs n \<equiv> (chosen_rules bs n, chosen_avrules bs n)"

definition strip_not :: "cond_node \<Rightarrow> cond_node" where
  "strip_not cn = (if cexpr_type (last (cexpr cn)) = COND_NOT
     then cn\<lparr>cexpr := butlast (cexpr cn), true_list := false_list cn, false_list := true_list cn,
       avtrue_list := avfalse_list cn, avfalse_list := avtrue_list cn\<rparr>
     else cn)"

lemma postfix_nonempty [simp]: "postfix t \<noteq> []"
  by (cases t) simp_all

lemma tree_eval:
  "tree_ok t \<Longrightarrow> cond_evaluate_expr bs (postfix t) =
    (if stack_need t \<le> COND_EXPR_MAXDEPTH then tree_val bs t else - 1)"
  using eval_postfix [of t "[]" bs "[]"] by (simp add: cond_evaluate_expr_def)

lemma tree_val_states:
  assumes "tree_ok t" "\<forall>b \<in> expr_bools (postfix t). bool_state bs b \<in> {0, 1}"
  shows "tree_val bs t \<in> {0, 1}"
  using assms
proof (induction t)
  case (Bin ty t u)
  then obtain f where "cond_binop ty = Some f" by auto
  moreover have "tree_val bs t \<in> {0, 1}" "tree_val bs u \<in> {0, 1}"
    using Bin by simp_all
  ultimately show ?case using cond_binop_01 [of ty f] by simp
qed simp_all

lemma strip_not_spec:
  assumes "tree_ok t" "cexpr cn = postfix t"
  obtains u where "tree_ok u" "cexpr (strip_not cn) = postfix u" "stack_need u = stack_need t"
    "expr_bools (postfix u) = expr_bools (postfix t)" "length (postfix u) \<le> length (postfix t)"
    "\<And>bs. \<forall>b \<in> expr_bools (postfix t). bool_state bs b \<in> {0, 1} \<Longrightarrow>
      chosen bs (strip_not cn) = chosen bs cn"
    "\<not> (cexpr_type (last (cexpr cn)) = COND_NOT \<and> length (cexpr cn) = 1)"
proof (cases t)
  case (Neg u)
  have "chosen bs (strip_not cn) = chosen bs cn"
    if "\<forall>b \<in> expr_bools (postfix t). bool_state bs b \<in> {0, 1}" for bs
  proof -
    have "tree_val bs u \<in> {0, 1}"
      using tree_val_states [of u bs] that assms(1) Neg by simp
    then show ?thesis
      using assms Neg tree_eval [of u bs] tree_eval [of t bs]
      by (auto simp: chosen_rules_def chosen_avrules_def strip_not_def Let_def)
  qed
  with assms Neg show ?thesis by (intro that [of u]) (auto simp: strip_not_def)
next
  case (Leaf b)
  with assms show ?thesis by (intro that [of t]) (auto simp: strip_not_def)
next
  case (Bin ty u v)
  with assms show ?thesis by (intro that [of t]) (auto simp: strip_not_def)
qed

lemma cond_normalize_expr_unfold:
  assumes "\<not> (cexpr_type (last (cexpr cn)) = COND_NOT \<and> length (cexpr cn) = 1)"
    and "collect_bools (cexpr (strip_not cn)) (replicate COND_MAX_BOOLS 0) 0 = (ids, n)"
  shows "\<exists>m. cexpr m = cexpr (strip_not cn) \<and> true_list m = true_list (strip_not cn) \<and>
    false_list m = false_list (strip_not cn) \<and> avtrue_list m = avtrue_list (strip_not cn) \<and>
    avfalse_list m = avfalse_list (strip_not cn) \<and> bool_ids m = ids \<and> nbools m = n \<and>
    cond_normalize_expr bs cn =
      (if unat n \<le> COND_MAX_BOOLS
       then case precomp_loop [0..<2 ^ unat n] (take (unat n) ids) (cexpr (strip_not cn)) bs 0 of
          (Inl e, bs) \<Rightarrow> (Inl e, m, bs)
        | (Inr pre, bs') \<Rightarrow> (Inr (), m\<lparr>expr_pre_comp := pre\<rparr>,
            assign (take (unat n) ids) (\<lambda>i. map (bool_state bs) (take (unat n) ids) ! i)
              (length (take (unat n) ids)) bs')
       else (Inr (), m, bs))"
proof -
  let ?s = "strip_not cn"
  let ?m = "?s\<lparr>bool_ids := ids, nbools := n, expr_pre_comp := 0\<rparr>"
  have "cond_normalize_expr bs cn =
      (if unat n \<le> COND_MAX_BOOLS
       then case precomp_loop [0..<2 ^ unat n] (take (unat n) ids) (cexpr ?s) bs 0 of
          (Inl e, bs) \<Rightarrow> (Inl e, ?m, bs)
        | (Inr pre, bs') \<Rightarrow> (Inr (), ?m\<lparr>expr_pre_comp := pre\<rparr>,
            assign (take (unat n) ids) (\<lambda>i. map (bool_state bs) (take (unat n) ids) ! i)
              (length (take (unat n) ids)) bs')
       else (Inr (), ?m, bs))"
    using assms unfolding cond_normalize_expr_def strip_not_def
    by (cases cn; cases "cexpr_type (last (cexpr cn)) = COND_NOT")
      (simp_all add: Let_def split: sum.splits prod.splits)
  then show ?thesis by (intro exI [of _ ?m]) simp
qed

text \<open>
  C34: \<open>cond_normalize_expr\<close> on the postfix form of any formula over known booleans. If the formula
  has more than five booleans, or if the evaluator can compute it, normalisation succeeds, leaves
  every boolean as it was, puts exactly the same rules into force under every assignment, those of the
  rule tables and those of a module alike (so removing a leading negation and swapping the lists is harmless), and the node it returns is
  normalised: its identifiers are the distinct booleans of the formula, and bit \<open>i\<close> of the
  precomputed table is the value of the formula under the assignment whose bits are those of \<open>i\<close>.
  Otherwise it fails.
\<close>

theorem cond_normalize_expr_correct:
  assumes "tree_ok t" "cexpr cn = postfix t" "length (postfix t) < 2 ^ 32"
    and "\<forall>b \<in> expr_bools (postfix t). bool_known bs b"
  shows "if card (expr_bools (postfix t)) > COND_MAX_BOOLS \<or> stack_need t \<le> COND_EXPR_MAXDEPTH
    then \<exists>cn'. cond_normalize_expr bs cn = (Inr (), cn', bs) \<and> normalised cn' \<and>
      (\<forall>bs2. (\<forall>b \<in> expr_bools (postfix t). bool_state bs2 b \<in> {0, 1}) \<longrightarrow>
        chosen_rules bs2 cn' = chosen_rules bs2 cn \<and> chosen_avrules bs2 cn' = chosen_avrules bs2 cn)
    else fst (cond_normalize_expr bs cn) = Inl FAIL"
proof -
  obtain u where u: "tree_ok u" "cexpr (strip_not cn) = postfix u" "stack_need u = stack_need t"
    "expr_bools (postfix u) = expr_bools (postfix t)" "length (postfix u) \<le> length (postfix t)"
    and rules: "\<And>bs. \<forall>b \<in> expr_bools (postfix t). bool_state bs b \<in> {0, 1} \<Longrightarrow>
      chosen bs (strip_not cn) = chosen bs cn"
    and ne: "\<not> (cexpr_type (last (cexpr cn)) = COND_NOT \<and> length (cexpr cn) = 1)"
    using strip_not_spec [OF assms(1,2)] by metis
  obtain ids n where c: "collect_bools (cexpr (strip_not cn)) (replicate COND_MAX_BOOLS 0) 0 = (ids, n)"
    by (cases "collect_bools (cexpr (strip_not cn)) (replicate COND_MAX_BOOLS 0) 0")
  have cs: "length ids = COND_MAX_BOOLS"
    "unat n \<le> COND_MAX_BOOLS \<longrightarrow>
      distinct (take (unat n) ids) \<and> set (take (unat n) ids) = expr_bools (postfix t)"
    "unat n > COND_MAX_BOOLS \<longrightarrow> card (expr_bools (postfix t)) > COND_MAX_BOOLS"
    using collect_bools_spec [of "replicate COND_MAX_BOOLS 0" 0 "postfix u" "{}" ids n] c u assms(3)
    by auto
  obtain m where m: "cexpr m = postfix u" "true_list m = true_list (strip_not cn)"
    "false_list m = false_list (strip_not cn)" "avtrue_list m = avtrue_list (strip_not cn)"
    "avfalse_list m = avfalse_list (strip_not cn)" "bool_ids m = ids" "nbools m = n"
    and r: "cond_normalize_expr bs cn =
      (if unat n \<le> COND_MAX_BOOLS
       then case precomp_loop [0..<2 ^ unat n] (take (unat n) ids) (postfix u) bs 0 of
          (Inl e, bs) \<Rightarrow> (Inl e, m, bs)
        | (Inr pre, bs') \<Rightarrow> (Inr (), m\<lparr>expr_pre_comp := pre\<rparr>,
            assign (take (unat n) ids) (\<lambda>i. map (bool_state bs) (take (unat n) ids) ! i)
              (length (take (unat n) ids)) bs')
       else (Inr (), m, bs))"
    using cond_normalize_expr_unfold [OF ne c, of bs] unfolding u(2) by (elim exE conjE) (rule that)
  have chosen: "chosen bs2 (m\<lparr>expr_pre_comp := x\<rparr>) = chosen bs2 (strip_not cn)" for bs2 x
    using m u(2) by (simp add: chosen_rules_def chosen_avrules_def Let_def)
  show ?thesis
  proof (cases "unat n \<le> COND_MAX_BOOLS")
    case False
    then have "card (expr_bools (postfix t)) > COND_MAX_BOOLS" using cs by simp
    moreover have "normalised m" using False m cs u by (simp add: normalised_def)
    moreover have "chosen bs2 m = chosen bs2 (strip_not cn)" for bs2
      using m u(2) by (simp add: chosen_rules_def chosen_avrules_def Let_def)
    ultimately show ?thesis using r False rules by simp
  next
    case True
    let ?ids = "take (unat n) ids"
    have ids: "distinct ?ids" "set ?ids = expr_bools (postfix u)" "length ?ids = unat n"
      "\<forall>b \<in> set ?ids. bool_known bs b" "expr_bools (postfix u) \<subseteq> set ?ids"
      using True cs u(4) assms(4) by auto
    have card: "\<not> card (expr_bools (postfix t)) > COND_MAX_BOOLS"
      using distinct_card [OF ids(1)] ids True u(4) by simp
    show ?thesis
    proof (cases "stack_need t \<le> COND_EXPR_MAXDEPTH")
      case False
      then have "cond_evaluate_expr bs' (postfix u) = - 1" for bs'
        using tree_eval [OF u(1)] u(3) by simp
      then have "fst (precomp_loop [0..<2 ^ unat n] ?ids (postfix u) bs 0) = Inl FAIL"
        by (rule precomp_loop_fails) simp
      then have "fst (cond_normalize_expr bs cn) = Inl FAIL"
        using r True by (cases "precomp_loop [0..<2 ^ unat n] ?ids (postfix u) bs 0") auto
      then show ?thesis using card False by simp
    next
      case deep: True
      have pow: "(2 :: nat) ^ unat n \<le> 32"
        using power_increasing [of "unat n" 5 "2 :: nat"] True by simp
      have val: "cond_evaluate_expr bs2 (postfix u) \<in> {0, 1}"
        if "\<forall>b \<in> expr_bools (postfix u). bool_state bs2 b \<in> {0, 1}" for bs2
        using tree_eval [OF u(1)] tree_val_states [OF u(1) that] deep u(3) by simp
      have nonneg: "cond_evaluate_expr (set_bools ?ids test bs) (postfix u) \<noteq> - 1" for test
      proof -
        have "bool_state (set_bools ?ids test bs) b \<in> {0, 1}" if b: "b \<in> expr_bools (postfix u)" for b
        proof -
          obtain j where "j < length ?ids" "b = ?ids ! j"
            using b ids(2) by (metis in_set_conv_nth)
          then show ?thesis
            using bool_state_set_bools [OF bools_like_refl ids(1,4)] by simp
        qed
        then show ?thesis using val [of "set_bools ?ids test bs"] by auto
      qed
      obtain pre bs' where p: "precomp_loop [0..<2 ^ unat n] ?ids (postfix u) bs 0 = (Inr pre, bs')"
        "bools_like ?ids bs bs'"
        "\<forall>k < 32. bit pre k \<longleftrightarrow> k < 2 ^ unat n \<and>
          cond_evaluate_expr (set_bools ?ids k bs) (postfix u) \<noteq> 0"
      proof -
        have "\<forall>test \<in> set [0..<2 ^ unat n].
            cond_evaluate_expr (set_bools ?ids test bs) (postfix u) \<noteq> - 1 \<and> test < 32"
          using nonneg pow by simp
        from precomp_loop_spec [OF bools_like_refl ids(1,4,5) this, of 0] show thesis
          unfolding set_upt atLeastLessThan_iff by (elim exE conjE) (rule that, simp_all)
      qed
      have table: "bit pre (table_index ?ids bs2) \<longleftrightarrow> cond_evaluate_expr bs2 (postfix u) \<noteq> 0"
        if "\<forall>b \<in> expr_bools (postfix u). bool_state bs2 b \<in> {0, 1}" for bs2
      proof -
        have "table_index ?ids bs2 < 2 ^ unat n" using table_index_less [of ?ids bs2] ids(3) by simp
        moreover have "cond_evaluate_expr (set_bools ?ids (table_index ?ids bs2) bs) (postfix u) =
            cond_evaluate_expr bs2 (postfix u)"
          by (rule eval_assignment [OF bools_like_refl ids(1,4,5)]) (use that ids(2) in simp)
        ultimately show ?thesis using p(3) pow by simp
      qed
      have "cond_normalize_expr bs cn = (Inr (), m\<lparr>expr_pre_comp := pre\<rparr>, bs)"
        using r True p assign_restore [OF p(2) ids(1,4)] by simp
      moreover have "normalised (m\<lparr>expr_pre_comp := pre\<rparr>)"
        using m True ids table by (simp add: normalised_def used_ids_def)
      ultimately show ?thesis using card deep chosen rules by simp
    qed
  qed
qed

definition bool_pair :: bools where
  "bool_pair = [Some \<lparr>bool_value = 1, bstate = 1, bflags = 0\<rparr>, Some \<lparr>bool_value = 2, bstate = 0, bflags = 0\<rparr>]"

definition node_of :: "cond_tree \<Rightarrow> cond_node" where
  "node_of t = \<lparr>cur_state = 0, cexpr = postfix t, true_list = [(0, 0)], false_list = [(1, 0)], nbools = 0,
     bool_ids = [], expr_pre_comp = 0, cflags = 0, avtrue_list = [], avfalse_list = []\<rparr>"

lemma bool_known_pair: "bool_known bool_pair 1" "bool_known bool_pair 2"
  by (simp_all add: bool_known_def bool_pair_def val_struct_def)

lemma cond_normalize_expr_correct_witness:
  "\<exists>cn'. cond_normalize_expr bool_pair (node_of (Neg (Bin COND_OR (Leaf 2) (Neg (Leaf 1))))) = (Inr (), cn', bool_pair)"
proof -
  let ?t = "Neg (Bin COND_OR (Leaf 2) (Neg (Leaf 1)))"
  have "tree_ok ?t" "cexpr (node_of ?t) = postfix ?t" "length (postfix ?t) < 2 ^ 32"
    "\<forall>b \<in> expr_bools (postfix ?t). bool_known bool_pair b" "stack_need ?t \<le> COND_EXPR_MAXDEPTH"
    using bool_known_pair by (simp_all add: cond_binop_def node_of_def)
  then show ?thesis
    using cond_normalize_expr_correct [of ?t "node_of ?t" bool_pair] by auto
qed

section \<open>Comparison of expressions\<close>

lemma exprs_equal_shape: "exprs_equal xs ys \<longleftrightarrow> map shape xs = map shape ys"
proof (induction xs ys rule: exprs_equal.induct)
  case (2 x xs y ys)
  have "shape x = shape y \<longleftrightarrow> cexpr_type x = cexpr_type y \<and>
      (cexpr_type x = COND_BOOL \<longrightarrow> boolean x = boolean y)"
    by (cases x; cases y) (auto simp: shape_def)
  with 2 show ?case by auto
qed simp_all

text \<open>
  C35: On normalised nodes \<open>cond_expr_equal\<close> is sound when both list their booleans in the same
  order, or when the expressions have more than five booleans: expressions it judges equal have
  the same truth value under every assignment. The order matters: of two nodes that
  \<open>cond_normalize_expr\<close> produced, for \<open>b1 && !b2\<close> and for \<open>b2 && !b1\<close>, it says that they are
  equal.
\<close>

theorem cond_expr_equal_order:
  "(\<forall>a b bs. normalised a \<and> normalised b \<and> cond_expr_equal (Some a) (Some b) \<and>
      (used_ids a = used_ids b \<or> unat (nbools a) > COND_MAX_BOOLS) \<and>
      (\<forall>x \<in> expr_bools (cexpr a) \<union> expr_bools (cexpr b). bool_state bs x \<in> {0, 1}) \<longrightarrow>
      (cond_evaluate_expr bs (cexpr a) \<noteq> 0 \<longleftrightarrow> cond_evaluate_expr bs (cexpr b) \<noteq> 0)) \<and>
   (\<exists>a b. cond_normalize_expr bool_pair (node_of (Bin COND_AND (Leaf 1) (Neg (Leaf 2)))) = (Inr (), a, bool_pair) \<and>
      cond_normalize_expr bool_pair (node_of (Bin COND_AND (Leaf 2) (Neg (Leaf 1)))) = (Inr (), b, bool_pair) \<and>
      cond_expr_equal (Some a) (Some b) \<and>
      cond_evaluate_expr bool_pair (cexpr a) = 1 \<and> cond_evaluate_expr bool_pair (cexpr b) = 0)"
proof (intro conjI allI impI)
  fix a b bs
  assume A: "normalised a \<and> normalised b \<and> cond_expr_equal (Some a) (Some b) \<and>
      (used_ids a = used_ids b \<or> unat (nbools a) > COND_MAX_BOOLS) \<and>
      (\<forall>x \<in> expr_bools (cexpr a) \<union> expr_bools (cexpr b). bool_state bs x \<in> {0, 1})"
  then have nb: "nbools a = nbools b" by (simp add: cond_expr_equal_def split: if_splits)
  show "cond_evaluate_expr bs (cexpr a) \<noteq> 0 \<longleftrightarrow> cond_evaluate_expr bs (cexpr b) \<noteq> 0"
  proof (cases "unat (nbools a) \<le> COND_MAX_BOOLS")
    case True
    then have "expr_pre_comp a = expr_pre_comp b" "used_ids a = used_ids b"
      using A nb by (simp_all add: cond_expr_equal_def split: if_splits)
    moreover have "bit (expr_pre_comp c) (table_index (used_ids c) bs) \<longleftrightarrow>
        cond_evaluate_expr bs (cexpr c) \<noteq> 0" if "c = a \<or> c = b" for c
      using A True nb that unfolding normalised_def by auto
    ultimately show ?thesis by metis
  next
    case False
    then have "map shape (cexpr a) = map shape (cexpr b)"
      using A nb by (simp add: cond_expr_equal_def exprs_equal_shape)
    then show ?thesis
      unfolding cond_evaluate_expr_def by (metis eval_shape)
  qed
next
  let ?n1 = "node_of (Bin COND_AND (Leaf 1) (Neg (Leaf 2)))"
  let ?n2 = "node_of (Bin COND_AND (Leaf 2) (Neg (Leaf 1)))"
  have up: "[0..<2] = [0, 1 :: nat]" "[0..<4] = [0, 1, 2, 3 :: nat]" by (simp_all add: upt_rec)
  have rep: "replicate COND_MAX_BOOLS x = [x, x, x, x, x]" for x :: u32
    by (simp add: numeral_eq_Suc)
  have bits: "bit (2 :: nat) 1" "\<not> bit (2 :: nat) 0" "bit (3 :: nat) 1" "bit (3 :: nat) 0" "bit (Suc 0) 0"
    by (simp_all add: bit_iff_odd)
  have r: "cond_normalize_expr bool_pair ?n1 = (Inr (), ?n1\<lparr>nbools := 2, bool_ids := [1, 2, 0, 0, 0], expr_pre_comp := 2\<rparr>, bool_pair)"
    "cond_normalize_expr bool_pair ?n2 = (Inr (), ?n2\<lparr>nbools := 2, bool_ids := [2, 1, 0, 0, 0], expr_pre_comp := 2\<rparr>, bool_pair)"
    by (simp_all add: cond_normalize_expr_def node_of_def bool_pair_def bool_present_def up bits
        rep set_bools_def set_bool_def bool_state_def val_struct_def Let_def
        cond_evaluate_expr_def cond_binop_def)
  have "cond_expr_equal (Some (?n1\<lparr>nbools := 2, bool_ids := [1, 2, 0, 0, 0], expr_pre_comp := 2\<rparr>))
      (Some (?n2\<lparr>nbools := 2, bool_ids := [2, 1, 0, 0, 0], expr_pre_comp := 2\<rparr>))"
    by (simp add: cond_expr_equal_def same_bools_def bool_present_def less_2_cases_iff)
  moreover have "cond_evaluate_expr bool_pair (cexpr ?n1) = 1" "cond_evaluate_expr bool_pair (cexpr ?n2) = 0"
    by (simp_all add: node_of_def bool_pair_def cond_evaluate_expr_def cond_binop_def bool_state_def
        val_struct_def)
  ultimately show "\<exists>a b. cond_normalize_expr bool_pair ?n1 = (Inr (), a, bool_pair) \<and>
      cond_normalize_expr bool_pair ?n2 = (Inr (), b, bool_pair) \<and>
      cond_expr_equal (Some a) (Some b) \<and>
      cond_evaluate_expr bool_pair (cexpr a) = 1 \<and> cond_evaluate_expr bool_pair (cexpr b) = 0"
    using r by (intro exI [of _ "?n1\<lparr>nbools := 2, bool_ids := [1, 2, 0, 0, 0], expr_pre_comp := 2\<rparr>"]
        exI [of _ "?n2\<lparr>nbools := 2, bool_ids := [2, 1, 0, 0, 0], expr_pre_comp := 2\<rparr>"]) simp
qed

section \<open>Enabling and disabling of conditional rules\<close>

definition ptr_ok :: "avtab \<Rightarrow> avtab_ptr \<Rightarrow> bool" where
  "ptr_ok a ptr \<longleftrightarrow> (\<exists>t. avtable a = Some t \<and> fst ptr < length t \<and> snd ptr < length (t ! fst ptr))"

definition enabled :: "avtab \<Rightarrow> avtab_ptr \<Rightarrow> bool" where
  "enabled a ptr \<longleftrightarrow> specified (fst (ptr_node a ptr)) AND AVTAB_ENABLED \<noteq> 0"

definition enable_key :: "bool \<Rightarrow> avtab_node \<Rightarrow> avtab_node" where
  "enable_key on n = apfst (\<lambda>k. k\<lparr>specified :=
     (if on then specified k OR AVTAB_ENABLED else specified k AND NOT AVTAB_ENABLED)\<rparr>) n"

lemma ENABLED_push_bit: "(AVTAB_ENABLED :: u16) = push_bit 15 1"
  by (simp add: push_bit_eq_mult)

lemma enabled_bit: "enabled a ptr \<longleftrightarrow> bit (specified (fst (ptr_node a ptr))) 15"
  unfolding enabled_def ENABLED_push_bit by (rule bit_AND_push_1) simp

lemma bit_ENABLED: "bit (AVTAB_ENABLED :: u16) n \<longleftrightarrow> n = 15"
  unfolding ENABLED_push_bit bit_push_bit_iff by (auto simp: bit_1_iff)

lemma bit_enable_key: "bit (specified (fst (enable_key on n))) 15 \<longleftrightarrow> on"
  using bit_ENABLED [of 15] by (cases n) (simp add: enable_key_def bit_or_iff bit_and_iff bit_not_iff)

lemma word_set_clear:
  "(w OR e) AND NOT e = w AND NOT e" "(w AND NOT e) OR e = w OR e" for w e :: "'a::len word"
  by (rule bit_word_eqI; auto simp: bit_simps)+

lemma enable_key_idem [simp]: "enable_key on (enable_key on' n) = enable_key on n"
  using word_set_clear [where e = "AVTAB_ENABLED :: u16"] by (cases n) (simp add: enable_key_def)

lemma ptr_node_set_enabled:
  "ptr_ok a p \<Longrightarrow> ptr_node (set_enabled on p a) q =
    (if q = p then enable_key on (ptr_node a p) else ptr_node a q)"
  by (cases p; cases q; cases "fst q = fst p")
    (auto simp: ptr_ok_def ptr_node_def set_enabled_def enable_key_def)

lemma ptr_ok_set_enabled [simp]: "ptr_ok (set_enabled on p a) q \<longleftrightarrow> ptr_ok a q"
  by (cases p; cases q; cases "avtable a"; cases "fst p = fst q")
    (auto simp: ptr_ok_def set_enabled_def)

lemma ptr_ok_fold [simp]: "ptr_ok (fold (set_enabled on) ps a) q \<longleftrightarrow> ptr_ok a q"
  by (induction ps arbitrary: a) simp_all

lemma ptr_node_fold:
  "\<forall>p \<in> set ps. ptr_ok a p \<Longrightarrow> ptr_node (fold (set_enabled on) ps a) q =
    (if q \<in> set ps then enable_key on (ptr_node a q) else ptr_node a q)"
  by (induction ps arbitrary: a) (auto simp: ptr_node_set_enabled)

definition node_ptrs :: "cond_node \<Rightarrow> avtab_ptr list" where
  "node_ptrs n = true_list n @ false_list n"

text \<open>The rules of a node are enabled as its recorded state demands.\<close>

definition node_consistent :: "avtab \<Rightarrow> cond_node \<Rightarrow> bool" where
  "node_consistent a n \<longleftrightarrow> (\<forall>p \<in> set (true_list n). enabled a p \<longleftrightarrow> cur_state n > 0) \<and>
     (\<forall>p \<in> set (false_list n). enabled a p \<longleftrightarrow> cur_state n = 0)"

lemma evaluate_cond_node_spec:
  assumes "evaluate_cond_node bs n a = (n', a')" "distinct (node_ptrs n)"
    and "\<forall>p \<in> set (node_ptrs n). ptr_ok a p" "node_consistent a n"
  shows "n' = n\<lparr>cur_state := cond_evaluate_expr bs (cexpr n)\<rparr> \<and> node_consistent a' n' \<and>
    (\<forall>q. ptr_ok a' q \<longleftrightarrow> ptr_ok a q) \<and> (\<forall>q. q \<notin> set (node_ptrs n) \<longrightarrow> ptr_node a' q = ptr_node a q) \<and>
    (\<forall>q. \<exists>on. ptr_node a' q = ptr_node a q \<or> ptr_node a' q = enable_key on (ptr_node a q))"
proof (cases "cond_evaluate_expr bs (cexpr n) = cur_state n")
  case True
  with assms show ?thesis by (auto simp: evaluate_cond_node_def)
next
  case False
  let ?k = "cond_evaluate_expr bs (cexpr n)"
  let ?a1 = "fold (set_enabled (\<not> ?k \<le> 0)) (true_list n) a"
  have a': "a' = fold (set_enabled (?k = 0)) (false_list n) ?a1" and n': "n' = n\<lparr>cur_state := ?k\<rparr>"
    using assms(1) False by (simp_all add: evaluate_cond_node_def Let_def)
  have ok: "\<forall>p \<in> set (true_list n). ptr_ok a p" "\<forall>p \<in> set (false_list n). ptr_ok ?a1 p"
    using assms(3) by (simp_all add: node_ptrs_def)
  have node: "ptr_node a' q = (if q \<in> set (false_list n) then enable_key (?k = 0) (ptr_node a q)
      else if q \<in> set (true_list n) then enable_key (\<not> ?k \<le> 0) (ptr_node a q) else ptr_node a q)" for q
    unfolding a' ptr_node_fold [OF ok(2)] ptr_node_fold [OF ok(1)] by simp
  have "node_consistent a' n'"
    using assms(2) by (auto simp: node_consistent_def n' enabled_bit node bit_enable_key node_ptrs_def)
  moreover have "\<forall>q. ptr_ok a' q \<longleftrightarrow> ptr_ok a q" by (simp add: a')
  moreover have "\<exists>on. ptr_node a' q = ptr_node a q \<or> ptr_node a' q = enable_key on (ptr_node a q)" for q
    unfolding node by auto
  ultimately show ?thesis using node n' by (auto simp: node_ptrs_def)
qed

lemma node_consistent_cong:
  "\<forall>q \<in> set (node_ptrs n). ptr_node a' q = ptr_node a q \<Longrightarrow> node_consistent a' n \<longleftrightarrow> node_consistent a n"
  by (simp add: node_consistent_def enabled_def node_ptrs_def)

lemma evaluate_conds_loop_spec:
  assumes "evaluate_conds_loop bs ns a = (ns', a')" "distinct (concat (map node_ptrs ns))"
    and "\<forall>n \<in> set ns. \<forall>p \<in> set (node_ptrs n). ptr_ok a p" "\<forall>n \<in> set ns. node_consistent a n"
  shows "ns' = map (\<lambda>n. n\<lparr>cur_state := cond_evaluate_expr bs (cexpr n)\<rparr>) ns \<and>
    (\<forall>n \<in> set ns'. node_consistent a' n) \<and> (\<forall>q. ptr_ok a' q \<longleftrightarrow> ptr_ok a q) \<and>
    (\<forall>q. q \<notin> (\<Union>n \<in> set ns. set (node_ptrs n)) \<longrightarrow> ptr_node a' q = ptr_node a q) \<and>
    (\<forall>q. \<exists>on. ptr_node a' q = ptr_node a q \<or> ptr_node a' q = enable_key on (ptr_node a q))"
  using assms
proof (induction ns arbitrary: a ns')
  case (Cons n ns)
  obtain n1 a1 where e: "evaluate_cond_node bs n a = (n1, a1)" by force
  obtain ns1 where l: "evaluate_conds_loop bs ns a1 = (ns1, a')" "ns' = n1 # ns1"
    using Cons.prems(1) e by (cases "evaluate_conds_loop bs ns a1") auto
  have d: "distinct (node_ptrs n)" "distinct (concat (map node_ptrs ns))"
    "set (node_ptrs n) \<inter> (\<Union>m \<in> set ns. set (node_ptrs m)) = {}"
    using Cons.prems(2) by auto
  have "\<forall>p \<in> set (node_ptrs n). ptr_ok a p" "node_consistent a n"
    using Cons.prems(3,4) by simp_all
  note n = evaluate_cond_node_spec [OF e d(1) this]
  have n1: "n1 = n\<lparr>cur_state := cond_evaluate_expr bs (cexpr n)\<rparr>" "node_consistent a1 n1"
    "\<forall>q. ptr_ok a1 q \<longleftrightarrow> ptr_ok a q" "\<forall>q. q \<notin> set (node_ptrs n) \<longrightarrow> ptr_node a1 q = ptr_node a q"
    "\<forall>q. \<exists>on. ptr_node a1 q = ptr_node a q \<or> ptr_node a1 q = enable_key on (ptr_node a q)"
    using n by blast+
  have "\<forall>m \<in> set ns. node_consistent a1 m"
  proof
    fix m
    assume m: "m \<in> set ns"
    then have "\<forall>q \<in> set (node_ptrs m). ptr_node a1 q = ptr_node a q" using n1(4) d(3) by blast
    then show "node_consistent a1 m" using node_consistent_cong [of m a1 a] Cons.prems(4) m by simp
  qed
  then have ih: "ns1 = map (\<lambda>n. n\<lparr>cur_state := cond_evaluate_expr bs (cexpr n)\<rparr>) ns"
    "\<forall>n \<in> set ns1. node_consistent a' n" "\<forall>q. ptr_ok a' q \<longleftrightarrow> ptr_ok a1 q"
    "\<forall>q. q \<notin> (\<Union>n \<in> set ns. set (node_ptrs n)) \<longrightarrow> ptr_node a' q = ptr_node a1 q"
    "\<forall>q. \<exists>on. ptr_node a' q = ptr_node a1 q \<or> ptr_node a' q = enable_key on (ptr_node a1 q)"
    using Cons.IH [OF l(1) d(2)] Cons.prems(3) n1(3) by simp_all
  have ptrs: "node_ptrs n1 = node_ptrs n" by (simp add: n1(1) node_ptrs_def)
  have "\<forall>q \<in> set (node_ptrs n1). ptr_node a' q = ptr_node a1 q"
  proof
    fix q
    assume "q \<in> set (node_ptrs n1)"
    then have "q \<in> set (node_ptrs n)" by (simp only: ptrs)
    then have "q \<notin> (\<Union>n \<in> set ns. set (node_ptrs n))" using d(3) by blast
    then show "ptr_node a' q = ptr_node a1 q" by (rule ih(4) [rule_format])
  qed
  then have "node_consistent a' n1"
    using node_consistent_cong [of n1 a' a1] n1(2) by metis
  then have 2: "\<forall>n \<in> set ns'. node_consistent a' n"
    using ih(2) l(2) by simp
  have 1: "ns' = map (\<lambda>n. n\<lparr>cur_state := cond_evaluate_expr bs (cexpr n)\<rparr>) (n # ns)"
    using ih(1) n1(1) l(2) by (simp only: list.map)
  have 3: "\<forall>q. ptr_ok a' q \<longleftrightarrow> ptr_ok a q" using ih(3) n1(3) by metis
  have 4: "\<forall>q. q \<notin> (\<Union>n \<in> set (n # ns). set (node_ptrs n)) \<longrightarrow> ptr_node a' q = ptr_node a q"
    unfolding list.set UN_insert Un_iff de_Morgan_disj using ih(4) n1(4) by metis
  have "\<forall>q. \<exists>on. ptr_node a' q = ptr_node a q \<or> ptr_node a' q = enable_key on (ptr_node a q)"
    using ih(5) n1(5) by (metis enable_key_idem)
  with 1 2 3 4 show ?case by (intro conjI)
qed simp

text \<open>
  C36: Let every rule belong to one list of one conditional, and let the enabled flags agree with
  the recorded states. After \<open>evaluate_conds\<close> the recorded state of every conditional is the
  value of its expression, a rule of a conditional is enabled exactly when the conditional puts
  it into force, the invariant holds again, and nothing else of the rules has changed.
\<close>

theorem evaluate_conds_enables:
  assumes "distinct (concat (map node_ptrs (cond_list p)))"
    and "\<forall>n \<in> set (cond_list p). \<forall>q \<in> set (node_ptrs n). ptr_ok (te_cond_avtab p) q"
    and "\<forall>n \<in> set (cond_list p). node_consistent (te_cond_avtab p) n"
  shows "cond_list (evaluate_conds p) = map (\<lambda>n. n\<lparr>cur_state :=
      cond_evaluate_expr (bool_val_to_struct p) (cexpr n)\<rparr>) (cond_list p) \<and>
    (\<forall>n \<in> set (cond_list (evaluate_conds p)). node_consistent (te_cond_avtab (evaluate_conds p)) n) \<and>
    (\<forall>n \<in> set (cond_list p). \<forall>q \<in> set (node_ptrs n). enabled (te_cond_avtab (evaluate_conds p)) q \<longleftrightarrow>
      q \<in> set (chosen_rules (bool_val_to_struct p) n)) \<and>
    (\<forall>q. q \<notin> (\<Union>n \<in> set (cond_list p). set (node_ptrs n)) \<longrightarrow>
      ptr_node (te_cond_avtab (evaluate_conds p)) q = ptr_node (te_cond_avtab p) q) \<and>
    (\<forall>q. \<exists>on. ptr_node (te_cond_avtab (evaluate_conds p)) q \<in>
      {ptr_node (te_cond_avtab p) q, enable_key on (ptr_node (te_cond_avtab p) q)})"
proof -
  obtain ns a where l: "evaluate_conds_loop (bool_val_to_struct p) (cond_list p) (te_cond_avtab p) = (ns, a)"
    by force
  then have e: "cond_list (evaluate_conds p) = ns" "te_cond_avtab (evaluate_conds p) = a"
    by (simp_all add: evaluate_conds_def)
  note s = evaluate_conds_loop_spec [OF l assms]
  have "enabled a q \<longleftrightarrow> q \<in> set (chosen_rules (bool_val_to_struct p) n)"
    if n: "n \<in> set (cond_list p)" and q: "q \<in> set (node_ptrs n)" for n q
  proof -
    let ?k = "cond_evaluate_expr (bool_val_to_struct p) (cexpr n)"
    have "distinct (node_ptrs n)" using assms(1) n by (simp add: distinct_concat_iff)
    moreover have "node_consistent a (n\<lparr>cur_state := ?k\<rparr>)" using s n by auto
    ultimately show ?thesis
      using q by (auto simp: node_consistent_def node_ptrs_def chosen_rules_def Let_def)
  qed
  with s e show ?thesis by auto
qed

lemma evaluate_conds_enables_witness:
  "enabled (te_cond_avtab (evaluate_conds sample_policy)) (0, 0)"
proof -
  have c: "distinct (concat (map node_ptrs (cond_list sample_policy)))"
    "\<forall>n \<in> set (cond_list sample_policy). \<forall>q \<in> set (node_ptrs n). ptr_ok (te_cond_avtab sample_policy) q"
    "\<forall>n \<in> set (cond_list sample_policy). node_consistent (te_cond_avtab sample_policy) n"
    "sample_node \<in> set (cond_list sample_policy)" "(0, 0) \<in> set (node_ptrs sample_node)"
    "(0, 0) \<in> set (chosen_rules (bool_val_to_struct sample_policy) sample_node)"
    by (simp_all add: sample_policy_def sample_node_def node_ptrs_def ptr_ok_def one_slot_def
        node_consistent_def enabled_def ptr_node_def chosen_rules_def cond_evaluate_expr_def
        bool_state_def val_struct_def)
  show ?thesis using evaluate_conds_enables [OF c(1-3)] c(4-6) by blast
qed

lemma cond_expr_equal_order_witness:
  "let n1 = (node_of (Bin COND_AND (Leaf 1) (Neg (Leaf 2))))
        \<lparr>nbools := 2, bool_ids := [1, 2, 0, 0, 0], expr_pre_comp := 2\<rparr>;
      n2 = (node_of (Bin COND_XOR (Leaf 1) (Bin COND_AND (Leaf 1) (Leaf 2))))
        \<lparr>nbools := 2, bool_ids := [1, 2, 0, 0, 0], expr_pre_comp := 2\<rparr>
   in cond_expr_equal (Some n1) (Some n2) \<and> cond_evaluate_expr bool_pair (cexpr n1) \<noteq> 0 \<and>
     (cond_evaluate_expr bool_pair (cexpr n1) \<noteq> 0 \<longleftrightarrow> cond_evaluate_expr bool_pair (cexpr n2) \<noteq> 0)"
proof -
  let ?n1 = "(node_of (Bin COND_AND (Leaf 1) (Neg (Leaf 2))))
    \<lparr>nbools := 2, bool_ids := [1, 2, 0, 0, 0], expr_pre_comp := 2\<rparr>"
  let ?n2 = "(node_of (Bin COND_XOR (Leaf 1) (Bin COND_AND (Leaf 1) (Leaf 2))))
    \<lparr>nbools := 2, bool_ids := [1, 2, 0, 0, 0], expr_pre_comp := 2\<rparr>"
  have bits: "bit (2 :: u32) (Suc 0)" "\<not> bit (2 :: u32) 0" "\<not> bit (2 :: u32) 2" "\<not> bit (2 :: u32) 3"
    by (simp_all add: bit_2_iff)
  have n: "normalised ?n1" "normalised ?n2"
    by (auto simp: normalised_def used_ids_def node_of_def table_index_def cond_evaluate_expr_def
        cond_binop_def bits)
  have e: "cond_expr_equal (Some ?n1) (Some ?n2)"
    by (simp add: cond_expr_equal_def same_bools_def bool_present_def less_2_cases_iff)
  have "used_ids ?n1 = used_ids ?n2"
    "\<forall>x \<in> expr_bools (cexpr ?n1) \<union> expr_bools (cexpr ?n2). bool_state bool_pair x \<in> {0, 1}"
    by (simp_all add: used_ids_def node_of_def bool_state_def bool_pair_def val_struct_def)
  with n e have "cond_evaluate_expr bool_pair (cexpr ?n1) \<noteq> 0 \<longleftrightarrow> cond_evaluate_expr bool_pair (cexpr ?n2) \<noteq> 0"
    using cond_expr_equal_order [THEN conjunct1, rule_format, of ?n1 ?n2 bool_pair] by blast
  moreover have "cond_evaluate_expr bool_pair (cexpr ?n1) \<noteq> 0"
    by (simp add: node_of_def bool_pair_def cond_evaluate_expr_def cond_binop_def bool_state_def val_struct_def)
  ultimately show ?thesis unfolding Let_def using e by blast
qed

end
