(* ===== verification/Sidtab.thy ===== *)
theory Sidtab
  imports Symtab Context
begin

text \<open>
  The SID table of \<open>sidtab.c\<close>: security identifiers and the contexts they stand for, in 128
  chains sorted by SID. It is a hash table of fixed size, so the chain lemmas of \<open>Hashtab\<close>
  apply to it. A node is the pair of its SID and its context; the callback of the traversals
  returns its status (0 to go on), the context it leaves in the node and its own state. Locking
  is empty in the code. Table arguments are never \<open>NULL\<close>.
\<close>

unbundle bit_operations_syntax

section \<open>Data and operations\<close>

type_synonym sidtab_node = "u32 \<times> context_struct"

record sidtab =
  shtable :: "sidtab_node list list option"
  snel :: u32
  next_sid :: u32
  shutdown :: bool

abbreviation SIDTAB_SIZE :: u32 where "SIDTAB_SIZE \<equiv> 128"
abbreviation SECINITSID_UNLABELED :: u32 where "SECINITSID_UNLABELED \<equiv> 3"

definition SIDTAB_HASH :: "u32 \<Rightarrow> nat" where
  "SIDTAB_HASH sid = unat (sid AND (SIDTAB_SIZE - 1))"

definition sidtab_init :: "sidtab \<Rightarrow> heap \<Rightarrow> (sidtab \<times> heap) result" where
  "sidtab_init s h = (case malloc h of (ok, h) \<Rightarrow>
     if \<not> ok then Inl ENOMEM
     else Inr (s\<lparr>shtable := Some (replicate (unat SIDTAB_SIZE) []), snel := 0, next_sid := 1,
       shutdown := False\<rparr>, h))"

text \<open>\<open>while (cur != NULL && sid > cur->sid)\<close>: the nodes passed and the rest of the chain.\<close>

fun sid_scan :: "u32 \<Rightarrow> sidtab_node list \<Rightarrow> sidtab_node list \<times> sidtab_node list" where
  "sid_scan sid [] = ([], [])"
| "sid_scan sid (cur # ns) =
     (if sid > fst cur then apfst ((#) cur) (sid_scan sid ns) else ([], cur # ns))"

definition sidtab_insert ::
  "sidtab \<Rightarrow> u32 \<Rightarrow> context_struct \<Rightarrow> heap \<Rightarrow> unit result \<times> sidtab \<times> heap" where
  "sidtab_insert s sid context h = (case shtable s of
       None \<Rightarrow> (Inl ENOMEM, s, h)
     | Some t \<Rightarrow> (case sid_scan sid (t ! SIDTAB_HASH sid) of (before, after) \<Rightarrow>
         if after \<noteq> [] \<and> sid = fst (hd after) then (Inl EEXIST, s, h)
         else case malloc h of (ok, h) \<Rightarrow>
           if \<not> ok then (Inl ENOMEM, s, h)
           else case context_cpy context h of
               Inl _ \<Rightarrow> (Inl ENOMEM, s, h)
             | Inr (c, h) \<Rightarrow>
                 (Inr (), s\<lparr>shtable := Some (t[SIDTAB_HASH sid := before @ (sid, c) # after]),
                    snel := snel s + 1,
                    next_sid := (if sid \<ge> next_sid s then sid + 1 else next_sid s)\<rparr>, h)))"

definition sidtab_search :: "sidtab \<Rightarrow> u32 \<Rightarrow> context_struct option" where
  "sidtab_search s sid = (case shtable s of
       None \<Rightarrow> None
     | Some t \<Rightarrow> (case snd (sid_scan sid (t ! SIDTAB_HASH sid)) of
           cur # _ \<Rightarrow>
             if sid = fst cur then Some (snd cur)
             else (case snd (sid_scan SECINITSID_UNLABELED (t ! SIDTAB_HASH SECINITSID_UNLABELED)) of
                 [] \<Rightarrow> None
               | cur # _ \<Rightarrow> if SECINITSID_UNLABELED = fst cur then Some (snd cur) else None)
         | [] \<Rightarrow> (case snd (sid_scan SECINITSID_UNLABELED (t ! SIDTAB_HASH SECINITSID_UNLABELED)) of
                 [] \<Rightarrow> None
               | cur # _ \<Rightarrow> if SECINITSID_UNLABELED = fst cur then Some (snd cur) else None)))"

type_synonym 's sid_apply = "u32 \<Rightarrow> context_struct \<Rightarrow> 's \<Rightarrow> int \<times> context_struct \<times> 's"

fun sid_chain_map :: "'s sid_apply \<Rightarrow> sidtab_node list \<Rightarrow> 's \<Rightarrow> int \<times> sidtab_node list \<times> 's" where
  "sid_chain_map f [] args = (0, [], args)"
| "sid_chain_map f ((sid, c) # ns) args = (case f sid c args of (ret, c, args) \<Rightarrow>
     if ret \<noteq> 0 then (ret, (sid, c) # ns, args)
     else case sid_chain_map f ns args of (ret, ns, args) \<Rightarrow> (ret, (sid, c) # ns, args))"

fun sid_chains_map ::
  "'s sid_apply \<Rightarrow> sidtab_node list list \<Rightarrow> 's \<Rightarrow> int \<times> sidtab_node list list \<times> 's" where
  "sid_chains_map f [] args = (0, [], args)"
| "sid_chains_map f (ch # cs) args = (case sid_chain_map f ch args of (ret, ch, args) \<Rightarrow>
     if ret \<noteq> 0 then (ret, ch # cs, args)
     else case sid_chains_map f cs args of (ret, cs, args) \<Rightarrow> (ret, ch # cs, args))"

definition sidtab_map :: "sidtab \<Rightarrow> 's sid_apply \<Rightarrow> 's \<Rightarrow> int \<times> sidtab \<times> 's" where
  "sidtab_map s f args = (case shtable s of
       None \<Rightarrow> (0, s, args)
     | Some t \<Rightarrow> (case sid_chains_map f t args of (ret, t, args) \<Rightarrow> (ret, s\<lparr>shtable := Some t\<rparr>, args)))"

text \<open>The number of nodes removed is the third component: \<open>s->nel--\<close> for each.\<close>

fun sid_chain_filter :: "'s sid_apply \<Rightarrow> sidtab_node list \<Rightarrow> 's \<Rightarrow> sidtab_node list \<times> u32 \<times> 's" where
  "sid_chain_filter f [] args = ([], 0, args)"
| "sid_chain_filter f ((sid, c) # ns) args = (case f sid c args of (ret, c, args) \<Rightarrow>
     case sid_chain_filter f ns args of (ns, removed, args) \<Rightarrow>
       if ret \<noteq> 0 then (ns, removed + 1, args) else ((sid, c) # ns, removed, args))"

fun sid_chains_filter ::
  "'s sid_apply \<Rightarrow> sidtab_node list list \<Rightarrow> 's \<Rightarrow> sidtab_node list list \<times> u32 \<times> 's" where
  "sid_chains_filter f [] args = ([], 0, args)"
| "sid_chains_filter f (ch # cs) args = (case sid_chain_filter f ch args of (ch, n, args) \<Rightarrow>
     case sid_chains_filter f cs args of (cs, m, args) \<Rightarrow> (ch # cs, n + m, args))"

definition sidtab_map_remove_on_error :: "sidtab \<Rightarrow> 's sid_apply \<Rightarrow> 's \<Rightarrow> sidtab \<times> 's" where
  "sidtab_map_remove_on_error s f args = (case shtable s of
       None \<Rightarrow> (s, args)
     | Some t \<Rightarrow> (case sid_chains_filter f t args of (t, removed, args) \<Rightarrow>
         (s\<lparr>shtable := Some t, snel := snel s - removed\<rparr>, args)))"

text \<open>\<open>htable\<close> is read without a \<open>NULL\<close> check; 0 is returned for a context without SID.\<close>

definition sidtab_search_context :: "sidtab \<Rightarrow> context_struct \<Rightarrow> u32" where
  "sidtab_search_context s context =
     (case find (\<lambda>n. context_cmp (snd n) context) (concat (the (shtable s))) of
        None \<Rightarrow> 0 | Some n \<Rightarrow> fst n)"

definition sidtab_context_to_sid ::
  "sidtab \<Rightarrow> context_struct \<Rightarrow> heap \<Rightarrow> u32 result \<times> sidtab \<times> heap" where
  "sidtab_context_to_sid s context h =
     (let sid = sidtab_search_context s context in
      if sid \<noteq> 0 then (Inr sid, s, h)
      else if next_sid s = - 1 \<or> shutdown s then (Inl ENOMEM, s, h)
      else let sid = next_sid s in
        case sidtab_insert (s\<lparr>next_sid := next_sid s + 1\<rparr>) sid context h of
          (Inl e, s, h) \<Rightarrow> (Inl e, s\<lparr>next_sid := next_sid s - 1\<rparr>, h)
        | (Inr _, s, h) \<Rightarrow> (Inr sid, s, h))"

definition sidtab_destroy :: "sidtab \<Rightarrow> sidtab" where
  "sidtab_destroy s = (case shtable s of None \<Rightarrow> s
     | Some _ \<Rightarrow> s\<lparr>shtable := None, snel := 0, next_sid := 1\<rparr>)"

definition sidtab_set :: "sidtab \<Rightarrow> sidtab \<Rightarrow> sidtab" where
  "sidtab_set dst src = dst\<lparr>shtable := shtable src, snel := snel src, next_sid := next_sid src,
     shutdown := False\<rparr>"

definition sidtab_shutdown :: "sidtab \<Rightarrow> sidtab" where
  "sidtab_shutdown s = s\<lparr>shutdown := True\<rparr>"

section \<open>The table as a map from SIDs to contexts\<close>

definition sid_hash :: "u32 \<Rightarrow> u32 \<Rightarrow> u32" where
  "sid_hash s k = k AND (s - 1)"

interpretation sid: key_order sid_hash spaceship_cmp
  by unfold_locales (auto simp: sid_hash_def AND_size_less spaceship)

definition sidtab_abs :: "sidtab \<Rightarrow> u32 \<rightharpoonup> context_struct" where
  "sidtab_abs s = (case shtable s of None \<Rightarrow> Map.empty | Some t \<Rightarrow> map_of (concat t))"

definition sidtab_wf :: "sidtab \<Rightarrow> bool" where
  "sidtab_wf s \<longleftrightarrow> (case shtable s of None \<Rightarrow> False
     | Some t \<Rightarrow> chains_wf sid_hash spaceship_cmp SIDTAB_SIZE t) \<and>
     (\<forall>sid c. sidtab_abs s sid = Some c \<longrightarrow> 0 < sid \<and> sid < next_sid s \<and> context_wf c) \<and>
     next_sid s \<noteq> 0"

lemma sid_scan_link:
  "sid_scan sid ch = (b, a) \<Longrightarrow> b @ (sid, c) # a = chain_link spaceship_cmp (sid, c) ch \<and> ch = b @ a"
proof (induction ch arbitrary: b a)
  case (Cons n ns)
  obtain b' a' where r: "sid_scan sid ns = (b', a')" by (cases "sid_scan sid ns")
  with Cons.IH Cons.prems show ?case by (auto simp: spaceship split: if_splits)
qed simp

lemma sid_scan_search:
  "(case snd (sid_scan sid ch) of [] \<Rightarrow> None | cur # _ \<Rightarrow> if sid = fst cur then Some (snd cur) else None)
    = chain_search spaceship_cmp sid ch"
  by (induction ch) (auto simp: Let_def spaceship split: prod.splits)

lemma sid_slot: "unat (sid_hash SIDTAB_SIZE sid) = SIDTAB_HASH sid"
  by (simp add: sid_hash_def SIDTAB_HASH_def)

lemma sid_lookup:
  assumes "chains_wf sid_hash spaceship_cmp SIDTAB_SIZE t"
  shows "chain_search spaceship_cmp sid (t ! SIDTAB_HASH sid) = map_of (concat t) sid"
  using sid.chains_lookup [OF assms, of sid] chains_wfD(1) [OF assms sid.chains_slot [OF assms, of sid]]
  by (simp add: sid_slot sid.chain_search_map_of)

lemma sidtab_search_abs:
  assumes "sidtab_wf s"
  shows "sidtab_search s sid = (case sidtab_abs s sid of
    Some c \<Rightarrow> Some c | None \<Rightarrow> sidtab_abs s SECINITSID_UNLABELED)"
proof -
  obtain t where t: "shtable s = Some t" and wf: "chains_wf sid_hash spaceship_cmp SIDTAB_SIZE t"
    using assms by (auto simp: sidtab_wf_def split: option.splits)
  have *: "sidtab_search s sid = (case chain_search spaceship_cmp sid (t ! SIDTAB_HASH sid) of
      Some c \<Rightarrow> Some c
    | None \<Rightarrow> chain_search spaceship_cmp SECINITSID_UNLABELED (t ! SIDTAB_HASH SECINITSID_UNLABELED))"
    unfolding sid_scan_search [symmetric] sidtab_search_def t option.case
    by (auto split: list.split)
  show ?thesis by (simp add: * sid_lookup [OF wf] sidtab_abs_def t split: option.split)
qed

section \<open>Insertion and allocation\<close>

lemma sidtab_init_wf:
  assumes "sidtab_init s h = Inr (s', h')"
  shows "sidtab_wf s' \<and> sidtab_abs s' = Map.empty"
proof -
  have s': "s' = s\<lparr>shtable := Some (replicate (unat SIDTAB_SIZE) []), snel := 0, next_sid := 1,
      shutdown := False\<rparr>"
    using assms by (auto simp: sidtab_init_def split: prod.splits if_splits)
  have "sidtab_abs s' = Map.empty" by (simp add: s' sidtab_abs_def)
  moreover have "chains_wf sid_hash spaceship_cmp SIDTAB_SIZE (replicate (unat SIDTAB_SIZE) [])"
    by (rule sid.chains_empty) simp
  ultimately show ?thesis by (simp add: sidtab_wf_def s')
qed

lemma sid_scan_after:
  assumes "sid_scan sid ch = (b, a)"
  shows "(a \<noteq> [] \<and> sid = fst (hd a)) \<longleftrightarrow> chain_search spaceship_cmp sid ch \<noteq> None"
proof (cases a)
  case (Cons n ns)
  then show ?thesis using sid_scan_search [of sid ch] assms
    by (cases "sid = fst n") (simp_all, metis option.distinct(1))
qed (use sid_scan_search [of sid ch] assms in simp)

lemma less_plus_one:
  fixes w :: "'a::len word"
  assumes "w \<noteq> - 1"
  shows "w < w + 1" and "w + 1 \<noteq> 0"
proof -
  show "w + 1 \<noteq> 0" using assms by (metis eq_neg_iff_add_eq_0)
  then have "unat (1 + w) = Suc (unat w)" by (intro unatSuc) (simp add: add.commute)
  then show "w < w + 1" by (simp add: word_less_nat_alt add.commute)
qed

lemma sidtab_insert_abs:
  assumes wf: "sidtab_wf s" and c: "context_wf context" and sid: "0 < sid" "sid \<noteq> - 1"
    and ins: "sidtab_insert s sid context h = (r, s', h')"
  shows "sidtab_wf s' \<and> shutdown s' = shutdown s \<and>
    (r = Inr () \<and> sidtab_abs s sid = None \<and> sidtab_abs s' = (sidtab_abs s)(sid \<mapsto> context) \<or>
     r = Inl EEXIST \<and> s' = s \<and> sidtab_abs s sid \<noteq> None \<or>
     r = Inl ENOMEM \<and> s' = s \<and> \<not> mem_ok h)"
proof -
  obtain t where t: "shtable s = Some t" and cwf: "chains_wf sid_hash spaceship_cmp SIDTAB_SIZE t"
    using wf by (auto simp: sidtab_wf_def split: option.splits)
  obtain b a where scan: "sid_scan sid (t ! SIDTAB_HASH sid) = (b, a)"
    by (cases "sid_scan sid (t ! SIDTAB_HASH sid)")
  have abs: "sidtab_abs s sid = chain_search spaceship_cmp sid (t ! SIDTAB_HASH sid)"
    by (simp add: sid_lookup [OF cwf] sidtab_abs_def t)
  obtain ok h1 where m: "malloc h = (ok, h1)" by (cases "malloc h")
  show ?thesis
  proof (cases "a \<noteq> [] \<and> sid = fst (hd a)")
    case True
    with sid_scan_after [OF scan] abs ins t scan wf show ?thesis by (simp add: sidtab_insert_def)
  next
    case new: False
    then have none: "sidtab_abs s sid = None" using sid_scan_after [OF scan] abs by simp
    have ins': "sidtab_insert s sid context h = (if \<not> ok then (Inl ENOMEM, s, h1)
        else case context_cpy context h1 of
            Inl _ \<Rightarrow> (Inl ENOMEM, s, h1)
          | Inr (c, h) \<Rightarrow>
              (Inr (), s\<lparr>shtable := Some (t[SIDTAB_HASH sid := b @ (sid, c) # a]),
                 snel := snel s + 1,
                 next_sid := (if sid \<ge> next_sid s then sid + 1 else next_sid s)\<rparr>, h))"
      by (simp only: sidtab_insert_def t option.case scan prod.case if_not_P [OF new] m)
    show ?thesis
    proof (cases ok)
      case False
      with m have "\<not> mem_ok h" by (auto dest: malloc_okD)
      with False ins ins' wf show ?thesis by simp
    next
      case True
      note cpy = context_cpy_correct [of h1 "context"]
      show ?thesis
      proof (cases "context_cpy context h1")
        case (Inl e)
        then have "\<not> mem_ok h" using cpy m True by (auto dest: malloc_okD)
        with Inl True ins ins' wf show ?thesis by simp
      next
        case (Inr p)
        then obtain h2 where p: "p = (context, h2)" using cpy by (cases p) auto
        let ?t = "t[SIDTAB_HASH sid := b @ (sid, context) # a]"
        have s': "s' = s\<lparr>shtable := Some ?t, snel := snel s + 1,
            next_sid := (if sid \<ge> next_sid s then sid + 1 else next_sid s)\<rparr>" and r: "r = Inr ()"
          using Inr p True ins ins' by simp_all
        have key: "fst (sid, context) \<notin> fst ` set (concat t)"
          using none by (simp only: sidtab_abs_def t option.case map_of_eq_None_iff fst_conv) simp
        have link: "?t = t[SIDTAB_HASH sid := chain_link spaceship_cmp (sid, context) (t ! SIDTAB_HASH sid)]"
          using sid_scan_link [OF scan] by simp
        have slot: "SIDTAB_HASH sid = unat (sid_hash SIDTAB_SIZE (fst (sid, context)))"
          by (simp add: sid_slot)
        note linked = sid.chains_link [OF cwf key slot, folded link]
        have abs': "sidtab_abs s' = (sidtab_abs s)(sid \<mapsto> context)"
          using map_of_mset_add(1) [OF linked(2) sid.chains_distinct [OF linked(1)]]
          by (simp add: sidtab_abs_def s' t)
        have nxt: "next_sid s \<le> next_sid s'" "sid < next_sid s'" "next_sid s' \<noteq> 0"
          using less_plus_one [OF sid(2)] wf by (auto simp: s' sidtab_wf_def not_le intro: less_imp_le)
        then have "\<forall>sid' c'. sidtab_abs s' sid' = Some c' \<longrightarrow> 0 < sid' \<and> sid' < next_sid s' \<and> context_wf c'"
          using wf c sid(1) unfolding abs' sidtab_wf_def by (auto split: if_splits intro: less_le_trans)
        then have "sidtab_wf s'"
          using linked(1) nxt(3) by (simp add: sidtab_wf_def s')
        with abs' none r s' show ?thesis by simp
      qed
    qed
  qed
qed

lemma search_context_abs:
  assumes "sidtab_wf s" and "context_wf c"
  shows "sidtab_search_context s c = 0 \<Longrightarrow>
      \<forall>sid d. sidtab_abs s sid = Some d \<longrightarrow> context_abs d \<noteq> context_abs c"
    and "sidtab_search_context s c \<noteq> 0 \<Longrightarrow>
      \<exists>d. sidtab_abs s (sidtab_search_context s c) = Some d \<and> context_abs d = context_abs c"
proof -
  obtain t where t: "shtable s = Some t" and cwf: "chains_wf sid_hash spaceship_cmp SIDTAB_SIZE t"
    using assms(1) by (auto simp: sidtab_wf_def split: option.splits)
  have mem: "(sid, d) \<in> set (concat t) \<longleftrightarrow> sidtab_abs s sid = Some d" for sid d
    using sid.chains_distinct [OF cwf] by (simp add: sidtab_abs_def t del: set_concat)
  have node: "0 < sid \<and> context_wf d" if "(sid, d) \<in> set (concat t)" for sid d
    using that assms(1) unfolding mem by (auto simp: sidtab_wf_def)
  let ?P = "\<lambda>n. context_cmp (snd n) c"
  have sc: "sidtab_search_context s c = (case find ?P (concat t) of None \<Rightarrow> 0 | Some n \<Rightarrow> fst n)"
    by (simp add: sidtab_search_context_def t)
  show "\<forall>sid d. sidtab_abs s sid = Some d \<longrightarrow> context_abs d \<noteq> context_abs c"
    if zero: "sidtab_search_context s c = 0"
  proof (cases "find ?P (concat t)")
    case None
    then show ?thesis
      using node assms(2) by (auto simp: find_None_iff context_cmp_abs simp flip: mem simp del: set_concat)
  next
    case (Some n)
    then have "n \<in> set (concat t)" by (auto simp: find_Some_iff simp del: set_concat)
    with node [of "fst n" "snd n"] Some sc zero show ?thesis by simp
  qed
  show "\<exists>d. sidtab_abs s (sidtab_search_context s c) = Some d \<and> context_abs d = context_abs c"
    if nonzero: "sidtab_search_context s c \<noteq> 0"
  proof -
    obtain n where n: "find ?P (concat t) = Some n"
      using nonzero sc by (cases "find ?P (concat t)") auto
    then have "n \<in> set (concat t)" and P: "?P n" by (auto simp: find_Some_iff simp del: set_concat)
    then have m: "(fst n, snd n) \<in> set (concat t)" by (simp del: set_concat)
    then have "sidtab_abs s (fst n) = Some (snd n)" by (simp only: mem)
    moreover have "context_abs (snd n) = context_abs c"
      using P node [OF m] assms(2) by (simp add: context_cmp_abs)
    ultimately show ?thesis using sc n by simp
  qed
qed

text \<open>What \<open>sidtab_context_to_sid\<close> promises of its status \<open>r\<close> and the table \<open>s'\<close> it leaves.\<close>

definition sid_allocated ::
  "sidtab \<Rightarrow> context_struct \<Rightarrow> heap \<Rightarrow> u32 result \<Rightarrow> sidtab \<Rightarrow> bool" where
  "sid_allocated s ctx h r s' \<longleftrightarrow> sidtab_wf s' \<and>
     (\<forall>sid c. sidtab_abs s sid = Some c \<longrightarrow> sidtab_abs s' sid = Some c) \<and>
     (\<forall>sid c. sidtab_abs s' sid = Some c \<longrightarrow> sidtab_abs s sid = Some c \<or> c = ctx) \<and>
     (case r of
        Inr sid \<Rightarrow> sid \<noteq> 0 \<and> sidtab_search_context s' ctx = sid \<and>
          (\<exists>c. sidtab_abs s' sid = Some c \<and> context_abs c = context_abs ctx)
      | Inl e \<Rightarrow> e = ENOMEM \<and> s' = s \<and> (next_sid s = - 1 \<or> shutdown s \<or> \<not> mem_ok h))"

lemma context_to_sid_correct:
  assumes wf: "sidtab_wf s" and c: "context_wf ctx"
    and run: "sidtab_context_to_sid s ctx h = (r, s', h')"
  shows "sid_allocated s ctx h r s'"
proof (cases "sidtab_search_context s ctx = 0")
  case False
  with run have "r = Inr (sidtab_search_context s ctx)" "s' = s"
    by (auto simp: sidtab_context_to_sid_def)
  with False wf search_context_abs(2) [OF wf c] show ?thesis by (simp add: sid_allocated_def)
next
  case none: True
  show ?thesis
  proof (cases "next_sid s = - 1 \<or> shutdown s")
    case True
    with none run wf show ?thesis by (auto simp: sidtab_context_to_sid_def sid_allocated_def)
  next
    case False
    let ?s = "s\<lparr>next_sid := next_sid s + 1\<rparr>" and ?sid = "next_sid s"
    have abs: "sidtab_abs ?s = sidtab_abs s" by (simp add: sidtab_abs_def)
    have sid: "?sid < ?sid + 1" "?sid + 1 \<noteq> 0" using less_plus_one False by blast+
    then have wf': "sidtab_wf ?s"
      using wf unfolding sidtab_wf_def abs by (auto intro: less_trans)
    obtain r1 s1 h1 where ins: "sidtab_insert ?s ?sid ctx h = (r1, s1, h1)"
      by (cases "sidtab_insert ?s ?sid ctx h") auto
    have fresh: "sidtab_abs s ?sid = None"
      using wf by (cases "sidtab_abs s ?sid") (auto simp: sidtab_wf_def)
    have "0 < ?sid" using wf by (simp add: sidtab_wf_def word_gt_0)
    note res = sidtab_insert_abs [OF wf' c this _ ins, unfolded abs]
    show ?thesis
    proof (cases r1)
      case (Inl e)
      with res False fresh have "e = ENOMEM" "s1 = ?s" "\<not> mem_ok h" by auto
      with Inl ins none False run wf show ?thesis
        by (auto simp: sidtab_context_to_sid_def Let_def sid_allocated_def)
    next
      case (Inr w)
      with ins none False run have r: "r = Inr ?sid" "s' = s1"
        by (auto simp: sidtab_context_to_sid_def Let_def)
      from Inr res False have s1: "sidtab_wf s1" "sidtab_abs s1 = (sidtab_abs s)(?sid \<mapsto> ctx)"
        by auto
      have "sidtab_search_context s1 ctx = ?sid"
      proof -
        have "sidtab_search_context s1 ctx \<noteq> 0"
          using search_context_abs(1) [OF s1(1) c] s1(2) by (metis fun_upd_same)
        from search_context_abs(2) [OF s1(1) c this] obtain d where
          d: "sidtab_abs s1 (sidtab_search_context s1 ctx) = Some d" "context_abs d = context_abs ctx"
          by blast
        show ?thesis
        proof (rule ccontr)
          assume "sidtab_search_context s1 ctx \<noteq> ?sid"
          with d(1) s1(2) have "sidtab_abs s (sidtab_search_context s1 ctx) = Some d" by simp
          with search_context_abs(1) [OF wf c none] d(2) show False by blast
        qed
      qed
      with r s1 fresh \<open>0 < ?sid\<close> show ?thesis
        by (auto simp: sid_allocated_def word_gt_0)
    qed
  qed
qed

section \<open>Properties\<close>

text \<open>The table that \<open>sepol_sidtab_init\<close> creates.\<close>

definition new_sidtab :: sidtab where
  "new_sidtab = \<lparr>shtable = Some (replicate (unat SIDTAB_SIZE) []), snel = 0, next_sid = 1,
     shutdown = False\<rparr>"

lemma new_sidtab:
  "sidtab_wf new_sidtab" "next_sid new_sidtab = 1" "\<not> shutdown new_sidtab"
  "sidtab_abs new_sidtab = Map.empty"
proof -
  have "sidtab_init new_sidtab [] = Inr (new_sidtab, [])"
    by (simp add: sidtab_init_def new_sidtab_def)
  from sidtab_init_wf [OF this] show "sidtab_wf new_sidtab" "sidtab_abs new_sidtab = Map.empty"
    by simp_all
qed (simp_all add: new_sidtab_def)

text \<open>
  C32: Allocation of SIDs. On a well-formed table \<open>sepol_sidtab_context_to_sid\<close> keeps every
  existing assignment; when it succeeds, the returned SID is not 0, a search for it returns a
  context equal to the argument, and asking again returns the same SID without changing the
  table; it fails only with \<open>ENOMEM\<close>, when memory or the SIDs are exhausted or the table is shut
  down, and leaves the table as it was.
\<close>

theorem sidtab_context_to_sid_stable:
  assumes "sidtab_wf s" and "context_wf ctx"
  shows "case sidtab_context_to_sid s ctx h of (r, s', h') \<Rightarrow> sidtab_wf s' \<and>
    (\<forall>sid c. sidtab_abs s sid = Some c \<longrightarrow> sidtab_search s' sid = Some c) \<and>
    (case r of
       Inr sid \<Rightarrow> sid \<noteq> 0 \<and> sidtab_context_to_sid s' ctx h2 = (Inr sid, s', h2) \<and>
         (\<exists>c. sidtab_search s' sid = Some c \<and> context_cmp c ctx)
     | Inl e \<Rightarrow> e = ENOMEM \<and> s' = s \<and> (next_sid s = - 1 \<or> shutdown s \<or> \<not> mem_ok h))"
proof -
  obtain r s' h' where run: "sidtab_context_to_sid s ctx h = (r, s', h')"
    by (cases "sidtab_context_to_sid s ctx h") auto
  have res: "sid_allocated s ctx h r s'" by (rule context_to_sid_correct [OF assms run])
  then have wf: "sidtab_wf s'" by (simp add: sid_allocated_def)
  then have cwf: "context_wf c" if "sidtab_abs s' sid = Some c" for sid c
    using that by (simp add: sidtab_wf_def)
  show ?thesis
  proof (cases r)
    case (Inl e)
    with res wf show ?thesis
      by (auto simp: run sid_allocated_def sidtab_search_abs)
  next
    case (Inr sid)
    with res have "sidtab_context_to_sid s' ctx h2 = (Inr sid, s', h2)"
      by (simp add: sid_allocated_def sidtab_context_to_sid_def)
    with Inr res wf show ?thesis
      using cwf assms(2) by (auto simp: run sid_allocated_def sidtab_search_abs context_cmp_abs)
  qed
qed

theorem sidtab_context_to_sid_stable_witness:
  "case sidtab_context_to_sid new_sidtab context_init [] of (r, s', h') \<Rightarrow>
    sidtab_wf s' \<and> (\<exists>sid. r = Inr sid \<and> sid \<noteq> 0)"
  using sidtab_context_to_sid_stable [OF new_sidtab(1) context_init_wf, of "[]"]
  by (cases "fst (sidtab_context_to_sid new_sidtab context_init [])") (auto simp: new_sidtab)

end
