(* ===== verification/Access.thy ===== *)
theory Access
  imports Conditional Sidtab Sample_Policy
begin

text \<open>
  Access decisions of the security server (\<open>services.c\<close>): the evaluation of constraints, the
  computation of an access vector for a pair of contexts, and the checks of a transition.

  \<open>constraint_expr_eval_reason\<close> also builds a textual explanation. The text is left out, but not its
  buffers: the function returns \<open>-ENOMEM\<close> when it cannot allocate one, and its callers take any value
  but zero for a grant. The value is zero (denied), positive (granted) or a negative error code, so it is a
  \<open>bool result\<close>, and the outcomes of these allocations come from a heap. Failures that the function tolerates
  are not among them: of \<open>strdup\<close>, and of the \<open>realloc\<close> that lengthens the text of an expression. The call of
  \<open>get_class_info\<close> is one outcome, whether it returns a buffer, however often it lengthens it. Two failures with
  undefined behaviour are left out: that of the static stack of the conversion to infix, after which \<open>pop\<close> returns \<open>NULL\<close> to
  \<open>strlen\<close>, and the clean-up after an early exit, which frees the entries of the list of buffers up to a \<open>NULL\<close>
  that nothing has stored.
  As in \<open>Conditional\<close> the array \<open>s[]\<close> is a list with the top first. The cells hold 0 or 1 and are booleans here.
\<close>

unbundle bit_operations_syntax

section \<open>Constraints\<close>

abbreviation CEXPR_NOT :: u32 where "CEXPR_NOT \<equiv> 1"
abbreviation CEXPR_AND :: u32 where "CEXPR_AND \<equiv> 2"
abbreviation CEXPR_OR :: u32 where "CEXPR_OR \<equiv> 3"
abbreviation CEXPR_ATTR :: u32 where "CEXPR_ATTR \<equiv> 4"
abbreviation CEXPR_NAMES :: u32 where "CEXPR_NAMES \<equiv> 5"
abbreviation CEXPR_USER :: u32 where "CEXPR_USER \<equiv> 1"
abbreviation CEXPR_ROLE :: u32 where "CEXPR_ROLE \<equiv> 2"
abbreviation CEXPR_TYPE :: u32 where "CEXPR_TYPE \<equiv> 4"
abbreviation CEXPR_TARGET :: u32 where "CEXPR_TARGET \<equiv> 8"
abbreviation CEXPR_XTARGET :: u32 where "CEXPR_XTARGET \<equiv> 16"
abbreviation CEXPR_L1L2 :: u32 where "CEXPR_L1L2 \<equiv> 32"
abbreviation CEXPR_L1H2 :: u32 where "CEXPR_L1H2 \<equiv> 64"
abbreviation CEXPR_H1L2 :: u32 where "CEXPR_H1L2 \<equiv> 128"
abbreviation CEXPR_H1H2 :: u32 where "CEXPR_H1H2 \<equiv> 256"
abbreviation CEXPR_L1H1 :: u32 where "CEXPR_L1H1 \<equiv> 512"
abbreviation CEXPR_L2H2 :: u32 where "CEXPR_L2H2 \<equiv> 1024"
abbreviation CEXPR_EQ :: u32 where "CEXPR_EQ \<equiv> 1"
abbreviation CEXPR_NEQ :: u32 where "CEXPR_NEQ \<equiv> 2"
abbreviation CEXPR_DOM :: u32 where "CEXPR_DOM \<equiv> 3"
abbreviation CEXPR_DOMBY :: u32 where "CEXPR_DOMBY \<equiv> 4"
abbreviation CEXPR_INCOMP :: u32 where "CEXPR_INCOMP \<equiv> 5"
abbreviation CEXPR_MAXDEPTH :: nat where "CEXPR_MAXDEPTH \<equiv> 5"

text \<open>The value an operand pushes; \<open>None\<close> is the branch \<open>BUG(); goto out\<close>.\<close>

definition cexpr_compare :: "u32 \<Rightarrow> u32 \<Rightarrow> u32 \<Rightarrow> bool option" where
  "cexpr_compare op val1 val2 =
     (if op = CEXPR_EQ then Some (val1 = val2)
      else if op = CEXPR_NEQ then Some (val1 \<noteq> val2)
      else None)"

definition cexpr_role :: "policydb \<Rightarrow> u32 \<Rightarrow> u32 \<Rightarrow> u32 \<Rightarrow> bool option" where
  "cexpr_role p op val1 val2 =
     (let r1 = the (val_struct (role_val_to_struct p) val1);
          r2 = the (val_struct (role_val_to_struct p) val2) in
      if op = CEXPR_DOM then Some (ebitmap_get_bit (dominates r1) (val2 - 1))
      else if op = CEXPR_DOMBY then Some (ebitmap_get_bit (dominates r2) (val1 - 1))
      else if op = CEXPR_INCOMP
      then Some (\<not> ebitmap_get_bit (dominates r1) (val2 - 1) \<and>
        \<not> ebitmap_get_bit (dominates r2) (val1 - 1))
      else cexpr_compare op val1 val2)"

definition cexpr_levels :: "u32 \<Rightarrow> mls_level \<Rightarrow> mls_level \<Rightarrow> bool option" where
  "cexpr_levels op l1 l2 =
     (if op = CEXPR_EQ then Some (mls_level_eq l1 l2)
      else if op = CEXPR_NEQ then Some (\<not> mls_level_eq l1 l2)
      else if op = CEXPR_DOM then Some (mls_level_dom l1 l2)
      else if op = CEXPR_DOMBY then Some (mls_level_dom l2 l1)
      else if op = CEXPR_INCOMP then Some (mls_level_incomp l2 l1)
      else None)"

definition cexpr_attr :: "policydb \<Rightarrow> context_struct \<Rightarrow> context_struct \<Rightarrow> constraint_expr \<Rightarrow> bool option" where
  "cexpr_attr p scontext tcontext e =
     (let a = cattr e; op = cop e; sr = crange scontext; tr = crange tcontext in
      if a = CEXPR_USER then cexpr_compare op (cuser scontext) (cuser tcontext)
      else if a = CEXPR_TYPE then cexpr_compare op (ctype scontext) (ctype tcontext)
      else if a = CEXPR_ROLE then cexpr_role p op (crole scontext) (crole tcontext)
      else if a = CEXPR_L1L2 then cexpr_levels op (low sr) (low tr)
      else if a = CEXPR_L1H2 then cexpr_levels op (low sr) (high tr)
      else if a = CEXPR_H1L2 then cexpr_levels op (high sr) (low tr)
      else if a = CEXPR_H1H2 then cexpr_levels op (high sr) (high tr)
      else if a = CEXPR_L1H1 then cexpr_levels op (low sr) (high sr)
      else if a = CEXPR_L2H2 then cexpr_levels op (low tr) (high tr)
      else None)"

definition cexpr_names ::
  "context_struct \<Rightarrow> context_struct \<Rightarrow> context_struct option \<Rightarrow> constraint_expr \<Rightarrow> bool option" where
  "cexpr_names scontext tcontext xcontext e =
     (case (if cattr e AND CEXPR_TARGET \<noteq> 0 then Some tcontext
            else if cattr e AND CEXPR_XTARGET \<noteq> 0 then xcontext
            else Some scontext) of
        None \<Rightarrow> None
      | Some c \<Rightarrow>
          (case (if cattr e AND CEXPR_USER \<noteq> 0 then Some (cuser c)
                 else if cattr e AND CEXPR_ROLE \<noteq> 0 then Some (crole c)
                 else if cattr e AND CEXPR_TYPE \<noteq> 0 then Some (ctype c)
                 else None) of
             None \<Rightarrow> None
           | Some val1 \<Rightarrow>
               if cop e = CEXPR_EQ then Some (ebitmap_get_bit (cnames e) (val1 - 1))
               else if cop e = CEXPR_NEQ then Some (\<not> ebitmap_get_bit (cnames e) (val1 - 1))
               else None))"

text \<open>
  One expression, on the stack. \<open>Inr None\<close> is a jump to \<open>out\<close> while \<open>rc\<close> is still 0: the constraint
  denies.
\<close>

definition cexpr_step ::
  "policydb \<Rightarrow> context_struct \<Rightarrow> context_struct \<Rightarrow> context_struct option \<Rightarrow> constraint_expr \<Rightarrow>
     bool list \<Rightarrow> bool list option result" where
  "cexpr_step p sc tc xc e s =
     (if expr_type e = CEXPR_NOT
      then (case s of [] \<Rightarrow> Inl EINVAL | a # s \<Rightarrow> Inr (Some ((\<not> a) # s)))
      else if expr_type e = CEXPR_AND
      then (case s of b # a # s \<Rightarrow> Inr (Some ((a \<and> b) # s)) | _ \<Rightarrow> Inl EINVAL)
      else if expr_type e = CEXPR_OR
      then (case s of b # a # s \<Rightarrow> Inr (Some ((a \<or> b) # s)) | _ \<Rightarrow> Inl EINVAL)
      else if expr_type e = CEXPR_ATTR
      then (if length s = CEXPR_MAXDEPTH then Inr None
        else Inr (map_option (\<lambda>v. v # s) (cexpr_attr p sc tc e)))
      else if expr_type e = CEXPR_NAMES
      then (if length s = CEXPR_MAXDEPTH then Inr None
        else Inr (map_option (\<lambda>v. v # s) (cexpr_names sc tc xc e)))
      else Inr None)"

abbreviation STACK_LEN :: nat where "STACK_LEN \<equiv> 32"

text \<open>
  The loop over the expressions. \<open>k\<close> is \<open>expr_counter\<close> and \<open>len\<close> the length of the list of text
  buffers, which is lengthened when it is full; then a buffer is allocated for the expression.
\<close>

fun cexpr_run ::
  "policydb \<Rightarrow> context_struct \<Rightarrow> context_struct \<Rightarrow> context_struct option \<Rightarrow> constraint_expr list \<Rightarrow>
     bool list \<Rightarrow> nat \<Rightarrow> nat \<Rightarrow> heap \<Rightarrow> bool list option result \<times> heap" where
  "cexpr_run p sc tc xc [] s k len h = (Inr (Some s), h)"
| "cexpr_run p sc tc xc (e # es) s k len h =
     (case (if k \<ge> len then malloc h else (True, h)) of (ok, h) \<Rightarrow>
      if \<not> ok then (Inl ENOMEM, h)
      else let len = (if k \<ge> len then if len = 0 then STACK_LEN else len * 2 else len) in
        case malloc h of (ok, h) \<Rightarrow>
        if \<not> ok then (Inl ENOMEM, h)
        else case cexpr_step p sc tc xc e s of
            Inr (Some s) \<Rightarrow> cexpr_run p sc tc xc es s (k + 1) len h
          | r \<Rightarrow> (r, h))"

definition is_operator :: "constraint_expr \<Rightarrow> bool" where
  "is_operator e \<longleftrightarrow> expr_type e = CEXPR_NOT \<or> expr_type e = CEXPR_AND \<or> expr_type e = CEXPR_OR"

text \<open>The conversion of the text to infix form: a buffer for the answer of each operator.\<close>

fun cexpr_infix :: "constraint_expr list \<Rightarrow> heap \<Rightarrow> bool \<times> heap" where
  "cexpr_infix [] h = (True, h)"
| "cexpr_infix (e # es) h =
     (if is_operator e
      then case malloc h of (ok, h) \<Rightarrow> if \<not> ok then (False, h) else cexpr_infix es h
      else cexpr_infix es h)"

text \<open>
  The first outcome is that of \<open>get_class_info\<close>, the one after the loop that of the list of answers. The
  result is \<open>s[0]\<close>, which is initialised to 0.
\<close>

definition constraint_expr_eval ::
  "policydb \<Rightarrow> context_struct \<Rightarrow> context_struct \<Rightarrow> context_struct option \<Rightarrow> constraint_node \<Rightarrow> heap \<Rightarrow>
     bool result \<times> heap" where
  "constraint_expr_eval p sc tc xc c h = (case malloc h of (ok, h) \<Rightarrow>
     if \<not> ok then (Inl ENOMEM, h)
     else case cexpr_run p sc tc xc (cnode_expr c) [] 0 0 h of
         (Inl e, h) \<Rightarrow> (Inl e, h)
       | (Inr None, h) \<Rightarrow> (Inr False, h)
       | (Inr (Some s), h) \<Rightarrow> (case malloc h of (ok, h) \<Rightarrow>
           if \<not> ok then (Inl ENOMEM, h)
           else case cexpr_infix (cnode_expr c) h of (ok, h) \<Rightarrow>
             if \<not> ok then (Inl ENOMEM, h) else (Inr (s \<noteq> [] \<and> last s), h)))"

section \<open>Access vectors\<close>

abbreviation COMPUTEAV_TE :: u32 where "COMPUTEAV_TE \<equiv> 1"
abbreviation COMPUTEAV_CONS :: u32 where "COMPUTEAV_CONS \<equiv> 2"
abbreviation COMPUTEAV_RBAC :: u32 where "COMPUTEAV_RBAC \<equiv> 4"
abbreviation COMPUTEAV_BOUNDS :: u32 where "COMPUTEAV_BOUNDS \<equiv> 8"

definition te_node_av :: "avtab_node \<Rightarrow> sepol_av_decision \<Rightarrow> sepol_av_decision" where
  "te_node_av n avd =
     (if specified (fst n) = AVTAB_ALLOWED then avd\<lparr>allowed := allowed avd OR data (snd n)\<rparr>
      else if specified (fst n) = AVTAB_AUDITALLOW
      then avd\<lparr>auditallow := auditallow avd OR data (snd n)\<rparr>
      else if specified (fst n) = AVTAB_AUDITDENY
      then avd\<lparr>auditdeny := auditdeny avd AND data (snd n)\<rparr>
      else avd)"

definition pair_av :: "policydb \<Rightarrow> u16 \<Rightarrow> u32 \<Rightarrow> u32 \<Rightarrow> sepol_av_decision \<Rightarrow> sepol_av_decision" where
  "pair_av p tcl i j avd =
     (let avkey = \<lparr>source_type = ucast (i + 1), target_type = ucast (j + 1), target_class = tcl,
            specified = AVTAB_AV\<rparr>;
          nodes = avtab_node_loop (avtab_search_node (te_avtab p) avkey) (ucast (specified avkey))
      in cond_compute_av (te_cond_avtab p) avkey (fold te_node_av nodes avd))"

definition type_attrs :: "policydb \<Rightarrow> u32 \<Rightarrow> ebitmap" where
  "type_attrs p t = type_attr_map p ! unat (t - 1)"

definition te_av ::
  "policydb \<Rightarrow> context_struct \<Rightarrow> context_struct \<Rightarrow> u16 \<Rightarrow> sepol_av_decision \<Rightarrow> sepol_av_decision" where
  "te_av p sc tc tcl avd =
     fold (\<lambda>i. fold (pair_av p tcl i) (ebitmap_positive_bits (type_attrs p (ctype tc))))
       (ebitmap_positive_bits (type_attrs p (ctype sc))) avd"

text \<open>An error code of the evaluator is not zero, so the permissions stay allowed.\<close>

definition constraint_av ::
  "policydb \<Rightarrow> context_struct \<Rightarrow> context_struct \<Rightarrow> constraint_node \<Rightarrow> sepol_av_decision \<times> heap \<Rightarrow>
     sepol_av_decision \<times> heap" where
  "constraint_av p sc tc c ah = (case ah of (avd, h) \<Rightarrow>
     if permissions c AND allowed avd = 0 then (avd, h)
     else case constraint_expr_eval p sc tc None c h of (r, h) \<Rightarrow>
       ((if r = Inr False then avd\<lparr>allowed := allowed avd AND NOT (permissions c)\<rparr> else avd), h))"

definition role_av ::
  "policydb \<Rightarrow> context_struct \<Rightarrow> context_struct \<Rightarrow> u16 \<Rightarrow> sepol_av_decision \<Rightarrow> sepol_av_decision" where
  "role_av p sc tc tcl avd =
     (if tcl = process_class p \<and> allowed avd AND process_trans_dyntrans p \<noteq> 0 \<and> crole sc \<noteq> crole tc \<and>
         \<not> (\<exists>ra \<in> set (role_allows p). crole sc = ra_role ra \<and> crole tc = ra_new_role ra)
      then avd\<lparr>allowed := allowed avd AND NOT (process_trans_dyntrans p)\<rparr> else avd)"

definition add_reason :: "u32 \<Rightarrow> sepol_av_decision \<Rightarrow> u32 \<times> u32 \<Rightarrow> u32 \<times> u32" where
  "add_reason flag avd rr = (case rr of (requested, reason) \<Rightarrow>
     if requested AND NOT (allowed avd) \<noteq> 0
     then (requested AND allowed avd, reason OR flag) else (requested, reason))"

definition new_avd :: "u32 \<Rightarrow> sepol_av_decision" where
  "new_avd latest_granting = \<lparr>allowed = 0, decided = 0xffffffff, auditallow = 0,
     auditdeny = 0xffffffff, seqno = latest_granting\<rparr>"

text \<open>
  The two functions call each other down the chain of type bounds. The first argument limits the
  depth of the recursion: \<open>None\<close> stands for a computation that goes deeper. The \<open>reason\<close> is
  computed even where the code passes \<open>NULL\<close>; it does not influence the decision.
\<close>

function type_attribute_bounds_av ::
    "nat \<Rightarrow> policydb \<Rightarrow> u32 \<Rightarrow> context_struct \<Rightarrow> context_struct \<Rightarrow> u16 \<Rightarrow> u32 \<Rightarrow>
       sepol_av_decision \<Rightarrow> u32 \<Rightarrow> heap \<Rightarrow> ((sepol_av_decision \<times> u32) \<times> heap) option"
  and context_struct_compute_av ::
    "nat \<Rightarrow> policydb \<Rightarrow> u32 \<Rightarrow> context_struct \<Rightarrow> context_struct \<Rightarrow> u16 \<Rightarrow> u32 \<Rightarrow>
       heap \<Rightarrow> ((sepol_av_decision \<times> u32) result \<times> heap) option" where
  "type_attribute_bounds_av n p lg sc tc tcl requested avd reason h =
     (let source = the (val_struct (type_val_to_struct p) (ctype sc));
          target = the (val_struct (type_val_to_struct p) (ctype tc)) in
      if type_bounds source = 0 then Some ((avd, reason), h)
      else let lo_sc = sc\<lparr>ctype := type_bounds source\<rparr>;
               lo_tc = (if type_bounds target \<noteq> 0 then tc\<lparr>ctype := type_bounds target\<rparr> else tc) in
        case context_struct_compute_av n p lg lo_sc lo_tc tcl requested h of
          None \<Rightarrow> None
        | Some (r, h) \<Rightarrow>
            let lo_allowed = (case r of Inl _ \<Rightarrow> 0 | Inr (lo_avd, _) \<Rightarrow> allowed lo_avd);
                masked = NOT lo_allowed AND allowed avd in
            if masked = 0 then Some ((avd, reason), h)
            else Some ((avd\<lparr>allowed := allowed avd AND NOT masked\<rparr>, reason OR COMPUTEAV_BOUNDS), h))"
| "context_struct_compute_av 0 p lg sc tc tcl requested h = None"
| "context_struct_compute_av (Suc n) p lg sc tc tcl requested h =
     (if tcl = 0 \<or> ucast tcl > nprim (p_classes p) then Some (Inl EINVAL, h)
      else let tclass_datum = the (val_struct (class_val_to_struct p) (ucast tcl));
               avd = te_av p sc tc tcl (new_avd lg);
               (requested, reason) = add_reason COMPUTEAV_TE avd (requested, 0);
               (avd, h) = fold (constraint_av p sc tc) (constraints tclass_datum) (avd, h);
               (requested, reason) = add_reason COMPUTEAV_CONS avd (requested, reason);
               avd = role_av p sc tc tcl avd;
               (requested, reason) = add_reason COMPUTEAV_RBAC avd (requested, reason)
        in map_option (apfst Inr) (type_attribute_bounds_av n p lg sc tc tcl requested avd reason h))"
  by pat_completeness auto

termination
  by (relation "measure (case_sum (\<lambda>x. 2 * fst x + 1) (\<lambda>x. 2 * fst x))") auto

declare type_attribute_bounds_av.simps [simp del]
declare context_struct_compute_av.simps(2) [simp del]

text \<open>The functions on security identifiers.\<close>

definition compute_av_reason ::
  "nat \<Rightarrow> policydb \<Rightarrow> u32 \<Rightarrow> sidtab \<Rightarrow> u32 \<Rightarrow> u32 \<Rightarrow> u16 \<Rightarrow> u32 \<Rightarrow> heap \<Rightarrow>
     ((sepol_av_decision \<times> u32) result \<times> heap) option" where
  "compute_av_reason n p lg st ssid tsid tcl requested h =
     (case sidtab_search st ssid of
        None \<Rightarrow> Some (Inl EINVAL, h)
      | Some scontext \<Rightarrow> (case sidtab_search st tsid of
          None \<Rightarrow> Some (Inl EINVAL, h)
        | Some tcontext \<Rightarrow> context_struct_compute_av n p lg scontext tcontext tcl requested h))"

definition compute_av ::
  "nat \<Rightarrow> policydb \<Rightarrow> u32 \<Rightarrow> sidtab \<Rightarrow> u32 \<Rightarrow> u32 \<Rightarrow> u16 \<Rightarrow> u32 \<Rightarrow> heap \<Rightarrow>
     (sepol_av_decision result \<times> heap) option" where
  "compute_av n p lg st ssid tsid tcl requested h =
     map_option (apfst (map_sum id fst)) (compute_av_reason n p lg st ssid tsid tcl requested h)"

fun validate_loop ::
  "policydb \<Rightarrow> context_struct \<Rightarrow> context_struct \<Rightarrow> context_struct \<Rightarrow> constraint_node list \<Rightarrow> heap \<Rightarrow>
     unit result \<times> heap" where
  "validate_loop p oc nc tc [] h = (Inr (), h)"
| "validate_loop p oc nc tc (c # cs) h = (case constraint_expr_eval p oc nc (Some tc) c h of (r, h) \<Rightarrow>
     if r = Inr False then (Inl EPERM, h) else validate_loop p oc nc tc cs h)"

definition validate_transition ::
  "policydb \<Rightarrow> sidtab \<Rightarrow> u32 \<Rightarrow> u32 \<Rightarrow> u32 \<Rightarrow> u16 \<Rightarrow> heap \<Rightarrow> unit result \<times> heap" where
  "validate_transition p st oldsid newsid tasksid tcl h =
     (if tcl = 0 \<or> ucast tcl > nprim (p_classes p) then (Inl EINVAL, h)
      else let tclass_datum = the (val_struct (class_val_to_struct p) (ucast tcl)) in
        case sidtab_search st oldsid of None \<Rightarrow> (Inl EINVAL, h) | Some ocontext \<Rightarrow>
        case sidtab_search st newsid of None \<Rightarrow> (Inl EINVAL, h) | Some ncontext \<Rightarrow>
        case sidtab_search st tasksid of None \<Rightarrow> (Inl EINVAL, h) | Some tcontext \<Rightarrow>
          validate_loop p ocontext ncontext tcontext (validatetrans tclass_datum) h)"

section \<open>The evaluator computes the constraint\<close>

datatype cons_tree = Atom constraint_expr | CNot cons_tree | CAnd cons_tree cons_tree | COr cons_tree cons_tree

fun cons_postfix :: "cons_tree \<Rightarrow> constraint_expr list" where
  "cons_postfix (Atom e) = [e]"
| "cons_postfix (CNot t) = cons_postfix t @ [\<lparr>expr_type = CEXPR_NOT, cattr = 0, cop = 0, cnames = ebitmap_init, type_names = type_set_init\<rparr>]"
| "cons_postfix (CAnd t u) = cons_postfix t @ cons_postfix u @ [\<lparr>expr_type = CEXPR_AND, cattr = 0, cop = 0, cnames = ebitmap_init, type_names = type_set_init\<rparr>]"
| "cons_postfix (COr t u) = cons_postfix t @ cons_postfix u @ [\<lparr>expr_type = CEXPR_OR, cattr = 0, cop = 0, cnames = ebitmap_init, type_names = type_set_init\<rparr>]"

fun cons_need :: "cons_tree \<Rightarrow> nat" where
  "cons_need (Atom e) = 1"
| "cons_need (CNot t) = cons_need t"
| "cons_need (CAnd t u) = max (cons_need t) (1 + cons_need u)"
| "cons_need (COr t u) = max (cons_need t) (1 + cons_need u)"

definition atom_val ::
  "policydb \<Rightarrow> context_struct \<Rightarrow> context_struct \<Rightarrow> context_struct option \<Rightarrow> constraint_expr \<Rightarrow> bool option" where
  "atom_val p sc tc xc e = (if expr_type e = CEXPR_ATTR then cexpr_attr p sc tc e
     else if expr_type e = CEXPR_NAMES then cexpr_names sc tc xc e else None)"

fun cons_atoms :: "cons_tree \<Rightarrow> constraint_expr set" where
  "cons_atoms (Atom e) = {e}"
| "cons_atoms (CNot t) = cons_atoms t"
| "cons_atoms (CAnd t u) = cons_atoms t \<union> cons_atoms u"
| "cons_atoms (COr t u) = cons_atoms t \<union> cons_atoms u"

fun cons_holds :: "(constraint_expr \<Rightarrow> bool option) \<Rightarrow> cons_tree \<Rightarrow> bool" where
  "cons_holds v (Atom e) = the (v e)"
| "cons_holds v (CNot t) = (\<not> cons_holds v t)"
| "cons_holds v (CAnd t u) = (cons_holds v t \<and> cons_holds v u)"
| "cons_holds v (COr t u) = (cons_holds v t \<or> cons_holds v u)"

definition is_operand :: "constraint_expr \<Rightarrow> bool" where
  "is_operand e \<longleftrightarrow> expr_type e = CEXPR_ATTR \<or> expr_type e = CEXPR_NAMES"

lemma cons_need_pos: "0 < cons_need t"
  by (induction t) simp_all

text \<open>The expressions alone, when all their buffers can be allocated, and the value of a constraint then.\<close>

fun cexpr_steps ::
  "policydb \<Rightarrow> context_struct \<Rightarrow> context_struct \<Rightarrow> context_struct option \<Rightarrow> constraint_expr list \<Rightarrow>
     bool list \<Rightarrow> bool list option result" where
  "cexpr_steps p sc tc xc [] s = Inr (Some s)"
| "cexpr_steps p sc tc xc (e # es) s = (case cexpr_step p sc tc xc e s of
       Inr (Some s) \<Rightarrow> cexpr_steps p sc tc xc es s
     | r \<Rightarrow> r)"

definition constraint_value ::
  "policydb \<Rightarrow> context_struct \<Rightarrow> context_struct \<Rightarrow> context_struct option \<Rightarrow> constraint_node \<Rightarrow> bool result" where
  "constraint_value p sc tc xc c = (case cexpr_steps p sc tc xc (cnode_expr c) [] of
       Inl e \<Rightarrow> Inl e
     | Inr None \<Rightarrow> Inr False
     | Inr (Some s) \<Rightarrow> Inr (s \<noteq> [] \<and> last s))"

lemma cexpr_steps_postfix:
  assumes "\<forall>e \<in> cons_atoms t. is_operand e" "length s \<le> CEXPR_MAXDEPTH"
  shows "cexpr_steps p sc tc xc (cons_postfix t @ es) s =
    (if length s + cons_need t \<le> CEXPR_MAXDEPTH \<and> (\<forall>e \<in> cons_atoms t. atom_val p sc tc xc e \<noteq> None)
     then cexpr_steps p sc tc xc es (cons_holds (atom_val p sc tc xc) t # s)
     else Inr None)"
  using assms
proof (induction t arbitrary: es s)
  case (Atom e)
  have "(length s = CEXPR_MAXDEPTH) = (\<not> length s + 1 \<le> CEXPR_MAXDEPTH)"
    using Atom.prems(2) by linarith
  with Atom.prems show ?case
    by (cases "atom_val p sc tc xc e") (auto simp: is_operand_def atom_val_def cexpr_step_def)
next
  case (CNot t)
  then show ?case by (auto simp: cexpr_step_def)
next
  case (CAnd t u)
  let ?op = "\<lparr>expr_type = CEXPR_AND, cattr = 0, cop = 0, cnames = ebitmap_init, type_names = type_set_init\<rparr>"
  note t = CAnd.IH(1) [of s "cons_postfix u @ ?op # es"]
  note u = CAnd.IH(2) [of "cons_holds (atom_val p sc tc xc) t # s" "?op # es"]
  show ?case
  proof (cases "length s + cons_need t \<le> CEXPR_MAXDEPTH")
    case True
    then have "Suc (length s) \<le> CEXPR_MAXDEPTH" using cons_need_pos [of t] by simp
    then show ?thesis
      using t u CAnd.prems nat_add_max_right [of "length s" "cons_need t" "Suc (cons_need u)"] True by (auto simp: cexpr_step_def)
  qed (use t CAnd.prems nat_add_max_right [of "length s" "cons_need t" "Suc (cons_need u)"] in auto)
next
  case (COr t u)
  let ?op = "\<lparr>expr_type = CEXPR_OR, cattr = 0, cop = 0, cnames = ebitmap_init, type_names = type_set_init\<rparr>"
  note t = COr.IH(1) [of s "cons_postfix u @ ?op # es"]
  note u = COr.IH(2) [of "cons_holds (atom_val p sc tc xc) t # s" "?op # es"]
  show ?case
  proof (cases "length s + cons_need t \<le> CEXPR_MAXDEPTH")
    case True
    then have "Suc (length s) \<le> CEXPR_MAXDEPTH" using cons_need_pos [of t] by simp
    then show ?thesis
      using t u COr.prems nat_add_max_right [of "length s" "cons_need t" "Suc (cons_need u)"] True by (auto simp: cexpr_step_def)
  qed (use t COr.prems nat_add_max_right [of "length s" "cons_need t" "Suc (cons_need u)"] in auto)
qed

lemma constraint_value_postfix:
  assumes "\<forall>e \<in> cons_atoms t. is_operand e" "cnode_expr c = cons_postfix t"
  shows "constraint_value p sc tc xc c =
    Inr (cons_need t \<le> CEXPR_MAXDEPTH \<and> (\<forall>e \<in> cons_atoms t. atom_val p sc tc xc e \<noteq> None) \<and>
      cons_holds (atom_val p sc tc xc) t)"
  using cexpr_steps_postfix [of t "[]" p sc tc xc "[]"] assms by (auto simp: constraint_value_def)

text \<open>Memory: with all buffers the evaluator computes the value, and nothing but \<open>-ENOMEM\<close> replaces it.\<close>

lemma cexpr_run_steps:
  "cexpr_run p sc tc xc es s k len h = (r, h') \<Longrightarrow>
    (r = cexpr_steps p sc tc xc es s \<or> r = Inl ENOMEM \<and> \<not> mem_ok h) \<and> (mem_ok h \<longrightarrow> mem_ok h')"
proof (induction es arbitrary: s k len h)
  case (Cons e es)
  let ?len = "if k \<ge> len then if len = 0 then STACK_LEN else len * 2 else len"
  obtain ok1 h1 where m1: "(if k \<ge> len then malloc h else (True, h)) = (ok1, h1)" by fastforce
  then have mem1: "mem_ok h \<longrightarrow> ok1 \<and> mem_ok h1" by (auto split: if_splits dest: malloc_okD)
  obtain ok2 h2 where m2: "malloc h1 = (ok2, h2)" by fastforce
  then have mem2: "mem_ok h1 \<longrightarrow> ok2 \<and> mem_ok h2" by (auto dest: malloc_okD)
  show ?case
  proof (cases "ok1 \<and> ok2")
    case False
    then have "r = Inl ENOMEM" using Cons.prems by (cases ok1; cases ok2) (simp_all add: m1 m2 Let_def)
    then show ?thesis using False mem1 mem2 by blast
  next
    case True
    show ?thesis
    proof (cases "\<exists>s'. cexpr_step p sc tc xc e s = Inr (Some s')")
      case False
      then have "r = cexpr_step p sc tc xc e s" "h' = h2" using Cons.prems True
        by (auto simp: m1 m2 Let_def split: sum.splits option.splits)
      then show ?thesis using False mem1 mem2 by (auto split: sum.splits option.splits)
    next
      case step: True
      then obtain s' where s': "cexpr_step p sc tc xc e s = Inr (Some s')" by blast
      have "cexpr_run p sc tc xc es s' (k + 1) ?len h2 = (r, h')"
        using Cons.prems True by (simp add: m1 m2 Let_def s')
      from Cons.IH [OF this] show ?thesis using mem1 mem2 s' by auto
    qed
  qed
qed simp

lemma cexpr_infix_mem: "cexpr_infix es h = (ok, h') \<Longrightarrow> mem_ok h \<longrightarrow> ok \<and> mem_ok h'"
proof (induction es arbitrary: h)
  case (Cons e es)
  then show ?case by (cases "malloc h") (auto split: if_splits dest: malloc_okD)
qed simp

lemma eval_value:
  assumes "constraint_expr_eval p sc tc xc c h = (r, h')"
  shows "(r = constraint_value p sc tc xc c \<or> r = Inl ENOMEM \<and> \<not> mem_ok h) \<and> (mem_ok h \<longrightarrow> mem_ok h')"
proof -
  obtain ok1 h1 where m1: "malloc h = (ok1, h1)" by fastforce
  obtain q h2 where run: "cexpr_run p sc tc xc (cnode_expr c) [] 0 0 h1 = (q, h2)" by fastforce
  obtain ok3 h3 where m3: "malloc h2 = (ok3, h3)" by fastforce
  obtain ok4 h4 where inf: "cexpr_infix (cnode_expr c) h3 = (ok4, h4)" by fastforce
  note steps = cexpr_run_steps [OF run]
  have mem: "mem_ok h \<longrightarrow> ok1 \<and> mem_ok h1 \<and> mem_ok h2 \<and> ok3 \<and> mem_ok h3 \<and> ok4 \<and> mem_ok h4"
    using malloc_okD [OF m1] malloc_okD [OF m3] cexpr_infix_mem [OF inf] steps by blast
  show ?thesis
  proof (cases "ok1")
    case False
    then show ?thesis using assms mem by (auto simp: constraint_expr_eval_def m1)
  next
    case True
    note run' = assms [unfolded constraint_expr_eval_def m1 prod.case run]
    show ?thesis
    proof (cases "q = cexpr_steps p sc tc xc (cnode_expr c) []")
      case False
      then have "q = Inl ENOMEM" "\<not> mem_ok h" using steps mem by blast+
      then show ?thesis using run' True by simp
    next
      case q: True
      show ?thesis
      proof (cases "\<exists>s. q = Inr (Some s)")
        case False
        then have "r = constraint_value p sc tc xc c" "h' = h2"
          using run' True unfolding constraint_value_def q [symmetric]
          by (auto split: sum.splits option.splits)
        then show ?thesis using mem by simp
      next
        case some: True
        then obtain s where s: "q = Inr (Some s)" by blast
        then have "constraint_value p sc tc xc c = Inr (s \<noteq> [] \<and> last s)"
          unfolding constraint_value_def q [symmetric] by simp
        then show ?thesis using run' True mem by (auto simp: s m3 inf split: if_splits)
      qed
    qed
  qed
qed

lemma eval_mem_ok:
  assumes "constraint_expr_eval p sc tc xc c h = (r, h')" "mem_ok h"
  shows "r = constraint_value p sc tc xc c" "mem_ok h'"
  using eval_value [OF assms(1)] assms(2) by blast+

text \<open>
  The number of allocations. The list of buffers is full, and lengthened, before the first expression and
  before those with the numbers 32, 64, 128, and so on.
\<close>

definition list_grows :: "nat \<Rightarrow> bool" where
  "list_grows k \<longleftrightarrow> k = 0 \<or> (\<exists>j. k = STACK_LEN * 2 ^ j)"

definition constraint_allocs :: "constraint_expr list \<Rightarrow> nat" where
  "constraint_allocs es = 1 + (length (filter list_grows [0..<length es]) + length es) + 1 + length (filter is_operator es)"

definition list_len :: "nat \<Rightarrow> nat \<Rightarrow> bool" where
  "list_len k len \<longleftrightarrow> k = 0 \<and> len = 0 \<or>
     0 < k \<and> k \<le> len \<and> (\<exists>j. len = STACK_LEN * 2 ^ j \<and> (j = 0 \<or> len div 2 < k))"

lemma list_len_grows:
  assumes "list_len k len"
  shows "k \<ge> len \<longleftrightarrow> list_grows k"
proof (cases "k = 0")
  case False
  then obtain j where j: "0 < k" "k \<le> len" "len = STACK_LEN * 2 ^ j" "j = 0 \<or> len div 2 < k"
    using assms by (auto simp: list_len_def)
  have "i = j" if i: "k = STACK_LEN * 2 ^ i" for i
  proof (rule ccontr)
    assume "i \<noteq> j"
    moreover have "(2 :: nat) ^ i \<le> 2 ^ j" using j(2,3) i by simp
    then have "i \<le> j" by (rule power_le_imp_le_exp [rotated]) simp
    ultimately obtain d where d: "j = Suc (i + d)" using less_imp_Suc_add by (metis le_neq_implies_less)
    have "k \<le> len div 2" unfolding i j(3) d by (simp add: power_add)
    then show False using j(4) d by simp
  qed
  then show ?thesis using j by (auto simp: list_grows_def)
qed (use assms in \<open>auto simp: list_len_def list_grows_def\<close>)

lemma list_len_next:
  assumes "list_len k len"
  shows "list_len (k + 1) (if k \<ge> len then if len = 0 then STACK_LEN else len * 2 else len)"
proof (cases "k = 0")
  case True
  then show ?thesis using assms by (auto simp: list_len_def)
next
  case False
  then obtain j where j: "0 < k" "k \<le> len" "len = STACK_LEN * 2 ^ j" "j = 0 \<or> len div 2 < k"
    using assms by (auto simp: list_len_def)
  show ?thesis
  proof (cases "k \<ge> len")
    case True
    then have "len * 2 = STACK_LEN * 2 ^ Suc j" "len \<noteq> 0" using j by simp_all
    then show ?thesis using True j(2) unfolding list_len_def by (intro disjI2 conjI exI [of _ "Suc j"]) auto
  next
    case False
    then show ?thesis using j by (auto simp: list_len_def)
  qed
qed

lemma malloc_take: "malloc h = (False \<notin> set (take 1 h), drop 1 h)"
  by (cases h) auto

lemma take_fails: "False \<in> set (take (m + n) h) \<longleftrightarrow> False \<in> set (take m h) \<or> False \<in> set (take n (drop m h))"
  by (simp add: take_add)

lemma cexpr_run_allocs:
  assumes "cexpr_steps p sc tc xc es s = Inr (Some s')" "list_len k len"
    and N: "N = length (filter list_grows [k..<k + length es]) + length es"
  shows "(False \<in> set (take N h) \<longrightarrow> fst (cexpr_run p sc tc xc es s k len h) = Inl ENOMEM) \<and>
    (False \<notin> set (take N h) \<longrightarrow> cexpr_run p sc tc xc es s k len h = (Inr (Some s'), drop N h))"
  using assms
proof (induction es arbitrary: s k len h N)
  case (Cons e es)
  let ?len = "if k \<ge> len then if len = 0 then STACK_LEN else len * 2 else len"
  obtain s1 where s1: "cexpr_step p sc tc xc e s = Inr (Some s1)" "cexpr_steps p sc tc xc es s1 = Inr (Some s')"
    using Cons.prems(1) by (auto split: sum.splits option.splits)
  define g where "g = (if list_grows k then 1 else 0 :: nat)"
  define M where "M = length (filter list_grows [k + 1..<k + 1 + length es]) + length es"
  have "[k..<k + length (e # es)] = k # [k + 1..<k + 1 + length es]"
    by (simp add: upt_conv_Cons del: upt_Suc)
  then have N: "N = g + (1 + M)" by (simp add: Cons.prems(3) g_def M_def)
  note grows = list_len_grows [OF Cons.prems(2)]
  have m1: "(if k \<ge> len then malloc h else (True, h)) = (False \<notin> set (take g h), drop g h)"
    unfolding grows malloc_take g_def by simp
  note IH = Cons.IH [OF s1(2) list_len_next [OF Cons.prems(2)] M_def, of "drop 1 (drop g h)"]
  have run: "cexpr_run p sc tc xc (e # es) s k len h =
      (if False \<in> set (take g h) then (Inl ENOMEM, drop g h)
       else if False \<in> set (take 1 (drop g h)) then (Inl ENOMEM, drop 1 (drop g h))
       else cexpr_run p sc tc xc es s1 (k + 1) ?len (drop 1 (drop g h)))"
    unfolding cexpr_run.simps m1 prod.case malloc_take [of "drop g h"] Let_def s1(1) sum.case option.case by simp
  have fails: "False \<in> set (take N h) \<longleftrightarrow> False \<in> set (take g h) \<or> False \<in> set (take 1 (drop g h)) \<or>
      False \<in> set (take M (drop 1 (drop g h)))"
    unfolding N take_fails by simp
  have drop: "drop N h = drop M (drop 1 (drop g h))" by (simp add: N add.commute)
  show ?case unfolding run fails drop using IH by simp
qed simp

lemma cexpr_infix_allocs:
  "fst (cexpr_infix es h) \<longleftrightarrow> False \<notin> set (take (length (filter is_operator es)) h)"
proof (induction es arbitrary: h)
  case (Cons e es)
  show ?case
  proof (cases "is_operator e")
    case True
    then have "fst (cexpr_infix (e # es) h) \<longleftrightarrow> False \<notin> set (take 1 h) \<and> fst (cexpr_infix es (drop 1 h))"
      by (simp add: malloc_take split: prod.splits)
    then show ?thesis using True take_fails [of 1 "length (filter is_operator es)" h] Cons.IH by simp
  qed (simp add: Cons.IH)
qed simp

lemma eval_allocs:
  assumes "cexpr_steps p sc tc xc (cnode_expr c) [] = Inr (Some s)"
  shows "fst (constraint_expr_eval p sc tc xc c h) =
    (if False \<in> set (take (constraint_allocs (cnode_expr c)) h) then Inl ENOMEM else constraint_value p sc tc xc c)"
proof -
  let ?es = "cnode_expr c"
  define K where "K = length (filter list_grows [0..<length ?es]) + length ?es"
  have v: "constraint_value p sc tc xc c = Inr (s \<noteq> [] \<and> last s)" by (simp add: constraint_value_def assms)
  have fails: "False \<in> set (take (constraint_allocs ?es) h) \<longleftrightarrow> False \<in> set (take 1 h) \<or>
      False \<in> set (take K (drop 1 h)) \<or> False \<in> set (take 1 (drop K (drop 1 h))) \<or>
      False \<in> set (take (length (filter is_operator ?es)) (drop 1 (drop K (drop 1 h))))"
    unfolding constraint_allocs_def K_def [symmetric] take_fails by (simp add: add.commute)
  have run: "False \<in> set (take K (drop 1 h)) \<Longrightarrow> fst (cexpr_run p sc tc xc ?es [] 0 0 (drop 1 h)) = Inl ENOMEM"
    "False \<notin> set (take K (drop 1 h)) \<Longrightarrow> cexpr_run p sc tc xc ?es [] 0 0 (drop 1 h) = (Inr (Some s), drop K (drop 1 h))"
    using cexpr_run_allocs [OF assms, of 0 0 K "drop 1 h"] by (simp_all add: list_len_def K_def)
  show ?thesis
  proof (cases "False \<in> set (take K (drop 1 h))")
    case True
    then show ?thesis
      using run(1) unfolding constraint_expr_eval_def malloc_take [of h] fails
      by (cases "cexpr_run p sc tc xc ?es [] 0 0 (drop 1 h)") simp
  next
    case False
    obtain ok h4 where inf: "cexpr_infix ?es (drop 1 (drop K (drop 1 h))) = (ok, h4)" by fastforce
    have ok: "ok \<longleftrightarrow> False \<notin> set (take (length (filter is_operator ?es)) (drop 1 (drop K (drop 1 h))))"
      using cexpr_infix_allocs [of ?es "drop 1 (drop K (drop 1 h))"] unfolding inf by simp
    show ?thesis
      unfolding constraint_expr_eval_def malloc_take [of h] run(2) [OF False] fails prod.case sum.case option.case
        malloc_take [of "drop K (drop 1 h)"] v inf
      using False ok by simp
  qed
qed

text \<open>
  C20: On the postfix form of a constraint, the evaluator grants exactly when five stack cells
  suffice, every operand is one the code knows, and the formula holds, and denies in every other case, unless
  memory runs out: it returns \<open>-ENOMEM\<close> instead only after a failed allocation, and, where it gets to the end of
  the expressions, exactly when one of the buffers for its explanation cannot be had, whose number depends on the
  expressions alone. A list that starts with an operator, which lacks its operand, yields a negative error code in any case.
  The computation of access vectors does not tell an error code from a grant.
\<close>

theorem constraint_expr_eval_tree:
  "(\<forall>t. (\<forall>e \<in> cons_atoms t. is_operand e) \<and> cnode_expr c = cons_postfix t \<longrightarrow>
      (let known = (cons_need t \<le> CEXPR_MAXDEPTH \<and> (\<forall>e \<in> cons_atoms t. atom_val p sc tc xc e \<noteq> None));
           r = fst (constraint_expr_eval p sc tc xc c h) in
       (r = Inr (known \<and> cons_holds (atom_val p sc tc xc) t) \<or> r = Inl ENOMEM \<and> \<not> mem_ok h) \<and>
       (known \<longrightarrow> (r = Inl ENOMEM \<longleftrightarrow> False \<in> set (take (constraint_allocs (cnode_expr c)) h))))) \<and>
   (\<forall>e es. cnode_expr c = e # es \<and> is_operator e \<longrightarrow>
      fst (constraint_expr_eval p sc tc xc c h) = Inl EINVAL \<or>
      fst (constraint_expr_eval p sc tc xc c h) = Inl ENOMEM \<and> \<not> mem_ok h) \<and>
   (\<forall>e. fst (constraint_expr_eval p sc tc None c h) = Inl e \<longrightarrow> fst (constraint_av p sc tc c (avd, h)) = avd)"
proof (intro conjI allI impI)
  fix t
  assume t: "(\<forall>e \<in> cons_atoms t. is_operand e) \<and> cnode_expr c = cons_postfix t"
  define known where "known \<longleftrightarrow> cons_need t \<le> CEXPR_MAXDEPTH \<and> (\<forall>e \<in> cons_atoms t. atom_val p sc tc xc e \<noteq> None)"
  have v: "constraint_value p sc tc xc c = Inr (known \<and> cons_holds (atom_val p sc tc xc) t)"
    using constraint_value_postfix [of t c p sc tc xc] t by (simp add: known_def conj_assoc)
  have "fst (constraint_expr_eval p sc tc xc c h) = Inl ENOMEM \<longleftrightarrow> False \<in> set (take (constraint_allocs (cnode_expr c)) h)"
    if known
  proof -
    have "cexpr_steps p sc tc xc (cnode_expr c) [] = Inr (Some [cons_holds (atom_val p sc tc xc) t])"
      using cexpr_steps_postfix [of t "[]" p sc tc xc "[]"] t that by (simp add: known_def)
    from eval_allocs [OF this, of h] show ?thesis unfolding v by simp
  qed
  moreover have "fst (constraint_expr_eval p sc tc xc c h) = Inr (known \<and> cons_holds (atom_val p sc tc xc) t) \<or>
      fst (constraint_expr_eval p sc tc xc c h) = Inl ENOMEM \<and> \<not> mem_ok h"
    using eval_value [of p sc tc xc c h] unfolding v by (metis prod.collapse)
  ultimately show "let known = (cons_need t \<le> CEXPR_MAXDEPTH \<and> (\<forall>e \<in> cons_atoms t. atom_val p sc tc xc e \<noteq> None));
           r = fst (constraint_expr_eval p sc tc xc c h) in
       (r = Inr (known \<and> cons_holds (atom_val p sc tc xc) t) \<or> r = Inl ENOMEM \<and> \<not> mem_ok h) \<and>
       (known \<longrightarrow> (r = Inl ENOMEM \<longleftrightarrow> False \<in> set (take (constraint_allocs (cnode_expr c)) h)))"
    unfolding Let_def known_def [symmetric] by blast
next
  fix e es
  assume "cnode_expr c = e # es \<and> is_operator e"
  then have "constraint_value p sc tc xc c = Inl EINVAL" by (auto simp: constraint_value_def cexpr_step_def is_operator_def)
  then show "fst (constraint_expr_eval p sc tc xc c h) = Inl EINVAL \<or>
      fst (constraint_expr_eval p sc tc xc c h) = Inl ENOMEM \<and> \<not> mem_ok h"
    using eval_value [of p sc tc xc c h] by (metis prod.collapse)
qed (auto simp: constraint_av_def split: prod.splits)

text \<open>The constraints see of a policy only the roles.\<close>

lemma constraint_av_cong:
  assumes "cexpr_role q = cexpr_role p"
  shows "constraint_av q = constraint_av p"
proof -
  have "cexpr_attr q sc tc e = cexpr_attr p sc tc e" for sc tc e using assms by (simp only: cexpr_attr_def)
  then have step: "cexpr_step q = cexpr_step p" by (intro ext) (simp only: cexpr_step_def)
  have "cexpr_run q sc tc xc es s k len h = cexpr_run p sc tc xc es s k len h" for sc tc xc es s k len h
    by (induction es arbitrary: s k len h) (simp_all only: cexpr_run.simps step)
  then show ?thesis by (intro ext) (simp only: constraint_av_def constraint_expr_eval_def)
qed

lemma constraint_evaluated:
  assumes "\<forall>e \<in> cons_atoms t. is_operand e \<and> atom_val p sc tc xc e \<noteq> None" "cons_need t \<le> CEXPR_MAXDEPTH"
    and "cnode_expr c = cons_postfix t"
  shows "fst (constraint_expr_eval p sc tc xc c h) =
    (if False \<in> set (take (constraint_allocs (cnode_expr c)) h) then Inl ENOMEM
     else Inr (cons_holds (atom_val p sc tc xc) t))"
proof -
  have "cexpr_steps p sc tc xc (cnode_expr c) [] = Inr (Some [cons_holds (atom_val p sc tc xc) t])"
    using cexpr_steps_postfix [of t "[]" p sc tc xc "[]"] assms by simp
  moreover have "constraint_value p sc tc xc c = Inr (cons_holds (atom_val p sc tc xc) t)"
    using constraint_value_postfix [of t c p sc tc xc] assms by simp
  ultimately show ?thesis using eval_allocs [of p sc tc xc c _ h] by simp
qed

section \<open>What is permitted\<close>

definition key_pair :: "policydb \<Rightarrow> context_struct \<Rightarrow> context_struct \<Rightarrow> u16 \<Rightarrow> avtab_key \<Rightarrow> bool" where
  "key_pair p sc tc tcl k \<longleftrightarrow> target_class k = tcl \<and>
     (\<exists>i \<in> set (ebitmap_positive_bits (type_attrs p (ctype sc))). source_type k = ucast (i + 1)) \<and>
     (\<exists>j \<in> set (ebitmap_positive_bits (type_attrs p (ctype tc))). target_type k = ucast (j + 1))"

text \<open>
  The data of the rules of one kind that apply to a pair of contexts: unconditional rules, and
  conditional rules that are enabled.
\<close>

definition rules_for :: "policydb \<Rightarrow> context_struct \<Rightarrow> context_struct \<Rightarrow> u16 \<Rightarrow> u16 \<Rightarrow> u32 set" where
  "rules_for p sc tc tcl kind =
     {data (snd n) |n. n \<in> set (avtab_nodes (te_avtab p)) \<and> key_pair p sc tc tcl (fst n) \<and>
        specified (fst n) = kind} \<union>
     {data (snd n) |n. n \<in> set (avtab_nodes (te_cond_avtab p)) \<and> key_pair p sc tc tcl (fst n) \<and>
        specified (fst n) AND (kind OR AVTAB_ENABLED) = kind OR AVTAB_ENABLED}"

text \<open>No constraint on the permission is false; \<open>constraint_value\<close> is the value with enough memory.\<close>

definition constraints_hold :: "policydb \<Rightarrow> context_struct \<Rightarrow> context_struct \<Rightarrow> u16 \<Rightarrow> nat \<Rightarrow> bool" where
  "constraints_hold p sc tc tcl b \<longleftrightarrow>
     (\<forall>c \<in> set (constraints (the (val_struct (class_val_to_struct p) (ucast tcl)))).
       bit (permissions c) b \<longrightarrow> constraint_value p sc tc None c \<noteq> Inr False)"

definition role_change_ok :: "policydb \<Rightarrow> context_struct \<Rightarrow> context_struct \<Rightarrow> u16 \<Rightarrow> nat \<Rightarrow> bool" where
  "role_change_ok p sc tc tcl b \<longleftrightarrow> (tcl = process_class p \<and> bit (process_trans_dyntrans p) b \<longrightarrow>
     crole sc = crole tc \<or> (\<exists>ra \<in> set (role_allows p). ra_role ra = crole sc \<and> ra_new_role ra = crole tc))"

definition own_permission :: "policydb \<Rightarrow> context_struct \<Rightarrow> context_struct \<Rightarrow> u16 \<Rightarrow> nat \<Rightarrow> bool" where
  "own_permission p sc tc tcl b \<longleftrightarrow> (\<exists>d \<in> rules_for p sc tc tcl AVTAB_ALLOWED. bit d b) \<and>
     constraints_hold p sc tc tcl b \<and> role_change_ok p sc tc tcl b"

text \<open>What the rules alone grant: an upper bound on every decision, which ignores the constraints.\<close>

definition rule_permission :: "policydb \<Rightarrow> context_struct \<Rightarrow> context_struct \<Rightarrow> u16 \<Rightarrow> nat \<Rightarrow> bool" where
  "rule_permission p sc tc tcl b \<longleftrightarrow> (\<exists>d \<in> rules_for p sc tc tcl AVTAB_ALLOWED. bit d b) \<and> role_change_ok p sc tc tcl b"

definition bound :: "policydb \<Rightarrow> context_struct \<Rightarrow> context_struct" where
  "bound p c = (let b = type_bounds (the (val_struct (type_val_to_struct p) (ctype c))) in
     if b \<noteq> 0 then c\<lparr>ctype := b\<rparr> else c)"

definition bounded :: "policydb \<Rightarrow> context_struct \<Rightarrow> bool" where
  "bounded p c \<longleftrightarrow> type_bounds (the (val_struct (type_val_to_struct p) (ctype c))) \<noteq> 0"

text \<open>
  The specification: a permission is granted when type enforcement grants it, no constraint and
  no role restriction removes it, and the bounding pair of contexts, if the source type is
  bounded, is granted it as well.
\<close>

inductive permitted :: "policydb \<Rightarrow> u16 \<Rightarrow> nat \<Rightarrow> context_struct \<Rightarrow> context_struct \<Rightarrow> bool"
  for p tcl b where
  unbounded: "own_permission p sc tc tcl b \<Longrightarrow> \<not> bounded p sc \<Longrightarrow> permitted p tcl b sc tc"
| bounds: "own_permission p sc tc tcl b \<Longrightarrow> bounded p sc \<Longrightarrow>
    permitted p tcl b (bound p sc) (bound p tc) \<Longrightarrow> permitted p tcl b sc tc"

inductive_simps permitted_iff: "permitted p tcl b sc tc"

lemma permitted_unfold:
  "permitted p tcl b sc tc \<longleftrightarrow> own_permission p sc tc tcl b \<and>
     (bounded p sc \<longrightarrow> permitted p tcl b (bound p sc) (bound p tc))"
  by (subst permitted_iff) blast

section \<open>The computation meets the specification\<close>

text \<open>\<open>av_joins a a' R\<close>: decision \<open>a'\<close> is \<open>a\<close> with the rules \<open>R kind\<close> of each kind taken in.\<close>

definition av_joins :: "sepol_av_decision \<Rightarrow> sepol_av_decision \<Rightarrow> (u16 \<Rightarrow> u32 set) \<Rightarrow> bool" where
  "av_joins a a' R \<longleftrightarrow>
     (\<forall>b. bit (allowed a') b \<longleftrightarrow> bit (allowed a) b \<or> (\<exists>d \<in> R AVTAB_ALLOWED. bit d b)) \<and>
     (\<forall>b. bit (auditallow a') b \<longleftrightarrow> bit (auditallow a) b \<or> (\<exists>d \<in> R AVTAB_AUDITALLOW. bit d b)) \<and>
     (\<forall>b. bit (auditdeny a') b \<longleftrightarrow> bit (auditdeny a) b \<and> (\<forall>d \<in> R AVTAB_AUDITDENY. bit d b)) \<and>
     decided a' = decided a \<and> seqno a' = seqno a"

lemma av_joins_refl: "av_joins a a (\<lambda>_. {})"
  by (simp add: av_joins_def)

lemma av_joins_trans: "av_joins a b R \<Longrightarrow> av_joins b c S \<Longrightarrow> av_joins a c (\<lambda>k. R k \<union> S k)"
  by (auto simp: av_joins_def)

lemma av_joins_fold:
  "(\<And>x a. x \<in> set xs \<Longrightarrow> av_joins a (f x a) (R x)) \<Longrightarrow> av_joins a (fold f xs a) (\<lambda>k. \<Union>x \<in> set xs. R x k)"
proof (induction xs arbitrary: a)
  case (Cons x xs)
  have "av_joins a (f x a) (R x)" using Cons.prems by simp
  moreover have "av_joins (f x a) (fold f xs (f x a)) (\<lambda>k. \<Union>x \<in> set xs. R x k)"
    using Cons by simp
  ultimately show ?case using av_joins_trans by fastforce
qed (simp add: av_joins_refl)

lemma te_node_joins:
  "av_joins a (te_node_av n a) (\<lambda>k. if specified (fst n) = k then {data (snd n)} else {})"
  by (auto simp: av_joins_def te_node_av_def bit_simps)

lemma cond_node_joins:
  "av_joins a (cond_node_av n a)
    (\<lambda>k. if specified (fst n) AND (k OR AVTAB_ENABLED) = k OR AVTAB_ENABLED then {data (snd n)} else {})"
  by (auto simp: av_joins_def cond_node_av_def Let_def bit_simps)

lemma pair_joins:
  assumes "avtab_wf (te_avtab p)" "avtab_wf (te_cond_avtab p)"
  shows "av_joins a (pair_av p tcl i j a) (\<lambda>k.
    {data (snd n) |n. n \<in> set (filter (node_matches \<lparr>source_type = ucast (i + 1), target_type = ucast (j + 1),
        target_class = tcl, specified = AVTAB_AV\<rparr> AVTAB_AV) (avtab_nodes (te_avtab p))) \<and> specified (fst n) = k} \<union>
    {data (snd n) |n. n \<in> set (filter (node_matches \<lparr>source_type = ucast (i + 1), target_type = ucast (j + 1),
        target_class = tcl, specified = AVTAB_AV\<rparr> AVTAB_AV) (avtab_nodes (te_cond_avtab p))) \<and>
        specified (fst n) AND (k OR AVTAB_ENABLED) = k OR AVTAB_ENABLED})"
proof -
  let ?k = "\<lparr>source_type = ucast (i + 1), target_type = ucast (j + 1), target_class = tcl,
    specified = AVTAB_AV\<rparr> :: avtab_key"
  have "key_spec ?k = AVTAB_AV" by (simp add: key_spec_def)
  then have te: "avtab_node_loop (avtab_search_node (te_avtab p) ?k) (ucast (specified ?k)) =
      filter (node_matches ?k AVTAB_AV) (avtab_nodes (te_avtab p))"
    and co: "avtab_node_loop (avtab_search_node (te_cond_avtab p) ?k) (ucast (specified ?k)) =
      filter (node_matches ?k AVTAB_AV) (avtab_nodes (te_cond_avtab p))"
    using avtab_loop_filter [OF assms(1), of ?k] avtab_loop_filter [OF assms(2), of ?k] by simp_all
  let ?f = "\<lambda>t. filter (node_matches ?k AVTAB_AV) (avtab_nodes t)"
  have A: "av_joins a (fold te_node_av (?f (te_avtab p)) a)
      (\<lambda>k. \<Union>n \<in> set (?f (te_avtab p)). if specified (fst n) = k then {data (snd n)} else {})" for a
    by (rule av_joins_fold) (rule te_node_joins)
  have B: "av_joins a (fold cond_node_av (?f (te_cond_avtab p)) a)
      (\<lambda>k. \<Union>n \<in> set (?f (te_cond_avtab p)).
        if specified (fst n) AND (k OR AVTAB_ENABLED) = k OR AVTAB_ENABLED then {data (snd n)} else {})" for a
    by (rule av_joins_fold) (rule cond_node_joins)
  have u1: "(\<Union>n \<in> X. if P n then {g n} else {}) = {g n |n. n \<in> X \<and> P n}" for X P and g :: "avtab_node \<Rightarrow> u32"
    by auto
  show ?thesis
    unfolding pair_av_def Let_def cond_compute_av_def te co
    by (rule av_joins_trans [OF A B, unfolded u1])
qed

lemma kind_matches:
  "kind \<in> {AVTAB_ALLOWED, AVTAB_AUDITALLOW, AVTAB_AUDITDENY} \<Longrightarrow>
    s = kind \<or> s AND (kind OR AVTAB_ENABLED) = kind OR AVTAB_ENABLED \<Longrightarrow> AVTAB_AV AND s \<noteq> 0" for s kind :: u16
proof -
  assume k: "kind \<in> {AVTAB_ALLOWED, AVTAB_AUDITALLOW, AVTAB_AUDITDENY}"
    and s: "s = kind \<or> s AND (kind OR AVTAB_ENABLED) = kind OR AVTAB_ENABLED"
  have "bit s n" if "bit kind n" for n
    using s that by (metis bit_and_iff bit_or_iff)
  then have "s AND kind = kind"
    by (intro bit_word_eqI) (auto simp: bit_and_iff)
  then have "(AVTAB_AV AND s) AND kind = AVTAB_AV AND kind" by (simp add: and.assoc)
  moreover have "AVTAB_AV AND kind \<noteq> 0" using k by auto
  ultimately show ?thesis by (metis and_zero_eq and.commute)
qed

lemma av_joins_cong:
  assumes "av_joins a b R" "\<And>k. k \<in> {AVTAB_ALLOWED, AVTAB_AUDITALLOW, AVTAB_AUDITDENY} \<Longrightarrow> R k = S k"
  shows "av_joins a b S"
  using assms unfolding av_joins_def by simp

lemma te_av_joins:
  assumes "avtab_wf (te_avtab p)" "avtab_wf (te_cond_avtab p)"
  shows "av_joins a (te_av p sc tc tcl a) (rules_for p sc tc tcl)"
proof (rule av_joins_cong)
  let ?R = "\<lambda>i j k.
    {data (snd n) |n. n \<in> set (filter (node_matches \<lparr>source_type = ucast (i + 1), target_type = ucast (j + 1),
        target_class = tcl, specified = AVTAB_AV\<rparr> AVTAB_AV) (avtab_nodes (te_avtab p))) \<and> specified (fst n) = k} \<union>
    {data (snd n) |n. n \<in> set (filter (node_matches \<lparr>source_type = ucast (i + 1), target_type = ucast (j + 1),
        target_class = tcl, specified = AVTAB_AV\<rparr> AVTAB_AV) (avtab_nodes (te_cond_avtab p))) \<and>
        specified (fst n) AND (k OR AVTAB_ENABLED) = k OR AVTAB_ENABLED}"
  let ?I = "ebitmap_positive_bits (type_attrs p (ctype sc))"
  let ?J = "ebitmap_positive_bits (type_attrs p (ctype tc))"
  show "av_joins a (te_av p sc tc tcl a) (\<lambda>k. \<Union>i \<in> set ?I. \<Union>j \<in> set ?J. ?R i j k)"
    unfolding te_av_def by (rule av_joins_fold, rule av_joins_fold, rule pair_joins [OF assms])
  fix kind :: u16
  assume kind: "kind \<in> {AVTAB_ALLOWED, AVTAB_AUDITALLOW, AVTAB_AUDITDENY}"
  have m: "node_matches \<lparr>source_type = ucast (i + 1), target_type = ucast (j + 1),
        target_class = tcl, specified = AVTAB_AV\<rparr> AVTAB_AV n \<longleftrightarrow>
      source_type (fst n) = ucast (i + 1) \<and> target_type (fst n) = ucast (j + 1) \<and> target_class (fst n) = tcl"
    if "specified (fst n) = kind \<or> specified (fst n) AND (kind OR AVTAB_ENABLED) = kind OR AVTAB_ENABLED"
    for i j :: u32 and n
    using kind_matches [OF kind that] by (auto simp: node_matches_def key_same_def)
  have kp: "key_pair p sc tc tcl k \<longleftrightarrow> (\<exists>i \<in> set ?I. \<exists>j \<in> set ?J.
      source_type k = ucast (i + 1) \<and> target_type k = ucast (j + 1) \<and> target_class k = tcl)" for k
    by (auto simp: key_pair_def)
  have R: "?R i j kind =
    {data (snd n) |n. n \<in> set (avtab_nodes (te_avtab p)) \<and> source_type (fst n) = ucast (i + 1) \<and>
        target_type (fst n) = ucast (j + 1) \<and> target_class (fst n) = tcl \<and> specified (fst n) = kind} \<union>
    {data (snd n) |n. n \<in> set (avtab_nodes (te_cond_avtab p)) \<and> source_type (fst n) = ucast (i + 1) \<and>
        target_type (fst n) = ucast (j + 1) \<and> target_class (fst n) = tcl \<and>
        specified (fst n) AND (kind OR AVTAB_ENABLED) = kind OR AVTAB_ENABLED}" for i j :: u32
    using m [of _ i j] unfolding set_filter mem_Collect_eq by blast
  show "(\<Union>i \<in> set ?I. \<Union>j \<in> set ?J. ?R i j kind) = rules_for p sc tc tcl kind"
    unfolding rules_for_def kp R by blast
qed

text \<open>
  What a computation on the heap \<open>h\<close> allows: at least \<open>P\<close>, at most \<open>Q\<close>, and exactly \<open>P\<close> when no
  allocation of \<open>h\<close> fails.
\<close>

definition allows :: "heap \<Rightarrow> heap \<Rightarrow> (nat \<Rightarrow> bool) \<Rightarrow> (nat \<Rightarrow> bool) \<Rightarrow> u32 \<Rightarrow> bool" where
  "allows h h' P Q w \<longleftrightarrow> (\<forall>b. P b \<longrightarrow> bit w b) \<and> (\<forall>b. bit w b \<longrightarrow> Q b) \<and>
     (mem_ok h \<longrightarrow> mem_ok h' \<and> (\<forall>b. bit w b \<longrightarrow> P b))"

lemma constraint_av_step:
  assumes "constraint_av p sc tc c (a, h) = (a', h')"
  shows "allows h h' (\<lambda>b. bit (allowed a) b \<and> (bit (permissions c) b \<longrightarrow> constraint_value p sc tc None c \<noteq> Inr False))
      (bit (allowed a)) (allowed a') \<and> a' = a\<lparr>allowed := allowed a'\<rparr>"
proof -
  have disj: "permissions c AND allowed a = 0 \<Longrightarrow> bit (permissions c) b \<Longrightarrow> \<not> bit (allowed a) b" for b
    by (metis bit_0_eq bit_and_iff bot_apply bot_bool_def)
  obtain r h1 where r: "constraint_expr_eval p sc tc None c h = (r, h1)" by fastforce
  note v = eval_value [OF r]
  show ?thesis
  proof (cases "permissions c AND allowed a = 0")
    case True
    then have "a' = a" "h' = h" using assms by (simp_all add: constraint_av_def)
    then show ?thesis using disj [OF True] by (auto simp: allows_def)
  next
    case False
    then have a': "a' = (if r = Inr False then a\<lparr>allowed := allowed a AND NOT (permissions c)\<rparr> else a)" "h' = h1"
      using assms by (simp_all add: constraint_av_def r)
    then show ?thesis
      using v by (auto simp: allows_def bit_and_iff bit_not_iff dest: bit_imp_le_length)
  qed
qed

lemma constraint_fold:
  "fold (constraint_av p sc tc) cs (a, h) = (a', h') \<Longrightarrow>
    allows h h' (\<lambda>b. bit (allowed a) b \<and> (\<forall>c \<in> set cs. bit (permissions c) b \<longrightarrow> constraint_value p sc tc None c \<noteq> Inr False))
      (bit (allowed a)) (allowed a') \<and> a' = a\<lparr>allowed := allowed a'\<rparr>"
proof (induction cs arbitrary: a h)
  case (Cons c cs)
  obtain a1 h1 where 1: "constraint_av p sc tc c (a, h) = (a1, h1)" by fastforce
  then have "fold (constraint_av p sc tc) cs (a1, h1) = (a', h')" using Cons.prems by simp
  note rest = Cons.IH [OF this] and first = constraint_av_step [OF 1]
  have "a' = a\<lparr>allowed := allowed a'\<rparr>" using rest first by (cases a; cases a1; cases a') simp
  moreover have "allows h h' (\<lambda>b. bit (allowed a) b \<and> (\<forall>c \<in> set (c # cs). bit (permissions c) b \<longrightarrow>
      constraint_value p sc tc None c \<noteq> Inr False)) (bit (allowed a)) (allowed a')"
    using rest [THEN conjunct1] first [THEN conjunct1] unfolding allows_def list.set ball_simps insert_iff by blast
  ultimately show ?case by blast
qed (simp add: allows_def)

lemma role_av_bit:
  "bit (allowed (role_av p sc tc tcl a)) b \<longleftrightarrow> bit (allowed a) b \<and> role_change_ok p sc tc tcl b"
proof -
  have "allowed a AND process_trans_dyntrans p = 0 \<Longrightarrow> bit (process_trans_dyntrans p) b \<Longrightarrow> \<not> bit (allowed a) b"
    by (metis bit_0_eq bit_and_iff bot_apply bot_bool_def)
  then show ?thesis
    by (auto simp: role_av_def role_change_ok_def bit_simps dest: bit_imp_le_length)
qed

lemma role_av_fields [simp]:
  "auditallow (role_av p sc tc tcl a) = auditallow a" "auditdeny (role_av p sc tc tcl a) = auditdeny a"
  "decided (role_av p sc tc tcl a) = decided a" "seqno (role_av p sc tc tcl a) = seqno a"
  by (simp_all add: role_av_def)

text \<open>The decision before the bounds of the source type are applied.\<close>

definition own_av ::
  "policydb \<Rightarrow> u32 \<Rightarrow> context_struct \<Rightarrow> context_struct \<Rightarrow> u16 \<Rightarrow> heap \<Rightarrow> sepol_av_decision \<times> heap" where
  "own_av p lg sc tc tcl h = apfst (role_av p sc tc tcl) (fold (constraint_av p sc tc)
     (constraints (the (val_struct (class_val_to_struct p) (ucast tcl)))) (te_av p sc tc tcl (new_avd lg), h))"

text \<open>The fields of a decision besides the permissions: they join the audit rules.\<close>

definition audits :: "policydb \<Rightarrow> u32 \<Rightarrow> context_struct \<Rightarrow> context_struct \<Rightarrow> u16 \<Rightarrow> sepol_av_decision \<Rightarrow> bool" where
  "audits p lg sc tc tcl avd \<longleftrightarrow>
     (\<forall>b. bit (auditallow avd) b \<longleftrightarrow> (\<exists>d \<in> rules_for p sc tc tcl AVTAB_AUDITALLOW. bit d b)) \<and>
     (\<forall>b < 32. bit (auditdeny avd) b \<longleftrightarrow> (\<forall>d \<in> rules_for p sc tc tcl AVTAB_AUDITDENY. bit d b)) \<and>
     decided avd = 0xffffffff \<and> seqno avd = lg"

lemma own_av_spec:
  assumes wf: "avtab_wf (te_avtab p)" "avtab_wf (te_cond_avtab p)" and own: "own_av p lg sc tc tcl h = (avd, h')"
  shows "allows h h' (own_permission p sc tc tcl) (rule_permission p sc tc tcl) (allowed avd)"
    and "audits p lg sc tc tcl avd"
proof -
  let ?te = "te_av p sc tc tcl (new_avd lg)"
  let ?cs = "constraints (the (val_struct (class_val_to_struct p) (ucast tcl)))"
  have new0: "allowed (new_avd lg) = 0" "auditallow (new_avd lg) = 0" "decided (new_avd lg) = 0xffffffff"
    "seqno (new_avd lg) = lg"
    by (simp_all add: new_avd_def)
  have "av_joins (new_avd lg) ?te (rules_for p sc tc tcl)" by (rule te_av_joins [OF wf])
  moreover have "bit (auditdeny (new_avd lg)) b \<longleftrightarrow> b < 32" for b
  proof -
    have "auditdeny (new_avd lg) = - 1" by (simp add: new_avd_def)
    then show ?thesis by (simp only: bit_minus_1_iff possible_bit_word) simp
  qed
  ultimately have te: "bit (allowed ?te) b \<longleftrightarrow> (\<exists>d \<in> rules_for p sc tc tcl AVTAB_ALLOWED. bit d b)"
    "bit (auditallow ?te) b \<longleftrightarrow> (\<exists>d \<in> rules_for p sc tc tcl AVTAB_AUDITALLOW. bit d b)"
    "bit (auditdeny ?te) b \<longleftrightarrow> b < 32 \<and> (\<forall>d \<in> rules_for p sc tc tcl AVTAB_AUDITDENY. bit d b)"
    "decided ?te = 0xffffffff" "seqno ?te = lg" for b
    unfolding av_joins_def by (simp_all only: new0 bit_0_eq bot_apply bot_bool_def simp_thms)
  obtain a1 where f: "fold (constraint_av p sc tc) ?cs (?te, h) = (a1, h')" and avd: "avd = role_av p sc tc tcl a1"
    using own by (auto simp: own_av_def apfst_def map_prod_def split: prod.splits)
  note c = constraint_fold [OF f]
  have bit: "bit (allowed avd) b \<longleftrightarrow> bit (allowed a1) b \<and> role_change_ok p sc tc tcl b" for b
    unfolding avd by (rule role_av_bit)
  show "allows h h' (own_permission p sc tc tcl) (rule_permission p sc tc tcl) (allowed avd)"
    using c [THEN conjunct1] te(1) unfolding allows_def own_permission_def rule_permission_def constraints_hold_def bit by blast
  have "auditallow a1 = auditallow ?te" "auditdeny a1 = auditdeny ?te" "decided a1 = decided ?te" "seqno a1 = seqno ?te"
    by (subst c [THEN conjunct2], simp)+
  then show "audits p lg sc tc tcl avd" using te(2-5) by (simp add: audits_def avd)
qed

lemma compute_av_unfold:
  assumes "\<not> (tcl = 0 \<or> ucast tcl > nprim (p_classes p))" "own_av p lg sc tc tcl h = (avd, h')"
  obtains requested' reason where "context_struct_compute_av (Suc n) p lg sc tc tcl requested h =
    map_option (apfst Inr) (type_attribute_bounds_av n p lg sc tc tcl requested' avd reason h')"
proof -
  obtain a1 where f: "fold (constraint_av p sc tc) (constraints (the (val_struct (class_val_to_struct p) (ucast tcl))))
      (te_av p sc tc tcl (new_avd lg), h) = (a1, h')" and avd: "avd = role_av p sc tc tcl a1"
    using assms(2) by (auto simp: own_av_def apfst_def map_prod_def split: prod.splits)
  show thesis
    by (rule that) (unfold context_struct_compute_av.simps(2) if_not_P [OF assms(1)] Let_def f avd case_prod_beta fst_conv snd_conv, rule refl)
qed

lemma bounds_lo:
  "bounded p sc \<longleftrightarrow> type_bounds (the (val_struct (type_val_to_struct p) (ctype sc))) \<noteq> 0"
  by (simp add: bounded_def)

lemma compute_av_spec:
  assumes wf: "avtab_wf (te_avtab p)" "avtab_wf (te_cond_avtab p)"
    and cls: "\<not> (tcl = 0 \<or> ucast tcl > nprim (p_classes p))"
    and "context_struct_compute_av n p lg sc tc tcl requested h = Some (r, h')"
  shows "\<exists>avd reason. r = Inr (avd, reason) \<and> audits p lg sc tc tcl avd \<and>
    allows h h' (\<lambda>b. permitted p tcl b sc tc) (rule_permission p sc tc tcl) (allowed avd)"
  using assms(4)
proof (induction n arbitrary: sc tc requested h r h')
  case (Suc n)
  obtain own h1 where own: "own_av p lg sc tc tcl h = (own, h1)" by fastforce
  obtain req reason where u: "context_struct_compute_av (Suc n) p lg sc tc tcl requested h =
      map_option (apfst Inr) (type_attribute_bounds_av n p lg sc tc tcl req own reason h1)"
    using compute_av_unfold [OF cls own, where n = n and requested = requested] by metis
  note o = own_av_spec [OF wf own]
  show ?case
  proof (cases "bounded p sc")
    case False
    then have "type_attribute_bounds_av n p lg sc tc tcl req own reason h1 = Some ((own, reason), h1)"
      by (simp add: type_attribute_bounds_av.simps bounded_def Let_def)
    then have r: "r = Inr (own, reason)" "h' = h1" using u Suc.prems by simp_all
    have "permitted p tcl b sc tc \<longleftrightarrow> own_permission p sc tc tcl b" for b
      using False by (simp add: permitted_unfold [of p tcl b sc tc])
    with o show ?thesis by (simp add: r)
  next
    case True
    obtain lo h2 where lo: "context_struct_compute_av n p lg (bound p sc) (bound p tc) tcl req h1 = Some (lo, h2)"
      using Suc.prems u True
      by (cases "context_struct_compute_av n p lg (bound p sc) (bound p tc) tcl req h1")
        (auto simp: type_attribute_bounds_av.simps bounded_def bound_def Let_def)
    then obtain lo_avd lo_reason where l: "lo = Inr (lo_avd, lo_reason)"
      "allows h1 h2 (\<lambda>b. permitted p tcl b (bound p sc) (bound p tc))
        (rule_permission p (bound p sc) (bound p tc) tcl) (allowed lo_avd)"
      using Suc.IH by blast
    let ?masked = "NOT (allowed lo_avd) AND allowed own"
    have b: "type_attribute_bounds_av n p lg sc tc tcl req own reason h1 =
        (if ?masked = 0 then Some ((own, reason), h2)
         else Some ((own\<lparr>allowed := allowed own AND NOT ?masked\<rparr>, reason OR COMPUTEAV_BOUNDS), h2))"
      using True lo l(1)
      by (simp add: type_attribute_bounds_av.simps bounded_def bound_def Let_def)
    have "?masked = 0 \<Longrightarrow> allowed own AND NOT ?masked = allowed own" by simp
    then obtain reason' where r: "r = Inr (own\<lparr>allowed := allowed own AND NOT ?masked\<rparr>, reason')" "h' = h2"
      using u b Suc.prems by (cases "?masked = 0") auto
    have bit: "bit (allowed own AND NOT ?masked) b \<longleftrightarrow> bit (allowed own) b \<and> bit (allowed lo_avd) b" for b
      by (auto simp: bit_and_iff bit_or_iff bit_not_iff dest: bit_imp_le_length)
    have "allows h h2 (\<lambda>b. permitted p tcl b sc tc) (rule_permission p sc tc tcl) (allowed own AND NOT ?masked)"
      using o(1) l(2) True unfolding allows_def bit permitted_unfold [of p tcl _ sc tc] by blast
    with o(2) r show ?thesis by (simp add: audits_def)
  qed
qed simp

text \<open>The chain of bounds ends: \<open>rank\<close> decreases from a type to its bounding type.\<close>

definition type_known :: "policydb \<Rightarrow> u32 \<Rightarrow> bool" where
  "type_known p t \<longleftrightarrow> t \<noteq> 0 \<and> unat t \<le> length (type_val_to_struct p)"

definition bounds_end :: "policydb \<Rightarrow> (u32 \<Rightarrow> nat) \<Rightarrow> bool" where
  "bounds_end p rank \<longleftrightarrow> (\<forall>t. type_known p t \<longrightarrow>
     (let b = type_bounds (the (val_struct (type_val_to_struct p) t)) in
      b \<noteq> 0 \<longrightarrow> type_known p b \<and> rank b < rank t))"

lemma compute_av_total:
  assumes "bounds_end p rank" "type_known p (ctype sc)" "rank (ctype sc) < n"
  shows "context_struct_compute_av n p lg sc tc tcl requested h \<noteq> None"
  using assms(2,3)
proof (induction n arbitrary: sc tc requested h)
  case (Suc n)
  show ?case
  proof (cases "tcl = 0 \<or> ucast tcl > nprim (p_classes p)")
    case True
    then show ?thesis by (auto simp: context_struct_compute_av.simps(2))
  next
    case False
    obtain own h1 where own: "own_av p lg sc tc tcl h = (own, h1)" by fastforce
    obtain req reason where u: "context_struct_compute_av (Suc n) p lg sc tc tcl requested h =
        map_option (apfst Inr) (type_attribute_bounds_av n p lg sc tc tcl req own reason h1)"
      using compute_av_unfold [OF False own, where n = n and requested = requested] by metis
    show ?thesis
    proof (cases "bounded p sc")
      case True
      then have "type_known p (ctype (bound p sc))" "rank (ctype (bound p sc)) < n"
        using assms(1) Suc.prems by (auto simp: bounds_end_def bounded_def bound_def Let_def)
      then have "context_struct_compute_av n p lg (bound p sc) (bound p tc) tcl req h1 \<noteq> None"
        by (rule Suc.IH)
      with u True show ?thesis
        by (auto simp: type_attribute_bounds_av.simps bounded_def bound_def Let_def split: sum.splits)
    qed (simp add: u type_attribute_bounds_av.simps bounded_def Let_def)
  qed
qed simp

section \<open>Properties\<close>

text \<open>
  C2: The access decision. For a known class, if the chain of type bounds ends (within the depth
  given), \<open>context_struct_compute_av\<close> returns a decision. When no allocation fails, a permission is allowed in it
  exactly when the specification \<open>permitted\<close> grants it: an unconditional or enabled conditional rule for
  some pair of attributes of the two types allows it, no constraint of the class on it is false
  (a malformed one, which has no value, counts as satisfied),
  a process transition that changes the role has its role allow rule, and the bounding contexts
  are permitted it too. When memory runs out the decision still allows all of these, and nothing that the type
  and role rules do not grant; but it may ignore a constraint or a bound, since an evaluation that
  fails counts as a grant. The audit vectors join the audit rules. An unknown class is an error.
\<close>

theorem context_struct_compute_av_permitted:
  assumes "avtab_wf (te_avtab p)" "avtab_wf (te_cond_avtab p)"
    and "bounds_end p rank" "type_known p (ctype sc)" "rank (ctype sc) < n"
  shows "if tcl = 0 \<or> ucast tcl > nprim (p_classes p)
    then context_struct_compute_av n p lg sc tc tcl requested h = Some (Inl EINVAL, h)
    else \<exists>avd reason h'. context_struct_compute_av n p lg sc tc tcl requested h = Some (Inr (avd, reason), h') \<and>
      (mem_ok h \<longrightarrow> (\<forall>b. bit (allowed avd) b \<longleftrightarrow> permitted p tcl b sc tc)) \<and>
      (\<forall>b. permitted p tcl b sc tc \<longrightarrow> bit (allowed avd) b) \<and>
      (\<forall>b. bit (allowed avd) b \<longrightarrow> rule_permission p sc tc tcl b) \<and>
      (\<forall>b. bit (auditallow avd) b \<longleftrightarrow> (\<exists>d \<in> rules_for p sc tc tcl AVTAB_AUDITALLOW. bit d b)) \<and>
      (\<forall>b < 32. bit (auditdeny avd) b \<longleftrightarrow> (\<forall>d \<in> rules_for p sc tc tcl AVTAB_AUDITDENY. bit d b)) \<and>
      decided avd = 0xffffffff \<and> seqno avd = lg"
proof (cases "tcl = 0 \<or> ucast tcl > nprim (p_classes p)")
  case True
  then show ?thesis using assms(5) by (cases n) (auto simp: context_struct_compute_av.simps(2))
next
  case False
  obtain r h' where r: "context_struct_compute_av n p lg sc tc tcl requested h = Some (r, h')"
    using compute_av_total [OF assms(3-5)] by fastforce
  obtain avd reason where "r = Inr (avd, reason)" "audits p lg sc tc tcl avd"
    "allows h h' (\<lambda>b. permitted p tcl b sc tc) (rule_permission p sc tc tcl) (allowed avd)"
    using compute_av_spec [OF assms(1,2) False r] by blast
  then show ?thesis
    unfolding if_not_P [OF False] audits_def allows_def
    using r by (intro exI [of _ avd] exI [of _ reason] exI [of _ h']) blast
qed

lemma sample_bounds_end: "bounds_end sample_policy (\<lambda>t. unat t)"
proof -
  have "t = 1 \<or> t = 2" if "type_known sample_policy t" for t
  proof -
    have "unat t = 1 \<or> unat t = 2"
      using that unat_gt_0 [of t] by (auto simp: type_known_def sample_policy_def)
    then show ?thesis using word_eq_unatI [of t 1] word_eq_unatI [of t 2] by auto
  qed
  then show ?thesis
    by (fastforce simp: bounds_end_def Let_def type_known_def sample_policy_def val_struct_def)
qed

lemma sample_own_permission: "own_permission sample_policy (sample_context 1) (sample_context 1) 1 0"
proof -
  have "0 \<in> set (ebitmap_positive_bits (bitmap_of 1))"
    by (simp add: positive_bits_iff)
  then have "key_pair sample_policy (sample_context 1) (sample_context 1) 1 (sample_rule 1)"
    by (auto simp: key_pair_def type_attrs_def sample_policy_def sample_context_def intro!: bexI [of _ 0])
  then have "1 \<in> rules_for sample_policy (sample_context 1) (sample_context 1) 1 AVTAB_ALLOWED"
    by (auto simp: rules_for_def sample_policy_def)
  then show ?thesis
    by (auto simp: own_permission_def constraints_hold_def role_change_ok_def sample_policy_def
        val_struct_def process_datum_def intro!: bexI [of _ 1])
qed

lemma context_struct_compute_av_permitted_witness:
  "\<exists>avd reason h. context_struct_compute_av 3 sample_policy 7 (sample_context 1) (sample_context 1) 1 1 [False] =
      Some (Inr (avd, reason), h) \<and> bit (allowed avd) 0 \<and> seqno avd = 7"
proof -
  have "avtab_wf (te_avtab sample_policy)" "avtab_wf (te_cond_avtab sample_policy)"
    "type_known sample_policy (ctype (sample_context 1))" "unat (ctype (sample_context 1)) < 3"
    "\<not> ((1 :: u16) = 0 \<or> ucast (1 :: u16) > nprim (p_classes sample_policy))"
    by (simp_all add: sample_policy_def type_known_def sample_context_def one_chain_def)
  note A = context_struct_compute_av_permitted [OF this(1,2) sample_bounds_end this(3,4),
      where tcl = 1 and lg = 7 and tc = "sample_context 1" and requested = 1 and h = "[False]", unfolded if_not_P [OF this(5)]]
  have "\<not> bounded sample_policy (sample_context 1)"
    by (simp add: bounded_def sample_policy_def sample_context_def val_struct_def)
  then have "permitted sample_policy 1 0 (sample_context 1) (sample_context 1)"
    using sample_own_permission by (rule permitted.unbounded [rotated])
  with A show ?thesis by blast
qed

definition same_user :: constraint_expr where
  "same_user = \<lparr>expr_type = CEXPR_ATTR, cattr = CEXPR_USER, cop = CEXPR_EQ, cnames = ebitmap_init, type_names = type_set_init\<rparr>"

definition low_dom_high :: constraint_expr where
  "low_dom_high = \<lparr>expr_type = CEXPR_ATTR, cattr = CEXPR_L1H2, cop = CEXPR_INCOMP, cnames = ebitmap_init, type_names = type_set_init\<rparr>"

lemma constraint_expr_eval_tree_witness:
  "fst (constraint_expr_eval sample_policy (sample_context 1) (sample_context 2) None
     \<lparr>permissions = 1, cnode_expr = cons_postfix (CAnd (Atom same_user) (CNot (Atom low_dom_high)))\<rparr> []) = Inr True"
proof -
  let ?t = "CAnd (Atom same_user) (CNot (Atom low_dom_high))"
  have "\<forall>e \<in> cons_atoms ?t. is_operand e"
    by (simp add: is_operand_def same_user_def low_dom_high_def)
  moreover have "cons_need ?t \<le> CEXPR_MAXDEPTH" by simp
  moreover have "atom_val sample_policy (sample_context 1) (sample_context 2) None same_user = Some True"
    "atom_val sample_policy (sample_context 1) (sample_context 2) None low_dom_high = Some False"
    by (simp_all add: atom_val_def same_user_def low_dom_high_def cexpr_attr_def cexpr_compare_def
        cexpr_levels_def Let_def sample_context_def mls_level_incomp_def sample_level_def lvl.dom_refl
        level_wf_def sample_wf)
  ultimately show ?thesis
    using constraint_expr_eval_tree [THEN conjunct1, rule_format, where t = ?t and p = sample_policy and
        sc = "sample_context 1" and tc = "sample_context 2" and xc = None and
        c = "\<lparr>permissions = 1, cnode_expr = cons_postfix ?t\<rparr>" and h = "[]"]
    by (simp add: ex_bool_eq Let_def mem_ok_def)
qed

end
