(* ===== verification/Mls.thy ===== *)
theory Mls
  imports Sample_Policy
begin

text \<open>
  The multi-level security operations of \<open>mls.c\<close> on contexts: printing and parsing of ranges,
  validity, the range of a user, the range of a new object, and the conversion of a context to
  another policy.

  Strings are lists of characters without the terminating \<open>NUL\<close>, so a pointer into a string is
  the rest of the string, and \<open>*p\<close> at the end of the string is the character 0. The text that
  \<open>mls_sid_to_context\<close> writes is returned as a string. \<open>mls_context_to_sid\<close> also moves
  \<open>*scontext\<close>; its only caller \<open>mls_from_string\<close> ignores that, and it is left out. An operation
  that fails returns no context, because every caller destroys it.
\<close>

unbundle bit_operations_syntax

section \<open>Printing\<close>

definition name_at :: "string option list \<Rightarrow> u32 \<Rightarrow> string" where
  "name_at names i = the (names ! unat i)"

text \<open>
  The loop \<open>ebitmap_for_each_bit\<close> over the categories of one level: \<open>i\<close> is the value the loop
  variable has after the last bit, \<open>run\<close> (\<open>range\<close> in the code) the length of the current run, \<open>wrote\<close> whether a
  separator was written.
\<close>

definition run_end :: "string option list \<Rightarrow> u32 \<Rightarrow> nat \<Rightarrow> string" where
  "run_end names i run =
     (if run > 1
      then (if run > 2 then CHR ''.'' else CHR '','') # name_at names (i - 1) else [])"

fun cats_text ::
  "string option list \<Rightarrow> (ebitmap_node \<times> u32) list \<Rightarrow> u32 \<Rightarrow> nat \<Rightarrow> bool \<Rightarrow> string" where
  "cats_text names [] i run wrote = run_end names i run"
| "cats_text names ((cnode, b) # bs) i run wrote =
     (if ebitmap_node_get_bit cnode b
      then if run \<noteq> 0 then cats_text names bs (b + 1) (run + 1) wrote
        else (if wrote then CHR '','' else CHR '':'') # name_at names b @ cats_text names bs (b + 1) 1 True
      else run_end names b run @ cats_text names bs (b + 1) 0 wrote)"

definition level_text :: "policydb \<Rightarrow> mls_level \<Rightarrow> string" where
  "level_text p l = name_at (p_sens_val_to_name p) (sens l - 1) @
     cats_text (p_cat_val_to_name p) (ebitmap_for_each_bit (cat l)) (ebitmap_startbit (cat l)) 0 False"

definition mls_sid_to_context :: "policydb \<Rightarrow> context_struct \<Rightarrow> string" where
  "mls_sid_to_context p c =
     (if \<not> mls p then []
      else CHR '':'' # level_text p (low (crange c)) @
        (if mls_level_eq (low (crange c)) (high (crange c)) then []
         else CHR ''-'' # level_text p (high (crange c))))"

definition strlen :: "string \<Rightarrow> u32" where
  "strlen s = of_nat (length s)"

definition run_len :: "string option list \<Rightarrow> u32 \<Rightarrow> nat \<Rightarrow> u32" where
  "run_len names i run = (if run > 1 then strlen (name_at names (i - 1)) + 1 else 0)"

fun cats_len :: "string option list \<Rightarrow> (ebitmap_node \<times> u32) list \<Rightarrow> u32 \<Rightarrow> nat \<Rightarrow> u32" where
  "cats_len names [] i run = run_len names i run"
| "cats_len names ((cnode, b) # bs) i run =
     (if ebitmap_node_get_bit cnode b
      then if run \<noteq> 0 then cats_len names bs (b + 1) (run + 1)
        else strlen (name_at names b) + 1 + cats_len names bs (b + 1) 1
      else run_len names b run + cats_len names bs (b + 1) 0)"

definition level_len :: "policydb \<Rightarrow> mls_level \<Rightarrow> u32" where
  "level_len p l = strlen (name_at (p_sens_val_to_name p) (sens l - 1)) +
     cats_len (p_cat_val_to_name p) (ebitmap_for_each_bit (cat l)) (ebitmap_startbit (cat l)) 0"

definition mls_compute_context_len :: "policydb \<Rightarrow> context_struct \<Rightarrow> u32" where
  "mls_compute_context_len p c =
     (if \<not> mls p then 0
      else 1 + level_len p (low (crange c)) +
        (if mls_level_eq (low (crange c)) (high (crange c)) then 0
         else 1 + level_len p (high (crange c))))"

text \<open>Two buffers; the second receives the text without the leading \<open>:\<close>.\<close>

definition mls_to_string :: "policydb \<Rightarrow> context_struct \<Rightarrow> heap \<Rightarrow> (string \<times> heap) result" where
  "mls_to_string p c h = (case malloc h of (ok, h) \<Rightarrow>
     if \<not> ok then Inl FAIL
     else case malloc h of (ok, h) \<Rightarrow>
       if \<not> ok then Inl FAIL else Inr (tl (mls_sid_to_context p c), h))"

section \<open>Validity\<close>

definition level_isvalid :: "policydb \<Rightarrow> mls_level \<Rightarrow> bool" where
  "level_isvalid p l =
     (if sens l = 0 \<or> sens l > nprim (p_levels p) then False
      else case val_name (p_sens_val_to_name p) (sens l) of
        None \<Rightarrow> False
      | Some key \<Rightarrow> (case hashtab_search (table (p_levels p)) key of
          None \<Rightarrow> False
        | Some levdatum \<Rightarrow> (\<forall>i \<in> set (ebitmap_positive_bits (cat l)).
            \<not> i > nprim (p_cats p) \<and> ebitmap_get_bit (cat (level_of levdatum)) i)))"

definition mls_context_isvalid :: "policydb \<Rightarrow> context_struct \<Rightarrow> bool" where
  "mls_context_isvalid p c =
     (if \<not> mls p then True
      else if \<not> mls_level_dom (high (crange c)) (low (crange c)) then False
      else if \<not> level_isvalid p (low (crange c)) then False
      else if \<not> level_isvalid p (high (crange c)) then False
      else if crole c = OBJECT_R_VAL then True
      else if cuser c = 0 \<or> cuser c > nprim (p_users p) then False
      else case val_struct (user_val_to_struct p) (cuser c) of
        None \<Rightarrow> False
      | Some usrdatum \<Rightarrow> mls_range_contains (exp_range usrdatum) (crange c))"

section \<open>Parsing\<close>

text \<open>
  \<open>while (*p && *p is not a stop) p++; delim = *p; if (delim) *p++ = 0;\<close>: the token, the
  delimiter and the rest.
\<close>

definition cut :: "string \<Rightarrow> string \<Rightarrow> string \<times> char \<times> string" where
  "cut stops p = (let r = dropWhile (\<lambda>c. c \<notin> set stops) p in
     (takeWhile (\<lambda>c. c \<notin> set stops) p, (case r of [] \<Rightarrow> CHR 0x00 | d # _ \<Rightarrow> d), tl r))"

definition split_range :: "string \<Rightarrow> string \<times> string option" where
  "split_range tok = (case dropWhile (\<lambda>c. c \<noteq> CHR ''.'') tok of
       [] \<Rightarrow> (tok, None)
     | _ # r \<Rightarrow> (takeWhile (\<lambda>c. c \<noteq> CHR ''.'') tok, Some r))"

function set_bit_range :: "u32 \<Rightarrow> u32 \<Rightarrow> ebitmap \<Rightarrow> heap \<Rightarrow> (ebitmap \<times> heap) result" where
  "set_bit_range i hi e h =
     (if i < hi
      then bind_res (ebitmap_set_bit e i True h) (\<lambda>(e, h). set_bit_range (i + 1) hi e h)
      else Inr (e, h))"
  by pat_completeness auto

termination
  by (relation "measure (\<lambda>(i, hi, _). unat hi - unat i)")
    (auto simp: unat_plus_one word_less_nat_alt)

declare set_bit_range.simps [simp del]

definition parse_cat :: "policydb \<Rightarrow> string \<Rightarrow> ebitmap \<Rightarrow> heap \<Rightarrow> (ebitmap \<times> heap) result" where
  "parse_cat pd tok e h = (case split_range tok of (cname, rngptr) \<Rightarrow>
     case hashtab_search (table (p_cats pd)) cname of
       None \<Rightarrow> Inl FAIL
     | Some catdatum \<Rightarrow> bind_res (ebitmap_set_bit e (cat_value catdatum - 1) True h) (\<lambda>(e, h).
         case rngptr of
           None \<Rightarrow> Inr (e, h)
         | Some rng \<Rightarrow> (case hashtab_search (table (p_cats pd)) rng of
               None \<Rightarrow> Inl FAIL
             | Some rngdatum \<Rightarrow>
                 if cat_value catdatum \<ge> cat_value rngdatum then Inl FAIL
                 else set_bit_range (cat_value catdatum) (cat_value rngdatum) e h)))"

lemma length_cut: "cut stops p = (tok, d, r) \<Longrightarrow> d \<noteq> CHR 0x00 \<Longrightarrow> length r < length p"
  using length_dropWhile_le [of "\<lambda>c. c \<notin> set stops" p]
  by (cases "dropWhile (\<lambda>c. c \<notin> set stops) p") (auto simp: cut_def Let_def)

function parse_cats ::
  "policydb \<Rightarrow> string \<Rightarrow> ebitmap \<Rightarrow> heap \<Rightarrow> ((char \<times> string \<times> ebitmap) \<times> heap) result" where
  "parse_cats pd p e h = (case cut '',-'' p of (tok, delim, p') \<Rightarrow>
     bind_res (parse_cat pd tok e h) (\<lambda>(e, h).
       if delim = CHR '','' then parse_cats pd p' e h else Inr ((delim, p', e), h)))"
  by pat_completeness auto

termination
  by (relation "measure (\<lambda>(_, p, _). length p)") (auto dest: length_cut [OF sym])

declare parse_cats.simps [simp del]

text \<open>One turn of the loop over the two levels: the level named before \<open>delim\<close>, then its categories.\<close>

definition parse_level ::
  "policydb \<Rightarrow> string \<Rightarrow> char \<Rightarrow> string \<Rightarrow> ebitmap \<Rightarrow> heap \<Rightarrow> ((char \<times> string \<times> mls_level) \<times> heap) result" where
  "parse_level pd sname delim p e h = (case hashtab_search (table (p_levels pd)) sname of
       None \<Rightarrow> Inl FAIL
     | Some levdatum \<Rightarrow>
         if delim = CHR '':''
         then bind_res (parse_cats pd p e h) (\<lambda>((delim, p, e), h).
           Inr ((delim, p, \<lparr>sens = sens (level_of levdatum), cat = e\<rparr>), h))
         else Inr ((delim, p, \<lparr>sens = sens (level_of levdatum), cat = e\<rparr>), h))"

text \<open>Whatever goes wrong, the label \<open>err\<close> returns \<open>STATUS_ERR\<close>.\<close>

definition mls_context_to_sid ::
  "policydb \<Rightarrow> char \<Rightarrow> string \<Rightarrow> context_struct \<Rightarrow> heap \<Rightarrow> (context_struct \<times> heap) result" where
  "mls_context_to_sid pd oldc s c h =
     (if \<not> mls pd then Inr (c, h)
      else if oldc = CHR 0x00 then Inl FAIL
      else catch_res FAIL (case cut '':-'' s of (sname, delim, p) \<Rightarrow>
        bind_res (parse_level pd sname delim p (cat (low (crange c))) h) (\<lambda>((delim, p, l0), h).
          if delim = CHR ''-''
          then case cut '':'' p of (sname, delim, p) \<Rightarrow>
            bind_res (parse_level pd sname delim p (cat (high (crange c))) h) (\<lambda>((delim, p, l1), h).
              Inr (c\<lparr>crange := \<lparr>low = l0, high = l1\<rparr>\<rparr>, h))
          else bind_res (mls_level_cpy l0 h) (\<lambda>(l1, h).
            Inr (c\<lparr>crange := \<lparr>low = l0, high = l1\<rparr>\<rparr>, h)))))"

definition mls_from_string ::
  "policydb \<Rightarrow> string \<Rightarrow> context_struct \<Rightarrow> heap \<Rightarrow> (context_struct \<times> heap) result" where
  "mls_from_string pd str c h = (case malloc h of (ok, h) \<Rightarrow>
     if \<not> ok then Inl FAIL
     else catch_res FAIL (mls_context_to_sid pd CHR ''$'' str c h))"

definition sepol_mls_contains ::
  "policydb \<Rightarrow> string \<Rightarrow> string \<Rightarrow> heap \<Rightarrow> (bool \<times> heap) result" where
  "sepol_mls_contains pd mls1 mls2 h = (case malloc h of (ok1, h) \<Rightarrow> case malloc h of (ok2, h) \<Rightarrow>
     if \<not> ok1 \<or> \<not> ok2 then Inl FAIL
     else bind_res (mls_from_string pd mls1 context_init h) (\<lambda>(ctx1, h).
       bind_res (mls_from_string pd mls2 context_init h) (\<lambda>(ctx2, h).
         Inr (mls_range_contains (crange ctx1) (crange ctx2), h))))"

definition sepol_mls_check :: "policydb \<Rightarrow> string \<Rightarrow> heap \<Rightarrow> (unit \<times> heap) result" where
  "sepol_mls_check pd str h = (case malloc h of (ok, h) \<Rightarrow>
     if \<not> ok then Inl FAIL
     else bind_res (mls_from_string pd str context_init h) (\<lambda>(_, h). Inr ((), h)))"

section \<open>New ranges\<close>

definition mls_copy_context ::
  "context_struct \<Rightarrow> context_struct \<Rightarrow> heap \<Rightarrow> (context_struct \<times> heap) result" where
  "mls_copy_context dst src h =
     bind_res (ebitmap_cpy (cat (low (crange src))) h) (\<lambda>(c0, h).
     bind_res (ebitmap_cpy (cat (high (crange src))) h) (\<lambda>(c1, h).
     Inr (dst\<lparr>crange := \<lparr>low = \<lparr>sens = sens (low (crange src)), cat = c0\<rparr>,
       high = \<lparr>sens = sens (high (crange src)), cat = c1\<rparr>\<rparr>\<rparr>, h)))"

definition mls_scopy_context ::
  "context_struct \<Rightarrow> context_struct \<Rightarrow> heap \<Rightarrow> (context_struct \<times> heap) result" where
  "mls_scopy_context dst src h =
     bind_res (ebitmap_cpy (cat (low (crange src))) h) (\<lambda>(c0, h).
     bind_res (ebitmap_cpy (cat (low (crange src))) h) (\<lambda>(c1, h).
     Inr (dst\<lparr>crange := \<lparr>low = \<lparr>sens = sens (low (crange src)), cat = c0\<rparr>,
       high = \<lparr>sens = sens (low (crange src)), cat = c1\<rparr>\<rparr>\<rparr>, h)))"

definition mls_range_set ::
  "context_struct \<Rightarrow> mls_range \<Rightarrow> heap \<Rightarrow> (context_struct \<times> heap) result" where
  "mls_range_set c range0 h =
     bind_res (ebitmap_cpy (cat (low range0)) h) (\<lambda>(c0, h).
     bind_res (ebitmap_cpy (cat (high range0)) h) (\<lambda>(c1, h).
     Inr (c\<lparr>crange := \<lparr>low = \<lparr>sens = sens (low range0), cat = c0\<rparr>,
       high = \<lparr>sens = sens (high range0), cat = c1\<rparr>\<rparr>\<rparr>, h)))"

text \<open>The levels are assigned, not copied: the bitmaps of \<open>usercon\<close> alias those of the operands.\<close>

definition mls_setup_user_range ::
  "context_struct \<Rightarrow> user_datum \<Rightarrow> context_struct \<Rightarrow> bool \<Rightarrow> context_struct result" where
  "mls_setup_user_range fromcon user usercon mls_on =
     (if \<not> mls_on then Inr usercon
      else let fromcon_sen = low (crange fromcon); fromcon_clr = high (crange fromcon);
               user_low = low (exp_range user); user_clr = high (exp_range user);
               user_def = exp_dfltlevel user in
        bind_res (if mls_level_between user_def fromcon_sen fromcon_clr then Inr user_def
          else if mls_level_between fromcon_sen user_def user_clr then Inr fromcon_sen
          else if mls_level_between fromcon_clr user_low user_def then Inr user_low
          else Inl EINVAL) (\<lambda>usercon_sen.
        bind_res (if mls_level_dom user_clr fromcon_clr then Inr fromcon_clr
          else if mls_level_dom fromcon_clr user_clr then Inr user_clr
          else Inl EINVAL) (\<lambda>usercon_clr.
        Inr (usercon\<lparr>crange := \<lparr>low = usercon_sen, high = usercon_clr\<rparr>\<rparr>))))"

fun convert_cats ::
  "policydb \<Rightarrow> policydb \<Rightarrow> u32 list \<Rightarrow> ebitmap \<Rightarrow> heap \<Rightarrow> (ebitmap \<times> heap) result" where
  "convert_cats oldp newp [] bitmap h = Inr (bitmap, h)"
| "convert_cats oldp newp (i # is) bitmap h =
     (case hashtab_search (table (p_cats newp)) (name_at (p_cat_val_to_name oldp) i) of
        None \<Rightarrow> Inl EINVAL
      | Some catdatum \<Rightarrow> bind_res (ebitmap_set_bit bitmap (cat_value catdatum - 1) True h)
          (\<lambda>(bitmap, h). convert_cats oldp newp is bitmap h))"

definition convert_level ::
  "policydb \<Rightarrow> policydb \<Rightarrow> mls_level \<Rightarrow> heap \<Rightarrow> (mls_level \<times> heap) result" where
  "convert_level oldp newp l h =
     (case hashtab_search (table (p_levels newp)) (name_at (p_sens_val_to_name oldp) (sens l - 1)) of
        None \<Rightarrow> Inl EINVAL
      | Some levdatum \<Rightarrow>
          bind_res (convert_cats oldp newp (ebitmap_positive_bits (cat l)) ebitmap_init h) (\<lambda>(bitmap, h).
            Inr (\<lparr>sens = sens (level_of levdatum), cat = bitmap\<rparr>, h)))"

definition mls_convert_context ::
  "policydb \<Rightarrow> policydb \<Rightarrow> context_struct \<Rightarrow> heap \<Rightarrow> (context_struct \<times> heap) result" where
  "mls_convert_context oldp newp c h =
     (if \<not> mls oldp then Inr (c, h)
      else bind_res (convert_level oldp newp (low (crange c)) h) (\<lambda>(l0, h).
        bind_res (convert_level oldp newp (high (crange c)) h) (\<lambda>(l1, h).
        Inr (c\<lparr>crange := \<lparr>low = l0, high = l1\<rparr>\<rparr>, h))))"

text \<open>\<open>switch (default_range)\<close>; \<open>None\<close> falls through to the next case.\<close>

definition default_range_copy ::
  "u8 \<Rightarrow> context_struct \<Rightarrow> context_struct \<Rightarrow> context_struct \<Rightarrow> heap \<Rightarrow> (context_struct \<times> heap) result option" where
  "default_range_copy dr newc sc tc h =
     (if dr = 1 then Some (mls_context_cpy_low newc sc h)
      else if dr = 2 then Some (mls_context_cpy_high newc sc h)
      else if dr = 3 then Some (mls_context_cpy newc sc h)
      else if dr = 4 then Some (mls_context_cpy_low newc tc h)
      else if dr = 5 then Some (mls_context_cpy_high newc tc h)
      else if dr = 6 then Some (mls_context_cpy newc tc h)
      else if dr = 7 then Some (mls_context_glblub newc sc tc h)
      else None)"

definition mls_change_range ::
  "policydb \<Rightarrow> context_struct \<Rightarrow> u16 \<Rightarrow> context_struct \<Rightarrow> heap \<Rightarrow> (context_struct \<times> heap) result" where
  "mls_change_range p sc tcl newc h =
     (if tcl = process_class p then mls_copy_context newc sc h else mls_scopy_context newc sc h)"

definition mls_compute_sid ::
  "policydb \<Rightarrow> context_struct \<Rightarrow> context_struct \<Rightarrow> u16 \<Rightarrow> u32 \<Rightarrow> context_struct \<Rightarrow> heap \<Rightarrow>
     (context_struct \<times> heap) result" where
  "mls_compute_sid p sc tc tcl spec newc h =
     (if \<not> mls p then Inr (newc, h)
      else if spec = AVTAB_TRANSITION
      then let rtr = \<lparr>rt_source_type = ctype sc, rt_target_type = ctype tc, rt_target_class = ucast tcl\<rparr> in
        case hashtab_search (range_tr p) rtr of
          Some r \<Rightarrow> mls_range_set newc r h
        | None \<Rightarrow>
            (let dr = (if tcl \<noteq> 0 \<and> ucast tcl \<le> nprim (p_classes p)
                then case val_struct (class_val_to_struct p) (ucast tcl) of
                    None \<Rightarrow> 0 | Some cladatum \<Rightarrow> default_range cladatum
                else 0) in
             case default_range_copy dr newc sc tc h of
               Some r \<Rightarrow> r
             | None \<Rightarrow> mls_change_range p sc tcl newc h)
      else if spec = AVTAB_CHANGE then mls_change_range p sc tcl newc h
      else if spec = AVTAB_MEMBER then mls_context_cpy_low newc sc h
      else Inl EINVAL)"

end
