(* ===== verification/Mls_Text.thy ===== *)
theory Mls_Text
  imports Mls
begin

text \<open>
  The text form of MLS ranges: the length that is computed for the buffer is the length that is
  written, and parsing what was printed gives the range back, provided that no run of categories
  ends where the bitmap has a gap. Where one does, the text names other categories.
\<close>

section \<open>The length of the text\<close>

lemma strlen_simps [simp]:
  "strlen [] = 0" "strlen (c # s) = 1 + strlen s" "strlen (s @ t) = strlen s + strlen t"
  by (simp_all add: strlen_def)

lemma run_len_text: "strlen (run_end names i run) = run_len names i run"
  by (simp add: run_end_def run_len_def)

lemma cats_len_text: "strlen (cats_text names bs i run wrote) = cats_len names bs i run"
  by (induction names bs i run wrote rule: cats_text.induct) (simp_all add: run_len_text)

lemma level_len_text: "strlen (level_text p l) = level_len p l"
  by (simp add: level_text_def level_len_def cats_len_text)

text \<open>
  The buffer for the text of a range has the right size: the length that \<open>mls_compute_context_len\<close>
  computes is the number of characters that \<open>mls_sid_to_context\<close> writes, modulo the width of the counter,
  whatever the bitmaps and the names are.
\<close>

lemma context_len_text: "mls_compute_context_len p c = of_nat (length (mls_sid_to_context p c))"
proof -
  have "strlen (mls_sid_to_context p c) = mls_compute_context_len p c"
    by (simp add: mls_sid_to_context_def mls_compute_context_len_def level_len_text)
  then show ?thesis by (simp add: strlen_def)
qed

section \<open>Tokens\<close>

definition plain :: "string \<Rightarrow> bool" where
  "plain s \<longleftrightarrow> set s \<inter> {CHR '':'', CHR ''-'', CHR '','', CHR ''.''} = {}"

lemma takeWhile_stop: "\<forall>c \<in> set s. P c \<Longrightarrow> r = [] \<or> \<not> P (hd r) \<Longrightarrow> takeWhile P (s @ r) = s"
  by (induction s) (cases r, auto)

lemma dropWhile_stop: "\<forall>c \<in> set s. P c \<Longrightarrow> r = [] \<or> \<not> P (hd r) \<Longrightarrow> dropWhile P (s @ r) = r"
  by (induction s) (cases r, auto)

lemma cut_token:
  assumes "set s \<inter> set stops = {}" "r = [] \<or> hd r \<in> set stops"
  shows "cut stops (s @ r) = (s, (case r of [] \<Rightarrow> CHR 0x00 | d # _ \<Rightarrow> d), tl r)"
proof -
  have s: "\<forall>c \<in> set s. c \<notin> set stops" using assms(1) by blast
  have r: "r = [] \<or> \<not> (hd r \<notin> set stops)" using assms(2) by blast
  show ?thesis
    by (simp add: cut_def takeWhile_stop [OF s r] dropWhile_stop [OF s r])
qed

lemma split_range_plain: "plain s \<Longrightarrow> split_range s = (s, None)"
proof -
  assume "plain s"
  then have "\<forall>c \<in> set s. c \<noteq> CHR ''.''" by (auto simp: plain_def)
  then have "dropWhile (\<lambda>c. c \<noteq> CHR ''.'') s = []" by (simp add: dropWhile_eq_Nil_conv)
  then show ?thesis unfolding split_range_def by (simp only: list.case)
qed

lemma split_range_dot: "plain s \<Longrightarrow> split_range (s @ CHR ''.'' # t) = (s, Some t)"
proof -
  assume "plain s"
  then have s: "\<forall>c \<in> set s. c \<noteq> CHR ''.''" by (auto simp: plain_def)
  have r: "CHR ''.'' # t = [] \<or> \<not> hd (CHR ''.'' # t) \<noteq> CHR ''.''" by simp
  show ?thesis unfolding split_range_def takeWhile_stop [OF s r] dropWhile_stop [OF s r] by simp
qed

section \<open>Parsing categories\<close>

lemma insert_interval: "a < b \<Longrightarrow> insert a (S \<union> {Suc a..<b}) = S \<union> {a..<b}" for a b :: nat
  by auto

lemma set_bit_range_correct:
  assumes "ebitmap_wf e" "unat hi \<le> 2 ^ 32 - 64"
  shows "outcome h (set_bit_range i hi e h) no_err (\<lambda>e'. ebitmap_wf e' \<and>
    ebitmap_set e' = ebitmap_set e \<union> {unat i..<unat hi})"
  using assms
proof (induction i hi e h rule: set_bit_range.induct)
  case (1 i hi e h)
  show ?case
  proof (cases "i < hi")
    case True
    then have n: "unat (i + 1) = unat i + 1" "unat i < unat hi"
      by (simp_all add: unat_plus_one word_less_nat_alt)
    show ?thesis
      unfolding set_bit_range.simps [of i hi e h] if_P [OF True]
    proof (rule outcome_step [OF ebitmap_set_bit_correct [OF 1(2)]])
      fix e' h'
      assume e': "ebitmap_wf e' \<and> unat i < 2 ^ 32 - 64 \<and> ebitmap_set e' = (if True then insert (unat i) (ebitmap_set e) else ebitmap_set e - {unat i})"
        and eq: "ebitmap_set_bit e i True h = Inr (e', h')"
      have "outcome h' (set_bit_range (i + 1) hi e' h') no_err (\<lambda>e''. ebitmap_wf e'' \<and>
          ebitmap_set e'' = ebitmap_set e' \<union> {unat (i + 1)..<unat hi})"
        using 1(1) [OF True eq refl] e' 1(3) by simp
      then show "outcome h' (case (e', h') of (e, h) \<Rightarrow> set_bit_range (i + 1) hi e h) no_err
          (\<lambda>e''. ebitmap_wf e'' \<and> ebitmap_set e'' = ebitmap_set e \<union> {unat i..<unat hi})"
        unfolding prod.case by (rule outcome_mono) (use e' n in \<open>simp_all add: insert_interval\<close>)
    qed (use 1(3) n in simp)
  next
    case False
    then have "{unat i..<unat hi} = {}" by (simp add: word_less_nat_alt)
    then show ?thesis
      using 1(2) unfolding set_bit_range.simps [of i hi e h] if_not_P [OF False] by simp
  qed
qed

definition cat_ok :: "policydb \<Rightarrow> u32 \<Rightarrow> bool" where
  "cat_ok p b \<longleftrightarrow> unat b < 2 ^ 32 - 64 \<and> plain (name_at (p_cat_val_to_name p) b) \<and>
     (\<exists>d. hashtab_search (table (p_cats p)) (name_at (p_cat_val_to_name p) b) = Some d \<and> cat_value d = b + 1)"

abbreviation cname :: "policydb \<Rightarrow> u32 \<Rightarrow> string" where
  "cname p b \<equiv> name_at (p_cat_val_to_name p) b"

lemma cat_ok_Suc: "cat_ok p b \<Longrightarrow> unat (b + 1) = unat b + 1"
  by (simp add: cat_ok_def unat_add_lt)

lemma parse_cat_single:
  assumes "cat_ok p b" "ebitmap_wf e"
  shows "outcome h (parse_cat p (cname p b) e h) no_err
    (\<lambda>e'. ebitmap_wf e' \<and> ebitmap_set e' = insert (unat b) (ebitmap_set e))"
proof -
  obtain d where d: "hashtab_search (table (p_cats p)) (cname p b) = Some d" "cat_value d - 1 = b"
    using assms(1) by (auto simp: cat_ok_def)
  have "split_range (cname p b) = (cname p b, None)"
    using assms(1) by (simp add: cat_ok_def split_range_plain)
  then have "parse_cat p (cname p b) e h = bind_res (ebitmap_set_bit e b True h) (\<lambda>(e, h). Inr (e, h))"
    using d by (simp add: parse_cat_def)
  then show ?thesis
    by (simp, intro outcome_step [OF ebitmap_set_bit_correct [OF assms(2)]])
      (use assms(1) in \<open>auto simp: cat_ok_def\<close>)
qed

lemma parse_cat_range:
  assumes "cat_ok p a" "cat_ok p b" "a < b" "ebitmap_wf e"
  shows "outcome h (parse_cat p (cname p a @ CHR ''.'' # cname p b) e h) no_err
    (\<lambda>e'. ebitmap_wf e' \<and> ebitmap_set e' = ebitmap_set e \<union> {unat a..<unat b + 1})"
proof -
  obtain d where d: "hashtab_search (table (p_cats p)) (cname p a) = Some d" "cat_value d = a + 1"
    using assms(1) by (auto simp: cat_ok_def)
  obtain d2 where d2: "hashtab_search (table (p_cats p)) (cname p b) = Some d2" "cat_value d2 = b + 1"
    using assms(2) by (auto simp: cat_ok_def)
  have n: "unat (a + 1) = unat a + 1" "unat (b + 1) = unat b + 1" "unat a < unat b"
    using assms(1-3) cat_ok_Suc by (simp_all add: word_less_nat_alt)
  then have lt: "\<not> b + 1 \<le> a + 1" by (simp add: word_le_nat_alt)
  have "split_range (cname p a @ CHR ''.'' # cname p b) = (cname p a, Some (cname p b))"
    using assms(1) by (simp add: cat_ok_def split_range_dot)
  then have eq: "parse_cat p (cname p a @ CHR ''.'' # cname p b) e h =
      bind_res (ebitmap_set_bit e a True h) (\<lambda>(e, h). set_bit_range (a + 1) (b + 1) e h)"
    using d d2 lt by (simp add: parse_cat_def)
  show ?thesis
    unfolding eq
  proof (rule outcome_step [OF ebitmap_set_bit_correct [OF assms(4)]])
    fix e' h'
    assume e': "ebitmap_wf e' \<and> unat a < 2 ^ 32 - 64 \<and> ebitmap_set e' =
      (if True then insert (unat a) (ebitmap_set e) else ebitmap_set e - {unat a})"
    have "unat (b + 1) \<le> 2 ^ 32 - 64" using assms(2) n by (simp add: cat_ok_def)
    with e' have "outcome h' (set_bit_range (a + 1) (b + 1) e' h') no_err (\<lambda>e''. ebitmap_wf e'' \<and>
        ebitmap_set e'' = ebitmap_set e' \<union> {unat (a + 1)..<unat (b + 1)})"
      using set_bit_range_correct by blast
    then show "outcome h' (case (e', h') of (e, h) \<Rightarrow> set_bit_range (a + 1) (b + 1) e h) no_err
      (\<lambda>e'. ebitmap_wf e' \<and> ebitmap_set e' = ebitmap_set e \<union> {unat a..<unat b + 1})"
      unfolding prod.case by (rule outcome_mono) (use e' n in \<open>simp_all add: insert_interval\<close>)
  qed (use assms(1) in \<open>simp add: cat_ok_def\<close>)
qed

text \<open>What the parser does after a token, with \<open>r\<close> the text from the delimiter on.\<close>

definition parse_on :: "policydb \<Rightarrow> string \<Rightarrow> ebitmap \<Rightarrow> heap \<Rightarrow> ((char \<times> string \<times> ebitmap) \<times> heap) result" where
  "parse_on p r e h = (case r of
       [] \<Rightarrow> Inr ((CHR 0x00, [], e), h)
     | d # r' \<Rightarrow> if d = CHR '','' then parse_cats p r' e h else Inr ((d, r', e), h))"

definition at_delim :: "string \<Rightarrow> bool" where
  "at_delim r \<longleftrightarrow> r = [] \<or> hd r = CHR '','' \<or> hd r = CHR ''-''"

lemma parse_token:
  assumes "set tok \<inter> {CHR '','', CHR ''-''} = {}" "at_delim r"
  shows "parse_cats p (tok @ r) e h = bind_res (parse_cat p tok e h) (\<lambda>(e, h). parse_on p r e h)"
proof -
  have "cut '',-'' (tok @ r) = (tok, (case r of [] \<Rightarrow> CHR 0x00 | d # _ \<Rightarrow> d), tl r)"
    by (rule cut_token) (use assms in \<open>auto simp: at_delim_def\<close>)
  then show ?thesis
    unfolding parse_cats.simps [of p "tok @ r"] parse_on_def by (cases r) simp_all
qed

lemma plain_tokens:
  "plain s \<Longrightarrow> set s \<inter> {CHR '','', CHR ''-''} = {}"
  "plain s \<Longrightarrow> plain t \<Longrightarrow> set (s @ CHR ''.'' # t) \<inter> {CHR '','', CHR ''-''} = {}"
  by (auto simp: plain_def)

lemma parse_run:
  assumes "0 < run" "unat lo + run = unat i" "cat_ok p lo" "cat_ok p (i - 1)" "at_delim r" "ebitmap_wf e"
    and k: "\<And>e' h'. ebitmap_wf e' \<Longrightarrow> ebitmap_set e' = ebitmap_set e \<union> {unat lo..<unat i} \<Longrightarrow>
      outcome h' (parse_on p r e' h') no_err Q"
  shows "outcome h (parse_cats p (cname p lo @ run_end (p_cat_val_to_name p) i run @ r) e h) no_err Q"
proof -
  have i: "unat (i - 1) = unat i - 1"
    using assms(1,2) unat_gt_0 [of i] by (simp add: unat_minus_one)
  have pl: "plain (cname p lo)" "plain (cname p (i - 1))"
    using assms(3,4) by (simp_all add: cat_ok_def)
  consider "run = 1" | "run = 2" | "run > 2" using assms(1) by linarith
  then show ?thesis
  proof cases
    case 1
    then have eq: "parse_cats p (cname p lo @ run_end (p_cat_val_to_name p) i run @ r) e h =
        bind_res (parse_cat p (cname p lo) e h) (\<lambda>(e, h). parse_on p r e h)"
      using parse_token [OF plain_tokens(1) [OF pl(1)] assms(5)] by (simp add: run_end_def)
    have "{unat lo..<unat i} = {unat lo}" using 1 assms(2) by auto
    then show ?thesis unfolding eq
      by (intro outcome_step [OF parse_cat_single [OF assms(3,6)]]) (use k in auto)
  next
    case 2
    have eq: "parse_cats p (cname p lo @ run_end (p_cat_val_to_name p) i run @ r) e h =
        bind_res (parse_cat p (cname p lo) e h) (\<lambda>(e, h).
          bind_res (parse_cat p (cname p (i - 1)) e h) (\<lambda>(e, h). parse_on p r e h))"
      using parse_token [OF plain_tokens(1) [OF pl(1)], of "CHR '','' # cname p (i - 1) @ r"]
        parse_token [OF plain_tokens(1) [OF pl(2)] assms(5)] 2
      by (simp add: run_end_def parse_on_def at_delim_def)
    have set: "{unat lo..<unat i} = {unat lo, unat (i - 1)}" using 2 assms(2) i by auto
    show ?thesis unfolding eq
    proof (rule outcome_step [OF parse_cat_single [OF assms(3,6)]])
      fix e1 h1
      assume e1: "ebitmap_wf e1 \<and> ebitmap_set e1 = insert (unat lo) (ebitmap_set e)"
      show "outcome h1 (case (e1, h1) of (e, h) \<Rightarrow>
          bind_res (parse_cat p (cname p (i - 1)) e h) (\<lambda>(e, h). parse_on p r e h)) no_err Q"
        unfolding prod.case
        by (rule outcome_step [OF parse_cat_single [OF assms(4)]]) (use e1 k set in auto)
    qed simp
  next
    case 3
    then have lt: "lo < i - 1" using assms(2) i by (simp add: word_less_nat_alt)
    have eq: "parse_cats p (cname p lo @ run_end (p_cat_val_to_name p) i run @ r) e h =
        bind_res (parse_cat p (cname p lo @ CHR ''.'' # cname p (i - 1)) e h) (\<lambda>(e, h). parse_on p r e h)"
      using parse_token [OF plain_tokens(2) [OF pl] assms(5)] 3 by (simp add: run_end_def)
    have set: "unat (i - 1) + 1 = unat i" using 3 assms(2) i by simp
    show ?thesis unfolding eq
      by (rule outcome_step [OF parse_cat_range [OF assms(3,4) lt assms(6)]]) (use k set in auto)
  qed
qed

section \<open>Parsing what was printed\<close>

text \<open>No run of categories ends at a gap of the bitmap: after a set bit comes the next bit.\<close>

fun gaps_ok :: "(ebitmap_node \<times> u32) list \<Rightarrow> bool" where
  "gaps_ok ((n, b) # (n', b') # bs) \<longleftrightarrow>
     (ebitmap_node_get_bit n b \<longrightarrow> b' = b + 1) \<and> gaps_ok ((n', b') # bs)"
| "gaps_ok _ = True"

definition bits_of :: "(ebitmap_node \<times> u32) list \<Rightarrow> u32 set" where
  "bits_of bs = {b. \<exists>n. (n, b) \<in> set bs \<and> ebitmap_node_get_bit n b}"

lemma bits_of_simps [simp]:
  "bits_of [] = {}"
  "bits_of ((n, b) # bs) = (if ebitmap_node_get_bit n b then insert b (bits_of bs) else bits_of bs)"
  by (auto simp: bits_of_def)

lemma gaps_ok_tl: "gaps_ok (x # bs) \<Longrightarrow> gaps_ok bs"
  by (cases x; cases bs) auto

lemma cats_text_delim: "at_delim r \<Longrightarrow> at_delim (cats_text names bs i 0 True @ r)"
proof (induction bs arbitrary: i)
  case (Cons x bs)
  obtain n b where x: "x = (n, b)" by (cases x)
  show ?case
  proof (cases "ebitmap_node_get_bit n b")
    case False
    then show ?thesis using Cons x by (simp add: run_end_def)
  qed (simp add: x at_delim_def)
qed (simp add: run_end_def)

definition parsed :: "string \<Rightarrow> nat set \<Rightarrow> char \<times> string \<times> ebitmap \<Rightarrow> bool" where
  "parsed tail A r \<longleftrightarrow> (case r of (d, p, e) \<Rightarrow>
     d = (case tail of [] \<Rightarrow> CHR 0x00 | c # _ \<Rightarrow> c) \<and> p = tl tail \<and> ebitmap_wf e \<and> ebitmap_set e = A)"

lemma parse_bits:
  assumes "\<forall>b \<in> bits_of bs. cat_ok p b" "gaps_ok bs" "tail = [] \<or> hd tail = CHR ''-''"
  shows "0 < run \<Longrightarrow> unat lo + run = unat i \<Longrightarrow> cat_ok p lo \<Longrightarrow> cat_ok p (i - 1) \<Longrightarrow>
      bs = [] \<or> snd (hd bs) = i \<Longrightarrow> ebitmap_wf e \<Longrightarrow>
      outcome h (parse_cats p (cname p lo @ cats_text (p_cat_val_to_name p) bs i run True @ tail) e h)
        no_err (parsed tail (ebitmap_set e \<union> {unat lo..<unat i} \<union> unat ` bits_of bs))"
    and "ebitmap_wf e \<Longrightarrow> outcome h (parse_on p (cats_text (p_cat_val_to_name p) bs i 0 True @ tail) e h)
        no_err (parsed tail (ebitmap_set e \<union> unat ` bits_of bs))"
  using assms
proof (induction bs arbitrary: lo i run e h)
  case Nil
  {
    case 1
    have d: "at_delim tail" using 1 by (auto simp: at_delim_def)
    have "outcome h (parse_cats p (cname p lo @ run_end (p_cat_val_to_name p) i run @ tail) e h)
        no_err (parsed tail (ebitmap_set e \<union> {unat lo..<unat i}))"
      by (rule parse_run [OF 1(1-4) d 1(6)])
        (use 1(9) in \<open>cases tail; auto simp: parse_on_def parsed_def\<close>)
    then show ?case by simp
  next
    case 2
    then show ?case by (cases tail) (auto simp: parse_on_def parsed_def run_end_def)
  }
next
  case (Cons x bs)
  obtain n b where x: "x = (n, b)" by (cases x)
  have g: "gaps_ok bs" if "gaps_ok (x # bs)" using gaps_ok_tl [OF that] .
  have sub: "\<forall>b \<in> bits_of bs. cat_ok p b" if "\<forall>b \<in> bits_of (x # bs). cat_ok p b"
    using that by (simp add: x split: if_splits)
  {
    case 1
    have b: "b = i" using 1(5) x by simp
    show ?case
    proof (cases "ebitmap_node_get_bit n b")
      case True
      then have ok: "cat_ok p b" using 1(7) x by simp
      have next_i: "bs = [] \<or> snd (hd bs) = b + 1"
        using 1(8) x True by (cases bs) auto
      have i: "unat lo + (run + 1) = unat (b + 1)" "unat (b + 1) = unat i + 1" "cat_ok p (b + 1 - 1)"
        using cat_ok_Suc [OF ok] 1(2) b ok by simp_all
      have "insert (unat i) {unat lo..<unat i} = {unat lo..<unat (b + 1)}"
        using i 1(2) by auto
      then have set: "ebitmap_set e \<union> {unat lo..<unat i} \<union> unat ` bits_of (x # bs) =
          ebitmap_set e \<union> {unat lo..<unat (b + 1)} \<union> unat ` bits_of bs"
        using True x b by auto
      show ?thesis
        unfolding set using Cons.IH(1) [OF _ i(1) 1(3) i(3) next_i 1(6) sub g, where h = h] 1 x True by simp
    next
      case False
      let ?r = "cats_text (p_cat_val_to_name p) bs (b + 1) 0 True @ tail"
      have d: "at_delim ?r" by (rule cats_text_delim) (use 1(9) in \<open>auto simp: at_delim_def\<close>)
      have "outcome h (parse_cats p (cname p lo @ run_end (p_cat_val_to_name p) i run @ ?r) e h)
        no_err (parsed tail (ebitmap_set e \<union> {unat lo..<unat i} \<union> unat ` bits_of bs))"
      proof (rule parse_run [OF 1(1-4) d 1(6)])
        fix e' h'
        assume e': "ebitmap_wf e'" "ebitmap_set e' = ebitmap_set e \<union> {unat lo..<unat i}"
        show "outcome h' (parse_on p ?r e' h') no_err
            (parsed tail (ebitmap_set e \<union> {unat lo..<unat i} \<union> unat ` bits_of bs))"
          using Cons.IH(2) [OF e'(1) sub g 1(9), where h = h'] 1(7,8) e'(2) by simp
      qed
      then show ?thesis using False x b 1(1) by simp
    qed
  next
    case 2
    show ?case
    proof (cases "ebitmap_node_get_bit n b")
      case True
      then have ok: "cat_ok p b" using 2(2) x by simp
      have next_i: "bs = [] \<or> snd (hd bs) = b + 1"
        using 2(3) x True by (cases bs) auto
      have i: "unat b + 1 = unat (b + 1)" "cat_ok p (b + 1 - 1)"
        using cat_ok_Suc [OF ok] ok by simp_all
      have "{unat b..<unat (b + 1)} = {unat b}" using i(1) by auto
      then have set: "ebitmap_set e \<union> unat ` bits_of (x # bs) =
          ebitmap_set e \<union> {unat b..<unat (b + 1)} \<union> unat ` bits_of bs"
        using True x by auto
      show ?thesis
        unfolding set using Cons.IH(1) [OF _ i(1) ok i(2) next_i 2(1) sub g, where h = h] 2 x True
        by (simp add: parse_on_def)
    next
      case False
      then show ?thesis using Cons.IH(2) [OF 2(1) sub g 2(4), where h = h] 2(2,3) x
        by (simp add: run_end_def)
    qed
  }
qed

lemma bits_of_each: "bits_of (ebitmap_for_each_bit e) = set (ebitmap_positive_bits e)"
  by (force simp: bits_of_def ebitmap_positive_bits_def)

lemma bits_of_set: "ebitmap_wf e \<Longrightarrow> unat ` bits_of (ebitmap_for_each_bit e) = ebitmap_set e"
  using ebitmap_positive_bits_correct [of e] finite_ebitmap_set [of e]
  by (metis bits_of_each list.set_map set_sorted_list_of_set)

definition level_ok :: "policydb \<Rightarrow> mls_level \<Rightarrow> bool" where
  "level_ok p l \<longleftrightarrow> level_wf l \<and> gaps_ok (ebitmap_for_each_bit (cat l)) \<and>
     (\<forall>b \<in> set (ebitmap_positive_bits (cat l)). cat_ok p b) \<and>
     plain (name_at (p_sens_val_to_name p) (sens l - 1)) \<and>
     (\<exists>d. hashtab_search (table (p_levels p)) (name_at (p_sens_val_to_name p) (sens l - 1)) = Some d \<and>
       sens (level_of d) = sens l)"

text \<open>The separator before the first category is the only difference that \<open>wrote\<close> makes.\<close>

lemma cats_text_first:
  "cats_text names bs i 0 False = (case cats_text names bs i 0 True of [] \<Rightarrow> [] | _ # t \<Rightarrow> CHR '':'' # t)"
  by (induction bs arbitrary: i) (auto simp: run_end_def)

lemma cats_text_comma: "cats_text names bs i 0 True = c # t \<Longrightarrow> c = CHR '',''"
  using cats_text_delim [of "[]" names bs i]
proof (induction bs arbitrary: i)
  case (Cons x bs)
  then show ?case by (cases x) (auto simp: at_delim_def run_end_def split: if_splits)
qed (simp add: run_end_def)

definition level_parsed :: "string \<Rightarrow> mls_level \<Rightarrow> char \<times> string \<times> mls_level \<Rightarrow> bool" where
  "level_parsed tail l r \<longleftrightarrow> (case r of (d, p, l') \<Rightarrow>
     d = (case tail of [] \<Rightarrow> CHR 0x00 | c # _ \<Rightarrow> c) \<and> p = tl tail \<and> level_wf l' \<and> level_abs l' = level_abs l)"

lemma parse_level_text:
  assumes ok: "level_ok p l" and tail: "tail = [] \<or> hd tail = CHR ''-'' \<and> CHR ''-'' \<in> set stops"
    and stops: "set stops \<subseteq> {CHR '':'', CHR ''-''}" "CHR '':'' \<in> set stops"
    and e0: "ebitmap_wf e0" "ebitmap_set e0 = {}"
  shows "outcome h (case cut stops (level_text p l @ tail) of (s, d, q) \<Rightarrow> parse_level p s d q e0 h)
    no_err (level_parsed tail l)"
proof -
  let ?s = "name_at (p_sens_val_to_name p) (sens l - 1)"
  let ?bs = "ebitmap_for_each_bit (cat l)" and ?i = "ebitmap_startbit (cat l)"
  let ?names = "p_cat_val_to_name p"
  let ?T = "cats_text ?names ?bs ?i 0 True" and ?F = "cats_text ?names ?bs ?i 0 False"
  have s: "plain ?s" and bits: "\<forall>b \<in> bits_of ?bs. cat_ok p b" and gaps: "gaps_ok ?bs"
    and wf: "ebitmap_wf (cat l)"
    using ok by (simp_all add: level_ok_def bits_of_each level_wf_def)
  obtain dat where dat: "hashtab_search (table (p_levels p)) ?s = Some dat" "sens (level_of dat) = sens l"
    using ok by (auto simp: level_ok_def)
  have t: "tail = [] \<or> hd tail = CHR ''-''" using tail by blast
  have F: "?F = (case ?T of [] \<Rightarrow> [] | _ # t \<Rightarrow> CHR '':'' # t)" by (rule cats_text_first)
  have set0: "ebitmap_set e0 \<union> unat ` bits_of ?bs = ebitmap_set (cat l)"
    using e0(2) bits_of_set [OF wf] by simp
  have on: "outcome h (parse_on p (?T @ tail) e0 h) no_err (parsed tail (ebitmap_set (cat l)))"
    using parse_bits(2) [OF bits gaps t e0(1), of h ?i] unfolding set0 .
  have stop: "?F @ tail = [] \<or> hd (?F @ tail) \<in> set stops"
    using F tail stops(2) by (cases ?T) auto
  have disj: "set ?s \<inter> set stops = {}" using s stops(1) by (auto simp: plain_def)
  have cut: "cut stops (level_text p l @ tail) =
      (?s, (case ?F @ tail of [] \<Rightarrow> CHR 0x00 | d # _ \<Rightarrow> d), tl (?F @ tail))"
    using cut_token [OF disj stop] by (simp add: level_text_def)
  show ?thesis
  proof (cases ?T)
    case Nil
    then have "?F = []" by (simp add: F)
    moreover have "ebitmap_set (cat l) = {}"
      using on Nil e0 t by (cases tail) (auto simp: parse_on_def parsed_def)
    ultimately show ?thesis
      using cut dat e0 t by (cases tail)
        (auto simp: parse_level_def level_parsed_def level_wf_def level_abs_def)
  next
    case (Cons c r)
    then have c: "c = CHR '',''" by (rule cats_text_comma)
    have eq: "(case cut stops (level_text p l @ tail) of (s, d, q) \<Rightarrow> parse_level p s d q e0 h) =
        bind_res (parse_cats p (r @ tail) e0 h) (\<lambda>((d, q, e), h).
          Inr ((d, q, \<lparr>sens = sens (level_of dat), cat = e\<rparr>), h))"
      using cut dat Cons F by (simp add: parse_level_def)
    have "outcome h (parse_cats p (r @ tail) e0 h) no_err (parsed tail (ebitmap_set (cat l)))"
      using on Cons c by (simp add: parse_on_def)
    then show ?thesis
      unfolding eq
      by (rule outcome_step)
        (use dat(2) in \<open>auto simp: parsed_def level_parsed_def level_wf_def level_abs_def\<close>)
  qed
qed

lemma level_text_nonempty: "mls p \<Longrightarrow> tl (mls_sid_to_context p c) = level_text p (low (crange c)) @
    (if mls_level_eq (low (crange c)) (high (crange c)) then []
     else CHR ''-'' # level_text p (high (crange c)))"
  by (simp add: mls_sid_to_context_def)

lemma mls_parse_printed:
  assumes "mls p" "level_ok p (low (crange c))" "level_ok p (high (crange c))"
    and "crange c0 = mls_range_init"
  shows "outcome h (mls_context_to_sid p CHR ''$'' (tl (mls_sid_to_context p c)) c0 h) (\<lambda>e. e = FAIL \<and> \<not> mem_ok h)
    (\<lambda>c'. c' = c0\<lparr>crange := crange c'\<rparr> \<and> range_wf (crange c') \<and>
      level_abs (low (crange c')) = level_abs (low (crange c)) \<and>
      level_abs (high (crange c')) = level_abs (high (crange c)))"
    (is "outcome h _ ?E ?P")
proof -
  let ?l = "low (crange c)" and ?u = "high (crange c)"
  let ?tail = "if mls_level_eq ?l ?u then [] else CHR ''-'' # level_text p ?u"
  have init: "ebitmap_wf (cat (low (crange c0)))" "ebitmap_set (cat (low (crange c0))) = {}"
    "ebitmap_wf (cat (high (crange c0)))" "ebitmap_set (cat (high (crange c0))) = {}"
    using assms(4) sample_wf(1) by (simp_all add: mls_range_init_def mls_level_init_def
        ebitmap_set_def ebitmap_init_def)
  have low: "outcome h (case cut '':-'' (level_text p ?l @ ?tail) of (s, d, q) \<Rightarrow>
      parse_level p s d q (cat (low (crange c0))) h) no_err (level_parsed ?tail ?l)"
    by (rule parse_level_text [OF assms(2) _ _ _ init(1,2)]) auto
  obtain s d q where cut: "cut '':-'' (level_text p ?l @ ?tail) = (s, d, q)"
    by (cases "cut '':-'' (level_text p ?l @ ?tail)")
  have eq: "mls_context_to_sid p CHR ''$'' (tl (mls_sid_to_context p c)) c0 h = catch_res FAIL (
      bind_res (parse_level p s d q (cat (low (crange c0))) h) (\<lambda>((delim, p', l0), h).
        if delim = CHR ''-''
        then case cut '':'' p' of (sname, delim, p') \<Rightarrow>
          bind_res (parse_level p sname delim p' (cat (high (crange c0))) h) (\<lambda>((delim, p', l1), h).
            Inr (c0\<lparr>crange := \<lparr>low = l0, high = l1\<rparr>\<rparr>, h))
        else bind_res (mls_level_cpy l0 h) (\<lambda>(l1, h). Inr (c0\<lparr>crange := \<lparr>low = l0, high = l1\<rparr>\<rparr>, h))))"
    using assms(1) cut by (simp add: mls_context_to_sid_def level_text_nonempty del: if_not_P)
  have lvl: "level_wf ?l" "level_wf ?u" using assms(2,3) by (simp_all add: level_ok_def)
  show ?thesis
    unfolding eq
  proof (rule outcome_catch [where E = "\<lambda>_. \<not> mem_ok h"], rule outcome_step [OF low [unfolded cut prod.case]], goal_cases)
    case (2 x h')
    then have x: "level_parsed ?tail ?l x" and m: "mem_ok h \<longrightarrow> mem_ok h'" by simp_all
    obtain d1 q1 l0 where xe: "x = (d1, q1, l0)" by (cases x)
    show ?case
    proof (cases "mls_level_eq ?l ?u")
      case True
      then have l0: "d1 \<noteq> CHR ''-''" "level_wf l0" "level_abs l0 = level_abs ?l"
        using x xe by (auto simp: level_parsed_def)
      have "level_abs ?l = level_abs ?u" using True lvl by (simp add: mls_level_eq_abs)
      then show ?thesis
        unfolding xe prod.case if_not_P [OF l0(1)]
        by (intro outcome_step [OF mls_level_cpy_correct]) (use l0 m in \<open>auto simp: range_wf_def\<close>)
    next
      case False
      then have l0: "d1 = CHR ''-''" "q1 = level_text p ?u" "level_wf l0" "level_abs l0 = level_abs ?l"
        using x xe by (auto simp: level_parsed_def)
      obtain s2 d2 q2 where cut2: "cut '':'' (level_text p ?u) = (s2, d2, q2)"
        by (cases "cut '':'' (level_text p ?u)")
      have up: "outcome h' (parse_level p s2 d2 q2 (cat (high (crange c0))) h') no_err (level_parsed [] ?u)"
        using parse_level_text [OF assms(3) _ _ _ init(3,4), of "[]" "'':''" h'] cut2 by simp
      show ?thesis
        unfolding xe prod.case if_P [OF l0(1)] l0(2) cut2
        by (rule outcome_step [OF up]) (use l0 in \<open>auto simp: range_wf_def level_parsed_def\<close>)
    qed
  qed simp_all
qed

lemma mls_from_parsed:
  assumes "\<And>h. outcome h (mls_context_to_sid p CHR ''$'' s c0 h) (\<lambda>e. e = FAIL \<and> \<not> mem_ok h) Q"
  shows "outcome h (mls_from_string p s c0 h) (\<lambda>e. e = FAIL \<and> \<not> mem_ok h) Q"
proof (cases "malloc h")
  case (Pair ok h2)
  show ?thesis
  proof (cases ok)
    case False
    then show ?thesis using Pair by (auto simp: mls_from_string_def dest: malloc_okD)
  next
    case True
    have "outcome h2 (mls_from_string p s c0 h) (\<lambda>e. e = FAIL \<and> \<not> mem_ok h2) Q"
      unfolding mls_from_string_def Pair prod.case using True
      by (simp, intro outcome_catch [OF assms]) auto
    then show ?thesis using Pair True
      by (cases "mls_from_string p s c0 h") (auto dest: malloc_okD)
  qed
qed

lemma mls_from_printed:
  assumes "mls p" "level_ok p (low (crange c))" "level_ok p (high (crange c))"
    and "crange c0 = mls_range_init"
  shows "outcome h (mls_from_string p (tl (mls_sid_to_context p c)) c0 h) (\<lambda>e. e = FAIL \<and> \<not> mem_ok h)
    (\<lambda>c'. c' = c0\<lparr>crange := crange c'\<rparr> \<and> range_wf (crange c') \<and>
      level_abs (low (crange c')) = level_abs (low (crange c)) \<and>
      level_abs (high (crange c')) = level_abs (high (crange c)))"
  by (rule mls_from_parsed) (rule mls_parse_printed [OF assms])

section \<open>Properties\<close>

text \<open>
  C37: Round trip of MLS text. Let the levels of a context be printable: the names that the
  policy gives to their sensitivity and categories contain none of the separators and are found
  again under the same values, and no run of categories ends at a gap of the bitmap. Then
  \<open>mls_from_string\<close> applied to the printed range succeeds, memory permitting, and gives the same
  levels.
\<close>

theorem mls_text_roundtrip:
  assumes "mls p" "level_ok p (low (crange c))" "level_ok p (high (crange c))"
    and "mls_to_string p c h = Inr (s, h')"
  shows "outcome h' (mls_from_string p s context_init h') (\<lambda>e. e = FAIL \<and> \<not> mem_ok h')
    (\<lambda>c'. c' = context_init\<lparr>crange := crange c'\<rparr> \<and> range_wf (crange c') \<and>
      level_abs (low (crange c')) = level_abs (low (crange c)) \<and>
      level_abs (high (crange c')) = level_abs (high (crange c)))"
proof -
  have s: "s = tl (mls_sid_to_context p c)"
    using assms(4) by (auto simp: mls_to_string_def split: prod.splits if_splits)
  show ?thesis
    unfolding s by (rule mls_from_printed [OF assms(1-3)]) (simp add: context_init_def)
qed

section \<open>Bitmaps of one node, and a gap\<close>

lemma gaps_ok_upt: "gaps_ok (map (\<lambda>k. (n, s + of_nat k)) [j..<m])"
proof (induction "m - j" arbitrary: j)
  case (Suc d)
  then have j: "[j..<m] = j # [Suc j..<m]" by (simp add: upt_conv_Cons)
  show ?case
  proof (cases "Suc j < m")
    case True
    then have "[Suc j..<m] = Suc j # [Suc (Suc j)..<m]" by (simp add: upt_conv_Cons)
    then show ?thesis using Suc.hyps(1) [of "Suc j"] Suc.hyps(2) j by (simp add: ac_simps)
  qed (simp add: j)
qed simp

lemma each_bit_nodes:
  "ebitmap_wf e \<Longrightarrow> node e \<noteq> [] \<Longrightarrow> ebitmap_for_each_bit e = concat (map (\<lambda>n. node_bits n 0) (node e))"
  using walk_nodes [of "node e" "highbit e"]
  by (cases "node e") (simp_all add: ebitmap_for_each_bit_def ebitmap_startbit_def ebitmap_length_def ebitmap_wf_def)

lemma gaps_ok_bitmap_of:
  assumes "m \<noteq> 0"
  shows "gaps_ok (ebitmap_for_each_bit (bitmap_of m))"
proof -
  have "ebitmap_for_each_bit (bitmap_of m) = concat (map (\<lambda>n. node_bits n 0) (node (bitmap_of m)))"
    by (rule each_bit_nodes [OF bitmap_of_wf [OF assms]]) (simp add: bitmap_of_def)
  also have "\<dots> = node_bits \<lparr>startbit = 0, node_map = m\<rparr> 0" by (simp add: bitmap_of_def)
  finally show ?thesis using gaps_ok_upt by (simp only:)
qed

lemma cats_text_unset:
  assumes "xs \<noteq> []" "\<forall>(n, b) \<in> set xs. \<not> ebitmap_node_get_bit n b"
  shows "cats_text names (xs @ ys) i run w =
    run_end names (snd (hd xs)) run @ cats_text names ys (snd (last xs) + 1) 0 w"
  using assms
proof (induction xs arbitrary: i run)
  case (Cons x xs)
  obtain n b where x: "x = (n, b)" by (cases x)
  show ?case
  proof (cases "xs = []")
    case False
    then show ?thesis using Cons.IH [OF False] Cons.prems x by (simp add: run_end_def)
  qed (use Cons.prems x in simp)
qed simp

text \<open>
  A bitmap of two nodes with a gap between them, whose bits are one run up to the end of the first
  node, \<open>lo\<close> its first bit, and one run from the start of the second, \<open>hi\<close> its last bit; three bits or more.
\<close>

definition split_run :: "ebitmap \<Rightarrow> u32 \<Rightarrow> u32 \<Rightarrow> bool" where
  "split_run e lo hi \<longleftrightarrow> ebitmap_wf e \<and> (\<exists>m n k j. node e = [m, n] \<and>
     unat (startbit m) + MAPSIZE < unat (startbit n) \<and> k < MAPSIZE \<and> j < MAPSIZE \<and> k < MAPSIZE - 1 + j \<and>
     (\<forall>i < MAPSIZE. bit (node_map m) i \<longleftrightarrow> k \<le> i) \<and> (\<forall>i < MAPSIZE. bit (node_map n) i \<longleftrightarrow> i \<le> j) \<and>
     lo = startbit m + of_nat k \<and> hi = startbit n + of_nat j)"

lemma cats_text_start: "xs \<noteq> [] \<Longrightarrow> cats_text names (xs @ ys) i run w = cats_text names (xs @ ys) (snd (hd xs)) run w"
  by (cases xs) auto

lemma cats_text_set_run:
  assumes "\<forall>(n, b) \<in> set xs. ebitmap_node_get_bit n b" "run \<noteq> 0" "xs \<noteq> []"
  shows "cats_text names (xs @ ys) i run w = cats_text names ys (snd (last xs) + 1) (run + length xs) w"
  using assms
proof (induction xs arbitrary: i run)
  case (Cons x xs)
  obtain n b where x: "x = (n, b)" by (cases x)
  show ?case
  proof (cases "xs = []")
    case False
    then show ?thesis using Cons.IH [of "run + 1" "b + 1"] Cons.prems x by simp
  qed (use Cons.prems x in simp)
qed simp

lemma cats_text_unset_end:
  assumes "\<forall>(n, b) \<in> set xs. \<not> ebitmap_node_get_bit n b" "xs = [] \<or> snd (hd xs) = i"
  shows "cats_text names xs i run w = run_end names i run"
  using cats_text_unset [of xs names "[]" i run w] assms by (cases "xs = []") (auto simp: run_end_def)

lemma split_run_walk:
  assumes "split_run e lo hi"
  obtains U A B V where "ebitmap_for_each_bit e = U @ A @ B @ V"
    "\<forall>(n, b) \<in> set (U @ V). \<not> ebitmap_node_get_bit n b" "\<forall>(n, b) \<in> set (A @ B). ebitmap_node_get_bit n b"
    "A \<noteq> []" "B \<noteq> []" "snd (hd A) = lo" "snd (last B) = hi" "V = [] \<or> snd (hd V) = hi + 1"
    "length A + length B > 2"
proof -
  obtain m n k j where e: "ebitmap_wf e" "node e = [m, n]"
    and k: "k < 64" "j < 64" "k < 63 + j" and lo: "lo = startbit m + of_nat k" and hi: "hi = startbit n + of_nat j"
    and bits: "\<forall>i < 64. bit (node_map m) i \<longleftrightarrow> k \<le> i" "\<forall>i < 64. bit (node_map n) i \<longleftrightarrow> i \<le> j"
    using assms unfolding split_run_def by auto
  have ok: "node_ok m" "node_ok n" using e by (auto simp: ebitmap_wf_def nodes_wf_def)
  let ?f = "\<lambda>i. (m, startbit m + of_nat i)" and ?g = "\<lambda>i. (n, startbit n + of_nat i)"
  have f: "ebitmap_node_get_bit m (startbit m + of_nat i) \<longleftrightarrow> k \<le> i" if "i < 64" for i
    using node_get_bit_iff [OF ok(1) that] bits(1) that by simp
  have g: "ebitmap_node_get_bit n (startbit n + of_nat i) \<longleftrightarrow> i \<le> j" if "i < 64" for i
    using node_get_bit_iff [OF ok(2) that] bits(2) that by simp
  have u: "map h [0..<64] = map h [0..<i] @ map h [i..<64]" if "i \<le> 64" for i and h :: "nat \<Rightarrow> ebitmap_node \<times> u32"
    using upt_add_eq_append [of 0 i "64 - i"] that by (simp flip: map_append)
  have kj: "k \<le> 64" "Suc j \<le> 64" using k by simp_all
  have "ebitmap_for_each_bit e = map ?f [0..<64] @ map ?g [0..<64]"
    using each_bit_nodes [OF e(1)] e(2) by simp
  also have "\<dots> = map ?f [0..<k] @ map ?f [k..<64] @ map ?g [0..<Suc j] @ map ?g [Suc j..<64]"
    unfolding u [OF kj(1), of ?f] u [OF kj(2), of ?g] append_assoc by (rule refl)
  finally have walk: "ebitmap_for_each_bit e =
    map ?f [0..<k] @ map ?f [k..<64] @ map ?g [0..<Suc j] @ map ?g [Suc j..<64]" .
  show thesis
  proof (rule that [OF walk])
    show "snd (hd (map ?f [k..<64])) = lo" using k lo by (simp add: hd_map)
    show "snd (last (map ?g [0..<Suc j])) = hi" using hi by simp
    show "map ?g [Suc j..<64] = [] \<or> snd (hd (map ?g [Suc j..<64])) = hi + 1" using hi by (cases "Suc j < 64") (simp_all add: hd_map)
  qed (use f g k in auto)
qed

lemma split_run_text:
  assumes "split_run e lo hi"
  shows "cats_text names (ebitmap_for_each_bit e) i 0 False = CHR '':'' # name_at names lo @ CHR ''.'' # name_at names hi"
proof -
  obtain U A B V where walk: "ebitmap_for_each_bit e = U @ A @ B @ V"
    and unset: "\<forall>(n, b) \<in> set (U @ V). \<not> ebitmap_node_get_bit n b"
    and set: "\<forall>(n, b) \<in> set (A @ B). ebitmap_node_get_bit n b"
    and ends: "A \<noteq> []" "B \<noteq> []" "snd (hd A) = lo" "snd (last B) = hi" "V = [] \<or> snd (hd V) = hi + 1"
    and len: "length A + length B > 2"
    using split_run_walk [OF assms] .
  obtain n A' where A: "A = (n, lo) # A'" using ends(1,3) by (cases A) auto
  have "cats_text names (U @ A @ B @ V) i 0 False = cats_text names (A @ B @ V) lo 0 False"
  proof (cases "U = []")
    case False
    have "cats_text names (U @ A @ B @ V) i 0 False =
        run_end names (snd (hd U)) 0 @ cats_text names (A @ B @ V) (snd (last U) + 1) 0 False"
      by (rule cats_text_unset [OF False]) (use unset in auto)
    then show ?thesis using cats_text_start [OF ends(1)] ends(3) by (simp add: run_end_def)
  qed (use cats_text_start [OF ends(1)] ends(3) in simp)
  also have "\<dots> = CHR '':'' # name_at names lo @ cats_text names ((A' @ B) @ V) (lo + 1) 1 True"
    using set by (simp add: A)
  also have "cats_text names ((A' @ B) @ V) (lo + 1) 1 True = cats_text names V (hi + 1) (1 + length (A' @ B)) True"
    using cats_text_set_run [of "A' @ B" 1 names V "lo + 1" True] set ends(2,4) by (auto simp: A)
  also have "\<dots> = run_end names (hi + 1) (1 + length (A' @ B))"
    by (rule cats_text_unset_end) (use unset ends(5) in auto)
  also have "\<dots> = CHR ''.'' # name_at names hi" using len ends(2) by (simp add: run_end_def A)
  finally show ?thesis unfolding walk .
qed

lemma split_run_set:
  assumes "split_run e lo hi"
  shows "lo < hi" "ebitmap_set e \<subset> {unat lo..<unat hi + 1}"
proof -
  obtain m n k j where e: "ebitmap_wf e" "node e = [m, n]"
    and gap: "unat (startbit m) + 64 < unat (startbit n)" and k: "k < 64" "j < 64"
    and bits: "\<forall>i < 64. bit (node_map m) i \<longleftrightarrow> k \<le> i" "\<forall>i < 64. bit (node_map n) i \<longleftrightarrow> i \<le> j"
    and lo: "lo = startbit m + of_nat k" and hi: "hi = startbit n + of_nat j"
    using assms unfolding split_run_def by auto
  have ok: "node_ok m" "node_ok n" using e by (auto simp: ebitmap_wf_def nodes_wf_def)
  have u: "unat lo = unat (startbit m) + k" "unat hi = unat (startbit n) + j"
    using unat_start_plus [OF ok(1), of k] unat_start_plus [OF ok(2), of j] k lo hi by simp_all
  show "lo < hi" using u gap k by (simp add: word_less_nat_alt)
  have el: "x \<in> ebitmap_set e \<longleftrightarrow>
      (unat (startbit m) \<le> x \<and> x < unat (startbit m) + 64 \<and> k \<le> x - unat (startbit m)) \<or>
      (unat (startbit n) \<le> x \<and> x < unat (startbit n) + 64 \<and> x - unat (startbit n) \<le> j)" for x
  proof -
    have "unat (startbit m) \<le> x \<and> x < unat (startbit m) + 64 \<and> bit (node_map m) (x - unat (startbit m)) \<longleftrightarrow>
        unat (startbit m) \<le> x \<and> x < unat (startbit m) + 64 \<and> k \<le> x - unat (startbit m)"
      using bits(1) [rule_format, of "x - unat (startbit m)"] by linarith
    moreover have "unat (startbit n) \<le> x \<and> x < unat (startbit n) + 64 \<and> bit (node_map n) (x - unat (startbit n)) \<longleftrightarrow>
        unat (startbit n) \<le> x \<and> x < unat (startbit n) + 64 \<and> x - unat (startbit n) \<le> j"
      using bits(2) [rule_format, of "x - unat (startbit n)"] by linarith
    ultimately show ?thesis unfolding ebitmap_set_def mem_Collect_eq e(2) by simp
  qed
  have "ebitmap_set e \<subseteq> {unat lo..<unat hi + 1}"
    unfolding subset_iff atLeastLessThan_iff el u using gap k by (intro allI impI) linarith
  moreover have "unat (startbit m) + 64 \<in> {unat lo..<unat hi + 1}" "unat (startbit m) + 64 \<notin> ebitmap_set e"
    unfolding atLeastLessThan_iff el u using gap k by linarith+
  ultimately show "ebitmap_set e \<subset> {unat lo..<unat hi + 1}" by blast
qed

lemma parse_split_run:
  assumes "cat_ok p lo" "cat_ok p hi" "lo < hi" "plain t" "hashtab_search (table (p_levels p)) t = Some d"
    and e0: "ebitmap_wf e0" "ebitmap_set e0 = {}"
  shows "outcome h (case cut '':-'' (t @ CHR '':'' # cname p lo @ CHR ''.'' # cname p hi) of (s, d, q) \<Rightarrow> parse_level p s d q e0 h)
    no_err (\<lambda>(d', q, l). d' = CHR 0x00 \<and> level_wf l \<and> level_abs l = (unat (sens (level_of d)), {unat lo..<unat hi + 1}))"
proof -
  let ?tok = "cname p lo @ CHR ''.'' # cname p hi"
  have "set t \<inter> set '':-'' = {}" using assms(4) by (auto simp: plain_def)
  then have cut: "cut '':-'' (t @ CHR '':'' # ?tok) = (t, CHR '':'', ?tok)"
    by (subst cut_token) simp_all
  have pl: "plain (cname p lo)" "plain (cname p hi)" using assms(1,2) by (simp_all add: cat_ok_def)
  have "parse_cats p ?tok e0 h = bind_res (parse_cat p ?tok e0 h) (\<lambda>(e, h). parse_on p [] e h)"
    using parse_token [OF plain_tokens(2) [OF pl], of "[]"] by (simp add: at_delim_def)
  then have eq: "(case cut '':-'' (t @ CHR '':'' # ?tok) of (s, d, q) \<Rightarrow> parse_level p s d q e0 h) =
      bind_res (bind_res (parse_cat p ?tok e0 h) (\<lambda>(e, h). parse_on p [] e h)) (\<lambda>((delim, q, e), h).
        Inr ((delim, q, \<lparr>sens = sens (level_of d), cat = e\<rparr>), h))"
    by (simp add: cut parse_level_def assms(5))
  have on: "outcome h (bind_res (parse_cat p ?tok e0 h) (\<lambda>(e, h). parse_on p [] e h)) no_err
      (parsed [] {unat lo..<unat hi + 1})"
    by (rule outcome_step [OF parse_cat_range [OF assms(1-3) e0(1)]]) (auto simp: parse_on_def parsed_def e0(2))
  show ?thesis
    unfolding eq by (rule outcome_step [OF on]) (auto simp: parsed_def level_wf_def level_abs_def)
qed

text \<open>
  C38: Where a run of categories goes on after a gap of the bitmap, the printed text is wrong. If the
  categories of both levels of a range are a run up to the end of one node of the bitmap and
  a run from the start of a later one, the text names the first and the last with a dot between them. Read
  back, it gives both levels all the categories in between, more than the level has.
\<close>

theorem mls_text_gap:
  assumes "mls p" and run: "split_run (cat l) lo hi" and names: "cat_ok p lo" "cat_ok p hi"
    and sname: "plain (name_at (p_sens_val_to_name p) (sens l - 1))"
      "hashtab_search (table (p_levels p)) (name_at (p_sens_val_to_name p) (sens l - 1)) = Some d"
      "sens (level_of d) = sens l"
    and printed: "crange c = \<lparr>low = l, high = l\<rparr>" "mls_to_string p c h = Inr (s, h')"
  shows "s = name_at (p_sens_val_to_name p) (sens l - 1) @ CHR '':'' # cname p lo @ CHR ''.'' # cname p hi \<and>
    outcome h' (mls_from_string p s context_init h') (\<lambda>e. e = FAIL \<and> \<not> mem_ok h')
      (\<lambda>c'. level_abs (low (crange c')) = (unat (sens l), {unat lo..unat hi}) \<and>
        level_abs (high (crange c')) = (unat (sens l), {unat lo..unat hi})) \<and>
    ebitmap_set (cat l) \<subset> {unat lo..unat hi}"
proof -
  let ?t = "name_at (p_sens_val_to_name p) (sens l - 1)"
  let ?tok = "CHR '':'' # cname p lo @ CHR ''.'' # cname p hi"
  have "level_wf l" using run by (auto simp: split_run_def level_wf_def)
  then have "mls_level_eq l l" by (simp add: mls_level_eq_abs)
  then have s: "s = ?t @ ?tok"
    using printed assms(1) split_run_text [OF run]
    by (auto simp: mls_to_string_def mls_sid_to_context_def level_text_def split: prod.splits if_splits)
  have init: "ebitmap_wf (cat (low (crange context_init)))" "ebitmap_set (cat (low (crange context_init))) = {}"
    using sample_wf(1) by (simp_all add: context_init_def mls_range_init_def mls_level_init_def ebitmap_set_def ebitmap_init_def)
  note low = parse_split_run [OF names split_run_set(1) [OF run] sname(1,2) init]
  obtain s1 d1 q1 where cut: "cut '':-'' (?t @ ?tok) = (s1, d1, q1)" by (cases "cut '':-'' (?t @ ?tok)")
  have iv: "{unat lo..<unat hi + 1} = {unat lo..unat hi}" by auto
  have "outcome h1 (mls_context_to_sid p CHR ''$'' (?t @ ?tok) context_init h1) (\<lambda>e. e = FAIL \<and> \<not> mem_ok h1)
      (\<lambda>c'. level_abs (low (crange c')) = (unat (sens l), {unat lo..unat hi}) \<and>
        level_abs (high (crange c')) = (unat (sens l), {unat lo..unat hi}))" for h1
  proof -
    have eq: "mls_context_to_sid p CHR ''$'' (?t @ ?tok) context_init h1 = catch_res FAIL (
      bind_res (parse_level p s1 d1 q1 (cat (low (crange context_init))) h1) (\<lambda>((delim, p', l0), h).
        if delim = CHR ''-''
        then case cut '':'' p' of (sname, delim, p') \<Rightarrow>
          bind_res (parse_level p sname delim p' (cat (high (crange context_init))) h) (\<lambda>((delim, p', l1), h).
            Inr (context_init\<lparr>crange := \<lparr>low = l0, high = l1\<rparr>\<rparr>, h))
        else bind_res (mls_level_cpy l0 h) (\<lambda>(l1, h). Inr (context_init\<lparr>crange := \<lparr>low = l0, high = l1\<rparr>\<rparr>, h))))"
      using assms(1) cut by (simp add: mls_context_to_sid_def del: if_not_P)
    show ?thesis
      unfolding eq
    proof (rule outcome_catch [where E = "\<lambda>_. \<not> mem_ok h1"], rule outcome_step [OF low [unfolded cut prod.case]], goal_cases)
      case (2 x h2)
      obtain d2 q2 l0 where x: "x = (d2, q2, l0)" by (cases x)
      then have l0: "d2 \<noteq> CHR ''-''" "level_wf l0" "level_abs l0 = (unat (sens l), {unat lo..unat hi})"
        using 2(1) sname(3) iv by auto
      show ?case
        unfolding x prod.case if_not_P [OF l0(1)]
        by (intro outcome_step [OF mls_level_cpy_correct]) (use l0 2(2) in auto)
    qed simp_all
  qed
  then have "outcome h' (mls_from_string p s context_init h') (\<lambda>e. e = FAIL \<and> \<not> mem_ok h')
      (\<lambda>c'. level_abs (low (crange c')) = (unat (sens l), {unat lo..unat hi}) \<and>
        level_abs (high (crange c')) = (unat (sens l), {unat lo..unat hi}))"
    unfolding s by (rule mls_from_parsed)
  then show ?thesis using s split_run_set(2) [OF run] iv by simp
qed

definition sample_clearance :: context_struct where
  "sample_clearance = \<lparr>cuser = 1, crole = 1, ctype = 1,
     crange = \<lparr>low = sample_level, high = \<lparr>sens = 1, cat = bitmap_of 3\<rparr>\<rparr>\<rparr>"

lemma ebitmap_set_bitmap_of: "ebitmap_set (bitmap_of m) = {b. bit m b}"
  using bit_imp_le_length [of m] by (auto simp: ebitmap_set_def bitmap_of_def)

lemma bit_three: "bit (3 :: u64) n \<longleftrightarrow> n = 0 \<or> n = 1"
  by (cases n; cases "n - 1") (auto simp: bit_numeral_rec bit_1_iff)

lemma sample_cat_ok: "bit (3 :: u64) (unat b) \<Longrightarrow> cat_ok sample_policy b"
proof -
  assume "bit (3 :: u64) (unat b)"
  then have "unat b = 0 \<or> unat b = 1" unfolding bit_three .
  then have "b = 0 \<or> b = 1" by (auto simp: word_unat_eq_iff)
  then show "cat_ok sample_policy b"
    by (auto simp: cat_ok_def plain_def name_at_def sample_policy_def one_chain_def hashtab_search_def
        symcmp_def)
qed

lemma sample_level_walk: "ebitmap_for_each_bit ebitmap_init = []"
  by (simp add: ebitmap_for_each_bit_def ebitmap_init_def ebitmap_startbit_def ebitmap_length_def
      ebitmap_walk.simps [of "[]"])

lemma sample_level_ok: "level_ok sample_policy \<lparr>sens = 1, cat = bitmap_of 3\<rparr>" "level_ok sample_policy sample_level"
proof -
  have s: "plain (name_at (p_sens_val_to_name sample_policy) 0)"
    "hashtab_search (table (p_levels sample_policy)) (name_at (p_sens_val_to_name sample_policy) 0) =
      Some \<lparr>level_of = \<lparr>sens = 1, cat = bitmap_of 3\<rparr>, level_isalias = False, notdefined = 0\<rparr>"
    by (simp_all add: plain_def name_at_def sample_policy_def one_chain_def hashtab_search_def symcmp_def)
  show "level_ok sample_policy \<lparr>sens = 1, cat = bitmap_of 3\<rparr>"
    using s gaps_ok_bitmap_of [of 3] sample_cat_ok
    by (auto simp: level_ok_def level_wf_def positive_bits_iff)
  show "level_ok sample_policy sample_level"
    using s by (auto simp: level_ok_def level_wf_def sample_level_def ebitmap_positive_bits_def
        sample_level_walk sample_wf)
qed

lemma mls_text_roundtrip_witness:
  "\<exists>s h c'. mls_to_string sample_policy sample_clearance [] = Inr (s, h) \<and>
    mls_from_string sample_policy s context_init h = Inr c' \<and>
    level_abs (high (crange (fst c'))) = (1, {0, 1})"
proof -
  have mls: "mls sample_policy" by (simp add: sample_policy_def)
  obtain s where s: "mls_to_string sample_policy sample_clearance [] = Inr (s, [])"
    by (simp add: mls_to_string_def)
  have set: "ebitmap_set (bitmap_of 3) = {0, 1}" unfolding ebitmap_set_bitmap_of bit_three by auto
  have ok: "level_ok sample_policy (low (crange sample_clearance))"
    "level_ok sample_policy (high (crange sample_clearance))"
    using sample_level_ok by (simp_all add: sample_clearance_def)
  have abs: "level_abs (high (crange sample_clearance)) = (1, {0, 1})"
    by (simp add: sample_clearance_def level_abs_def set)
  have "outcome [] (mls_from_string sample_policy s context_init []) (\<lambda>e. e = FAIL \<and> \<not> mem_ok [])
      (\<lambda>c'. level_abs (high (crange c')) = (1, {0, 1}))"
    by (rule outcome_mono [OF mls_text_roundtrip [OF mls ok s]]) (simp_all add: abs mem_ok_def)
  then show ?thesis using s by (cases "mls_from_string sample_policy s context_init []") (auto simp: mem_ok_def)
qed

text \<open>The categories 62, 63 and 128, of which the first and the last are named \<open>a\<close> and \<open>b\<close>.\<close>

definition gap_map :: ebitmap where
  "gap_map = \<lparr>node = [\<lparr>startbit = 0, node_map = push_bit 62 (mask 2)\<rparr>, \<lparr>startbit = 128, node_map = 1\<rparr>], highbit = 192\<rparr>"

definition gap_policy :: policydb where
  "gap_policy = sample_policy\<lparr>
     p_cats := one_chain [(''a'', \<lparr>cat_value = 63, cat_isalias = False\<rparr>), (''b'', \<lparr>cat_value = 129, cat_isalias = False\<rparr>)],
     p_cat_val_to_name := replicate 62 None @ Some ''a'' # replicate 65 None @ [Some ''b'']\<rparr>"

lemma gap_split_run: "split_run gap_map 62 128"
proof -
  let ?w = "push_bit 62 (mask 2) :: u64"
  have w: "bit ?w i \<longleftrightarrow> 62 \<le> i" if "i < 64" for i
    using that unfolding bit_push_bit_iff bit_mask_iff possible_bit_word by auto
  have "?w \<noteq> 0"
  proof
    assume z: "?w = 0"
    have "bit ?w 63" by (subst w) simp_all
    then show False unfolding z by simp
  qed
  then have "ebitmap_wf gap_map"
    by (simp add: gap_map_def ebitmap_wf_def nodes_wf_def nodes_end_def node_ok_def)
  moreover have "\<forall>i < 64. bit (1 :: u64) i \<longleftrightarrow> i \<le> 0" by (simp add: bit_1_iff)
  ultimately show ?thesis
    unfolding split_run_def using w
    by (intro conjI exI [of _ "\<lparr>startbit = 0, node_map = ?w\<rparr>"] exI [of _ "\<lparr>startbit = 128, node_map = 1\<rparr>"]
        exI [of _ 62] exI [of _ 0]) (simp_all add: gap_map_def)
qed

lemma gap_cats: "cat_ok gap_policy 62" "cat_ok gap_policy 128"
  by (simp_all add: cat_ok_def plain_def name_at_def gap_policy_def one_chain_def hashtab_search_def symcmp_def nth_append)

lemma mls_text_gap_witness:
  "\<exists>s h c' h'. mls_to_string gap_policy \<lparr>cuser = 1, crole = 1, ctype = 1,
      crange = \<lparr>low = \<lparr>sens = 1, cat = gap_map\<rparr>, high = \<lparr>sens = 1, cat = gap_map\<rparr>\<rparr>\<rparr> [] = Inr (s, h) \<and>
    s = ''s0:a.b'' \<and> mls_from_string gap_policy s context_init h = Inr (c', h') \<and>
    level_abs (low (crange c')) = (1, {62..128})"
proof -
  let ?l = "\<lparr>sens = 1, cat = gap_map\<rparr>"
  let ?c = "\<lparr>cuser = 1, crole = 1, ctype = 1, crange = \<lparr>low = ?l, high = ?l\<rparr>\<rparr> :: context_struct"
  obtain s where s: "mls_to_string gap_policy ?c [] = Inr (s, [])" by (simp add: mls_to_string_def)
  have p: "mls gap_policy" "p_sens_val_to_name gap_policy = [Some ''s0'']" "p_levels gap_policy = p_levels sample_policy"
    "cname gap_policy 62 = ''a''" "cname gap_policy 128 = ''b''"
    by (simp_all add: gap_policy_def sample_policy_def name_at_def nth_append)
  have t: "name_at (p_sens_val_to_name gap_policy) (sens ?l - 1) = ''s0''" by (simp add: p name_at_def)
  have lv: "hashtab_search (table (p_levels gap_policy)) ''s0'' =
      Some \<lparr>level_of = \<lparr>sens = 1, cat = bitmap_of 3\<rparr>, level_isalias = False, notdefined = 0\<rparr>"
    by (simp add: p sample_policy_def one_chain_def hashtab_search_def symcmp_def)
  have run: "split_run (cat ?l) 62 128" using gap_split_run by simp
  note mls_text_gap [OF p(1) run gap_cats _ _ _ _ s, unfolded t, OF _ lv]
  then have G: "s = ''s0:a.b'' \<and> outcome [] (mls_from_string gap_policy s context_init []) (\<lambda>e. e = FAIL \<and> \<not> mem_ok [])
      (\<lambda>c'. level_abs (low (crange c')) = (unat (sens ?l), {unat (62 :: u32)..unat (128 :: u32)}) \<and>
        level_abs (high (crange c')) = (unat (sens ?l), {unat (62 :: u32)..unat (128 :: u32)}))"
    by (auto simp: p plain_def)
  have "s = ''s0:a.b''" "outcome [] (mls_from_string gap_policy s context_init []) (\<lambda>e. e = FAIL \<and> \<not> mem_ok [])
      (\<lambda>c'. level_abs (low (crange c')) = (unat (sens ?l), {unat (62 :: u32)..unat (128 :: u32)}) \<and>
        level_abs (high (crange c')) = (unat (sens ?l), {unat (62 :: u32)..unat (128 :: u32)}))"
    using G by blast+
  then show ?thesis using s by (cases "mls_from_string gap_policy s context_init []") auto
qed

end
