(* ===== verification/Mls_Range.thy ===== *)
theory Mls_Range
  imports Mls_Text
begin

text \<open>
  The ranges that \<open>mls.c\<close> computes: the range of a user's context, the range of a new object and
  the range of a context that is converted to another policy.
\<close>

section \<open>The range of a user\<close>

context dominance
begin

text \<open>
  The choice of a sensitivity level and of a clearance between the range \<open>(fs, fc)\<close> of the calling
  context and the range \<open>(ul, uc)\<close> with default \<open>d\<close> of a user.
\<close>

lemma user_range:
  assumes ok: "ok fs" "ok fc" "ok ul" "ok uc" "ok d"
    and valid: "dom fc fs" "dom d ul" "dom uc d"
    and sen: "dom d fs \<and> dom fc d \<and> s = d \<or> dom fs d \<and> dom uc fs \<and> s = fs \<or>
      dom fc ul \<and> dom d fc \<and> s = ul"
    and clr: "dom uc fc \<and> c = fc \<or> dom fc uc \<and> c = uc"
  shows "dom c s \<and> dom s ul \<and> dom uc c \<and> dom fc c"
proof -
  have top: "dom uc c" "dom fc c" using clr ok dom_refl by auto
  moreover have "dom s ul" using sen ok valid dom_refl dom_trans [of fs d ul] by auto
  moreover have "dom c s"
    using clr sen ok valid dom_trans [of uc d ul] by auto
  ultimately show ?thesis by simp
qed

end

lemma user_range_facts:
  assumes "mls_setup_user_range fromcon user usercon True = Inr c"
  obtains s u where "c = usercon\<lparr>crange := \<lparr>low = s, high = u\<rparr>\<rparr>"
    and "mls_level_between (exp_dfltlevel user) (low (crange fromcon)) (high (crange fromcon)) \<and>
        s = exp_dfltlevel user \<or>
      mls_level_between (low (crange fromcon)) (exp_dfltlevel user) (high (exp_range user)) \<and>
        s = low (crange fromcon) \<or>
      mls_level_between (high (crange fromcon)) (low (exp_range user)) (exp_dfltlevel user) \<and>
        s = low (exp_range user)"
    and "mls_level_dom (high (exp_range user)) (high (crange fromcon)) \<and> u = high (crange fromcon) \<or>
      mls_level_dom (high (crange fromcon)) (high (exp_range user)) \<and> u = high (exp_range user)"
  using assms by (auto simp: mls_setup_user_range_def Let_def bind_res_def split: if_splits)

section \<open>Conversion\<close>

text \<open>The value that the new policy gives to the category that the old policy numbers \<open>i + 1\<close>.\<close>

definition new_cat :: "policydb \<Rightarrow> policydb \<Rightarrow> u32 \<Rightarrow> u32 option" where
  "new_cat oldp newp i = map_option cat_value
     (hashtab_search (table (p_cats newp)) (name_at (p_cat_val_to_name oldp) i))"

definition new_sens :: "policydb \<Rightarrow> policydb \<Rightarrow> u32 \<Rightarrow> u32 option" where
  "new_sens oldp newp s = map_option (\<lambda>d. sens (level_of d))
     (hashtab_search (table (p_levels newp)) (name_at (p_sens_val_to_name oldp) (s - 1)))"

definition cat_in_range :: "u32 \<Rightarrow> bool" where
  "cat_in_range v \<longleftrightarrow> unat (v - 1) < 2 ^ 32 - 64"

lemma convert_cats_correct:
  "ebitmap_wf e \<Longrightarrow> outcome h (convert_cats oldp newp is e h)
    (\<lambda>err. err = EINVAL \<and> (\<exists>i \<in> set is. \<forall>v. new_cat oldp newp i = Some v \<longrightarrow> \<not> cat_in_range v))
    (\<lambda>e'. ebitmap_wf e' \<and> (\<forall>i \<in> set is. new_cat oldp newp i \<noteq> None) \<and>
      ebitmap_set e' = ebitmap_set e \<union> {unat (v - 1) | v i. i \<in> set is \<and> new_cat oldp newp i = Some v})"
proof (induction "is" arbitrary: e h)
  case Nil
  then show ?case by simp
next
  case (Cons i "is")
  show ?case
  proof (cases "hashtab_search (table (p_cats newp)) (name_at (p_cat_val_to_name oldp) i)")
    case None
    then show ?thesis by (simp add: new_cat_def)
  next
    case (Some d)
    then have v: "new_cat oldp newp i = Some (cat_value d)" by (simp add: new_cat_def)
    have eq: "convert_cats oldp newp (i # is) e h =
      bind_res (ebitmap_set_bit e (cat_value d - 1) True h) (\<lambda>(e, h). convert_cats oldp newp is e h)"
      using Some by simp
    show ?thesis
      unfolding eq
    proof (rule outcome_step [OF ebitmap_set_bit_correct [OF Cons.prems]], goal_cases)
      case (1 err)
      then show ?case using v by (auto simp: cat_in_range_def)
    next
      case (2 e' h')
      then have wf: "ebitmap_wf e'" by simp
      show ?case
        unfolding prod.case
        by (rule outcome_mono [OF Cons.IH [OF wf]]) (use 2(1) v in auto)
    qed
  qed
qed

definition converted :: "policydb \<Rightarrow> policydb \<Rightarrow> mls_level \<Rightarrow> mls_level \<Rightarrow> bool" where
  "converted oldp newp l l' \<longleftrightarrow> level_wf l' \<and> new_sens oldp newp (sens l) = Some (sens l') \<and>
     (\<forall>i. ebitmap_get_bit (cat l) i \<longrightarrow> new_cat oldp newp i \<noteq> None) \<and>
     ebitmap_set (cat l') = {unat (v - 1) | v i. ebitmap_get_bit (cat l) i \<and> new_cat oldp newp i = Some v}"

text \<open>A name of the level is missing in the new policy, or its category value is out of range.\<close>

definition inconvertible :: "policydb \<Rightarrow> policydb \<Rightarrow> mls_level \<Rightarrow> bool" where
  "inconvertible oldp newp l \<longleftrightarrow> new_sens oldp newp (sens l) = None \<or>
     (\<exists>i. ebitmap_get_bit (cat l) i \<and> (\<forall>v. new_cat oldp newp i = Some v \<longrightarrow> \<not> cat_in_range v))"

lemma convert_level_correct:
  assumes "level_wf l"
  shows "outcome h (convert_level oldp newp l h)
    (\<lambda>err. err = EINVAL \<and> inconvertible oldp newp l) (converted oldp newp l)"
proof (cases "hashtab_search (table (p_levels newp)) (name_at (p_sens_val_to_name oldp) (sens l - 1))")
  case None
  then show ?thesis by (simp add: convert_level_def inconvertible_def new_sens_def)
next
  case (Some d)
  have empty: "ebitmap_set ebitmap_init = {}" by (simp add: ebitmap_set_def ebitmap_init_def)
  have bits: "i \<in> set (ebitmap_positive_bits (cat l)) \<longleftrightarrow> ebitmap_get_bit (cat l) i" for i
    using assms by (simp add: positive_bits_iff level_wf_def)
  show ?thesis
    unfolding convert_level_def Some option.case
    by (rule outcome_step [OF convert_cats_correct [OF sample_wf(1)]])
      (use Some in \<open>auto simp: bits inconvertible_def converted_def new_sens_def level_wf_def empty\<close>)
qed

section \<open>New objects\<close>

lemma low_range_valid: "valid_range r \<Longrightarrow> valid_range \<lparr>low = low r, high = low r\<rparr>"
  and high_range_valid: "valid_range r \<Longrightarrow> valid_range \<lparr>low = high r, high = high r\<rparr>"
  by (simp_all add: valid_range_def range_wf_def lvl.dom_refl)

lemma mls_copy_context_correct:
  "outcome h (mls_copy_context dst src h) no_err (\<lambda>c. c = dst\<lparr>crange := crange src\<rparr>)"
  unfolding mls_copy_context_def
  by (rule outcome_bind [OF ebitmap_cpy_correct], simp, rule outcome_bind [OF ebitmap_cpy_correct]) auto

lemma mls_scopy_context_correct:
  "outcome h (mls_scopy_context dst src h) no_err
    (\<lambda>c. c = dst\<lparr>crange := \<lparr>low = low (crange src), high = low (crange src)\<rparr>\<rparr>)"
  unfolding mls_scopy_context_def
  by (rule outcome_bind [OF ebitmap_cpy_correct], simp, rule outcome_bind [OF ebitmap_cpy_correct]) auto

lemma mls_range_set_correct:
  "outcome h (mls_range_set c r h) no_err (\<lambda>c'. c' = c\<lparr>crange := r\<rparr>)"
  unfolding mls_range_set_def
  by (rule outcome_bind [OF ebitmap_cpy_correct], simp, rule outcome_bind [OF ebitmap_cpy_correct]) auto

text \<open>What \<open>mls_compute_sid\<close> promises of the context it returns and of its errors.\<close>

definition ranged :: "context_struct \<Rightarrow> context_struct \<Rightarrow> bool" where
  "ranged newc c \<longleftrightarrow> c = newc\<lparr>crange := crange c\<rparr> \<and> valid_range (crange c)"

definition disjoint_ranges :: "mls_range \<Rightarrow> mls_range \<Rightarrow> bool" where
  "disjoint_ranges r1 r2 \<longleftrightarrow> sens (high r1) < sens (low r2) \<or> sens (high r2) < sens (low r1)"

lemma mls_change_range_correct:
  assumes "valid_range (crange sc)"
  shows "outcome h (mls_change_range p sc tcl newc h) no_err (\<lambda>c. ranged newc c \<and>
    crange c = (if tcl = process_class p then crange sc
      else \<lparr>low = low (crange sc), high = low (crange sc)\<rparr>))"
proof (cases "tcl = process_class p")
  case True
  then show ?thesis
    using assms unfolding mls_change_range_def if_P [OF True]
    by (intro outcome_mono [OF mls_copy_context_correct]) (simp_all add: ranged_def)
next
  case False
  then show ?thesis
    using low_range_valid [OF assms] unfolding mls_change_range_def if_not_P [OF False]
    by (intro outcome_mono [OF mls_scopy_context_correct]) (simp_all add: ranged_def)
qed

lemma mls_context_glblub_ranged:
  assumes "valid_range (crange sc)" "valid_range (crange tc)"
  shows "outcome h (mls_context_glblub newc sc tc h)
    (\<lambda>e. e = EINVAL \<and> disjoint_ranges (crange sc) (crange tc) \<or> e = FAIL \<and> \<not> mem_ok h) (ranged newc)"
  unfolding mls_context_glblub_def
  by (rule outcome_step [OF glblub_valid [OF assms]]) (auto simp: ranged_def disjoint_ranges_def)

lemma default_range_copy_correct:
  assumes "default_range_copy dr newc sc tc h = Some r"
    and valid: "valid_range (crange sc)" "valid_range (crange tc)"
  shows "outcome h r (\<lambda>e. e = EINVAL \<and> disjoint_ranges (crange sc) (crange tc) \<or> e = FAIL \<and> \<not> mem_ok h)
    (ranged newc)"
proof -
  let ?E = "\<lambda>e. e = EINVAL \<and> disjoint_ranges (crange sc) (crange tc) \<or> e = FAIL \<and> \<not> mem_ok h"
  have low: "outcome h (mls_context_cpy_low newc c h) ?E (ranged newc)" if "valid_range (crange c)" for c
    by (rule outcome_mono [OF mls_context_cpy_low_correct]) (use low_range_valid that in \<open>auto simp: ranged_def\<close>)
  have high: "outcome h (mls_context_cpy_high newc c h) ?E (ranged newc)" if "valid_range (crange c)" for c
    by (rule outcome_mono [OF mls_context_cpy_high_correct]) (use high_range_valid that in \<open>auto simp: ranged_def\<close>)
  have both: "outcome h (mls_context_cpy newc c h) ?E (ranged newc)" if "valid_range (crange c)" for c
    by (rule outcome_mono [OF mls_context_cpy_correct]) (use that in \<open>auto simp: ranged_def\<close>)
  show ?thesis
    using assms(1) low high both mls_context_glblub_ranged [OF valid] valid
    by (auto simp: default_range_copy_def split: if_splits)
qed

text \<open>
  The range of a new object. On valid ranges \<open>mls_compute_sid\<close> gives a valid range and changes
  nothing else of the context: the range of a range transition rule if there is one, for a member
  the low level of the source, for a change the range of the source, of which objects that are no processes
  get the low level only. It fails only for an unknown kind of request, for disjoint
  ranges or without memory.
\<close>

lemma mls_compute_sid_range:
  assumes "mls p" "valid_range (crange sc)" "valid_range (crange tc)"
    and "\<And>rtr r. hashtab_search (range_tr p) rtr = Some r \<Longrightarrow> valid_range r"
  shows "outcome h (mls_compute_sid p sc tc tcl spec newc h)
    (\<lambda>e. e = EINVAL \<and> (spec \<notin> {AVTAB_TRANSITION, AVTAB_CHANGE, AVTAB_MEMBER} \<or>
        disjoint_ranges (crange sc) (crange tc)) \<or> e = FAIL \<and> \<not> mem_ok h)
    (\<lambda>c. ranged newc c \<and>
      (\<forall>r. spec = AVTAB_TRANSITION \<and> hashtab_search (range_tr p)
          \<lparr>rt_source_type = ctype sc, rt_target_type = ctype tc, rt_target_class = ucast tcl\<rparr> = Some r \<longrightarrow> crange c = r) \<and>
      (spec = AVTAB_MEMBER \<longrightarrow> crange c = \<lparr>low = low (crange sc), high = low (crange sc)\<rparr>) \<and>
      (spec = AVTAB_CHANGE \<longrightarrow> crange c = (if tcl = process_class p then crange sc
        else \<lparr>low = low (crange sc), high = low (crange sc)\<rparr>)))"
    (is "outcome h _ ?E ?P")
proof -
  let ?rtr = "\<lparr>rt_source_type = ctype sc, rt_target_type = ctype tc, rt_target_class = ucast tcl\<rparr>"
  note change = mls_change_range_correct [OF assms(2), of h p tcl newc]
  consider (tr) r where "spec = AVTAB_TRANSITION" "hashtab_search (range_tr p) ?rtr = Some r"
    | (dflt) dr where "spec = AVTAB_TRANSITION" "hashtab_search (range_tr p) ?rtr = None"
        "mls_compute_sid p sc tc tcl spec newc h = (case default_range_copy dr newc sc tc h of
           Some r \<Rightarrow> r | None \<Rightarrow> mls_change_range p sc tcl newc h)"
    | (change) "spec = AVTAB_CHANGE" | (member) "spec = AVTAB_MEMBER"
    | (other) "spec \<notin> {AVTAB_TRANSITION, AVTAB_CHANGE, AVTAB_MEMBER}"
    using assms(1) by (cases "hashtab_search (range_tr p) ?rtr") (auto simp: mls_compute_sid_def Let_def)
  then show ?thesis
  proof cases
    case tr
    then show ?thesis
      using assms(1) by (auto simp: mls_compute_sid_def ranged_def intro!: outcome_mono [OF mls_range_set_correct] assms(4))
  next
    case dflt
    show ?thesis
    proof (cases "default_range_copy dr newc sc tc h")
      case None
      show ?thesis unfolding dflt(3) None option.case
        by (rule outcome_mono [OF change]) (use dflt(1,2) in auto)
    next
      case (Some r)
      show ?thesis unfolding dflt(3) Some option.case
        by (rule outcome_mono [OF default_range_copy_correct [OF Some assms(2,3)]]) (use dflt(1,2) in auto)
    qed
  next
    case change
    then show ?thesis
      using assms(1) by (auto simp: mls_compute_sid_def intro!: outcome_mono [OF mls_change_range_correct [OF assms(2)]])
  next
    case member
    then show ?thesis
      using assms(1) low_range_valid [OF assms(2)]
      by (auto simp: mls_compute_sid_def ranged_def intro!: outcome_mono [OF mls_context_cpy_low_correct])
  next
    case other
    then show ?thesis using assms(1) by (auto simp: mls_compute_sid_def)
  qed
qed

lemma user_range_valid:
  assumes "valid_range (crange fromcon)" "range_wf (exp_range user)" "level_wf (exp_dfltlevel user)"
    and "mls_level_between (exp_dfltlevel user) (low (exp_range user)) (high (exp_range user))"
    and "mls_setup_user_range fromcon user usercon True = Inr c"
  shows "c = usercon\<lparr>crange := crange c\<rparr> \<and> valid_range (crange c) \<and>
    mls_range_contains (exp_range user) (crange c) \<and>
    mls_level_dom (high (crange fromcon)) (high (crange c))"
  using assms(5)
proof (rule user_range_facts)
  fix s u
  assume c: "c = usercon\<lparr>crange := \<lparr>low = s, high = u\<rparr>\<rparr>"
    and sen: "mls_level_between (exp_dfltlevel user) (low (crange fromcon)) (high (crange fromcon)) \<and>
        s = exp_dfltlevel user \<or>
      mls_level_between (low (crange fromcon)) (exp_dfltlevel user) (high (exp_range user)) \<and>
        s = low (crange fromcon) \<or>
      mls_level_between (high (crange fromcon)) (low (exp_range user)) (exp_dfltlevel user) \<and>
        s = low (exp_range user)"
    and clr: "mls_level_dom (high (exp_range user)) (high (crange fromcon)) \<and> u = high (crange fromcon) \<or>
      mls_level_dom (high (crange fromcon)) (high (exp_range user)) \<and> u = high (exp_range user)"
  have wf: "level_wf (low (crange fromcon))" "level_wf (high (crange fromcon))"
      "level_wf (low (exp_range user))" "level_wf (high (exp_range user))" "level_wf (exp_dfltlevel user)"
    using assms(1-3) by (simp_all add: valid_range_def range_wf_def)
  have "mls_level_dom u s \<and> mls_level_dom s (low (exp_range user)) \<and>
      mls_level_dom (high (exp_range user)) u \<and> mls_level_dom (high (crange fromcon)) u"
    by (rule lvl.user_range [OF wf _ _ _ _ clr])
      (use sen assms(1,4) in \<open>simp_all add: mls_level_between_def valid_range_def\<close>)
  moreover have "level_wf s" "level_wf u" using sen clr wf by auto
  ultimately show ?thesis
    by (simp add: c valid_range_def range_wf_def mls_range_contains_def)
qed

text \<open>
  Conversion to another policy. \<open>mls_convert_context\<close> looks up the names of the old policy in
  the new one: it fails exactly on a level with a name that the new policy lacks, and
  otherwise gives each level the sensitivity and the set of categories that the new policy has
  for these names. The rest of the context stays as it is.
\<close>

lemma mls_convert_context_names:
  assumes "mls oldp" "range_wf (crange c)"
  shows "outcome h (mls_convert_context oldp newp c h)
    (\<lambda>e. e = EINVAL \<and> (inconvertible oldp newp (low (crange c)) \<or> inconvertible oldp newp (high (crange c))))
    (\<lambda>c'. c' = c\<lparr>crange := crange c'\<rparr> \<and> converted oldp newp (low (crange c)) (low (crange c')) \<and>
      converted oldp newp (high (crange c)) (high (crange c')))"
proof -
  have wf: "level_wf (low (crange c))" "level_wf (high (crange c))" using assms(2) by (simp_all add: range_wf_def)
  have on: "\<not> \<not> mls oldp" using assms(1) by simp
  show ?thesis
    unfolding mls_convert_context_def if_not_P [OF on]
  proof (rule outcome_step [OF convert_level_correct [OF wf(1)]], goal_cases)
    case (2 l h')
    show ?case
      unfolding prod.case
      by (rule outcome_step [OF convert_level_correct [OF wf(2)]]) (use 2(1) in auto)
  qed simp
qed

section \<open>Properties\<close>

text \<open>
  The range of a user. If the calling context is valid and the default level of the user lies
  in the user's range, a range that \<open>mls_setup_user_range\<close> chooses is valid, lies in the range of the
  user, and its clearance does not exceed that of the calling context.
\<close>

theorem mls_setup_user_range_valid:
  assumes "valid_range (crange fromcon)" "range_wf (exp_range user)" "level_wf (exp_dfltlevel user)"
    and "mls_level_between (exp_dfltlevel user) (low (exp_range user)) (high (exp_range user))"
    and "mls_setup_user_range fromcon user usercon True = Inr c"
  shows "c = usercon\<lparr>crange := crange c\<rparr> \<and> valid_range (crange c) \<and>
    mls_range_contains (exp_range user) (crange c) \<and>
    mls_level_dom (high (crange fromcon)) (high (crange c))"
  by (rule user_range_valid [OF assms])

section \<open>Witnesses\<close>

lemma sample_level_dom: "mls_level_dom \<lparr>sens = 1, cat = bitmap_of 3\<rparr> sample_level"
  "mls_level_dom sample_level sample_level"
  "mls_level_dom \<lparr>sens = 1, cat = bitmap_of 3\<rparr> \<lparr>sens = 1, cat = bitmap_of 3\<rparr>"
  by (simp_all add: mls_level_dom_def sample_level_def ebitmap_contains_correct sample_wf)
    (simp add: ebitmap_set_def ebitmap_init_def)

lemma sample_clearance_valid: "valid_range (crange sample_clearance)"
  using sample_level_dom by (simp add: valid_range_def range_wf_def sample_clearance_def level_wf_def
      sample_level_def sample_wf)

lemma mls_setup_user_range_valid_witness:
  "\<exists>c. mls_setup_user_range sample_clearance sample_user context_init True = Inr c \<and> valid_range (crange c)"
proof -
  have user: "range_wf (exp_range sample_user)" "level_wf (exp_dfltlevel sample_user)"
    "mls_level_between (exp_dfltlevel sample_user) (low (exp_range sample_user)) (high (exp_range sample_user))"
    using sample_level_dom by (simp_all add: sample_user_def range_wf_def level_wf_def sample_level_def sample_wf
        mls_level_between_def)
  obtain c where c: "mls_setup_user_range sample_clearance sample_user context_init True = Inr c"
    using sample_level_dom
    by (simp add: mls_setup_user_range_def Let_def sample_clearance_def sample_user_def mls_level_between_def)
  then show ?thesis using mls_setup_user_range_valid [OF sample_clearance_valid user c] by auto
qed

end
