(* ===== verification/Context_Text.thy ===== *)
theory Context_Text
  imports Mls_Range Policy_File
begin

text \<open>
  Contexts as text and as records: \<open>context_record.c\<close> and \<open>context.c\<close>.

  A field of a record that was not set is \<open>NULL\<close>, here \<open>None\<close>. \<open>strdup\<close> takes one outcome of
  the heap. \<open>context_from_string\<close> has the value \<open>None\<close> where the C code reads through a null pointer.
  The text handed to it is the list of the bytes that the caller says it has, which may include
  \<open>NUL\<close> characters; all other strings are without the final \<open>NUL\<close>.
\<close>

section \<open>Records\<close>

record sepol_context =
  con_user :: "string option"
  con_role :: "string option"
  con_type :: "string option"
  con_mls :: "string option"

definition sepol_context_set_user ::
  "sepol_context \<Rightarrow> string \<Rightarrow> heap \<Rightarrow> (sepol_context \<times> heap) result" where
  "sepol_context_set_user con user h = (case malloc h of (ok, h) \<Rightarrow>
     if \<not> ok then Inl FAIL else Inr (con\<lparr>con_user := Some user\<rparr>, h))"

definition sepol_context_set_role ::
  "sepol_context \<Rightarrow> string \<Rightarrow> heap \<Rightarrow> (sepol_context \<times> heap) result" where
  "sepol_context_set_role con role h = (case malloc h of (ok, h) \<Rightarrow>
     if \<not> ok then Inl FAIL else Inr (con\<lparr>con_role := Some role\<rparr>, h))"

definition sepol_context_set_type ::
  "sepol_context \<Rightarrow> string \<Rightarrow> heap \<Rightarrow> (sepol_context \<times> heap) result" where
  "sepol_context_set_type con type h = (case malloc h of (ok, h) \<Rightarrow>
     if \<not> ok then Inl FAIL else Inr (con\<lparr>con_type := Some type\<rparr>, h))"

definition sepol_context_set_mls ::
  "sepol_context \<Rightarrow> string \<Rightarrow> heap \<Rightarrow> (sepol_context \<times> heap) result" where
  "sepol_context_set_mls con m h = (case malloc h of (ok, h) \<Rightarrow>
     if \<not> ok then Inl FAIL else Inr (con\<lparr>con_mls := Some m\<rparr>, h))"

definition sepol_context_create :: "heap \<Rightarrow> (sepol_context \<times> heap) result" where
  "sepol_context_create h = (case malloc h of (ok, h) \<Rightarrow>
     if \<not> ok then Inl FAIL
     else Inr (\<lparr>con_user = None, con_role = None, con_type = None, con_mls = None\<rparr>, h))"

text \<open>\<open>strdup\<close> of a field; the field must have been set.\<close>

definition strdup :: "string option \<Rightarrow> heap \<Rightarrow> (string option \<times> heap) result" where
  "strdup s h = (case malloc h of (ok, h) \<Rightarrow> if \<not> ok then Inl FAIL else Inr (Some (the s), h))"

definition sepol_context_clone ::
  "sepol_context option \<Rightarrow> heap \<Rightarrow> (sepol_context option \<times> heap) result" where
  "sepol_context_clone con h = (case con of
       None \<Rightarrow> Inr (None, h)
     | Some con \<Rightarrow> bind_res (sepol_context_create h) (\<lambda>(new_con, h).
         bind_res (strdup (con_user con) h) (\<lambda>(u, h).
         bind_res (strdup (con_role con) h) (\<lambda>(r, h).
         bind_res (strdup (con_type con) h) (\<lambda>(t, h).
         bind_res (if con_mls con \<noteq> None then strdup (con_mls con) h else Inr (None, h)) (\<lambda>(m, h).
         Inr (Some (new_con\<lparr>con_user := u, con_role := r, con_type := t, con_mls := m\<rparr>), h)))))))"

text \<open>\<open>strchr\<close> for a colon: the text before it and the text after it.\<close>

definition colon :: "string \<Rightarrow> (string \<times> string) option" where
  "colon s = (case dropWhile (\<lambda>c. c \<noteq> CHR '':'') s of
       [] \<Rightarrow> None
     | _ # r \<Rightarrow> Some (takeWhile (\<lambda>c. c \<noteq> CHR '':'') s, r))"

definition sepol_context_from_string :: "string \<Rightarrow> heap \<Rightarrow> (sepol_context option \<times> heap) result" where
  "sepol_context_from_string str h =
     (if str = ''<<none>>'' then Inr (None, h)
      else bind_res (sepol_context_create h) (\<lambda>(tmp_con, h). case malloc h of (ok, h) \<Rightarrow>
        if \<not> ok then Inl FAIL
        else case colon str of
          None \<Rightarrow> Inl FAIL
        | Some (user, rest) \<Rightarrow> bind_res (sepol_context_set_user tmp_con user h) (\<lambda>(tmp_con, h).
            case colon rest of
              None \<Rightarrow> Inl FAIL
            | Some (role, rest) \<Rightarrow> bind_res (sepol_context_set_role tmp_con role h) (\<lambda>(tmp_con, h).
                case colon rest of
                  None \<Rightarrow> bind_res (sepol_context_set_type tmp_con rest h) (\<lambda>(tmp_con, h).
                    Inr (Some tmp_con, h))
                | Some (type, m) \<Rightarrow> bind_res (sepol_context_set_type tmp_con type h) (\<lambda>(tmp_con, h).
                    bind_res (sepol_context_set_mls tmp_con m h) (\<lambda>(tmp_con, h).
                      Inr (Some tmp_con, h)))))))"

text \<open>The sum of the sizes as a \<open>size_t\<close>; \<open>None\<close> when it overflows.\<close>

fun add_sizes :: "nat \<Rightarrow> nat list \<Rightarrow> nat option" where
  "add_sizes total_sz [] = Some total_sz"
| "add_sizes total_sz (n # ns) =
     (if total_sz + n \<ge> 2 ^ 64 then None else add_sizes (total_sz + n) ns)"

text \<open>\<open>snprintf\<close> returns the length of the text, or a negative number if an \<open>int\<close> cannot hold it.\<close>

definition sepol_context_to_string :: "sepol_context \<Rightarrow> heap \<Rightarrow> (string \<times> heap) result" where
  "sepol_context_to_string con h =
     (let user = the (con_user con); role = the (con_role con); type = the (con_type con) in
      case add_sizes 0 [length user, length role, length type,
          (case con_mls con of Some m \<Rightarrow> length m | None \<Rightarrow> 0), (if con_mls con \<noteq> None then 3 else 2) + 1] of
        None \<Rightarrow> Inl FAIL
      | Some total_sz \<Rightarrow> (case malloc h of (ok, h) \<Rightarrow>
          if \<not> ok then Inl FAIL
          else let str = user @ '':'' @ role @ '':'' @ type @
                 (case con_mls con of Some m \<Rightarrow> '':'' @ m | None \<Rightarrow> []) in
            if length str \<ge> 2 ^ 31 \<or> length str \<ge> total_sz then Inl FAIL else Inr (str, h)))"

section \<open>Contexts\<close>

definition context_is_valid :: "policydb \<Rightarrow> context_struct \<Rightarrow> bool" where
  "context_is_valid p c =
     (if crole c = 0 \<or> crole c > nprim (p_roles p) then False
      else if cuser c = 0 \<or> cuser c > nprim (p_users p) then False
      else if ctype c = 0 \<or> ctype c > nprim (p_types p) then False
      else if crole c \<noteq> OBJECT_R_VAL \<and>
        (case val_struct (role_val_to_struct p) (crole c) of
           None \<Rightarrow> True
         | Some role \<Rightarrow> \<not> ebitmap_get_bit (role_cache role) (ctype c - 1) \<or>
             (case val_struct (user_val_to_struct p) (cuser c) of
                None \<Rightarrow> True
              | Some usrdatum \<Rightarrow> \<not> ebitmap_get_bit (user_cache usrdatum) (crole c - 1))) then False
      else mls_context_isvalid p c)"

definition user_name :: "policydb \<Rightarrow> context_struct \<Rightarrow> string" where
  "user_name p c = the (val_name (p_user_val_to_name p) (cuser c))"

definition role_name :: "policydb \<Rightarrow> context_struct \<Rightarrow> string" where
  "role_name p c = the (val_name (p_role_val_to_name p) (crole c))"

definition type_name :: "policydb \<Rightarrow> context_struct \<Rightarrow> string" where
  "type_name p c = the (val_name (p_type_val_to_name p) (ctype c))"

text \<open>The length of the range is an \<open>int\<close>, which is sign-extended when it is added to the \<open>size_t\<close>.\<close>

definition context_text_len :: "policydb \<Rightarrow> context_struct \<Rightarrow> u64" where
  "context_text_len p c = of_nat (length (user_name p c)) + 1 + (of_nat (length (role_name p c)) + 1) +
     of_nat (length (type_name p c)) + scast (mls_compute_context_len p c) + 1"

definition context_to_string ::
  "policydb \<Rightarrow> context_struct \<Rightarrow> heap \<Rightarrow> ((string \<times> u64) \<times> heap) result" where
  "context_to_string p c h = (case malloc h of (ok, h) \<Rightarrow>
     if \<not> ok then Inl FAIL
     else Inr ((user_name p c @ '':'' @ role_name p c @ '':'' @ type_name p c @ mls_sid_to_context p c,
       context_text_len p c), h))"

text \<open>\<open>TYPE_ATTRIB\<close> is 1.\<close>

definition context_from_record ::
  "policydb \<Rightarrow> sepol_context \<Rightarrow> heap \<Rightarrow> (context_struct \<times> heap) result" where
  "context_from_record pd record0 h =
     (let user = the (con_user record0); role = the (con_role record0); type = the (con_type record0) in
      case malloc h of (ok1, h) \<Rightarrow> case malloc h of (ok2, h) \<Rightarrow> case malloc h of (ok3, h) \<Rightarrow>
      case malloc h of (ok4, h) \<Rightarrow>
      if \<not> ok1 \<or> \<not> ok2 \<or> \<not> ok3 \<or> \<not> ok4 then Inl FAIL
      else case hashtab_search (table (p_users pd)) user of
        None \<Rightarrow> Inl FAIL
      | Some usrdatum \<Rightarrow> (case hashtab_search (table (p_roles pd)) role of
          None \<Rightarrow> Inl FAIL
        | Some roldatum \<Rightarrow> (case hashtab_search (table (p_types pd)) type of
            None \<Rightarrow> Inl FAIL
          | Some typdatum \<Rightarrow>
              if flavor typdatum = 1 then Inl FAIL
              else let scontext = context_init\<lparr>cuser := user_value usrdatum, crole := role_value roldatum,
                     ctype := type_value typdatum\<rparr> in
                if con_mls record0 \<noteq> None \<and> \<not> mls pd then Inl FAIL
                else if con_mls record0 = None \<and> mls pd then Inl FAIL
                else bind_res (case con_mls record0 of
                    None \<Rightarrow> Inr (scontext, h)
                  | Some m \<Rightarrow> mls_from_string pd m scontext h) (\<lambda>(scontext, h).
                  if \<not> context_is_valid pd scontext then Inl FAIL else Inr (scontext, h)))))"

definition context_to_record ::
  "policydb \<Rightarrow> context_struct \<Rightarrow> heap \<Rightarrow> (sepol_context \<times> heap) result" where
  "context_to_record pd c h = bind_res (sepol_context_create h) (\<lambda>(tmp_record, h).
     bind_res (sepol_context_set_user tmp_record (user_name pd c) h) (\<lambda>(tmp_record, h).
     bind_res (sepol_context_set_role tmp_record (role_name pd c) h) (\<lambda>(tmp_record, h).
     bind_res (sepol_context_set_type tmp_record (type_name pd c) h) (\<lambda>(tmp_record, h).
     if mls pd
     then bind_res (mls_to_string pd c h) (\<lambda>(m, h). sepol_context_set_mls tmp_record m h)
     else Inr (tmp_record, h)))))"

definition context_from_string ::
  "policydb \<Rightarrow> string \<Rightarrow> u64 \<Rightarrow> heap \<Rightarrow> (context_struct \<times> heap) result option" where
  "context_from_string pd con_str con_str_len h =
     (if zero_or_saturated con_str_len then Some (Inl FAIL)
      else case malloc h of (ok, h) \<Rightarrow>
        if \<not> ok then Some (Inl FAIL)
        else let con_cpy = takeWhile (\<lambda>c. c \<noteq> CHR 0x00) (take (unat con_str_len) con_str) in
          case sepol_context_from_string con_cpy h of
            Inl e \<Rightarrow> Some (Inl FAIL)
          | Inr (None, h) \<Rightarrow> None
          | Inr (Some ctx_record, h) \<Rightarrow> Some (catch_res FAIL (context_from_record pd ctx_record h)))"

definition sepol_context_check :: "policydb \<Rightarrow> sepol_context \<Rightarrow> heap \<Rightarrow> (unit \<times> heap) result" where
  "sepol_context_check pd con h = bind_res (context_from_record pd con h) (\<lambda>(_, h). Inr ((), h))"

section \<open>Splitting at colons\<close>

lemma colon_split:
  assumes "CHR '':'' \<notin> set s"
  shows "colon (s @ CHR '':'' # r) = Some (s, r)"
proof -
  have ne: "\<forall>c \<in> set s. c \<noteq> CHR '':''" using assms by blast
  have stop: "CHR '':'' # r = [] \<or> \<not> hd (CHR '':'' # r) \<noteq> CHR '':''" by simp
  show ?thesis
    unfolding colon_def takeWhile_stop [OF ne stop] dropWhile_stop [OF ne stop] by simp
qed

lemma colon_none:
  assumes "CHR '':'' \<notin> set s"
  shows "colon s = None"
proof -
  have "dropWhile (\<lambda>c. c \<noteq> CHR '':'') s = []" using assms by (auto simp: dropWhile_eq_Nil_conv)
  then show ?thesis unfolding colon_def by (simp only: list.case)
qed

lemma setter_correct:
  "outcome h (sepol_context_set_user con s h) (\<lambda>e. e = FAIL \<and> \<not> mem_ok h) (\<lambda>c. c = con\<lparr>con_user := Some s\<rparr>)"
  "outcome h (sepol_context_set_role con s h) (\<lambda>e. e = FAIL \<and> \<not> mem_ok h) (\<lambda>c. c = con\<lparr>con_role := Some s\<rparr>)"
  "outcome h (sepol_context_set_type con s h) (\<lambda>e. e = FAIL \<and> \<not> mem_ok h) (\<lambda>c. c = con\<lparr>con_type := Some s\<rparr>)"
  "outcome h (sepol_context_set_mls con s h) (\<lambda>e. e = FAIL \<and> \<not> mem_ok h) (\<lambda>c. c = con\<lparr>con_mls := Some s\<rparr>)"
  "outcome h (sepol_context_create h) (\<lambda>e. e = FAIL \<and> \<not> mem_ok h)
    (\<lambda>c. c = \<lparr>con_user = None, con_role = None, con_type = None, con_mls = None\<rparr>)"
  using mem_ok_malloc [of h]
  by (auto simp: sepol_context_set_user_def sepol_context_set_role_def sepol_context_set_type_def
      sepol_context_set_mls_def sepol_context_create_def split: prod.splits)

lemma outcome_alloc:
  assumes "\<And>h'. \<lbrakk>mem_ok h \<longrightarrow> mem_ok h'; malloc h = (True, h')\<rbrakk> \<Longrightarrow>
      outcome h' (f h') (\<lambda>e. e = FAIL \<and> \<not> mem_ok h') P"
  shows "outcome h (case malloc h of (ok, h') \<Rightarrow> if \<not> ok then Inl FAIL else f h')
    (\<lambda>e. e = FAIL \<and> \<not> mem_ok h) P"
proof (cases "malloc h")
  case (Pair ok h')
  then have m: "mem_ok h \<longrightarrow> ok \<and> mem_ok h'" using malloc_okD by blast
  show ?thesis
  proof (cases ok)
    case True
    then show ?thesis using assms [of h'] Pair m by (auto simp: outcome_def split: sum.splits)
  next
    case False
    then show ?thesis using Pair m by auto
  qed
qed

text \<open>A chain of allocating steps fails only for lack of memory.\<close>

lemma outcome_chain:
  assumes "outcome h r (\<lambda>e. e = FAIL \<and> \<not> mem_ok h) Q"
    and "\<And>x h'. \<lbrakk>Q x; mem_ok h \<longrightarrow> mem_ok h'\<rbrakk> \<Longrightarrow> outcome h' (f (x, h')) (\<lambda>e. e = FAIL \<and> \<not> mem_ok h') P"
  shows "outcome h (bind_res r f) (\<lambda>e. e = FAIL \<and> \<not> mem_ok h) P"
proof (rule outcome_step [OF assms(1)])
  fix x h'
  assume x: "Q x" and m: "mem_ok h \<longrightarrow> mem_ok h'"
  show "outcome h' (f (x, h')) (\<lambda>e. e = FAIL \<and> \<not> mem_ok h) P"
    by (rule outcome_mono [OF assms(2) [OF x m]]) (use m in auto)
qed

lemma record_from_text:
  assumes names: "CHR '':'' \<notin> set u" "CHR '':'' \<notin> set r" "CHR '':'' \<notin> set t"
    and rest: "m = [] \<or> m = CHR '':'' # tl m"
  shows "outcome h (sepol_context_from_string (u @ '':'' @ r @ '':'' @ t @ m) h) (\<lambda>e. e = FAIL \<and> \<not> mem_ok h)
    (\<lambda>con. con = Some \<lparr>con_user = Some u, con_role = Some r, con_type = Some t,
      con_mls = (if m = [] then None else Some (tl m))\<rparr>)"
proof -
  let ?str = "u @ '':'' @ r @ '':'' @ t @ m"
  have "CHR '':'' \<in> set ?str" "CHR '':'' \<notin> set ''<<none>>''" by simp_all
  then have none: "?str \<noteq> ''<<none>>''" by metis
  have c1: "colon ?str = Some (u, r @ '':'' @ t @ m)" using colon_split [OF names(1)] by simp
  have c2: "colon (r @ '':'' @ t @ m) = Some (r, t @ m)" using colon_split [OF names(2)] by simp
  have c3: "colon (t @ m) = (if m = [] then None else Some (t, tl m))"
    using colon_split [OF names(3), of "tl m"] colon_none [OF names(3)] rest by auto
  show ?thesis
    unfolding sepol_context_from_string_def if_not_P [OF none] c1 option.case prod.case c2 c3
    by (rule outcome_chain [OF setter_correct(5)], unfold prod.case, rule outcome_alloc,
        rule outcome_chain [OF setter_correct(1)], unfold prod.case,
        rule outcome_chain [OF setter_correct(2)], unfold prod.case)
      (cases "m = []"; simp; intro outcome_chain [OF setter_correct(3)]; simp?;
        (intro outcome_chain [OF setter_correct(4)]; simp)?)
qed

section \<open>Validity depends on the sets of categories only\<close>

lemma level_isvalid_abs:
  assumes "level_wf l" "level_wf l'" "level_abs l = level_abs l'"
  shows "level_isvalid p l = level_isvalid p l'"
proof -
  have s: "sens l = sens l'" and c: "ebitmap_set (cat l) = ebitmap_set (cat l')"
    using assms(3) by (simp_all add: level_abs_def)
  have "set (ebitmap_positive_bits (cat l)) = set (ebitmap_positive_bits (cat l'))"
    using assms(1,2) c by (auto simp: level_wf_def positive_bits_iff ebitmap_get_bit_correct)
  then show ?thesis unfolding level_isvalid_def s by (simp only:)
qed

text \<open>Contexts of the same values and levels, whatever the layout of their bitmaps.\<close>

definition same_context :: "context_struct \<Rightarrow> context_struct \<Rightarrow> bool" where
  "same_context c c' \<longleftrightarrow> range_wf (crange c) \<and> range_wf (crange c') \<and> context_abs c = context_abs c'"

definition user_range_wf :: "policydb \<Rightarrow> context_struct \<Rightarrow> bool" where
  "user_range_wf p c \<longleftrightarrow> (\<forall>u. val_struct (user_val_to_struct p) (cuser c) = Some u \<longrightarrow> range_wf (exp_range u))"

lemma context_is_valid_abs:
  assumes "same_context c c'" "user_range_wf p c" "context_is_valid p c"
  shows "context_is_valid p c'"
proof -
  have wf: "level_wf (low (crange c))" "level_wf (high (crange c))"
      "level_wf (low (crange c'))" "level_wf (high (crange c'))"
    and same: "cuser c = cuser c'" "crole c = crole c'" "ctype c = ctype c'"
    and abs: "level_abs (low (crange c)) = level_abs (low (crange c'))"
      "level_abs (high (crange c)) = level_abs (high (crange c'))"
    using assms(1) by (auto simp: same_context_def range_wf_def context_abs_def)
  have levels: "level_isvalid p (low (crange c)) = level_isvalid p (low (crange c'))"
    "level_isvalid p (high (crange c)) = level_isvalid p (high (crange c'))"
    using level_isvalid_abs wf abs by blast+
  have dom: "mls_level_dom (high (crange c)) (low (crange c)) = mls_level_dom (high (crange c')) (low (crange c'))"
    using wf abs by (simp add: mls_level_dom_abs)
  have contains: "mls_range_contains (exp_range u) (crange c) = mls_range_contains (exp_range u) (crange c')"
    if "val_struct (user_val_to_struct p) (cuser c) = Some u" for u
    using assms(2) that wf abs
    by (auto simp: mls_range_contains_def mls_level_dom_abs user_range_wf_def range_wf_def)
  have isvalid: "mls_context_isvalid p c = mls_context_isvalid p c'"
    unfolding mls_context_isvalid_def dom levels same(2) using same(1) contains
    by (auto split: option.splits)
  show ?thesis using assms(3) unfolding context_is_valid_def same isvalid .
qed

section \<open>From records to contexts\<close>

text \<open>The names of the context contain no separator and the policy finds them under the same values.\<close>

definition names_known :: "policydb \<Rightarrow> context_struct \<Rightarrow> bool" where
  "names_known p c \<longleftrightarrow>
     CHR '':'' \<notin> set (user_name p c) \<and> CHR '':'' \<notin> set (role_name p c) \<and> CHR '':'' \<notin> set (type_name p c) \<and>
     (\<exists>d. hashtab_search (table (p_users p)) (user_name p c) = Some d \<and> user_value d = cuser c) \<and>
     (\<exists>d. hashtab_search (table (p_roles p)) (role_name p c) = Some d \<and> role_value d = crole c) \<and>
     (\<exists>d. hashtab_search (table (p_types p)) (type_name p c) = Some d \<and> type_value d = ctype c \<and> flavor d \<noteq> 1)"

definition printed_record :: "policydb \<Rightarrow> context_struct \<Rightarrow> sepol_context" where
  "printed_record p c = \<lparr>con_user = Some (user_name p c), con_role = Some (role_name p c),
     con_type = Some (type_name p c),
     con_mls = (if mls p then Some (tl (mls_sid_to_context p c)) else None)\<rparr>"

text \<open>The context that reading the text of \<open>c\<close> gives: without MLS the range is the initial one.\<close>

definition rangeless :: "policydb \<Rightarrow> context_struct \<Rightarrow> context_struct" where
  "rangeless p c = (if mls p then c else c\<lparr>crange := mls_range_init\<rparr>)"

lemma rangeless_simps [simp]:
  "cuser (rangeless p c) = cuser c" "crole (rangeless p c) = crole c" "ctype (rangeless p c) = ctype c"
  "mls_context_isvalid p (rangeless p c) = mls_context_isvalid p c"
  by (simp_all add: rangeless_def mls_context_isvalid_def)

lemma outcome_allocs4:
  assumes "\<And>h'. (mem_ok h \<longrightarrow> mem_ok h') \<Longrightarrow> outcome h' (f h') (\<lambda>e. e = FAIL \<and> \<not> mem_ok h') P"
  shows "outcome h (case malloc h of (ok1, h) \<Rightarrow> case malloc h of (ok2, h) \<Rightarrow> case malloc h of (ok3, h) \<Rightarrow>
      case malloc h of (ok4, h) \<Rightarrow> if \<not> ok1 \<or> \<not> ok2 \<or> \<not> ok3 \<or> \<not> ok4 then Inl FAIL else f h)
    (\<lambda>e. e = FAIL \<and> \<not> mem_ok h) P"
proof -
  obtain ok1 h1 ok2 h2 ok3 h3 ok4 h4 where m: "malloc h = (ok1, h1)" "malloc h1 = (ok2, h2)"
    "malloc h2 = (ok3, h3)" "malloc h3 = (ok4, h4)" by (meson surj_pair)
  have mem: "mem_ok h \<longrightarrow> ok1 \<and> ok2 \<and> ok3 \<and> ok4 \<and> mem_ok h4" using m malloc_okD by metis
  then show ?thesis
    using assms [of h4] unfolding m prod.case by (auto simp: outcome_def split: sum.splits)
qed

lemma printed_range:
  assumes known: "names_known p c" and ok: "mls p \<Longrightarrow> level_ok p (low (crange c)) \<and> level_ok p (high (crange c))"
    and c0: "c0 = context_init\<lparr>cuser := cuser c, crole := crole c, ctype := ctype c\<rparr>"
  shows "outcome h (case con_mls (printed_record p c) of None \<Rightarrow> Inr (c0, h) | Some m \<Rightarrow> mls_from_string p m c0 h)
    (\<lambda>e. e = FAIL \<and> \<not> mem_ok h) (same_context (rangeless p c))"
proof (cases "mls p")
  case False
  then show ?thesis
    using context_init_wf by (simp add: printed_record_def rangeless_def same_context_def c0 context_abs_def
        context_wf_def context_init_def)
next
  case True
  have wf: "range_wf (crange c)" using ok [OF True] by (simp add: range_wf_def level_ok_def)
  have init: "crange c0 = mls_range_init" by (simp add: c0 context_init_def)
  have m: "con_mls (printed_record p c) = Some (tl (mls_sid_to_context p c))"
    using True by (simp add: printed_record_def)
  show ?thesis
    unfolding m option.case
  proof (rule outcome_mono [OF mls_from_printed [OF True _ _ init]], goal_cases)
    case (3 c')
    then have "cuser c' = cuser c \<and> crole c' = crole c \<and> ctype c' = ctype c"
      unfolding c0 by (metis context_struct.select_convs context_struct.surjective context_struct.update_convs)
    with 3 True wf show ?case by (simp add: same_context_def rangeless_def context_abs_def)
  qed (use ok True in auto)
qed

lemma context_from_printed:
  assumes known: "names_known p c" and ok: "mls p \<Longrightarrow> level_ok p (low (crange c)) \<and> level_ok p (high (crange c))"
    and valid: "context_is_valid p c" and users: "user_range_wf p c"
  shows "outcome h (context_from_record p (printed_record p c) h) (\<lambda>e. e = FAIL \<and> \<not> mem_ok h)
    (same_context (rangeless p c))"
proof -
  obtain u r t where d: "hashtab_search (table (p_users p)) (user_name p c) = Some u" "user_value u = cuser c"
    "hashtab_search (table (p_roles p)) (role_name p c) = Some r" "role_value r = crole c"
    "hashtab_search (table (p_types p)) (type_name p c) = Some t" "type_value t = ctype c" "flavor t \<noteq> 1"
    using known by (auto simp: names_known_def)
  have names: "the (con_user (printed_record p c)) = user_name p c" "the (con_role (printed_record p c)) = role_name p c"
    "the (con_type (printed_record p c)) = type_name p c" by (simp_all add: printed_record_def)
  have m: "\<not> (con_mls (printed_record p c) \<noteq> None \<and> \<not> mls p)" "\<not> (con_mls (printed_record p c) = None \<and> mls p)"
    by (simp_all add: printed_record_def)
  have users': "user_range_wf p (rangeless p c)" using users by (simp add: user_range_wf_def rangeless_def)
  have valid': "context_is_valid p (rangeless p c)"
    using valid unfolding context_is_valid_def rangeless_simps .
  show ?thesis
    unfolding context_from_record_def Let_def names
  proof (rule outcome_allocs4)
    fix h'
    let ?c0 = "context_init\<lparr>cuser := cuser c, crole := crole c, ctype := ctype c\<rparr>"
    show "outcome h' (case hashtab_search (table (p_users p)) (user_name p c) of None \<Rightarrow> Inl FAIL
      | Some usrdatum \<Rightarrow> (case hashtab_search (table (p_roles p)) (role_name p c) of None \<Rightarrow> Inl FAIL
        | Some roldatum \<Rightarrow> (case hashtab_search (table (p_types p)) (type_name p c) of None \<Rightarrow> Inl FAIL
          | Some typdatum \<Rightarrow> if flavor typdatum = 1 then Inl FAIL
              else if con_mls (printed_record p c) \<noteq> None \<and> \<not> mls p then Inl FAIL
              else if con_mls (printed_record p c) = None \<and> mls p then Inl FAIL
              else bind_res (case con_mls (printed_record p c) of
                    None \<Rightarrow> Inr (context_init\<lparr>cuser := user_value usrdatum, crole := role_value roldatum,
                     ctype := type_value typdatum\<rparr>, h')
                  | Some m \<Rightarrow> mls_from_string p m (context_init\<lparr>cuser := user_value usrdatum, crole := role_value roldatum,
                     ctype := type_value typdatum\<rparr>) h') (\<lambda>(scontext, h).
                  if \<not> context_is_valid p scontext then Inl FAIL else Inr (scontext, h)))))
      (\<lambda>e. e = FAIL \<and> \<not> mem_ok h') (same_context (rangeless p c))"
      unfolding d(1,3,5) option.case if_not_P [OF d(7)] if_not_P [OF m(1)] if_not_P [OF m(2)] d(2,4,6)
      by (rule outcome_chain [OF printed_range [OF known ok refl]])
        (use context_is_valid_abs [OF _ users' valid'] in auto)
  qed
qed

section \<open>The whole text\<close>

abbreviation context_text :: "policydb \<Rightarrow> context_struct \<Rightarrow> string" where
  "context_text p c \<equiv> user_name p c @ '':'' @ role_name p c @ '':'' @ type_name p c @ mls_sid_to_context p c"

lemma context_to_string_text:
  "context_to_string p c h = Inr ((s, n), h') \<Longrightarrow> s = context_text p c \<and> n = context_text_len p c"
  by (auto simp: context_to_string_def split: prod.splits if_splits)

text \<open>The sign extension of a length: it is exact below \<open>2 ^ 31\<close> and subtracts \<open>2 ^ 32\<close> from there on.\<close>

lemma int_len_extend: "scast (of_nat n :: u32) = (word_of_int (signed_take_bit 31 (int n)) :: u64)"
  by (simp add: scast_eq sint_uint unsigned_of_nat signed_take_bit_take_bit of_nat_take_bit)

lemma int_len_exact: "n < 2 ^ 31 \<Longrightarrow> signed_take_bit 31 (int n) = int n"
  by (rule signed_take_bit_int_eq_self) simp_all

lemma int_len_wraps: "2 ^ 31 \<le> n \<Longrightarrow> n < 2 ^ 32 \<Longrightarrow> signed_take_bit 31 (int n) = int n - 2 ^ 32"
proof -
  assume n: "2 ^ 31 \<le> n" "n < 2 ^ 32"
  have "(int n + 2 ^ 31) mod 2 ^ 32 = (int n - 2 ^ 31 + 2 ^ 32) mod 2 ^ 32" by (simp add: algebra_simps)
  also have "\<dots> = int n - 2 ^ 31" using n by (subst mod_add_self2) (rule mod_pos_pos_trivial, simp_all)
  finally have "take_bit 32 (int n + 2 ^ 31) = int n - 2 ^ 31" by (simp add: take_bit_eq_mod)
  then show ?thesis by (simp add: signed_take_bit_eq_take_bit_shift)
qed

lemma context_text_len_extend:
  "context_text_len p c = of_nat (length (user_name p c @ '':'' @ role_name p c @ '':'' @ type_name p c) + 1) +
    word_of_int (signed_take_bit 31 (int (length (mls_sid_to_context p c))))"
  unfolding context_text_len_def context_len_text int_len_extend by simp

lemma context_text_len_exact:
  assumes "length (mls_sid_to_context p c) < 2 ^ 63"
  shows "context_text_len p c = of_nat (length (context_text p c) + 1) \<longleftrightarrow> length (mls_sid_to_context p c) < 2 ^ 31"
proof -
  let ?n = "length (mls_sid_to_context p c)"
  have "context_text_len p c = of_nat (length (context_text p c) + 1) \<longleftrightarrow>
      word_of_int (signed_take_bit 31 (int ?n)) = (word_of_int (int ?n) :: u64)"
    unfolding context_text_len_extend by (simp add: ac_simps)
  also have "\<dots> \<longleftrightarrow> (2 ^ 64 :: int) dvd signed_take_bit 31 (int ?n) - int ?n"
    unfolding word_of_int_eq_iff take_bit_eq_mod mod_eq_dvd_iff by simp
  also have "\<dots> \<longleftrightarrow> signed_take_bit 31 (int ?n) = int ?n"
  proof
    assume d: "(2 ^ 64 :: int) dvd signed_take_bit 31 (int ?n) - int ?n"
    have "- (2 ^ 31) \<le> signed_take_bit 31 (int ?n)" "signed_take_bit 31 (int ?n) < 2 ^ 31"
      by (rule signed_take_bit_int_greater_eq_minus_exp, rule signed_take_bit_int_less_exp)
    moreover have "0 \<le> int ?n" "int ?n < 2 ^ 63" using assms by simp_all
    moreover have "\<bar>a - b\<bar> < 2 ^ 64" if "- (2 ^ 31) \<le> a" "a < 2 ^ 31" "0 \<le> b" "b < 2 ^ 63" for a b :: int
      using that by (simp add: abs_if)
    ultimately have "\<bar>signed_take_bit 31 (int ?n) - int ?n\<bar> < 2 ^ 64" by blast
    moreover have "x = 0" if "(2 ^ 64 :: int) dvd x" "\<bar>x\<bar> < 2 ^ 64" for x :: int
      using that zdvd_not_zless [of "\<bar>x\<bar>" "2 ^ 64"] unfolding dvd_abs_iff by (metis zero_less_abs_iff)
    ultimately have "signed_take_bit 31 (int ?n) - int ?n = 0" using d by blast
    then show "signed_take_bit 31 (int ?n) = int ?n" by simp
  qed simp
  also have "\<dots> \<longleftrightarrow> ?n < 2 ^ 31"
  proof
    assume "signed_take_bit 31 (int ?n) = int ?n"
    then have "int ?n < 2 ^ 31" using signed_take_bit_int_less_exp [of 31 "int ?n"] by (simp only:)
    then show "?n < 2 ^ 31" by simp
  qed (rule int_len_exact)
  finally show ?thesis .
qed

text \<open>Up to \<open>2 ^ 32\<close> the length given covers the text, for where it wraps it wraps to a huge number.\<close>

lemma context_text_len_covers:
  assumes "length (context_text p c) + 2 < 2 ^ 32"
  shows "length (context_text p c) < unat (context_text_len p c) \<and> \<not> zero_or_saturated (context_text_len p c)"
proof -
  let ?n = "length (mls_sid_to_context p c)" and ?l = "length (context_text p c)"
  have l: "?n \<le> ?l" by simp
  have sat: "zero_or_saturated n \<longleftrightarrow> unat n = 0 \<or> unat n = 2 ^ 64 - 1" for n :: u64
    by (auto simp: zero_or_saturated_def unsigned_minus_1_eq_mask mask_eq_exp_minus_1 word_unat_eq_iff)
  show ?thesis
  proof (cases "?n < 2 ^ 31")
    case True
    then have "context_text_len p c = of_nat (?l + 1)" using context_text_len_exact [of p c] by simp
    then have "unat (context_text_len p c) = ?l + 1"
      using assms by (simp only:) (rule unat_of_nat_lt, simp)
    then show ?thesis using assms by (simp add: sat)
  next
    case False
    have "?n < 2 ^ 32" using assms l by linarith
    then have w: "signed_take_bit 31 (int ?n) = int ?n - 2 ^ 32" using False int_len_wraps by simp
    have "context_text_len p c = word_of_int (int (?l + 1) - 2 ^ 32)"
      unfolding context_text_len_extend w by (simp add: ac_simps)
    also have "\<dots> = word_of_int (int (?l + 1) - 2 ^ 32 + 2 ^ 64)"
      by (simp add: word_of_int_eq_iff take_bit_eq_mod)
    also have "\<dots> = of_nat (?l + 1 + (2 ^ 64 - 2 ^ 32))" by simp
    finally have "unat (context_text_len p c) = ?l + 1 + (2 ^ 64 - 2 ^ 32)"
      using assms by (simp only:) (rule unat_of_nat_lt, simp)
    then show ?thesis using assms by (simp add: sat)
  qed
qed

lemma context_text_record:
  assumes "names_known p c"
  shows "outcome h (sepol_context_from_string (context_text p c) h) (\<lambda>e. e = FAIL \<and> \<not> mem_ok h)
    (\<lambda>con. con = Some (printed_record p c))"
proof -
  have rest: "mls_sid_to_context p c = [] \<or> mls_sid_to_context p c = CHR '':'' # tl (mls_sid_to_context p c)"
    and mls: "mls_sid_to_context p c = [] \<longleftrightarrow> \<not> mls p" by (auto simp: mls_sid_to_context_def)
  show ?thesis
    by (rule outcome_mono [OF record_from_text [OF _ _ _ rest]])
      (use assms mls in \<open>auto simp: names_known_def printed_record_def\<close>)
qed

lemma context_from_text:
  assumes known: "names_known p c" and ok: "mls p \<Longrightarrow> level_ok p (low (crange c)) \<and> level_ok p (high (crange c))"
    and valid: "context_is_valid p c" and users: "user_range_wf p c"
    and bytes: "CHR 0x00 \<notin> set (context_text p c)"
    and n: "length (context_text p c) < unat n" and sat: "\<not> zero_or_saturated n"
  shows "\<exists>r. context_from_string p (context_text p c @ [CHR 0x00]) n h = Some r \<and>
    outcome h r (\<lambda>e. e = FAIL \<and> \<not> mem_ok h) (same_context (rangeless p c))"
proof -
  let ?s = "context_text p c"
  have ne: "\<forall>x \<in> set ?s. x \<noteq> CHR 0x00" using bytes by metis
  have cpy: "takeWhile (\<lambda>c. c \<noteq> CHR 0x00) (take (unat n) (?s @ [CHR 0x00])) = ?s"
    using n takeWhile_stop [OF ne, of "[CHR 0x00]"] by simp
  obtain okm h1 where m: "malloc h = (okm, h1)" by fastforce
  have mem: "mem_ok h \<longrightarrow> okm \<and> mem_ok h1" using malloc_okD [OF m] by blast
  show ?thesis
  proof (cases "okm")
    case False
    then show ?thesis using m mem sat by (simp add: context_from_string_def)
  next
    case True
    have eq: "context_from_string p (?s @ [CHR 0x00]) n h = (case sepol_context_from_string ?s h1 of
        Inl e \<Rightarrow> Some (Inl FAIL) | Inr (None, h) \<Rightarrow> None
      | Inr (Some ctx_record, h) \<Rightarrow> Some (catch_res FAIL (context_from_record p ctx_record h)))"
      unfolding context_from_string_def if_not_P [OF sat] m Let_def cpy using True by simp
    note rec = context_text_record [OF known, of h1]
    show ?thesis
    proof (cases "sepol_context_from_string ?s h1")
      case (Inl e)
      then show ?thesis using rec mem eq by (auto simp: outcome_def)
    next
      case (Inr r)
      then obtain h2 where r: "r = (Some (printed_record p c), h2)" and m2: "mem_ok h1 \<longrightarrow> mem_ok h2"
        using rec by (cases r) auto
      show ?thesis
        using context_from_printed [OF known ok valid users, of h2] mem m2
        unfolding eq Inr r sum.case prod.case option.case
        by (cases "context_from_record p (printed_record p c) h2") auto
    qed
  qed
qed

section \<open>Properties\<close>

text \<open>
  C40: The buffer of a context. \<open>sprintf\<close> and \<open>mls_sid_to_context\<close> write the names and the range,
  separated by colons. The length that \<open>context_to_string\<close> allocates and reports is the length of that text and
  its final \<open>NUL\<close> exactly when the text of the range is shorter than \<open>2 ^ 31\<close>: the length of
  the range is computed in an \<open>int\<close>, and sign-extended from there on.
\<close>

theorem context_to_string_buffer:
  assumes "context_to_string p c h = Inr ((s, n), h')" "length (mls_sid_to_context p c) < 2 ^ 63"
  shows "(n = of_nat (length s + 1) \<longleftrightarrow> length (mls_sid_to_context p c) < 2 ^ 31) \<and>
    s = user_name p c @ '':'' @ role_name p c @ '':'' @ type_name p c @ mls_sid_to_context p c"
  using context_to_string_text [OF assms(1)] context_text_len_exact [OF assms(2)] by simp

text \<open>
  C39: Round trip of contexts. For a valid context whose names the policy knows and contain no separator, and
  whose levels are printable, \<open>context_from_string\<close> applied to the output of
  \<open>context_to_string\<close> returns, memory permitting, a context of the same user, role and type,
  and of the same levels if the policy has MLS.
\<close>

theorem context_string_roundtrip:
  assumes "names_known p c" "context_is_valid p c" "user_range_wf p c"
    and "mls p \<Longrightarrow> level_ok p (low (crange c)) \<and> level_ok p (high (crange c))"
    and "context_to_string p c h = Inr ((s, n), h')"
    and "CHR 0x00 \<notin> set s" "length s + 2 < 2 ^ 32"
  shows "\<exists>r. context_from_string p (s @ [CHR 0x00]) n h' = Some r \<and>
    outcome h' r (\<lambda>e. e = FAIL \<and> \<not> mem_ok h')
      (\<lambda>c'. context_wf c' \<and> cuser c' = cuser c \<and> crole c' = crole c \<and> ctype c' = ctype c \<and>
        (mls p \<longrightarrow> level_abs (low (crange c')) = level_abs (low (crange c)) \<and>
          level_abs (high (crange c')) = level_abs (high (crange c))))"
proof -
  have s: "s = context_text p c" and n: "n = context_text_len p c" using context_to_string_text [OF assms(5)] by auto
  note len = context_text_len_covers [OF assms(7) [unfolded s]]
  obtain r where r: "context_from_string p (context_text p c @ [CHR 0x00]) n h' = Some r"
    "outcome h' r (\<lambda>e. e = FAIL \<and> \<not> mem_ok h') (same_context (rangeless p c))"
    using context_from_text [OF assms(1,4,2,3) _ conjunct1 [OF len] conjunct2 [OF len]] assms(6)
    unfolding s n by blast
  have "outcome h' r (\<lambda>e. e = FAIL \<and> \<not> mem_ok h')
      (\<lambda>c'. context_wf c' \<and> cuser c' = cuser c \<and> crole c' = crole c \<and> ctype c' = ctype c \<and>
        (mls p \<longrightarrow> level_abs (low (crange c')) = level_abs (low (crange c)) \<and>
          level_abs (high (crange c')) = level_abs (high (crange c))))"
    by (rule outcome_mono [OF r(2)])
      (cases "mls p", auto simp: same_context_def context_abs_def context_wf_def rangeless_def)
  with r(1) show ?thesis unfolding s by blast
qed

text \<open>
  The string \<open><<none>>\<close>. \<open>sepol_context_from_string\<close> answers it with a null record and success, which
  \<open>context_from_string\<close> hands to \<open>context_from_record\<close>, where it is dereferenced: the call
  is undefined whenever memory suffices, and for no other string.
\<close>

theorem context_from_string_none:
  "mem_ok h \<Longrightarrow> context_from_string p con_str n h = None \<longleftrightarrow>
    \<not> zero_or_saturated n \<and> takeWhile (\<lambda>c. c \<noteq> CHR 0x00) (take (unat n) con_str) = ''<<none>>''"
proof -
  assume mem: "mem_ok h"
  obtain h1 where m: "malloc h = (True, h1)" using mem_ok_malloc [OF mem] by (cases "malloc h") auto
  have none: "sepol_context_from_string s h1 = Inr (None, h2) \<Longrightarrow> s = ''<<none>>''" for s h2
    by (auto simp: sepol_context_from_string_def bind_res_def split: sum.splits prod.splits if_splits option.splits)
  show ?thesis
    by (auto simp: context_from_string_def m Let_def none sepol_context_from_string_def [of "''<<none>>''"]
        split: sum.splits option.splits)
qed

section \<open>Witnesses\<close>

lemma sample_mls_text: "mls_sid_to_context sample_policy (sample_context 1) = '':s0''"
  by (simp add: mls_sid_to_context_def sample_context_def level_text_def sample_level_def name_at_def
      sample_policy_def sample_level_walk mls_level_eq_def ebitmap_cmp_correct sample_wf run_end_def)

lemma sample_names: "user_name sample_policy (sample_context 1) = ''u''"
  "role_name sample_policy (sample_context 1) = ''r''" "type_name sample_policy (sample_context 1) = ''a''"
  by (simp_all add: user_name_def role_name_def type_name_def val_name_def sample_policy_def sample_context_def)

lemma sample_printed: "\<exists>n. context_to_string sample_policy (sample_context 1) [] = Inr ((''u:r:a:s0'', n), [])"
  by (simp add: context_to_string_def sample_names sample_mls_text)

lemma context_to_string_buffer_witness:
  "\<exists>n. context_to_string sample_policy (sample_context 1) [] = Inr ((''u:r:a:s0'', n), []) \<and> n = 9"
proof -
  obtain n where n: "context_to_string sample_policy (sample_context 1) [] = Inr ((''u:r:a:s0'', n), [])"
    using sample_printed by blast
  moreover have "n = 9" using context_to_string_buffer [OF n] by (simp add: sample_mls_text)
  ultimately show ?thesis by simp
qed

lemma sample_valid: "context_is_valid sample_policy (sample_context 1)"
  "user_range_wf sample_policy (sample_context 1)" "names_known sample_policy (sample_context 1)"
  "level_ok sample_policy (low (crange (sample_context 1)))" "level_ok sample_policy (high (crange (sample_context 1)))"
proof -
  have l: "level_isvalid sample_policy sample_level"
    by (simp add: level_isvalid_def sample_level_def sample_policy_def one_chain_def val_name_def
        hashtab_search_def symcmp_def ebitmap_positive_bits_def sample_level_walk)
  show "context_is_valid sample_policy (sample_context 1)"
    using l sample_level_dom(2) by (simp add: context_is_valid_def mls_context_isvalid_def sample_context_def OBJECT_R_VAL_def)
      (simp add: sample_policy_def one_chain_def)
  show "user_range_wf sample_policy (sample_context 1)"
    by (simp add: user_range_wf_def sample_context_def sample_policy_def val_struct_def sample_user_def
        range_wf_def level_wf_def sample_level_def sample_wf)
  show "names_known sample_policy (sample_context 1)"
    by (simp add: names_known_def sample_names) (simp add: sample_policy_def one_chain_def hashtab_search_def symcmp_def
        sample_user_def sample_role_def sample_context_def)
  show "level_ok sample_policy (low (crange (sample_context 1)))" "level_ok sample_policy (high (crange (sample_context 1)))"
    using sample_level_ok by (simp_all add: sample_context_def)
qed

lemma outcome_fresh:
  "outcome [] r no_err P \<Longrightarrow> \<exists>x h. r = Inr (x, h) \<and> P x"
  by (cases r) (auto simp: mem_ok_def)

lemma context_string_roundtrip_witness:
  "\<exists>n c' h. context_to_string sample_policy (sample_context 1) [] = Inr ((''u:r:a:s0'', n), []) \<and>
    context_from_string sample_policy (''u:r:a:s0'' @ [CHR 0x00]) n [] = Some (Inr (c', h)) \<and> ctype c' = 1"
proof -
  obtain n where n: "context_to_string sample_policy (sample_context 1) [] = Inr ((''u:r:a:s0'', n), [])"
    using sample_printed by blast
  have "\<exists>r. context_from_string sample_policy (''u:r:a:s0'' @ [CHR 0x00]) n [] = Some r \<and>
    outcome [] r (\<lambda>e. e = FAIL \<and> \<not> mem_ok []) (\<lambda>c'. context_wf c' \<and>
      cuser c' = cuser (sample_context 1) \<and> crole c' = crole (sample_context 1) \<and> ctype c' = ctype (sample_context 1) \<and>
      (mls sample_policy \<longrightarrow> level_abs (low (crange c')) = level_abs (low (crange (sample_context 1))) \<and>
        level_abs (high (crange c')) = level_abs (high (crange (sample_context 1)))))"
    by (rule context_string_roundtrip [OF sample_valid(3,1,2) _ n]) (simp_all add: sample_valid(4,5))
  then show ?thesis using n by (auto dest!: outcome_fresh simp: sample_context_def)
qed

lemma context_from_string_none_witness:
  "context_from_string sample_policy (''<<none>>'' @ [CHR 0x00]) 9 [] = None"
  using context_from_string_none [of "[]" sample_policy "''<<none>>'' @ [CHR 0x00]" 9]
  by (simp add: mem_ok_def zero_or_saturated_def)

end
