(* ===== verification/Services.thy ===== *)
theory Services
  imports Access Context_Text
begin

text \<open>
  The security server (\<open>services.c\<close>): its state, which is the active policy and the active SID table,
  and its requests. Access decisions are in \<open>Access\<close>.

  Every request runs with its own sequence of allocation outcomes. A request that looks up the
  label of an object stores the SID it obtains in the policy (\<open>ocontext_t.sid\<close>), so it returns a new server.
  \<open>selinux_enforcing\<close> is a static variable that is never set, so an invalid context is always refused.
  The recursion through type bounds is limited as in \<open>Access\<close>; \<open>None\<close> stands for a deeper
  computation.
\<close>

unbundle bit_operations_syntax

section \<open>State\<close>

record server =
  spol :: policydb  \<comment> \<open>\<open>*policydb\<close>\<close>
  ssids :: sidtab  \<comment> \<open>\<open>*sidtab\<close>\<close>

definition selinux_enforcing :: int where "selinux_enforcing = 1"

abbreviation SECINITSID_FS :: u32 where "SECINITSID_FS \<equiv> 4"
abbreviation SECINITSID_FILE :: u32 where "SECINITSID_FILE \<equiv> 5"
abbreviation SECINITSID_PORT :: u32 where "SECINITSID_PORT \<equiv> 9"
abbreviation SECINITSID_NETIF :: u32 where "SECINITSID_NETIF \<equiv> 10"
abbreviation SECINITSID_NETMSG :: u32 where "SECINITSID_NETMSG \<equiv> 11"
abbreviation SECINITSID_NODE :: u32 where "SECINITSID_NODE \<equiv> 12"
abbreviation SECURITY_FS_USE_GENFS :: u32 where "SECURITY_FS_USE_GENFS \<equiv> 4"
abbreviation SECURITY_FS_USE_NONE :: u32 where "SECURITY_FS_USE_NONE \<equiv> 5"
abbreviation DEFAULT_SOURCE :: u8 where "DEFAULT_SOURCE \<equiv> 1"
abbreviation DEFAULT_TARGET :: u8 where "DEFAULT_TARGET \<equiv> 2"

section \<open>Names\<close>

definition string_to_security_class :: "server \<Rightarrow> string \<Rightarrow> u16 result" where
  "string_to_security_class s class_name =
     (case hashtab_search (table (p_classes (spol s))) class_name of
        None \<Rightarrow> Inl FAIL
      | Some tclass_datum \<Rightarrow> Inr (ucast (class_value tclass_datum)))"

definition string_to_av_perm :: "server \<Rightarrow> u16 \<Rightarrow> string \<Rightarrow> u32 result" where
  "string_to_av_perm s tcl perm_name =
     (if tcl = 0 \<or> ucast tcl > nprim (p_classes (spol s)) then Inl EINVAL
      else let tclass_datum = the (val_struct (class_val_to_struct (spol s)) (ucast tcl)) in
        case hashtab_search (table (class_permissions tclass_datum)) perm_name of
          Some perm \<Rightarrow> Inr (push_bit (unat (perm_value perm - 1)) 1)
        | None \<Rightarrow> (case comdatum tclass_datum of
            None \<Rightarrow> Inl FAIL
          | Some common \<Rightarrow> (case hashtab_search (table (common_permissions common)) perm_name of
              Some perm \<Rightarrow> Inr (push_bit (unat (perm_value perm - 1)) 1)
            | None \<Rightarrow> Inl FAIL)))"

definition sid_to_context :: "server \<Rightarrow> u32 \<Rightarrow> heap \<Rightarrow> ((string \<times> u64) \<times> heap) result" where
  "sid_to_context s sid h = (case sidtab_search (ssids s) sid of
       None \<Rightarrow> Inl EINVAL
     | Some c \<Rightarrow> context_to_string (spol s) c h)"

text \<open>\<open>want\<close>: the pointer that receives the SID is not null. \<open>None\<close>: undefined behaviour.\<close>

definition context_to_sid ::
  "server \<Rightarrow> string \<Rightarrow> u64 \<Rightarrow> bool \<Rightarrow> heap \<Rightarrow> (u32 option result \<times> server) option" where
  "context_to_sid s scontext scontext_len want h =
     (case context_from_string (spol s) scontext scontext_len h of
        None \<Rightarrow> None
      | Some (Inl _) \<Rightarrow> Some (Inl FAIL, s)
      | Some (Inr (c, h)) \<Rightarrow>
          if \<not> want then Some (Inr None, s)
          else (case sidtab_context_to_sid (ssids s) c h of
              (Inl _, st, _) \<Rightarrow> Some (Inl FAIL, s\<lparr>ssids := st\<rparr>)
            | (Inr sid, st, _) \<Rightarrow> Some (Inr (Some sid), s\<lparr>ssids := st\<rparr>)))"

definition sepol_check_context :: "server \<Rightarrow> string \<Rightarrow> heap \<Rightarrow> (u32 option result \<times> server) option" where
  "sepol_check_context s scontext h =
     context_to_sid s (scontext @ [CHR 0x00]) (of_nat (length scontext) + 1) False h"

section \<open>Labels of new objects\<close>

definition class_of :: "policydb \<Rightarrow> u16 \<Rightarrow> class_datum option" where
  "class_of p tcl = (if tcl \<noteq> 0 \<and> ucast tcl \<le> nprim (p_classes p)
     then val_struct (class_val_to_struct p) (ucast tcl) else None)"

definition new_user :: "class_datum option \<Rightarrow> context_struct \<Rightarrow> context_struct \<Rightarrow> u32 \<Rightarrow> u32" where
  "new_user cladatum sc tc spec =
     (if spec = AVTAB_TRANSITION \<or> spec = AVTAB_CHANGE
      then (case cladatum of
          Some d \<Rightarrow> if default_user d = DEFAULT_TARGET then cuser tc else cuser sc
        | None \<Rightarrow> cuser sc)
      else if spec = AVTAB_MEMBER then cuser tc
      else 0)"

definition default_new_role :: "policydb \<Rightarrow> class_datum option \<Rightarrow> context_struct \<Rightarrow> context_struct \<Rightarrow> u16 \<Rightarrow> u32" where
  "default_new_role p cladatum sc tc tcl =
     (let unset = (if tcl = process_class p then crole sc else OBJECT_R_VAL) in
      case cladatum of
        Some d \<Rightarrow> if default_role d = DEFAULT_SOURCE then crole sc
          else if default_role d = DEFAULT_TARGET then crole tc else unset
      | None \<Rightarrow> unset)"

definition default_new_type :: "policydb \<Rightarrow> class_datum option \<Rightarrow> context_struct \<Rightarrow> context_struct \<Rightarrow> u16 \<Rightarrow> u32" where
  "default_new_type p cladatum sc tc tcl =
     (let unset = (if tcl = process_class p then ctype sc else ctype tc) in
      case cladatum of
        Some d \<Rightarrow> if default_type d = DEFAULT_SOURCE then ctype sc
          else if default_type d = DEFAULT_TARGET then ctype tc else unset
      | None \<Rightarrow> unset)"

text \<open>The type of a type transition, member or change rule: permanent first, then enabled conditional ones.\<close>

definition type_rule :: "policydb \<Rightarrow> context_struct \<Rightarrow> context_struct \<Rightarrow> u16 \<Rightarrow> u32 \<Rightarrow> u32 option" where
  "type_rule p sc tc tcl spec =
     (let avkey = \<lparr>source_type = ucast (ctype sc), target_type = ucast (ctype tc), target_class = tcl,
            specified = ucast spec\<rparr> in
      case avtab_search (te_avtab p) avkey of
        Some avdatum \<Rightarrow> Some (data avdatum)
      | None \<Rightarrow> map_option (\<lambda>n. data (snd n))
          (find (\<lambda>n. specified (fst n) AND AVTAB_ENABLED \<noteq> 0)
            (avtab_node_loop (avtab_search_node (te_cond_avtab p) avkey) spec)))"

definition role_rule :: "policydb \<Rightarrow> context_struct \<Rightarrow> context_struct \<Rightarrow> u16 \<Rightarrow> u32 option" where
  "role_rule p sc tc tcl = map_option new_role
     (find (\<lambda>tr. rtr_role tr = crole sc \<and> rtr_type tr = ctype tc \<and> rtr_tclass tr = ucast tcl) (role_tr p))"

definition new_context :: "policydb \<Rightarrow> context_struct \<Rightarrow> context_struct \<Rightarrow> u16 \<Rightarrow> u32 \<Rightarrow> context_struct" where
  "new_context p sc tc tcl spec =
     (let cladatum = class_of p tcl;
          role = default_new_role p cladatum sc tc tcl;
          type = (case type_rule p sc tc tcl spec of Some t \<Rightarrow> t
            | None \<Rightarrow> default_new_type p cladatum sc tc tcl);
          role = (if spec AND AVTAB_TRANSITION \<noteq> 0
            then (case role_rule p sc tc tcl of Some r \<Rightarrow> r | None \<Rightarrow> role) else role)
      in context_init\<lparr>cuser := new_user cladatum sc tc spec, crole := role, ctype := type\<rparr>)"

definition compute_sid_handle_invalid_context :: "unit result" where
  "compute_sid_handle_invalid_context = (if selinux_enforcing \<noteq> 0 then Inl EACCES else Inr ())"

definition compute_sid ::
  "server \<Rightarrow> u32 \<Rightarrow> u32 \<Rightarrow> u16 \<Rightarrow> u32 \<Rightarrow> heap \<Rightarrow> u32 result \<times> server" where
  "compute_sid s ssid tsid tcl spec h = (case sidtab_search (ssids s) ssid of
       None \<Rightarrow> (Inl EINVAL, s)
     | Some scontext \<Rightarrow> (case sidtab_search (ssids s) tsid of
         None \<Rightarrow> (Inl EINVAL, s)
       | Some tcontext \<Rightarrow>
           (case mls_compute_sid (spol s) scontext tcontext tcl spec
               (new_context (spol s) scontext tcontext tcl spec) h of
              Inl e \<Rightarrow> (Inl e, s)
            | Inr (newcontext, h) \<Rightarrow>
                (case (if context_is_valid (spol s) newcontext then Inr ()
                       else compute_sid_handle_invalid_context) of
                   Inl e \<Rightarrow> (Inl e, s)
                 | Inr _ \<Rightarrow> (case sidtab_context_to_sid (ssids s) newcontext h of
                     (r, st, _) \<Rightarrow> (r, s\<lparr>ssids := st\<rparr>))))))"

definition transition_sid :: "server \<Rightarrow> u32 \<Rightarrow> u32 \<Rightarrow> u16 \<Rightarrow> heap \<Rightarrow> u32 result \<times> server" where
  "transition_sid s ssid tsid tcl h = compute_sid s ssid tsid tcl AVTAB_TRANSITION h"

definition member_sid :: "server \<Rightarrow> u32 \<Rightarrow> u32 \<Rightarrow> u16 \<Rightarrow> heap \<Rightarrow> u32 result \<times> server" where
  "member_sid s ssid tsid tcl h = compute_sid s ssid tsid tcl AVTAB_MEMBER h"

definition change_sid :: "server \<Rightarrow> u32 \<Rightarrow> u32 \<Rightarrow> u16 \<Rightarrow> heap \<Rightarrow> u32 result \<times> server" where
  "change_sid s ssid tsid tcl h = compute_sid s ssid tsid tcl AVTAB_CHANGE h"

section \<open>Contexts a user can reach\<close>

definition latest_granting :: u32 where "latest_granting = 0"

abbreviation SIDS_NEL :: nat where "SIDS_NEL \<equiv> 25"

text \<open>
  The loop of \<open>sepol_get_user_sids\<close>: the status of the last access decision, the array of SIDs with
  its capacity, the SID table and the heap. An iteration ends the loop with an error (\<open>Inl\<close>) or
  gives the next state. \<open>usercon\<close> is the local variable, whose range is not initialised
  by the code; it is an argument.
\<close>

record user_sids =
  rc :: "errcode option"
  mysids :: "u32 list"
  maxnel :: nat
  us_sids :: sidtab
  us_heap :: heap

definition user_sid ::
  "nat \<Rightarrow> policydb \<Rightarrow> context_struct \<Rightarrow> user_datum \<Rightarrow> context_struct \<Rightarrow> user_sids \<Rightarrow>
     (errcode \<times> sidtab + user_sids) option" where
  "user_sid n p fromcon user usercon u =
     (if ctype usercon = ctype fromcon then Some (Inr u)
      else case mls_setup_user_range fromcon user usercon (mls p) of
        Inl _ \<Rightarrow> Some (Inr u)
      | Inr usercon \<Rightarrow>
          (case context_struct_compute_av n p latest_granting fromcon usercon (process_class p) (process_trans p)
               (us_heap u) of
             None \<Rightarrow> None
           | Some (Inl e, h) \<Rightarrow> Some (Inr (u\<lparr>rc := Some e, us_heap := h\<rparr>))
           | Some (Inr (avd, reason), h) \<Rightarrow>
               if allowed avd AND process_trans p = 0 then Some (Inr (u\<lparr>rc := None, us_heap := h\<rparr>))
               else (case sidtab_context_to_sid (us_sids u) usercon h of
                   (Inl e, st, h) \<Rightarrow> Some (Inl (e, st))
                 | (Inr sid, st, h) \<Rightarrow>
                     if length (mysids u) < maxnel u
                     then Some (Inr \<lparr>rc = None, mysids = mysids u @ [sid], maxnel = maxnel u, us_sids = st, us_heap = h\<rparr>)
                     else (case malloc h of (ok, h) \<Rightarrow>
                       if \<not> ok then Some (Inl (ENOMEM, st))
                       else Some (Inr \<lparr>rc = None, mysids = mysids u @ [sid], maxnel = maxnel u + SIDS_NEL,
                         us_sids = st, us_heap = h\<rparr>)))))"

fun user_types ::
  "nat \<Rightarrow> policydb \<Rightarrow> context_struct \<Rightarrow> user_datum \<Rightarrow> context_struct \<Rightarrow> u32 list \<Rightarrow> user_sids \<Rightarrow>
     (errcode \<times> sidtab + user_sids) option" where
  "user_types n p fromcon user usercon [] u = Some (Inr u)"
| "user_types n p fromcon user usercon (j # js) u =
     (case user_sid n p fromcon user (usercon\<lparr>ctype := j + 1\<rparr>) u of
        Some (Inr u) \<Rightarrow> user_types n p fromcon user usercon js u
      | r \<Rightarrow> r)"

fun user_roles_loop ::
  "nat \<Rightarrow> policydb \<Rightarrow> context_struct \<Rightarrow> user_datum \<Rightarrow> context_struct \<Rightarrow> u32 list \<Rightarrow> user_sids \<Rightarrow>
     (errcode \<times> sidtab + user_sids) option" where
  "user_roles_loop n p fromcon user usercon [] u = Some (Inr u)"
| "user_roles_loop n p fromcon user usercon (i # is) u =
     (let role = the (role_val_to_struct p ! unat i) in
      case user_types n p fromcon user (usercon\<lparr>crole := i + 1\<rparr>) (ebitmap_positive_bits (role_types role)) u of
        Some (Inr u) \<Rightarrow> user_roles_loop n p fromcon user usercon is u
      | r \<Rightarrow> r)"

text \<open>
  The result: the status, and the array handed to the caller, which it gets even with the error status of
  the last decision.
\<close>

definition get_user_sids ::
  "nat \<Rightarrow> server \<Rightarrow> u32 \<Rightarrow> string \<Rightarrow> context_struct \<Rightarrow> heap \<Rightarrow>
     ((errcode option \<times> u32 list option) \<times> server) option" where
  "get_user_sids n s fromsid username usercon h = (case sidtab_search (ssids s) fromsid of
       None \<Rightarrow> Some ((Some EINVAL, None), s)
     | Some fromcon \<Rightarrow> (case hashtab_search (table (p_users (spol s))) username of
         None \<Rightarrow> Some ((Some EINVAL, None), s)
       | Some user \<Rightarrow> (case malloc h of (ok, h) \<Rightarrow>
           if \<not> ok then Some ((Some ENOMEM, None), s)
           else (case user_roles_loop n (spol s) fromcon user (usercon\<lparr>cuser := user_value user\<rparr>)
               (ebitmap_positive_bits (user_roles user))
               \<lparr>rc = None, mysids = [], maxnel = SIDS_NEL, us_sids = ssids s, us_heap = h\<rparr> of
             None \<Rightarrow> None
           | Some (Inl (e, st)) \<Rightarrow> Some ((Some e, None), s\<lparr>ssids := st\<rparr>)
           | Some (Inr u) \<Rightarrow> Some ((rc u, Some (mysids u)), s\<lparr>ssids := us_sids u\<rparr>)))))"

section \<open>What requests keep of the SID table\<close>

text \<open>Every context of the table has a valid range; \<open>labelled st sid c\<close>: \<open>sid\<close> stands for \<open>c\<close>.\<close>

definition sids_ok :: "sidtab \<Rightarrow> bool" where
  "sids_ok st \<longleftrightarrow> sidtab_wf st \<and> (\<forall>sid c. sidtab_abs st sid = Some c \<longrightarrow> valid_range (crange c))"

definition sids_kept :: "sidtab \<Rightarrow> sidtab \<Rightarrow> bool" where
  "sids_kept st st' \<longleftrightarrow> (\<forall>sid c. sidtab_abs st sid = Some c \<longrightarrow> sidtab_abs st' sid = Some c)"

definition labelled :: "sidtab \<Rightarrow> u32 \<Rightarrow> context_struct \<Rightarrow> bool" where
  "labelled st sid c \<longleftrightarrow> (\<exists>c'. sidtab_abs st sid = Some c' \<and> context_abs c' = context_abs c)"

lemma sids_kept_refl [simp]: "sids_kept st st"
  by (simp add: sids_kept_def)

lemma sids_kept_trans: "sids_kept a b \<Longrightarrow> sids_kept b c \<Longrightarrow> sids_kept a c"
  by (simp add: sids_kept_def)

lemma labelled_kept: "labelled st sid c \<Longrightarrow> sids_kept st st' \<Longrightarrow> labelled st' sid c"
  by (auto simp: labelled_def sids_kept_def)

lemma valid_range_wf: "valid_range (crange c) \<Longrightarrow> context_wf c"
  by (simp add: valid_range_def context_wf_def)

lemma labelled_search:
  assumes "sids_ok st" "labelled st sid c"
  obtains c' where "sidtab_search st sid = Some c'" "context_abs c' = context_abs c" "valid_range (crange c')"
  using assms by (auto simp: labelled_def sids_ok_def sidtab_search_abs)

lemma sids_ok_search: "sids_ok st \<Longrightarrow> sidtab_search st sid = Some c \<Longrightarrow> valid_range (crange c)"
  by (auto simp: sids_ok_def sidtab_search_abs split: option.splits)

text \<open>The allocation of a SID for a context with a valid range.\<close>

lemma alloc_sid:
  assumes "sids_ok st" "valid_range (crange c)" "sidtab_context_to_sid st c h = (r, st', h')"
  shows "sids_ok st' \<and> sids_kept st st' \<and>
    (case r of Inr sid \<Rightarrow> sid \<noteq> 0 \<and> labelled st' sid c
     | Inl e \<Rightarrow> e = ENOMEM \<and> st' = st \<and> (next_sid st = - 1 \<or> shutdown st \<or> \<not> mem_ok h))"
proof -
  have a: "sid_allocated st c h r st'"
    using context_to_sid_correct [OF _ valid_range_wf [OF assms(2)] assms(3)] assms(1) by (simp add: sids_ok_def)
  have "valid_range (crange d)" if "sidtab_abs st' sid = Some d" for sid d
    using a assms(1,2) that unfolding sid_allocated_def sids_ok_def by metis
  then show ?thesis
    using a by (auto simp: sid_allocated_def sids_ok_def sids_kept_def labelled_def split: sum.splits)
qed

lemma context_to_sid_mem:
  assumes "sidtab_context_to_sid st c h = (r, st', h')"
  shows "mem_ok h \<longrightarrow> mem_ok h'"
proof -
  have ins: "mem_ok h \<longrightarrow> mem_ok h1" if "sidtab_insert s sid c h = (r1, s1, h1)" for s sid r1 s1 h1
  proof -
    obtain ok h0 where m: "malloc h = (ok, h0)" by (cases "malloc h")
    have "mem_ok h0 \<Longrightarrow> \<exists>h2. context_cpy c h0 = Inr (c, h2) \<and> mem_ok h2"
      using context_cpy_correct [of h0 c] by (cases "context_cpy c h0") auto
    then show ?thesis
      using that malloc_okD [OF m]
      by (auto simp: sidtab_insert_def m Let_def split: option.splits prod.splits if_splits sum.splits)
  qed
  show ?thesis
  proof (cases "sidtab_search_context st c \<noteq> 0 \<or> next_sid st = - 1 \<or> shutdown st")
    case True
    then show ?thesis using assms by (auto simp: sidtab_context_to_sid_def Let_def split: if_splits)
  next
    case False
    then show ?thesis
      using assms ins by (auto simp: sidtab_context_to_sid_def Let_def split: prod.splits sum.splits)
  qed
qed

section \<open>The context of a new object\<close>

text \<open>What the server relies on of the ranges in a policy.\<close>

definition policy_ok :: "policydb \<Rightarrow> bool" where
  "policy_ok p \<longleftrightarrow>
     (\<forall>rtr r. hashtab_search (range_tr p) rtr = Some r \<longrightarrow> valid_range r) \<and>
     (\<forall>v u. v \<noteq> 0 \<and> v \<le> nprim (p_users p) \<and> val_struct (user_val_to_struct p) v = Some u \<longrightarrow>
       range_wf (exp_range u)) \<and>
     (\<forall>name u. hashtab_search (table (p_users p)) name = Some u \<longrightarrow>
       range_wf (exp_range u) \<and> level_wf (exp_dfltlevel u) \<and>
       mls_level_between (exp_dfltlevel u) (low (exp_range u)) (high (exp_range u)))"

definition range_abs :: "mls_range \<Rightarrow> (nat \<times> nat set) \<times> (nat \<times> nat set)" where
  "range_abs r = (level_abs (low r), level_abs (high r))"

lemma stored_context_valid:
  assumes "policy_ok p" "context_is_valid p c" "context_wf c" "context_wf c'" "context_abs c' = context_abs c"
  shows "context_is_valid p c'"
proof -
  have "cuser c \<noteq> 0 \<and> cuser c \<le> nprim (p_users p)"
    using assms(2) by (auto simp: context_is_valid_def split: if_splits)
  then have ur: "user_range_wf p c" using assms(1) unfolding policy_ok_def user_range_wf_def by blast
  have "same_context c c'" using assms(3-5) by (simp add: same_context_def context_wf_def)
  then show ?thesis by (rule context_is_valid_abs [OF _ ur assms(2)])
qed

text \<open>The range that the MLS rules prescribe for the new context \<open>c\<close>.\<close>

definition new_range_ok ::
  "policydb \<Rightarrow> context_struct \<Rightarrow> context_struct \<Rightarrow> u16 \<Rightarrow> u32 \<Rightarrow> context_struct \<Rightarrow> bool" where
  "new_range_ok p sc tc tcl spec c \<longleftrightarrow> valid_range (crange c) \<and>
     (\<not> mls p \<longrightarrow> range_abs (crange c) = range_abs mls_range_init) \<and>
     (\<forall>r. mls p \<and> spec = AVTAB_TRANSITION \<and> hashtab_search (range_tr p)
         \<lparr>rt_source_type = ctype sc, rt_target_type = ctype tc, rt_target_class = ucast tcl\<rparr> = Some r \<longrightarrow>
       range_abs (crange c) = range_abs r) \<and>
     (mls p \<and> spec = AVTAB_MEMBER \<longrightarrow> range_abs (crange c) = (level_abs (low (crange sc)), level_abs (low (crange sc)))) \<and>
     (mls p \<and> spec = AVTAB_CHANGE \<longrightarrow> range_abs (crange c) =
       (if tcl = process_class p then range_abs (crange sc)
        else (level_abs (low (crange sc)), level_abs (low (crange sc)))))"

lemma new_range_ok_abs:
  "new_range_ok p sc tc tcl spec c \<Longrightarrow> valid_range (crange c') \<Longrightarrow> context_abs c' = context_abs c \<Longrightarrow>
    new_range_ok p sc tc tcl spec c'"
  by (simp add: new_range_ok_def range_abs_def context_abs_def)

lemma new_context_range: "crange (new_context p sc tc tcl spec) = mls_range_init"
  by (simp add: new_context_def Let_def context_init_def)

lemma init_range_valid: "valid_range mls_range_init"
  using context_init_wf by (simp add: valid_range_def context_wf_def context_init_def range_wf_def mls_range_init_def lvl.dom_refl)

lemma mls_compute_sid_new:
  assumes "policy_ok p" "valid_range (crange sc)" "valid_range (crange tc)"
    and run: "mls_compute_sid p sc tc tcl spec (new_context p sc tc tcl spec) h = Inr (c, h')"
  shows "new_range_ok p sc tc tcl spec c \<and> c = (new_context p sc tc tcl spec)\<lparr>crange := crange c\<rparr>"
proof (cases "mls p")
  case False
  then have "c = new_context p sc tc tcl spec" using run by (simp add: mls_compute_sid_def)
  then show ?thesis using False init_range_valid by (simp add: new_range_ok_def new_context_range)
next
  case True
  have rules: "hashtab_search (range_tr p) rtr = Some r \<Longrightarrow> valid_range r" for rtr r
    using assms(1) by (simp add: policy_ok_def)
  note R = outcome_partial [OF mls_compute_sid_range [OF True assms(2,3) rules] run]
  then have "valid_range (crange c)" "c = (new_context p sc tc tcl spec)\<lparr>crange := crange c\<rparr>"
    by (simp_all add: ranged_def)
  with R True show ?thesis by (auto simp: new_range_ok_def range_abs_def)
qed

lemma compute_sid_known:
  assumes "sidtab_search (ssids s) ssid = Some sc" "sidtab_search (ssids s) tsid = Some tc"
  shows "compute_sid s ssid tsid tcl spec h =
    (case mls_compute_sid (spol s) sc tc tcl spec (new_context (spol s) sc tc tcl spec) h of
       Inl e \<Rightarrow> (Inl e, s)
     | Inr (nc, h) \<Rightarrow> if context_is_valid (spol s) nc
         then (case sidtab_context_to_sid (ssids s) nc h of (r, st, _) \<Rightarrow> (r, s\<lparr>ssids := st\<rparr>))
         else (Inl EACCES, s))"
  using assms by (simp add: compute_sid_def compute_sid_handle_invalid_context_def selinux_enforcing_def
      split: sum.split prod.split)

lemma compute_sid_unknown:
  "sidtab_search (ssids s) ssid = None \<or> sidtab_search (ssids s) tsid = None \<Longrightarrow>
    compute_sid s ssid tsid tcl spec h = (Inl EINVAL, s)"
  by (auto simp: compute_sid_def split: option.split)

lemma compute_sid_context:
  assumes ok: "sids_ok (ssids s)" "policy_ok (spol s)"
    and run: "compute_sid s ssid tsid tcl spec h = (r, s')"
  shows "spol s' = spol s \<and> sids_ok (ssids s') \<and> sids_kept (ssids s) (ssids s') \<and>
    (case r of
       Inl e \<Rightarrow> s' = s
     | Inr sid \<Rightarrow> \<exists>sc tc c. sidtab_search (ssids s) ssid = Some sc \<and> sidtab_search (ssids s) tsid = Some tc \<and>
         sidtab_search (ssids s') sid = Some c \<and> context_is_valid (spol s) c \<and>
         cuser c = cuser (new_context (spol s) sc tc tcl spec) \<and>
         crole c = crole (new_context (spol s) sc tc tcl spec) \<and>
         ctype c = ctype (new_context (spol s) sc tc tcl spec) \<and>
         new_range_ok (spol s) sc tc tcl spec c)"
proof -
  let ?p = "spol s" and ?st = "ssids s"
  have "r = Inl EINVAL \<and> s' = s" if "sidtab_search ?st ssid = None \<or> sidtab_search ?st tsid = None"
    using compute_sid_unknown [OF that, of tcl spec h] run by simp
  moreover have "(\<exists>e. r = Inl e \<and> s' = s) \<or> (\<exists>nc h1 st h2.
        mls_compute_sid ?p sc tc tcl spec (new_context ?p sc tc tcl spec) h = Inr (nc, h1) \<and>
        context_is_valid ?p nc \<and> sidtab_context_to_sid ?st nc h1 = (r, st, h2) \<and> s' = s\<lparr>ssids := st\<rparr>)"
    if known: "sidtab_search ?st ssid = Some sc" "sidtab_search ?st tsid = Some tc" for sc tc
  proof (cases "mls_compute_sid ?p sc tc tcl spec (new_context ?p sc tc tcl spec) h")
    case (Inl e)
    then show ?thesis using run unfolding compute_sid_known [OF known] by auto
  next
    case (Inr x)
    obtain nc h1 where x: "x = (nc, h1)" by (cases x)
    obtain r1 st h2 where a: "sidtab_context_to_sid ?st nc h1 = (r1, st, h2)"
      by (cases "sidtab_context_to_sid ?st nc h1") auto
    show ?thesis
      using run a unfolding compute_sid_known [OF known] Inr x sum.case prod.case
      by (cases "context_is_valid ?p nc") auto
  qed
  ultimately consider (fail) e where "r = Inl e" "s' = s"
    | (ok) sc tc nc h1 st h2 where "sidtab_search ?st ssid = Some sc" "sidtab_search ?st tsid = Some tc"
        "mls_compute_sid ?p sc tc tcl spec (new_context ?p sc tc tcl spec) h = Inr (nc, h1)"
        "context_is_valid ?p nc" "sidtab_context_to_sid ?st nc h1 = (r, st, h2)" "s' = s\<lparr>ssids := st\<rparr>"
    by (metis not_None_eq)
  then show ?thesis
  proof cases
    case fail
    with ok show ?thesis by simp
  next
    case (ok sc tc nc h1 st h2)
    have v: "valid_range (crange sc)" "valid_range (crange tc)"
      using ok(1,2) sids_ok_search assms(1) by blast+
    have nr: "new_range_ok ?p sc tc tcl spec nc" "nc = (new_context ?p sc tc tcl spec)\<lparr>crange := crange nc\<rparr>"
      using mls_compute_sid_new [OF assms(2) v ok(3)] by blast+
    have same: "cuser nc = cuser (new_context ?p sc tc tcl spec)" "crole nc = crole (new_context ?p sc tc tcl spec)"
      "ctype nc = ctype (new_context ?p sc tc tcl spec)" by (subst nr(2), simp)+
    have vn: "valid_range (crange nc)" using nr(1) by (simp add: new_range_ok_def)
    note A = alloc_sid [OF assms(1) vn ok(5)]
    show ?thesis
    proof (cases r)
      case (Inl e)
      with A assms(1) show ?thesis by (simp add: ok(6))
    next
      case (Inr sid)
      then have l: "sids_ok st" "labelled st sid nc" using A by simp_all
      obtain c where c: "sidtab_search st sid = Some c" "context_abs c = context_abs nc" "valid_range (crange c)"
        using labelled_search [OF l] .
      have "context_is_valid ?p c"
        by (rule stored_context_valid [OF assms(2) ok(4) valid_range_wf [OF vn] valid_range_wf [OF c(3)] c(2)])
      moreover have "new_range_ok ?p sc tc tcl spec c" by (rule new_range_ok_abs [OF nr(1) c(3,2)])
      moreover have "cuser c = cuser nc" "crole c = crole nc" "ctype c = ctype nc"
        using c(2) by (simp_all add: context_abs_def)
      ultimately show ?thesis using A Inr ok(1,2,6) c(1) same by auto
    qed
  qed
qed

section \<open>The contexts a user can reach\<close>

text \<open>
  The specification: a process in \<open>fromcon\<close> may make the transition to a context of the user. Without
  enough memory the constraints may go unchecked and the decision only follows the rules (see \<open>Access\<close>).
\<close>

definition may_enter :: "policydb \<Rightarrow> context_struct \<Rightarrow> context_struct \<Rightarrow> bool" where
  "may_enter p fromcon c \<longleftrightarrow> (\<exists>b. bit (process_trans p) b \<and> permitted p (process_class p) b fromcon c)"

definition rules_enter :: "policydb \<Rightarrow> context_struct \<Rightarrow> context_struct \<Rightarrow> bool" where
  "rules_enter p fromcon c \<longleftrightarrow> (\<exists>b. bit (process_trans p) b \<and> rule_permission p fromcon c (process_class p) b)"

text \<open>The contexts of the user whose entry \<open>enter\<close> allows.\<close>

definition type_candidate ::
  "(context_struct \<Rightarrow> bool) \<Rightarrow> policydb \<Rightarrow> context_struct \<Rightarrow> user_datum \<Rightarrow> context_struct \<Rightarrow>
     context_struct \<Rightarrow> bool" where
  "type_candidate enter p fromcon user usercon c \<longleftrightarrow> ctype usercon \<noteq> ctype fromcon \<and>
     mls_setup_user_range fromcon user usercon (mls p) = Inr c \<and> enter c"

definition role_candidate ::
  "(context_struct \<Rightarrow> bool) \<Rightarrow> policydb \<Rightarrow> context_struct \<Rightarrow> user_datum \<Rightarrow> context_struct \<Rightarrow> u32 list \<Rightarrow>
     context_struct \<Rightarrow> bool" where
  "role_candidate enter p fromcon user usercon js c \<longleftrightarrow>
     (\<exists>j \<in> set js. type_candidate enter p fromcon user (usercon\<lparr>ctype := j + 1\<rparr>) c)"

definition user_candidate ::
  "(context_struct \<Rightarrow> bool) \<Rightarrow> policydb \<Rightarrow> context_struct \<Rightarrow> user_datum \<Rightarrow> context_struct \<Rightarrow> u32 list \<Rightarrow>
     context_struct \<Rightarrow> bool" where
  "user_candidate enter p fromcon user usercon is c \<longleftrightarrow>
     (\<exists>i \<in> set is. role_candidate enter p fromcon user (usercon\<lparr>crole := i + 1\<rparr>)
       (ebitmap_positive_bits (role_types (the (role_val_to_struct p ! unat i)))) c)"

text \<open>
  The state \<open>u'\<close> has the SIDs of \<open>u\<close>, those of the contexts in \<open>C\<close>, and no others than those of contexts
  in \<open>D\<close>.
\<close>

definition collects ::
  "(context_struct \<Rightarrow> bool) \<Rightarrow> (context_struct \<Rightarrow> bool) \<Rightarrow> user_sids \<Rightarrow> user_sids \<Rightarrow> bool" where
  "collects C D u u' \<longleftrightarrow> sids_ok (us_sids u') \<and> sids_kept (us_sids u) (us_sids u') \<and>
     (rc u = None \<longrightarrow> rc u' = None) \<and> (mem_ok (us_heap u) \<longrightarrow> mem_ok (us_heap u')) \<and>
     (\<exists>new. mysids u' = mysids u @ new \<and>
       (\<forall>c. C c \<longrightarrow> (\<exists>sid \<in> set new. labelled (us_sids u') sid c)) \<and>
       (\<forall>sid \<in> set new. \<exists>c. D c \<and> labelled (us_sids u') sid c))"

lemma collects_none: "sids_ok (us_sids u) \<Longrightarrow> \<forall>c. \<not> C c \<Longrightarrow> collects C D u u"
  by (simp add: collects_def)

lemma collects_append:
  assumes "collects C C' u u1" "collects D D' u1 u2"
  shows "collects (\<lambda>c. C c \<or> D c) (\<lambda>c. C' c \<or> D' c) u u2"
proof -
  obtain xs ys where new: "mysids u1 = mysids u @ xs" "mysids u2 = mysids u1 @ ys"
    and xs: "\<forall>c. C c \<longrightarrow> (\<exists>sid \<in> set xs. labelled (us_sids u1) sid c)"
      "\<forall>sid \<in> set xs. \<exists>c. C' c \<and> labelled (us_sids u1) sid c"
    and ys: "\<forall>c. D c \<longrightarrow> (\<exists>sid \<in> set ys. labelled (us_sids u2) sid c)"
      "\<forall>sid \<in> set ys. \<exists>c. D' c \<and> labelled (us_sids u2) sid c"
    using assms unfolding collects_def by blast
  have kept: "sids_kept (us_sids u1) (us_sids u2)" "sids_kept (us_sids u) (us_sids u2)"
    using assms sids_kept_trans unfolding collects_def by blast+
  have "\<exists>sid \<in> set (xs @ ys). labelled (us_sids u2) sid c" if "C c \<or> D c" for c
    using that xs(1) ys(1) labelled_kept [OF _ kept(1)] by (metis Un_iff set_append)
  moreover have "\<exists>c. (C' c \<or> D' c) \<and> labelled (us_sids u2) sid c" if "sid \<in> set (xs @ ys)" for sid
    using that xs(2) ys(2) labelled_kept [OF _ kept(1)] by (metis Un_iff set_append)
  ultimately show ?thesis
    using assms new kept(2) unfolding collects_def by (intro conjI exI [of _ "xs @ ys"]) auto
qed

definition collects_result ::
  "(context_struct \<Rightarrow> bool) \<Rightarrow> (context_struct \<Rightarrow> bool) \<Rightarrow> user_sids \<Rightarrow> errcode \<times> sidtab + user_sids \<Rightarrow> bool" where
  "collects_result C D u r \<longleftrightarrow> (case r of
       Inr u' \<Rightarrow> collects C D u u'
     | Inl (e, st) \<Rightarrow> sids_ok st \<and> sids_kept (us_sids u) st)"

lemma collects_cong:
  "collects C D u u' \<Longrightarrow> (\<And>c. C c \<longleftrightarrow> C' c) \<Longrightarrow> (\<And>c. D c \<longleftrightarrow> D' c) \<Longrightarrow> collects C' D' u u'"
  by (simp add: collects_def)

text \<open>The tables of the rules are well formed and the policy knows the class of processes.\<close>

definition av_ready :: "policydb \<Rightarrow> bool" where
  "av_ready p \<longleftrightarrow> avtab_wf (te_avtab p) \<and> avtab_wf (te_cond_avtab p) \<and>
     \<not> (process_class p = 0 \<or> ucast (process_class p) > nprim (p_classes p))"

text \<open>\<open>m\<close>: no allocation fails.\<close>

definition enters :: "bool \<Rightarrow> policydb \<Rightarrow> context_struct \<Rightarrow> context_struct \<Rightarrow> bool" where
  "enters m p fromcon c \<longleftrightarrow> (if m then may_enter p fromcon c else rules_enter p fromcon c)"

lemma enter_decision:
  assumes "av_ready p" "m \<longrightarrow> mem_ok h"
    and "context_struct_compute_av n p latest_granting fromcon c (process_class p) (process_trans p) h = Some (r, h')"
  shows "\<exists>avd reason. r = Inr (avd, reason) \<and>
    (may_enter p fromcon c \<longrightarrow> allowed avd AND process_trans p \<noteq> 0) \<and>
    (allowed avd AND process_trans p \<noteq> 0 \<longrightarrow> enters m p fromcon c) \<and> (mem_ok h \<longrightarrow> mem_ok h')"
proof -
  obtain avd reason where r: "r = Inr (avd, reason)"
    "allows h h' (\<lambda>b. permitted p (process_class p) b fromcon c) (rule_permission p fromcon c (process_class p)) (allowed avd)"
    using compute_av_spec [OF _ _ _ assms(3)] assms(1) unfolding av_ready_def by blast
  have "allowed avd AND process_trans p = 0 \<longleftrightarrow> (\<forall>b. \<not> (bit (allowed avd) b \<and> bit (process_trans p) b))"
    using bit_imp_le_length [of "allowed avd"] by (auto simp: bit_eq_iff bit_and_iff)
  with r assms(2) show ?thesis by (auto simp: may_enter_def rules_enter_def enters_def allows_def)
qed

definition user_ranged :: "policydb \<Rightarrow> context_struct \<Rightarrow> user_datum \<Rightarrow> context_struct \<Rightarrow> bool" where
  "user_ranged p fromcon user usercon \<longleftrightarrow> valid_range (crange fromcon) \<and> range_wf (exp_range user) \<and>
     level_wf (exp_dfltlevel user) \<and>
     mls_level_between (exp_dfltlevel user) (low (exp_range user)) (high (exp_range user)) \<and>
     (mls p \<or> valid_range (crange usercon))"

lemma user_range_chosen:
  assumes "user_ranged p fromcon user usercon" "mls_setup_user_range fromcon user usercon (mls p) = Inr c"
  shows "valid_range (crange c)"
proof (cases "mls p")
  case True
  show ?thesis
    using user_range_valid [of fromcon user usercon c] assms True by (simp add: user_ranged_def)
next
  case False
  then show ?thesis using assms by (simp add: user_ranged_def mls_setup_user_range_def)
qed

lemma user_sid_collects:
  assumes ready: "av_ready p" and ranged: "user_ranged p fromcon user usercon" and ok: "sids_ok (us_sids u)"
    and m: "m \<longrightarrow> mem_ok (us_heap u)" and run: "user_sid n p fromcon user usercon u = Some r"
  shows "collects_result (type_candidate (may_enter p fromcon) p fromcon user usercon)
    (type_candidate (enters m p fromcon) p fromcon user usercon) u r"
proof (cases "ctype usercon = ctype fromcon")
  case True
  then show ?thesis using run collects_none [OF ok] by (auto simp: user_sid_def type_candidate_def collects_result_def)
next
  case other: False
  show ?thesis
  proof (cases "mls_setup_user_range fromcon user usercon (mls p)")
    case (Inl e)
    then show ?thesis using run other collects_none [OF ok] by (auto simp: user_sid_def type_candidate_def collects_result_def)
  next
    case (Inr c)
    have vc: "valid_range (crange c)" by (rule user_range_chosen [OF ranged Inr])
    have cand: "type_candidate E p fromcon user usercon d \<longleftrightarrow> d = c \<and> E c" for d E
      using other Inr by (auto simp: type_candidate_def)
    obtain rr h1 where av: "context_struct_compute_av n p latest_granting fromcon c (process_class p) (process_trans p)
        (us_heap u) = Some (rr, h1)"
      using run other Inr by (auto simp: user_sid_def split: option.splits)
    obtain avd reason where rr: "rr = Inr (avd, reason)"
      and enter: "may_enter p fromcon c \<longrightarrow> allowed avd AND process_trans p \<noteq> 0"
        "allowed avd AND process_trans p \<noteq> 0 \<longrightarrow> enters m p fromcon c" and m1: "mem_ok (us_heap u) \<longrightarrow> mem_ok h1"
      using enter_decision [OF ready m av] by blast
    obtain q st h' where alloc: "sidtab_context_to_sid (us_sids u) c h1 = (q, st, h')"
      by (cases "sidtab_context_to_sid (us_sids u) c h1") auto
    note A = alloc_sid [OF ok vc alloc] and m2 = context_to_sid_mem [OF alloc]
    note eqs = other Inr av rr alloc
    show ?thesis
    proof (cases "allowed avd AND process_trans p = 0")
      case True
      then have "r = Inr (u\<lparr>rc := None, us_heap := h1\<rparr>)" using run by (simp add: user_sid_def eqs)
      then show ?thesis using ok True enter m1 by (auto simp: collects_result_def collects_def cand)
    next
      case False
      show ?thesis
      proof (cases q)
        case (Inl e)
        then have "r = Inl (e, st)" using run False by (simp add: user_sid_def eqs)
        then show ?thesis using A by (auto simp: collects_result_def)
      next
        case (Inr sid)
        obtain ok2 h2 where m3: "malloc h' = (ok2, h2)" by (cases "malloc h'")
        have "r = Inl (ENOMEM, st) \<or> (\<exists>u'. r = Inr u' \<and> rc u' = None \<and> mysids u' = mysids u @ [sid] \<and> us_sids u' = st \<and>
            (mem_ok h' \<longrightarrow> mem_ok (us_heap u')))"
          using run False malloc_okD [OF m3] by (auto simp: user_sid_def eqs Inr m3 split: if_splits)
        then show ?thesis
          using A Inr False enter m1 m2 by (auto simp: collects_result_def collects_def cand)
      qed
    qed
  qed
qed

lemma collects_seq:
  assumes "collects_result C C' u r1"
    and "\<And>x. r1 = Inl x \<Longrightarrow> r = Inl x"
    and "\<And>u1. r1 = Inr u1 \<Longrightarrow> sids_ok (us_sids u1) \<Longrightarrow> (mem_ok (us_heap u) \<longrightarrow> mem_ok (us_heap u1)) \<Longrightarrow>
      collects_result D D' u1 r"
    and "\<And>c. C c \<or> D c \<longleftrightarrow> E c" and "\<And>c. C' c \<or> D' c \<longleftrightarrow> E' c"
  shows "collects_result E E' u r"
proof (cases r1)
  case (Inl x)
  then show ?thesis using assms(1,2) by (simp add: collects_result_def)
next
  case (Inr u1)
  then have c1: "collects C C' u u1" using assms(1) by (simp add: collects_result_def)
  then have ok1: "sids_ok (us_sids u1)" and kept: "sids_kept (us_sids u) (us_sids u1)"
    and m1: "mem_ok (us_heap u) \<longrightarrow> mem_ok (us_heap u1)" by (simp_all add: collects_def)
  note rest = assms(3) [OF Inr ok1 m1]
  show ?thesis
  proof (cases r)
    case (Inl x)
    then show ?thesis using rest kept sids_kept_trans by (auto simp: collects_result_def)
  next
    case (Inr u2)
    then have "collects D D' u1 u2" using rest by (simp add: collects_result_def)
    from collects_append [OF c1 this] show ?thesis
      by (auto simp: Inr collects_result_def assms(4,5) elim!: collects_cong)
  qed
qed

lemma user_types_collects:
  assumes ready: "av_ready p" and ranged: "user_ranged p fromcon user usercon"
  shows "sids_ok (us_sids u) \<Longrightarrow> (m \<longrightarrow> mem_ok (us_heap u)) \<Longrightarrow>
    user_types n p fromcon user usercon js u = Some r \<Longrightarrow>
    collects_result (role_candidate (may_enter p fromcon) p fromcon user usercon js)
      (role_candidate (enters m p fromcon) p fromcon user usercon js) u r"
proof (induction js arbitrary: u)
  case Nil
  then show ?case
    using collects_none [of u "\<lambda>c. False"] by (auto simp: role_candidate_def collects_result_def)
next
  case (Cons j js)
  have ranged': "user_ranged p fromcon user (usercon\<lparr>ctype := j + 1\<rparr>)"
    using ranged by (simp add: user_ranged_def)
  obtain r1 where r1: "user_sid n p fromcon user (usercon\<lparr>ctype := j + 1\<rparr>) u = Some r1"
    using Cons.prems(3) by (cases "user_sid n p fromcon user (usercon\<lparr>ctype := j + 1\<rparr>) u") auto
  show ?case
    by (rule collects_seq [OF user_sid_collects [OF ready ranged' Cons.prems(1,2) r1]])
      (use Cons r1 in \<open>auto simp: role_candidate_def\<close>)
qed

lemma user_roles_collects:
  assumes ready: "av_ready p" and ranged: "user_ranged p fromcon user usercon"
  shows "sids_ok (us_sids u) \<Longrightarrow> (m \<longrightarrow> mem_ok (us_heap u)) \<Longrightarrow>
    user_roles_loop n p fromcon user usercon is u = Some r \<Longrightarrow>
    collects_result (user_candidate (may_enter p fromcon) p fromcon user usercon is)
      (user_candidate (enters m p fromcon) p fromcon user usercon is) u r"
proof (induction "is" arbitrary: u)
  case Nil
  then show ?case
    using collects_none [of u "\<lambda>c. False"] by (auto simp: user_candidate_def collects_result_def)
next
  case (Cons i "is")
  let ?js = "ebitmap_positive_bits (role_types (the (role_val_to_struct p ! unat i)))"
  have ranged': "user_ranged p fromcon user (usercon\<lparr>crole := i + 1\<rparr>)"
    using ranged by (simp add: user_ranged_def)
  obtain r1 where r1: "user_types n p fromcon user (usercon\<lparr>crole := i + 1\<rparr>) ?js u = Some r1"
    using Cons.prems(3) by (cases "user_types n p fromcon user (usercon\<lparr>crole := i + 1\<rparr>) ?js u") (auto simp: Let_def)
  show ?case
    by (rule collects_seq [OF user_types_collects [OF ready ranged' Cons.prems(1,2) r1]])
      (use Cons r1 in \<open>auto simp: user_candidate_def Let_def\<close>)
qed

lemma user_sid_total:
  assumes "bounds_end p rank" "type_known p (ctype fromcon)" "rank (ctype fromcon) < n"
  shows "user_sid n p fromcon user usercon u \<noteq> None"
    and "user_types n p fromcon user usercon js u \<noteq> None"
    and "user_roles_loop n p fromcon user usercon is u \<noteq> None"
proof -
  have one: "user_sid n p fromcon user usercon u \<noteq> None" for usercon u
  proof -
    have "user_sid n p fromcon user usercon u \<noteq> None"
      if "ctype usercon \<noteq> ctype fromcon" "mls_setup_user_range fromcon user usercon (mls p) = Inr c" for c
    proof -
      have "context_struct_compute_av n p latest_granting fromcon c (process_class p) (process_trans p) (us_heap u) \<noteq> None"
        using compute_av_total [OF assms] by simp
      with that show ?thesis by (auto simp: user_sid_def split: sum.split prod.split)
    qed
    then show ?thesis
      by (cases "mls_setup_user_range fromcon user usercon (mls p)") (auto simp: user_sid_def)
  qed
  have types: "user_types n p fromcon user usercon js u \<noteq> None" for usercon js u
    using one by (induction js arbitrary: u) (auto split: option.split sum.split)
  have "user_roles_loop n p fromcon user usercon is u \<noteq> None" for u
    using types by (induction "is" arbitrary: u) (auto simp: Let_def split: option.split sum.split)
  then show "user_sid n p fromcon user usercon u \<noteq> None" "user_types n p fromcon user usercon js u \<noteq> None"
    "user_roles_loop n p fromcon user usercon is u \<noteq> None" using one types by blast+
qed

lemma get_user_sids_result:
  assumes ok: "sids_ok (ssids s)" "policy_ok (spol s)" "av_ready (spol s)"
    and mls: "mls (spol s) \<or> valid_range (crange usercon)"
    and run: "get_user_sids n s fromsid username usercon h = Some ((status, sids), s')"
  shows "spol s' = spol s \<and> sids_ok (ssids s') \<and> sids_kept (ssids s) (ssids s') \<and>
    (case sids of None \<Rightarrow> status \<noteq> None
     | Some l \<Rightarrow> status = None \<and> (\<exists>fromcon user. sidtab_search (ssids s) fromsid = Some fromcon \<and>
         hashtab_search (table (p_users (spol s))) username = Some user \<and>
         (let cand = (\<lambda>enter. user_candidate (enter (spol s) fromcon) (spol s) fromcon user
              (usercon\<lparr>cuser := user_value user\<rparr>) (ebitmap_positive_bits (user_roles user))) in
          (\<forall>c. cand may_enter c \<longrightarrow> (\<exists>sid \<in> set l. labelled (ssids s') sid c)) \<and>
          (\<forall>sid \<in> set l. \<exists>c. cand (enters (mem_ok h)) c \<and> labelled (ssids s') sid c))))"
proof (cases "sidtab_search (ssids s) fromsid")
  case None
  then show ?thesis using run ok by (auto simp: get_user_sids_def)
next
  case from0: (Some fromcon)
  show ?thesis
  proof (cases "hashtab_search (table (p_users (spol s))) username")
    case None
    then show ?thesis using run ok from0 by (auto simp: get_user_sids_def)
  next
    case user: (Some user)
    obtain okm h1 where m: "malloc h = (okm, h1)" by (cases "malloc h")
    let ?c = "usercon\<lparr>cuser := user_value user\<rparr>" and ?is = "ebitmap_positive_bits (user_roles user)"
    let ?u = "\<lparr>rc = None, mysids = [], maxnel = SIDS_NEL, us_sids = ssids s, us_heap = h1\<rparr>"
    have ranged: "user_ranged (spol s) fromcon user ?c"
      using ok(2) user mls sids_ok_search [OF ok(1) from0] unfolding policy_ok_def user_ranged_def by auto
    show ?thesis
    proof (cases okm)
      case False
      then show ?thesis using run ok from0 user m by (auto simp: get_user_sids_def)
    next
      case True
      obtain r where r: "user_roles_loop n (spol s) fromcon user ?c ?is ?u = Some r"
        using run from0 user m True by (auto simp: get_user_sids_def split: option.splits)
      have res: "collects_result (user_candidate (may_enter (spol s) fromcon) (spol s) fromcon user ?c ?is)
          (user_candidate (enters (mem_ok h) (spol s) fromcon) (spol s) fromcon user ?c ?is) ?u r"
        using malloc_okD [OF m] by (intro user_roles_collects [OF ok(3) ranged _ _ r]) (simp_all add: ok(1))
      show ?thesis
      proof (cases r)
        case (Inl x)
        then show ?thesis
          using run from0 user m True r res by (cases x) (auto simp: get_user_sids_def collects_result_def)
      next
        case (Inr u)
        then have out: "status = rc u" "sids = Some (mysids u)" "s' = s\<lparr>ssids := us_sids u\<rparr>"
          using run from0 user m True r by (auto simp: get_user_sids_def)
        have "collects (user_candidate (may_enter (spol s) fromcon) (spol s) fromcon user ?c ?is)
            (user_candidate (enters (mem_ok h) (spol s) fromcon) (spol s) fromcon user ?c ?is) ?u u"
          using res Inr by (simp add: collects_result_def)
        then show ?thesis using from0 user by (auto simp: out collects_def Let_def)
      qed
    qed
  qed
qed

end
