(* ===== verification/Object_Labels.thy ===== *)
theory Object_Labels
  imports Services
begin

text \<open>
  The labels of objects that the policy lists: file systems, ports, network interfaces and nodes,
  Infiniband keys and ports, and files of a generic file system (\<open>services.c\<close>). The first entry
  that matches decides. Its SID is obtained on the first request and kept in the entry, so a
  request returns a new server. An address is given as the 32-bit words it consists of.
\<close>

unbundle bit_operations_syntax

section \<open>Lists of object contexts\<close>

text \<open>
  The walk over a list with the fetch of the SID of the first match: \<open>None\<close> when no entry matches.
  \<open>sepol_sidtab_context_to_sid\<close> stores 0 in the entry when it fails.
\<close>

fun ocon_sid ::
  "('u ocontext \<Rightarrow> bool) \<Rightarrow> 'u ocontext list \<Rightarrow> sidtab \<Rightarrow> heap \<Rightarrow>
     ('u ocontext option \<times> errcode option) \<times> 'u ocontext list \<times> sidtab" where
  "ocon_sid P [] st h = ((None, None), [], st)"
| "ocon_sid P (c # cs) st h =
     (if P c
      then if sid0 c = 0
        then case sidtab_context_to_sid st (context0 c) h of
            (Inl e, st, h) \<Rightarrow> ((Some (c\<lparr>sid0 := 0\<rparr>), Some e), c\<lparr>sid0 := 0\<rparr> # cs, st)
          | (Inr sid, st, h) \<Rightarrow> ((Some (c\<lparr>sid0 := sid\<rparr>), None), c\<lparr>sid0 := sid\<rparr> # cs, st)
        else ((Some c, None), c # cs, st)
      else case ocon_sid P cs st h of (r, cs, st) \<Rightarrow> (r, c # cs, st))"

text \<open>The same for the entries that have two contexts.\<close>

fun ocon_sids ::
  "('u ocontext \<Rightarrow> bool) \<Rightarrow> 'u ocontext list \<Rightarrow> sidtab \<Rightarrow> heap \<Rightarrow>
     ('u ocontext option \<times> errcode option) \<times> 'u ocontext list \<times> sidtab" where
  "ocon_sids P [] st h = ((None, None), [], st)"
| "ocon_sids P (c # cs) st h =
     (if P c
      then if sid0 c = 0 \<or> sid1 c = 0
        then case sidtab_context_to_sid st (context0 c) h of
            (Inl e, st, h) \<Rightarrow> ((Some (c\<lparr>sid0 := 0\<rparr>), Some e), c\<lparr>sid0 := 0\<rparr> # cs, st)
          | (Inr s0, st, h) \<Rightarrow> (case sidtab_context_to_sid st (context1 c) h of
                (Inl e, st, h) \<Rightarrow> ((Some (c\<lparr>sid0 := s0, sid1 := 0\<rparr>), Some e), c\<lparr>sid0 := s0, sid1 := 0\<rparr> # cs, st)
              | (Inr s1, st, h) \<Rightarrow> ((Some (c\<lparr>sid0 := s0, sid1 := s1\<rparr>), None), c\<lparr>sid0 := s0, sid1 := s1\<rparr> # cs, st))
        else ((Some c, None), c # cs, st)
      else case ocon_sids P cs st h of (r, cs, st) \<Rightarrow> (r, c # cs, st))"

text \<open>What is returned: the SID of the entry, the default SID without one, or the error.\<close>

definition label_result :: "u32 \<Rightarrow> 'u ocontext option \<times> errcode option \<Rightarrow> u32 result" where
  "label_result dflt r = (case r of
       (_, Some e) \<Rightarrow> Inl e
     | (Some c, None) \<Rightarrow> Inr (sid0 c)
     | (None, None) \<Rightarrow> Inr dflt)"

definition label_results :: "u32 \<Rightarrow> u32 \<Rightarrow> 'u ocontext option \<times> errcode option \<Rightarrow> (u32 \<times> u32) result" where
  "label_results dflt0 dflt1 r = (case r of
       (_, Some e) \<Rightarrow> Inl e
     | (Some c, None) \<Rightarrow> Inr (sid0 c, sid1 c)
     | (None, None) \<Rightarrow> Inr (dflt0, dflt1))"

section \<open>Requests\<close>

definition fs_sid :: "server \<Rightarrow> string \<Rightarrow> heap \<Rightarrow> (u32 \<times> u32) result \<times> server" where
  "fs_sid s name h =
     (case ocon_sids (\<lambda>c. strcmp (ocon_u c) name = 0) (ocon_fs (spol s)) (ssids s) h of (r, cs, st) \<Rightarrow>
        (label_results SECINITSID_FS SECINITSID_FILE r, s\<lparr>spol := (spol s)\<lparr>ocon_fs := cs\<rparr>, ssids := st\<rparr>))"

definition ibpkey_sid :: "server \<Rightarrow> u64 \<Rightarrow> u16 \<Rightarrow> heap \<Rightarrow> u32 result \<times> server" where
  "ibpkey_sid s subnet pkey h =
     (case ocon_sid (\<lambda>c. low_pkey (ocon_u c) \<le> pkey \<and> high_pkey (ocon_u c) \<ge> pkey \<and> subnet = subnet_prefix (ocon_u c))
         (ocon_ibpkey (spol s)) (ssids s) h of (r, cs, st) \<Rightarrow>
        (label_result SECINITSID_UNLABELED r, s\<lparr>spol := (spol s)\<lparr>ocon_ibpkey := cs\<rparr>, ssids := st\<rparr>))"

definition ibendport_sid :: "server \<Rightarrow> string \<Rightarrow> u8 \<Rightarrow> heap \<Rightarrow> u32 result \<times> server" where
  "ibendport_sid s dev port0 h =
     (case ocon_sid (\<lambda>c. ibport (ocon_u c) = port0 \<and> strcmp dev (dev_name (ocon_u c)) = 0)
         (ocon_ibendport (spol s)) (ssids s) h of (r, cs, st) \<Rightarrow>
        (label_result SECINITSID_UNLABELED r, s\<lparr>spol := (spol s)\<lparr>ocon_ibendport := cs\<rparr>, ssids := st\<rparr>))"

definition port_sid :: "server \<Rightarrow> u16 \<Rightarrow> u16 \<Rightarrow> u8 \<Rightarrow> u16 \<Rightarrow> heap \<Rightarrow> u32 result \<times> server" where
  "port_sid s domain type proto port0 h =
     (case ocon_sid (\<lambda>c. protocol (ocon_u c) = proto \<and> low_port (ocon_u c) \<le> port0 \<and> high_port (ocon_u c) \<ge> port0)
         (ocon_port (spol s)) (ssids s) h of (r, cs, st) \<Rightarrow>
        (label_result SECINITSID_PORT r, s\<lparr>spol := (spol s)\<lparr>ocon_port := cs\<rparr>, ssids := st\<rparr>))"

definition netif_sid :: "server \<Rightarrow> string \<Rightarrow> heap \<Rightarrow> (u32 \<times> u32) result \<times> server" where
  "netif_sid s name h =
     (case ocon_sids (\<lambda>c. strcmp name (ocon_u c) = 0) (ocon_netif (spol s)) (ssids s) h of (r, cs, st) \<Rightarrow>
        (label_results SECINITSID_NETIF SECINITSID_NETMSG r, s\<lparr>spol := (spol s)\<lparr>ocon_netif := cs\<rparr>, ssids := st\<rparr>))"

definition match_ipv6_addrmask :: "u32 list \<Rightarrow> u32 list \<Rightarrow> u32 list \<Rightarrow> bool" where
  "match_ipv6_addrmask input addr0 mask0 \<longleftrightarrow> (\<forall>i \<in> set [0..<4]. addr0 ! i = input ! i AND mask0 ! i)"

abbreviation AF_INET :: u16 where "AF_INET \<equiv> 2"
abbreviation AF_INET6 :: u16 where "AF_INET6 \<equiv> 10"

definition node_sid :: "server \<Rightarrow> u16 \<Rightarrow> u32 list \<Rightarrow> u64 \<Rightarrow> heap \<Rightarrow> u32 result \<times> server" where
  "node_sid s domain addrp addrlen h =
     (if domain = AF_INET
      then if addrlen \<noteq> 4 then (Inl EINVAL, s)
        else (case ocon_sid (\<lambda>c. addr (ocon_u c) = hd addrp AND nmask (ocon_u c)) (ocon_node (spol s)) (ssids s) h of (r, cs, st) \<Rightarrow>
          (label_result SECINITSID_NODE r, s\<lparr>spol := (spol s)\<lparr>ocon_node := cs\<rparr>, ssids := st\<rparr>))
      else if domain = AF_INET6
      then if addrlen \<noteq> 16 then (Inl EINVAL, s)
        else (case ocon_sid (\<lambda>c. match_ipv6_addrmask addrp (addr6 (ocon_u c)) (mask6 (ocon_u c))) (ocon_node6 (spol s)) (ssids s) h of
            (r, cs, st) \<Rightarrow>
          (label_result SECINITSID_NODE r, s\<lparr>spol := (spol s)\<lparr>ocon_node6 := cs\<rparr>, ssids := st\<rparr>))
      else (Inr SECINITSID_NODE, s))"

section \<open>Generic file systems\<close>

text \<open>The walk over the sorted list of file systems; \<open>None\<close> when the name is not in it.\<close>

fun genfs_sid_loop ::
  "string \<Rightarrow> (string ocontext \<Rightarrow> bool) \<Rightarrow> genfs list \<Rightarrow> sidtab \<Rightarrow> heap \<Rightarrow>
     (string ocontext option \<times> errcode option) \<times> genfs list \<times> sidtab" where
  "genfs_sid_loop fstyp P [] st h = ((None, None), [], st)"
| "genfs_sid_loop fstyp P (g # gs) st h =
     (if strcmp fstyp (fstype g) \<le> 0
      then if strcmp fstyp (fstype g) \<noteq> 0 then ((None, None), g # gs, st)
        else case ocon_sid P (genfs_head g) st h of (r, cs, st) \<Rightarrow> (r, g\<lparr>genfs_head := cs\<rparr> # gs, st)
      else case genfs_sid_loop fstyp P gs st h of (r, gs, st) \<Rightarrow> (r, g # gs, st))"

text \<open>The status, and the SID if one is stored through the pointer.\<close>

definition genfs_sid ::
  "server \<Rightarrow> string \<Rightarrow> string \<Rightarrow> u16 \<Rightarrow> heap \<Rightarrow> (errcode option \<times> u32 option) \<times> server" where
  "genfs_sid s fstyp path sclass h =
     (case genfs_sid_loop fstyp
         (\<lambda>c. (ocon_v c = 0 \<or> ucast sclass = ocon_v c) \<and> take (length (ocon_u c)) path = ocon_u c)
         (genfs_list (spol s)) (ssids s) h of (r, gs, st) \<Rightarrow>
        ((case r of
            (_, Some e) \<Rightarrow> (Some e, None)
          | (Some c, None) \<Rightarrow> (None, Some (sid0 c))
          | (None, None) \<Rightarrow> (Some ENOENT, Some SECINITSID_UNLABELED)),
         s\<lparr>spol := (spol s)\<lparr>genfs_list := gs\<rparr>, ssids := st\<rparr>))"

text \<open>The status, the behavior, and the SID if one is stored.\<close>

definition fs_use :: "server \<Rightarrow> string \<Rightarrow> heap \<Rightarrow> (errcode option \<times> u32 \<times> u32 option) \<times> server" where
  "fs_use s fstyp h =
     (case ocon_sid (\<lambda>c. strcmp fstyp (ocon_u c) = 0) (ocon_fsuse (spol s)) (ssids s) h of
        ((Some c, e), cs, st) \<Rightarrow>
          ((e, ocon_v c, if e = None then Some (sid0 c) else None),
           s\<lparr>spol := (spol s)\<lparr>ocon_fsuse := cs\<rparr>, ssids := st\<rparr>)
      | ((None, _), cs, st) \<Rightarrow>
          (case genfs_sid s fstyp ''/'' (dir_class (spol s)) h of ((status, sid), s) \<Rightarrow>
             ((None, if status \<noteq> None then SECURITY_FS_USE_NONE else SECURITY_FS_USE_GENFS, sid), s)))"

section \<open>The stored SIDs stand for the contexts of their entries\<close>

text \<open>A SID that an entry keeps is one of its context. \<open>entry_like\<close>: the same entry up to the SIDs.\<close>

definition cached :: "sidtab \<Rightarrow> u32 \<Rightarrow> context_struct \<Rightarrow> bool" where
  "cached st sid c \<longleftrightarrow> valid_range (crange c) \<and> (sid \<noteq> 0 \<longrightarrow> labelled st sid c)"

definition entry_ok :: "sidtab \<Rightarrow> 'u ocontext \<Rightarrow> bool" where
  "entry_ok st c \<longleftrightarrow> cached st (sid0 c) (context0 c)"

definition entry2_ok :: "sidtab \<Rightarrow> 'u ocontext \<Rightarrow> bool" where
  "entry2_ok st c \<longleftrightarrow> cached st (sid0 c) (context0 c) \<and> cached st (sid1 c) (context1 c)"

definition entry_like :: "'u ocontext \<Rightarrow> 'u ocontext \<Rightarrow> bool" where
  "entry_like c c' \<longleftrightarrow> c' = c\<lparr>sid0 := sid0 c', sid1 := sid1 c'\<rparr>"

lemma cached_kept: "cached st sid c \<Longrightarrow> sids_kept st st' \<Longrightarrow> cached st' sid c"
  using labelled_kept by (auto simp: cached_def)

lemma entry_ok_kept: "entry_ok st c \<Longrightarrow> sids_kept st st' \<Longrightarrow> entry_ok st' c"
  using cached_kept by (auto simp: entry_ok_def)

lemma entry2_ok_kept: "entry2_ok st c \<Longrightarrow> sids_kept st st' \<Longrightarrow> entry2_ok st' c"
  using cached_kept by (auto simp: entry2_ok_def)

lemma entry_like_simps [simp]:
  "entry_like c c" "entry_like c (c\<lparr>sid0 := a\<rparr>)" "entry_like c (c\<lparr>sid0 := a, sid1 := b\<rparr>)"
  by (simp_all add: entry_like_def)

lemma entry_like_contexts: "entry_like c c' \<Longrightarrow> context0 c' = context0 c \<and> context1 c' = context1 c \<and> ocon_u c' = ocon_u c \<and> ocon_v c' = ocon_v c"
  unfolding entry_like_def
  by (metis ocontext.select_convs(1-4) ocontext.surjective ocontext.update_convs(5,6))

text \<open>
  What a walk promises: the table and the list stay well formed, and the entry found, if there is one, is the
  first that matches, with a SID of its context; or the allocation of the SID failed.
\<close>

definition walk_ok ::
  "(sidtab \<Rightarrow> 'u ocontext \<Rightarrow> bool) \<Rightarrow> ('u ocontext \<Rightarrow> bool) \<Rightarrow> sidtab \<Rightarrow> 'u ocontext list \<Rightarrow>
     ('u ocontext option \<times> errcode option) \<times> 'u ocontext list \<times> sidtab \<Rightarrow> ('u ocontext \<Rightarrow> bool) \<Rightarrow> bool" where
  "walk_ok ok P st cs res full \<longleftrightarrow> (case res of ((found, e), cs', st') \<Rightarrow>
     sids_ok st' \<and> sids_kept st st' \<and> (\<forall>c \<in> set cs'. ok st' c) \<and> list_all2 entry_like cs cs' \<and>
     (case find P cs of
        None \<Rightarrow> found = None \<and> e = None \<and> cs' = cs \<and> st' = st
      | Some c \<Rightarrow> (\<exists>c'. found = Some c' \<and> entry_like c c' \<and> c' \<in> set cs' \<and> ok st' c' \<and>
          (e = None \<and> full c' \<or> e = Some ENOMEM))))"

lemma entry_like_refl_list [simp]: "list_all2 entry_like cs cs"
  by (simp add: list_all2_refl)

lemma walk_ok_here:
  assumes "P c" "sids_ok st'" "sids_kept st st'" "\<forall>d \<in> set cs. ok st d" "\<And>d. ok st d \<Longrightarrow> ok st' d" "ok st' c'" "entry_like c c'"
    and "e = None \<and> full c' \<or> e = Some ENOMEM"
  shows "walk_ok ok P st (c # cs) ((Some c', e), c' # cs, st') full"
  using assms by (auto simp: walk_ok_def)

lemma walk_ok_next:
  assumes "\<not> P c" "ok st c" "\<And>st'. sids_kept st st' \<Longrightarrow> ok st' c" "walk_ok ok P st cs (r, cs', st') full"
  shows "walk_ok ok P st (c # cs) (r, c # cs', st') full"
  using assms by (auto simp: walk_ok_def split: option.splits prod.splits)

lemma ocon_sid_walk:
  assumes "sids_ok st" "\<forall>c \<in> set cs. entry_ok st c"
  shows "walk_ok entry_ok P st cs (ocon_sid P cs st h) (\<lambda>c. sid0 c \<noteq> 0)"
  using assms(2)
proof (induction cs)
  case Nil
  then show ?case using assms(1) by (simp add: walk_ok_def)
next
  case (Cons c cs)
  have c: "entry_ok st c" and v: "valid_range (crange (context0 c))" and cs: "\<forall>d \<in> set cs. entry_ok st d"
    using Cons.prems by (simp_all add: entry_ok_def cached_def)
  show ?case
  proof (cases "P c")
    case True
    obtain r st' h' where a: "sidtab_context_to_sid st (context0 c) h = (r, st', h')"
      by (cases "sidtab_context_to_sid st (context0 c) h") auto
    note A = alloc_sid [OF assms(1) v a]
    have kept: "entry_ok st d \<Longrightarrow> entry_ok st' d" for d using A entry_ok_kept by blast
    show ?thesis
    proof (cases "sid0 c = 0")
      case False
      then have "ocon_sid P (c # cs) st h = ((Some c, None), c # cs, st)" using True by simp
      then show ?thesis using walk_ok_here [of P c st st cs entry_ok c None] True assms(1) c cs False by simp
    next
      case zero: True
      show ?thesis
      proof (cases r)
        case (Inl e)
        then have "ocon_sid P (c # cs) st h = ((Some (c\<lparr>sid0 := 0\<rparr>), Some ENOMEM), c\<lparr>sid0 := 0\<rparr> # cs, st')"
          using True zero a A by simp
        then show ?thesis using A True cs kept v by (auto intro!: walk_ok_here simp: entry_ok_def cached_def)
      next
        case (Inr sid)
        then have "ocon_sid P (c # cs) st h = ((Some (c\<lparr>sid0 := sid\<rparr>), None), c\<lparr>sid0 := sid\<rparr> # cs, st')"
          using True zero a by simp
        then show ?thesis using A Inr True cs kept v by (auto intro!: walk_ok_here simp: entry_ok_def cached_def)
      qed
    qed
  next
    case False
    obtain r cs' st' where w: "ocon_sid P cs st h = (r, cs', st')" by (cases "ocon_sid P cs st h") auto
    then have "walk_ok entry_ok P st cs (r, cs', st') (\<lambda>c. sid0 c \<noteq> 0)" using Cons by simp
    from walk_ok_next [of P, OF False c entry_ok_kept [OF c] this] show ?thesis using False w by simp
  qed
qed

lemma ocon_sids_walk:
  assumes "sids_ok st" "\<forall>c \<in> set cs. entry2_ok st c"
  shows "walk_ok entry2_ok P st cs (ocon_sids P cs st h) (\<lambda>c. sid0 c \<noteq> 0 \<and> sid1 c \<noteq> 0)"
  using assms(2)
proof (induction cs)
  case Nil
  then show ?case using assms(1) by (simp add: walk_ok_def)
next
  case (Cons c cs)
  have c: "entry2_ok st c" and v: "valid_range (crange (context0 c))" "valid_range (crange (context1 c))"
    and cs: "\<forall>d \<in> set cs. entry2_ok st d"
    using Cons.prems by (simp_all add: entry2_ok_def cached_def)
  show ?case
  proof (cases "P c")
    case True
    obtain r st1 h1 where a: "sidtab_context_to_sid st (context0 c) h = (r, st1, h1)"
      by (cases "sidtab_context_to_sid st (context0 c) h") auto
    note A = alloc_sid [OF assms(1) v(1) a]
    have kept1: "entry2_ok st d \<Longrightarrow> entry2_ok st1 d" for d using A entry2_ok_kept by blast
    show ?thesis
    proof (cases "sid0 c = 0 \<or> sid1 c = 0")
      case False
      then have "ocon_sids P (c # cs) st h = ((Some c, None), c # cs, st)" using True by simp
      then show ?thesis using walk_ok_here [of P c st st cs entry2_ok c None] True assms(1) c cs False by simp
    next
      case zero: True
      show ?thesis
      proof (cases r)
        case (Inl e)
        then have "ocon_sids P (c # cs) st h = ((Some (c\<lparr>sid0 := 0\<rparr>), Some ENOMEM), c\<lparr>sid0 := 0\<rparr> # cs, st1)"
          using True zero a A by auto
        then show ?thesis using A True cs kept1 c v
          by (auto intro!: walk_ok_here simp: entry2_ok_def cached_def dest: labelled_kept)
      next
        case (Inr s0)
        obtain r2 st2 h2 where a2: "sidtab_context_to_sid st1 (context1 c) h1 = (r2, st2, h2)"
          by (cases "sidtab_context_to_sid st1 (context1 c) h1") auto
        have ok1: "sids_ok st1" "sids_kept st st1" and l0: "s0 \<noteq> 0" "labelled st1 s0 (context0 c)" using A Inr by auto
        note B = alloc_sid [OF ok1(1) v(2) a2]
        then have kept2: "sids_kept st st2" "sids_kept st1 st2" using sids_kept_trans [OF ok1(2)] by auto
        have kept': "entry2_ok st d \<Longrightarrow> entry2_ok st2 d" for d using kept2 entry2_ok_kept by blast
        have l0': "labelled st2 s0 (context0 c)" using labelled_kept [OF l0(2) kept2(2)] .
        show ?thesis
        proof (cases r2)
          case (Inl e)
          then have eq: "ocon_sids P (c # cs) st h =
              ((Some (c\<lparr>sid0 := s0, sid1 := 0\<rparr>), Some ENOMEM), c\<lparr>sid0 := s0, sid1 := 0\<rparr> # cs, st2)"
            using True zero a Inr a2 B by auto
          have "entry2_ok st2 (c\<lparr>sid0 := s0, sid1 := 0\<rparr>)" using l0' v by (simp add: entry2_ok_def cached_def)
          with B True cs kept' kept2(1) show ?thesis unfolding eq by (intro walk_ok_here) simp_all
        next
          case s1: (Inr s1)
          then have eq: "ocon_sids P (c # cs) st h =
              ((Some (c\<lparr>sid0 := s0, sid1 := s1\<rparr>), None), c\<lparr>sid0 := s0, sid1 := s1\<rparr> # cs, st2)"
            using True zero a Inr a2 by auto
          have "s1 \<noteq> 0" "entry2_ok st2 (c\<lparr>sid0 := s0, sid1 := s1\<rparr>)"
            using B s1 l0' v by (simp_all add: entry2_ok_def cached_def)
          with B True cs kept' kept2(1) l0(1) show ?thesis unfolding eq by (intro walk_ok_here) simp_all
        qed
      qed
    qed
  next
    case False
    obtain r cs' st' where w: "ocon_sids P cs st h = (r, cs', st')" by (cases "ocon_sids P cs st h") auto
    then have "walk_ok entry2_ok P st cs (r, cs', st') (\<lambda>c. sid0 c \<noteq> 0 \<and> sid1 c \<noteq> 0)" using Cons by simp
    from walk_ok_next [of P, OF False c entry2_ok_kept [OF c] this] show ?thesis using False w by simp
  qed
qed

text \<open>The label of the first entry that matches, or the default.\<close>

definition label_is :: "sidtab \<Rightarrow> ('u ocontext \<Rightarrow> bool) \<Rightarrow> 'u ocontext list \<Rightarrow> u32 \<Rightarrow> u32 result \<Rightarrow> bool" where
  "label_is st P cs dflt r \<longleftrightarrow> (case find P cs of
       None \<Rightarrow> r = Inr dflt
     | Some c \<Rightarrow> r = Inl ENOMEM \<or> (\<exists>sid. r = Inr sid \<and> sid \<noteq> 0 \<and> labelled st sid (context0 c)))"

lemma walk_label:
  assumes "walk_ok entry_ok P st cs (r, cs', st') (\<lambda>c. sid0 c \<noteq> 0)"
  shows "label_is st' P cs dflt (label_result dflt r)"
proof (cases "find P cs")
  case None
  then show ?thesis using assms by (auto simp: walk_ok_def label_is_def label_result_def)
next
  case (Some c)
  then obtain c' e where r: "r = (Some c', e)" and like: "entry_like c c'" and ok: "entry_ok st' c'"
    and e: "e = None \<and> sid0 c' \<noteq> 0 \<or> e = Some ENOMEM"
    using assms by (auto simp: walk_ok_def split: prod.splits)
  then show ?thesis
    using entry_like_contexts [OF like] Some
    by (auto simp: label_is_def label_result_def entry_ok_def cached_def)
qed

definition labels_are ::
  "sidtab \<Rightarrow> ('u ocontext \<Rightarrow> bool) \<Rightarrow> 'u ocontext list \<Rightarrow> u32 \<times> u32 \<Rightarrow> (u32 \<times> u32) result \<Rightarrow> bool" where
  "labels_are st P cs dflts r \<longleftrightarrow> (case find P cs of
       None \<Rightarrow> r = Inr dflts
     | Some c \<Rightarrow> r = Inl ENOMEM \<or> (\<exists>s0 s1. r = Inr (s0, s1) \<and> s0 \<noteq> 0 \<and> s1 \<noteq> 0 \<and>
         labelled st s0 (context0 c) \<and> labelled st s1 (context1 c)))"

lemma walk_labels:
  assumes "walk_ok entry2_ok P st cs (r, cs', st') (\<lambda>c. sid0 c \<noteq> 0 \<and> sid1 c \<noteq> 0)"
  shows "labels_are st' P cs (d0, d1) (label_results d0 d1 r)"
proof (cases "find P cs")
  case None
  then show ?thesis using assms by (auto simp: walk_ok_def labels_are_def label_results_def)
next
  case (Some c)
  then obtain c' e where r: "r = (Some c', e)" and like: "entry_like c c'" and ok: "entry2_ok st' c'"
    and e: "e = None \<and> sid0 c' \<noteq> 0 \<and> sid1 c' \<noteq> 0 \<or> e = Some ENOMEM"
    using assms by (auto simp: walk_ok_def split: prod.splits)
  then show ?thesis
    using entry_like_contexts [OF like] Some
    by (auto simp: labels_are_def label_results_def entry2_ok_def cached_def)
qed

section \<open>The server stays well formed\<close>

definition entries_ok :: "sidtab \<Rightarrow> 'u ocontext list \<Rightarrow> bool" where
  "entries_ok st cs \<longleftrightarrow> (\<forall>c \<in> set cs. entry_ok st c)"

definition entries2_ok :: "sidtab \<Rightarrow> 'u ocontext list \<Rightarrow> bool" where
  "entries2_ok st cs \<longleftrightarrow> (\<forall>c \<in> set cs. entry2_ok st c)"

definition genfs_ok :: "sidtab \<Rightarrow> genfs list \<Rightarrow> bool" where
  "genfs_ok st gs \<longleftrightarrow> (\<forall>g \<in> set gs. entries_ok st (genfs_head g))"

definition labels_ok :: "policydb \<Rightarrow> sidtab \<Rightarrow> bool" where
  "labels_ok p st \<longleftrightarrow> entries2_ok st (ocon_fs p) \<and> entries2_ok st (ocon_netif p) \<and>
     entries_ok st (ocon_port p) \<and> entries_ok st (ocon_node p) \<and> entries_ok st (ocon_node6 p) \<and>
     entries_ok st (ocon_fsuse p) \<and> entries_ok st (ocon_ibpkey p) \<and> entries_ok st (ocon_ibendport p) \<and>
     genfs_ok st (genfs_list p)"

lemma entries_kept:
  "sids_kept st st' \<Longrightarrow> entries_ok st cs \<Longrightarrow> entries_ok st' cs"
  "sids_kept st st' \<Longrightarrow> entries2_ok st ds \<Longrightarrow> entries2_ok st' ds"
  "sids_kept st st' \<Longrightarrow> genfs_ok st gs \<Longrightarrow> genfs_ok st' gs"
  unfolding entries_ok_def entries2_ok_def genfs_ok_def using entry_ok_kept entry2_ok_kept by blast+

lemma labels_ok_kept: "labels_ok p st \<Longrightarrow> sids_kept st st' \<Longrightarrow> labels_ok p st'"
  unfolding labels_ok_def by (intro conjI; elim conjE; erule (1) entries_kept)

definition server_wf :: "server \<Rightarrow> bool" where
  "server_wf s \<longleftrightarrow> sids_ok (ssids s) \<and> policy_ok (spol s) \<and> labels_ok (spol s) (ssids s)"

text \<open>The policy without its lists of objects: all that decides about access.\<close>

definition rules_of :: "policydb \<Rightarrow> policydb" where
  "rules_of p = p\<lparr>ocon_fs := [], ocon_port := [], ocon_netif := [], ocon_node := [], ocon_fsuse := [],
     ocon_node6 := [], ocon_ibpkey := [], ocon_ibendport := [], genfs_list := []\<rparr>"

definition request_ok :: "server \<Rightarrow> server \<Rightarrow> bool" where
  "request_ok s s' \<longleftrightarrow> server_wf s' \<and> sids_kept (ssids s) (ssids s') \<and> rules_of (spol s') = rules_of (spol s)"

lemma request_ok_refl: "server_wf s \<Longrightarrow> request_ok s s"
  by (simp add: request_ok_def)

lemma request_ok_trans: "request_ok a b \<Longrightarrow> request_ok b c \<Longrightarrow> request_ok a c"
  using sids_kept_trans by (auto simp: request_ok_def)

lemma request_ok_sids:
  "server_wf s \<Longrightarrow> sids_ok st \<Longrightarrow> sids_kept (ssids s) st \<Longrightarrow> request_ok s (s\<lparr>ssids := st\<rparr>)"
  using labels_ok_kept by (auto simp: request_ok_def server_wf_def)

text \<open>A walk over one of the lists of the policy, which gives the policy \<open>p\<close>.\<close>

lemma walk_request:
  assumes wf: "server_wf s"
    and walk: "sids_ok st" "sids_kept (ssids s) st"
    and p: "labels_ok (spol s) st \<Longrightarrow> labels_ok p st" "policy_ok p = policy_ok (spol s)" "rules_of p = rules_of (spol s)"
  shows "request_ok s (s\<lparr>spol := p, ssids := st\<rparr>)"
proof -
  have "labels_ok (spol s) st" using wf walk(2) labels_ok_kept by (auto simp: server_wf_def)
  with assms show ?thesis by (simp add: server_wf_def request_ok_def)
qed

lemma walk_ok_parts:
  "walk_ok ok P st cs (r, cs', st') full \<Longrightarrow> sids_ok st' \<and> sids_kept st st' \<and> (\<forall>c \<in> set cs'. ok st' c)"
  by (auto simp: walk_ok_def split: prod.splits)

lemma entries_request:
  assumes wf: "server_wf s" and cs0: "entries_ok (ssids s) cs0"
    and run: "ocon_sid P cs0 (ssids s) h = (q, cs, st)"
    and p: "labels_ok (spol s) st \<Longrightarrow> entries_ok st cs \<Longrightarrow> labels_ok p st"
      "policy_ok p = policy_ok (spol s)" "rules_of p = rules_of (spol s)"
  shows "request_ok s (s\<lparr>spol := p, ssids := st\<rparr>) \<and> label_is st P cs0 dflt (label_result dflt q)"
proof -
  have walk: "walk_ok entry_ok P (ssids s) cs0 (q, cs, st) (\<lambda>c. sid0 c \<noteq> 0)"
    unfolding run [symmetric] by (rule ocon_sid_walk) (use wf cs0 in \<open>simp_all add: server_wf_def entries_ok_def\<close>)
  then have "entries_ok st cs" using walk_ok_parts [OF walk] by (simp add: entries_ok_def)
  with walk_request [OF wf _ _ _ p(2,3)] walk_ok_parts [OF walk] p(1) walk_label [OF walk]
  show ?thesis by simp
qed

lemma entries2_request:
  assumes wf: "server_wf s" and cs0: "entries2_ok (ssids s) cs0"
    and run: "ocon_sids P cs0 (ssids s) h = (q, cs, st)"
    and p: "labels_ok (spol s) st \<Longrightarrow> entries2_ok st cs \<Longrightarrow> labels_ok p st"
      "policy_ok p = policy_ok (spol s)" "rules_of p = rules_of (spol s)"
  shows "request_ok s (s\<lparr>spol := p, ssids := st\<rparr>) \<and> labels_are st P cs0 (d0, d1) (label_results d0 d1 q)"
proof -
  have walk: "walk_ok entry2_ok P (ssids s) cs0 (q, cs, st) (\<lambda>c. sid0 c \<noteq> 0 \<and> sid1 c \<noteq> 0)"
    unfolding run [symmetric] by (rule ocon_sids_walk) (use wf cs0 in \<open>simp_all add: server_wf_def entries2_ok_def\<close>)
  then have "entries2_ok st cs" using walk_ok_parts [OF walk] by (simp add: entries2_ok_def)
  with walk_request [OF wf _ _ _ p(2,3)] walk_ok_parts [OF walk] p(1) walk_labels [OF walk]
  show ?thesis by simp
qed

lemmas label_request = server_wf_def labels_ok_def policy_ok_def rules_of_def

lemma port_sid_ok:
  assumes wf: "server_wf s" and run: "port_sid s domain type proto port0 h = (r, s')"
  shows "request_ok s s' \<and> label_is (ssids s')
    (\<lambda>c. protocol (ocon_u c) = proto \<and> low_port (ocon_u c) \<le> port0 \<and> high_port (ocon_u c) \<ge> port0)
    (ocon_port (spol s)) SECINITSID_PORT r"
proof -
  let ?P = "\<lambda>c. protocol (ocon_u c) = proto \<and> low_port (ocon_u c) \<le> port0 \<and> high_port (ocon_u c) \<ge> port0"
  obtain q cs st where w: "ocon_sid ?P (ocon_port (spol s)) (ssids s) h = (q, cs, st)"
    by (cases "ocon_sid ?P (ocon_port (spol s)) (ssids s) h") auto
  have "request_ok s (s\<lparr>spol := (spol s)\<lparr>ocon_port := cs\<rparr>, ssids := st\<rparr>) \<and>
      label_is st ?P (ocon_port (spol s)) SECINITSID_PORT (label_result SECINITSID_PORT q)"
    by (rule entries_request [OF wf _ w]) (use wf in \<open>simp_all add: label_request\<close>)
  then show ?thesis using run unfolding port_sid_def w by auto
qed

lemma ibpkey_sid_ok:
  assumes wf: "server_wf s" and run: "ibpkey_sid s subnet pkey h = (r, s')"
  shows "request_ok s s' \<and> label_is (ssids s') (\<lambda>c. low_pkey (ocon_u c) \<le> pkey \<and> high_pkey (ocon_u c) \<ge> pkey \<and> subnet = subnet_prefix (ocon_u c)) (ocon_ibpkey (spol s)) SECINITSID_UNLABELED r"
proof -
  let ?P = "\<lambda>c. low_pkey (ocon_u c) \<le> pkey \<and> high_pkey (ocon_u c) \<ge> pkey \<and> subnet = subnet_prefix (ocon_u c)"
  obtain q cs st where w: "ocon_sid ?P (ocon_ibpkey (spol s)) (ssids s) h = (q, cs, st)"
    by (cases "ocon_sid ?P (ocon_ibpkey (spol s)) (ssids s) h") auto
  have "request_ok s (s\<lparr>spol := (spol s)\<lparr>ocon_ibpkey := cs\<rparr>, ssids := st\<rparr>) \<and>
      label_is st ?P (ocon_ibpkey (spol s)) SECINITSID_UNLABELED (label_result SECINITSID_UNLABELED q)"
    by (rule entries_request [OF wf _ w]) (use wf in \<open>simp_all add: label_request\<close>)
  then show ?thesis using run unfolding ibpkey_sid_def w by auto
qed

lemma ibendport_sid_ok:
  assumes wf: "server_wf s" and run: "ibendport_sid s dev port0 h = (r, s')"
  shows "request_ok s s' \<and> label_is (ssids s') (\<lambda>c. ibport (ocon_u c) = port0 \<and> strcmp dev (dev_name (ocon_u c)) = 0) (ocon_ibendport (spol s)) SECINITSID_UNLABELED r"
proof -
  let ?P = "\<lambda>c. ibport (ocon_u c) = port0 \<and> strcmp dev (dev_name (ocon_u c)) = 0"
  obtain q cs st where w: "ocon_sid ?P (ocon_ibendport (spol s)) (ssids s) h = (q, cs, st)"
    by (cases "ocon_sid ?P (ocon_ibendport (spol s)) (ssids s) h") auto
  have "request_ok s (s\<lparr>spol := (spol s)\<lparr>ocon_ibendport := cs\<rparr>, ssids := st\<rparr>) \<and>
      label_is st ?P (ocon_ibendport (spol s)) SECINITSID_UNLABELED (label_result SECINITSID_UNLABELED q)"
    by (rule entries_request [OF wf _ w]) (use wf in \<open>simp_all add: label_request\<close>)
  then show ?thesis using run unfolding ibendport_sid_def w by auto
qed

lemma node_sid_ok:
  assumes wf: "server_wf s" and run: "node_sid s domain addrp addrlen h = (r, s')"
  shows "request_ok s s' \<and>
    (if domain = AF_INET
     then if addrlen \<noteq> 4 then r = Inl EINVAL \<and> s' = s
       else label_is (ssids s') (\<lambda>c. addr (ocon_u c) = hd addrp AND nmask (ocon_u c)) (ocon_node (spol s)) SECINITSID_NODE r
     else if domain = AF_INET6
     then if addrlen \<noteq> 16 then r = Inl EINVAL \<and> s' = s
       else label_is (ssids s') (\<lambda>c. match_ipv6_addrmask addrp (addr6 (ocon_u c)) (mask6 (ocon_u c))) (ocon_node6 (spol s)) SECINITSID_NODE r
     else r = Inr SECINITSID_NODE \<and> s' = s)"
proof -
  let ?P = "\<lambda>c. addr (ocon_u c) = hd addrp AND nmask (ocon_u c)"
    and ?P6 = "\<lambda>c. match_ipv6_addrmask addrp (addr6 (ocon_u c)) (mask6 (ocon_u c))"
  obtain q cs st where w: "ocon_sid ?P (ocon_node (spol s)) (ssids s) h = (q, cs, st)"
    by (cases "ocon_sid ?P (ocon_node (spol s)) (ssids s) h") auto
  have n4: "request_ok s (s\<lparr>spol := (spol s)\<lparr>ocon_node := cs\<rparr>, ssids := st\<rparr>) \<and>
      label_is st ?P (ocon_node (spol s)) SECINITSID_NODE (label_result SECINITSID_NODE q)"
    by (rule entries_request [OF wf _ w]) (use wf in \<open>simp_all add: label_request\<close>)
  obtain q6 cs6 st6 where w6: "ocon_sid ?P6 (ocon_node6 (spol s)) (ssids s) h = (q6, cs6, st6)"
    by (cases "ocon_sid ?P6 (ocon_node6 (spol s)) (ssids s) h") auto
  have n6: "request_ok s (s\<lparr>spol := (spol s)\<lparr>ocon_node6 := cs6\<rparr>, ssids := st6\<rparr>) \<and>
      label_is st6 ?P6 (ocon_node6 (spol s)) SECINITSID_NODE (label_result SECINITSID_NODE q6)"
    by (rule entries_request [OF wf _ w6]) (use wf in \<open>simp_all add: label_request\<close>)
  show ?thesis
    using run n4 n6 request_ok_refl [OF wf] unfolding node_sid_def w w6 by (auto split: if_splits)
qed

lemma fs_sid_ok:
  assumes wf: "server_wf s" and run: "fs_sid s name h = (r, s')"
  shows "request_ok s s' \<and> labels_are (ssids s') (\<lambda>c. strcmp (ocon_u c) name = 0) (ocon_fs (spol s)) (SECINITSID_FS, SECINITSID_FILE) r"
proof -
  let ?P = "\<lambda>c. strcmp (ocon_u c) name = 0"
  obtain q cs st where w: "ocon_sids ?P (ocon_fs (spol s)) (ssids s) h = (q, cs, st)"
    by (cases "ocon_sids ?P (ocon_fs (spol s)) (ssids s) h") auto
  have "request_ok s (s\<lparr>spol := (spol s)\<lparr>ocon_fs := cs\<rparr>, ssids := st\<rparr>) \<and>
      labels_are st ?P (ocon_fs (spol s)) (SECINITSID_FS, SECINITSID_FILE) (label_results SECINITSID_FS SECINITSID_FILE q)"
    by (rule entries2_request [OF wf _ w]) (use wf in \<open>simp_all add: label_request\<close>)
  then show ?thesis using run unfolding fs_sid_def w by auto
qed

lemma netif_sid_ok:
  assumes wf: "server_wf s" and run: "netif_sid s name h = (r, s')"
  shows "request_ok s s' \<and> labels_are (ssids s') (\<lambda>c. strcmp name (ocon_u c) = 0) (ocon_netif (spol s)) (SECINITSID_NETIF, SECINITSID_NETMSG) r"
proof -
  let ?P = "\<lambda>c. strcmp name (ocon_u c) = 0"
  obtain q cs st where w: "ocon_sids ?P (ocon_netif (spol s)) (ssids s) h = (q, cs, st)"
    by (cases "ocon_sids ?P (ocon_netif (spol s)) (ssids s) h") auto
  have "request_ok s (s\<lparr>spol := (spol s)\<lparr>ocon_netif := cs\<rparr>, ssids := st\<rparr>) \<and>
      labels_are st ?P (ocon_netif (spol s)) (SECINITSID_NETIF, SECINITSID_NETMSG) (label_results SECINITSID_NETIF SECINITSID_NETMSG q)"
    by (rule entries2_request [OF wf _ w]) (use wf in \<open>simp_all add: label_request\<close>)
  then show ?thesis using run unfolding netif_sid_def w by auto
qed

section \<open>Generic file systems\<close>

text \<open>The list is sorted by name, so the walk that stops at the first name that is not smaller finds it.\<close>

definition genfs_sorted :: "genfs list \<Rightarrow> bool" where
  "genfs_sorted gs \<longleftrightarrow> sorted_wrt (\<lambda>g g'. strcmp (fstype g) (fstype g') < 0) gs"

definition genfs_entries :: "string \<Rightarrow> genfs list \<Rightarrow> string ocontext list" where
  "genfs_entries fstyp gs = (case find (\<lambda>g. fstype g = fstyp) gs of None \<Rightarrow> [] | Some g \<Rightarrow> genfs_head g)"

definition genfs_walk_ok ::
  "string \<Rightarrow> (string ocontext \<Rightarrow> bool) \<Rightarrow> sidtab \<Rightarrow> genfs list \<Rightarrow>
     (string ocontext option \<times> errcode option) \<times> genfs list \<times> sidtab \<Rightarrow> bool" where
  "genfs_walk_ok fstyp P st gs res \<longleftrightarrow> (case res of (r, gs', st') \<Rightarrow>
     sids_ok st' \<and> sids_kept st st' \<and> genfs_ok st' gs' \<and> map fstype gs' = map fstype gs \<and>
     (\<exists>cs'. genfs_sorted gs \<longrightarrow> walk_ok entry_ok P st (genfs_entries fstyp gs) (r, cs', st') (\<lambda>c. sid0 c \<noteq> 0)))"

lemma genfs_loop_walk:
  assumes "sids_ok st" "genfs_ok st gs"
  shows "genfs_walk_ok fstyp P st gs (genfs_sid_loop fstyp P gs st h)"
  using assms(2)
proof (induction gs)
  case Nil
  then show ?case using assms(1)
    by (auto simp: genfs_walk_ok_def genfs_ok_def genfs_entries_def walk_ok_def intro!: exI [of _ "[]"])
next
  case (Cons g gs)
  have g: "\<forall>c \<in> set (genfs_head g). entry_ok st c" and gs: "genfs_ok st gs"
    using Cons.prems by (simp_all add: genfs_ok_def entries_ok_def)
  consider (past) "strcmp fstyp (fstype g) < 0" | (here) "strcmp fstyp (fstype g) = 0" | (later) "strcmp fstyp (fstype g) > 0"
    by linarith
  then show ?case
  proof cases
    case past
    have "genfs_entries fstyp (g # gs) = []" if "genfs_sorted (g # gs)"
    proof -
      have "fstype g' \<noteq> fstyp" if "g' \<in> set (g # gs)" for g'
        using that past \<open>genfs_sorted (g # gs)\<close> strcmp_flip [of "fstype g" fstyp] strcmp_eq
        by (auto simp: genfs_sorted_def)
      then have "find (\<lambda>g. fstype g = fstyp) (g # gs) = None" unfolding find_None_iff by blast
      then show ?thesis by (simp only: genfs_entries_def option.case)
    qed
    then show ?thesis
      using past assms(1) Cons.prems by (auto simp: genfs_walk_ok_def walk_ok_def intro!: exI [of _ "[]"])
  next
    case here
    obtain r cs' st' where w: "ocon_sid P (genfs_head g) st h = (r, cs', st')" by (cases "ocon_sid P (genfs_head g) st h") auto
    have walk: "walk_ok entry_ok P st (genfs_head g) (r, cs', st') (\<lambda>c. sid0 c \<noteq> 0)"
      unfolding w [symmetric] by (rule ocon_sid_walk [OF assms(1) g])
    have "genfs_entries fstyp (g # gs) = genfs_head g" using here strcmp_eq by (auto simp: genfs_entries_def)
    then show ?thesis
      using here w walk walk_ok_parts [OF walk] entries_kept(3) [OF _ gs]
      by (auto simp: genfs_walk_ok_def genfs_ok_def entries_ok_def)
  next
    case later
    obtain r gs' st' where w: "genfs_sid_loop fstyp P gs st h = (r, gs', st')" by (cases "genfs_sid_loop fstyp P gs st h") auto
    then have rest: "genfs_walk_ok fstyp P st gs (r, gs', st')" using Cons.IH [OF gs] by simp
    have "fstype g \<noteq> fstyp" using later strcmp_eq [of fstyp "fstype g"] by auto
    then have "genfs_entries fstyp (g # gs) = genfs_entries fstyp gs" by (simp add: genfs_entries_def)
    moreover have "genfs_sorted (g # gs) \<Longrightarrow> genfs_sorted gs" by (simp add: genfs_sorted_def)
    moreover have "entries_ok st' (genfs_head g)"
      using rest g entries_kept(1) [of st st' "genfs_head g"] by (auto simp: genfs_walk_ok_def entries_ok_def)
    ultimately show ?thesis using later w rest by (auto simp: genfs_walk_ok_def genfs_ok_def)
  qed
qed

abbreviation genfs_matches :: "string \<Rightarrow> u16 \<Rightarrow> string ocontext \<Rightarrow> bool" where
  "genfs_matches path sclass \<equiv>
     \<lambda>c. (ocon_v c = 0 \<or> ucast sclass = ocon_v c) \<and> take (length (ocon_u c)) path = ocon_u c"

lemma genfs_sid_ok:
  assumes wf: "server_wf s" and run: "genfs_sid s fstyp path sclass h = ((status, sid), s')"
  shows "request_ok s s' \<and>
    (genfs_sorted (genfs_list (spol s)) \<longrightarrow>
      (case find (genfs_matches path sclass) (genfs_entries fstyp (genfs_list (spol s))) of
         None \<Rightarrow> status = Some ENOENT \<and> sid = Some SECINITSID_UNLABELED
       | Some c \<Rightarrow> status = Some ENOMEM \<and> sid = None \<or>
           status = None \<and> (\<exists>x. sid = Some x \<and> x \<noteq> 0 \<and> labelled (ssids s') x (context0 c))))"
proof -
  let ?P = "genfs_matches path sclass"
  obtain q gs st where w: "genfs_sid_loop fstyp ?P (genfs_list (spol s)) (ssids s) h = (q, gs, st)"
    by (cases "genfs_sid_loop fstyp ?P (genfs_list (spol s)) (ssids s) h") auto
  have walk: "genfs_walk_ok fstyp ?P (ssids s) (genfs_list (spol s)) (q, gs, st)"
    unfolding w [symmetric] by (rule genfs_loop_walk) (use wf in \<open>simp_all add: server_wf_def labels_ok_def\<close>)
  have out: "s' = s\<lparr>spol := (spol s)\<lparr>genfs_list := gs\<rparr>, ssids := st\<rparr>"
    and res: "(status, sid) = (case q of (_, Some e) \<Rightarrow> (Some e, None) | (Some c, None) \<Rightarrow> (None, Some (sid0 c))
      | (None, None) \<Rightarrow> (Some ENOENT, Some SECINITSID_UNLABELED))"
    using run unfolding genfs_sid_def w by auto
  have "request_ok s s'"
    unfolding out using walk
    by (intro walk_request [OF wf]) (auto simp: genfs_walk_ok_def label_request)
  moreover have "case find ?P (genfs_entries fstyp (genfs_list (spol s))) of
         None \<Rightarrow> status = Some ENOENT \<and> sid = Some SECINITSID_UNLABELED
       | Some c \<Rightarrow> status = Some ENOMEM \<and> sid = None \<or>
           status = None \<and> (\<exists>x. sid = Some x \<and> x \<noteq> 0 \<and> labelled st x (context0 c))"
    if sorted: "genfs_sorted (genfs_list (spol s))"
  proof -
    obtain cs' where W: "walk_ok entry_ok ?P (ssids s) (genfs_entries fstyp (genfs_list (spol s))) (q, cs', st) (\<lambda>c. sid0 c \<noteq> 0)"
      using walk sorted by (auto simp: genfs_walk_ok_def)
    show ?thesis
    proof (cases "find ?P (genfs_entries fstyp (genfs_list (spol s)))")
      case None
      then show ?thesis using W res by (auto simp: walk_ok_def split: prod.splits)
    next
      case (Some c)
      then obtain c' e where "q = (Some c', e)" "entry_like c c'" "entry_ok st c'" "e = None \<and> sid0 c' \<noteq> 0 \<or> e = Some ENOMEM"
        using W by (auto simp: walk_ok_def split: prod.splits)
      then show ?thesis using entry_like_contexts [of c c'] Some res by (auto simp: entry_ok_def cached_def)
    qed
  qed
  moreover have st: "ssids s' = st" by (simp add: out)
  ultimately show ?thesis unfolding st by blast
qed

lemma fs_use_ok:
  assumes wf: "server_wf s" and run: "fs_use s fstyp h = ((status, behavior, sid), s')"
  shows "request_ok s s' \<and>
    (case find (\<lambda>c. strcmp fstyp (ocon_u c) = 0) (ocon_fsuse (spol s)) of
       Some c \<Rightarrow> behavior = ocon_v c \<and> (status = Some ENOMEM \<and> sid = None \<or>
         status = None \<and> (\<exists>x. sid = Some x \<and> x \<noteq> 0 \<and> labelled (ssids s') x (context0 c)))
     | None \<Rightarrow> status = None \<and> (\<exists>gstatus. genfs_sid s fstyp ''/'' (dir_class (spol s)) h = ((gstatus, sid), s') \<and>
         behavior = (if gstatus = None then SECURITY_FS_USE_GENFS else SECURITY_FS_USE_NONE)))"
proof -
  let ?P = "\<lambda>c. strcmp fstyp (ocon_u c) = 0"
  obtain found e cs st where w: "ocon_sid ?P (ocon_fsuse (spol s)) (ssids s) h = ((found, e), cs, st)"
    by (metis surj_pair)
  have walk: "walk_ok entry_ok ?P (ssids s) (ocon_fsuse (spol s)) ((found, e), cs, st) (\<lambda>c. sid0 c \<noteq> 0)"
    unfolding w [symmetric]
    by (rule ocon_sid_walk) (use wf in \<open>simp_all add: server_wf_def labels_ok_def entries_ok_def\<close>)
  show ?thesis
  proof (cases "find ?P (ocon_fsuse (spol s))")
    case None
    then have none: "found = None" using walk by (simp add: walk_ok_def)
    obtain gs gsid s1 where g: "genfs_sid s fstyp ''/'' (dir_class (spol s)) h = ((gs, gsid), s1)" by (metis surj_pair)
    have "status = None" "sid = gsid" "s' = s1" "behavior = (if gs = None then SECURITY_FS_USE_GENFS else SECURITY_FS_USE_NONE)"
      using run unfolding fs_use_def w none g by (auto split: if_splits)
    then show ?thesis using genfs_sid_ok [OF wf g] None g by auto
  next
    case (Some c)
    then obtain c' where c': "found = Some c'" "entry_like c c'" "entry_ok st c'" "e = None \<and> sid0 c' \<noteq> 0 \<or> e = Some ENOMEM"
      using walk by (auto simp: walk_ok_def)
    have out: "status = e" "behavior = ocon_v c'" "sid = (if e = None then Some (sid0 c') else None)"
        "s' = s\<lparr>spol := (spol s)\<lparr>ocon_fsuse := cs\<rparr>, ssids := st\<rparr>"
      using run unfolding fs_use_def w c'(1) by auto
    have "request_ok s s'"
      unfolding out(4) using walk_ok_parts [OF walk]
      by (intro walk_request [OF wf]) (auto simp: label_request entries_ok_def)
    then show ?thesis using Some c' entry_like_contexts [OF c'(2)] by (auto simp: out entry_ok_def cached_def)
  qed
qed

end
