(* ===== verification/Sample_Server.thy ===== *)
theory Sample_Server
  imports Object_Labels
begin

text \<open>
  A small server for the examples: the sample policy with one port context, and a SID table in which SID 1
  stands for the first sample context.
\<close>

section \<open>The SID table\<close>

definition sample_sids :: sidtab where
  "sample_sids = fst (snd (sidtab_context_to_sid new_sidtab (sample_context 1) []))"

lemma sample_range_valid: "valid_range (crange (sample_context t))"
  using sample_level_dom by (simp add: valid_range_def range_wf_def sample_context_def level_wf_def
      sample_level_def sample_wf)

lemma sample_sids_abs: "sidtab_abs sample_sids = [1 \<mapsto> sample_context 1]" "sidtab_wf sample_sids"
proof -
  let ?s = "new_sidtab\<lparr>next_sid := 2\<rparr>" and ?c = "sample_context 1"
  have none: "sidtab_search_context new_sidtab ?c = 0" by (simp add: sidtab_search_context_def new_sidtab_def)
  have wf: "sidtab_wf ?s" "sidtab_abs ?s = Map.empty"
    using new_sidtab(1,4) by (simp_all add: sidtab_wf_def sidtab_abs_def)
  obtain r s1 h1 where i: "sidtab_insert ?s 1 ?c [] = (r, s1, h1)" by (cases "sidtab_insert ?s 1 ?c []") auto
  have I: "sidtab_wf s1" "r = Inr ()" "sidtab_abs s1 = [1 \<mapsto> ?c]"
    using sidtab_insert_abs [OF wf(1) valid_range_wf [OF sample_range_valid] _ _ i] wf(2) by (auto simp: mem_ok_def)
  have "sidtab_context_to_sid new_sidtab ?c [] = (Inr 1, s1, h1)"
    using none i I(2) new_sidtab(2,3) by (simp add: sidtab_context_to_sid_def Let_def)
  then show "sidtab_abs sample_sids = [1 \<mapsto> ?c]" "sidtab_wf sample_sids" using I by (simp_all add: sample_sids_def)
qed

lemma sample_sids_ok: "sids_ok sample_sids"
  using sample_range_valid by (auto simp: sids_ok_def sample_sids_abs split: if_splits)

lemma sample_sids_search: "sidtab_search sample_sids 1 = Some (sample_context 1)"
  by (simp add: sidtab_search_abs [OF sample_sids_abs(2)] sample_sids_abs)

text \<open>The SID of the context is found again.\<close>

lemma sample_sids_context:
  assumes "context_wf c" "context_abs c = context_abs (sample_context 1)"
  shows "sidtab_context_to_sid sample_sids c h = (Inr 1, sample_sids, h)"
proof -
  have "sidtab_search_context sample_sids c = 1"
  proof (cases "sidtab_search_context sample_sids c = 0")
    case True
    have "sidtab_abs sample_sids 1 = Some (sample_context 1)" by (simp add: sample_sids_abs)
    then show ?thesis using search_context_abs(1) [OF sample_sids_abs(2) assms(1) True] assms(2) by metis
  next
    case False
    then show ?thesis
      using search_context_abs(2) [OF sample_sids_abs(2) assms(1)] by (auto simp: sample_sids_abs split: if_splits)
  qed
  then show ?thesis by (simp add: sidtab_context_to_sid_def)
qed

section \<open>The server\<close>

definition sample_port :: "port_u ocontext" where
  "sample_port = \<lparr>ocon_u = \<lparr>protocol = 6, low_port = 22, high_port = 23\<rparr>, ocon_v = 0,
     context0 = sample_context 1, context1 = sample_context 1, sid0 = 0, sid1 = 0\<rparr>"

definition sample_server :: server where
  "sample_server = \<lparr>spol = sample_policy\<lparr>ocon_port := [sample_port]\<rparr>, ssids = sample_sids\<rparr>"

lemma sample_user_unique:
  "hashtab_search (table (p_users sample_policy)) name = Some u \<Longrightarrow> u = sample_user"
  by (auto simp: sample_policy_def one_chain_def hashtab_search_def Let_def split: list.splits if_splits)

lemma sample_policy_ok: "policy_ok sample_policy"
proof -
  have "range_wf (exp_range sample_user)" "level_wf (exp_dfltlevel sample_user)"
    "mls_level_between (exp_dfltlevel sample_user) (low (exp_range sample_user)) (high (exp_range sample_user))"
    using sample_level_dom by (simp_all add: sample_user_def range_wf_def level_wf_def sample_level_def sample_wf
        mls_level_between_def)
  moreover have "u = sample_user" if "v \<noteq> 0" "v \<le> nprim (p_users sample_policy)"
    "val_struct (user_val_to_struct sample_policy) v = Some u" for v u
  proof -
    have "unat v = 1" using that(1,2) unat_gt_0 [of v] by (simp add: sample_policy_def one_chain_def word_le_nat_alt)
    then have "v = 1" using word_eq_unatI [of v 1] by simp
    then show ?thesis using that(3) by (simp add: sample_policy_def val_struct_def)
  qed
  moreover have "hashtab_search (range_tr sample_policy) k = None" for k
    by (simp add: sample_policy_def hashtab_search_def)
  ultimately show ?thesis unfolding policy_ok_def using sample_user_unique by fastforce
qed

lemma sample_unlabelled: "labels_ok (spol sample_server) st" "labels_ok sample_policy st"
  using sample_range_valid
  by (simp_all add: sample_server_def labels_ok_def sample_policy_def entries_ok_def entries2_ok_def genfs_ok_def
      entry_ok_def cached_def sample_port_def)

lemma sample_server_wf: "server_wf sample_server"
  using sample_policy_ok sample_sids_ok sample_unlabelled(1)
  by (simp add: server_wf_def) (simp add: sample_server_def policy_ok_def)

end
