(* ===== verification/Reload.thy ===== *)
theory Reload
  imports Sample_Server
begin

text \<open>
  Loading of a new policy (\<open>sepol_load_policy\<close>): the comparison of the classes and permissions of the
  two policies, the copy of the SID table, the conversion of its contexts, and the exchange.

  The policy that \<open>policydb_read\<close> returns is an argument (\<open>Inl ENOMEM\<close> when \<open>policydb_init\<close> fails,
  another error when the policy cannot be read), as are the allocation outcomes of each conversion. A context whose conversion fails is removed from the table, so
  a failed conversion carries no context. \<open>policydb_destroy(&mypolicydb)\<close> is called when the new
  policy cannot be read: if that is the active database (\<open>own\<close>), no server is left.
\<close>

section \<open>Comparison of classes\<close>

definition validate_perm ::
  "(string, perm_datum) hashtab option \<Rightarrow> string \<Rightarrow> perm_datum \<Rightarrow> unit \<Rightarrow> int \<times> unit" where
  "validate_perm p key perdatum u = (case hashtab_search p key of
       None \<Rightarrow> (- 1, u)
     | Some perdatum2 \<Rightarrow> if perm_value perdatum \<noteq> perm_value perdatum2 then (- 1, u) else (0, u))"

definition validate_class :: "policydb \<Rightarrow> string \<Rightarrow> class_datum \<Rightarrow> unit \<Rightarrow> int \<times> unit" where
  "validate_class newp key cladatum u = (case hashtab_search (table (p_classes newp)) key of
       None \<Rightarrow> (- 1, u)
     | Some cladatum2 \<Rightarrow>
         if class_value cladatum \<noteq> class_value cladatum2 then (- 1, u)
         else if comdatum cladatum \<noteq> None \<and> comdatum cladatum2 = None \<or>
             comdatum cladatum = None \<and> comdatum cladatum2 \<noteq> None then (- 1, u)
         else if comdatum cladatum \<noteq> None \<and>
             fst (hashtab_map (table (common_permissions (the (comdatum cladatum))))
               (validate_perm (table (common_permissions (the (comdatum cladatum2))))) u) \<noteq> 0 then (- 1, u)
         else if fst (hashtab_map (table (class_permissions cladatum))
             (validate_perm (table (class_permissions cladatum2))) u) \<noteq> 0 then (- 1, u)
         else (0, u))"

section \<open>Contexts\<close>

definition clone_sid :: "u32 \<Rightarrow> context_struct \<Rightarrow> sidtab \<times> heap \<Rightarrow> int \<times> context_struct \<times> (sidtab \<times> heap)" where
  "clone_sid sid c arg = (case arg of (s, h) \<Rightarrow> case sidtab_insert s sid c h of
       (Inl _, s, h) \<Rightarrow> (- 1, c, (s, h))
     | (Inr _, s, h) \<Rightarrow> (0, c, (s, h)))"

definition convert_context_handle_invalid_context :: "unit result" where
  "convert_context_handle_invalid_context = (if selinux_enforcing \<noteq> 0 then Inl EINVAL else Inr ())"

definition convert_context ::
  "policydb \<Rightarrow> policydb \<Rightarrow> context_struct \<Rightarrow> heap \<Rightarrow> (context_struct \<times> heap) result" where
  "convert_context oldp newp c h = bind_res (catch_res ENOMEM (context_cpy c h)) (\<lambda>(oldc, h).
     case hashtab_search (table (p_users newp)) (the (val_name (p_user_val_to_name oldp) (cuser c))) of
       None \<Rightarrow> Inl EINVAL
     | Some usrdatum \<Rightarrow>
       (case hashtab_search (table (p_roles newp)) (the (val_name (p_role_val_to_name oldp) (crole c))) of
          None \<Rightarrow> Inl EINVAL
        | Some role \<Rightarrow>
          (case hashtab_search (table (p_types newp)) (the (val_name (p_type_val_to_name oldp) (ctype c))) of
             None \<Rightarrow> Inl EINVAL
           | Some typdatum \<Rightarrow>
               bind_res (mls_convert_context oldp newp
                   (c\<lparr>cuser := user_value usrdatum, crole := role_value role, ctype := type_value typdatum\<rparr>) h) (\<lambda>(c, h).
                 if context_is_valid newp c then Inr (c, h)
                 else bind_res convert_context_handle_invalid_context (\<lambda>_. Inr (c, h))))))"

text \<open>The callback of the traversal takes the allocation outcomes of its calls one after the other.\<close>

definition convert_context_apply :: "policydb \<Rightarrow> policydb \<Rightarrow> u32 \<Rightarrow> context_struct \<Rightarrow> heap list \<Rightarrow>
    int \<times> context_struct \<times> heap list" where
  "convert_context_apply oldp newp key c hs =
     (case convert_context oldp newp c (case hs of [] \<Rightarrow> [] | h # _ \<Rightarrow> h) of
        Inl _ \<Rightarrow> (- 1, c, tl hs)
      | Inr (c', _) \<Rightarrow> (0, c', tl hs))"

section \<open>The exchange\<close>

text \<open>A table whose initialisation failed has no chains, so that every insertion fails.\<close>

definition fresh_sidtab :: "heap \<Rightarrow> sidtab \<times> heap" where
  "fresh_sidtab h = (let s = \<lparr>shtable = None, snel = 0, next_sid = 0, shutdown = False\<rparr> in
     case sidtab_init s h of Inl _ \<Rightarrow> (s, snd (malloc h)) | Inr (s, h) \<Rightarrow> (s, h))"

definition load_policy ::
  "server \<Rightarrow> bool \<Rightarrow> policydb result \<Rightarrow> heap \<Rightarrow> heap list \<Rightarrow> unit result \<times> server option" where
  "load_policy s own new h hs = (case new of
       Inl e \<Rightarrow> if e = ENOMEM then (Inl ENOMEM, Some s)
         else (Inl EINVAL, if own then None else Some s)
     | Inr newpolicydb \<Rightarrow> (case fresh_sidtab h of (newsidtab, h) \<Rightarrow>
         if fst (hashtab_map (table (p_classes (spol s))) (validate_class newpolicydb) ()) \<noteq> 0
         then (Inl EINVAL, Some s)
         else let old = sidtab_shutdown (ssids s) in
           case sidtab_map old clone_sid (newsidtab, h) of (ret, old, newsidtab, _) \<Rightarrow>
             if ret \<noteq> 0 then (Inl ENOMEM, Some (s\<lparr>ssids := old\<rparr>))
             else (case sidtab_map_remove_on_error newsidtab (convert_context_apply (spol s) newpolicydb) hs of
               (newsidtab, _) \<Rightarrow> (Inr (), Some \<lparr>spol = newpolicydb, ssids = sidtab_set old newsidtab\<rparr>))))"

section \<open>Traversals of the SID table\<close>

text \<open>The copy of the table inserts its nodes one after the other and stops at the first failure.\<close>

fun clone_all :: "sidtab_node list \<Rightarrow> sidtab \<times> heap \<Rightarrow> int \<times> (sidtab \<times> heap)" where
  "clone_all [] arg = (0, arg)"
| "clone_all ((sid, c) # ns) arg = (case clone_sid sid c arg of (ret, _, arg) \<Rightarrow>
     if ret \<noteq> 0 then (ret, arg) else clone_all ns arg)"

lemma clone_sid_node: "fst (snd (clone_sid sid c arg)) = c"
  by (simp add: clone_sid_def split: prod.split sum.split)

lemma clone_chain: "sid_chain_map clone_sid ns arg = (fst (clone_all ns arg), ns, snd (clone_all ns arg))"
proof (induction ns arbitrary: arg)
  case (Cons n ns)
  obtain sid c where n: "n = (sid, c)" by (cases n)
  obtain ret arg' where r: "clone_sid sid c arg = (ret, c, arg')"
    using clone_sid_node [of sid c arg] by (cases "clone_sid sid c arg") auto
  show ?case using Cons.IH [of arg'] by (simp add: n r)
qed simp

lemma clone_all_append:
  "clone_all (xs @ ys) arg = (if fst (clone_all xs arg) \<noteq> 0 then clone_all xs arg else clone_all ys (snd (clone_all xs arg)))"
  by (induction xs arg rule: clone_all.induct) (auto split: prod.splits)

lemma clone_chains: "sid_chains_map clone_sid t arg = (fst (clone_all (concat t) arg), t, snd (clone_all (concat t) arg))"
proof (induction t arbitrary: arg)
  case (Cons ch t)
  show ?case using Cons.IH [of "snd (clone_all ch arg)"] by (simp add: clone_chain clone_all_append)
qed simp

lemma clone_map:
  "sidtab_map s clone_sid arg = (fst (clone_all (concat (case shtable s of None \<Rightarrow> [] | Some t \<Rightarrow> t)) arg), s,
     snd (clone_all (concat (case shtable s of None \<Rightarrow> [] | Some t \<Rightarrow> t)) arg))"
  by (simp add: sidtab_map_def clone_chains split: option.split)

definition sid_nodes :: "sidtab \<Rightarrow> sidtab_node list" where
  "sid_nodes s = concat (case shtable s of None \<Rightarrow> [] | Some t \<Rightarrow> t)"

lemma sid_nodes_wf:
  assumes "sidtab_wf s"
  shows "distinct (map fst (sid_nodes s))" and "sidtab_abs s = map_of (sid_nodes s)"
    and "(sid, c) \<in> set (sid_nodes s) \<Longrightarrow> 0 < sid \<and> sid \<noteq> - 1 \<and> context_wf c"
proof -
  obtain t where t: "shtable s = Some t" and cwf: "chains_wf sid_hash spaceship_cmp SIDTAB_SIZE t"
    using assms by (auto simp: sidtab_wf_def split: option.splits)
  show d: "distinct (map fst (sid_nodes s))" using sid.chains_distinct [OF cwf] by (simp add: sid_nodes_def t)
  show abs: "sidtab_abs s = map_of (sid_nodes s)" by (simp add: sid_nodes_def sidtab_abs_def t)
  assume "(sid, c) \<in> set (sid_nodes s)"
  then have "sidtab_abs s sid = Some c" using d abs by (simp add: map_of_is_SomeI)
  then have "0 < sid" "sid < next_sid s" "context_wf c" using assms by (auto simp: sidtab_wf_def)
  moreover from \<open>sid < next_sid s\<close> have "sid \<noteq> - 1" using word_order.extremum_strict by blast
  ultimately show "0 < sid \<and> sid \<noteq> - 1 \<and> context_wf c" by simp
qed

lemma clone_all_correct:
  assumes "sidtab_wf st" "distinct (map fst ns)" "\<forall>n \<in> set ns. 0 < fst n \<and> fst n \<noteq> - 1 \<and> context_wf (snd n)"
    and "\<forall>n \<in> set ns. sidtab_abs st (fst n) = None" "clone_all ns (st, h) = (0, st', h')"
  shows "sidtab_wf st' \<and> sidtab_abs st' = sidtab_abs st ++ map_of ns \<and> shutdown st' = shutdown st"
  using assms
proof (induction ns arbitrary: st h)
  case Nil
  then show ?case by simp
next
  case (Cons n ns)
  obtain sid c where n: "n = (sid, c)" by (cases n)
  obtain r st1 h1 where ins: "sidtab_insert st sid c h = (r, st1, h1)" by (cases "sidtab_insert st sid c h") auto
  have r: "r = Inr ()" and rest: "clone_all ns (st1, h1) = (0, st', h')"
    using Cons.prems(5) by (auto simp: n clone_sid_def ins split: sum.splits)
  have I: "sidtab_wf st1" "shutdown st1 = shutdown st" "sidtab_abs st1 = (sidtab_abs st)(sid \<mapsto> c)"
    using sidtab_insert_abs [OF Cons.prems(1) _ _ _ ins] Cons.prems(3) r by (auto simp: n)
  have "\<forall>n \<in> set ns. sidtab_abs st1 (fst n) = None" using Cons.prems(2,4) I(3) by (force simp: n)
  with Cons.IH [OF I(1) _ _ _ rest] Cons.prems(2,3)
  have "sidtab_wf st'" "sidtab_abs st' = sidtab_abs st1 ++ map_of ns" "shutdown st' = shutdown st1" by simp_all
  moreover have "map_of ns sid = None" using Cons.prems(2) by (simp add: n map_of_eq_None_iff)
  then have "(sidtab_abs st)(sid \<mapsto> c) ++ map_of ns = sidtab_abs st ++ map_of ((sid, c) # ns)"
    by (auto simp: map_add_def fun_eq_iff split: option.split)
  ultimately show ?case by (simp only: n I(2,3) simp_thms)
qed

text \<open>The conversion of the table drops the nodes that it cannot convert and keeps the order.\<close>

definition chain_converted ::
  "policydb \<Rightarrow> policydb \<Rightarrow> sidtab_node list \<Rightarrow> sidtab_node list \<Rightarrow> bool" where
  "chain_converted oldp newp ns ns' \<longleftrightarrow>
     (\<forall>P. sorted_wrt P (map fst ns) \<longrightarrow> sorted_wrt P (map fst ns')) \<and>
     (\<forall>sid c'. (sid, c') \<in> set ns' \<longrightarrow>
       (\<exists>c h h'. (sid, c) \<in> set ns \<and> convert_context oldp newp c h = Inr (c', h')))"

lemma chain_converted_keys:
  assumes "chain_converted oldp newp ns ns'"
  shows "fst ` set ns' \<subseteq> fst ` set ns"
proof
  fix sid assume "sid \<in> fst ` set ns'"
  then obtain c' where "(sid, c') \<in> set ns'" by auto
  then obtain c where "(sid, c) \<in> set ns" using assms unfolding chain_converted_def by blast
  then show "sid \<in> fst ` set ns" by force
qed

lemma convert_chain:
  "sid_chain_filter (convert_context_apply oldp newp) ns hs = (ns', k, hs') \<Longrightarrow> chain_converted oldp newp ns ns'"
proof (induction ns arbitrary: hs ns' k hs')
  case Nil
  then show ?case by (simp add: chain_converted_def)
next
  case (Cons n ns)
  obtain sid c where n: "n = (sid, c)" by (cases n)
  obtain ret c1 hs1 where a: "convert_context_apply oldp newp sid c hs = (ret, c1, hs1)"
    by (cases "convert_context_apply oldp newp sid c hs") auto
  obtain ns1 k1 hs2 where rest: "sid_chain_filter (convert_context_apply oldp newp) ns hs1 = (ns1, k1, hs2)"
    by (cases "sid_chain_filter (convert_context_apply oldp newp) ns hs1") auto
  have IH: "chain_converted oldp newp ns ns1" using Cons.IH [OF rest] .
  define h where "h = (case hs of [] \<Rightarrow> [] | h # _ \<Rightarrow> h)"
  have conv: "case convert_context oldp newp c h of Inl e \<Rightarrow> ret \<noteq> 0 | Inr (c', h') \<Rightarrow> ret = 0 \<and> c1 = c'"
    using a by (auto simp: convert_context_apply_def h_def split: sum.splits prod.splits)
  have keys: "\<forall>x \<in> set (map fst ns1). x \<in> set (map fst ns)" using chain_converted_keys [OF IH] by auto
  show ?case
  proof (cases "convert_context oldp newp c h")
    case (Inl e)
    then have "ns' = ns1" using Cons.prems conv by (simp add: n a rest)
    then show ?thesis using IH Inl by (fastforce simp: chain_converted_def n)
  next
    case (Inr x)
    then obtain h' where x: "convert_context oldp newp c h = Inr (c1, h')" "ret = 0" using conv by (cases x) auto
    then have ns': "ns' = (sid, c1) # ns1" using Cons.prems by (simp add: n a rest)
    have "sorted_wrt P (map fst ns')" if "sorted_wrt P (map fst (n # ns))" for P
    proof -
      have "sorted_wrt P (map fst ns)" and first: "\<forall>x \<in> set (map fst ns). P sid x" using that by (simp_all add: n)
      then have "sorted_wrt P (map fst ns1)" using IH unfolding chain_converted_def by blast
      moreover have "\<forall>x \<in> set (map fst ns1). P sid x" using first keys by blast
      ultimately show ?thesis by (simp add: ns')
    qed
    then show ?thesis using IH x(1) by (fastforce simp: chain_converted_def n ns')
  qed
qed

lemma convert_chains:
  "sid_chains_filter (convert_context_apply oldp newp) t hs = (t', k, hs') \<Longrightarrow>
    list_all2 (chain_converted oldp newp) t t'"
proof (induction t arbitrary: hs t' k hs')
  case (Cons ch t)
  obtain ch1 n hs1 where ch: "sid_chain_filter (convert_context_apply oldp newp) ch hs = (ch1, n, hs1)"
    by (cases "sid_chain_filter (convert_context_apply oldp newp) ch hs") auto
  obtain t1 m hs2 where rest: "sid_chains_filter (convert_context_apply oldp newp) t hs1 = (t1, m, hs2)"
    by (cases "sid_chains_filter (convert_context_apply oldp newp) t hs1") auto
  show ?case using Cons.prems Cons.IH [OF rest] convert_chain [OF ch] by (auto simp: ch rest)
qed simp

lemma converted_chains_wf:
  assumes "list_all2 (chain_converted oldp newp) t t'" "chains_wf hv kc s t"
  shows "chains_wf hv kc s t'"
proof -
  have len: "length t' = length t" using assms(1) by (simp add: list_all2_lengthD)
  have "chain_sorted kc (t' ! i) \<and> (\<forall>n \<in> set (t' ! i). unat (hv s (fst n)) = i)" if i: "i < length t" for i
  proof -
    have c: "chain_converted oldp newp (t ! i) (t' ! i)" using assms(1) i by (simp add: list_all2_nthD)
    have "sorted_wrt (\<lambda>a b. kc a b < 0) (map fst (t ! i))"
      using chains_wfD(1) [OF assms(2) i] by (simp add: chain_sorted_def sorted_wrt_map)
    then have "sorted_wrt (\<lambda>a b. kc a b < 0) (map fst (t' ! i))" using c unfolding chain_converted_def by blast
    then have "chain_sorted kc (t' ! i)" by (simp add: chain_sorted_def sorted_wrt_map)
    moreover have "unat (hv s (fst n)) = i" if "n \<in> set (t' ! i)" for n
    proof -
      have "fst n \<in> fst ` set (t ! i)" using chain_converted_keys [OF c] that by blast
      then obtain m where "m \<in> set (t ! i)" "fst m = fst n" by auto
      then show ?thesis using chains_wfD(2) [OF assms(2) i] by metis
    qed
    ultimately show ?thesis by blast
  qed
  then show ?thesis using assms(2) len by (simp add: chains_wf_def)
qed

text \<open>
  A node disappears only because its conversion fails, with the outcomes of one element of \<open>hs\<close>. Counted with these:
  as many nodes that could be converted disappear as there are elements with a failed allocation, at most.
\<close>

definition failing :: "heap list \<Rightarrow> nat" where
  "failing hs = length (filter (\<lambda>h. \<not> mem_ok h) hs)"

definition conversion_dies :: "policydb \<Rightarrow> policydb \<Rightarrow> context_struct \<Rightarrow> bool" where
  "conversion_dies oldp newp c \<longleftrightarrow> (\<exists>h e. mem_ok h \<and> convert_context oldp newp c h = Inl e)"

definition lost :: "policydb \<Rightarrow> policydb \<Rightarrow> sidtab_node list \<Rightarrow> sidtab_node list \<Rightarrow> sidtab_node list" where
  "lost oldp newp ns ns' = filter (\<lambda>n. \<not> conversion_dies oldp newp (snd n) \<and> fst n \<notin> fst ` set ns') ns"

lemma lost_fewer: "set ns' \<subseteq> set ns'' \<Longrightarrow> length (lost oldp newp ns ns'') \<le> length (lost oldp newp ns ns')"
proof -
  assume "set ns' \<subseteq> set ns''"
  then have "lost oldp newp ns ns'' = filter (\<lambda>n. fst n \<notin> fst ` set ns'') (lost oldp newp ns ns')"
    by (auto simp: lost_def intro!: filter_cong)
  then show ?thesis by (metis length_filter_le)
qed

lemma failing_Cons: "failing (tl hs) + (if mem_ok (case hs of [] \<Rightarrow> [] | h # _ \<Rightarrow> h) then 0 else 1) = failing hs"
  by (cases hs) (simp_all add: failing_def)

lemma convert_chain_lost:
  "sid_chain_filter (convert_context_apply oldp newp) ns hs = (ns', k, hs') \<Longrightarrow>
    length (lost oldp newp ns ns') + failing hs' \<le> failing hs"
proof (induction ns arbitrary: hs ns' k hs')
  case Nil
  then show ?case by (simp add: lost_def)
next
  case (Cons n ns)
  obtain sid c where n: "n = (sid, c)" by (cases n)
  obtain ret c1 hs1 where a: "convert_context_apply oldp newp sid c hs = (ret, c1, hs1)"
    by (cases "convert_context_apply oldp newp sid c hs") auto
  obtain ns1 k1 hs2 where rest: "sid_chain_filter (convert_context_apply oldp newp) ns hs1 = (ns1, k1, hs2)"
    by (cases "sid_chain_filter (convert_context_apply oldp newp) ns hs1") auto
  define h where "h = (case hs of [] \<Rightarrow> [] | h # _ \<Rightarrow> h)"
  have conv: "hs1 = tl hs \<and> (ret \<noteq> 0 \<longleftrightarrow> (\<exists>e. convert_context oldp newp c h = Inl e))"
    using a by (auto simp: convert_context_apply_def h_def split: sum.splits prod.splits)
  have IH: "length (lost oldp newp ns ns1) + failing hs2 \<le> failing (tl hs)" using Cons.IH [OF rest] conv by simp
  have out: "ns' = (if ret \<noteq> 0 then ns1 else (sid, c1) # ns1)" "hs' = hs2"
    using Cons.prems by (cases "ret = 0", auto simp: n a rest)+
  have "set ns1 \<subseteq> set ns'" by (auto simp: out(1))
  then have "length (lost oldp newp ns ns') \<le> length (lost oldp newp ns ns1)" by (rule lost_fewer)
  moreover have "length (lost oldp newp (n # ns) ns') \<le> length (lost oldp newp ns ns') + (if mem_ok h then 0 else 1)"
    using conv out(1) by (auto simp: lost_def n conversion_dies_def)
  ultimately show ?case using IH failing_Cons [of hs] unfolding out(2) h_def by linarith
qed

lemma convert_chains_lost:
  "sid_chains_filter (convert_context_apply oldp newp) t hs = (t', k, hs') \<Longrightarrow>
    length (lost oldp newp (concat t) (concat t')) + failing hs' \<le> failing hs"
proof (induction t arbitrary: hs t' k hs')
  case (Cons ch t)
  obtain ch1 n hs1 where ch: "sid_chain_filter (convert_context_apply oldp newp) ch hs = (ch1, n, hs1)"
    by (cases "sid_chain_filter (convert_context_apply oldp newp) ch hs") auto
  obtain t1 m hs2 where rest: "sid_chains_filter (convert_context_apply oldp newp) t hs1 = (t1, m, hs2)"
    by (cases "sid_chains_filter (convert_context_apply oldp newp) t hs1") auto
  have out: "t' = ch1 # t1" "hs' = hs2" using Cons.prems by (simp_all add: ch rest)
  have "length (lost oldp newp ch (concat t')) \<le> length (lost oldp newp ch ch1)"
    "length (lost oldp newp (concat t) (concat t')) \<le> length (lost oldp newp (concat t) (concat t1))"
    by (rule lost_fewer, simp add: out(1))+
  moreover have "lost oldp newp (concat (ch # t)) ns' = lost oldp newp ch ns' @ lost oldp newp (concat t) ns'" for ns'
    by (simp add: lost_def)
  ultimately show ?case using Cons.IH [OF rest] convert_chain_lost [OF ch] by (simp add: out(2))
qed (simp add: lost_def)

section \<open>The converted table\<close>

lemma converted_nodes:
  assumes "list_all2 (chain_converted oldp newp) t t'"
  shows "(sid, c') \<in> set (concat t') \<Longrightarrow> \<exists>c h h'. (sid, c) \<in> set (concat t) \<and> convert_context oldp newp c h = Inr (c', h')"
  using assms
proof (induction rule: list_all2_induct)
  case (Cons ch t ch' t')
  then show ?case unfolding chain_converted_def by fastforce
qed simp

lemma converted_table:
  assumes wf: "sidtab_wf s" and run: "sidtab_map_remove_on_error s (convert_context_apply oldp newp) hs = (s', hs')"
    and cwf: "\<And>sid c h c' h'. sidtab_abs s sid = Some c \<Longrightarrow> convert_context oldp newp c h = Inr (c', h') \<Longrightarrow> context_wf c'"
  shows "sidtab_wf s'"
    and "sidtab_abs s' sid = Some c' \<Longrightarrow>
      \<exists>c h h'. sidtab_abs s sid = Some c \<and> convert_context oldp newp c h = Inr (c', h')"
    and "card {sid. \<exists>c. sidtab_abs s sid = Some c \<and> \<not> conversion_dies oldp newp c \<and> sidtab_abs s' sid = None} \<le> failing hs"
proof -
  obtain t where t: "shtable s = Some t" and chains: "chains_wf sid_hash spaceship_cmp SIDTAB_SIZE t"
    using wf by (auto simp: sidtab_wf_def split: option.splits)
  obtain t' k where f: "sid_chains_filter (convert_context_apply oldp newp) t hs = (t', k, hs')"
    and s': "s' = s\<lparr>shtable := Some t', snel := snel s - k\<rparr>"
    using run by (auto simp: sidtab_map_remove_on_error_def t split: prod.splits)
  have conv: "list_all2 (chain_converted oldp newp) t t'" by (rule convert_chains [OF f])
  have chains': "chains_wf sid_hash spaceship_cmp SIDTAB_SIZE t'" by (rule converted_chains_wf [OF conv chains])
  have mem: "sidtab_abs s sid = Some c \<longleftrightarrow> (sid, c) \<in> set (concat t)" for sid c
    using sid.chains_distinct [OF chains] by (simp add: sidtab_abs_def t del: set_concat)
  have mem': "sidtab_abs s' sid = Some c \<longleftrightarrow> (sid, c) \<in> set (concat t')" for sid c
    using sid.chains_distinct [OF chains'] by (simp add: sidtab_abs_def s' del: set_concat)
  show from_old: "\<exists>c h h'. sidtab_abs s sid = Some c \<and> convert_context oldp newp c h = Inr (c', h')"
    if "sidtab_abs s' sid = Some c'" for sid c'
    using converted_nodes [OF conv] that unfolding mem mem' .
  have none: "sid \<notin> fst ` set (concat t')" if "sidtab_abs s' sid = None" for sid
    using mem' that by force
  have "{sid. \<exists>c. sidtab_abs s sid = Some c \<and> \<not> conversion_dies oldp newp c \<and> sidtab_abs s' sid = None} \<subseteq>
      fst ` set (lost oldp newp (concat t) (concat t'))" (is "?lost \<subseteq> _")
  proof
    fix sid assume "sid \<in> ?lost"
    then obtain c where c: "(sid, c) \<in> set (concat t)" "\<not> conversion_dies oldp newp c" "sidtab_abs s' sid = None"
      unfolding mem by blast
    then have "(sid, c) \<in> set (lost oldp newp (concat t) (concat t'))"
      using none [OF c(3)] unfolding lost_def by (simp del: set_concat)
    then show "sid \<in> fst ` set (lost oldp newp (concat t) (concat t'))" by (metis fst_conv imageI)
  qed
  then have "card ?lost \<le> card (fst ` set (lost oldp newp (concat t) (concat t')))" by (intro card_mono) simp_all
  also have "\<dots> \<le> length (lost oldp newp (concat t) (concat t'))"
    using card_image_le card_length le_trans by (metis List.finite_set)
  finally show "card ?lost \<le> failing hs" using convert_chains_lost [OF f] by linarith
  have "0 < sid \<and> sid < next_sid s' \<and> context_wf c'" if "sidtab_abs s' sid = Some c'" for sid c'
    using from_old [OF that] cwf wf by (auto simp: sidtab_wf_def s')
  moreover have "next_sid s' \<noteq> 0" using wf by (simp add: sidtab_wf_def s')
  ultimately show "sidtab_wf s'" using chains' by (simp add: sidtab_wf_def s')
qed

text \<open>A context \<open>c'\<close> of the new policy that stands for the same names as \<open>c\<close> in the old policy.\<close>

definition renamed :: "policydb \<Rightarrow> policydb \<Rightarrow> context_struct \<Rightarrow> context_struct \<Rightarrow> bool" where
  "renamed oldp newp c c' \<longleftrightarrow>
     (\<exists>d. hashtab_search (table (p_users newp)) (user_name oldp c) = Some d \<and> cuser c' = user_value d) \<and>
     (\<exists>d. hashtab_search (table (p_roles newp)) (role_name oldp c) = Some d \<and> crole c' = role_value d) \<and>
     (\<exists>d. hashtab_search (table (p_types newp)) (type_name oldp c) = Some d \<and> ctype c' = type_value d) \<and>
     (if mls oldp
      then converted oldp newp (low (crange c)) (low (crange c')) \<and> converted oldp newp (high (crange c)) (high (crange c'))
      else crange c' = crange c)"

lemma convert_context_renamed:
  assumes "convert_context oldp newp c h = Inr (c', h')" "context_wf c"
  shows "renamed oldp newp c c' \<and> context_is_valid newp c'"
proof -
  obtain u r t h1 where d: "hashtab_search (table (p_users newp)) (user_name oldp c) = Some u"
      "hashtab_search (table (p_roles newp)) (role_name oldp c) = Some r"
      "hashtab_search (table (p_types newp)) (type_name oldp c) = Some t"
    and m: "mls_convert_context oldp newp
        (c\<lparr>cuser := user_value u, crole := role_value r, ctype := type_value t\<rparr>) h1 = Inr (c', h')"
    and v: "context_is_valid newp c'"
    using assms(1)
    by (auto simp: convert_context_def convert_context_handle_invalid_context_def selinux_enforcing_def
        user_name_def role_name_def type_name_def bind_res_def split: sum.splits option.splits prod.splits if_splits)
  let ?c = "c\<lparr>cuser := user_value u, crole := role_value r, ctype := type_value t\<rparr>"
  have "c' = ?c\<lparr>crange := crange c'\<rparr> \<and> (if mls oldp
      then converted oldp newp (low (crange c)) (low (crange c')) \<and> converted oldp newp (high (crange c)) (high (crange c'))
      else crange c' = crange c)"
  proof (cases "mls oldp")
    case True
    have "range_wf (crange ?c)" using assms(2) by (simp add: context_wf_def)
    from outcome_partial [OF mls_convert_context_names [OF True this] m] True show ?thesis by simp
  next
    case False
    then show ?thesis using m by (auto simp: mls_convert_context_def)
  qed
  then have "cuser c' = cuser ?c" "crole c' = crole ?c" "ctype c' = ctype ?c" and
    "if mls oldp then converted oldp newp (low (crange c)) (low (crange c')) \<and> converted oldp newp (high (crange c)) (high (crange c'))
      else crange c' = crange c"
    by (metis context_struct.select_convs context_struct.surjective context_struct.update_convs)+
  with d v show ?thesis by (simp add: renamed_def)
qed

text \<open>A context that has a valid counterpart in the new policy.\<close>

definition convertible :: "policydb \<Rightarrow> policydb \<Rightarrow> context_struct \<Rightarrow> bool" where
  "convertible oldp newp c \<longleftrightarrow> (\<exists>c'. context_wf c' \<and> renamed oldp newp c c' \<and> context_is_valid newp c')"

lemma converted_same: "converted oldp newp l l1 \<Longrightarrow> converted oldp newp l l2 \<Longrightarrow> level_abs l1 = level_abs l2"
  by (auto simp: converted_def level_abs_def)

lemma ebitmap_set_bound:
  assumes "ebitmap_wf e" "b \<in> ebitmap_set e"
  shows "b < 2 ^ 32 - 64"
proof -
  obtain n where n: "n \<in> set (node e)" "b < unat (startbit n) + 64" using assms(2) by (auto simp: ebitmap_set_def)
  then have "64 dvd unat (startbit n)" and m: "unat (startbit n) + 64 < 2 ^ 32"
    using assms(1) by (simp_all add: ebitmap_wf_def nodes_wf_def node_ok_def)
  then obtain k where k: "unat (startbit n) = 64 * k" by blast
  then have "k + 1 < 67108864" using m by simp
  then have "64 * k + 64 \<le> 4294967232" by simp
  with n(2) k show ?thesis by simp
qed

lemma converted_convertible: "converted oldp newp l l' \<Longrightarrow> \<not> inconvertible oldp newp l"
proof
  assume c: "converted oldp newp l l'" and i: "inconvertible oldp newp l"
  obtain i v where v: "ebitmap_get_bit (cat l) i" "new_cat oldp newp i = Some v" "\<not> cat_in_range v"
    using c i unfolding inconvertible_def converted_def by (metis option.distinct(1) option.exhaust)
  then have "unat (v - 1) \<in> ebitmap_set (cat l')" using c by (auto simp: converted_def)
  then have "unat (v - 1) < 2 ^ 32 - 64" using c by (intro ebitmap_set_bound [of "cat l'"]) (simp_all add: converted_def level_wf_def)
  then show False using v(3) by (simp add: cat_in_range_def)
qed

text \<open>With memory the conversion of a convertible context succeeds.\<close>

lemma convertible_survives:
  assumes "policy_ok newp" "context_wf c" "convertible oldp newp c"
  shows "\<not> conversion_dies oldp newp c"
proof
  assume "conversion_dies oldp newp c"
  then obtain h e where h: "mem_ok h" and die: "convert_context oldp newp c h = Inl e"
    by (auto simp: conversion_dies_def)
  obtain c' where wf': "context_wf c'" and c': "renamed oldp newp c c'" "context_is_valid newp c'"
    using assms(3) by (auto simp: convertible_def)
  obtain u r t where d: "hashtab_search (table (p_users newp)) (user_name oldp c) = Some u" "cuser c' = user_value u"
      "hashtab_search (table (p_roles newp)) (role_name oldp c) = Some r" "crole c' = role_value r"
      "hashtab_search (table (p_types newp)) (type_name oldp c) = Some t" "ctype c' = type_value t"
    using c'(1) by (auto simp: renamed_def)
  let ?c = "c\<lparr>cuser := user_value u, crole := role_value r, ctype := type_value t\<rparr>"
  obtain h1 where cpy: "context_cpy c h = Inr (c, h1)" "mem_ok h1"
    using context_cpy_correct [of h c] h by (cases "context_cpy c h") auto
  have "\<exists>d h2. mls_convert_context oldp newp ?c h1 = Inr (d, h2) \<and> d = ?c\<lparr>crange := crange d\<rparr> \<and>
      context_wf d \<and> context_abs d = context_abs c'"
  proof (cases "mls oldp")
    case False
    then have "crange c' = crange c" using c'(1) by (simp add: renamed_def)
    then show ?thesis using False d assms(2) by (simp add: mls_convert_context_def context_wf_def context_abs_def)
  next
    case True
    have levels: "converted oldp newp (low (crange c)) (low (crange c'))" "converted oldp newp (high (crange c)) (high (crange c'))"
      using c'(1) True by (simp_all add: renamed_def)
    have "range_wf (crange ?c)" using assms(2) by (simp add: context_wf_def)
    note O = mls_convert_context_names [OF True this, of h1 newp]
    show ?thesis
    proof (cases "mls_convert_context oldp newp ?c h1")
      case (Inl e)
      then show ?thesis using O cpy(2) levels converted_convertible by simp
    next
      case (Inr x)
      obtain d' h2 where x: "x = (d', h2)" by (cases x)
      note P = outcome_partial [OF O Inr [unfolded x]]
      have "converted oldp newp (low (crange c)) (low (crange d'))" "converted oldp newp (high (crange c)) (high (crange d'))"
        using P by simp_all
      then have "level_abs (low (crange d')) = level_abs (low (crange c'))" "level_abs (high (crange d')) = level_abs (high (crange c'))"
        using levels converted_same by blast+
      moreover have "cuser d' = cuser ?c" "crole d' = crole ?c" "ctype d' = ctype ?c" by (subst P [THEN conjunct1], simp)+
      moreover have "context_wf d'" using P by (simp add: context_wf_def range_wf_def converted_def)
      ultimately show ?thesis using P d Inr x by (simp add: context_abs_def)
    qed
  qed
  then obtain d' h2 where m: "mls_convert_context oldp newp ?c h1 = Inr (d', h2)" "context_wf d'" "context_abs d' = context_abs c'"
    by blast
  have v: "context_is_valid newp d'"
    by (rule stored_context_valid [OF assms(1) c'(2) wf' m(2,3)])
  have "convert_context oldp newp c h = Inr (d', h2)"
    using m(1) v by (simp add: convert_context_def cpy(1) d(1,3,5) [unfolded user_name_def role_name_def type_name_def])
  then show False using die by simp
qed

section \<open>The comparison of the classes\<close>

text \<open>A traversal without state succeeds when its callback does on every entry.\<close>

lemma chain_apply_all: "fst (chain_apply f ns ()) = 0 \<longleftrightarrow> (\<forall>(k, d) \<in> set ns. fst (f k d ()) = 0)"
  by (induction ns) (auto split: prod.split)

lemma hashtab_map_all:
  assumes "table_wf symhash symcmp ho"
  shows "fst (hashtab_map ho f ()) = 0 \<longleftrightarrow> (\<forall>k d. hashtab_search ho k = Some d \<longrightarrow> fst (f k d ()) = 0)"
proof -
  obtain h where h: "ho = Some h" and k: "keyed_table symhash symcmp h" using assms by (rule table_wfE)
  have "hashtab_search ho key = Some d \<longleftrightarrow> (key, d) \<in> set (concat (htable h))" for key d
    using sym.search_abs [OF k, of key] sym.keyed_distinct [OF k] by (simp add: h hashtab_abs_def del: set_concat)
  then show ?thesis by (auto simp: h hashtab_map_entries chain_apply_all simp del: set_concat)
qed

definition perms_kept :: "perm_datum symtab \<Rightarrow> perm_datum symtab \<Rightarrow> bool" where
  "perms_kept a b \<longleftrightarrow> (\<forall>name x. hashtab_search (table a) name = Some x \<longrightarrow>
     (\<exists>y. hashtab_search (table b) name = Some y \<and> perm_value y = perm_value x))"

definition class_kept :: "class_datum \<Rightarrow> class_datum \<Rightarrow> bool" where
  "class_kept d d' \<longleftrightarrow> class_value d' = class_value d \<and>
     perms_kept (class_permissions d) (class_permissions d') \<and>
     (case (comdatum d, comdatum d') of
        (None, None) \<Rightarrow> True
      | (Some c, Some c') \<Rightarrow> perms_kept (common_permissions c) (common_permissions c')
      | _ \<Rightarrow> False)"

definition classes_kept :: "policydb \<Rightarrow> policydb \<Rightarrow> bool" where
  "classes_kept p newp \<longleftrightarrow> (\<forall>name d. hashtab_search (table (p_classes p)) name = Some d \<longrightarrow>
     (\<exists>d'. hashtab_search (table (p_classes newp)) name = Some d' \<and> class_kept d d'))"

text \<open>The tables of classes and permissions are well-formed symbol tables.\<close>

definition class_tables_wf :: "policydb \<Rightarrow> bool" where
  "class_tables_wf p \<longleftrightarrow> table_wf symhash symcmp (table (p_classes p)) \<and>
     (\<forall>name d. hashtab_search (table (p_classes p)) name = Some d \<longrightarrow>
       table_wf symhash symcmp (table (class_permissions d)) \<and>
       (\<forall>c. comdatum d = Some c \<longrightarrow> table_wf symhash symcmp (table (common_permissions c))))"

lemma validate_perm_kept:
  assumes "table_wf symhash symcmp (table a)"
  shows "fst (hashtab_map (table a) (validate_perm (table b)) ()) = 0 \<longleftrightarrow> perms_kept a b"
  unfolding hashtab_map_all [OF assms] perms_kept_def
  by (intro all_cong1 imp_cong [OF refl]) (auto simp: validate_perm_def split: option.split)

lemma validate_classes_kept:
  assumes "class_tables_wf p"
  shows "fst (hashtab_map (table (p_classes p)) (validate_class newp) ()) = 0 \<longleftrightarrow> classes_kept p newp"
proof -
  have "fst (validate_class newp name d ()) = 0 \<longleftrightarrow>
      (\<exists>d'. hashtab_search (table (p_classes newp)) name = Some d' \<and> class_kept d d')"
    if "hashtab_search (table (p_classes p)) name = Some d" for name d
  proof (cases "hashtab_search (table (p_classes newp)) name")
    case None
    then show ?thesis by (simp add: validate_class_def)
  next
    case (Some d')
    have wf: "table_wf symhash symcmp (table (class_permissions d))"
      "\<And>c. comdatum d = Some c \<Longrightarrow> table_wf symhash symcmp (table (common_permissions c))"
      using assms that by (auto simp: class_tables_wf_def)
    show ?thesis
      using Some validate_perm_kept [OF wf(1)] validate_perm_kept [OF wf(2)]
      by (cases "comdatum d"; cases "comdatum d'") (auto simp: validate_class_def class_kept_def)
  qed
  moreover have "table_wf symhash symcmp (table (p_classes p))" using assms by (simp add: class_tables_wf_def)
  ultimately show ?thesis by (simp add: hashtab_map_all classes_kept_def)
qed

section \<open>The exchange\<close>

lemma fresh_sidtab_cases:
  obtains (ok) "sidtab_wf (fst (fresh_sidtab h))" "sidtab_abs (fst (fresh_sidtab h)) = Map.empty"
  | (failed) "shtable (fst (fresh_sidtab h)) = None"
proof (cases "sidtab_init \<lparr>shtable = None, snel = 0, next_sid = 0, shutdown = False\<rparr> h")
  case (Inl e)
  then show thesis by (intro failed) (simp add: fresh_sidtab_def Let_def)
next
  case (Inr x)
  obtain s h' where x: "x = (s, h')" by (cases x)
  have "sidtab_wf s \<and> sidtab_abs s = Map.empty" using sidtab_init_wf [OF Inr [unfolded x]] .
  then show thesis using Inr x by (intro ok) (simp_all add: fresh_sidtab_def Let_def)
qed

lemma fresh_sidtab_mem: "mem_ok h \<Longrightarrow> shtable (fst (fresh_sidtab h)) \<noteq> None"
  using mem_ok_malloc [of h]
  by (auto simp: fresh_sidtab_def sidtab_init_def Let_def split: prod.splits)

text \<open>The copy of a table that is not empty succeeds only into a table with chains.\<close>

lemma cloned_table:
  assumes wf: "sidtab_wf s" and ne: "sidtab_abs s \<noteq> Map.empty \<or> mem_ok h"
    and run: "clone_all (sid_nodes s) (fst (fresh_sidtab h), h1) = (0, s', h')"
  shows "sidtab_wf s' \<and> sidtab_abs s' = sidtab_abs s"
proof (cases h rule: fresh_sidtab_cases)
  case ok
  have "\<forall>n \<in> set (sid_nodes s). 0 < fst n \<and> fst n \<noteq> - 1 \<and> context_wf (snd n)" using sid_nodes_wf(3) [OF wf] by auto
  from clone_all_correct [OF ok(1) sid_nodes_wf(1) [OF wf] this _ run] ok(2) sid_nodes_wf(2) [OF wf]
  show ?thesis by simp
next
  case failed
  then have "sidtab_abs s \<noteq> Map.empty" using ne fresh_sidtab_mem by blast
  then obtain n ns where n: "sid_nodes s = n # ns" using sid_nodes_wf(2) [OF wf] by (cases "sid_nodes s") auto
  have "fst (clone_all (sid_nodes s) (fst (fresh_sidtab h), h1)) \<noteq> 0"
    by (cases n) (simp add: n clone_sid_def sidtab_insert_def failed)
  with run show ?thesis by simp
qed

lemma sidtab_set_simps [simp]:
  "sidtab_abs (sidtab_set dst src) = sidtab_abs src" "sidtab_wf (sidtab_set dst src) = sidtab_wf src"
  by (simp_all add: sidtab_set_def sidtab_abs_def sidtab_wf_def)

lemma sidtab_shutdown_simps [simp]:
  "sidtab_abs (sidtab_shutdown s) = sidtab_abs s" "sidtab_wf (sidtab_shutdown s) = sidtab_wf s"
  "sid_nodes (sidtab_shutdown s) = sid_nodes s" "shtable (sidtab_shutdown s) = shtable s"
  by (simp_all add: sidtab_shutdown_def sidtab_abs_def sidtab_wf_def sid_nodes_def)

lemma load_policy_read:
  "load_policy s own (Inr newp) h hs =
     (if fst (hashtab_map (table (p_classes (spol s))) (validate_class newp) ()) \<noteq> 0 then (Inl EINVAL, Some s)
      else case clone_all (sid_nodes (ssids s)) (fresh_sidtab h) of (ret, st, h') \<Rightarrow>
        if ret \<noteq> 0 then (Inl ENOMEM, Some (s\<lparr>ssids := sidtab_shutdown (ssids s)\<rparr>))
        else (Inr (), Some \<lparr>spol = newp, ssids = sidtab_set (sidtab_shutdown (ssids s))
          (fst (sidtab_map_remove_on_error st (convert_context_apply (spol s) newp) hs))\<rparr>))"
  by (auto simp: load_policy_def clone_map Let_def sid_nodes_def split: prod.split)

lemma valid_converted:
  assumes "renamed oldp newp c c'" "context_is_valid newp c'" "valid_range (crange c)" "mls oldp \<longrightarrow> mls newp"
  shows "valid_range (crange c')"
proof (cases "mls oldp")
  case True
  then have "level_wf (low (crange c'))" "level_wf (high (crange c'))"
    using assms(1) by (simp_all add: renamed_def converted_def)
  moreover have "mls_level_dom (high (crange c')) (low (crange c'))"
    using assms(2,4) True by (auto simp: context_is_valid_def mls_context_isvalid_def split: if_splits)
  ultimately show ?thesis by (simp add: valid_range_def range_wf_def)
next
  case False
  then show ?thesis using assms(1,3) by (simp add: renamed_def)
qed

text \<open>With memory the copy succeeds.\<close>

lemma sidtab_insert_mem:
  assumes "mem_ok h" "sidtab_insert s sid c h = (r, s', h')"
  shows "mem_ok h'"
proof -
  obtain ok h1 where m: "malloc h = (ok, h1)" by (cases "malloc h")
  then have "ok" "mem_ok h1" using malloc_okD [OF m assms(1)] by simp_all
  then show ?thesis
    using assms m context_cpy_correct [of h1 c] by (auto simp: sidtab_insert_def split: option.splits prod.splits sum.splits if_splits)
qed

lemma clone_all_total:
  assumes "sidtab_wf st" "distinct (map fst ns)" "\<forall>n \<in> set ns. 0 < fst n \<and> fst n \<noteq> - 1 \<and> context_wf (snd n)"
    and "\<forall>n \<in> set ns. sidtab_abs st (fst n) = None" "mem_ok h"
  shows "fst (clone_all ns (st, h)) = 0"
  using assms
proof (induction ns arbitrary: st h)
  case (Cons n ns)
  obtain sid c where n: "n = (sid, c)" by (cases n)
  obtain r st1 h1 where ins: "sidtab_insert st sid c h = (r, st1, h1)" by (cases "sidtab_insert st sid c h") auto
  have I: "sidtab_wf st1" "r = Inr ()" "sidtab_abs st1 = (sidtab_abs st)(sid \<mapsto> c)"
    using sidtab_insert_abs [OF Cons.prems(1) _ _ _ ins] Cons.prems(3-5) by (auto simp: n)
  have "\<forall>n \<in> set ns. sidtab_abs st1 (fst n) = None" using Cons.prems(2,4) I(3) by (force simp: n)
  with Cons.IH [OF I(1) _ _ _ sidtab_insert_mem [OF Cons.prems(5) ins]] Cons.prems(2,3)
  show ?case by (simp add: n clone_sid_def ins I(2))
qed simp

lemma load_policy_status:
  assumes "sidtab_wf (ssids s)" "class_tables_wf (spol s)" "mem_ok h"
  shows "fst (load_policy s own (Inr newp) h hs) = (if classes_kept (spol s) newp then Inr () else Inl EINVAL)"
proof -
  obtain ok h1 where m: "malloc h = (ok, h1)" by (cases "malloc h")
  have mem: "ok" "mem_ok h1" using malloc_okD [OF m assms(3)] by simp_all
  let ?st = "\<lparr>shtable = Some (replicate (unat SIDTAB_SIZE) []), snel = 0, next_sid = 1, shutdown = False\<rparr>"
  have init: "sidtab_init \<lparr>shtable = None, snel = 0, next_sid = 0, shutdown = False\<rparr> h = Inr (?st, h1)"
    using m mem by (simp add: sidtab_init_def)
  then have fresh: "fresh_sidtab h = (?st, h1)" by (simp add: fresh_sidtab_def Let_def)
  have wf: "sidtab_wf ?st" "sidtab_abs ?st = Map.empty" using sidtab_init_wf [OF init] by simp_all
  have nodes: "\<forall>n \<in> set (sid_nodes (ssids s)). 0 < fst n \<and> fst n \<noteq> - 1 \<and> context_wf (snd n)"
    using sid_nodes_wf(3) [OF assms(1)] by auto
  have "\<forall>n \<in> set (sid_nodes (ssids s)). sidtab_abs ?st (fst n) = None" unfolding wf(2) by simp
  then have "fst (clone_all (sid_nodes (ssids s)) (?st, h1)) = 0"
    by (rule clone_all_total [OF wf(1) sid_nodes_wf(1) [OF assms(1)] nodes _ mem(2)])
  then show ?thesis
    using validate_classes_kept [OF assms(2), of newp]
    by (auto simp: load_policy_read fresh split: prod.splits)
qed

text \<open>A load that succeeds.\<close>

lemma load_policy_converted:
  assumes wf: "server_wf s" and classes: "class_tables_wf (spol s)"
    and new: "policy_ok newp" "\<And>st. labels_ok newp st" "mls (spol s) \<longrightarrow> mls newp"
    and ne: "sidtab_abs (ssids s) \<noteq> Map.empty \<or> mem_ok h"
    and run: "load_policy s own (Inr newp) h hs = (Inr (), s1)"
  shows "\<exists>s'. s1 = Some s' \<and> spol s' = newp \<and> server_wf s' \<and> classes_kept (spol s) newp \<and>
    (\<forall>sid c'. sidtab_abs (ssids s') sid = Some c' \<longrightarrow> context_is_valid newp c' \<and>
      (\<exists>c. sidtab_abs (ssids s) sid = Some c \<and> context_wf c' \<and> renamed (spol s) newp c c')) \<and>
    card {sid. \<exists>c. sidtab_abs (ssids s) sid = Some c \<and> convertible (spol s) newp c \<and>
      sidtab_abs (ssids s') sid = None} \<le> failing hs"
proof -
  let ?st = "ssids s" and ?p = "spol s"
  have st: "sidtab_wf ?st" "\<And>sid c. sidtab_abs ?st sid = Some c \<Longrightarrow> valid_range (crange c)"
    using wf by (auto simp: server_wf_def sids_ok_def)
  obtain st1 h1 where clone: "clone_all (sid_nodes ?st) (fresh_sidtab h) = (0, st1, h1)"
    and same: "fst (hashtab_map (table (p_classes ?p)) (validate_class newp) ()) = 0"
    using run by (auto simp: load_policy_read split: prod.splits if_splits)
  obtain st2 hs2 where conv: "sidtab_map_remove_on_error st1 (convert_context_apply ?p newp) hs = (st2, hs2)"
    by (cases "sidtab_map_remove_on_error st1 (convert_context_apply ?p newp) hs")
  have s1: "s1 = Some \<lparr>spol = newp, ssids = sidtab_set (sidtab_shutdown ?st) st2\<rparr>"
    using run by (simp add: load_policy_read clone same conv)
  have "clone_all (sid_nodes ?st) (fst (fresh_sidtab h), snd (fresh_sidtab h)) = (0, st1, h1)" using clone by simp
  from cloned_table [OF st(1) ne this] have wf1: "sidtab_wf st1" and abs1: "sidtab_abs st1 = sidtab_abs ?st" by simp_all
  have good: "renamed ?p newp c c' \<and> context_is_valid newp c' \<and> valid_range (crange c')"
    if "sidtab_abs ?st sid = Some c" "convert_context ?p newp c hc = Inr (c', hc')" for sid c hc c' hc'
    using convert_context_renamed [OF that(2) valid_range_wf [OF st(2) [OF that(1)]]]
      valid_converted [OF _ _ st(2) [OF that(1)] new(3)] by blast
  have cwf: "context_wf c'" if "sidtab_abs st1 sid = Some c" "convert_context ?p newp c hc = Inr (c', hc')" for sid c hc c' hc'
    using good valid_range_wf that unfolding abs1 by blast
  have T: "sidtab_wf st2" by (rule converted_table(1) [OF wf1 conv]) (rule cwf)
  have from_old: "context_is_valid newp c' \<and> valid_range (crange c') \<and>
      (\<exists>c. sidtab_abs ?st sid = Some c \<and> renamed ?p newp c c')"
    if "sidtab_abs st2 sid = Some c'" for sid c'
  proof -
    have "\<exists>c h h'. sidtab_abs st1 sid = Some c \<and> convert_context ?p newp c h = Inr (c', h')"
      by (rule converted_table(2) [OF wf1 conv _ that]) (rule cwf)
    then show ?thesis using good unfolding abs1 by blast
  qed
  have "card {sid. \<exists>c. sidtab_abs ?st sid = Some c \<and> \<not> conversion_dies ?p newp c \<and> sidtab_abs st2 sid = None} \<le> failing hs"
    unfolding abs1 [symmetric] by (rule converted_table(3) [OF wf1 conv]) (rule cwf)
  moreover have "{sid. \<exists>c. sidtab_abs ?st sid = Some c \<and> convertible ?p newp c \<and> sidtab_abs st2 sid = None} \<subseteq>
      {sid. \<exists>c. sidtab_abs ?st sid = Some c \<and> \<not> conversion_dies ?p newp c \<and> sidtab_abs st2 sid = None}"
    using convertible_survives [OF new(1) valid_range_wf [OF st(2)]] by blast
  ultimately have gone: "card {sid. \<exists>c. sidtab_abs ?st sid = Some c \<and> convertible ?p newp c \<and> sidtab_abs st2 sid = None} \<le> failing hs"
    by (meson card_mono finite le_trans)
  have "sids_ok st2" using T from_old unfolding sids_ok_def by blast
  then have "server_wf \<lparr>spol = newp, ssids = sidtab_set (sidtab_shutdown ?st) st2\<rparr>"
    using new(1,2) by (simp add: server_wf_def sids_ok_def)
  moreover have "classes_kept ?p newp" using validate_classes_kept [OF classes] same by blast
  ultimately show ?thesis
    using from_old gone valid_range_wf unfolding s1 by (intro exI [of _ "\<lparr>spol = newp, ssids = sidtab_set (sidtab_shutdown ?st) st2\<rparr>"]) auto
qed

section \<open>Properties\<close>

text \<open>
  C3: Loading a policy. If \<open>sepol_load_policy\<close> succeeds, the new policy is active, every class and permission
  of the old one is defined in it with the same value, and the server is well formed again. Every SID
  that remains stands for a context that is valid in the new policy and has the same user, role, type and
  levels by name. Every other SID is gone. The conversion of a context takes its allocation outcomes from one element of \<open>hs\<close>;
  the SIDs that are gone although their contexts have a valid counterpart in the new policy are no more than
  the elements with a failed allocation, so with memory exactly the convertible contexts keep their SIDs.
\<close>

theorem load_policy_converts:
  assumes wf: "server_wf s" and classes: "class_tables_wf (spol s)"
    and new: "policy_ok newp" "\<And>st. labels_ok newp st" "mls (spol s) \<longrightarrow> mls newp"
    and ne: "sidtab_abs (ssids s) \<noteq> Map.empty \<or> mem_ok h"
    and run: "load_policy s own (Inr newp) h hs = (Inr (), s1)"
  shows "\<exists>s'. s1 = Some s' \<and> spol s' = newp \<and> server_wf s' \<and> classes_kept (spol s) newp \<and>
    (\<forall>sid c'. sidtab_abs (ssids s') sid = Some c' \<longrightarrow> context_is_valid newp c' \<and>
      (\<exists>c. sidtab_abs (ssids s) sid = Some c \<and> context_wf c' \<and> renamed (spol s) newp c c')) \<and>
    card {sid. \<exists>c. sidtab_abs (ssids s) sid = Some c \<and> convertible (spol s) newp c \<and>
      sidtab_abs (ssids s') sid = None} \<le> failing hs"
  by (rule load_policy_converted [OF assms])

text \<open>
  C22: A load that fails. If the new policy cannot be read, the active database is destroyed when it is the
  server's own one. If the classes differ, nothing changes. If the copy of the SID table fails, the old
  policy stays but its SID table stays shut down: every later request that needs a
  new SID fails, however much memory there is.
\<close>

theorem load_policy_failure:
  "load_policy s own new h hs = (Inl e, s1) \<Longrightarrow>
    (case new of
       Inl e' \<Rightarrow> s1 = (if e' = ENOMEM \<or> \<not> own then Some s else None)
     | Inr newp \<Rightarrow> e = EINVAL \<and> s1 = Some s \<or>
         e = ENOMEM \<and> (\<exists>s'. s1 = Some s' \<and> spol s' = spol s \<and> sidtab_abs (ssids s') = sidtab_abs (ssids s) \<and>
           (\<forall>c h'. sidtab_search_context (ssids s') c = 0 \<longrightarrow>
             fst (sidtab_context_to_sid (ssids s') c h') = Inl ENOMEM)))"
proof (cases new)
  case (Inl e')
  assume "load_policy s own new h hs = (Inl e, s1)"
  then show ?thesis using Inl by (auto simp: load_policy_def split: if_splits)
next
  case (Inr newp)
  assume "load_policy s own new h hs = (Inl e, s1)"
  then have "e = EINVAL \<and> s1 = Some s \<or> e = ENOMEM \<and> s1 = Some (s\<lparr>ssids := sidtab_shutdown (ssids s)\<rparr>)"
    unfolding Inr load_policy_read by (auto split: prod.splits if_splits)
  then show ?thesis
    unfolding Inr by (auto simp: sidtab_context_to_sid_def Let_def sidtab_shutdown_def sidtab_abs_def)
qed

text \<open>
  C21: When a policy that was read is accepted. With memory, \<open>sepol_load_policy\<close> succeeds exactly when every
  class of the old policy, with its permissions and those of its common, is in the new one with the same
  values, and otherwise refuses it with \<open>EINVAL\<close>.
\<close>

theorem load_policy_accepts:
  assumes "sidtab_wf (ssids s)" "class_tables_wf (spol s)" "mem_ok h"
  shows "fst (load_policy s own (Inr newp) h hs) = (if classes_kept (spol s) newp then Inr () else Inl EINVAL)"
  by (rule load_policy_status [OF assms])

section \<open>Witnesses\<close>

lemma one_entry_wf: "table_wf symhash symcmp (table (one_chain [(a, d)]))"
  using one_chain_keyed [of "[(a, d)]"] by (auto simp: table_wf_def one_chain_def)

lemma sample_class_tables: "class_tables_wf (spol sample_server)"
proof -
  have classes: "p_classes (spol sample_server) = one_chain [(''process'', process_datum)]"
    by (simp add: sample_server_def sample_policy_def)
  have "d = process_datum" if "hashtab_search (table (one_chain [(''process'', process_datum)])) name = Some d" for name d
    using that by (auto simp: one_chain_def hashtab_search_def Let_def split: if_splits)
  moreover have "table_wf symhash symcmp (table (class_permissions process_datum))" "comdatum process_datum = None"
    using one_entry_wf by (simp_all add: process_datum_def)
  ultimately show ?thesis unfolding class_tables_wf_def classes using one_entry_wf by force
qed

lemma sample_reload: "\<exists>s1. load_policy sample_server own (Inr (spol sample_server)) [] hs = (Inr (), s1)"
proof -
  have "classes_kept (spol sample_server) (spol sample_server)"
    by (auto simp: classes_kept_def class_kept_def perms_kept_def split: option.split)
  then have "fst (load_policy sample_server own (Inr (spol sample_server)) [] hs) = Inr ()"
    using load_policy_status [OF _ sample_class_tables, of "[]" own "spol sample_server" hs] sample_sids_abs(2)
    by (simp add: sample_server_def mem_ok_def)
  then show ?thesis by (cases "load_policy sample_server own (Inr (spol sample_server)) [] hs") auto
qed

lemma load_policy_converts_witness:
  "\<exists>s'. load_policy sample_server True (Inr (spol sample_server)) [] [] = (Inr (), Some s') \<and> server_wf s'"
proof -
  obtain s1 where run: "load_policy sample_server True (Inr (spol sample_server)) [] [] = (Inr (), s1)"
    using sample_reload by blast
  have ready: "policy_ok (spol sample_server)" "labels_ok (spol sample_server) st"
    "mls (spol sample_server) \<longrightarrow> mls (spol sample_server)" for st
    using sample_server_wf sample_unlabelled by (simp_all add: server_wf_def)
  have ne: "sidtab_abs (ssids sample_server) \<noteq> Map.empty \<or> mem_ok []" by (simp add: mem_ok_def)
  show ?thesis
    using load_policy_converts [OF sample_server_wf sample_class_tables ready ne run] run by blast
qed

lemma load_policy_failure_witness:
  "\<exists>s1. load_policy sample_server True (Inl EINVAL) [] [] = (Inl EINVAL, s1) \<and> s1 = None"
proof -
  have run: "load_policy sample_server True (Inl EINVAL) [] [] = (Inl EINVAL, None)" by (simp add: load_policy_def)
  show ?thesis using load_policy_failure [OF run] run by simp
qed

lemma load_policy_accepts_witness:
  "fst (load_policy sample_server True (Inr (sample_policy\<lparr>p_classes := one_chain []\<rparr>)) [] []) = Inl EINVAL"
proof -
  have "hashtab_search (table (p_classes sample_policy)) ''process'' = Some process_datum"
    by (simp add: sample_policy_def one_chain_def hashtab_search_def symcmp_def)
  moreover have "hashtab_search (table (p_classes (sample_policy\<lparr>p_classes := one_chain []\<rparr>))) k = None" for k
    by (simp add: one_chain_def hashtab_search_def)
  ultimately have "\<not> classes_kept (spol sample_server) (sample_policy\<lparr>p_classes := one_chain []\<rparr>)"
    by (auto simp: classes_kept_def sample_server_def)
  then show ?thesis
    using load_policy_accepts [OF _ sample_class_tables, of "[]"] sample_sids_abs(2)
    by (simp add: sample_server_def mem_ok_def)
qed

end
