(* ===== verification/Server.thy ===== *)
theory Server
  imports Reload
begin

text \<open>
  The server as a state machine: what a sequence of its requests keeps. Reading a context from an
  arbitrary text, access decisions before and after requests, and the contexts of new objects.
\<close>

section \<open>Contexts read from any text\<close>

lemma set_bit_wf: "ebitmap_wf e \<Longrightarrow> ebitmap_set_bit e b v h = Inr (e', h') \<Longrightarrow> ebitmap_wf e'"
  using outcome_partial [OF ebitmap_set_bit_correct] by blast

lemma set_bit_range_wf: "ebitmap_wf e \<Longrightarrow> set_bit_range i hi e h = Inr (e', h') \<Longrightarrow> ebitmap_wf e'"
proof (induction i hi e h rule: set_bit_range.induct)
  case (1 i hi e h)
  show ?case
  proof (cases "i < hi")
    case True
    obtain e1 h1 where s: "ebitmap_set_bit e i True h = Inr (e1, h1)"
      and rest: "set_bit_range (i + 1) hi e1 h1 = Inr (e', h')"
      using 1(3) True by (auto simp: set_bit_range.simps [of i hi e h] bind_res_def split: sum.splits prod.splits)
    show ?thesis using 1(1) [OF True s refl set_bit_wf [OF 1(2) s] rest] .
  next
    case False
    then show ?thesis using 1(2,3) by (simp add: set_bit_range.simps [of i hi e h])
  qed
qed

lemma parse_cat_wf: "ebitmap_wf e \<Longrightarrow> parse_cat p tok e h = Inr (e', h') \<Longrightarrow> ebitmap_wf e'"
proof -
  assume w: "ebitmap_wf e" and run: "parse_cat p tok e h = Inr (e', h')"
  then have "\<exists>v e1 h1. ebitmap_set_bit e v True h = Inr (e1, h1) \<and>
      (e' = e1 \<or> (\<exists>lo hi. set_bit_range lo hi e1 h1 = Inr (e', h')))"
    by (fastforce simp: parse_cat_def bind_res_def split: prod.splits option.splits sum.splits if_splits)
  then obtain v e1 h1 where s: "ebitmap_set_bit e v True h = Inr (e1, h1)"
    and rest: "e' = e1 \<or> (\<exists>lo hi. set_bit_range lo hi e1 h1 = Inr (e', h'))" by blast
  show "ebitmap_wf e'" using rest set_bit_range_wf [OF set_bit_wf [OF w s]] set_bit_wf [OF w s] by blast
qed

lemma parse_cats_wf: "ebitmap_wf e \<Longrightarrow> parse_cats p s e h = Inr ((d, r, e'), h') \<Longrightarrow> ebitmap_wf e'"
proof (induction p s e h rule: parse_cats.induct)
  case (1 p s e h)
  obtain tok delim s1 where c: "cut '',-'' s = (tok, delim, s1)" by (cases "cut '',-'' s") auto
  obtain e1 h1 where t: "parse_cat p tok e h = Inr (e1, h1)"
    and rest: "(if delim = CHR '','' then parse_cats p s1 e1 h1 else Inr ((delim, s1, e1), h1)) = Inr ((d, r, e'), h')"
    using 1(3) by (auto simp: parse_cats.simps [of p s e h] c bind_res_def split: sum.splits prod.splits)
  have w: "ebitmap_wf e1" by (rule parse_cat_wf [OF 1(2) t])
  show ?case
  proof (cases "delim = CHR '',''")
    case True
    then show ?thesis using 1(1) [OF c [symmetric] refl t refl True w] rest by simp
  next
    case False
    then show ?thesis using rest w by simp
  qed
qed

lemma parse_level_wf:
  "ebitmap_wf e \<Longrightarrow> parse_level p sn d s e h = Inr ((d', s', l), h') \<Longrightarrow> level_wf l"
  using parse_cats_wf
  by (auto simp: parse_level_def level_wf_def bind_res_def split: option.splits sum.splits prod.splits if_splits)

lemma mls_context_to_sid_wf:
  assumes "range_wf (crange c)" "mls_context_to_sid p oldc s c h = Inr (c', h')"
  shows "range_wf (crange c')"
proof (cases "mls p")
  case False
  then show ?thesis using assms by (simp add: mls_context_to_sid_def)
next
  case True
  have w: "ebitmap_wf (cat (low (crange c)))" "ebitmap_wf (cat (high (crange c)))"
    using assms(1) by (simp_all add: range_wf_def level_wf_def)
  have cpy: "level_wf l \<Longrightarrow> mls_level_cpy l hh = Inr (l', hh') \<Longrightarrow> level_wf l'" for l l' hh hh'
    using outcome_partial [OF mls_level_cpy_correct] by blast
  show ?thesis
    using assms(2) True
    by (auto simp: mls_context_to_sid_def bind_res_def range_wf_def
        dest: parse_level_wf [OF w(1)] parse_level_wf [OF w(2)] cpy [rotated] split: sum.splits prod.splits if_splits)
qed

lemma mls_from_string_wf:
  "range_wf (crange c) \<Longrightarrow> mls_from_string p s c h = Inr (c', h') \<Longrightarrow> range_wf (crange c')"
  using mls_context_to_sid_wf
  by (auto simp: mls_from_string_def catch_res_def split: prod.splits if_splits sum.splits)

lemma context_from_record_valid:
  assumes "context_from_record p r h = Inr (c, h')"
  shows "context_is_valid p c \<and> valid_range (crange c)"
proof -
  obtain u ro t h1 h2 where v: "context_is_valid p c"
    and m: "con_mls r = None \<longleftrightarrow> \<not> mls p"
    and range: "(case con_mls r of
         None \<Rightarrow> Inr (context_init\<lparr>cuser := u, crole := ro, ctype := t\<rparr>, h1)
       | Some m \<Rightarrow> mls_from_string p m (context_init\<lparr>cuser := u, crole := ro, ctype := t\<rparr>) h1) = Inr (c, h2)"
    using assms by (auto simp: context_from_record_def Let_def bind_res_def split: prod.splits option.splits sum.splits if_splits)
  have init: "range_wf (crange (context_init\<lparr>cuser := u, crole := ro, ctype := t\<rparr>))"
    using context_init_wf by (simp add: context_wf_def)
  show ?thesis
  proof (cases "mls p")
    case True
    then obtain s where "mls_from_string p s (context_init\<lparr>cuser := u, crole := ro, ctype := t\<rparr>) h1 = Inr (c, h2)"
      using m range by (cases "con_mls r") auto
    then have "range_wf (crange c)" by (rule mls_from_string_wf [OF init])
    moreover have "mls_level_dom (high (crange c)) (low (crange c))"
      using v True by (auto simp: context_is_valid_def mls_context_isvalid_def split: if_splits)
    ultimately show ?thesis using v by (simp add: valid_range_def)
  next
    case False
    then have "crange c = mls_range_init" using m range by (auto simp: context_init_def)
    then show ?thesis using v init_range_valid by simp
  qed
qed

lemma context_from_string_valid:
  "context_from_string p s n h = Some (Inr (c, h')) \<Longrightarrow> context_is_valid p c \<and> valid_range (crange c)"
  using context_from_record_valid
  by (auto simp: context_from_string_def Let_def catch_res_def split: prod.splits option.splits sum.splits if_splits)

lemma context_to_sid_ok:
  assumes wf: "server_wf s" and run: "context_to_sid s scontext n want h = Some (r, s')"
  shows "request_ok s s' \<and> (case r of
      Inl e \<Rightarrow> e = FAIL \<and> s' = s
    | Inr None \<Rightarrow> \<not> want \<and> s' = s
    | Inr (Some sid) \<Rightarrow> want \<and> sid \<noteq> 0 \<and> (\<exists>c h'. context_from_string (spol s) scontext n h = Some (Inr (c, h')) \<and>
        context_is_valid (spol s) c \<and> labelled (ssids s') sid c))"
proof (cases "context_from_string (spol s) scontext n h")
  case None
  then show ?thesis using run by (simp add: context_to_sid_def)
next
  case (Some q)
  show ?thesis
  proof (cases "\<exists>c h1. q = Inr (c, h1) \<and> want")
    case False
    then show ?thesis
      using run Some request_ok_refl [OF wf] by (cases q) (auto simp: context_to_sid_def)
  next
    case True
    then obtain c h1 where q: "q = Inr (c, h1)" "want" by blast
    have v: "context_is_valid (spol s) c" "valid_range (crange c)"
      using context_from_string_valid Some q(1) by blast+
    obtain r1 st h2 where a: "sidtab_context_to_sid (ssids s) c h1 = (r1, st, h2)"
      by (cases "sidtab_context_to_sid (ssids s) c h1") auto
    have ok: "sids_ok (ssids s)" using wf by (simp add: server_wf_def)
    note A = alloc_sid [OF ok v(2) a]
    have "request_ok s (s\<lparr>ssids := st\<rparr>)" using request_ok_sids [OF wf] A by blast
    then show ?thesis using run Some q a A v(1) by (cases r1) (auto simp: context_to_sid_def)
  qed
qed

section \<open>Access decisions depend on the rules only\<close>

lemma rules_of_fields [simp]:
  "mls (rules_of p) = mls p" "p_classes (rules_of p) = p_classes p"
  "class_val_to_struct (rules_of p) = class_val_to_struct p" "role_val_to_struct (rules_of p) = role_val_to_struct p"
  "type_val_to_struct (rules_of p) = type_val_to_struct p" "te_avtab (rules_of p) = te_avtab p"
  "te_cond_avtab (rules_of p) = te_cond_avtab p" "role_allows (rules_of p) = role_allows p"
  "type_attr_map (rules_of p) = type_attr_map p" "process_class (rules_of p) = process_class p"
  "process_trans_dyntrans (rules_of p) = process_trans_dyntrans p"
  by (simp_all add: rules_of_def)

lemma cexpr_role_rules: "cexpr_role (rules_of p) = cexpr_role p"
  by (simp add: fun_eq_iff cexpr_role_def)

lemma pair_av_rules: "pair_av (rules_of p) = pair_av p"
  by (simp add: fun_eq_iff pair_av_def)

lemma av_parts_rules:
  "te_av (rules_of p) = te_av p" "constraint_av (rules_of p) = constraint_av p" "role_av (rules_of p) = role_av p"
proof -
  show "te_av (rules_of p) = te_av p"
    by (intro ext) (simp only: te_av_def pair_av_rules type_attrs_def rules_of_fields)
  show "constraint_av (rules_of p) = constraint_av p"
    by (rule constraint_av_cong) (rule cexpr_role_rules)
  show "role_av (rules_of p) = role_av p"
    by (intro ext) (simp only: role_av_def rules_of_fields)
qed

lemma compute_av_rules: "context_struct_compute_av n (rules_of p) = context_struct_compute_av n p"
proof (induction n)
  case (Suc n)
  have "type_attribute_bounds_av n (rules_of p) = type_attribute_bounds_av n p"
    by (intro ext) (simp only: type_attribute_bounds_av.simps Suc rules_of_fields)
  then show ?case
    by (intro ext) (simp only: context_struct_compute_av.simps(2) av_parts_rules rules_of_fields)
qed (simp add: fun_eq_iff)

text \<open>Two servers decide alike about the SIDs of the first.\<close>

definition decides_alike :: "server \<Rightarrow> server \<Rightarrow> bool" where
  "decides_alike s s' \<longleftrightarrow> (\<forall>ssid tsid tcl n lg requested.
     ssid \<in> dom (sidtab_abs (ssids s)) \<and> tsid \<in> dom (sidtab_abs (ssids s)) \<longrightarrow>
     compute_av_reason n (spol s') lg (ssids s') ssid tsid tcl requested =
       compute_av_reason n (spol s) lg (ssids s) ssid tsid tcl requested)"

lemma request_decides:
  assumes "server_wf s" "request_ok s s'"
  shows "decides_alike s s'"
proof -
  have wf: "sidtab_wf (ssids s)" "sidtab_wf (ssids s')"
    using assms by (simp_all add: server_wf_def request_ok_def sids_ok_def)
  have kept: "sids_kept (ssids s) (ssids s')" and rules: "rules_of (spol s') = rules_of (spol s)"
    using assms(2) by (simp_all add: request_ok_def)
  have search: "sidtab_search (ssids s') sid = sidtab_search (ssids s) sid" if "sid \<in> dom (sidtab_abs (ssids s))" for sid
    using that kept by (auto simp: sidtab_search_abs [OF wf(1)] sidtab_search_abs [OF wf(2)] sids_kept_def)
  have av: "context_struct_compute_av n (spol s') = context_struct_compute_av n (spol s)" for n
    using compute_av_rules [of n "spol s"] compute_av_rules [of n "spol s'"] rules by simp
  show ?thesis
    unfolding decides_alike_def compute_av_reason_def av by (intro allI impI, elim conjE) (simp only: search)
qed

section \<open>The labels that the policy prescribes\<close>

text \<open>
  The nodes of the type rules for a source, a target and a class: the permanent ones, and the
  conditional ones that are enabled. Of several the first one counts.
\<close>

definition type_rule_for :: "context_struct \<Rightarrow> context_struct \<Rightarrow> u16 \<Rightarrow> u16 \<Rightarrow> avtab_node \<Rightarrow> bool" where
  "type_rule_for sc tc tcl kind n \<longleftrightarrow> source_type (fst n) = ucast (ctype sc) \<and> target_type (fst n) = ucast (ctype tc) \<and>
     target_class (fst n) = tcl \<and> specified (fst n) AND kind \<noteq> 0"

definition type_rules :: "policydb \<Rightarrow> context_struct \<Rightarrow> context_struct \<Rightarrow> u16 \<Rightarrow> u16 \<Rightarrow> avtab_node list" where
  "type_rules p sc tc tcl kind =
     [n \<leftarrow> avtab_nodes (te_avtab p). type_rule_for sc tc tcl kind n] @
     [n \<leftarrow> avtab_nodes (te_cond_avtab p). type_rule_for sc tc tcl kind n \<and> bit (specified (fst n)) 15]"

definition role_rules :: "policydb \<Rightarrow> context_struct \<Rightarrow> context_struct \<Rightarrow> u16 \<Rightarrow> role_trans list" where
  "role_rules p sc tc tcl =
     [tr \<leftarrow> role_tr p. rtr_role tr = crole sc \<and> rtr_type tr = ctype tc \<and> rtr_tclass tr = ucast tcl]"

text \<open>
  What the declaration \<open>default_user\<close>, \<open>default_role\<close> or \<open>default_type\<close> of the class says, which
  \<open>of_class\<close> selects: 1 is the source, 2 the target; otherwise, or without the class, it is \<open>unset\<close>.
\<close>

definition declared :: "policydb \<Rightarrow> u16 \<Rightarrow> (class_datum \<Rightarrow> u8) \<Rightarrow> u32 \<Rightarrow> u32 \<Rightarrow> u32 \<Rightarrow> u32" where
  "declared p tcl of_class source target unset =
     (if 0 < unat tcl \<and> unat tcl \<le> unat (nprim (p_classes p))
      then case class_val_to_struct p ! (unat tcl - 1) of
          Some d \<Rightarrow> if of_class d = 1 then source else if of_class d = 2 then target else unset
        | None \<Rightarrow> unset
      else unset)"

text \<open>
  The user, role and type of a new object \<open>c\<close>, for a transition (\<open>0x10\<close>), a member (\<open>0x20\<close>) or
  a change (\<open>0x40\<close>). For the user \<open>unset\<close> is the source; for the role it is the source for a process, otherwise \<open>object_r\<close>, number 1; for the
  type it is the source for a process, otherwise the target.
\<close>

definition prescribed ::
  "policydb \<Rightarrow> context_struct \<Rightarrow> context_struct \<Rightarrow> u16 \<Rightarrow> u32 \<Rightarrow> context_struct \<Rightarrow> bool" where
  "prescribed p sc tc tcl kind c \<longleftrightarrow>
     cuser c = (if kind = 0x20 then cuser tc
       else declared p tcl default_user (cuser sc) (cuser tc) (cuser sc)) \<and>
     crole c = (case role_rules p sc tc tcl of
         tr # _ \<Rightarrow> if kind = 0x10 then new_role tr
           else declared p tcl default_role (crole sc) (crole tc) (if tcl = process_class p then crole sc else 1)
       | [] \<Rightarrow> declared p tcl default_role (crole sc) (crole tc) (if tcl = process_class p then crole sc else 1)) \<and>
     ctype c = (case type_rules p sc tc tcl (ucast kind) of
         n # _ \<Rightarrow> data (snd n)
       | [] \<Rightarrow> declared p tcl default_type (ctype sc) (ctype tc) (if tcl = process_class p then ctype sc else ctype tc))"

lemma find_hd_filter: "find P xs = (case filter P xs of [] \<Rightarrow> None | x # _ \<Rightarrow> Some x)"
  by (induction xs) auto

lemma unat_ucast_class: "unat (ucast (w :: u16) :: u32) = unat w"
  by (simp add: unsigned_ucast_eq take_bit_nat_eq_self_iff) (rule less_le_trans [OF unsigned_less], simp)

lemma declared_class:
  "declared p tcl f a b u = (case class_of p tcl of
     Some d \<Rightarrow> if f d = 1 then a else if f d = 2 then b else u | None \<Rightarrow> u)"
proof -
  have "0 < unat tcl \<longleftrightarrow> tcl \<noteq> 0" by (simp add: word_neq_0_conv [symmetric] unat_gt_0)
  moreover have "unat tcl \<le> unat (nprim (p_classes p)) \<longleftrightarrow> ucast tcl \<le> nprim (p_classes p)"
    by (simp add: word_le_nat_alt unat_ucast_class)
  moreover have "unat ((ucast tcl :: u32) - 1) = unat tcl - 1" if "tcl \<noteq> 0"
  proof -
    have "(1 :: u32) \<le> ucast tcl" using that by (simp add: word_le_nat_alt unat_ucast_class Suc_leI unat_gt_0)
    then show ?thesis by (simp add: unat_sub unat_ucast_class)
  qed
  ultimately show ?thesis by (auto simp: declared_def class_of_def val_struct_def)
qed

lemma kinds_disjoint:
  "kind \<in> {0x10, 0x20, 0x40 :: u32} \<Longrightarrow>
    (ucast kind :: u16) AND NOT AVTAB_ENABLED = ucast kind \<and> ucast (ucast kind :: u16) = kind \<and> (ucast kind :: u16) \<noteq> 0"
  by auto

lemma type_rule_first:
  assumes wf: "avtab_wf (te_avtab p)" "avtab_wf (te_cond_avtab p)" and kind: "kind \<in> {0x10, 0x20, 0x40}"
  shows "type_rule p sc tc tcl kind =
    (case type_rules p sc tc tcl (ucast kind) of n # _ \<Rightarrow> Some (data (snd n)) | [] \<Rightarrow> None)"
proof -
  let ?key = "\<lparr>source_type = ucast (ctype sc), target_type = ucast (ctype tc), target_class = tcl, specified = ucast kind\<rparr>"
  note k = kinds_disjoint [OF kind]
  have m: "node_matches ?key (key_spec ?key) = type_rule_for sc tc tcl (ucast kind)"
    using k by (auto simp: fun_eq_iff node_matches_def key_spec_def key_same_def type_rule_for_def ac_simps)
  have loop: "avtab_node_loop (avtab_search_node (te_cond_avtab p) ?key) kind =
      filter (type_rule_for sc tc tcl (ucast kind)) (avtab_nodes (te_cond_avtab p))"
    using avtab_loop_filter [OF wf(2), of ?key] k m by simp
  have on: "specified (fst n) AND AVTAB_ENABLED \<noteq> 0 \<longleftrightarrow> bit (specified (fst n)) 15" for n :: avtab_node
    by (simp add: and_exp_eq_0_iff_not_bit [of "specified (fst n)" 15, simplified])
  show ?thesis
    unfolding type_rule_def Let_def avtab_search_find [OF wf(1)] loop m find_hd_filter filter_filter on type_rules_def
    by (auto split: list.split simp: conj_commute)
qed

lemma new_context_prescribed:
  assumes "av_ready p" "kind \<in> {AVTAB_TRANSITION, AVTAB_MEMBER, AVTAB_CHANGE}"
    and "cuser c = cuser (new_context p sc tc tcl kind)" "crole c = crole (new_context p sc tc tcl kind)"
      "ctype c = ctype (new_context p sc tc tcl kind)"
  shows "prescribed p sc tc tcl kind c"
proof -
  have kind: "kind \<in> {0x10, 0x20, 0x40}" using assms(2) by simp
  have "avtab_wf (te_avtab p)" "avtab_wf (te_cond_avtab p)" using assms(1) by (simp_all add: av_ready_def)
  note t = type_rule_first [OF this kind]
  have user: "cuser c = (if kind = 0x20 then cuser tc else declared p tcl default_user (cuser sc) (cuser tc) (cuser sc))"
    using kind by (auto simp: assms(3) new_context_def Let_def new_user_def declared_class split: option.split)
  have type: "ctype c = (case type_rules p sc tc tcl (ucast kind) of
      n # _ \<Rightarrow> data (snd n)
    | [] \<Rightarrow> declared p tcl default_type (ctype sc) (ctype tc) (if tcl = process_class p then ctype sc else ctype tc))"
    by (simp add: assms(5) new_context_def Let_def t default_new_type_def declared_class split: list.split option.split)
  have role: "role_rule p sc tc tcl = (case role_rules p sc tc tcl of tr # _ \<Rightarrow> Some (new_role tr) | [] \<Rightarrow> None)"
    by (simp add: role_rule_def role_rules_def find_hd_filter split: list.split)
  have "kind AND AVTAB_TRANSITION \<noteq> 0 \<longleftrightarrow> kind = 0x10" using kind by auto
  then show ?thesis
    unfolding prescribed_def
    by (intro conjI user type)
      (auto simp: assms(4) new_context_def Let_def role default_new_role_def declared_class OBJECT_R_VAL_def
        split: list.split option.split)
qed

section \<open>Sequences of requests\<close>

text \<open>
  One request, by any of the functions of the server, with any arguments and any outcomes of its allocations.
  Without MLS \<open>sepol_get_user_sids\<close> uses the range of a variable that it has not initialised;
  the relation has only the runs in which it happens to be valid.
\<close>

inductive request :: "server \<Rightarrow> server \<Rightarrow> bool" where
  read: "context_to_sid s scontext n want h = Some (r, s') \<Longrightarrow> request s s'"
| compute: "compute_sid s ssid tsid tcl spec h = (r, s') \<Longrightarrow> request s s'"
| user: "get_user_sids depth s fromsid username usercon h = Some (r, s') \<Longrightarrow>
    mls (spol s) \<or> valid_range (crange usercon) \<Longrightarrow> request s s'"
| fs: "fs_sid s name h = (rs, s') \<Longrightarrow> request s s'"
| netif: "netif_sid s name h = (rs, s') \<Longrightarrow> request s s'"
| ibpkey: "ibpkey_sid s subnet pkey h = (r, s') \<Longrightarrow> request s s'"
| ibendport: "ibendport_sid s dev ibp h = (r, s') \<Longrightarrow> request s s'"
| port: "port_sid s domain type proto portno h = (r, s') \<Longrightarrow> request s s'"
| node: "node_sid s domain addrp addrlen h = (r, s') \<Longrightarrow> request s s'"
| genfs: "genfs_sid s fstyp path sclass h = (g, s') \<Longrightarrow> request s s'"
| fs_use: "fs_use s fstyp h = (u, s') \<Longrightarrow> request s s'"

inductive_cases requestE: "request s s'"

definition server_ready :: "server \<Rightarrow> bool" where
  "server_ready s \<longleftrightarrow> server_wf s \<and> av_ready (spol s) \<and> class_tables_wf (spol s)"

lemma av_ready_rules: "av_ready (rules_of p) = av_ready p" "class_tables_wf (rules_of p) = class_tables_wf p"
  by (simp_all add: av_ready_def class_tables_wf_def)

lemma request_ok_ready: "server_ready s \<Longrightarrow> request_ok s s' \<Longrightarrow> server_ready s'"
  unfolding server_ready_def request_ok_def by (metis av_ready_rules)

lemma request_keeps:
  assumes "request s s'" "server_ready s"
  shows "request_ok s s'"
proof -
  have wf: "server_wf s" and ok: "sids_ok (ssids s)" "policy_ok (spol s)" "av_ready (spol s)"
    using assms(2) by (simp_all add: server_ready_def server_wf_def)
  have same: "request_ok s s'" if "spol s' = spol s" "sids_ok (ssids s')" "sids_kept (ssids s) (ssids s')"
  proof -
    have "s' = s\<lparr>ssids := ssids s'\<rparr>" using that(1) by (cases s; cases s') simp
    then show ?thesis using request_ok_sids [OF wf that(2,3)] by simp
  qed
  show ?thesis
    using assms(1)
  proof cases
    case (read scontext n want h r)
    from context_to_sid_ok [OF wf this] show ?thesis by (rule conjunct1)
  next
    case (compute ssid tsid tcl spec h r)
    from compute_sid_context [OF ok(1,2) this] show ?thesis by (elim conjE) (rule same)
  next
    case (user depth fromsid username usercon h r)
    obtain status sids where r: "r = (status, sids)" by (cases r)
    from get_user_sids_result [OF ok user(2) user(1) [unfolded r]] show ?thesis by (elim conjE) (rule same)
  next
    case (genfs fstyp path sclass h g)
    obtain status sid where g: "g = (status, sid)" by (cases g)
    from genfs_sid_ok [OF wf genfs [unfolded g]] show ?thesis by (rule conjunct1)
  next
    case (fs_use fstyp h u)
    obtain status behavior sid where u: "u = (status, behavior, sid)" by (cases u)
    from fs_use_ok [OF wf fs_use [unfolded u]] show ?thesis by (rule conjunct1)
  qed (auto dest: fs_sid_ok [OF wf] netif_sid_ok [OF wf] ibpkey_sid_ok [OF wf] ibendport_sid_ok [OF wf]
      port_sid_ok [OF wf] node_sid_ok [OF wf])
qed

lemma requests_keep_all:
  assumes "request\<^sup>*\<^sup>* s s'" "server_ready s"
  shows "server_ready s' \<and> request_ok s s'"
  using assms(1)
proof (induction rule: rtranclp_induct)
  case base
  show ?case using assms(2) request_ok_refl by (simp add: server_ready_def)
next
  case (step a b)
  then show ?case using request_keeps request_ok_ready request_ok_trans by blast
qed

text \<open>A policy as \<open>policydb_read\<close> must leave it: its objects have no SIDs yet.\<close>

definition loadable :: "policydb \<Rightarrow> bool" where
  "loadable p \<longleftrightarrow> policy_ok p \<and> av_ready p \<and> class_tables_wf p \<and> (\<forall>st. labels_ok p st)"

text \<open>A step of the server: a request, or the load of a policy that leaves a server.\<close>

inductive step :: "server \<Rightarrow> server \<Rightarrow> bool" where
  request: "request s s' \<Longrightarrow> step s s'"
| load: "load_policy s own new h hs = (r, Some s') \<Longrightarrow>
    (\<And>p. new = Inr p \<Longrightarrow> loadable p \<and> (mls (spol s) \<longrightarrow> mls p)) \<Longrightarrow>
    sidtab_abs (ssids s) \<noteq> Map.empty \<or> mem_ok h \<Longrightarrow> step s s'"

lemma server_shutdown: "server_ready s \<Longrightarrow> server_ready (s\<lparr>ssids := sidtab_shutdown (ssids s)\<rparr>)"
  by (auto simp: server_ready_def server_wf_def sids_ok_def elim!: labels_ok_kept)
    (simp add: sids_kept_def)

lemma load_keeps:
  assumes ready: "server_ready s" and run: "load_policy s own new h hs = (r, Some s')"
    and new: "\<And>p. new = Inr p \<Longrightarrow> loadable p \<and> (mls (spol s) \<longrightarrow> mls p)"
    and ne: "sidtab_abs (ssids s) \<noteq> Map.empty \<or> mem_ok h"
  shows "server_ready s'"
proof (cases r)
  case (Inl e)
  have "s' = s \<or> s' = s\<lparr>ssids := sidtab_shutdown (ssids s)\<rparr>"
  proof (cases new)
    case (Inl x)
    then show ?thesis using run by (auto simp: load_policy_def split: if_splits)
  next
    case (Inr p)
    then show ?thesis using run \<open>r = Inl e\<close> unfolding Inr load_policy_read by (auto split: prod.splits if_splits)
  qed
  then show ?thesis using ready server_shutdown by blast
next
  case (Inr u)
  then obtain p where p: "new = Inr p" using run by (cases new) (auto simp: load_policy_def split: if_splits)
  have l: "policy_ok p" "labels_ok p st" "mls (spol s) \<longrightarrow> mls p" "av_ready p" "class_tables_wf p" for st
    using new [OF p] by (simp_all add: loadable_def)
  have "server_wf s" "class_tables_wf (spol s)" using ready by (simp_all add: server_ready_def)
  from load_policy_converted [OF this l(1-3) ne, of own hs "Some s'"] run
  have "spol s' = p" "server_wf s'" by (auto simp: p Inr)
  then show ?thesis using l by (simp add: server_ready_def)
qed

section \<open>Properties\<close>

text \<open>
  C1: Any sequence of requests keeps the server well formed: the SID table, the SIDs stored in the lists of
  objects, and every assignment of a context to a SID. It leaves all of the policy but those stored
  SIDs as it was, so that every access decision about SIDs given out before is the same afterwards.
\<close>

theorem requests_keep:
  assumes "server_ready s" "request\<^sup>*\<^sup>* s s'"
  shows "server_ready s' \<and> sids_kept (ssids s) (ssids s') \<and> rules_of (spol s') = rules_of (spol s) \<and>
    decides_alike s s'"
proof -
  have "server_ready s'" "request_ok s s'" using requests_keep_all [OF assms(2,1)] by simp_all
  moreover from this have "decides_alike s s'" using request_decides assms(1) by (simp add: server_ready_def)
  ultimately show ?thesis by (simp add: request_ok_def)
qed

text \<open>
  C18: The same with reloads of the policy in between, successful or not, as long as each policy that is
  read is loadable and does not switch MLS off: the server stays well formed.
\<close>

theorem steps_ready:
  assumes "server_ready s" "step\<^sup>*\<^sup>* s s'"
  shows "server_ready s'"
  using assms(2,1)
proof (induction rule: rtranclp_induct)
  case (step a b)
  from step.hyps(2) show ?case
  proof cases
    case request
    then show ?thesis using request_keeps request_ok_ready step by blast
  next
    case (load own new h hs r)
    then show ?thesis using load_keeps [OF step.IH [OF step.prems]] by blast
  qed
qed

text \<open>
  C23: Reading a context from any bytes. If \<open>sepol_context_to_sid\<close> returns a SID, the text was accepted
  and the SID stands for a context that is valid in the policy; otherwise the server is unchanged.
\<close>

theorem context_to_sid_valid:
  assumes "server_wf s" "context_to_sid s scontext n want h = Some (r, s')"
  shows "server_wf s' \<and> sids_kept (ssids s) (ssids s') \<and> (case r of
      Inl e \<Rightarrow> e = FAIL \<and> s' = s
    | Inr None \<Rightarrow> \<not> want \<and> s' = s
    | Inr (Some sid) \<Rightarrow> want \<and> sid \<noteq> 0 \<and>
        (\<exists>c h'. context_from_string (spol s) scontext n h = Some (Inr (c, h')) \<and>
          context_is_valid (spol s) c \<and> labelled (ssids s') sid c))"
  using context_to_sid_ok [OF assms] by (simp add: request_ok_def)

text \<open>
  C17: The label of a new object. For a transition, a member or a change, if \<open>sepol_compute_sid\<close> succeeds, the SID stands for a
  valid context with the prescribed user, role and type: the user of the target for a member, otherwise what the
  class declares, the source by default; the role of the first role transition with the role of the
  source, the type of the target and the class, for a transition, otherwise what the class declares, by default the role of
  the source for a process and \<open>object_r\<close> for other objects; the type of the first permanent type
  rule for the two types and the class, otherwise of the first conditional one that is enabled, otherwise what the class
  declares, by default the type of the source for a process and of the target for other
  objects. Its range is valid; it is that of the range transition if there is one, the low level of the source for a
  member, and the range or low level of the source for a change. If the request fails, nothing changes.
\<close>

theorem compute_sid_label:
  assumes "server_ready s" "spec \<in> {AVTAB_TRANSITION, AVTAB_MEMBER, AVTAB_CHANGE}"
    and "compute_sid s ssid tsid tcl spec h = (r, s')"
  shows "spol s' = spol s \<and> sids_ok (ssids s') \<and> sids_kept (ssids s) (ssids s') \<and>
    (case r of
       Inl e \<Rightarrow> s' = s
     | Inr sid \<Rightarrow> \<exists>sc tc c. sidtab_search (ssids s) ssid = Some sc \<and> sidtab_search (ssids s) tsid = Some tc \<and>
         sidtab_search (ssids s') sid = Some c \<and> context_is_valid (spol s) c \<and>
         prescribed (spol s) sc tc tcl spec c \<and> new_range_ok (spol s) sc tc tcl spec c)"
proof -
  have ready: "av_ready (spol s)" "sids_ok (ssids s)" "policy_ok (spol s)"
    using assms(1) by (simp_all add: server_ready_def server_wf_def)
  note run = compute_sid_context [OF ready(2,3) assms(3)]
  show ?thesis
  proof (cases r)
    case (Inl e)
    then show ?thesis using run unfolding Inl sum.case by blast
  next
    case (Inr sid)
    then show ?thesis
      using run new_context_prescribed [OF ready(1) assms(2)] unfolding Inr sum.case by blast
  qed
qed

text \<open>
  C19: The contexts a user can reach. If the type bounds of the policy end (the type of the caller in fewer than
  \<open>n\<close> steps), \<open>sepol_get_user_sids\<close> returns. If it returns an array, it has a SID for every context that has
  a role of the user and a type of that role, other than the caller's, whose range can be set up, and that the policy
  lets a process of the caller enter. If no allocation fails, its SIDs stand for these contexts only. Otherwise
  a constraint that cannot be evaluated counts as satisfied, and a SID may also
  stand for a context that only the rules, not the constraints and bounds, let the caller enter.
\<close>

theorem get_user_sids_reachable:
  assumes ready: "server_ready s" and mls: "mls (spol s) \<or> valid_range (crange usercon)"
    and bounds: "bounds_end (spol s) rank"
      "\<And>c. sidtab_search (ssids s) fromsid = Some c \<Longrightarrow> type_known (spol s) (ctype c) \<and> rank (ctype c) < n"
  shows "\<exists>status sids s'. get_user_sids n s fromsid username usercon h = Some ((status, sids), s') \<and>
    server_ready s' \<and> sids_kept (ssids s) (ssids s') \<and>
    (case sids of None \<Rightarrow> status \<noteq> None
     | Some l \<Rightarrow> status = None \<and> (\<exists>fromcon user. sidtab_search (ssids s) fromsid = Some fromcon \<and>
         hashtab_search (table (p_users (spol s))) username = Some user \<and>
         (let cand = (\<lambda>enter. user_candidate (enter (spol s) fromcon) (spol s) fromcon user
              (usercon\<lparr>cuser := user_value user\<rparr>) (ebitmap_positive_bits (user_roles user))) in
          (\<forall>c. cand may_enter c \<longrightarrow> (\<exists>sid \<in> set l. labelled (ssids s') sid c)) \<and>
          (\<forall>sid \<in> set l. \<exists>c. cand (enters (mem_ok h)) c \<and> labelled (ssids s') sid c))))"
proof -
  have ok: "sids_ok (ssids s)" "policy_ok (spol s)" "av_ready (spol s)"
    using ready by (simp_all add: server_ready_def server_wf_def)
  have "get_user_sids n s fromsid username usercon h \<noteq> None"
  proof (cases "sidtab_search (ssids s) fromsid")
    case (Some c)
    then have "user_roles_loop n (spol s) c user uc is u \<noteq> None" for user uc "is" u
      using user_sid_total(3) [OF bounds(1)] bounds(2) by blast
    then have "user_roles_loop n (spol s) c user uc is u = None \<longleftrightarrow> False" for user uc "is" u by simp
    with Some show ?thesis
      by (cases "hashtab_search (table (p_users (spol s))) username"; cases "malloc h")
        (simp_all add: get_user_sids_def split: option.split sum.split del: not_None_eq)
  qed (simp add: get_user_sids_def)
  then obtain status sids s' where run: "get_user_sids n s fromsid username usercon h = Some ((status, sids), s')"
    by auto
  have "server_ready s'" using request_ok_ready [OF ready] request_keeps [OF request.user [OF run mls] ready] .
  with run get_user_sids_result [OF ok mls run] show ?thesis by blast
qed

text \<open>
  The label of a port. \<open>sepol_port_sid\<close> returns a SID of the context of the first entry that has the
  protocol and a range with the port, or the default SID without one, or fails for lack of memory or SIDs.
\<close>

theorem port_sid_first_match:
  assumes "server_wf s" "port_sid s domain type proto portno h = (r, s')"
  shows "server_wf s' \<and> (case find (\<lambda>c. protocol (ocon_u c) = proto \<and> low_port (ocon_u c) \<le> portno \<and>
        portno \<le> high_port (ocon_u c)) (ocon_port (spol s)) of
      None \<Rightarrow> r = Inr SECINITSID_PORT
    | Some c \<Rightarrow> r = Inl ENOMEM \<or> (\<exists>sid. r = Inr sid \<and> sid \<noteq> 0 \<and> labelled (ssids s') sid (context0 c)))"
  using port_sid_ok [OF assms] by (simp add: request_ok_def label_is_def)

text \<open>
  The label of a file of a generic file system. If the list of file systems is sorted,
  \<open>sepol_genfs_sid\<close> returns a SID of the first entry of that file system whose class matches and whose
  name is a prefix of the path, or \<open>ENOENT\<close> with the SID of unlabeled objects without one.
\<close>

theorem genfs_sid_first_match:
  assumes "server_wf s" "genfs_sorted (genfs_list (spol s))"
    and "genfs_sid s fstyp path sclass h = ((status, sid), s')"
  shows "server_wf s' \<and>
    (case find (genfs_matches path sclass) (genfs_entries fstyp (genfs_list (spol s))) of
       None \<Rightarrow> status = Some ENOENT \<and> sid = Some SECINITSID_UNLABELED
     | Some c \<Rightarrow> status = Some ENOMEM \<and> sid = None \<or>
         status = None \<and> (\<exists>x. sid = Some x \<and> x \<noteq> 0 \<and> labelled (ssids s') x (context0 c)))"
  using genfs_sid_ok [OF assms(1,3)] assms(2) by (simp add: request_ok_def)

section \<open>Witnesses\<close>

lemma sample_server_ready: "server_ready sample_server"
proof -
  have "av_ready (spol sample_server)"
    by (simp add: av_ready_def sample_server_def) (simp add: sample_policy_def one_chain_def)
  then show ?thesis using sample_server_wf sample_class_tables by (simp add: server_ready_def)
qed

text \<open>The port 22 gets the SID of the context of its entry, which is stored in the entry.\<close>

lemma sample_port_sid:
  "port_sid sample_server 0 0 6 22 h = (Inr 1, sample_server\<lparr>spol := sample_policy\<lparr>ocon_port := [sample_port\<lparr>sid0 := 1\<rparr>]\<rparr>\<rparr>)"
proof -
  have "sidtab_context_to_sid sample_sids (sample_context 1) h = (Inr 1, sample_sids, h)"
    by (rule sample_sids_context) (simp_all add: valid_range_wf [OF sample_range_valid])
  then show ?thesis by (simp add: port_sid_def sample_server_def sample_port_def label_result_def)
qed

lemma port_sid_first_match_witness:
  "\<exists>s'. port_sid sample_server 0 0 6 22 [] = (Inr 1, s') \<and> labelled (ssids s') 1 (sample_context 1)"
proof -
  have "find (\<lambda>c. protocol (ocon_u c) = 6 \<and> low_port (ocon_u c) \<le> 22 \<and> 22 \<le> high_port (ocon_u c))
      (ocon_port (spol sample_server)) = Some sample_port" "context0 sample_port = sample_context 1"
    by (simp_all add: sample_server_def sample_port_def)
  then show ?thesis
    using port_sid_first_match [OF sample_server_wf sample_port_sid [of "[]"]] sample_port_sid [of "[]"] by auto
qed

lemma requests_keep_witness:
  "\<exists>s'. request\<^sup>*\<^sup>* sample_server s' \<and> s' \<noteq> sample_server \<and> server_ready s' \<and> decides_alike sample_server s'"
proof -
  have "request\<^sup>*\<^sup>* sample_server (sample_server\<lparr>spol := sample_policy\<lparr>ocon_port := [sample_port\<lparr>sid0 := 1\<rparr>]\<rparr>\<rparr>)"
    by (rule r_into_rtranclp [of request]) (rule request.port [OF sample_port_sid])
  moreover have "sample_server\<lparr>spol := sample_policy\<lparr>ocon_port := [sample_port\<lparr>sid0 := 1\<rparr>]\<rparr>\<rparr> \<noteq> sample_server"
  proof
    assume eq: "sample_server\<lparr>spol := sample_policy\<lparr>ocon_port := [sample_port\<lparr>sid0 := 1\<rparr>]\<rparr>\<rparr> = sample_server"
    have "[sample_port\<lparr>sid0 := 1\<rparr>] = ocon_port (spol sample_server)" by (subst eq [symmetric]) simp
    then show False by (simp add: sample_server_def sample_port_def)
  qed
  ultimately show ?thesis using requests_keep [OF sample_server_ready] by blast
qed

lemma steps_ready_witness:
  "\<exists>s'. step\<^sup>*\<^sup>* sample_server s' \<and> server_ready s' \<and>
    load_policy sample_server True (Inr (spol sample_server)) [] [] = (Inr (), Some s')"
proof -
  obtain s' where load: "load_policy sample_server True (Inr (spol sample_server)) [] [] = (Inr (), Some s')"
    using sample_reload [of True "[]"] by (auto simp: load_policy_read split: prod.splits if_splits)
  have "loadable (spol sample_server)"
    using sample_server_ready sample_unlabelled by (simp add: loadable_def server_ready_def server_wf_def)
  then have "step sample_server s'" by (intro step.load [OF load]) (simp_all add: mem_ok_def)
  then show ?thesis using steps_ready [OF sample_server_ready, of s'] load by blast
qed

lemma context_to_sid_valid_witness:
  "context_to_sid sample_server ''a:b'' 0 True [] = Some (Inl FAIL, sample_server) \<and> server_wf sample_server"
proof -
  have run: "context_to_sid sample_server ''a:b'' 0 True [] = Some (Inl FAIL, sample_server)"
    by (simp add: context_to_sid_def context_from_string_def zero_or_saturated_def)
  show ?thesis using context_to_sid_valid [OF sample_server_wf run] run by simp
qed

lemma genfs_sid_first_match_witness:
  "\<exists>s'. genfs_sid sample_server ''proc'' ''/'' 1 [] = ((Some ENOENT, Some SECINITSID_UNLABELED), s') \<and> server_wf s'"
proof -
  have none: "genfs_list (spol sample_server) = []" by (simp add: sample_server_def sample_policy_def)
  obtain status sid s' where run: "genfs_sid sample_server ''proc'' ''/'' 1 [] = ((status, sid), s')" by (metis surj_pair)
  show ?thesis
    using genfs_sid_first_match [OF sample_server_wf _ run] run by (simp add: none genfs_sorted_def genfs_entries_def)
qed

lemma get_user_sids_reachable_witness:
  "\<exists>status sids s'. get_user_sids 3 sample_server 1 ''u'' context_init [] = Some ((status, sids), s') \<and> server_ready s'"
proof -
  have mls: "mls (spol sample_server) \<or> valid_range (crange context_init)" by (simp add: sample_server_def sample_policy_def)
  have bounds: "bounds_end (spol sample_server) (\<lambda>t. unat t)"
    using sample_bounds_end by (simp add: bounds_end_def type_known_def sample_server_def)
  have known: "type_known (spol sample_server) (ctype c) \<and> unat (ctype c) < 3"
    if "sidtab_search (ssids sample_server) 1 = Some c" for c
    using that by (simp add: sample_server_def sample_sids_search) (auto simp: type_known_def sample_policy_def sample_context_def)
  show ?thesis
    using get_user_sids_reachable [OF sample_server_ready mls bounds, of 1 3 "''u''" "[]"] known by blast
qed

text \<open>A process that makes a transition without a rule keeps its context, and with it its SID.\<close>

lemma sample_transition: "transition_sid sample_server 1 1 1 [] = (Inr 1, sample_server)"
proof -
  let ?p = "spol sample_server" and ?c = "sample_context 1"
  have search: "sidtab_search (ssids sample_server) 1 = Some ?c" by (simp add: sample_server_def sample_sids_search)
  have p: "process_class ?p = 1" "role_tr ?p = []" "mls ?p" "range_tr ?p = None"
      "te_avtab ?p = one_slot (sample_rule 1) 1" "te_cond_avtab ?p = one_slot (sample_rule 2) 1"
    by (simp_all add: sample_server_def sample_policy_def)
  have same: "mls ?p = mls sample_policy" "p_roles ?p = p_roles sample_policy" "p_users ?p = p_users sample_policy"
      "p_types ?p = p_types sample_policy" "role_val_to_struct ?p = role_val_to_struct sample_policy"
      "user_val_to_struct ?p = user_val_to_struct sample_policy" "p_levels ?p = p_levels sample_policy"
      "p_sens_val_to_name ?p = p_sens_val_to_name sample_policy" "p_cats ?p = p_cats sample_policy"
    by (simp_all add: sample_server_def)
  have cls: "nprim (p_classes ?p) = 1" "val_struct (class_val_to_struct ?p) 1 = Some process_datum"
    by (simp_all add: sample_server_def sample_policy_def one_chain_def val_struct_def)
  have other: "node_matches key (key_spec key) (sample_rule t, d) = False" if "specified key = AVTAB_TRANSITION" for key t d
    using that by (simp add: node_matches_def key_spec_def)
  have norule: "type_rule ?p ?c ?c 1 AVTAB_TRANSITION = None"
    by (simp add: type_rule_def p avtab_search_def avtab_search_node_def one_slot_def other Let_def avtab_node_loop.simps)
  have new: "new_context ?p ?c ?c 1 AVTAB_TRANSITION = context_init\<lparr>cuser := 1, crole := 1, ctype := 1\<rparr>"
    using norule by (simp add: new_context_def Let_def class_of_def cls process_datum_def new_user_def default_new_role_def
        default_new_type_def role_rule_def p sample_context_def)
  have rg: "mls_compute_sid ?p ?c ?c 1 AVTAB_TRANSITION (context_init\<lparr>cuser := 1, crole := 1, ctype := 1\<rparr>) [] =
      Inr (?c, [])"
    by (simp add: mls_compute_sid_def p hashtab_search_def cls process_datum_def default_range_copy_def mls_change_range_def
        mls_copy_context_def sample_context_def sample_level_def ebitmap_cpy_def ebitmap_init_def context_init_def)
  have "context_is_valid ?p ?c"
    using sample_valid(1) unfolding context_is_valid_def mls_context_isvalid_def level_isvalid_def same .
  then show ?thesis
    unfolding transition_sid_def compute_sid_known [OF search search] new rg sum.case prod.case
    using sample_sids_context [OF valid_range_wf [OF sample_range_valid] refl, of "[]"]
    by (simp add: sample_server_def)
qed

lemma compute_sid_label_witness:
  "compute_sid sample_server 1 1 1 AVTAB_TRANSITION [] = (Inr 1, sample_server) \<and>
    (\<exists>c. sidtab_search (ssids sample_server) 1 = Some c \<and> context_is_valid (spol sample_server) c)"
proof -
  have run: "compute_sid sample_server 1 1 1 AVTAB_TRANSITION [] = (Inr 1, sample_server)"
    using sample_transition by (simp add: transition_sid_def)
  show ?thesis using compute_sid_label [OF sample_server_ready _ run] run by auto
qed

end
