(* ===== verification/Optimize.thy ===== *)
theory Optimize
  imports Conditional_Rules Access
begin

text \<open>
  The optimiser of the binary policy (\<open>optimize.c\<close>): it removes access vector and extended
  permission rules that more general rules cover.

  A \<open>type_vec\<close> is its list of types (\<open>count\<close> is the length) and its capacity. The counters of
  \<open>type_vec_contains\<close> are natural numbers, as a vector has at most one element per type. A rule is trimmed in
  place while it is compared, and nothing reads it through the table meanwhile, so the trimmed datum is a value that
  is stored when the comparison ends. A pointer to a rule of \<open>te_cond_avtab\<close> is a slot and a
  position, so the removal of rules moves the pointers that are kept (\<open>move_ptr\<close>).
\<close>

unbundle bit_operations_syntax

abbreviation (input) TYPE_ATTRIB :: u32 where "TYPE_ATTRIB \<equiv> 1"
abbreviation AVTAB_XPERMS_IOCTLFUNCTION :: u8 where "AVTAB_XPERMS_IOCTLFUNCTION \<equiv> 1"
abbreviation AVTAB_XPERMS_IOCTLDRIVER :: u8 where "AVTAB_XPERMS_IOCTLDRIVER \<equiv> 2"
abbreviation AVTAB_XPERMS_NLMSG :: u8 where "AVTAB_XPERMS_NLMSG \<equiv> 3"
abbreviation (input) POLICY_KERN :: u32 where "POLICY_KERN \<equiv> 0"
abbreviation POLICYDB_VERSION_AVTAB :: u32 where "POLICYDB_VERSION_AVTAB \<equiv> 20"
abbreviation POLICYDB_VERSION_PERMISSIVE :: u32 where "POLICYDB_VERSION_PERMISSIVE \<equiv> 23"

section \<open>Vectors of types\<close>

record type_vec =
  types :: "u32 list"
  capacity :: u32

definition type_vec_init :: "heap \<Rightarrow> (type_vec \<times> heap) result" where
  "type_vec_init h = (case malloc h of (ok, h) \<Rightarrow>
     if \<not> ok then Inl FAIL else Inr (\<lparr>types = [], capacity = 16\<rparr>, h))"

definition type_vec_append :: "type_vec \<Rightarrow> u32 \<Rightarrow> heap \<Rightarrow> (type_vec \<times> heap) result" where
  "type_vec_append v t h =
     (if capacity v = of_nat (length (types v))
      then case malloc h of (ok, h) \<Rightarrow>
        if \<not> ok then Inl FAIL
        else Inr (v\<lparr>types := types v @ [t], capacity := capacity v * 2\<rparr>, h)
      else Inr (v\<lparr>types := types v @ [t]\<rparr>, h))"

function contains_loop :: "u32 list \<Rightarrow> u32 \<Rightarrow> nat \<Rightarrow> nat \<Rightarrow> bool" where
  "contains_loop ts t s e =
     (if s < e
      then let mid = (s + e) div 2 in
        if ts ! mid = t then True
        else if ts ! mid < t then contains_loop ts t (mid + 1) e
        else contains_loop ts t s mid
      else False)"
  by pat_completeness auto

termination
  by (relation "measure (\<lambda>(_, _, s, e). e - s)") auto

declare contains_loop.simps [simp del]

definition type_vec_contains :: "type_vec \<Rightarrow> u32 \<Rightarrow> bool" where
  "type_vec_contains v t = contains_loop (types v) t 0 (length (types v))"

section \<open>The map from a type to its supersets\<close>

fun append_all :: "type_vec \<Rightarrow> u32 list \<Rightarrow> heap \<Rightarrow> (type_vec \<times> heap) result" where
  "append_all v [] h = Inr (v, h)"
| "append_all v (k # ks) h = bind_res (type_vec_append v k h) (\<lambda>(v, h). append_all v ks h)"

definition super_attr :: "policydb \<Rightarrow> ebitmap \<Rightarrow> nat \<Rightarrow> bool" where
  "super_attr p types_i k = (case type_val_to_struct p ! k of
       None \<Rightarrow> False
     | Some d \<Rightarrow> flavor d = TYPE_ATTRIB \<and> ebitmap_contains (attr_type_map p ! k) types_i)"

definition type_supers :: "policydb \<Rightarrow> nat \<Rightarrow> u32 list" where
  "type_supers p i = (case type_val_to_struct p ! i of
       None \<Rightarrow> []
     | Some d \<Rightarrow>
         if flavor d \<noteq> TYPE_ATTRIB then ebitmap_positive_bits (type_attr_map p ! i)
         else map of_nat (filter (super_attr p (attr_type_map p ! i)) [0..<unat (nprim (p_types p))]))"

fun build_maps :: "policydb \<Rightarrow> nat list \<Rightarrow> heap \<Rightarrow> (type_vec list \<times> heap) result" where
  "build_maps p [] h = Inr ([], h)"
| "build_maps p (i # is) h = bind_res (type_vec_init h) (\<lambda>(v, h).
     bind_res (append_all v (type_supers p i) h) (\<lambda>(v, h).
     bind_res (build_maps p is h) (\<lambda>(vs, h). Inr (v # vs, h))))"

definition build_type_map :: "policydb \<Rightarrow> heap \<Rightarrow> (type_vec list \<times> heap) result" where
  "build_type_map p h = (case malloc h of (ok, h) \<Rightarrow>
     if \<not> ok then Inl FAIL else build_maps p [0..<unat (nprim (p_types p))] h)"

section \<open>Comparison of rules\<close>

definition process_xperms :: "u32 list \<Rightarrow> u32 list \<Rightarrow> bool \<times> u32 list" where
  "process_xperms p1 p2 = (let ps = map (\<lambda>i. p1 ! i AND NOT (p2 ! i)) [0..<8] in (\<forall>w \<in> set ps. w = 0, ps))"

definition xperm_test :: "u8 \<Rightarrow> u32 list \<Rightarrow> bool" where
  "xperm_test x p \<longleftrightarrow> 1 AND drop_bit (unat (x AND 0x1f)) (p ! unat (drop_bit 5 x)) \<noteq> 0"

definition trim_xperms :: "avtab_datum \<Rightarrow> avtab_extended_perms \<Rightarrow> avtab_extended_perms \<Rightarrow> bool \<times> avtab_datum" where
  "trim_xperms d1 x1 x2 = (case process_xperms (perms x1) (perms x2) of (r, ps) \<Rightarrow>
     (r, d1\<lparr>xperms := Some (x1\<lparr>perms := ps\<rparr>)\<rparr>))"

definition process_avtab_datum :: "u16 \<Rightarrow> avtab_datum \<Rightarrow> avtab_datum \<Rightarrow> bool \<times> avtab_datum" where
  "process_avtab_datum spec d1 d2 =
     (if spec AND AVTAB_AUDITDENY \<noteq> 0
      then let d = data d1 OR NOT (data d2) in (d = 0xffffffff, d1\<lparr>data := d\<rparr>)
      else if spec AND AVTAB_AV \<noteq> 0
      then let d = data d1 AND NOT (data d2) in (d = 0, d1\<lparr>data := d\<rparr>)
      else if spec AND AVTAB_XPERMS \<noteq> 0
      then let x1 = the (xperms d1); x2 = the (xperms d2) in
        if xspecified x1 = AVTAB_XPERMS_IOCTLFUNCTION
        then if xspecified x2 = AVTAB_XPERMS_IOCTLFUNCTION
          then if driver x1 \<noteq> driver x2 then (False, d1) else trim_xperms d1 x1 x2
          else if xspecified x2 = AVTAB_XPERMS_IOCTLDRIVER then (xperm_test (driver x1) (perms x2), d1)
          else (False, d1)
        else if xspecified x1 = AVTAB_XPERMS_IOCTLDRIVER
        then if xspecified x2 = AVTAB_XPERMS_IOCTLFUNCTION then (False, d1)
          else if xspecified x2 = AVTAB_XPERMS_IOCTLDRIVER then trim_xperms d1 x1 x2
          else (False, d1)
        else if xspecified x1 = AVTAB_XPERMS_NLMSG \<and> xspecified x2 = AVTAB_XPERMS_NLMSG
        then if driver x1 \<noteq> driver x2 then (False, d1) else trim_xperms d1 x1 x2
        else (False, d1)
      else (False, d1))"

text \<open>\<open>s_idx\<close> and \<open>t_idx\<close> of a rule.\<close>

definition src_idx :: "avtab_node \<Rightarrow> u32" where "src_idx n = ucast (source_type (fst n)) - 1"
definition tgt_idx :: "avtab_node \<Rightarrow> u32" where "tgt_idx n = ucast (target_type (fst n)) - 1"

definition av_or_xperm :: "avtab_node \<Rightarrow> bool" where
  "av_or_xperm n \<longleftrightarrow> specified (fst n) AND (AVTAB_AV OR AVTAB_XPERMS) \<noteq> 0"

fun avrule_scan :: "avtab \<Rightarrow> avtab_node \<Rightarrow> bool \<Rightarrow> (u32 \<times> u32) list \<Rightarrow> avtab_datum \<Rightarrow> bool \<times> avtab_datum" where
  "avrule_scan tab e not_cond [] d1 = (False, d1)"
| "avrule_scan tab e not_cond ((st, tt) # ps) d1 =
     (if not_cond \<and> src_idx e = st \<and> tgt_idx e = tt then avrule_scan tab e not_cond ps d1
      else case avtab_search tab ((fst e)\<lparr>source_type := ucast (st + 1), target_type := ucast (tt + 1)\<rparr>) of
          None \<Rightarrow> avrule_scan tab e not_cond ps d1
        | Some d2 \<Rightarrow> (case process_avtab_datum (specified (fst e)) d1 d2 of (r, d1) \<Rightarrow>
            if r then (True, d1) else avrule_scan tab e not_cond ps d1))"

definition is_avrule_redundant :: "avtab_node \<Rightarrow> avtab \<Rightarrow> type_vec list \<Rightarrow> bool \<Rightarrow> bool \<times> avtab_datum" where
  "is_avrule_redundant e tab type_map not_cond =
     (if \<not> av_or_xperm e then (False, snd e)
      else avrule_scan tab e not_cond
        (List.product (types (type_map ! unat (src_idx e))) (types (type_map ! unat (tgt_idx e)))) (snd e))"

definition is_type_attr :: "policydb \<Rightarrow> u32 \<Rightarrow> bool" where
  "is_type_attr p i \<longleftrightarrow> flavor (the (type_val_to_struct p ! unat i)) = TYPE_ATTRIB"

definition is_avrule_with_attr :: "avtab_node \<Rightarrow> policydb \<Rightarrow> bool" where
  "is_avrule_with_attr e p \<longleftrightarrow> is_type_attr p (src_idx e) \<or> is_type_attr p (tgt_idx e)"

fun cond_rule_scan :: "avtab \<Rightarrow> avtab_node \<Rightarrow> type_vec list \<Rightarrow> avtab_ptr list \<Rightarrow> avtab_datum \<Rightarrow> bool \<times> avtab_datum" where
  "cond_rule_scan a e1 type_map [] d1 = (False, d1)"
| "cond_rule_scan a e1 type_map (q # qs) d1 = (let e2 = ptr_node a q in
     if specified (fst e1) \<noteq> specified (fst e2) \<or> target_class (fst e1) \<noteq> target_class (fst e2) \<or>
       src_idx e1 = src_idx e2 \<and> tgt_idx e1 = tgt_idx e2 \<or>
       \<not> type_vec_contains (type_map ! unat (src_idx e1)) (src_idx e2) \<or>
       \<not> type_vec_contains (type_map ! unat (tgt_idx e1)) (tgt_idx e2)
     then cond_rule_scan a e1 type_map qs d1
     else case process_avtab_datum (specified (fst e1)) d1 (snd e2) of (r, d1) \<Rightarrow>
       if r then (True, d1) else cond_rule_scan a e1 type_map qs d1)"

definition is_cond_rule_redundant ::
  "avtab \<Rightarrow> avtab_node \<Rightarrow> avtab_datum \<Rightarrow> avtab_ptr list \<Rightarrow> type_vec list \<Rightarrow> bool \<times> avtab_datum" where
  "is_cond_rule_redundant a e1 d1 l type_map =
     (if \<not> av_or_xperm e1 then (False, d1) else cond_rule_scan a e1 type_map l d1)"

section \<open>Unconditional rules\<close>

definition set_chain :: "nat \<Rightarrow> avtab_node list \<Rightarrow> avtab \<Rightarrow> avtab" where
  "set_chain i c tab = tab\<lparr>avtable := map_option (\<lambda>t. t[i := c]) (avtable tab)\<rparr>"

definition chain_of :: "nat \<Rightarrow> avtab \<Rightarrow> avtab_node list" where
  "chain_of i tab = the (avtable tab) ! i"

text \<open>\<open>pre\<close> is the part of the chain up to the link \<open>cur\<close>.\<close>

fun optimize_chain :: "type_vec list \<Rightarrow> nat \<Rightarrow> avtab_node list \<Rightarrow> avtab_node list \<Rightarrow> avtab \<Rightarrow> avtab" where
  "optimize_chain type_map i pre [] tab = tab"
| "optimize_chain type_map i pre (cur # ns) tab = (case is_avrule_redundant cur tab type_map True of (r, d) \<Rightarrow>
     if r then optimize_chain type_map i pre ns ((set_chain i (pre @ ns) tab)\<lparr>avnel := avnel tab - 1\<rparr>)
     else optimize_chain type_map i (pre @ [(fst cur, d)]) ns (set_chain i (pre @ (fst cur, d) # ns) tab))"

definition optimize_avtab :: "type_vec list \<Rightarrow> avtab \<Rightarrow> avtab" where
  "optimize_avtab type_map tab =
     fold (\<lambda>i tab. optimize_chain type_map i [] (chain_of i tab) tab) [0..<unat (nslot tab)] tab"

section \<open>Conditional rules\<close>

definition set_datum :: "avtab_ptr \<Rightarrow> avtab_datum \<Rightarrow> avtab \<Rightarrow> avtab" where
  "set_datum q d a = (case q of (i, j) \<Rightarrow> set_chain i ((chain_of i a)[j := (fst (chain_of i a ! j), d)]) a)"

definition list_rule_redundant ::
  "avtab \<Rightarrow> type_vec list \<Rightarrow> avtab \<Rightarrow> avtab_ptr \<Rightarrow> avtab_ptr list \<Rightarrow> bool \<times> avtab_datum" where
  "list_rule_redundant te type_map a cur cov =
     (case is_avrule_redundant (ptr_node a cur) te type_map False of (r, d) \<Rightarrow>
        if r then (True, d) else is_cond_rule_redundant a (ptr_node a cur) d cov type_map)"

text \<open>
  The loop over the list: first over the rules without an attribute, which the rules \<open>cov\<close> at the end of
  the list may cover, then over those, where the rules kept so far and the rest may cover a rule. The result
  is the list that is left, the rules that are deleted, and the table.
\<close>

fun optimize_plain ::
  "avtab \<Rightarrow> type_vec list \<Rightarrow> avtab_ptr list \<Rightarrow> avtab_ptr list \<Rightarrow> avtab \<Rightarrow> avtab_ptr list \<times> avtab_ptr list \<times> avtab" where
  "optimize_plain te type_map cov [] a = ([], [], a)"
| "optimize_plain te type_map cov (cur # l) a = (case list_rule_redundant te type_map a cur cov of (r, d) \<Rightarrow>
     case optimize_plain te type_map cov l (set_datum cur d a) of (kept, del, a) \<Rightarrow>
       if r then (kept, cur # del, a) else (cur # kept, del, a))"

fun optimize_attr ::
  "avtab \<Rightarrow> type_vec list \<Rightarrow> avtab_ptr list \<Rightarrow> avtab_ptr list \<Rightarrow> avtab \<Rightarrow> avtab_ptr list \<times> avtab_ptr list \<times> avtab" where
  "optimize_attr te type_map kept [] a = (kept, [], a)"
| "optimize_attr te type_map kept (cur # l) a = (case list_rule_redundant te type_map a cur (kept @ cur # l) of (r, d) \<Rightarrow>
     if r then case optimize_attr te type_map kept l (set_datum cur d a) of (kept, del, a) \<Rightarrow> (kept, cur # del, a)
     else optimize_attr te type_map (kept @ [cur]) l (set_datum cur d a))"

definition optimize_cond_av_list ::
  "policydb \<Rightarrow> type_vec list \<Rightarrow> avtab_ptr list \<Rightarrow> avtab \<Rightarrow> avtab_ptr list \<times> avtab_ptr list \<times> avtab" where
  "optimize_cond_av_list p type_map l a =
     (let plain = filter (\<lambda>q. \<not> is_avrule_with_attr (ptr_node a q) p) l;
          pcov = rev (filter (\<lambda>q. is_avrule_with_attr (ptr_node a q) p) l) in
      case optimize_plain (te_avtab p) type_map pcov plain a of (kept, del, a) \<Rightarrow>
      case optimize_attr (te_avtab p) type_map [] pcov a of (kept', del', a) \<Rightarrow>
        (kept @ kept', del @ del', a))"

fun optimize_conds ::
  "policydb \<Rightarrow> type_vec list \<Rightarrow> cond_node list \<Rightarrow> avtab \<Rightarrow> cond_node list \<times> avtab_ptr list \<times> avtab" where
  "optimize_conds p type_map [] a = ([], [], a)"
| "optimize_conds p type_map (n # ns) a =
     (case optimize_cond_av_list p type_map (true_list n) a of (ts, del1, a) \<Rightarrow>
      case optimize_cond_av_list p type_map (false_list n) a of (fs, del2, a) \<Rightarrow>
      case optimize_conds p type_map ns a of (ns, del3, a) \<Rightarrow>
        (if ts = [] \<and> fs = [] then ns else n\<lparr>true_list := ts, false_list := fs\<rparr> # ns, del1 @ del2 @ del3, a))"

text \<open>The rules in \<open>del\<close> are unlinked.\<close>

definition unlink_chain :: "avtab_ptr list \<Rightarrow> nat \<Rightarrow> avtab_node list \<Rightarrow> avtab_node list" where
  "unlink_chain del i c = map (\<lambda>j. c ! j) (filter (\<lambda>j. (i, j) \<notin> set del) [0..<length c])"

definition unlink_rules :: "avtab_ptr list \<Rightarrow> avtab \<Rightarrow> avtab" where
  "unlink_rules del a = (case avtable a of
       None \<Rightarrow> a
     | Some t \<Rightarrow> a\<lparr>avtable := Some (map (\<lambda>i. unlink_chain del i (t ! i)) [0..<length t]),
         avnel := avnel a - of_nat (length (filter (\<lambda>(i, j). (i, j) \<in> set del)
           (concat (map (\<lambda>i. map (Pair i) [0..<length (t ! i)]) [0..<length t]))))\<rparr>)"

definition move_ptr :: "avtab_ptr list \<Rightarrow> avtab_ptr \<Rightarrow> avtab_ptr" where
  "move_ptr del q = (fst q, length (filter (\<lambda>j. (fst q, j) \<notin> set del) [0..<snd q]))"

definition optimize_cond_avtab :: "policydb \<Rightarrow> type_vec list \<Rightarrow> policydb" where
  "optimize_cond_avtab p type_map = (case optimize_conds p type_map (cond_list p) (te_cond_avtab p) of (ns, del, a) \<Rightarrow>
     p\<lparr>cond_list := map (\<lambda>n. n\<lparr>true_list := map (move_ptr del) (true_list n), false_list := map (move_ptr del) (false_list n)\<rparr>) ns,
       te_cond_avtab := unlink_rules del a\<rparr>)"

definition policydb_optimize :: "policydb \<Rightarrow> heap \<Rightarrow> policydb result" where
  "policydb_optimize p h =
     (if policy_type p \<noteq> POLICY_KERN then Inl FAIL
      else if policyvers p \<ge> POLICYDB_VERSION_AVTAB \<and> policyvers p \<le> POLICYDB_VERSION_PERMISSIVE then Inl FAIL
      else bind_res (build_type_map p h) (\<lambda>(type_map, h).
        Inr (optimize_cond_avtab (p\<lparr>te_avtab := optimize_avtab type_map (te_avtab p)\<rparr>) type_map)))"

section \<open>What a rule gives\<close>

text \<open>
  The permissions that a rule grants or audits, or that it hides from the audit, and the extended
  permissions: an ioctl command is a driver and a function, each of eight bits.
\<close>

datatype hit = Perm nat | Ioctl nat | Nlmsg nat

definition xbit :: "u32 list \<Rightarrow> nat \<Rightarrow> bool" where
  "xbit ps n \<longleftrightarrow> n < 256 \<and> bit (ps ! (n div 32)) (n mod 32)"

definition xperm_hits :: "avtab_extended_perms \<Rightarrow> hit set" where
  "xperm_hits x =
     (if xspecified x = AVTAB_XPERMS_IOCTLFUNCTION then {Ioctl (unat (driver x) * 256 + n) |n. xbit (perms x) n}
      else if xspecified x = AVTAB_XPERMS_IOCTLDRIVER then {Ioctl m |m. xbit (perms x) (m div 256)}
      else if xspecified x = AVTAB_XPERMS_NLMSG then {Nlmsg (unat (driver x) * 256 + n) |n. xbit (perms x) n}
      else {})"

definition rule_hits :: "u16 \<Rightarrow> avtab_datum \<Rightarrow> hit set" where
  "rule_hits spec d =
     (if spec AND AVTAB_AUDITDENY \<noteq> 0 then {Perm b |b. b < 32 \<and> \<not> bit (data d) b}
      else if spec AND AVTAB_AV \<noteq> 0 then {Perm b |b. bit (data d) b}
      else if spec AND AVTAB_XPERMS \<noteq> 0 then xperm_hits (the (xperms d))
      else {})"

text \<open>What the comparison of a rule with another one does to it.\<close>

definition trimmed :: "hit set \<Rightarrow> hit set \<Rightarrow> bool \<times> hit set \<Rightarrow> bool" where
  "trimmed H G res \<longleftrightarrow> (case res of (r, H') \<Rightarrow> H' \<subseteq> H \<and> H \<subseteq> H' \<union> G \<and> (r \<longrightarrow> H \<subseteq> G))"

lemma trimmed_refl: "trimmed H {} (False, H)"
  by (simp add: trimmed_def)

lemma trimmed_mono: "trimmed H G res \<Longrightarrow> G \<subseteq> G' \<Longrightarrow> trimmed H G' res"
  by (auto simp: trimmed_def)

lemma trimmed_step: "trimmed H G (False, H1) \<Longrightarrow> trimmed H1 G' res \<Longrightarrow> trimmed H (G \<union> G') res"
  by (auto simp: trimmed_def)

lemma trimmed_stop: "trimmed H G (True, H1) \<Longrightarrow> trimmed H (G \<union> G') (True, H1)"
  by (auto simp: trimmed_def)

lemma full_word: "w = 0xffffffff \<longleftrightarrow> (\<forall>b < 32. bit w b)" for w :: u32
proof -
  have "bit (0xffffffff :: u32) b \<longleftrightarrow> b < 32" for b
    using bit_mask_iff [where 'a = "32 word", of 32 b] by (simp add: mask_eq_exp_minus_1)
  then show ?thesis using bit_imp_le_length [of w] by (auto simp: bit_eq_iff)
qed

lemma process_xperms_bits:
  assumes "process_xperms p1 p2 = (r, ps)"
  shows "xbit ps n \<longleftrightarrow> xbit p1 n \<and> \<not> xbit p2 n" and "r \<longleftrightarrow> (\<forall>n. \<not> xbit ps n)"
proof -
  have ps: "ps = map (\<lambda>i. p1 ! i AND NOT (p2 ! i)) [0..<8]" and r: "r \<longleftrightarrow> (\<forall>w \<in> set ps. w = 0)"
    using assms by (auto simp: process_xperms_def Let_def)
  show "xbit ps n \<longleftrightarrow> xbit p1 n \<and> \<not> xbit p2 n"
  proof (cases "n < 256")
    case True
    then have "n div 32 < 8" "n mod 32 < 32" by auto
    then show ?thesis using True by (simp add: xbit_def ps bit_simps del: upt_rec_numeral)
  qed (simp add: xbit_def)
  show "r \<longleftrightarrow> (\<forall>n. \<not> xbit ps n)"
  proof
    assume r1: r
    show "\<forall>n. \<not> xbit ps n"
    proof
      fix n show "\<not> xbit ps n"
      proof (cases "n < 256")
        case True
        then have "ps ! (n div 32) \<in> set ps" by (intro nth_mem) (simp add: ps del: upt_rec_numeral)
        then have "ps ! (n div 32) = 0" using r1 r by blast
        then show ?thesis by (simp add: xbit_def)
      qed (simp add: xbit_def)
    qed
  next
    assume none: "\<forall>n. \<not> xbit ps n"
    have "w = 0" if w: "w \<in> set ps" for w
    proof -
      have len: "length ps = 8" by (simp add: ps)
      obtain i where i: "i < 8" "w = ps ! i" using w unfolding in_set_conv_nth len by blast
      have "\<not> bit w b" for b
      proof (cases "b < 32")
        case True
        then have "(i * 32 + b) div 32 = i" "(i * 32 + b) mod 32 = b" "i * 32 + b < 256" using i(1) by auto
        then show ?thesis using none i(2) unfolding xbit_def by metis
      next
        case False
        then show ?thesis using bit_imp_le_length [of w b] by auto
      qed
      then show ?thesis by (simp add: bit_eq_iff)
    qed
    then show r using r by blast
  qed
qed

lemma xperm_test_bit: "xperm_test x p \<longleftrightarrow> xbit p (unat x)"
proof -
  have x: "unat x < 256" using unsigned_less [of x] by simp
  have "x AND 0x1f = take_bit 5 x" by (simp add: take_bit_eq_mask mask_eq_exp_minus_1)
  then have "unat (x AND 0x1f) = unat x mod 32" by (simp add: take_bit_eq_mod unat_mod)
  moreover have "unat (drop_bit 5 x) = unat x div 32" by (simp add: drop_bit_eq_div unat_div)
  moreover have "1 AND drop_bit n w \<noteq> 0 \<longleftrightarrow> bit w n" for n and w :: u32
    by (simp add: bit_iff_odd_drop_bit odd_iff_mod_2_eq_one and_one_eq one_and_eq)
  ultimately show ?thesis using x by (simp add: xperm_test_def xbit_def)
qed

lemma trim_xperms_trims:
  assumes "trim_xperms d1 x1 x2 = (r, d)" "the (xperms d1) = x1" "xspecified x1 = xspecified x2"
    and "xspecified x1 = AVTAB_XPERMS_IOCTLDRIVER \<or> driver x1 = driver x2"
  shows "trimmed (xperm_hits x1) (xperm_hits x2) (r, xperm_hits (the (xperms d)))"
proof -
  obtain ps where ps: "process_xperms (perms x1) (perms x2) = (r, ps)" "d = d1\<lparr>xperms := Some (x1\<lparr>perms := ps\<rparr>)\<rparr>"
    using assms(1) by (auto simp: trim_xperms_def split: prod.splits)
  note bits = process_xperms_bits [OF ps(1)]
  show ?thesis
    using bits assms(3,4) by (auto simp: trimmed_def ps(2) xperm_hits_def)
qed

text \<open>The branches of the comparison of extended permissions.\<close>

lemma xperms_branches:
  "(if A then if B then if \<not> C then X else T else if D then Y else X
    else if E then if B then X else if D then T else X
    else if F \<and> G then if \<not> C then X else T else X) = res \<Longrightarrow>
   X = res \<or> A \<and> D \<and> Y = res \<or> T = res \<and> (A \<and> B \<and> C \<or> E \<and> D \<or> F \<and> G \<and> C)"
  by (simp split: if_split_asm)

lemma process_trims:
  assumes "process_avtab_datum spec d1 d2 = (r, d)"
  shows "trimmed (rule_hits spec d1) (rule_hits spec d2) (r, rule_hits spec d)"
proof -
  consider (deny) "spec AND AVTAB_AUDITDENY \<noteq> 0"
    | (av) "spec AND AVTAB_AUDITDENY = 0" "spec AND AVTAB_AV \<noteq> 0"
    | (xp) "spec AND AVTAB_AUDITDENY = 0" "spec AND AVTAB_AV = 0" "spec AND AVTAB_XPERMS \<noteq> 0"
    | (other) "spec AND AVTAB_AUDITDENY = 0" "spec AND AVTAB_AV = 0" "spec AND AVTAB_XPERMS = 0"
    by blast
  then show ?thesis
  proof cases
    case deny
    then show ?thesis
      using assms by (auto simp: process_avtab_datum_def rule_hits_def trimmed_def Let_def full_word bit_simps)
  next
    case av
    have zero: "w = 0 \<longleftrightarrow> (\<forall>b. \<not> bit w b)" for w :: u32 using bit_imp_le_length [of w] by (auto simp: bit_eq_iff)
    show ?thesis
      using assms av bit_imp_le_length [of "data d1"]
      by (auto simp: process_avtab_datum_def rule_hits_def trimmed_def Let_def zero bit_simps)
  next
    case xp
    let ?x1 = "the (xperms d1)" and ?x2 = "the (xperms d2)"
    have H: "rule_hits spec e = xperm_hits (the (xperms e))" for e using xp by (simp add: rule_hits_def)
    have "process_avtab_datum spec d1 d2 =
        (if xspecified ?x1 = AVTAB_XPERMS_IOCTLFUNCTION
         then if xspecified ?x2 = AVTAB_XPERMS_IOCTLFUNCTION
           then if driver ?x1 \<noteq> driver ?x2 then (False, d1) else trim_xperms d1 ?x1 ?x2
           else if xspecified ?x2 = AVTAB_XPERMS_IOCTLDRIVER then (xperm_test (driver ?x1) (perms ?x2), d1)
           else (False, d1)
         else if xspecified ?x1 = AVTAB_XPERMS_IOCTLDRIVER
         then if xspecified ?x2 = AVTAB_XPERMS_IOCTLFUNCTION then (False, d1)
           else if xspecified ?x2 = AVTAB_XPERMS_IOCTLDRIVER then trim_xperms d1 ?x1 ?x2
           else (False, d1)
         else if xspecified ?x1 = AVTAB_XPERMS_NLMSG \<and> xspecified ?x2 = AVTAB_XPERMS_NLMSG
         then if driver ?x1 \<noteq> driver ?x2 then (False, d1) else trim_xperms d1 ?x1 ?x2
         else (False, d1))"
      using xp unfolding process_avtab_datum_def Let_def by (simp only: if_True if_False simp_thms)
    from xperms_branches [OF assms [unfolded this]]
    consider (keep) "(False, d1) = (r, d)"
      | (drv) "xspecified ?x1 = AVTAB_XPERMS_IOCTLFUNCTION" "xspecified ?x2 = AVTAB_XPERMS_IOCTLDRIVER"
          "(xperm_test (driver ?x1) (perms ?x2), d1) = (r, d)"
      | (both) "trim_xperms d1 ?x1 ?x2 = (r, d)" "xspecified ?x1 = AVTAB_XPERMS_IOCTLFUNCTION"
          "xspecified ?x2 = AVTAB_XPERMS_IOCTLFUNCTION" "driver ?x1 = driver ?x2"
      | (drivers) "trim_xperms d1 ?x1 ?x2 = (r, d)" "xspecified ?x1 = AVTAB_XPERMS_IOCTLDRIVER"
          "xspecified ?x2 = AVTAB_XPERMS_IOCTLDRIVER"
      | (msgs) "trim_xperms d1 ?x1 ?x2 = (r, d)" "xspecified ?x1 = AVTAB_XPERMS_NLMSG"
          "xspecified ?x2 = AVTAB_XPERMS_NLMSG" "driver ?x1 = driver ?x2"
      by satx
    then show ?thesis
    proof cases
      case keep
      then show ?thesis by (simp add: trimmed_def)
    next
      case drv
      have "xperm_hits ?x1 = {Ioctl (unat (driver ?x1) * 256 + n) |n. xbit (perms ?x1) n}"
        using drv(1) by (simp add: xperm_hits_def)
      moreover have "Ioctl (unat (driver ?x1) * 256 + n) \<in> xperm_hits ?x2" if "r" "xbit ps n" for n ps
        using that drv xperm_test_bit [of "driver ?x1" "perms ?x2"] by (auto simp: xperm_hits_def xbit_def)
      ultimately have "r \<longrightarrow> xperm_hits ?x1 \<subseteq> xperm_hits ?x2" by auto
      then show ?thesis using drv(3) by (auto simp: trimmed_def H)
    next
      case both
      then show ?thesis unfolding H by (intro trim_xperms_trims) simp_all
    next
      case drivers
      then show ?thesis unfolding H by (intro trim_xperms_trims) simp_all
    next
      case msgs
      then show ?thesis unfolding H by (intro trim_xperms_trims) simp_all
    qed
  next
    case other
    then show ?thesis using assms by (simp add: process_avtab_datum_def rule_hits_def trimmed_def)
  qed
qed

section \<open>Types and the attributes that contain them\<close>

definition attr_at :: "policydb \<Rightarrow> nat \<Rightarrow> bool" where
  "attr_at p i \<longleftrightarrow> (case type_val_to_struct p ! i of None \<Rightarrow> False | Some d \<Rightarrow> flavor d = TYPE_ATTRIB)"

text \<open>The types of contexts; the types and attributes of rules that stand for such a type.\<close>

definition real_type :: "policydb \<Rightarrow> u32 \<Rightarrow> bool" where
  "real_type p x \<longleftrightarrow> x \<noteq> 0 \<and> x \<le> nprim (p_types p) \<and> type_val_to_struct p ! unat (x - 1) \<noteq> None \<and>
     \<not> attr_at p (unat (x - 1))"

definition has_type :: "policydb \<Rightarrow> u32 \<Rightarrow> u32 \<Rightarrow> bool" where
  "has_type p x i \<longleftrightarrow> ebitmap_get_bit (type_attr_map p ! unat (x - 1)) i"

text \<open>The two maps between types and attributes agree, and a type stands for itself.\<close>

definition attr_maps_ok :: "policydb \<Rightarrow> bool" where
  "attr_maps_ok p \<longleftrightarrow> unat (nprim (p_types p)) < 2 ^ 16 \<and>
     length (type_val_to_struct p) = unat (nprim (p_types p)) \<and>
     length (type_attr_map p) = unat (nprim (p_types p)) \<and> length (attr_type_map p) = unat (nprim (p_types p)) \<and>
     (\<forall>e \<in> set (type_attr_map p) \<union> set (attr_type_map p). ebitmap_wf e) \<and>
     (\<forall>x i. real_type p x \<and> has_type p x i \<longrightarrow> i < nprim (p_types p)) \<and>
     (\<forall>x i. real_type p x \<and> i < nprim (p_types p) \<longrightarrow>
       (has_type p x i \<longleftrightarrow> (if attr_at p (unat i) then ebitmap_get_bit (attr_type_map p ! unat i) (x - 1) else i = x - 1)))"

text \<open>A type or attribute \<open>k\<close> stands for every type that \<open>i\<close> stands for.\<close>

definition type_covers :: "policydb \<Rightarrow> u32 \<Rightarrow> u32 \<Rightarrow> bool" where
  "type_covers p i k \<longleftrightarrow> k < nprim (p_types p) \<and> (\<forall>x. real_type p x \<and> has_type p x i \<longrightarrow> has_type p x k)"

definition type_map_ok :: "policydb \<Rightarrow> type_vec list \<Rightarrow> bool" where
  "type_map_ok p type_map \<longleftrightarrow>
     (\<forall>i < nprim (p_types p). \<forall>k \<in> set (types (type_map ! unat i)). type_covers p i k)"

lemma contains_loop_sound: "contains_loop ts t s e \<Longrightarrow> e \<le> length ts \<Longrightarrow> t \<in> set ts"
proof (induction ts t s e rule: contains_loop.induct)
  case (1 ts t s e)
  let ?mid = "(s + e) div 2"
  have lt: "s < e" using 1(3) by (simp add: contains_loop.simps [of ts t s e] split: if_splits)
  then have mid: "?mid < length ts" "?mid \<le> length ts" using 1(4) by auto
  show ?case
    using 1 lt mid nth_mem [OF mid(1)]
    by (cases "ts ! ?mid = t"; cases "ts ! ?mid < t") (auto simp: contains_loop.simps [of ts t s e] Let_def)
qed

lemma append_all_types: "append_all v ks h = Inr (v', h') \<Longrightarrow> types v' = types v @ ks"
  by (induction v ks h rule: append_all.induct)
    (auto simp: type_vec_append_def bind_res_def split: sum.splits prod.splits if_splits)

lemma build_maps_types: "build_maps p is h = Inr (vs, h') \<Longrightarrow> map types vs = map (type_supers p) is"
proof (induction "is" arbitrary: h vs h')
  case (Cons i "is")
  then show ?case
    by (auto simp: type_vec_init_def bind_res_def dest!: append_all_types split: sum.splits prod.splits if_splits)
qed simp

lemma type_supers_cover:
  assumes ok: "attr_maps_ok p" and i: "i < nprim (p_types p)" and k: "k \<in> set (type_supers p (unat i))"
  shows "type_covers p i k"
proof -
  let ?n = "nprim (p_types p)"
  have i': "unat i < unat ?n" using i by (simp add: word_less_nat_alt)
  have len: "length (type_attr_map p) = unat ?n" "length (attr_type_map p) = unat ?n" using ok by (simp_all add: attr_maps_ok_def)
  have wf: "\<And>j. j < unat ?n \<Longrightarrow> ebitmap_wf (type_attr_map p ! j)" "\<And>j. j < unat ?n \<Longrightarrow> ebitmap_wf (attr_type_map p ! j)"
    using ok len by (auto simp: attr_maps_ok_def)
  obtain d where d: "type_val_to_struct p ! unat i = Some d"
    using k by (cases "type_val_to_struct p ! unat i") (simp_all add: type_supers_def)
  have agree: "has_type p x j \<longleftrightarrow> (if attr_at p (unat j) then ebitmap_get_bit (attr_type_map p ! unat j) (x - 1) else j = x - 1)"
    if "real_type p x" "j < ?n" for x j
    using ok that unfolding attr_maps_ok_def by blast
  show ?thesis
  proof (cases "flavor d = TYPE_ATTRIB")
    case False
    then have na: "\<not> attr_at p (unat i)" using d by (simp add: attr_at_def)
    have "unat (i + 1) = unat i + 1" using unat_plus_one [OF i] .
    then have "i + 1 \<noteq> 0" "i + 1 \<le> ?n" using i' by (auto simp: word_le_nat_alt unat_eq_0 [symmetric])
    then have real: "real_type p (i + 1)" using d na by (simp add: real_type_def)
    have "k \<in> set (ebitmap_positive_bits (type_attr_map p ! unat i))" using k d False by (simp add: type_supers_def)
    then have "has_type p (i + 1) k" using positive_bits_iff [OF wf(1) [OF i']] by (simp add: has_type_def)
    moreover from this have "k < ?n" using ok real unfolding attr_maps_ok_def by blast
    moreover have "x = i + 1" if "real_type p x" "has_type p x i" for x
      using agree [OF that(1) i] that(2) na by simp
    ultimately show ?thesis unfolding type_covers_def by blast
  next
    case True
    then have at: "attr_at p (unat i)" using d by (simp add: attr_at_def)
    obtain j where j: "j < unat ?n" "k = of_nat j" "super_attr p (attr_type_map p ! unat i) j"
      using k d True by (auto simp: type_supers_def)
    have "j < 2 ^ 32" using j(1) unsigned_less [of ?n, where 'a = nat] by simp
    then have uk: "unat k = j" unfolding j(2) by (intro unat_of_nat_lt) simp
    then have kn: "k < ?n" using j(1) by (simp add: word_less_nat_alt)
    have ak: "attr_at p (unat k)" and sub: "ebitmap_contains (attr_type_map p ! unat k) (attr_type_map p ! unat i)"
      using j(3) uk by (auto simp: super_attr_def attr_at_def split: option.splits)
    have bits: "ebitmap_get_bit (attr_type_map p ! unat i) b \<Longrightarrow> ebitmap_get_bit (attr_type_map p ! unat k) b" for b
      using sub ebitmap_contains_correct [OF wf(2) wf(2)] i' j(1) uk
      by (auto simp: ebitmap_get_bit_correct wf(2))
    show ?thesis
      unfolding type_covers_def using kn agree [OF _ i] agree [OF _ kn] at ak bits by metis
  qed
qed

lemma build_type_map_ok:
  assumes "attr_maps_ok p" "build_type_map p h = Inr (type_map, h')"
  shows "type_map_ok p type_map"
proof -
  have "map types type_map = map (type_supers p) [0..<unat (nprim (p_types p))]"
    using assms(2) by (auto simp: build_type_map_def dest: build_maps_types split: prod.splits if_splits)
  then have "length type_map = unat (nprim (p_types p))"
    and "\<And>i. i < unat (nprim (p_types p)) \<Longrightarrow> types (type_map ! i) = type_supers p i"
    by (metis diff_zero length_map length_upt, metis (no_types, lifting) add_0 diff_zero length_map length_upt nth_map nth_upt)
  then show ?thesis
    unfolding type_map_ok_def using type_supers_cover [OF assms(1)] by (simp add: word_less_nat_alt)
qed

section \<open>Rules and what they give to a query\<close>

text \<open>A query: the kind of rule, the types of the two contexts, the class.\<close>

type_synonym query = "u16 \<times> u32 \<times> u32 \<times> u16"

definition applies :: "policydb \<Rightarrow> query \<Rightarrow> avtab_key \<Rightarrow> bool" where
  "applies p q k \<longleftrightarrow> (case q of (kind, x, y, tcl) \<Rightarrow> key_spec k = kind \<and> target_class k = tcl \<and>
     has_type p x (ucast (source_type k) - 1) \<and> has_type p y (ucast (target_type k) - 1))"

definition real_query :: "policydb \<Rightarrow> query \<Rightarrow> bool" where
  "real_query p q \<longleftrightarrow> (case q of (kind, x, y, tcl) \<Rightarrow> real_type p x \<and> real_type p y)"

definition node_hits :: "avtab_node \<Rightarrow> hit set" where
  "node_hits n = rule_hits (key_spec (fst n)) (snd n)"

definition given :: "policydb \<Rightarrow> query \<Rightarrow> avtab_node set \<Rightarrow> hit set" where
  "given p q N = (\<Union>n \<in> {n \<in> N. applies p q (fst n)}. node_hits n)"

definition single_bit :: "u16 \<Rightarrow> bool" where
  "single_bit w \<longleftrightarrow> (\<exists>i. \<forall>j. bit w j \<longleftrightarrow> j = i)"

definition key_ok :: "policydb \<Rightarrow> avtab_key \<Rightarrow> bool" where
  "key_ok p k \<longleftrightarrow> source_type k \<noteq> 0 \<and> target_type k \<noteq> 0 \<and> ucast (source_type k) \<le> nprim (p_types p) \<and>
     ucast (target_type k) \<le> nprim (p_types p) \<and> single_bit (key_spec k)"

text \<open>A rule with the key \<open>k'\<close> applies wherever one with the key \<open>k\<close> does.\<close>

definition key_covers :: "policydb \<Rightarrow> avtab_key \<Rightarrow> avtab_key \<Rightarrow> bool" where
  "key_covers p k k' \<longleftrightarrow> key_spec k' = key_spec k \<and> target_class k' = target_class k \<and>
     type_covers p (ucast (source_type k) - 1) (ucast (source_type k') - 1) \<and>
     type_covers p (ucast (target_type k) - 1) (ucast (target_type k') - 1)"

lemma key_covers_applies: "key_covers p k k' \<Longrightarrow> real_query p q \<Longrightarrow> applies p q k \<Longrightarrow> applies p q k'"
  by (auto simp: key_covers_def applies_def real_query_def type_covers_def)

lemma given_simps [simp]:
  "given p q {} = {}" "given p q (insert n N) = (if applies p q (fst n) then node_hits n \<union> given p q N else given p q N)"
  "given p q (M \<union> N) = given p q M \<union> given p q N"
  by (auto simp: given_def)

lemma given_mono: "M \<subseteq> N \<Longrightarrow> given p q M \<subseteq> given p q N"
  by (auto simp: given_def)

text \<open>The replacement of a rule by its trimmed version, or its removal, if other rules cover the rest.\<close>

lemma given_trim:
  assumes "real_query p q" "\<forall>f \<in> F. key_covers p k (fst f)" "F \<subseteq> N"
    and "trimmed (node_hits (k, d)) (\<Union>f \<in> F. node_hits f) (r, node_hits (k, d'))"
  shows "given p q (insert (k, d') N) = given p q (insert (k, d) N)"
    and "r \<Longrightarrow> given p q N = given p q (insert (k, d) N)"
proof -
  have t: "node_hits (k, d') \<subseteq> node_hits (k, d)" "node_hits (k, d) \<subseteq> node_hits (k, d') \<union> (\<Union>f \<in> F. node_hits f)"
    "r \<longrightarrow> node_hits (k, d) \<subseteq> (\<Union>f \<in> F. node_hits f)"
    using assms(4) by (simp_all add: trimmed_def)
  have cov: "(\<Union>f \<in> F. node_hits f) \<subseteq> given p q N" if "applies p q k"
    using key_covers_applies [OF _ assms(1) that] assms(2,3) by (fastforce simp: given_def)
  show "given p q (insert (k, d') N) = given p q (insert (k, d) N)"
  proof (cases "applies p q k")
    case True
    then show ?thesis using t(1,2) cov [OF True] by (simp only: given_simps fst_conv if_True) blast
  qed simp
  show "given p q N = given p q (insert (k, d) N)" if r
  proof (cases "applies p q k")
    case True
    then show ?thesis using t(3) that cov [OF True] by (simp only: given_simps fst_conv if_True) blast
  qed simp
qed

section \<open>The comparison of one rule with the others\<close>

lemma rule_hits_key_spec: "rule_hits (specified k) d = rule_hits (key_spec k) d"
proof -
  have "key_spec k AND m = specified k AND m" if "NOT AVTAB_ENABLED AND m = m" for m :: u16
    using that by (simp add: key_spec_def and.assoc)
  then show ?thesis by (simp add: rule_hits_def)
qed

lemma key_spec_single:
  assumes "single_bit (key_spec k)" "single_bit (key_spec k')" "key_spec k AND specified k' \<noteq> 0"
  shows "key_spec k' = key_spec k"
proof -
  obtain i i' where i: "\<And>j. bit (key_spec k) j \<longleftrightarrow> j = i" "\<And>j. bit (key_spec k') j \<longleftrightarrow> j = i'"
    using assms(1,2) unfolding single_bit_def by metis
  have "key_spec k AND specified k' = key_spec k AND key_spec k'"
    by (rule bit_word_eqI) (auto simp: key_spec_def bit_simps)
  then obtain j where "bit (key_spec k) j" "bit (key_spec k') j"
    using assms(3) by (auto simp: bit_eq_iff bit_and_iff)
  then have "i' = i" using i by simp
  then show ?thesis using i by (intro bit_word_eqI) simp
qed

lemma idx_key:
  assumes "i < nprim (p_types p)" "attr_maps_ok p"
  shows "ucast (ucast (i + 1) :: u16) - 1 = i"
proof -
  have "unat (i + 1) = unat i + 1" using unat_plus_one [OF assms(1)] .
  moreover have "unat i + 1 < 2 ^ 16" using assms by (auto simp: attr_maps_ok_def word_less_nat_alt)
  ultimately have "unat (ucast (ucast (i + 1) :: u16) :: u32) = unat i + 1"
    by (simp add: unsigned_ucast_eq unsigned_take_bit_eq take_bit_nat_eq_self)
  then show ?thesis using \<open>unat (i + 1) = _\<close> by (metis add_diff_cancel_right' word_eq_unatI)
qed

text \<open>The rules of the table that may cover \<open>e\<close>; with \<open>nc\<close> the rule itself is none of them.\<close>

definition coverers :: "policydb \<Rightarrow> avtab_node \<Rightarrow> bool \<Rightarrow> avtab_node set \<Rightarrow> avtab_node set" where
  "coverers p e nc N = {f \<in> N. key_covers p (fst e) (fst f) \<and> (nc \<longrightarrow> fst f \<noteq> fst e)}"

abbreviation all_hits :: "avtab_node set \<Rightarrow> hit set" where
  "all_hits F \<equiv> (\<Union>f \<in> F. node_hits f)"

lemma process_node:
  assumes "process_avtab_datum (specified (fst e)) d1 d2 = (r, d)" "key_covers p (fst e) k2"
  shows "trimmed (node_hits (fst e, d1)) (node_hits (k2, d2)) (r, node_hits (fst e, d))"
  using process_trims [OF assms(1)] assms(2) by (simp add: node_hits_def rule_hits_key_spec key_covers_def)

lemma scan_step:
  assumes "process_avtab_datum (specified (fst e)) d1 d2 = (r1, d3)" "(k2, d2) \<in> F" "key_covers p (fst e) k2"
    and "r1 \<Longrightarrow> (r, d) = (True, d3)"
    and "\<not> r1 \<Longrightarrow> trimmed (node_hits (fst e, d3)) (all_hits F) (r, node_hits (fst e, d))"
  shows "trimmed (node_hits (fst e, d1)) (all_hits F) (r, node_hits (fst e, d))"
proof -
  note t = process_node [OF assms(1,3)]
  have sub: "node_hits (k2, d2) \<union> all_hits F = all_hits F" using assms(2) by blast
  show ?thesis
  proof (cases r1)
    case True
    then show ?thesis using trimmed_stop [of "node_hits (fst e, d1)" "node_hits (k2, d2)" _ "all_hits F"] t assms(4) sub by simp
  next
    case False
    then show ?thesis using trimmed_step [of "node_hits (fst e, d1)" "node_hits (k2, d2)"] t assms(5) sub by metis
  qed
qed

lemma search_covers:
  assumes ok: "attr_maps_ok p" "avtab_wf tab" "\<forall>f \<in> set (avtab_nodes tab). key_ok p (fst f)" "key_ok p (fst e)"
    and types: "type_covers p (src_idx e) st" "type_covers p (tgt_idx e) tt"
    and found: "avtab_search tab ((fst e)\<lparr>source_type := ucast (st + 1), target_type := ucast (tt + 1)\<rparr>) = Some d2"
    and nc: "\<not> (nc \<and> src_idx e = st \<and> tgt_idx e = tt)"
  shows "\<exists>k2. (k2, d2) \<in> coverers p e nc (set (avtab_nodes tab))"
proof -
  let ?key = "(fst e)\<lparr>source_type := ucast (st + 1), target_type := ucast (tt + 1)\<rparr>"
  have spec: "key_spec ?key = key_spec (fst e)" by (simp add: key_spec_def)
  obtain f where f: "find (node_matches ?key (key_spec ?key)) (avtab_nodes tab) = Some f" "d2 = snd f"
    using found avtab_search_find [OF ok(2), of ?key] by auto
  then have mem: "f \<in> set (avtab_nodes tab)" and m: "node_matches ?key (key_spec ?key) f"
    by (auto simp: find_Some_iff)
  have k2: "source_type (fst f) = ucast (st + 1)" "target_type (fst f) = ucast (tt + 1)" "target_class (fst f) = target_class (fst e)"
    using m by (simp_all add: node_matches_def key_same_def)
  have "key_spec (fst e) AND specified (fst f) \<noteq> 0" using m spec by (simp add: node_matches_def)
  then have "key_spec (fst f) = key_spec (fst e)" using key_spec_single ok(3,4) mem by (simp add: key_ok_def)
  moreover have idx: "ucast (source_type (fst f)) - 1 = st" "ucast (target_type (fst f)) - 1 = tt"
    using idx_key [OF _ ok(1)] types k2 by (simp_all add: type_covers_def)
  ultimately have "key_covers p (fst e) (fst f)" using k2(3) types by (simp add: key_covers_def src_idx_def tgt_idx_def)
  moreover have "nc \<longrightarrow> fst f \<noteq> fst e" using nc idx by (auto simp: src_idx_def tgt_idx_def)
  ultimately show ?thesis using mem f(2) by (auto simp: coverers_def intro!: exI [of _ "fst f"])
qed

lemma avrule_scan_trims:
  assumes ok: "attr_maps_ok p" "avtab_wf tab" "\<forall>f \<in> set (avtab_nodes tab). key_ok p (fst f)" "key_ok p (fst e)"
  shows "\<forall>(st, tt) \<in> set ps. type_covers p (src_idx e) st \<and> type_covers p (tgt_idx e) tt \<Longrightarrow>
    avrule_scan tab e nc ps d1 = (r, d) \<Longrightarrow>
    trimmed (node_hits (fst e, d1)) (all_hits (coverers p e nc (set (avtab_nodes tab)))) (r, node_hits (fst e, d))"
proof (induction ps arbitrary: d1)
  case Nil
  then show ?case by (auto simp: trimmed_def)
next
  case (Cons x ps)
  obtain st tt where x: "x = (st, tt)" by (cases x)
  have types: "type_covers p (src_idx e) st" "type_covers p (tgt_idx e) tt"
    and rest: "\<forall>(st, tt) \<in> set ps. type_covers p (src_idx e) st \<and> type_covers p (tgt_idx e) tt"
    using Cons.prems(1) by (auto simp: x)
  note IH = Cons.IH [OF rest]
  show ?case
  proof (cases "nc \<and> src_idx e = st \<and> tgt_idx e = tt")
    case True
    then show ?thesis using Cons.prems(2) IH by (simp add: x)
  next
    case other: False
    let ?s = "avtab_search tab ((fst e)\<lparr>source_type := ucast (st + 1), target_type := ucast (tt + 1)\<rparr>)"
    show ?thesis
    proof (cases ?s)
      case None
      then show ?thesis using Cons.prems(2) IH other by (simp add: x del: ucast_eq)
    next
      case (Some d2)
      obtain r1 d3 where pr: "process_avtab_datum (specified (fst e)) d1 d2 = (r1, d3)" by fastforce
      obtain k2 where k2: "(k2, d2) \<in> coverers p e nc (set (avtab_nodes tab))"
        using search_covers [OF ok types Some other] by blast
      then have "key_covers p (fst e) k2" by (simp add: coverers_def)
      from scan_step [OF pr k2 this] show ?thesis
        using Cons.prems(2) IH Some pr unfolding x avrule_scan.simps if_not_P [OF other] by (simp split: if_splits)
    qed
  qed
qed

lemma word_pred_less:
  fixes w n :: "'a::len word"
  assumes "w \<noteq> 0" "w \<le> n"
  shows "w - 1 < n"
proof -
  have "unat w \<noteq> 0" using assms(1) by (simp add: unat_eq_0)
  then have "unat (w - 1) < unat w" using unat_minus_one [OF assms(1)] by simp
  then show ?thesis using assms(2) by (simp add: word_less_nat_alt word_le_nat_alt)
qed

lemma ucast_up_0: "ucast (w :: u16) = (0 :: u32) \<longleftrightarrow> w = 0"
proof -
  have "unat (ucast w :: u32) = unat w" 
    using unsigned_less [of w, where 'a = nat] by (simp add: unsigned_ucast_eq take_bit_nat_eq_self)
  then show ?thesis by (simp only: flip: unat_eq_0)
qed

lemma key_ok_idx:
  assumes "key_ok p (fst e)"
  shows "src_idx e < nprim (p_types p)" "tgt_idx e < nprim (p_types p)"
  using assms by (auto simp: key_ok_def src_idx_def tgt_idx_def ucast_up_0 intro!: word_pred_less)

lemma redundant_trims:
  assumes ok: "attr_maps_ok p" "avtab_wf tab" "\<forall>f \<in> set (avtab_nodes tab). key_ok p (fst f)" "key_ok p (fst e)"
    and tm: "type_map_ok p type_map" and run: "is_avrule_redundant e tab type_map nc = (r, d)"
  shows "trimmed (node_hits e) (all_hits (coverers p e nc (set (avtab_nodes tab)))) (r, node_hits (fst e, d))"
proof (cases "av_or_xperm e")
  case False
  then show ?thesis using run by (auto simp: is_avrule_redundant_def trimmed_def)
next
  case True
  note key_ok_idx [OF ok(4)]
  then have "\<forall>(st, tt) \<in> set (List.product (types (type_map ! unat (src_idx e))) (types (type_map ! unat (tgt_idx e)))).
      type_covers p (src_idx e) st \<and> type_covers p (tgt_idx e) tt"
    using tm by (auto simp: type_map_ok_def)
  from avrule_scan_trims [OF ok this, of nc "snd e"] run True show ?thesis
    by (simp add: is_avrule_redundant_def)
qed

end
