(* ===== verification/Optimize_Rules.thy ===== *)
theory Optimize_Rules
  imports Optimize
begin

text \<open>
  The optimiser keeps what the rules give: first for the unconditional table, then for the lists of a
  conditional, last for the whole database, where rules are unlinked and pointers move.
\<close>

unbundle bit_operations_syntax

section \<open>Chains\<close>

lemma nodes_split:
  assumes "avtable tab = Some t" "i < length t"
  shows "set (avtab_nodes (set_chain i c tab)) = set c \<union> (\<Union>j \<in> {j. j < length t \<and> j \<noteq> i}. set (t ! j))"
proof -
  have "set (t[i := c]) = {c} \<union> (\<lambda>j. t ! j) ` {j. j < length t \<and> j \<noteq> i}"
    using assms(2) by (auto simp: in_set_conv_nth nth_list_update image_iff split: if_splits)
  then show ?thesis using assms(1) by (auto simp: avtab_nodes_def set_chain_def)
qed

lemma set_chain_same: "avtable tab = Some t \<Longrightarrow> set_chain i (t ! i) tab = tab"
  by (cases tab) (simp add: set_chain_def)

lemma set_chain_fields [simp]:
  "nslot (set_chain i c tab) = nslot tab" "avnel (set_chain i c tab) = avnel tab" "avmask (set_chain i c tab) = avmask tab"
  by (simp_all add: set_chain_def)

lemma set_chain_wf:
  assumes "avtab_wf tab" "avtable tab = Some t" "i < length t"
    and "chain_ord c" "fst ` set c \<subseteq> fst ` set (t ! i)"
  shows "avtab_wf (set_chain i c tab)"
proof -
  have "unat (avtab_hash (fst n) (avmask tab)) = i" if nc: "n \<in> set c" for n
  proof -
    obtain m where m: "m \<in> set (t ! i)" "fst n = fst m"
      using subsetD [OF assms(5) imageI [OF nc]] by (elim imageE)
    show ?thesis unfolding m(2) by (rule avtab_wfD(2) [OF assms(1-3) m(1)])
  qed
  note hash = this
  have t': "avtable (set_chain i c tab) = Some (t[i := c])" using assms(2) by (simp add: set_chain_def)
  have base: "nslot tab \<noteq> 0 \<and> length t = unat (nslot tab) \<and> avmask tab = nslot tab - 1"
    using assms(1) unfolding avtab_wf_def assms(2) by (simp only: option.case simp_thms)
  show ?thesis
    unfolding avtab_wf_def t' set_chain_fields option.case length_list_update
  proof (intro conjI allI impI ballI)
    fix j assume j: "j < length t"
    show "chain_ord (t[i := c] ! j)" using avtab_wfD(1) [OF assms(1,2) j] assms(4) j by (cases "j = i") simp_all
    fix n assume n: "n \<in> set (t[i := c] ! j)"
    show "unat (avtab_hash (fst n) (avmask tab)) = j"
    proof (cases "j = i")
      case True
      then show ?thesis using hash [of n] n j by (simp only: nth_list_update_eq)
    next
      case False
      then show ?thesis using avtab_wfD(2) [OF assms(1,2) j, of n] n by (simp only: nth_list_update_neq)
    qed
  qed (use base in blast)+
qed

lemma avtab_wf_count [simp]: "avtab_wf (h\<lparr>avnel := n\<rparr>) = avtab_wf h"
  by (cases "avtable h") (simp_all add: avtab_wf_def)

lemma nodes_count:
  assumes "avtable tab = Some t" "i < length t"
  shows "length (avtab_nodes (set_chain i c tab)) + length (t ! i) = length (avtab_nodes tab) + length c"
proof -
  let ?a = "take i t" and ?b = "drop (Suc i) t"
  have t: "t = ?a @ t ! i # ?b" using assms(2) by (rule id_take_nth_drop)
  have "t[i := c] = ?a @ c # ?b" using assms(2) by (rule upd_conv_take_nth_drop)
  then have "concat (t[i := c]) = concat ?a @ c @ concat ?b" by simp
  moreover have "concat t = concat ?a @ t ! i @ concat ?b" using arg_cong [OF t, of concat] by simp
  ultimately show ?thesis using assms(1) by (simp add: avtab_nodes_def set_chain_def)
qed

section \<open>The unconditional table\<close>

definition keys_ok :: "policydb \<Rightarrow> avtab_node set \<Rightarrow> bool" where
  "keys_ok p N \<longleftrightarrow> (\<forall>n \<in> N. key_ok p (fst n))"

definition counted :: "avtab \<Rightarrow> bool" where
  "counted tab \<longleftrightarrow> avnel tab = of_nat (length (avtab_nodes tab))"

text \<open>\<open>same_rules p tab tab'\<close>: the table \<open>tab'\<close> is a pruned \<open>tab\<close> that gives the same.\<close>

definition same_rules :: "policydb \<Rightarrow> avtab \<Rightarrow> avtab \<Rightarrow> bool" where
  "same_rules p tab tab' \<longleftrightarrow> avtab_wf tab' \<and> nslot tab' = nslot tab \<and> avmask tab' = avmask tab \<and>
     length (the (avtable tab')) = length (the (avtable tab)) \<and> avtable tab' \<noteq> None \<and>
     fst ` set (avtab_nodes tab') \<subseteq> fst ` set (avtab_nodes tab) \<and> (counted tab \<longrightarrow> counted tab') \<and>
     (\<forall>q. real_query p q \<longrightarrow> given p q (set (avtab_nodes tab')) = given p q (set (avtab_nodes tab)))"

lemma same_rules_refl: "avtab_wf tab \<Longrightarrow> avtable tab \<noteq> None \<Longrightarrow> same_rules p tab tab"
  by (simp add: same_rules_def)

lemma same_rules_trans: "same_rules p a b \<Longrightarrow> same_rules p b c \<Longrightarrow> same_rules p a c"
  unfolding same_rules_def by (elim conjE) (intro conjI impI allI, auto)

lemma keys_ok_same: "same_rules p a b \<Longrightarrow> keys_ok p (set (avtab_nodes a)) \<Longrightarrow> keys_ok p (set (avtab_nodes b))"
  unfolding same_rules_def keys_ok_def by (metis imageI image_iff subsetD)

text \<open>One rule: it is trimmed, or removed.\<close>

lemma rule_step:
  assumes ok: "attr_maps_ok p" "type_map_ok p type_map" "avtab_wf tab" "keys_ok p (set (avtab_nodes tab))"
    and t: "avtable tab = Some t" "i < length t" "t ! i = pre @ cur # ns"
    and run: "is_avrule_redundant cur tab type_map True = (r, d)"
  shows "same_rules p tab (set_chain i (pre @ (fst cur, d) # ns) tab)"
    and "r \<Longrightarrow> same_rules p tab ((set_chain i (pre @ ns) tab)\<lparr>avnel := avnel tab - 1\<rparr>)"
proof -
  let ?R = "\<Union>j \<in> {j. j < length t \<and> j \<noteq> i}. set (t ! j)"
  let ?N = "set pre \<union> set ns \<union> ?R"
  let ?upd = "set_chain i (pre @ (fst cur, d) # ns) tab" and ?del = "set_chain i (pre @ ns) tab"
  have tab: "set (avtab_nodes tab) = insert cur ?N"
    using nodes_split [OF t(1,2), of "pre @ cur # ns"] set_chain_same [OF t(1), of i] t(3) by auto
  have upd: "set (avtab_nodes ?upd) = insert (fst cur, d) ?N" and del: "set (avtab_nodes ?del) = ?N"
    using nodes_split [OF t(1,2)] by auto
  let ?F = "coverers p cur True (set (avtab_nodes tab))"
  have trim: "trimmed (node_hits (fst cur, snd cur)) (all_hits ?F) (r, node_hits (fst cur, d))"
    using redundant_trims [OF ok(1,3) _ _ ok(2) run] ok(4) by (simp add: keys_ok_def tab)
  have F: "\<forall>f \<in> ?F. key_covers p (fst cur) (fst f)" "?F \<subseteq> ?N"
    by (auto simp: coverers_def tab)
  have same: "given p q (set (avtab_nodes ?upd)) = given p q (set (avtab_nodes tab))"
    "r \<Longrightarrow> given p q (set (avtab_nodes ?del)) = given p q (set (avtab_nodes tab))" if "real_query p q" for q
    unfolding upd del tab using given_trim [OF that F trim] by simp_all
  have ord: "chain_ord (pre @ cur # ns)" using avtab_wfD(1) [OF ok(3) t(1,2)] t(3) by simp
  then have ord': "chain_ord (pre @ (fst cur, d) # ns)" "chain_ord (pre @ ns)" by (auto simp: chain_ord_append)
  have wf: "avtab_wf ?upd" "avtab_wf ?del"
    by (rule set_chain_wf [OF ok(3) t(1,2)]; use ord' t(3) in auto)+
  have len: "length (avtab_nodes ?upd) = length (avtab_nodes tab)"
    "Suc (length (avtab_nodes ?del)) = length (avtab_nodes tab)"
    using nodes_count [OF t(1,2), of "pre @ (fst cur, d) # ns"] nodes_count [OF t(1,2), of "pre @ ns"] t(3) by simp_all
  have tbl: "avtable ?upd = Some (t[i := pre @ (fst cur, d) # ns])" "avtable ?del = Some (t[i := pre @ ns])"
    using t(1) by (simp_all add: set_chain_def)
  show "same_rules p tab ?upd"
    using wf(1) same(1) len(1) tbl(1) t(1) upd tab by (auto simp: same_rules_def counted_def)
  have nodes: "avtab_nodes (?del\<lparr>avnel := avnel tab - 1\<rparr>) = avtab_nodes ?del" by (simp add: avtab_nodes_def)
  have wf': "avtab_wf (?del\<lparr>avnel := avnel tab - 1\<rparr>)" using wf(2) by simp
  have "avnel tab - 1 = of_nat (length (avtab_nodes ?del))" if "counted tab"
    using that by (simp add: counted_def flip: len(2))
  then show "same_rules p tab (?del\<lparr>avnel := avnel tab - 1\<rparr>)" if r
    using wf' same(2) that tbl(2) t(1) unfolding same_rules_def counted_def nodes by (auto simp: del tab)
qed

lemma optimize_chain_same:
  assumes "attr_maps_ok p" "type_map_ok p type_map"
  shows "avtab_wf tab \<Longrightarrow> keys_ok p (set (avtab_nodes tab)) \<Longrightarrow> avtable tab = Some t \<Longrightarrow> i < length t \<Longrightarrow>
    t ! i = pre @ c \<Longrightarrow> same_rules p tab (optimize_chain type_map i pre c tab)"
proof (induction c arbitrary: pre tab t)
  case Nil
  then show ?case by (simp add: same_rules_refl)
next
  case (Cons cur ns)
  obtain r d where run: "is_avrule_redundant cur tab type_map True = (r, d)" by fastforce
  note step = rule_step [OF assms Cons.prems(1-5) run]
  show ?case
  proof (cases r)
    case True
    let ?t = "(set_chain i (pre @ ns) tab)\<lparr>avnel := avnel tab - 1\<rparr>"
    have s: "same_rules p tab ?t" using step(2) True .
    have "same_rules p ?t (optimize_chain type_map i pre ns ?t)"
    proof (rule Cons.IH [of _ "t[i := pre @ ns]"])
      show "avtab_wf ?t" using s by (simp add: same_rules_def)
      show "keys_ok p (set (avtab_nodes ?t))" using keys_ok_same [OF s Cons.prems(2)] .
    qed (use Cons.prems(3,4) in \<open>simp_all add: set_chain_def\<close>)
    then show ?thesis using same_rules_trans [OF s] run True by simp
  next
    case False
    let ?t = "set_chain i (pre @ (fst cur, d) # ns) tab"
    note s = step(1)
    have "same_rules p ?t (optimize_chain type_map i (pre @ [(fst cur, d)]) ns ?t)"
    proof (rule Cons.IH [of _ "t[i := pre @ (fst cur, d) # ns]"])
      show "avtab_wf ?t" using s by (simp add: same_rules_def)
      show "keys_ok p (set (avtab_nodes ?t))" using keys_ok_same [OF s Cons.prems(2)] .
    qed (use Cons.prems(3,4) in \<open>simp_all add: set_chain_def\<close>)
    then show ?thesis using same_rules_trans [OF s] run False by simp
  qed
qed

lemma optimize_avtab_same:
  assumes "attr_maps_ok p" "type_map_ok p type_map" "avtab_wf tab" "avtable tab \<noteq> None"
    and "keys_ok p (set (avtab_nodes tab))"
  shows "same_rules p tab (optimize_avtab type_map tab)"
proof -
  have "\<forall>i \<in> set is. i < length (the (avtable tab)) \<Longrightarrow> avtab_wf tab \<Longrightarrow> avtable tab \<noteq> None \<Longrightarrow>
    keys_ok p (set (avtab_nodes tab)) \<Longrightarrow>
    same_rules p tab (fold (\<lambda>i tab. optimize_chain type_map i [] (chain_of i tab) tab) is tab)" for "is"
  proof (induction "is" arbitrary: tab)
    case Nil
    then show ?case by (simp add: same_rules_refl)
  next
    case (Cons i "is")
    obtain t where t: "avtable tab = Some t" using Cons.prems(3) by blast
    let ?t = "optimize_chain type_map i [] (chain_of i tab) tab"
    have s: "same_rules p tab ?t"
      using optimize_chain_same [OF assms(1,2) Cons.prems(2,4) t, of i "[]" "chain_of i tab"] Cons.prems(1)
      by (simp add: t chain_of_def)
    then have "avtab_wf ?t" "avtable ?t \<noteq> None" "length (the (avtable ?t)) = length (the (avtable tab))"
      by (simp_all add: same_rules_def)
    then show ?case
      using same_rules_trans [OF s Cons.IH] keys_ok_same [OF s Cons.prems(4)] Cons.prems(1) by simp
  qed
  moreover have "\<forall>i \<in> set [0..<unat (nslot tab)]. i < length (the (avtable tab))"
    using assms(3,4) by (auto simp: avtab_wf_def)
  ultimately show ?thesis unfolding optimize_avtab_def using assms(3-5) by blast
qed

section \<open>The rules of a conditional list\<close>

definition list_coverers :: "policydb \<Rightarrow> avtab \<Rightarrow> avtab_node \<Rightarrow> avtab_ptr set \<Rightarrow> avtab_node set" where
  "list_coverers p a e Q = {f. \<exists>x \<in> Q. f = ptr_node a x \<and> key_covers p (fst e) (fst f) \<and> fst f \<noteq> fst e}"

lemma cond_rule_scan_trims:
  assumes tm: "type_map_ok p type_map" and e: "key_ok p (fst e)"
  shows "cond_rule_scan a e type_map l d1 = (r, d) \<Longrightarrow>
    trimmed (node_hits (fst e, d1)) (all_hits (list_coverers p a e (set l))) (r, node_hits (fst e, d))"
proof (induction l arbitrary: d1)
  case Nil
  then show ?case by (auto simp: trimmed_def)
next
  case (Cons x l)
  let ?e2 = "ptr_node a x"
  have sub: "all_hits (list_coverers p a e (set l)) \<subseteq> all_hits (list_coverers p a e (set (x # l)))"
    by (auto simp: list_coverers_def)
  have rest: "trimmed (node_hits (fst e, d3)) (all_hits (list_coverers p a e (set (x # l)))) (r, node_hits (fst e, d))"
    if "cond_rule_scan a e type_map l d3 = (r, d)" for d3
    using trimmed_mono [OF Cons.IH [OF that] sub] .
  define skip where "skip \<longleftrightarrow> specified (fst e) \<noteq> specified (fst ?e2) \<or> target_class (fst e) \<noteq> target_class (fst ?e2) \<or>
       src_idx e = src_idx ?e2 \<and> tgt_idx e = tgt_idx ?e2 \<or>
       \<not> type_vec_contains (type_map ! unat (src_idx e)) (src_idx ?e2) \<or>
       \<not> type_vec_contains (type_map ! unat (tgt_idx e)) (tgt_idx ?e2)"
  obtain r1 d3 where pr: "process_avtab_datum (specified (fst e)) d1 (snd ?e2) = (r1, d3)" by fastforce
  have run: "(if skip then cond_rule_scan a e type_map l d1
      else if r1 then (True, d3) else cond_rule_scan a e type_map l d3) = (r, d)"
    using Cons.prems unfolding cond_rule_scan.simps Let_def pr prod.case skip_def .
  show ?case
  proof (cases skip)
    case True
    then show ?thesis using run rest by simp
  next
    case False
    have "type_covers p i k" if "i < nprim (p_types p)" "type_vec_contains (type_map ! unat i) k" for i k
      using that tm contains_loop_sound [of _ k 0] unfolding type_map_ok_def type_vec_contains_def by blast
    then have "key_covers p (fst e) (fst ?e2)"
      using False key_ok_idx [OF e] by (simp add: skip_def key_covers_def src_idx_def tgt_idx_def key_spec_def)
    moreover have "fst ?e2 \<noteq> fst e" using False by (auto simp: skip_def src_idx_def tgt_idx_def)
    ultimately have "(fst ?e2, snd ?e2) \<in> list_coverers p a e (set (x # l))" "key_covers p (fst e) (fst ?e2)"
      by (auto simp: list_coverers_def)
    from scan_step [OF pr this] show ?thesis using run rest False by (simp split: if_splits)
  qed
qed

section \<open>Pruned lists\<close>

declare split_paired_All [simp del] split_paired_Ex [simp del]

lemma ptr_node_set_datum:
  "ptr_ok a x \<Longrightarrow> ptr_node (set_datum x d a) y = (if y = x then (fst (ptr_node a x), d) else ptr_node a y)"
  by (cases x; cases y; cases "fst y = fst x") (auto simp: ptr_ok_def ptr_node_def set_datum_def set_chain_def chain_of_def)

lemma ptr_ok_set_datum [simp]: "ptr_ok (set_datum x d a) y \<longleftrightarrow> ptr_ok a y"
  by (cases x; cases y; cases "avtable a"; cases "fst x = fst y")
    (auto simp: ptr_ok_def set_datum_def set_chain_def chain_of_def)

text \<open>What the lists are compared with: a table of unconditional rules.\<close>

definition te_ok :: "policydb \<Rightarrow> type_vec list \<Rightarrow> avtab \<Rightarrow> bool" where
  "te_ok p type_map te \<longleftrightarrow> attr_maps_ok p \<and> type_map_ok p type_map \<and> avtab_wf te \<and> keys_ok p (set (avtab_nodes te))"

definition gives :: "policydb \<Rightarrow> avtab \<Rightarrow> avtab \<Rightarrow> avtab_ptr set \<Rightarrow> query \<Rightarrow> hit set" where
  "gives p te a Q q = given p q (set (avtab_nodes te) \<union> ptr_node a ` Q)"

lemma list_rule_step:
  assumes te: "te_ok p type_map te" and cur: "ptr_ok a cur" "key_ok p (fst (ptr_node a cur))" "cur \<notin> Q"
    and cov: "set cov \<subseteq> insert cur Q" and run: "list_rule_redundant te type_map a cur cov = (r, d)"
    and q: "real_query p q"
  shows "gives p te (set_datum cur d a) (insert cur Q) q = gives p te a (insert cur Q) q"
    and "r \<Longrightarrow> gives p te (set_datum cur d a) Q q = gives p te a (insert cur Q) q"
proof -
  let ?e = "ptr_node a cur" and ?N = "set (avtab_nodes te) \<union> ptr_node a ` Q"
  let ?F1 = "coverers p ?e False (set (avtab_nodes te))" and ?F2 = "list_coverers p a ?e (set cov)"
  have ok: "attr_maps_ok p" "type_map_ok p type_map" "avtab_wf te" "\<forall>f \<in> set (avtab_nodes te). key_ok p (fst f)"
    using te by (simp_all add: te_ok_def keys_ok_def)
  obtain r1 d1 where s1: "is_avrule_redundant ?e te type_map False = (r1, d1)" by fastforce
  have t1: "trimmed (node_hits ?e) (all_hits ?F1) (r1, node_hits (fst ?e, d1))"
    using redundant_trims [OF ok(1,3,4) cur(2) ok(2) s1] .
  have trim: "trimmed (node_hits (fst ?e, snd ?e)) (all_hits (?F1 \<union> ?F2)) (r, node_hits (fst ?e, d))"
  proof (cases r1)
    case True
    then have "(r, d) = (True, d1)" using run s1 by (simp add: list_rule_redundant_def)
    then show ?thesis using trimmed_mono [OF t1, of "all_hits (?F1 \<union> ?F2)"] True by simp
  next
    case False
    then have s2: "is_cond_rule_redundant a ?e d1 cov type_map = (r, d)"
      using run s1 by (simp add: list_rule_redundant_def)
    have "trimmed (node_hits (fst ?e, d1)) (all_hits ?F2) (r, node_hits (fst ?e, d))"
    proof (cases "av_or_xperm ?e")
      case True
      then show ?thesis using s2 cond_rule_scan_trims [OF ok(2) cur(2)] by (simp add: is_cond_rule_redundant_def)
    next
      case no: False
      then show ?thesis using s2 by (auto simp: is_cond_rule_redundant_def trimmed_def)
    qed
    then have "trimmed (node_hits ?e) (all_hits ?F1 \<union> all_hits ?F2) (r, node_hits (fst ?e, d))"
      using trimmed_step [of _ _ "node_hits (fst ?e, d1)"] t1 False by simp
    then show ?thesis by (simp only: UN_Un prod.collapse)
  qed
  have F: "\<forall>f \<in> ?F1 \<union> ?F2. key_covers p (fst ?e) (fst f)" "?F1 \<union> ?F2 \<subseteq> ?N"
    using cov by (auto simp: coverers_def list_coverers_def)
  have img: "ptr_node (set_datum cur d a) ` Q = ptr_node a ` Q"
    using cur(3) by (intro image_cong refl) (auto simp: ptr_node_set_datum [OF cur(1)])
  have self: "ptr_node (set_datum cur d a) cur = (fst ?e, d)" by (simp add: ptr_node_set_datum [OF cur(1)])
  show "gives p te (set_datum cur d a) (insert cur Q) q = gives p te a (insert cur Q) q"
    using given_trim(1) [OF q F trim] by (simp only: gives_def image_insert img self Un_insert_right prod.collapse)
  show "gives p te (set_datum cur d a) Q q = gives p te a (insert cur Q) q" if r
    using given_trim(2) [OF q F trim that] by (simp only: gives_def image_insert img Un_insert_right prod.collapse)
qed

text \<open>
  \<open>data_only a a' Q\<close>: only data of rules in \<open>Q\<close> differ. \<open>pruned\<close>: the rules \<open>K\<close> that are kept
  give what the rules \<open>L\<close> gave.
\<close>

definition data_only :: "avtab \<Rightarrow> avtab \<Rightarrow> avtab_ptr set \<Rightarrow> bool" where
  "data_only a a' Q \<longleftrightarrow> (\<forall>x. ptr_ok a' x \<longleftrightarrow> ptr_ok a x) \<and> (\<forall>x. x \<notin> Q \<longrightarrow> ptr_node a' x = ptr_node a x) \<and>
     (\<forall>x. fst (ptr_node a' x) = fst (ptr_node a x)) \<and> (avtab_wf a \<longrightarrow> avtab_wf a')"

definition list_ok :: "policydb \<Rightarrow> avtab \<Rightarrow> avtab_ptr set \<Rightarrow> bool" where
  "list_ok p a Q \<longleftrightarrow> (\<forall>x \<in> Q. ptr_ok a x \<and> key_ok p (fst (ptr_node a x)))"

lemma list_ok_simps [simp]:
  "list_ok p a (insert x Q) \<longleftrightarrow> ptr_ok a x \<and> key_ok p (fst (ptr_node a x)) \<and> list_ok p a Q"
  "list_ok p a (P \<union> Q) \<longleftrightarrow> list_ok p a P \<and> list_ok p a Q"
  by (auto simp: list_ok_def)

lemma data_only_refl: "data_only a a Q"
  by (simp add: data_only_def)

lemma data_only_trans: "data_only a b P \<Longrightarrow> data_only b c Q \<Longrightarrow> P \<union> Q \<subseteq> R \<Longrightarrow> data_only a c R"
  unfolding data_only_def by (intro conjI; metis Un_subset_iff subsetD)

lemma set_datum_wf:
  assumes "ptr_ok a x" "avtab_wf a"
  shows "avtab_wf (set_datum x d a)"
proof -
  obtain i j t where x: "x = (i, j)" and t: "avtable a = Some t" "i < length t" and j: "j < length (t ! i)"
    using assms(1) by (cases x) (auto simp: ptr_ok_def)
  let ?c = "(t ! i)[j := (fst (t ! i ! j), d)]"
  have keys: "map fst ?c = map fst (t ! i)" 
    using j by (metis map_update fst_conv list_update_id nth_map)
  have "chain_ord c \<longleftrightarrow> sorted_wrt (\<lambda>a b. key_rank a \<le> key_rank b) (map fst c)" for c :: "avtab_node list"
    by (simp add: chain_ord_def sorted_wrt_map)
  then have "chain_ord ?c" using keys avtab_wfD(1) [OF assms(2) t] by simp
  moreover have "fst ` set ?c \<subseteq> fst ` set (t ! i)" using keys by (metis image_set subset_refl)
  moreover have "set_datum x d a = set_chain i ?c a" by (simp add: x set_datum_def chain_of_def t(1))
  ultimately show ?thesis using set_chain_wf [OF assms(2) t] by simp
qed

lemma data_only_set_datum: "ptr_ok a x \<Longrightarrow> x \<in> Q \<Longrightarrow> data_only a (set_datum x d a) Q"
  by (auto simp: data_only_def ptr_node_set_datum set_datum_wf)

lemma list_ok_data: "data_only a a' P \<Longrightarrow> list_ok p a' Q \<longleftrightarrow> list_ok p a Q"
  by (simp add: data_only_def list_ok_def)

lemma gives_data: "data_only a a' P \<Longrightarrow> P \<inter> Q = {} \<Longrightarrow> gives p te a' Q q = gives p te a Q q"
proof -
  assume "data_only a a' P" "P \<inter> Q = {}"
  then have "ptr_node a' ` Q = ptr_node a ` Q" by (intro image_cong refl) (auto simp: data_only_def)
  then show ?thesis by (simp only: gives_def)
qed

text \<open>The rules \<open>K\<close> that stay give, with any others that include \<open>C\<close>, what the rules \<open>L\<close> gave.\<close>

definition pruned ::
  "policydb \<Rightarrow> avtab \<Rightarrow> avtab_ptr set \<Rightarrow> avtab \<Rightarrow> avtab_ptr set \<Rightarrow> avtab \<Rightarrow> avtab_ptr set \<Rightarrow> avtab_ptr set \<Rightarrow> bool" where
  "pruned p te C a L a' K D \<longleftrightarrow> data_only a a' L \<and> K \<union> D = L \<and> K \<inter> D = {} \<and>
     (\<forall>X q. real_query p q \<longrightarrow> C \<subseteq> X \<longrightarrow> X \<inter> L = {} \<longrightarrow> gives p te a' (K \<union> X) q = gives p te a (L \<union> X) q)"

lemma prunedD:
  assumes "pruned p te C a L a' K D"
  shows "data_only a a' L" "K \<union> D = L" "K \<inter> D = {}"
    and "real_query p q \<Longrightarrow> C \<subseteq> X \<Longrightarrow> X \<inter> L = {} \<Longrightarrow> gives p te a' (K \<union> X) q = gives p te a (L \<union> X) q"
  using assms by (auto simp: pruned_def)

lemma optimize_plain_pruned:
  assumes te: "te_ok p type_map te"
  shows "list_ok p a (set l) \<Longrightarrow> distinct l \<Longrightarrow> set l \<inter> set cov = {} \<Longrightarrow>
    optimize_plain te type_map cov l a = (kept, del, a') \<Longrightarrow>
    pruned p te (set cov) a (set l) a' (set kept) (set del)"
proof (induction l arbitrary: a kept del)
  case Nil
  then show ?case by (auto simp: pruned_def data_only_refl)
next
  case (Cons cur l)
  obtain r d where run: "list_rule_redundant te type_map a cur cov = (r, d)" by fastforce
  let ?a = "set_datum cur d a"
  obtain kept1 del1 where rec: "optimize_plain te type_map cov l ?a = (kept1, del1, a')"
    and res: "kept = (if r then kept1 else cur # kept1)" "del = (if r then cur # del1 else del1)"
    using Cons.prems(4) run by (auto split: prod.splits if_splits)
  have cur: "ptr_ok a cur" "key_ok p (fst (ptr_node a cur))" "cur \<notin> set l" using Cons.prems(1,2) by (simp_all add: list_ok_def)
  have only: "data_only a ?a {cur}" by (rule data_only_set_datum [OF cur(1)]) simp
  have "list_ok p ?a (set l)" using list_ok_data [OF only] Cons.prems(1) by simp
  note IH = prunedD [OF Cons.IH [OF this _ _ rec]]
  have l: "distinct l" "set l \<inter> set cov = {}" using Cons.prems(2,3) by auto
  have "gives p te a' (set kept \<union> X) q = gives p te a (set (cur # l) \<union> X) q"
    if q: "real_query p q" and X: "set cov \<subseteq> X" "X \<inter> set (cur # l) = {}" for X q
  proof -
    have Q: "cur \<notin> set l \<union> X" "set cov \<subseteq> insert cur (set l \<union> X)" using X cur(3) by auto
    note step = list_rule_step [OF te cur(1,2) Q run q]
    show ?thesis
    proof (cases r)
      case True
      then show ?thesis using IH(4) [OF l q, of X] X step(2) res by auto
    next
      case False
      have "gives p te a' (set kept1 \<union> insert cur X) q = gives p te ?a (set l \<union> insert cur X) q"
        using IH(4) [OF l q, of "insert cur X"] X cur(3) by auto
      then show ?thesis using step(1) res False by simp
    qed
  qed
  moreover have "data_only a a' (set (cur # l))" by (rule data_only_trans [OF only IH(1) [OF l]]) auto
  ultimately show ?case
    unfolding pruned_def using IH(2,3) [OF l] res cur(3) by auto
qed

lemma optimize_attr_pruned:
  assumes te: "te_ok p type_map te"
  shows "list_ok p a (set kept \<union> set l) \<Longrightarrow> distinct l \<Longrightarrow> set kept \<inter> set l = {} \<Longrightarrow>
    optimize_attr te type_map kept l a = (kept', del, a') \<Longrightarrow>
    pruned p te {} a (set kept \<union> set l) a' (set kept') (set del)"
proof (induction l arbitrary: a kept del)
  case Nil
  then show ?case by (auto simp: pruned_def data_only_refl)
next
  case (Cons cur l)
  obtain r d where run: "list_rule_redundant te type_map a cur (kept @ cur # l) = (r, d)" by fastforce
  let ?a = "set_datum cur d a" and ?kept = "if r then kept else kept @ [cur]"
  obtain del1 where rec: "optimize_attr te type_map ?kept l ?a = (kept', del1, a')"
    and res: "del = (if r then cur # del1 else del1)"
    using Cons.prems(4) run by (auto split: prod.splits if_splits)
  have cur: "ptr_ok a cur" "key_ok p (fst (ptr_node a cur))" "cur \<notin> set kept \<union> set l"
    using Cons.prems(1-3) by (auto simp: list_ok_def)
  have only: "data_only a ?a {cur}" by (rule data_only_set_datum [OF cur(1)]) simp
  have "list_ok p ?a (set ?kept \<union> set l)" using list_ok_data [OF only] Cons.prems(1) by (auto simp: list_ok_def)
  then have IH: "pruned p te {} ?a (set ?kept \<union> set l) a' (set kept') (set del1)"
    using Cons.IH [OF _ _ _ rec] Cons.prems(2,3) by auto
  have "gives p te a' (set kept' \<union> X) q = gives p te a (set kept \<union> set (cur # l) \<union> X) q"
    if q: "real_query p q" and X: "X \<inter> (set kept \<union> set (cur # l)) = {}" for X q
  proof -
    have Q: "cur \<notin> set kept \<union> set l \<union> X" "set (kept @ cur # l) \<subseteq> insert cur (set kept \<union> set l \<union> X)"
      using X cur(3) by auto
    note step = list_rule_step [OF te cur(1,2) Q run q]
    have "gives p te a' (set kept' \<union> X) q = gives p te ?a (set ?kept \<union> set l \<union> X) q"
      using prunedD(4) [OF IH q, of X] X by auto
    then show ?thesis using step by (cases r) simp_all
  qed
  moreover have "data_only a a' (set kept \<union> set (cur # l))"
    by (rule data_only_trans [OF only prunedD(1) [OF IH]]) auto
  moreover have "set kept' \<union> set del = set kept \<union> set (cur # l)" "set kept' \<inter> set del = {}"
    using prunedD(2,3) [OF IH] res cur(3) by (cases r; auto)+
  ultimately show ?case unfolding pruned_def by blast
qed

lemma optimize_cond_av_list_pruned:
  assumes te: "te_ok p type_map (te_avtab p)" and l: "list_ok p a (set l)" "distinct l"
    and run: "optimize_cond_av_list p type_map l a = (kept, del, a')"
  shows "pruned p (te_avtab p) {} a (set l) a' (set kept) (set del)"
proof -
  let ?te = "te_avtab p"
  define plain where "plain = filter (\<lambda>q. \<not> is_avrule_with_attr (ptr_node a q) p) l"
  define pcov where "pcov = rev (filter (\<lambda>q. is_avrule_with_attr (ptr_node a q) p) l)"
  obtain kept1 del1 a1 where r1: "optimize_plain ?te type_map pcov plain a = (kept1, del1, a1)" by (metis prod_cases3)
  obtain kept2 del2 a2 where r2: "optimize_attr ?te type_map [] pcov a1 = (kept2, del2, a2)" by (metis prod_cases3)
  have res: "kept = kept1 @ kept2" "del = del1 @ del2" "a' = a2"
    using run r1 r2 by (simp_all add: optimize_cond_av_list_def plain_def pcov_def)
  have parts: "set plain \<union> set pcov = set l" "set plain \<inter> set pcov = {}" "distinct plain" "distinct pcov"
    using l(2) by (auto simp: plain_def pcov_def)
  then have ok: "list_ok p a (set plain)" "list_ok p a (set pcov)" using l(1) by (auto simp: list_ok_def)
  note p1 = prunedD [OF optimize_plain_pruned [OF te ok(1) parts(3,2) r1]]
  have "list_ok p a1 (set pcov)" using list_ok_data [OF p1(1)] ok(2) by simp
  then have "pruned p ?te {} a1 (set pcov) a2 (set kept2) (set del2)"
    using optimize_attr_pruned [OF te _ parts(4) _ r2] by simp
  note p2 = prunedD [OF this]
  have "gives p ?te a2 (set kept \<union> X) q = gives p ?te a (set l \<union> X) q"
    if q: "real_query p q" and X: "X \<inter> set l = {}" for X q
  proof -
    have "gives p ?te a2 (set kept2 \<union> (set kept1 \<union> X)) q = gives p ?te a1 (set pcov \<union> (set kept1 \<union> X)) q"
      by (rule p2(4) [OF q]) (use X parts p1(2) in auto)
    also have "set pcov \<union> (set kept1 \<union> X) = set kept1 \<union> (set pcov \<union> X)" by auto
    also have "gives p ?te a1 (set kept1 \<union> (set pcov \<union> X)) q = gives p ?te a (set plain \<union> (set pcov \<union> X)) q"
      by (rule p1(4) [OF q]) (use X parts in auto)
    finally show ?thesis by (simp add: res ac_simps flip: parts(1))
  qed
  moreover have "data_only a a2 (set l)" using data_only_trans [OF p1(1) p2(1)] parts(1) by simp
  ultimately show ?thesis
    unfolding pruned_def using p1(2,3) p2(2,3) parts by (auto simp: res)
qed

section \<open>Conditionals\<close>

text \<open>The list of a conditional that is in force when its expression has the value \<open>v\<close>.\<close>

definition active :: "int \<Rightarrow> cond_node \<Rightarrow> avtab_ptr list" where
  "active v n = (if v > 0 then true_list n else if v = 0 then false_list n else [])"

text \<open>A value of each conditional that does not depend on its lists.\<close>

definition by_expr :: "(cond_node \<Rightarrow> int) \<Rightarrow> bool" where
  "by_expr v \<longleftrightarrow> (\<forall>n ts fs. v (n\<lparr>true_list := ts, false_list := fs\<rparr>) = v n)"

definition actives :: "(cond_node \<Rightarrow> int) \<Rightarrow> cond_node list \<Rightarrow> avtab_ptr set" where
  "actives v ns = (\<Union>n \<in> set ns. set (active (v n) n))"

definition all_ptrs :: "cond_node list \<Rightarrow> avtab_ptr set" where
  "all_ptrs ns = (\<Union>n \<in> set ns. set (node_ptrs n))"

lemma actives_simps [simp]:
  "actives v [] = {}" "actives v (n # ns) = set (active (v n) n) \<union> actives v ns"
  "all_ptrs [] = {}" "all_ptrs (n # ns) = set (node_ptrs n) \<union> all_ptrs ns"
  by (simp_all add: actives_def all_ptrs_def)

lemma active_subset: "set (active v n) \<subseteq> set (node_ptrs n)"
  by (auto simp: active_def node_ptrs_def)

lemma actives_subset: "actives v ns \<subseteq> all_ptrs ns"
  using active_subset by (fastforce simp: actives_def all_ptrs_def)

lemma node_pruned:
  assumes te: "te_ok p type_map (te_avtab p)"
    and n: "list_ok p a (set (node_ptrs n))" "distinct (node_ptrs n)"
    and r1: "optimize_cond_av_list p type_map (true_list n) a = (ts, del1, a1)"
    and r2: "optimize_cond_av_list p type_map (false_list n) a1 = (fs, del2, a2)"
  shows "data_only a a2 (set (node_ptrs n))"
    and "set ts \<union> set fs \<union> (set del1 \<union> set del2) = set (node_ptrs n)"
    and "(set ts \<union> set fs) \<inter> (set del1 \<union> set del2) = {}"
    and "set (active v (n\<lparr>true_list := ts, false_list := fs\<rparr>)) = set (active v n) - (set del1 \<union> set del2)"
    and "real_query p q \<Longrightarrow> X \<inter> set (node_ptrs n) = {} \<Longrightarrow>
      gives p (te_avtab p) a2 (set (active v (n\<lparr>true_list := ts, false_list := fs\<rparr>)) \<union> X) q =
      gives p (te_avtab p) a (set (active v n) \<union> X) q"
proof -
  let ?T = "set (true_list n)" and ?F = "set (false_list n)" and ?te = "te_avtab p"
  have ptrs: "set (node_ptrs n) = ?T \<union> ?F" "?T \<inter> ?F = {}" "distinct (true_list n)" "distinct (false_list n)"
    using n(2) by (auto simp: node_ptrs_def)
  have ok: "list_ok p a ?T" "list_ok p a ?F" using n(1) by (simp_all add: ptrs)
  note p1 = prunedD [OF optimize_cond_av_list_pruned [OF te ok(1) ptrs(3) r1]]
  have "list_ok p a1 ?F" using list_ok_data [OF p1(1)] ok(2) by simp
  note p2 = prunedD [OF optimize_cond_av_list_pruned [OF te this ptrs(4) r2]]
  show "data_only a a2 (set (node_ptrs n))" by (rule data_only_trans [OF p1(1) p2(1)]) (simp add: ptrs)
  show "set ts \<union> set fs \<union> (set del1 \<union> set del2) = set (node_ptrs n)" using p1(2) p2(2) by (auto simp: ptrs)
  show "(set ts \<union> set fs) \<inter> (set del1 \<union> set del2) = {}" using p1(2,3) p2(2,3) ptrs(2) by auto
  show "set (active v (n\<lparr>true_list := ts, false_list := fs\<rparr>)) = set (active v n) - (set del1 \<union> set del2)"
    using p1(2,3) p2(2,3) ptrs(2) by (auto simp: active_def)
  assume q: "real_query p q" and X: "X \<inter> set (node_ptrs n) = {}"
  have T: "gives p ?te a2 (set ts \<union> X) q = gives p ?te a (?T \<union> X) q"
  proof -
    have "gives p ?te a2 (set ts \<union> X) q = gives p ?te a1 (set ts \<union> X) q"
      by (rule gives_data [OF p2(1)]) (use X p1(2) ptrs in auto)
    then show ?thesis using p1(4) [OF q, of X] X by (auto simp: ptrs)
  qed
  have F: "gives p ?te a2 (set fs \<union> X) q = gives p ?te a (?F \<union> X) q"
  proof -
    have "gives p ?te a1 (?F \<union> X) q = gives p ?te a (?F \<union> X) q"
      by (rule gives_data [OF p1(1)]) (use X ptrs in auto)
    then show ?thesis using p2(4) [OF q, of X] X by (auto simp: ptrs)
  qed
  have none: "gives p ?te a2 X q = gives p ?te a X q"
    by (rule gives_data [OF data_only_trans [OF p1(1) p2(1) subset_refl]]) (use X ptrs in auto)
  show "gives p ?te a2 (set (active v (n\<lparr>true_list := ts, false_list := fs\<rparr>)) \<union> X) q = gives p ?te a (set (active v n) \<union> X) q"
    using T F none by (cases "v > 0"; cases "v = 0") (simp_all add: active_def)
qed

lemma optimize_conds_pruned:
  assumes te: "te_ok p type_map (te_avtab p)" and v: "by_expr v"
  shows "list_ok p a (all_ptrs ns) \<Longrightarrow> distinct (concat (map node_ptrs ns)) \<Longrightarrow>
    optimize_conds p type_map ns a = (ns', del, a') \<Longrightarrow>
    data_only a a' (all_ptrs ns) \<and> all_ptrs ns' \<union> set del = all_ptrs ns \<and> all_ptrs ns' \<inter> set del = {} \<and>
    actives v ns' = actives v ns - set del \<and>
    (\<forall>X q. real_query p q \<longrightarrow> X \<inter> all_ptrs ns = {} \<longrightarrow>
      gives p (te_avtab p) a' (actives v ns' \<union> X) q = gives p (te_avtab p) a (actives v ns \<union> X) q)"
proof (induction ns arbitrary: a ns' del)
  case Nil
  then show ?case by (auto simp: data_only_refl)
next
  case (Cons n ns)
  let ?te = "te_avtab p"
  obtain ts del1 a1 where r1: "optimize_cond_av_list p type_map (true_list n) a = (ts, del1, a1)" by (metis prod_cases3)
  obtain fs del2 a2 where r2: "optimize_cond_av_list p type_map (false_list n) a1 = (fs, del2, a2)" by (metis prod_cases3)
  obtain ns1 del3 where r3: "optimize_conds p type_map ns a2 = (ns1, del3, a')"
    and res: "ns' = (if ts = [] \<and> fs = [] then ns1 else n\<lparr>true_list := ts, false_list := fs\<rparr> # ns1)" "del = del1 @ del2 @ del3"
    using Cons.prems(3) r1 r2 by (auto split: prod.splits)
  let ?n' = "n\<lparr>true_list := ts, false_list := fs\<rparr>"
  have ok: "list_ok p a (set (node_ptrs n))" "list_ok p a (all_ptrs ns)" using Cons.prems(1) by simp_all
  have dist: "distinct (node_ptrs n)" "distinct (concat (map node_ptrs ns))" "set (node_ptrs n) \<inter> all_ptrs ns = {}"
    using Cons.prems(2) by (auto simp: all_ptrs_def)
  note n = node_pruned [OF te ok(1) dist(1) r1 r2]
  have "list_ok p a2 (all_ptrs ns)" using list_ok_data [OF n(1)] ok(2) by simp
  then have only: "data_only a2 a' (all_ptrs ns)" and parts: "all_ptrs ns1 \<union> set del3 = all_ptrs ns" "all_ptrs ns1 \<inter> set del3 = {}"
      "actives v ns1 = actives v ns - set del3"
    and IH: "\<And>X q. real_query p q \<Longrightarrow> X \<inter> all_ptrs ns = {} \<Longrightarrow>
      gives p ?te a' (actives v ns1 \<union> X) q = gives p ?te a2 (actives v ns \<union> X) q"
    using Cons.IH [OF _ dist(2) r3] by blast+
  have ns': "all_ptrs ns' = set ts \<union> set fs \<union> all_ptrs ns1" "actives v ns' = set (active (v n) ?n') \<union> actives v ns1"
    using v by (auto simp: res(1) node_ptrs_def active_def by_expr_def)
  have new: "set (active (v n) ?n') \<subseteq> set (node_ptrs n)" using n(2) by (auto simp: active_def)
  have "gives p ?te a' (actives v ns' \<union> X) q = gives p ?te a (actives v (n # ns) \<union> X) q"
    if q: "real_query p q" and X: "X \<inter> all_ptrs (n # ns) = {}" for X q
  proof -
    have "gives p ?te a' (actives v ns1 \<union> (set (active (v n) ?n') \<union> X)) q =
        gives p ?te a2 (actives v ns \<union> (set (active (v n) ?n') \<union> X)) q"
      by (rule IH [OF q]) (use X new dist(3) in auto)
    also have "actives v ns \<union> (set (active (v n) ?n') \<union> X) = set (active (v n) ?n') \<union> (actives v ns \<union> X)" by auto
    also have "gives p ?te a2 \<dots> q = gives p ?te a (set (active (v n) n) \<union> (actives v ns \<union> X)) q"
      by (rule n(5) [OF q]) (use X actives_subset [of v ns] dist(3) in auto)
    finally show ?thesis by (simp add: ns'(2) ac_simps)
  qed
  moreover have "data_only a a' (all_ptrs (n # ns))" by (rule data_only_trans [OF n(1) only]) simp
  moreover have "all_ptrs ns' \<union> set del = all_ptrs (n # ns)" using n(2) parts(1) unfolding ns' res(2) actives_simps set_append by blast
  moreover have "actives v ns' = actives v (n # ns) - set del"
    using n(2) n(4) [of "v n"] parts dist(3) actives_subset [of v ns] active_subset [of "v n" n]
    unfolding ns' res(2) set_append actives_simps by blast
  moreover have "all_ptrs ns' \<inter> set del = {}"
    using n(2,3) parts dist(3) unfolding ns' res(2) set_append by blast
  ultimately show ?case by blast
qed

section \<open>Unlinked rules\<close>

lemma nth_filter_index:
  assumes "P j" "j < n"
  shows "filter P [0..<n] ! length (filter P [0..<j]) = j" and "length (filter P [0..<j]) < length (filter P [0..<n])"
proof -
  have "[0..<n] = [0..<j] @ j # [Suc j..<n]"
    using assms(2) upt_add_eq_append [of 0 j "n - j"] by (simp add: upt_conv_Cons)
  then have f: "filter P [0..<n] = filter P [0..<j] @ j # filter P [Suc j..<n]" using assms(1) by simp
  then show "filter P [0..<n] ! length (filter P [0..<j]) = j" "length (filter P [0..<j]) < length (filter P [0..<n])" by simp_all
qed

lemma unlink_ptr:
  assumes "ptr_ok a x" "x \<notin> set del"
  shows "ptr_node (unlink_rules del a) (move_ptr del x) = ptr_node a x" and "ptr_ok (unlink_rules del a) (move_ptr del x)"
proof -
  obtain i j t where x: "x = (i, j)" "avtable a = Some t" "i < length t" "j < length (t ! i)"
    using assms(1) by (cases x) (auto simp: ptr_ok_def)
  note f = nth_filter_index [of "\<lambda>j. (i, j) \<notin> set del" j "length (t ! i)"]
  show "ptr_node (unlink_rules del a) (move_ptr del x) = ptr_node a x" "ptr_ok (unlink_rules del a) (move_ptr del x)"
    using f x assms(2) by (simp_all add: ptr_node_def ptr_ok_def unlink_rules_def unlink_chain_def move_ptr_def)
qed

end
