(* ===== verification/Optimize_Access.thy ===== *)
theory Optimize_Access
  imports Optimize_Rules Sample_Policy
begin

text \<open>
  The optimiser on a whole database: the rules in force give the same for every value of the
  conditionals, and \<open>context_struct_compute_av\<close> decides as before.
\<close>

unbundle bit_operations_syntax

section \<open>Tables after rules are unlinked\<close>

lemma set_nth: "set c = (\<lambda>j. c ! j) ` {..<length c}"
  by (metis atLeast0LessThan map_nth set_map set_upt)

lemma nodes_ptrs: "set (avtab_nodes a) = ptr_node a ` {x. ptr_ok a x}"
proof (cases "avtable a")
  case (Some t)
  have "set (avtab_nodes a) = (\<Union>i \<in> {..<length t}. set (t ! i))"
    using set_nth [of t] by (simp add: avtab_nodes_def Some)
  also have "\<dots> = (\<Union>i \<in> {..<length t}. (\<lambda>j. t ! i ! j) ` {..<length (t ! i)})"
    by (intro SUP_cong refl set_nth)
  also have "\<dots> = ptr_node a ` (SIGMA i : {..<length t}. {..<length (t ! i)})"
    by (simp add: Sigma_def image_UN ptr_node_def Some UNION_singleton_eq_range image_image)
  also have "(SIGMA i : {..<length t}. {..<length (t ! i)}) = {x. ptr_ok a x}"
    by (auto simp: ptr_ok_def Some)
  finally show ?thesis .
qed (simp add: avtab_nodes_def ptr_ok_def)

lemma unlink_chain_set: "set (unlink_chain del i c) = {c ! j |j. j < length c \<and> (i, j) \<notin> set del}"
  by (auto simp: unlink_chain_def)

lemma unlink_nodes: "set (avtab_nodes (unlink_rules del a)) = ptr_node a ` {x. ptr_ok a x \<and> x \<notin> set del}"
proof (cases "avtable a")
  case (Some t)
  have "set (avtab_nodes (unlink_rules del a)) = (\<Union>i \<in> {..<length t}. set (unlink_chain del i (t ! i)))"
    by (simp add: avtab_nodes_def unlink_rules_def Some atLeast0LessThan)
  then show ?thesis using Some by (force simp: unlink_chain_set ptr_node_def ptr_ok_def)
qed (simp add: avtab_nodes_def ptr_ok_def unlink_rules_def)

lemma chain_ord_unlink: "chain_ord c \<Longrightarrow> chain_ord (unlink_chain del i c)"
proof -
  assume c: "chain_ord c"
  let ?le = "\<lambda>a b. key_rank (fst a) \<le> key_rank (fst b)"
  have "sorted_wrt (\<lambda>j k. ?le (c ! j) (c ! k)) [0..<length c]"
    using c by (simp add: chain_ord_def sorted_wrt_iff_nth_less)
  then have "sorted_wrt (\<lambda>j k. ?le (c ! j) (c ! k)) (filter (\<lambda>j. (i, j) \<notin> set del) [0..<length c])"
    by (rule sorted_wrt_filter)
  then show ?thesis by (simp add: chain_ord_def unlink_chain_def sorted_wrt_map)
qed

lemma unlink_wf:
  assumes "avtab_wf a"
  shows "avtab_wf (unlink_rules del a)"
proof (cases "avtable a")
  case None
  then show ?thesis using assms by (simp add: unlink_rules_def)
next
  case (Some t)
  let ?t = "map (\<lambda>i. unlink_chain del i (t ! i)) [0..<length t]"
  have base: "nslot a \<noteq> 0 \<and> length t = unat (nslot a) \<and> avmask a = nslot a - 1"
    using assms unfolding avtab_wf_def Some by (simp only: option.case simp_thms)
  have new: "avtable (unlink_rules del a) = Some ?t" "nslot (unlink_rules del a) = nslot a"
    "avmask (unlink_rules del a) = avmask a"
    by (simp_all add: unlink_rules_def Some)
  show ?thesis
    unfolding avtab_wf_def new option.case length_map length_upt diff_zero
  proof (intro conjI allI impI ballI)
    fix i assume i: "i < length t"
    then have ti: "?t ! i = unlink_chain del i (t ! i)" by simp
    show "chain_ord (?t ! i)" unfolding ti by (rule chain_ord_unlink [OF avtab_wfD(1) [OF assms Some i]])
    fix n assume "n \<in> set (?t ! i)"
    then have "n \<in> set (t ! i)" unfolding ti unlink_chain_set by auto
    then show "unat (avtab_hash (fst n) (avmask a)) = i" by (rule avtab_wfD(2) [OF assms Some i])
  qed (use base in blast)+
qed

section \<open>The database\<close>

definition opt_ready :: "policydb \<Rightarrow> bool" where
  "opt_ready p \<longleftrightarrow> attr_maps_ok p \<and> avtab_wf (te_avtab p) \<and> avtable (te_avtab p) \<noteq> None \<and>
     keys_ok p (set (avtab_nodes (te_avtab p))) \<and> list_ok p (te_cond_avtab p) (all_ptrs (cond_list p)) \<and>
     distinct (concat (map node_ptrs (cond_list p)))"

text \<open>What the rules in force give to a query, when the conditionals have the values \<open>v\<close>.\<close>

definition granted :: "policydb \<Rightarrow> (cond_node \<Rightarrow> int) \<Rightarrow> query \<Rightarrow> hit set" where
  "granted p v q = given p q (set (avtab_nodes (te_avtab p)) \<union>
     ptr_node (te_cond_avtab p) ` actives v (cond_list p))"

definition with_rules :: "policydb \<Rightarrow> avtab \<Rightarrow> cond_node list \<Rightarrow> avtab \<Rightarrow> policydb" where
  "with_rules p te cl ca = p\<lparr>te_avtab := te, cond_list := cl, te_cond_avtab := ca\<rparr>"

lemma with_rules_fields [simp]:
  "te_avtab (with_rules p te cl ca) = te" "cond_list (with_rules p te cl ca) = cl" "te_cond_avtab (with_rules p te cl ca) = ca"
  "mls (with_rules p te cl ca) = mls p" "p_classes (with_rules p te cl ca) = p_classes p" "p_types (with_rules p te cl ca) = p_types p"
  "class_val_to_struct (with_rules p te cl ca) = class_val_to_struct p" "role_val_to_struct (with_rules p te cl ca) = role_val_to_struct p"
  "type_val_to_struct (with_rules p te cl ca) = type_val_to_struct p" "role_allows (with_rules p te cl ca) = role_allows p"
  "type_attr_map (with_rules p te cl ca) = type_attr_map p" "attr_type_map (with_rules p te cl ca) = attr_type_map p"
  "process_class (with_rules p te cl ca) = process_class p" "process_trans_dyntrans (with_rules p te cl ca) = process_trans_dyntrans p"
  by (simp_all add: with_rules_def)

lemma with_rules_types [simp]:
  "attr_at (with_rules p te cl ca) = attr_at p" "real_type (with_rules p te cl ca) = real_type p"
  "has_type (with_rules p te cl ca) = has_type p" "attr_maps_ok (with_rules p te cl ca) = attr_maps_ok p"
  "type_covers (with_rules p te cl ca) = type_covers p" "type_map_ok (with_rules p te cl ca) = type_map_ok p"
  "key_ok (with_rules p te cl ca) = key_ok p" "real_query (with_rules p te cl ca) = real_query p"
  "given (with_rules p te cl ca) = given p"
proof -
  show a: "attr_at (with_rules p te cl ca) = attr_at p" by (simp add: fun_eq_iff attr_at_def)
  show r: "real_type (with_rules p te cl ca) = real_type p" by (simp add: fun_eq_iff real_type_def a)
  show h: "has_type (with_rules p te cl ca) = has_type p" by (simp add: fun_eq_iff has_type_def)
  show "attr_maps_ok (with_rules p te cl ca) = attr_maps_ok p" by (simp add: attr_maps_ok_def a r h)
  show c: "type_covers (with_rules p te cl ca) = type_covers p" by (simp add: fun_eq_iff type_covers_def r h)
  show "type_map_ok (with_rules p te cl ca) = type_map_ok p" by (simp add: fun_eq_iff type_map_ok_def c)
  show "key_ok (with_rules p te cl ca) = key_ok p" by (simp add: fun_eq_iff key_ok_def)
  show "real_query (with_rules p te cl ca) = real_query p" by (simp add: fun_eq_iff real_query_def r)
  show "given (with_rules p te cl ca) = given p" by (simp add: fun_eq_iff given_def applies_def h)
qed

lemma with_rules_ok [simp]:
  "keys_ok (with_rules p te cl ca) = keys_ok p" "list_ok (with_rules p te cl ca) = list_ok p"
  by (simp_all add: fun_eq_iff keys_ok_def list_ok_def)

text \<open>The shape of the result.\<close>

definition moved :: "avtab_ptr list \<Rightarrow> cond_node \<Rightarrow> cond_node" where
  "moved del n = n\<lparr>true_list := map (move_ptr del) (true_list n), false_list := map (move_ptr del) (false_list n)\<rparr>"

definition opt_result ::
  "policydb \<Rightarrow> policydb \<Rightarrow> avtab \<Rightarrow> cond_node list \<Rightarrow> avtab_ptr list \<Rightarrow> avtab \<Rightarrow> bool" where
  "opt_result p p' te ns del a \<longleftrightarrow> p' = with_rules p te (map (moved del) ns) (unlink_rules del a) \<and>
     same_rules p (te_avtab p) te \<and> data_only (te_cond_avtab p) a (all_ptrs (cond_list p)) \<and>
     all_ptrs ns \<union> set del = all_ptrs (cond_list p) \<and> all_ptrs ns \<inter> set del = {} \<and>
     (\<forall>v. by_expr v \<longrightarrow> actives v ns = actives v (cond_list p) - set del) \<and>
     (\<forall>v q. by_expr v \<longrightarrow> real_query p q \<longrightarrow>
       gives p te a (actives v ns) q = gives p te (te_cond_avtab p) (actives v (cond_list p)) q)"

lemma opt_resultD:
  assumes "opt_result p p' te ns del a"
  shows "p' = with_rules p te (map (moved del) ns) (unlink_rules del a)"
    and "same_rules p (te_avtab p) te" "data_only (te_cond_avtab p) a (all_ptrs (cond_list p))"
    and "all_ptrs ns \<union> set del = all_ptrs (cond_list p)" "all_ptrs ns \<inter> set del = {}"
    and "by_expr v \<Longrightarrow> actives v ns = actives v (cond_list p) - set del"
    and "by_expr v \<Longrightarrow> real_query p q \<Longrightarrow>
      gives p te a (actives v ns) q = gives p te (te_cond_avtab p) (actives v (cond_list p)) q"
  using assms unfolding opt_result_def by blast+

lemma optimize_shape:
  assumes ready: "opt_ready p" and run: "policydb_optimize p h = Inr p'"
  shows "\<exists>te ns del a. opt_result p p' te ns del a"
proof -
  obtain type_map h' where tm: "build_type_map p h = Inr (type_map, h')"
    and p': "p' = optimize_cond_avtab (p\<lparr>te_avtab := optimize_avtab type_map (te_avtab p)\<rparr>) type_map"
    using run by (auto simp: policydb_optimize_def bind_res_def split: if_splits sum.splits)
  let ?te = "optimize_avtab type_map (te_avtab p)"
  let ?p = "with_rules p ?te (cond_list p) (te_cond_avtab p)"
  have ok: "attr_maps_ok p" "type_map_ok p type_map" "keys_ok p (set (avtab_nodes (te_avtab p)))"
    using ready build_type_map_ok [OF _ tm] by (simp_all add: opt_ready_def)
  have same: "same_rules p (te_avtab p) ?te"
    using optimize_avtab_same [OF ok(1,2) _ _ ok(3)] ready by (simp add: opt_ready_def)
  have te: "te_ok ?p type_map (te_avtab ?p)"
    using ok keys_ok_same [OF same] same by (simp add: te_ok_def same_rules_def)
  obtain ns del a where c: "optimize_conds ?p type_map (cond_list p) (te_cond_avtab p) = (ns, del, a)" by (metis prod_cases3)
  have "p\<lparr>te_avtab := ?te\<rparr> = ?p" by (simp add: with_rules_def)
  note upd = this
  have shape: "p' = with_rules p ?te (map (moved del) ns) (unlink_rules del a)"
    unfolding p' upd optimize_cond_avtab_def with_rules_fields c prod.case moved_def
    by (simp add: with_rules_def)
  have "list_ok ?p (te_cond_avtab p) (all_ptrs (cond_list p))" "distinct (concat (map node_ptrs (cond_list p)))"
    using ready by (simp_all add: opt_ready_def)
  note all = optimize_conds_pruned [OF te _ this c]
  have "by_expr cur_state" by (simp add: by_expr_def)
  note one = all [OF this]
  have "gives p ?te a (actives v ns) q = gives p ?te (te_cond_avtab p) (actives v (cond_list p)) q"
    if "by_expr v" "real_query p q" for v q
  proof -
    have "gives ?p ?te a (actives v ns \<union> {}) q = gives ?p ?te (te_cond_avtab p) (actives v (cond_list p) \<union> {}) q"
      using all [OF that(1), THEN conjunct2, THEN conjunct2, THEN conjunct2, THEN conjunct2, rule_format, of q "{}"] that(2)
      by (simp only: with_rules_fields with_rules_types Int_empty_left simp_thms)
    then show ?thesis by (simp add: gives_def)
  qed
  then show ?thesis
    unfolding opt_result_def
  proof (intro exI conjI allI impI)
    show "p' = with_rules p ?te (map (moved del) ns) (unlink_rules del a)" by (rule shape)
    show "same_rules p (te_avtab p) ?te" by (rule same)
  qed (use one all in simp_all)
qed

lemma actives_move:
  assumes "by_expr v"
  shows "actives v (map (moved del) ns) = move_ptr del ` actives v ns"
proof -
  have "active (v (moved del n)) (moved del n) = map (move_ptr del) (active (v n) n)" for n
    using assms by (simp add: active_def by_expr_def moved_def)
  then show ?thesis by (simp add: actives_def image_UN)
qed

lemma optimize_granted:
  assumes ready: "opt_ready p" and run: "policydb_optimize p h = Inr p'" and q: "real_query p q" and v: "by_expr v"
  shows "granted p' v q = granted p v q"
proof -
  obtain te ns del a where r: "opt_result p p' te ns del a" using optimize_shape [OF ready run] by blast
  note p' = opt_resultD(1) [OF r] and same = opt_resultD(2) [OF r] and only = opt_resultD(3) [OF r]
    and parts = opt_resultD(4,5) [OF r] and eq = opt_resultD(7) [OF r v q]
  have "list_ok p a (all_ptrs (cond_list p))" using list_ok_data [OF only] ready by (simp add: opt_ready_def)
  then have ok: "ptr_ok a x" "x \<notin> set del" if "x \<in> actives v ns" for x
    using that subsetD [OF actives_subset that] parts by (auto simp: list_ok_def)
  have "ptr_node (unlink_rules del a) ` move_ptr del ` actives v ns = ptr_node a ` actives v ns"
    unfolding image_image by (intro image_cong refl unlink_ptr(1) ok)
  then have "granted p' v q = gives p te a (actives v ns) q"
    by (simp add: granted_def p' actives_move [OF v] gives_def)
  also have "\<dots> = granted p v q"
    using eq same q by (simp add: gives_def granted_def same_rules_def)
  finally show ?thesis .
qed

section \<open>Access decisions\<close>

text \<open>
  The server reads the rules through the enabled flag of the conditional rules: the flags say which
  lists are in force, and every enabled rule belongs to a list. Unconditional rules have no flag.
\<close>

definition av_opt_ready :: "policydb \<Rightarrow> bool" where
  "av_opt_ready p \<longleftrightarrow> opt_ready p \<and> avtab_wf (te_cond_avtab p) \<and>
     (\<forall>n \<in> set (avtab_nodes (te_avtab p)). specified (fst n) AND AVTAB_ENABLED = 0) \<and>
     (\<forall>n \<in> set (cond_list p). node_consistent (te_cond_avtab p) n) \<and>
     (\<forall>x. ptr_ok (te_cond_avtab p) x \<and> enabled (te_cond_avtab p) x \<longrightarrow> x \<in> all_ptrs (cond_list p)) \<and>
     (\<forall>t. real_type p t \<longrightarrow> (let b = type_bounds (the (val_struct (type_val_to_struct p) t)) in b \<noteq> 0 \<longrightarrow> real_type p b))"

lemma enabled_actives:
  assumes "\<forall>n \<in> set ns. node_consistent a n" "x \<in> all_ptrs ns"
  shows "enabled a x \<longleftrightarrow> x \<in> actives cur_state ns"
proof -
  obtain n where n: "n \<in> set ns" "x \<in> set (true_list n) \<or> x \<in> set (false_list n)"
    using assms(2) by (auto simp: all_ptrs_def node_ptrs_def)
  have c: "node_consistent a n" using assms(1) n(1) by blast
  have "x \<in> set (active (cur_state n) n)" if "enabled a x"
    using c n(2) that by (auto simp: node_consistent_def active_def)
  then have "enabled a x \<Longrightarrow> x \<in> actives cur_state ns" using n(1) by (auto simp: actives_def)
  moreover have "enabled a x" if act: "x \<in> actives cur_state ns"
  proof -
    obtain m where m: "m \<in> set ns" "x \<in> set (active (cur_state m) m)" using act by (auto simp: actives_def)
    then show ?thesis using assms(1) by (auto simp: node_consistent_def active_def split: if_splits)
  qed
  ultimately show ?thesis by blast
qed

lemma enabled_ptrs:
  assumes "av_opt_ready p"
  shows "{x. ptr_ok (te_cond_avtab p) x \<and> enabled (te_cond_avtab p) x} = actives cur_state (cond_list p)"
proof -
  let ?a = "te_cond_avtab p"
  have ok: "\<forall>n \<in> set (cond_list p). node_consistent ?a n" "list_ok p ?a (all_ptrs (cond_list p))"
    "\<And>x. ptr_ok ?a x \<Longrightarrow> enabled ?a x \<Longrightarrow> x \<in> all_ptrs (cond_list p)"
    using assms by (auto simp: av_opt_ready_def opt_ready_def)
  show ?thesis
    using enabled_actives [OF ok(1)] ok(2,3) subsetD [OF actives_subset [of cur_state "cond_list p"]]
    unfolding list_ok_def by blast
qed

lemma enabled_rules:
  assumes "av_opt_ready p"
  shows "{n \<in> set (avtab_nodes (te_cond_avtab p)). specified (fst n) AND AVTAB_ENABLED \<noteq> 0} =
    ptr_node (te_cond_avtab p) ` actives cur_state (cond_list p)"
proof -
  let ?a = "te_cond_avtab p"
  have "{n \<in> set (avtab_nodes ?a). specified (fst n) AND AVTAB_ENABLED \<noteq> 0} = ptr_node ?a ` {x. ptr_ok ?a x \<and> enabled ?a x}"
    by (auto simp: nodes_ptrs enabled_def)
  then show ?thesis by (simp only: enabled_ptrs [OF assms])
qed

definition flagged :: "policydb \<Rightarrow> avtab_node set" where
  "flagged p = {n \<in> set (avtab_nodes (te_cond_avtab p)). specified (fst n) AND AVTAB_ENABLED \<noteq> 0}"

definition in_force :: "policydb \<Rightarrow> avtab_node set" where
  "in_force p = set (avtab_nodes (te_avtab p)) \<union> flagged p"

text \<open>The bit of a rule of the kind that \<open>rule_hits\<close> collects.\<close>

definition wanted :: "u16 \<Rightarrow> nat \<Rightarrow> u32 \<Rightarrow> bool" where
  "wanted kind b d \<longleftrightarrow> (if kind = AVTAB_AUDITDENY then b < 32 \<and> \<not> bit d b else bit d b)"

definition av_kind :: "u16 \<Rightarrow> bool" where
  "av_kind kind \<longleftrightarrow> kind = AVTAB_ALLOWED \<or> kind = AVTAB_AUDITALLOW \<or> kind = AVTAB_AUDITDENY"

lemma type_pair:
  assumes ok: "attr_maps_ok p" and t: "real_type p t" and s: "s \<noteq> 0"
  shows "(\<exists>i \<in> set (ebitmap_positive_bits (type_attrs p t)). s = ucast (i + 1)) \<longleftrightarrow> has_type p t (ucast (s :: u16) - 1)"
proof -
  have "t \<le> nprim (p_types p)" "t \<noteq> 0" using t by (simp_all add: real_type_def)
  then have "t - 1 < nprim (p_types p)" by (intro word_pred_less)
  then have "ebitmap_wf (type_attr_map p ! unat (t - 1))"
    using ok nth_mem [of "unat (t - 1)" "type_attr_map p"] by (auto simp: attr_maps_ok_def word_less_nat_alt)
  then have bits: "i \<in> set (ebitmap_positive_bits (type_attrs p t)) \<longleftrightarrow> has_type p t i" for i
    using positive_bits_iff by (simp add: type_attrs_def has_type_def)
  have "ucast (i + 1 :: u32) = s \<longleftrightarrow> i = ucast s - 1" if i: "has_type p t i" for i
  proof -
    have "i < nprim (p_types p)" using ok t i unfolding attr_maps_ok_def by blast
    then have "ucast (ucast (i + 1) :: u16) - 1 = i" by (rule idx_key [OF _ ok])
    moreover have "ucast (ucast s - 1 + 1 :: u32) = s"
    proof -
      have "ucast s - 1 + 1 = (ucast s :: u32)" by simp
      moreover have "ucast (ucast s :: u32) = s" by (rule bit_word_eqI) (auto simp: bit_simps dest: bit_imp_le_length)
      ultimately show ?thesis by (simp only:)
    qed
    ultimately show ?thesis by (metis (no_types))
  qed
  then show ?thesis using bits by metis
qed

lemma and_bits: "w AND m = m \<longleftrightarrow> (\<forall>j. bit m j \<longrightarrow> bit w j)" for w m :: "'a::len word"
  by (auto simp: bit_eq_iff bit_and_iff dest: bit_imp_le_length)

lemma flag_bit: "w AND AVTAB_ENABLED \<noteq> 0 \<longleftrightarrow> bit w 15" for w :: u16
  unfolding ENABLED_push_bit by (rule bit_AND_push_1) simp

lemma key_spec_bit: "bit (key_spec k) j \<longleftrightarrow> bit (specified k) j \<and> j \<noteq> 15"
  unfolding key_spec_def bit_and_iff bit_not_iff bit_ENABLED using bit_imp_le_length [of "specified k" j] by auto

lemma av_kind_bit: "av_kind kind \<Longrightarrow> \<exists>c < 3. \<forall>j. bit kind j \<longleftrightarrow> j = c"
proof -
  have "bit (1 :: u16) j \<longleftrightarrow> j = 0" "bit (2 :: u16) j \<longleftrightarrow> j = 1" "bit (4 :: u16) j \<longleftrightarrow> j = 2" for j
  proof -
    have "(2 :: u16) = push_bit 1 1" "(4 :: u16) = push_bit 2 1" by (simp_all add: push_bit_eq_mult)
    then show "bit (1 :: u16) j \<longleftrightarrow> j = 0" "bit (2 :: u16) j \<longleftrightarrow> j = 1" "bit (4 :: u16) j \<longleftrightarrow> j = 2"
      by (auto simp only: bit_push_bit_iff bit_1_iff) simp_all
  qed
  moreover assume "av_kind kind"
  ultimately consider "\<forall>j. bit kind j \<longleftrightarrow> j = 0" | "\<forall>j. bit kind j \<longleftrightarrow> j = 1" | "\<forall>j. bit kind j \<longleftrightarrow> j = 2"
    unfolding av_kind_def by metis
  then show ?thesis by cases (rule exI, rule conjI [rotated], assumption, simp)+
qed

lemma kind_flag:
  assumes "av_kind kind" "single_bit (key_spec k)"
  shows "specified k AND (kind OR AVTAB_ENABLED) = kind OR AVTAB_ENABLED \<longleftrightarrow>
    specified k AND AVTAB_ENABLED \<noteq> 0 \<and> key_spec k = kind"
proof -
  obtain c where c: "c < 3" "\<And>j. bit kind j \<longleftrightarrow> j = c" using av_kind_bit [OF assms(1)] by blast
  obtain i where i: "\<And>j. bit (key_spec k) j \<longleftrightarrow> j = i" using assms(2) unfolding single_bit_def by blast
  have "key_spec k = kind \<longleftrightarrow> i = c" using i c(2) by (metis bit_word_eqI)
  moreover have "bit (specified k) c \<longleftrightarrow> i = c" using i [of c] key_spec_bit [of k c] c(1) by auto
  ultimately show ?thesis
    unfolding and_bits flag_bit bit_or_iff bit_ENABLED c(2) by blast
qed

lemma rules_for_hits:
  assumes ok: "attr_maps_ok p" "keys_ok p (in_force p)"
    and te: "\<forall>n \<in> set (avtab_nodes (te_avtab p)). specified (fst n) AND AVTAB_ENABLED = 0"
    and types: "real_type p (ctype sc)" "real_type p (ctype tc)" and kind: "av_kind kind"
  shows "(\<exists>d \<in> rules_for p sc tc tcl kind. wanted kind b d) \<longleftrightarrow>
    Perm b \<in> given p (kind, ctype sc, ctype tc, tcl) (in_force p)"
proof -
  let ?q = "(kind, ctype sc, ctype tc, tcl)"
  have pair: "key_pair p sc tc tcl (fst n) \<and> key_spec (fst n) = kind \<longleftrightarrow> applies p ?q (fst n)" if "n \<in> in_force p" for n
  proof -
    have "source_type (fst n) \<noteq> 0" "target_type (fst n) \<noteq> 0" using ok(2) that by (auto simp: keys_ok_def key_ok_def)
    then show ?thesis using type_pair [OF ok(1)] types by (auto simp: key_pair_def applies_def)
  qed
  have spec: "key_spec (fst n) = specified (fst n)" if "n \<in> set (avtab_nodes (te_avtab p))" for n
  proof -
    have "\<not> bit (specified (fst n)) 15" using te that flag_bit by blast
    then show ?thesis by (intro bit_word_eqI) (auto simp: key_spec_bit)
  qed
  have hits: "Perm b \<in> node_hits n \<longleftrightarrow> wanted kind b (data (snd n))" if "key_spec (fst n) = kind" for n
    using kind that bit_imp_le_length [of "data (snd n)" b] by (auto simp: av_kind_def node_hits_def rule_hits_def wanted_def)
  have single: "single_bit (key_spec (fst n))" if "n \<in> in_force p" for n
    using ok(2) that by (auto simp: keys_ok_def key_ok_def)
  have flag: "n \<in> set (avtab_nodes (te_cond_avtab p)) \<and> specified (fst n) AND (kind OR AVTAB_ENABLED) = kind OR AVTAB_ENABLED
    \<longleftrightarrow> n \<in> flagged p \<and> key_spec (fst n) = kind" for n
  proof -
    have "n \<in> flagged p" if "n \<in> set (avtab_nodes (te_cond_avtab p))"
      "specified (fst n) AND (kind OR AVTAB_ENABLED) = kind OR AVTAB_ENABLED"
      using that unfolding flagged_def flag_bit and_bits bit_or_iff bit_ENABLED by blast
    moreover have "specified (fst n) AND (kind OR AVTAB_ENABLED) = kind OR AVTAB_ENABLED \<longleftrightarrow> key_spec (fst n) = kind"
      "n \<in> set (avtab_nodes (te_cond_avtab p))" if n: "n \<in> flagged p"
      using kind_flag [OF kind single [of n]] n by (simp_all add: flagged_def in_force_def)
    ultimately show ?thesis by blast
  qed
  have cond: "{data (snd n) |n. n \<in> set (avtab_nodes (te_cond_avtab p)) \<and> key_pair p sc tc tcl (fst n) \<and>
        specified (fst n) AND (kind OR AVTAB_ENABLED) = kind OR AVTAB_ENABLED} =
      {data (snd n) |n. n \<in> flagged p \<and> key_pair p sc tc tcl (fst n) \<and> key_spec (fst n) = kind}"
    by (intro Collect_cong ex_cong1) (use flag in blast)
  have te': "{data (snd n) |n. n \<in> set (avtab_nodes (te_avtab p)) \<and> key_pair p sc tc tcl (fst n) \<and> specified (fst n) = kind} =
      {data (snd n) |n. n \<in> set (avtab_nodes (te_avtab p)) \<and> key_pair p sc tc tcl (fst n) \<and> key_spec (fst n) = kind}"
    by (intro Collect_cong ex_cong1) (use spec in auto)
  have "(\<exists>d \<in> rules_for p sc tc tcl kind. wanted kind b d) \<longleftrightarrow>
      (\<exists>n \<in> in_force p. key_pair p sc tc tcl (fst n) \<and> key_spec (fst n) = kind \<and> wanted kind b (data (snd n)))"
    unfolding rules_for_def in_force_def cond te' by blast
  also have "\<dots> \<longleftrightarrow> (\<exists>n \<in> in_force p. applies p ?q (fst n) \<and> Perm b \<in> node_hits n)"
    using pair hits by blast
  also have "\<dots> \<longleftrightarrow> Perm b \<in> given p ?q (in_force p)" by (auto simp: given_def)
  finally show ?thesis .
qed

section \<open>Equal decisions\<close>

lemma av_joinsD:
  assumes "av_joins a x R"
  shows "bit (allowed x) n \<longleftrightarrow> bit (allowed a) n \<or> (\<exists>d \<in> R AVTAB_ALLOWED. bit d n)"
    and "bit (auditallow x) n \<longleftrightarrow> bit (auditallow a) n \<or> (\<exists>d \<in> R AVTAB_AUDITALLOW. bit d n)"
    and "bit (auditdeny x) n \<longleftrightarrow> bit (auditdeny a) n \<and> (\<forall>d \<in> R AVTAB_AUDITDENY. bit d n)"
  using assms by (simp_all only: av_joins_def)

lemma av_joins_unique:
  assumes "av_joins a x R" "av_joins a y S"
    and "\<And>kind b. av_kind kind \<Longrightarrow> (\<exists>d \<in> R kind. wanted kind b d) \<longleftrightarrow> (\<exists>d \<in> S kind. wanted kind b d)"
  shows "x = y"
proof -
  have k: "av_kind AVTAB_ALLOWED" "av_kind AVTAB_AUDITALLOW" "av_kind AVTAB_AUDITDENY" by (simp_all add: av_kind_def)
  note J = av_joinsD [OF assms(1)] av_joinsD [OF assms(2)]
  have "(\<exists>d \<in> R AVTAB_ALLOWED. bit d n) \<longleftrightarrow> (\<exists>d \<in> S AVTAB_ALLOWED. bit d n)"
    "(\<exists>d \<in> R AVTAB_AUDITALLOW. bit d n) \<longleftrightarrow> (\<exists>d \<in> S AVTAB_AUDITALLOW. bit d n)" for n
    using assms(3) [OF k(1), of n] assms(3) [OF k(2), of n] by (simp_all add: wanted_def)
  then have "allowed x = allowed y" "auditallow x = auditallow y"
    by (intro bit_word_eqI, simp only: J)+
  moreover have "auditdeny x = auditdeny y"
  proof (rule bit_word_eqI)
    fix n assume "n < LENGTH(32)"
    then have n: "n < 32" by simp
    have "(\<exists>d \<in> R AVTAB_AUDITDENY. \<not> bit d n) \<longleftrightarrow> (\<exists>d \<in> S AVTAB_AUDITDENY. \<not> bit d n)"
      using assms(3) [OF k(3), of n] n by (simp add: wanted_def)
    then show "bit (auditdeny x) n \<longleftrightarrow> bit (auditdeny y) n" unfolding J by blast
  qed
  moreover have "decided x = decided y" "seqno x = seqno y" using assms(1,2) by (simp_all add: av_joins_def)
  ultimately show ?thesis by (cases x, cases y) simp
qed

lemma in_force_optimized:
  assumes ready: "av_opt_ready p" and run: "policydb_optimize p h = Inr p'"
  shows "keys_ok p (in_force p')" and "real_query p q \<Longrightarrow> given p q (in_force p') = given p q (in_force p)"
    and "avtab_wf (te_avtab p')" "avtab_wf (te_cond_avtab p')"
    and "\<forall>n \<in> set (avtab_nodes (te_avtab p')). specified (fst n) AND AVTAB_ENABLED = 0"
    and "\<exists>te cl ca. p' = with_rules p te cl ca"
proof -
  have ready': "opt_ready p" using ready by (simp add: av_opt_ready_def)
  obtain te ns del a where r: "opt_result p p' te ns del a" using optimize_shape [OF ready' run] by blast
  note p' = opt_resultD(1) [OF r] and same = opt_resultD(2) [OF r] and only = opt_resultD(3) [OF r]
    and parts = opt_resultD(4,5) [OF r]
  have bx: "by_expr cur_state" by (simp add: by_expr_def)
  let ?c = "te_cond_avtab p"
  have en: "enabled a x = enabled ?c x" for x using only by (simp add: data_only_def enabled_def)
  have on: "{x. ptr_ok ?c x \<and> enabled ?c x} = actives cur_state (cond_list p)"
    by (rule enabled_ptrs [OF ready])
  have "flagged p' = ptr_node a ` {x. ptr_ok a x \<and> enabled a x \<and> x \<notin> set del}"
    by (auto simp: flagged_def p' unlink_nodes enabled_def)
  also have "{x. ptr_ok a x \<and> enabled a x \<and> x \<notin> set del} = actives cur_state ns"
    using on opt_resultD(6) [OF r bx] en only by (auto simp: data_only_def)
  finally have f': "flagged p' = ptr_node a ` actives cur_state ns" .
  have f: "flagged p = ptr_node ?c ` actives cur_state (cond_list p)"
    unfolding flagged_def by (rule enabled_rules [OF ready])
  show "avtab_wf (te_avtab p')" "avtab_wf (te_cond_avtab p')"
    using same only ready by (simp_all add: p' same_rules_def data_only_def av_opt_ready_def unlink_wf)
  show "\<forall>n \<in> set (avtab_nodes (te_avtab p')). specified (fst n) AND AVTAB_ENABLED = 0"
  proof
    fix n assume "n \<in> set (avtab_nodes (te_avtab p'))"
    then have "fst n \<in> fst ` set (avtab_nodes (te_avtab p))" using same unfolding p' with_rules_fields same_rules_def by blast
    then show "specified (fst n) AND AVTAB_ENABLED = 0" using ready unfolding av_opt_ready_def by fastforce
  qed
  show "\<exists>te cl ca. p' = with_rules p te cl ca" using p' by blast
  have ok: "keys_ok p (set (avtab_nodes (te_avtab p)))" "list_ok p ?c (all_ptrs (cond_list p))"
    using ready' by (simp_all add: opt_ready_def)
  have "keys_ok p (set (avtab_nodes te))" by (rule keys_ok_same [OF same ok(1)])
  moreover have "keys_ok p (ptr_node a ` actives cur_state ns)"
    using list_ok_data [OF only, of p "all_ptrs (cond_list p)"] ok(2) actives_subset [of cur_state ns] parts(1)
    unfolding keys_ok_def list_ok_def by auto
  ultimately show "keys_ok p (in_force p')" 
    unfolding in_force_def f' unfolding p' with_rules_fields keys_ok_def by blast
  show "given p q (in_force p') = given p q (in_force p)" if q: "real_query p q"
    using opt_resultD(7) [OF r bx q] same q unfolding in_force_def f f'
    unfolding p' with_rules_fields gives_def given_simps same_rules_def by simp
qed

lemma with_rules_constraints:
  "constraint_av (with_rules p te cl ca) = constraint_av p" "role_av (with_rules p te cl ca) = role_av p"
proof -
  show "constraint_av (with_rules p te cl ca) = constraint_av p"
    by (rule constraint_av_cong) (simp add: fun_eq_iff cexpr_role_def)
  show "role_av (with_rules p te cl ca) = role_av p" by (intro ext) (simp only: role_av_def with_rules_fields)
qed

lemma te_av_optimized:
  assumes ready: "av_opt_ready p" and run: "policydb_optimize p h = Inr p'"
    and types: "real_type p (ctype sc)" "real_type p (ctype tc)"
  shows "te_av p' sc tc tcl a = te_av p sc tc tcl a"
proof (rule av_joins_unique)
  note f = in_force_optimized [OF ready run]
  have ready': "opt_ready p" using ready by (simp add: av_opt_ready_def)
  have wf: "avtab_wf (te_avtab p)" "avtab_wf (te_cond_avtab p)" using ready ready' by (simp_all add: av_opt_ready_def opt_ready_def)
  show "av_joins a (te_av p' sc tc tcl a) (rules_for p' sc tc tcl)" by (rule te_av_joins [OF f(3,4)])
  show "av_joins a (te_av p sc tc tcl a) (rules_for p sc tc tcl)" by (rule te_av_joins [OF wf])
  fix kind b assume kind: "av_kind kind"
  obtain te cl ca where p': "p' = with_rules p te cl ca" using f(6) by blast
  have maps: "attr_maps_ok p" using ready' by (simp add: opt_ready_def)
  have te: "\<forall>n \<in> set (avtab_nodes (te_avtab p)). specified (fst n) AND AVTAB_ENABLED = 0" using ready by (simp add: av_opt_ready_def)
  have "flagged p \<subseteq> ptr_node (te_cond_avtab p) ` all_ptrs (cond_list p)"
    unfolding flagged_def enabled_rules [OF ready] by (rule image_mono [OF actives_subset])
  then have ok: "keys_ok p (in_force p)"
    using ready' unfolding opt_ready_def keys_ok_def list_ok_def in_force_def by blast
  have "(\<exists>d \<in> rules_for p' sc tc tcl kind. wanted kind b d) \<longleftrightarrow>
      Perm b \<in> given p' (kind, ctype sc, ctype tc, tcl) (in_force p')"
    by (rule rules_for_hits [OF _ _ f(5) _ _ kind]) (use f(1) maps types in \<open>simp_all add: p'\<close>)
  also have "\<dots> \<longleftrightarrow> Perm b \<in> given p (kind, ctype sc, ctype tc, tcl) (in_force p)"
    using f(2) [of "(kind, ctype sc, ctype tc, tcl)"] types by (simp add: real_query_def p')
  also have "\<dots> \<longleftrightarrow> (\<exists>d \<in> rules_for p sc tc tcl kind. wanted kind b d)"
    by (rule rules_for_hits [OF maps ok te types kind, symmetric])
  finally show "(\<exists>d \<in> rules_for p' sc tc tcl kind. wanted kind b d) \<longleftrightarrow> (\<exists>d \<in> rules_for p sc tc tcl kind. wanted kind b d)" .
qed

lemma compute_av_optimized:
  assumes ready: "av_opt_ready p" and run: "policydb_optimize p h = Inr p'"
  shows "real_type p (ctype sc) \<Longrightarrow> real_type p (ctype tc) \<Longrightarrow>
    context_struct_compute_av n p' lg sc tc tcl requested = context_struct_compute_av n p lg sc tc tcl requested"
proof (induction n arbitrary: sc tc requested)
  case (Suc n)
  obtain te cl ca where p': "p' = with_rules p te cl ca" using in_force_optimized(6) [OF ready run] by blast
  note te_av = te_av_optimized [OF ready run Suc.prems]
  have real: "real_type p (type_bounds (the (val_struct (type_val_to_struct p) t)))"
    if "real_type p t" "type_bounds (the (val_struct (type_val_to_struct p) t)) \<noteq> 0" for t
    using ready that unfolding av_opt_ready_def Let_def by blast
  have "type_attribute_bounds_av n p' lg sc tc tcl r avd reason hp = type_attribute_bounds_av n p lg sc tc tcl r avd reason hp"
    for r avd reason hp
  proof -
    let ?s = "type_bounds (the (val_struct (type_val_to_struct p) (ctype sc)))"
    let ?t = "type_bounds (the (val_struct (type_val_to_struct p) (ctype tc)))"
    have IH: "context_struct_compute_av n p' lg (sc\<lparr>ctype := ?s\<rparr>) lo_tc tcl r =
        context_struct_compute_av n p lg (sc\<lparr>ctype := ?s\<rparr>) lo_tc tcl r"
      if "?s \<noteq> 0" "lo_tc = (if ?t \<noteq> 0 then tc\<lparr>ctype := ?t\<rparr> else tc)" for lo_tc
      by (rule Suc.IH) (use real Suc.prems that in auto)
    show ?thesis
      using IH [OF _ refl] unfolding type_attribute_bounds_av.simps p' with_rules_fields Let_def by simp
  qed
  then show ?case
    by (intro ext) (simp only: context_struct_compute_av.simps(2) te_av [unfolded p'] p' with_rules_constraints with_rules_fields)
qed (simp add: fun_eq_iff)

section \<open>Failures\<close>

text \<open>An operation that fails with \<open>FAIL\<close>, and only because an allocation failed.\<close>

definition fails_alloc :: "heap \<Rightarrow> ('a \<times> heap) result \<Rightarrow> bool" where
  "fails_alloc h r \<longleftrightarrow> (case r of Inl e \<Rightarrow> e = FAIL \<and> \<not> mem_ok h | Inr (_, h') \<Rightarrow> mem_ok h \<longrightarrow> mem_ok h')"

lemma fails_alloc_bind:
  "fails_alloc h r \<Longrightarrow> (\<And>x h'. r = Inr (x, h') \<Longrightarrow> fails_alloc h' (f (x, h'))) \<Longrightarrow> fails_alloc h (bind_res r f)"
proof -
  assume r: "fails_alloc h r" and f: "\<And>x h'. r = Inr (x, h') \<Longrightarrow> fails_alloc h' (f (x, h'))"
  show "fails_alloc h (bind_res r f)"
  proof (cases r)
    case (Inl e)
    then show ?thesis using r by (simp add: fails_alloc_def)
  next
    case (Inr xh)
    obtain x h' where xh: "xh = (x, h')" by (cases xh)
    have "mem_ok h \<longrightarrow> mem_ok h'" using r Inr xh by (simp add: fails_alloc_def)
    then show ?thesis using f [of x h'] Inr xh by (cases "f (x, h')") (auto simp: fails_alloc_def)
  qed
qed

lemma fails_alloc_Inr [simp]: "fails_alloc h (Inr (x, h))"
  by (simp add: fails_alloc_def)

lemma fails_alloc_type_vec: "fails_alloc h (type_vec_init h)" "fails_alloc h (type_vec_append v t h)"
  by (auto simp: fails_alloc_def type_vec_init_def type_vec_append_def dest: malloc_okD split: prod.splits sum.splits if_splits)

lemma fails_alloc_append: "fails_alloc h (append_all v ks h)"
  by (induction v ks h rule: append_all.induct) (auto intro!: fails_alloc_bind fails_alloc_type_vec)

lemma fails_alloc_maps: "fails_alloc h (build_maps p is h)"
  by (induction "is" arbitrary: h) (auto intro!: fails_alloc_bind fails_alloc_type_vec fails_alloc_append)

lemma build_type_map_fails: "fails_alloc h (build_type_map p h)"
proof -
  obtain ok h1 where m: "malloc h = (ok, h1)" by fastforce
  then have "mem_ok h \<Longrightarrow> ok \<and> mem_ok h1" by (rule malloc_okD)
  then show ?thesis
    using fails_alloc_maps [of h1 p "[0..<unat (nprim (p_types p))]"] m
    by (auto simp: fails_alloc_def build_type_map_def split: sum.splits)
qed

section \<open>Properties\<close>

text \<open>
  C4: The optimiser is sound. Whatever the values of the conditionals (\<open>by_expr\<close>: of their expressions), the
  rules in force give to every pair of types, class and kind of rule the same permissions, audit bits and extended
  permissions after \<open>policydb_optimize\<close> as before. No key is added to the table, its count stays right,
  and the optimiser fails only on a policy that is no kernel policy, has a version between 20 and 23, or
  when an allocation fails.
\<close>

theorem policydb_optimize_sound:
  assumes "opt_ready p"
  shows "case policydb_optimize p h of
      Inl e \<Rightarrow> e = FAIL \<and> (policy_type p \<noteq> POLICY_KERN \<or> 20 \<le> policyvers p \<and> policyvers p \<le> 23 \<or> \<not> mem_ok h)
    | Inr p' \<Rightarrow> (\<forall>v q. by_expr v \<and> real_query p q \<longrightarrow> granted p' v q = granted p v q) \<and>
        fst ` set (avtab_nodes (te_avtab p')) \<subseteq> fst ` set (avtab_nodes (te_avtab p)) \<and>
        (counted (te_avtab p) \<longrightarrow> counted (te_avtab p'))"
proof (cases "policydb_optimize p h")
  case (Inl e)
  then show ?thesis
    using build_type_map_fails [of h p]
    by (auto simp: policydb_optimize_def fails_alloc_def bind_res_def split: if_splits sum.splits)
next
  case (Inr p')
  obtain te ns del a where r: "opt_result p p' te ns del a" using optimize_shape [OF assms Inr] by blast
  have "fst ` set (avtab_nodes (te_avtab p')) \<subseteq> fst ` set (avtab_nodes (te_avtab p))"
    "counted (te_avtab p) \<longrightarrow> counted (te_avtab p')"
    using opt_resultD(1,2) [OF r] by (simp_all add: same_rules_def)
  then show ?thesis using optimize_granted [OF assms Inr] Inr by simp
qed

text \<open>
  C5: The server decides alike on an optimised policy: for every pair of contexts whose types are types of the
  policy, every class and depth, \<open>context_struct_compute_av\<close> is the same function of the heap: with the same outcomes of
  its allocations it returns the same decision, the same reason and the same errors.
\<close>

theorem policydb_optimize_decides:
  assumes "av_opt_ready p" "policydb_optimize p h = Inr p'" "real_type p (ctype sc)" "real_type p (ctype tc)"
  shows "context_struct_compute_av n p' lg sc tc tcl requested = context_struct_compute_av n p lg sc tc tcl requested"
  by (rule compute_av_optimized [OF assms])

section \<open>Example\<close>

text \<open>
  Two types and an attribute of both. The rule for the pair of the first type is covered by the rule for
  the attribute, and so is the conditional rule.
\<close>

abbreviation opt_key :: "u16 \<Rightarrow> u16 \<Rightarrow> avtab_key" where
  "opt_key s t \<equiv> \<lparr>source_type = s, target_type = t, target_class = 1, specified = AVTAB_ALLOWED\<rparr>"

abbreviation opt_datum :: "u32 \<Rightarrow> avtab_datum" where
  "opt_datum d \<equiv> \<lparr>data = d, xperms = None\<rparr>"

definition sample_attr_policy :: policydb where
  "sample_attr_policy = sample_policy\<lparr>
     p_types := one_chain [(''a'', \<lparr>type_value = 1, flavor = 0, type_bounds = 0, primary = 0, attr_types = ebitmap_init, type_flags = 0\<rparr>), (''b'', \<lparr>type_value = 2, flavor = 0, type_bounds = 0, primary = 0, attr_types = ebitmap_init, type_flags = 0\<rparr>), (''c'', \<lparr>type_value = 3, flavor = 1, type_bounds = 0, primary = 0, attr_types = ebitmap_init, type_flags = 0\<rparr>)],
     type_val_to_struct := [Some \<lparr>type_value = 1, flavor = 0, type_bounds = 0, primary = 0, attr_types = ebitmap_init, type_flags = 0\<rparr>, Some \<lparr>type_value = 2, flavor = 0, type_bounds = 0, primary = 0, attr_types = ebitmap_init, type_flags = 0\<rparr>, Some \<lparr>type_value = 3, flavor = 1, type_bounds = 0, primary = 0, attr_types = ebitmap_init, type_flags = 0\<rparr>],
     type_attr_map := [bitmap_of 5, bitmap_of 6, bitmap_of 4], attr_type_map := [bitmap_of 1, bitmap_of 2, bitmap_of 3],
     te_avtab := \<lparr>avtable = Some [[(opt_key 1 1, opt_datum 1), (opt_key 3 3, opt_datum 3)]], avnel = 2, nslot = 1, avmask = 0\<rparr>,
     te_cond_avtab := one_slot (opt_key 2 1) 1\<rparr>"

lemma sample_optimized:
  "case policydb_optimize sample_attr_policy [] of Inl _ \<Rightarrow> False | Inr p' \<Rightarrow>
     te_avtab p' = \<lparr>avtable = Some [[(opt_key 3 3, opt_datum 3)]], avnel = 1, nslot = 1, avmask = 0\<rparr> \<and>
     cond_list p' = [] \<and> te_cond_avtab p' = \<lparr>avtable = Some [[]], avnel = 0, nslot = 1, avmask = 0\<rparr>"
  by code_simp

lemma sample_fields:
  "nprim (p_types sample_attr_policy) = 3" "type_attr_map sample_attr_policy = [bitmap_of 5, bitmap_of 6, bitmap_of 4]"
  "attr_type_map sample_attr_policy = [bitmap_of 1, bitmap_of 2, bitmap_of 3]"
  "type_val_to_struct sample_attr_policy = [Some \<lparr>type_value = 1, flavor = 0, type_bounds = 0, primary = 0, attr_types = ebitmap_init, type_flags = 0\<rparr>,
     Some \<lparr>type_value = 2, flavor = 0, type_bounds = 0, primary = 0, attr_types = ebitmap_init, type_flags = 0\<rparr>, Some \<lparr>type_value = 3, flavor = 1, type_bounds = 0, primary = 0, attr_types = ebitmap_init, type_flags = 0\<rparr>]"
  "te_avtab sample_attr_policy = \<lparr>avtable = Some [[(opt_key 1 1, opt_datum 1), (opt_key 3 3, opt_datum 3)]], avnel = 2, nslot = 1, avmask = 0\<rparr>"
  "te_cond_avtab sample_attr_policy = one_slot (opt_key 2 1) 1" "cond_list sample_attr_policy = [sample_node]"
  by (simp_all add: sample_attr_policy_def sample_policy_def one_chain_def)

lemma word_le_3: "(t :: u32) \<le> 3 \<longleftrightarrow> t = 0 \<or> t = 1 \<or> t = 2 \<or> t = 3"
proof -
  have "t \<le> 3 \<longleftrightarrow> unat t \<le> 3" by (simp add: word_le_nat_alt)
  also have "\<dots> \<longleftrightarrow> unat t = unat (0 :: u32) \<or> unat t = unat (1 :: u32) \<or> unat t = unat (2 :: u32) \<or> unat t = unat (3 :: u32)" by auto
  finally show ?thesis by (simp only: word_unat_eq_iff)
qed

lemma sample_real_type: "real_type sample_attr_policy t \<longleftrightarrow> t = 1 \<or> t = 2"
proof -
  have "t \<noteq> 0 \<and> t \<le> 3 \<longleftrightarrow> t = 1 \<or> t = 2 \<or> t = 3" unfolding word_le_3 by auto
  then show ?thesis unfolding real_type_def sample_fields by (auto simp: attr_at_def sample_fields)
qed

lemma bits_567:
  "bit (5 :: u64) n \<longleftrightarrow> n = 0 \<or> n = 2" "bit (6 :: u64) n \<longleftrightarrow> n = 1 \<or> n = 2" "bit (3 :: u64) n \<longleftrightarrow> n = 0 \<or> n = 1"
proof -
  have "(5 :: u64) = push_bit 0 1 OR push_bit 2 1" "(6 :: u64) = push_bit 1 1 OR push_bit 2 1"
    "(3 :: u64) = push_bit 0 1 OR push_bit 1 1"
    by simp_all
  then show "bit (5 :: u64) n \<longleftrightarrow> n = 0 \<or> n = 2" "bit (6 :: u64) n \<longleftrightarrow> n = 1 \<or> n = 2" "bit (3 :: u64) n \<longleftrightarrow> n = 0 \<or> n = 1"
    by (simp_all only: bit_or_iff bit_push_bit_iff bit_1_iff) auto
qed

lemma sample_has_type:
  "has_type sample_attr_policy 1 i \<longleftrightarrow> i = 0 \<or> i = 2" "has_type sample_attr_policy 2 i \<longleftrightarrow> i = 1 \<or> i = 2"
proof -
  have "unat i = 0 \<longleftrightarrow> i = 0" "unat i = 1 \<longleftrightarrow> i = 1" "unat i = 2 \<longleftrightarrow> i = 2"
    by (simp_all add: word_unat_eq_iff)
  then show "has_type sample_attr_policy 1 i \<longleftrightarrow> i = 0 \<or> i = 2" "has_type sample_attr_policy 2 i \<longleftrightarrow> i = 1 \<or> i = 2"
    unfolding has_type_def sample_fields by (simp_all add: bits_567 del: bit_numeral_word_iff)
qed

lemma sample_attr_maps: "attr_maps_ok sample_attr_policy"
proof -
  let ?p = "sample_attr_policy"
  have "\<forall>x i. real_type ?p x \<and> has_type ?p x i \<longrightarrow> i < nprim (p_types ?p)"
    by (auto simp: sample_real_type sample_has_type sample_fields)
  moreover have "has_type ?p x i \<longleftrightarrow> (if attr_at ?p (unat i) then ebitmap_get_bit (attr_type_map ?p ! unat i) (x - 1) else i = x - 1)"
    if "real_type ?p x" "i < nprim (p_types ?p)" for x i
  proof -
    have "i \<le> 3" "i \<noteq> 3" using that(2) by (auto simp: sample_fields)
    then have "i = 0 \<or> i = 1 \<or> i = 2" unfolding word_le_3 by auto
    moreover have "x = 1 \<or> x = 2" using that(1) by (simp add: sample_real_type)
    ultimately show ?thesis by (auto simp: sample_has_type attr_at_def sample_fields bits_567)
  qed
  ultimately show ?thesis unfolding attr_maps_ok_def sample_fields(1-4) by simp
qed

lemma sample_opt_ready: "av_opt_ready sample_attr_policy"
proof -
  let ?p = "sample_attr_policy"
  have one: "single_bit (key_spec (opt_key s t))" for s t
  proof -
    have "key_spec (opt_key s t) = 1" by (simp add: key_spec_def)
    then show ?thesis by (auto simp: single_bit_def bit_1_iff)
  qed
  then have keys: "key_ok ?p (opt_key 1 1)" "key_ok ?p (opt_key 3 3)" "key_ok ?p (opt_key 2 1)"
    by (simp_all add: key_ok_def sample_fields)
  have ptrs: "node_ptrs sample_node = [(0, 0)]" by (simp add: node_ptrs_def sample_node_def)
  have "avtab_wf (te_avtab ?p)" by (simp add: sample_fields avtab_wf_def key_rank_def)
  moreover have "list_ok ?p (te_cond_avtab ?p) (all_ptrs (cond_list ?p))"
    using keys(3) by (simp add: sample_fields ptrs ptr_ok_def ptr_node_def one_slot_def list_ok_def)
  ultimately have "opt_ready ?p"
    using sample_attr_maps keys by (simp add: opt_ready_def sample_fields keys_ok_def avtab_nodes_def ptrs)
  moreover have "node_consistent (te_cond_avtab ?p) sample_node"
    by (simp add: node_consistent_def sample_fields sample_node_def enabled_def ptr_node_def one_slot_def)
  moreover have "(0, 0) = x" if "ptr_ok (te_cond_avtab ?p) x" for x
    using that by (cases x) (simp add: ptr_ok_def sample_fields one_slot_def)
  ultimately show ?thesis
    unfolding av_opt_ready_def by (auto simp: sample_real_type sample_fields ptrs val_struct_def avtab_nodes_def)
qed

lemma policydb_optimize_sound_witness:
  "case policydb_optimize sample_attr_policy [] of Inl _ \<Rightarrow> False
   | Inr p' \<Rightarrow> granted p' cur_state (AVTAB_ALLOWED, 1, 2, 1) = granted sample_attr_policy cur_state (AVTAB_ALLOWED, 1, 2, 1)"
proof -
  have "opt_ready sample_attr_policy" using sample_opt_ready by (simp add: av_opt_ready_def)
  moreover have "by_expr cur_state" "real_query sample_attr_policy (AVTAB_ALLOWED, 1, 2, 1)"
    by (simp_all add: by_expr_def real_query_def sample_real_type)
  ultimately show ?thesis
    using policydb_optimize_sound [of sample_attr_policy "[]"] sample_optimized by (auto split: sum.splits)
qed

lemma policydb_optimize_decides_witness:
  "\<exists>p'. policydb_optimize sample_attr_policy [] = Inr p' \<and>
     context_struct_compute_av 3 p' 0 (sample_context 1) (sample_context 2) 1 1 =
     context_struct_compute_av 3 sample_attr_policy 0 (sample_context 1) (sample_context 2) 1 1"
proof -
  obtain p' where p': "policydb_optimize sample_attr_policy [] = Inr p'" using sample_optimized by (auto split: sum.splits)
  then show ?thesis
    using policydb_optimize_decides [OF sample_opt_ready p'] by (simp add: sample_context_def sample_real_type)
qed

end
