(* ===== verification/Validate.thy ===== *)
theory Validate
  imports Access Ebitmap_Ranges
begin

text \<open>
  The validation of a policy that was read (\<open>policydb_validate.c\<close>, \<open>polcaps.c\<close>). A check returns 0 or -1
  in C; here it is a predicate, true for 0. Only the arrays of gaps need memory, so only they take a heap.
  Strings are never \<open>NULL\<close> in the model, and the flag \<open>mls\<close> is a boolean, so these tests always pass. Messages
  are left out.
\<close>

unbundle bit_operations_syntax

section \<open>Values and bitmaps\<close>

record validate =
  fprim :: u32  \<comment> \<open>\<open>nprim\<close>\<close>
  gaps :: ebitmap

abbreviation SYM_COMMONS :: nat where "SYM_COMMONS \<equiv> 0"
abbreviation SYM_CLASSES :: nat where "SYM_CLASSES \<equiv> 1"
abbreviation SYM_ROLES :: nat where "SYM_ROLES \<equiv> 2"
abbreviation SYM_TYPES :: nat where "SYM_TYPES \<equiv> 3"
abbreviation SYM_USERS :: nat where "SYM_USERS \<equiv> 4"
abbreviation SYM_BOOLS :: nat where "SYM_BOOLS \<equiv> 5"
abbreviation SYM_LEVELS :: nat where "SYM_LEVELS \<equiv> 6"
abbreviation SYM_CATS :: nat where "SYM_CATS \<equiv> 7"
abbreviation SYM_NUM :: nat where "SYM_NUM \<equiv> 8"

type_synonym flavors = "validate list"

abbreviation POLICY_KERN :: u32 where "POLICY_KERN \<equiv> 0"
abbreviation POLICY_BASE :: u32 where "POLICY_BASE \<equiv> 1"
abbreviation POLICY_MOD :: u32 where "POLICY_MOD \<equiv> 2"

fun create_gap_loop :: "string option list \<Rightarrow> nat list \<Rightarrow> ebitmap \<Rightarrow> heap \<Rightarrow> (ebitmap \<times> heap) result" where
  "create_gap_loop names [] g h = Inr (g, h)"
| "create_gap_loop names (i # is) g h =
     (if names ! i = None
      then (case ebitmap_set_bit g (of_nat i) True h of
          Inl e \<Rightarrow> Inl FAIL
        | Inr (g, h) \<Rightarrow> create_gap_loop names is g h)
      else create_gap_loop names is g h)"

definition create_gap_ebitmap :: "string option list \<Rightarrow> u32 \<Rightarrow> heap \<Rightarrow> (ebitmap \<times> heap) result" where
  "create_gap_ebitmap names n h = create_gap_loop names [0..<unat n] ebitmap_init h"

definition validate_init :: "string option list \<Rightarrow> u32 \<Rightarrow> heap \<Rightarrow> (validate \<times> heap) result" where
  "validate_init names n h = bind_res (create_gap_ebitmap names n h) (\<lambda>(g, h). Inr (\<lparr>fprim = n, gaps = g\<rparr>, h))"

abbreviation POLICYDB_VERSION_AVTAB :: u32 where "POLICYDB_VERSION_AVTAB \<equiv> 20"
abbreviation POLICYDB_VERSION_PERMISSIVE :: u32 where "POLICYDB_VERSION_PERMISSIVE \<equiv> 23"

text \<open>In kernel policies of these versions attributes have a value and no name.\<close>

definition attr_gaps :: "policydb \<Rightarrow> bool" where
  "attr_gaps p \<longleftrightarrow> \<not> (policy_type p \<noteq> POLICY_KERN \<or> policyvers p < POLICYDB_VERSION_AVTAB \<or>
     policyvers p > POLICYDB_VERSION_PERMISSIVE)"

definition validate_array_init :: "policydb \<Rightarrow> heap \<Rightarrow> (flavors \<times> heap) result" where
  "validate_array_init p h =
     bind_res (validate_init (p_common_val_to_name p) (nprim (p_commons p)) h) (\<lambda>(f0, h).
     bind_res (validate_init (p_class_val_to_name p) (nprim (p_classes p)) h) (\<lambda>(f1, h).
     bind_res (validate_init (p_role_val_to_name p) (nprim (p_roles p)) h) (\<lambda>(f2, h).
     bind_res (if attr_gaps p then Inr (\<lparr>fprim = nprim (p_types p), gaps = ebitmap_init\<rparr>, h)
       else validate_init (p_type_val_to_name p) (nprim (p_types p)) h) (\<lambda>(f3, h).
     bind_res (validate_init (p_user_val_to_name p) (nprim (p_users p)) h) (\<lambda>(f4, h).
     bind_res (validate_init (p_bool_val_to_name p) (nprim (p_bools p)) h) (\<lambda>(f5, h).
     bind_res (validate_init (p_sens_val_to_name p) (nprim (p_levels p)) h) (\<lambda>(f6, h).
     bind_res (validate_init (p_cat_val_to_name p) (nprim (p_cats p)) h) (\<lambda>(f7, h).
       Inr ([f0, f1, f2, f3, f4, f5, f6, f7], h)))))))))"

definition value_isvalid :: "u32 \<Rightarrow> u32 \<Rightarrow> bool" where
  "value_isvalid v n \<longleftrightarrow> \<not> (v = 0 \<or> v > n)"

definition validate_value :: "u32 \<Rightarrow> validate \<Rightarrow> bool" where
  "validate_value v f \<longleftrightarrow> \<not> (v = 0 \<or> v > fprim f) \<and> \<not> ebitmap_get_bit (gaps f) (v - 1)"

definition validate_ebitmap :: "ebitmap \<Rightarrow> validate \<Rightarrow> bool" where
  "validate_ebitmap e f \<longleftrightarrow> \<not> (ebitmap_length e > 0 \<and> ebitmap_highest_set_bit e \<ge> fprim f) \<and>
     \<not> ebitmap_match_any e (gaps f)"

definition validate_type_set :: "type_set \<Rightarrow> validate \<Rightarrow> bool" where
  "validate_type_set ts f \<longleftrightarrow> validate_ebitmap (ts_types ts) f \<and> validate_ebitmap (negset ts) f \<and> ts_flags ts \<in> {0, 1, 2}"

definition validate_empty_type_set :: "type_set \<Rightarrow> bool" where
  "validate_empty_type_set ts \<longleftrightarrow> ebitmap_is_empty (ts_types ts) \<and> ebitmap_is_empty (negset ts) \<and> ts_flags ts = 0"

definition validate_role_set :: "role_set \<Rightarrow> validate \<Rightarrow> bool" where
  "validate_role_set rs f \<longleftrightarrow> validate_ebitmap (rs_roles rs) f \<and> rs_flags rs \<in> {0, 1, 2}"

text \<open>\<open>hashtab_map\<close> with a check that keeps no state.\<close>

definition hashtab_check :: "('k \<Rightarrow> 'd \<Rightarrow> bool) \<Rightarrow> ('k, 'd) hashtab option \<Rightarrow> bool" where
  "hashtab_check f t \<longleftrightarrow> fst (hashtab_map t (\<lambda>k d u. (if f k d then 0 else - 1, u)) ()) = 0"

section \<open>Scopes\<close>

definition validate_scope :: "u32 \<Rightarrow> string \<Rightarrow> scope_datum \<Rightarrow> bool" where
  "validate_scope n k d \<longleftrightarrow> scope_kind d \<in> {1, 2} \<and> (\<forall>i \<in> set (decl_ids d). value_isvalid i n)"

definition validate_scopes :: "scope_datum symtab list \<Rightarrow> avrule_block list \<Rightarrow> bool" where
  "validate_scopes scopes blocks \<longleftrightarrow>
     (let num_decls = of_nat (length (concat (map branch_list blocks))) in
      \<forall>i \<in> set [0..<SYM_NUM]. hashtab_check (validate_scope num_decls) (table (scopes ! i)))"

section \<open>Constraints\<close>

definition validate_cexpr_names :: "flavors \<Rightarrow> bool \<Rightarrow> constraint_expr \<Rightarrow> bool" where
  "validate_cexpr_names fl is_validatetrans e \<longleftrightarrow>
     \<not> (cattr e AND CEXPR_XTARGET \<noteq> 0 \<and> \<not> is_validatetrans) \<and>
     (cattr e AND CEXPR_TYPE = 0 \<longrightarrow> validate_empty_type_set (type_names e)) \<and>
     cop e \<in> {CEXPR_EQ, CEXPR_NEQ} \<and>
     (if cattr e \<in> {CEXPR_USER, CEXPR_USER OR CEXPR_TARGET, CEXPR_USER OR CEXPR_XTARGET}
      then validate_ebitmap (cnames e) (fl ! SYM_USERS)
      else if cattr e \<in> {CEXPR_ROLE, CEXPR_ROLE OR CEXPR_TARGET, CEXPR_ROLE OR CEXPR_XTARGET}
      then validate_ebitmap (cnames e) (fl ! SYM_ROLES)
      else if cattr e \<in> {CEXPR_TYPE, CEXPR_TYPE OR CEXPR_TARGET, CEXPR_TYPE OR CEXPR_XTARGET}
      then validate_ebitmap (cnames e) (fl ! SYM_TYPES) \<and> validate_type_set (type_names e) (fl ! SYM_TYPES)
      else False)"

definition validate_cexpr_attr :: "constraint_expr \<Rightarrow> bool" where
  "validate_cexpr_attr e \<longleftrightarrow> ebitmap_is_empty (cnames e) \<and> validate_empty_type_set (type_names e) \<and>
     (if cop e \<in> {CEXPR_EQ, CEXPR_NEQ} then True
      else if cop e \<in> {CEXPR_DOM, CEXPR_DOMBY, CEXPR_INCOMP}
      then \<not> (cattr e AND CEXPR_USER \<noteq> 0 \<or> cattr e AND CEXPR_TYPE \<noteq> 0)
      else False) \<and>
     cattr e \<in> {CEXPR_USER, CEXPR_ROLE, CEXPR_TYPE, CEXPR_L1L2, CEXPR_L1H2, CEXPR_H1L2, CEXPR_H1H2, CEXPR_L1H1, CEXPR_L2H2}"

definition validate_cexpr_operator :: "constraint_expr \<Rightarrow> bool" where
  "validate_cexpr_operator e \<longleftrightarrow> cop e = 0 \<and> cattr e = 0 \<and> ebitmap_is_empty (cnames e) \<and> validate_empty_type_set (type_names e)"

fun validate_cexprs :: "flavors \<Rightarrow> bool \<Rightarrow> constraint_expr list \<Rightarrow> int \<Rightarrow> bool" where
  "validate_cexprs fl vt [] depth \<longleftrightarrow> depth = 0"
| "validate_cexprs fl vt (e # es) depth \<longleftrightarrow>
     (if expr_type e = CEXPR_NAMES
      then \<not> depth \<ge> int CEXPR_MAXDEPTH - 1 \<and> validate_cexpr_names fl vt e \<and> validate_cexprs fl vt es (depth + 1)
      else if expr_type e = CEXPR_ATTR
      then \<not> depth \<ge> int CEXPR_MAXDEPTH - 1 \<and> validate_cexpr_attr e \<and> validate_cexprs fl vt es (depth + 1)
      else if expr_type e = CEXPR_NOT
      then \<not> depth < 0 \<and> validate_cexpr_operator e \<and> validate_cexprs fl vt es depth
      else if expr_type e = CEXPR_AND \<or> expr_type e = CEXPR_OR
      then \<not> depth < 1 \<and> validate_cexpr_operator e \<and> validate_cexprs fl vt es (depth - 1)
      else False)"

abbreviation UINT32_MAX :: u32 where "UINT32_MAX \<equiv> 0xffffffff"
abbreviation PERM_SYMTAB_SIZE :: u32 where "PERM_SYMTAB_SIZE \<equiv> 32"

definition validate_constraint_node :: "u32 \<Rightarrow> flavors \<Rightarrow> constraint_node \<Rightarrow> bool" where
  "validate_constraint_node nperms fl c \<longleftrightarrow>
     (let is_validatetrans = (nperms = UINT32_MAX) in
      \<not> (is_validatetrans \<and> permissions c \<noteq> 0) \<and>
      \<not> (\<not> is_validatetrans \<and> permissions c = 0) \<and>
      \<not> (\<not> is_validatetrans \<and> nperms \<noteq> PERM_SYMTAB_SIZE \<and> permissions c \<ge> push_bit (unat nperms) 1) \<and>
      cnode_expr c \<noteq> [] \<and> validate_cexprs fl is_validatetrans (cnode_expr c) (- 1))"

definition validate_constraint_nodes :: "u32 \<Rightarrow> constraint_node list \<Rightarrow> flavors \<Rightarrow> bool" where
  "validate_constraint_nodes nperms cons fl \<longleftrightarrow> \<not> (cons \<noteq> [] \<and> nperms = 0) \<and>
     (\<forall>c \<in> set cons. validate_constraint_node nperms fl c)"

section \<open>Classes\<close>

text \<open>The state of the traversal is \<open>visited\<close>.\<close>

definition perm_visit :: "u32 \<Rightarrow> u32 \<Rightarrow> string \<Rightarrow> perm_datum \<Rightarrow> u32 \<Rightarrow> int \<times> u32" where
  "perm_visit n inherited_nprim k d visited =
     (if \<not> value_isvalid (perm_value d) n then (- 1, visited)
      else if inherited_nprim \<noteq> 0 \<and> value_isvalid (perm_value d) inherited_nprim then (- 1, visited)
      else if push_bit (unat (perm_value d - 1)) 1 AND visited \<noteq> 0 then (- 1, visited)
      else (0, visited OR push_bit (unat (perm_value d - 1)) 1))"

definition validate_permission_symtab :: "perm_datum symtab \<Rightarrow> u32 \<Rightarrow> bool" where
  "validate_permission_symtab s inherited_nprim \<longleftrightarrow>
     fst (hashtab_map (table s) (perm_visit (nprim s) inherited_nprim) 0) = 0"

definition table_nel :: "'d symtab \<Rightarrow> u32" where
  "table_nel s = nel (the (table s))"

definition validate_common_datum :: "flavors \<Rightarrow> common_datum \<Rightarrow> bool" where
  "validate_common_datum fl c \<longleftrightarrow> validate_value (common_value c) (fl ! SYM_COMMONS) \<and>
     \<not> (nprim (common_permissions c) = 0 \<or> nprim (common_permissions c) > PERM_SYMTAB_SIZE) \<and>
     nprim (common_permissions c) = table_nel (common_permissions c) \<and>
     validate_permission_symtab (common_permissions c) 0"

definition validate_class_datum :: "flavors \<Rightarrow> class_datum \<Rightarrow> bool" where
  "validate_class_datum fl c \<longleftrightarrow>
     class_value c \<le> 0xffff \<and> validate_value (class_value c) (fl ! SYM_CLASSES) \<and>
     (case comdatum c of None \<Rightarrow> True | Some com \<Rightarrow> validate_common_datum fl com) \<and>
     \<not> (nprim (class_permissions c) > PERM_SYMTAB_SIZE \<or> table_nel (class_permissions c) > PERM_SYMTAB_SIZE) \<and>
     nprim (class_permissions c) = table_nel (class_permissions c) +
       (case comdatum c of None \<Rightarrow> 0 | Some com \<Rightarrow> table_nel (common_permissions com)) \<and>
     validate_permission_symtab (class_permissions c)
       (case comdatum c of None \<Rightarrow> 0 | Some com \<Rightarrow> nprim (common_permissions com)) \<and>
     validate_constraint_nodes (nprim (class_permissions c)) (constraints c) fl \<and>
     validate_constraint_nodes UINT32_MAX (validatetrans c) fl \<and>
     default_user c \<in> {0, 1, 2} \<and> default_role c \<in> {0, 1, 2} \<and> default_type c \<in> {0, 1, 2} \<and>
     default_range c \<in> {0, 1, 2, 3, 4, 5, 6, 7}"

section \<open>Roles, types, users, levels and booleans\<close>

definition role_type_set :: "role_datum \<Rightarrow> type_set" where
  "role_type_set r = \<lparr>ts_types = role_types r, negset = role_negset r, ts_flags = role_tflags r\<rparr>"

definition validate_role_datum :: "flavors \<Rightarrow> role_datum \<Rightarrow> bool" where
  "validate_role_datum fl r \<longleftrightarrow> validate_value (role_value r) (fl ! SYM_ROLES) \<and>
     validate_ebitmap (dominates r) (fl ! SYM_ROLES) \<and> validate_type_set (role_type_set r) (fl ! SYM_TYPES) \<and>
     (role_bounds r \<noteq> 0 \<longrightarrow> validate_value (role_bounds r) (fl ! SYM_ROLES)) \<and>
     validate_ebitmap (role_roles r) (fl ! SYM_ROLES) \<and> role_flavor r \<in> {0, 1}"

abbreviation TYPE_TYPE :: u32 where "TYPE_TYPE \<equiv> 0"
abbreviation TYPE_ALIAS :: u32 where "TYPE_ALIAS \<equiv> 2"

definition validate_simpletype :: "u32 \<Rightarrow> policydb \<Rightarrow> flavors \<Rightarrow> bool" where
  "validate_simpletype v p fl \<longleftrightarrow> validate_value v (fl ! SYM_TYPES) \<and>
     (case val_struct (type_val_to_struct p) v of None \<Rightarrow> False | Some t \<Rightarrow> flavor t \<noteq> 1)"

definition validate_type_datum :: "policydb \<Rightarrow> flavors \<Rightarrow> type_datum \<Rightarrow> bool" where
  "validate_type_datum p fl t \<longleftrightarrow> validate_value (type_value t) (fl ! SYM_TYPES) \<and>
     (primary t \<noteq> 0 \<longrightarrow> validate_value (primary t) (fl ! SYM_TYPES)) \<and>
     (if flavor t = TYPE_TYPE \<or> flavor t = TYPE_ALIAS
      then ebitmap_is_empty (attr_types t) \<and> (type_bounds t \<noteq> 0 \<longrightarrow> validate_simpletype (type_bounds t) p fl)
      else if flavor t = 1 then validate_ebitmap (attr_types t) (fl ! SYM_TYPES) \<and> type_bounds t = 0
      else False) \<and>
     type_flags t \<in> {0, 1, 2, 4, 6}"

definition validate_mls_semantic_cat :: "mls_semantic_cat list \<Rightarrow> validate \<Rightarrow> bool" where
  "validate_mls_semantic_cat cs f \<longleftrightarrow>
     (\<forall>c \<in> set cs. validate_value (cat_low c) f \<and> validate_value (cat_high c) f \<and> \<not> cat_low c > cat_high c)"

definition validate_mls_semantic_level :: "mls_semantic_level \<Rightarrow> validate \<Rightarrow> validate \<Rightarrow> bool" where
  "validate_mls_semantic_level l sens_f cats_f \<longleftrightarrow>
     ssens l = 0 \<or> validate_value (ssens l) sens_f \<and> validate_mls_semantic_cat (scats l) cats_f"

definition validate_mls_semantic_range :: "mls_semantic_range \<Rightarrow> validate \<Rightarrow> validate \<Rightarrow> bool" where
  "validate_mls_semantic_range r sens_f cats_f \<longleftrightarrow>
     validate_mls_semantic_level (slow r) sens_f cats_f \<and> validate_mls_semantic_level (shigh r) sens_f cats_f"

definition validate_mls_level :: "mls_level \<Rightarrow> validate \<Rightarrow> validate \<Rightarrow> bool" where
  "validate_mls_level l sens_f cats_f \<longleftrightarrow> validate_value (sens l) sens_f \<and> validate_ebitmap (cat l) cats_f"

definition validate_level_datum :: "policydb \<Rightarrow> flavors \<Rightarrow> level_datum \<Rightarrow> bool" where
  "validate_level_datum p fl l \<longleftrightarrow> notdefined l = 0 \<and>
     validate_mls_level (level_of l) (fl ! SYM_LEVELS) (fl ! SYM_CATS) \<and>
     (level_isalias l \<longrightarrow>
        (case hashtab_search (table (p_levels p)) (the (val_name (p_sens_val_to_name p) (sens (level_of l)))) of
           None \<Rightarrow> False
         | Some actual \<Rightarrow> ebitmap_cmp (cat (level_of l)) (cat (level_of actual))))"

definition validate_mls_range :: "mls_range \<Rightarrow> validate \<Rightarrow> validate \<Rightarrow> bool" where
  "validate_mls_range r sens_f cats_f \<longleftrightarrow> validate_mls_level (low r) sens_f cats_f \<and> validate_mls_level (high r) sens_f cats_f"

definition user_role_set :: "user_datum \<Rightarrow> role_set" where
  "user_role_set u = \<lparr>rs_roles = user_roles u, rs_flags = user_rflags u\<rparr>"

definition validate_user_datum :: "policydb \<Rightarrow> flavors \<Rightarrow> user_datum \<Rightarrow> bool" where
  "validate_user_datum p fl u \<longleftrightarrow> validate_value (user_value u) (fl ! SYM_USERS) \<and>
     validate_role_set (user_role_set u) (fl ! SYM_ROLES) \<and>
     validate_mls_semantic_range (sem_range u) (fl ! SYM_LEVELS) (fl ! SYM_CATS) \<and>
     validate_mls_semantic_level (sem_dfltlevel u) (fl ! SYM_LEVELS) (fl ! SYM_CATS) \<and>
     (mls p \<and> policy_type p \<noteq> POLICY_MOD \<longrightarrow> validate_mls_range (exp_range u) (fl ! SYM_LEVELS) (fl ! SYM_CATS)) \<and>
     (mls p \<and> policy_type p \<noteq> POLICY_MOD \<longrightarrow> validate_mls_level (exp_dfltlevel u) (fl ! SYM_LEVELS) (fl ! SYM_CATS)) \<and>
     (user_bounds u \<noteq> 0 \<longrightarrow> validate_value (user_bounds u) (fl ! SYM_USERS))"

definition validate_bool_datum :: "flavors \<Rightarrow> cond_bool_datum \<Rightarrow> bool" where
  "validate_bool_datum fl b \<longleftrightarrow> validate_value (bool_value b) (fl ! SYM_BOOLS) \<and> bstate b \<in> {0, 1} \<and> bflags b \<in> {0, 1}"

text \<open>A slot of an array of datums is \<open>NULL\<close> exactly where the names have a gap.\<close>

definition gaps_agree :: "'d option list \<Rightarrow> u32 \<Rightarrow> validate \<Rightarrow> bool" where
  "gaps_agree arr n f \<longleftrightarrow> (\<forall>i \<in> set [0..<unat n]. (arr ! i \<noteq> None) \<noteq> ebitmap_get_bit (gaps f) (of_nat i))"

definition validate_datum_array_gaps :: "policydb \<Rightarrow> flavors \<Rightarrow> bool" where
  "validate_datum_array_gaps p fl \<longleftrightarrow>
     gaps_agree (class_val_to_struct p) (nprim (p_classes p)) (fl ! SYM_CLASSES) \<and>
     gaps_agree (role_val_to_struct p) (nprim (p_roles p)) (fl ! SYM_ROLES) \<and>
     (\<not> attr_gaps p \<longrightarrow> gaps_agree (type_val_to_struct p) (nprim (p_types p)) (fl ! SYM_TYPES)) \<and>
     gaps_agree (user_val_to_struct p) (nprim (p_users p)) (fl ! SYM_USERS) \<and>
     gaps_agree (bool_val_to_struct p) (nprim (p_bools p)) (fl ! SYM_BOOLS)"

definition validate_datum_array_entries :: "policydb \<Rightarrow> flavors \<Rightarrow> bool" where
  "validate_datum_array_entries p fl \<longleftrightarrow>
     hashtab_check (\<lambda>_. validate_common_datum fl) (table (p_commons p)) \<and>
     hashtab_check (\<lambda>_. validate_class_datum fl) (table (p_classes p)) \<and>
     hashtab_check (\<lambda>_. validate_role_datum fl) (table (p_roles p)) \<and>
     hashtab_check (\<lambda>_. validate_type_datum p fl) (table (p_types p)) \<and>
     hashtab_check (\<lambda>_. validate_user_datum p fl) (table (p_users p)) \<and>
     (mls p \<longrightarrow> hashtab_check (\<lambda>_. validate_level_datum p fl) (table (p_levels p))) \<and>
     hashtab_check (\<lambda>_ d. value_isvalid (cat_value d) (fprim (fl ! SYM_CATS))) (table (p_cats p)) \<and>
     hashtab_check (\<lambda>_. validate_bool_datum fl) (table (p_bools p))"

section \<open>Rules of a kernel policy\<close>

abbreviation SEPOL_TARGET_SELINUX :: int where "SEPOL_TARGET_SELINUX \<equiv> 0"
abbreviation SEPOL_TARGET_XEN :: int where "SEPOL_TARGET_XEN \<equiv> 1"

definition validate_avtab_key :: "avtab_key \<Rightarrow> bool \<Rightarrow> policydb \<Rightarrow> flavors \<Rightarrow> bool" where
  "validate_avtab_key key conditional p fl \<longleftrightarrow>
     (if policy_type p = POLICY_KERN \<and> specified key AND AVTAB_TYPE \<noteq> 0
      then validate_simpletype (ucast (source_type key)) p fl \<and> validate_simpletype (ucast (target_type key)) p fl
      else validate_value (ucast (source_type key)) (fl ! SYM_TYPES) \<and> validate_value (ucast (target_type key)) (fl ! SYM_TYPES)) \<and>
     validate_value (ucast (target_class key)) (fl ! SYM_CLASSES) \<and>
     (let spec = 0xFFF AND specified key in
      if spec \<in> {AVTAB_ALLOWED, AVTAB_AUDITALLOW, AVTAB_AUDITDENY, AVTAB_TRANSITION, AVTAB_MEMBER, AVTAB_CHANGE} then True
      else if spec \<in> {AVTAB_XPERMS_ALLOWED, AVTAB_XPERMS_AUDITALLOW, AVTAB_XPERMS_DONTAUDIT}
      then target_platform p = SEPOL_TARGET_SELINUX \<and> \<not> conditional
      else False)"

definition validate_xperms :: "avtab_extended_perms \<Rightarrow> bool" where
  "validate_xperms x \<longleftrightarrow> xspecified x \<in> {1, 2, 3}"

definition PERMISSION_MASK :: "u32 \<Rightarrow> u32" where
  "PERMISSION_MASK n = (if n = PERM_SYMTAB_SIZE then NOT 0 else push_bit (unat n) 1 - 1)"

definition validate_access_vector :: "policydb \<Rightarrow> u16 \<Rightarrow> u32 \<Rightarrow> bool" where
  "validate_access_vector p tcl av \<longleftrightarrow>
     (let cladatum = the (val_struct (class_val_to_struct p) (ucast tcl)) in
      av AND PERMISSION_MASK (nprim (class_permissions cladatum)) \<noteq> 0)"

text \<open>The tests of the datum that the unconditional and the conditional rules share.\<close>

definition validate_rule_data :: "policydb \<Rightarrow> flavors \<Rightarrow> avtab_key \<Rightarrow> avtab_datum \<Rightarrow> bool" where
  "validate_rule_data p fl k d \<longleftrightarrow>
     (specified k AND AVTAB_AV \<noteq> 0 \<longrightarrow>
        validate_access_vector p (target_class k)
          (if 0xFFF AND specified k = AVTAB_AUDITDENY then NOT (data d) else data d)) \<and>
     (specified k AND AVTAB_TYPE \<noteq> 0 \<longrightarrow> validate_simpletype (data d) p fl)"

definition validate_avtab_key_and_datum :: "policydb \<Rightarrow> flavors \<Rightarrow> avtab_key \<Rightarrow> avtab_datum \<Rightarrow> unit \<Rightarrow> int \<times> unit" where
  "validate_avtab_key_and_datum p fl k d u =
     (if validate_avtab_key k False p fl \<and> validate_rule_data p fl k d \<and>
         (specified k AND AVTAB_XPERMS \<noteq> 0 \<longrightarrow> validate_xperms (the (xperms d)))
      then (0, u) else (- 1, u))"

definition validate_avtab :: "avtab \<Rightarrow> policydb \<Rightarrow> flavors \<Rightarrow> bool" where
  "validate_avtab tab p fl \<longleftrightarrow> fst (avtab_map tab (validate_avtab_key_and_datum p fl) ()) = 0"

text \<open>For a pointer to a node the rest of its chain is checked.\<close>

definition validate_cond_av_list :: "avtab_ptr list \<Rightarrow> policydb \<Rightarrow> flavors \<Rightarrow> bool" where
  "validate_cond_av_list l p fl \<longleftrightarrow>
     (\<forall>cur \<in> set l. \<forall>n \<in> set (drop (snd cur) (the (avtable (te_cond_avtab p)) ! fst cur)).
        validate_avtab_key (fst n) True p fl \<and> validate_rule_data p fl (fst n) (snd n))"

abbreviation AVRULE_TYPE :: u32 where "AVRULE_TYPE \<equiv> 0x70"
abbreviation AVRULE_NEVERALLOW :: u32 where "AVRULE_NEVERALLOW \<equiv> 0x80"
abbreviation AVRULE_XPERMS_NEVERALLOW :: u32 where "AVRULE_XPERMS_NEVERALLOW \<equiv> 0x800"
abbreviation AVRULE_XPERMS :: u32 where "AVRULE_XPERMS \<equiv> 0xf00"
abbreviation RULE_SELF :: u32 where "RULE_SELF \<equiv> 1"
abbreviation RULE_NOTSELF :: u32 where "RULE_NOTSELF \<equiv> 2"
abbreviation MOD_POLICYDB_VERSION_SELF_TYPETRANS :: u32 where "MOD_POLICYDB_VERSION_SELF_TYPETRANS \<equiv> 21"

text \<open>The code compares \<open>policyvers\<close> with \<open>POLICY_KERN\<close>, which is a policy type.\<close>

definition validate_avrule :: "avrule \<Rightarrow> bool \<Rightarrow> policydb \<Rightarrow> flavors \<Rightarrow> bool" where
  "validate_avrule r conditional p fl \<longleftrightarrow>
     validate_type_set (stypes r) (fl ! SYM_TYPES) \<and> validate_type_set (ttypes r) (fl ! SYM_TYPES) \<and>
     (if ar_specified r \<in> {0x01, 0x02, 0x04, 0x08, 0x10, 0x20, 0x40} then True
      else if ar_specified r \<in> {AVRULE_NEVERALLOW, 0x100, 0x200, 0x400, AVRULE_XPERMS_NEVERALLOW} then \<not> conditional
      else False) \<and>
     (\<forall>cp \<in> set (ar_perms r). validate_value (cp_class cp) (fl ! SYM_CLASSES) \<and>
        (ar_specified r AND AVRULE_TYPE \<noteq> 0 \<longrightarrow> validate_simpletype (cp_data cp) p fl)) \<and>
     (if ar_specified r AND AVRULE_XPERMS \<noteq> 0
      then target_platform p = SEPOL_TARGET_SELINUX \<and>
        (case ar_xperms r of None \<Rightarrow> False | Some x \<Rightarrow> ax_specified x \<in> {1, 2, 3})
      else ar_xperms r = None) \<and>
     (if ar_flags r = 0 then True
      else if ar_flags r = RULE_SELF
      then \<not> (policyvers p \<noteq> POLICY_KERN \<and> policyvers p < MOD_POLICYDB_VERSION_SELF_TYPETRANS \<and>
        ar_specified r AND AVRULE_TYPE \<noteq> 0)
      else if ar_flags r = RULE_NOTSELF
      then ar_specified r \<in> {AVRULE_NEVERALLOW, AVRULE_XPERMS_NEVERALLOW}
      else False)"

definition validate_avrules :: "avrule list \<Rightarrow> bool \<Rightarrow> policydb \<Rightarrow> flavors \<Rightarrow> bool" where
  "validate_avrules rs conditional p fl \<longleftrightarrow> (\<forall>r \<in> set rs. validate_avrule r conditional p fl)"

definition validate_bool_id_array :: "u32 list \<Rightarrow> u32 \<Rightarrow> validate \<Rightarrow> bool" where
  "validate_bool_id_array ids n f \<longleftrightarrow> \<not> n \<ge> of_nat COND_MAX_BOOLS \<and> (\<forall>i \<in> set [0..<unat n]. validate_value (ids ! i) f)"

fun validate_cond_exprs :: "cond_expr list \<Rightarrow> int \<Rightarrow> validate \<Rightarrow> bool" where
  "validate_cond_exprs [] depth f \<longleftrightarrow> depth = 0"
| "validate_cond_exprs (e # es) depth f \<longleftrightarrow>
     (if cexpr_type e = COND_BOOL
      then validate_value (boolean e) f \<and> \<not> depth \<ge> int COND_EXPR_MAXDEPTH - 1 \<and> validate_cond_exprs es (depth + 1) f
      else if cexpr_type e = COND_NOT
      then \<not> depth < 0 \<and> boolean e = 0 \<and> validate_cond_exprs es depth f
      else if cexpr_type e \<in> {COND_OR, COND_AND, COND_XOR, COND_EQ, COND_NEQ}
      then \<not> depth < 1 \<and> boolean e = 0 \<and> validate_cond_exprs es (depth - 1) f
      else False)"

definition validate_cond_expr :: "cond_expr list \<Rightarrow> validate \<Rightarrow> bool" where
  "validate_cond_expr e f \<longleftrightarrow> e \<noteq> [] \<and> validate_cond_exprs e (- 1) f"

definition validate_cond_node :: "cond_node \<Rightarrow> policydb \<Rightarrow> flavors \<Rightarrow> bool" where
  "validate_cond_node c p fl \<longleftrightarrow> validate_cond_expr (cexpr c) (fl ! SYM_BOOLS) \<and>
     validate_cond_av_list (true_list c) p fl \<and> validate_cond_av_list (false_list c) p fl \<and>
     validate_avrules (avtrue_list c) True p fl \<and> validate_avrules (avfalse_list c) True p fl \<and>
     validate_bool_id_array (bool_ids c) (nbools c) (fl ! SYM_BOOLS) \<and>
     cur_state c \<in> {0, 1} \<and> cflags c \<in> {0, 1}"

definition validate_cond_list :: "cond_node list \<Rightarrow> policydb \<Rightarrow> flavors \<Rightarrow> bool" where
  "validate_cond_list cs p fl \<longleftrightarrow> (\<forall>c \<in> set cs. validate_cond_node c p fl)"

definition validate_role_transes :: "role_trans list \<Rightarrow> flavors \<Rightarrow> bool" where
  "validate_role_transes rts fl \<longleftrightarrow> (\<forall>rt \<in> set rts. validate_value (rtr_role rt) (fl ! SYM_ROLES) \<and>
     validate_value (rtr_type rt) (fl ! SYM_TYPES) \<and> validate_value (rtr_tclass rt) (fl ! SYM_CLASSES) \<and>
     validate_value (new_role rt) (fl ! SYM_ROLES))"

definition validate_role_allows :: "role_allow list \<Rightarrow> flavors \<Rightarrow> bool" where
  "validate_role_allows ras fl \<longleftrightarrow> (\<forall>ra \<in> set ras. validate_value (ra_role ra) (fl ! SYM_ROLES) \<and>
     validate_value (ra_new_role ra) (fl ! SYM_ROLES))"

definition validate_filename_trans ::
  "policydb \<Rightarrow> flavors \<Rightarrow> filename_trans_key \<Rightarrow> filename_trans_datum list \<Rightarrow> bool" where
  "validate_filename_trans p fl ftk ftds \<longleftrightarrow> validate_value (ttype ftk) (fl ! SYM_TYPES) \<and>
     validate_value (tclass ftk) (fl ! SYM_CLASSES) \<and> ftds \<noteq> [] \<and>
     (\<forall>ftd \<in> set ftds. validate_ebitmap (ft_stypes ftd) (fl ! SYM_TYPES) \<and> validate_simpletype (otype ftd) p fl)"

definition validate_filename_trans_hashtab :: "policydb \<Rightarrow> flavors \<Rightarrow> bool" where
  "validate_filename_trans_hashtab p fl \<longleftrightarrow> hashtab_check (validate_filename_trans p fl) (filename_trans p)"

section \<open>Contexts and labels\<close>

definition validate_context :: "context_struct \<Rightarrow> flavors \<Rightarrow> bool \<Rightarrow> bool" where
  "validate_context c fl is_mls \<longleftrightarrow> validate_value (cuser c) (fl ! SYM_USERS) \<and>
     validate_value (crole c) (fl ! SYM_ROLES) \<and> validate_value (ctype c) (fl ! SYM_TYPES) \<and>
     (is_mls \<longrightarrow> validate_mls_range (crange c) (fl ! SYM_LEVELS) (fl ! SYM_CATS))"

text \<open>One list of \<open>ocontexts\<close>: the context of every entry, and the test of its kind.\<close>

definition validate_ocon :: "policydb \<Rightarrow> flavors \<Rightarrow> ('u ocontext \<Rightarrow> bool) \<Rightarrow> 'u ocontext list \<Rightarrow> bool" where
  "validate_ocon p fl kind cs \<longleftrightarrow> (\<forall>c \<in> set cs. validate_context (context0 c) fl (mls p) \<and> kind c)"

abbreviation SELINUX_SID_SZ :: u32 where "SELINUX_SID_SZ \<equiv> 28"
abbreviation XEN_SID_SZ :: u32 where "XEN_SID_SZ \<equiv> 13"
abbreviation POLICYDB_VERSION_XEN_DEVICETREE :: u32 where "POLICYDB_VERSION_XEN_DEVICETREE \<equiv> 30"

definition validate_ocontexts :: "policydb \<Rightarrow> flavors \<Rightarrow> bool" where
  "validate_ocontexts p fl \<longleftrightarrow>
     (let selinux = (target_platform p = SEPOL_TARGET_SELINUX); xen = (target_platform p = SEPOL_TARGET_XEN);
          second = (\<lambda>c. selinux \<longrightarrow> validate_context (context1 c) fl (mls p)) in
      validate_ocon p fl (\<lambda>c. (selinux \<longrightarrow> \<not> (sid0 c = 0 \<or> sid0 c \<ge> SELINUX_SID_SZ)) \<and>
        (xen \<longrightarrow> \<not> (sid0 c = 0 \<or> sid0 c \<ge> XEN_SID_SZ))) (ocon_isid p) \<and>
      validate_ocon p fl second (ocon_fs p) \<and>
      validate_ocon p fl (\<lambda>c. selinux \<longrightarrow> \<not> low_port (ocon_u c) > high_port (ocon_u c)) (ocon_port p) \<and>
      validate_ocon p fl second (ocon_netif p) \<and>
      validate_ocon p fl (\<lambda>_. True) (ocon_node p) \<and>
      validate_ocon p fl (\<lambda>c. selinux \<longrightarrow> ocon_v c \<in> {1, 2, 3}) (ocon_fsuse p) \<and>
      validate_ocon p fl (\<lambda>_. True) (ocon_node6 p) \<and>
      validate_ocon p fl (\<lambda>c. selinux \<longrightarrow> \<not> low_pkey (ocon_u c) > high_pkey (ocon_u c)) (ocon_ibpkey p) \<and>
      validate_ocon p fl (\<lambda>c. selinux \<longrightarrow> ibport (ocon_u c) \<noteq> 0) (ocon_ibendport p) \<and>
      validate_ocon p fl (\<lambda>_. True) (ocon_pirq p) \<and>
      validate_ocon p fl (\<lambda>c. xen \<longrightarrow> \<not> low_ioport (ocon_u c) > high_ioport (ocon_u c)) (ocon_ioport p) \<and>
      validate_ocon p fl (\<lambda>c. xen \<longrightarrow> \<not> low_iomem (ocon_u c) > high_iomem (ocon_u c) \<and>
        \<not> (policyvers p < POLICYDB_VERSION_XEN_DEVICETREE \<and> high_iomem (ocon_u c) > 0xFFFFFFFF)) (ocon_iomem p) \<and>
      validate_ocon p fl (\<lambda>_. True) (ocon_pcidevice p) \<and>
      validate_ocon p fl (\<lambda>_. True) (ocon_devicetree p))"

definition validate_genfs :: "policydb \<Rightarrow> flavors \<Rightarrow> bool" where
  "validate_genfs p fl \<longleftrightarrow> (\<forall>g \<in> set (genfs_list p). \<forall>c \<in> set (genfs_head g).
     validate_context (context0 c) fl (mls p) \<and> (ocon_v c \<noteq> 0 \<longrightarrow> validate_value (ocon_v c) (fl ! SYM_CLASSES)))"

section \<open>Module policies\<close>

definition validate_role_trans_rules :: "role_trans_rule list \<Rightarrow> flavors \<Rightarrow> bool" where
  "validate_role_trans_rules rs fl \<longleftrightarrow> (\<forall>r \<in> set rs. validate_role_set (rtx_roles r) (fl ! SYM_ROLES) \<and>
     validate_type_set (rtx_types r) (fl ! SYM_TYPES) \<and> validate_ebitmap (rtx_classes r) (fl ! SYM_CLASSES) \<and>
     validate_value (rtx_new_role r) (fl ! SYM_ROLES))"

definition validate_role_allow_rules :: "role_allow_rule list \<Rightarrow> flavors \<Rightarrow> bool" where
  "validate_role_allow_rules rs fl \<longleftrightarrow> (\<forall>r \<in> set rs. validate_role_set (rax_roles r) (fl ! SYM_ROLES) \<and>
     validate_role_set (rax_new_roles r) (fl ! SYM_ROLES))"

definition validate_range_trans_rules :: "range_trans_rule list \<Rightarrow> flavors \<Rightarrow> bool" where
  "validate_range_trans_rules rs fl \<longleftrightarrow> (\<forall>r \<in> set rs. validate_type_set (rgx_stypes r) (fl ! SYM_TYPES) \<and>
     validate_type_set (rgx_ttypes r) (fl ! SYM_TYPES) \<and> validate_ebitmap (rgx_tclasses r) (fl ! SYM_CLASSES) \<and>
     validate_mls_semantic_range (rgx_trange r) (fl ! SYM_LEVELS) (fl ! SYM_CATS))"

definition validate_scope_index :: "scope_index \<Rightarrow> flavors \<Rightarrow> bool" where
  "validate_scope_index si fl \<longleftrightarrow> ebitmap_is_empty (si_scope si ! SYM_COMMONS) \<and>
     validate_ebitmap (si_scope si ! SYM_CLASSES) (fl ! SYM_CLASSES) \<and>
     validate_ebitmap (si_scope si ! SYM_ROLES) (fl ! SYM_ROLES) \<and>
     validate_ebitmap (si_scope si ! SYM_TYPES) (fl ! SYM_TYPES) \<and>
     validate_ebitmap (si_scope si ! SYM_USERS) (fl ! SYM_USERS) \<and>
     validate_ebitmap (si_scope si ! SYM_BOOLS) (fl ! SYM_BOOLS) \<and>
     validate_ebitmap (si_scope si ! SYM_LEVELS) (fl ! SYM_LEVELS) \<and>
     validate_ebitmap (si_scope si ! SYM_CATS) (fl ! SYM_CATS) \<and>
     (\<forall>i \<in> set [0..<length (class_perms_map si)]. validate_value (of_nat i + 1) (fl ! SYM_CLASSES))"

definition validate_filename_trans_rules :: "filename_trans_rule list \<Rightarrow> policydb \<Rightarrow> flavors \<Rightarrow> bool" where
  "validate_filename_trans_rules rs p fl \<longleftrightarrow> (\<forall>r \<in> set rs. validate_type_set (fx_stypes r) (fl ! SYM_TYPES) \<and>
     validate_type_set (fx_ttypes r) (fl ! SYM_TYPES) \<and> validate_value (fx_tclass r) (fl ! SYM_CLASSES) \<and>
     validate_simpletype (fx_otype r) p fl \<and>
     (if fx_flags r = 0 then True
      else if fx_flags r = RULE_SELF
      then \<not> (policyvers p \<noteq> POLICY_KERN \<and> policyvers p < MOD_POLICYDB_VERSION_SELF_TYPETRANS)
      else False))"

definition validate_symtabs :: "u32 symtab list \<Rightarrow> flavors \<Rightarrow> bool" where
  "validate_symtabs tabs fl \<longleftrightarrow>
     (\<forall>i \<in> set [0..<SYM_NUM]. hashtab_check (\<lambda>_ v. value_isvalid v (fprim (fl ! i))) (table (tabs ! i)))"

definition validate_avrule_decl :: "avrule_decl \<Rightarrow> policydb \<Rightarrow> flavors \<Rightarrow> bool" where
  "validate_avrule_decl d p fl \<longleftrightarrow> validate_cond_list (d_cond_list d) p fl \<and> validate_avrules (d_avrules d) False p fl \<and>
     validate_role_trans_rules (role_tr_rules d) fl \<and> validate_role_allow_rules (role_allow_rules d) fl \<and>
     validate_range_trans_rules (range_tr_rules d) fl \<and> validate_scope_index (required d) fl \<and>
     validate_scope_index (declared d) fl \<and> validate_filename_trans_rules (filename_trans_rules d) p fl \<and>
     validate_symtabs (d_symtab d) fl"

definition validate_avrule_blocks :: "avrule_block list \<Rightarrow> policydb \<Rightarrow> flavors \<Rightarrow> bool" where
  "validate_avrule_blocks bs p fl \<longleftrightarrow>
     (\<forall>b \<in> set bs. (\<forall>d \<in> set (branch_list b). validate_avrule_decl d p fl) \<and> block_flags b \<in> {0, 1})"

section \<open>The whole policy\<close>

definition validate_permissives :: "policydb \<Rightarrow> flavors \<Rightarrow> bool" where
  "validate_permissives p fl \<longleftrightarrow> (\<forall>i \<in> set (ebitmap_positive_bits (permissive_map p)). validate_simpletype i p fl)"

definition validate_range_transition :: "flavors \<Rightarrow> range_trans \<Rightarrow> mls_range \<Rightarrow> bool" where
  "validate_range_transition fl rt r \<longleftrightarrow> validate_value (rt_source_type rt) (fl ! SYM_TYPES) \<and>
     validate_value (rt_target_type rt) (fl ! SYM_TYPES) \<and> validate_value (rt_target_class rt) (fl ! SYM_CLASSES) \<and>
     validate_mls_range r (fl ! SYM_LEVELS) (fl ! SYM_CATS)"

definition validate_range_transitions :: "policydb \<Rightarrow> flavors \<Rightarrow> bool" where
  "validate_range_transitions p fl \<longleftrightarrow> hashtab_check (validate_range_transition fl) (range_tr p)"

text \<open>An array that is \<open>NULL\<close> is the empty list.\<close>

definition validate_type_maps :: "ebitmap list \<Rightarrow> policydb \<Rightarrow> flavors \<Rightarrow> bool" where
  "validate_type_maps maps p fl \<longleftrightarrow>
     (if policy_type p = POLICY_KERN
      then \<forall>i \<in> set [0..<unat (nprim (p_types p))]. validate_ebitmap (maps ! i) (fl ! SYM_TYPES)
      else maps = [])"

definition validate_typeattr_map :: "policydb \<Rightarrow> flavors \<Rightarrow> bool" where
  "validate_typeattr_map p fl = validate_type_maps (type_attr_map p) p fl"

definition validate_attrtype_map :: "policydb \<Rightarrow> flavors \<Rightarrow> bool" where
  "validate_attrtype_map p fl = validate_type_maps (attr_type_map p) p fl"

definition validate_properties :: "policydb \<Rightarrow> bool" where
  "validate_properties p \<longleftrightarrow>
     (if policy_type p = POLICY_KERN
      then \<not> (policyvers p < 15 \<or> policyvers p > 33) \<and> \<not> (mls p \<and> policyvers p < 19)
      else if policy_type p = POLICY_BASE \<or> policy_type p = POLICY_MOD
      then \<not> (policyvers p < 4 \<or> policyvers p > 21) \<and> \<not> (mls p \<and> policyvers p < 5)
      else False) \<and>
     target_platform p \<in> {SEPOL_TARGET_SELINUX, SEPOL_TARGET_XEN} \<and> handle_unknown p \<in> {0, 2, 4}"

definition polcap_names :: "string list" where
  "polcap_names = [''network_peer_controls'', ''open_perms'', ''extended_socket_class'', ''always_check_network'',
     ''cgroup_seclabel'', ''nnp_nosuid_transition'', ''genfs_seclabel_symlinks'', ''ioctl_skip_cloexec'',
     ''userspace_initial_context'', ''netlink_xperm'']"

abbreviation POLICYDB_CAP_MAX :: u32 where "POLICYDB_CAP_MAX \<equiv> 9"

definition sepol_polcap_getname :: "u32 \<Rightarrow> string option" where
  "sepol_polcap_getname capnum = (if capnum > POLICYDB_CAP_MAX then None else Some (polcap_names ! unat capnum))"

definition validate_policycaps :: "policydb \<Rightarrow> bool" where
  "validate_policycaps p \<longleftrightarrow> (\<forall>i \<in> set (ebitmap_positive_bits (policycaps p)). sepol_polcap_getname i \<noteq> None)"

abbreviation POLICYDB_VERSION_BOOL :: u32 where "POLICYDB_VERSION_BOOL \<equiv> 16"
abbreviation POLICYDB_VERSION_FILENAME_TRANS :: u32 where "POLICYDB_VERSION_FILENAME_TRANS \<equiv> 25"

definition validate_policy_rules :: "policydb \<Rightarrow> flavors \<Rightarrow> bool" where
  "validate_policy_rules p fl \<longleftrightarrow>
     (if policy_type p = POLICY_KERN
      then validate_avtab (te_avtab p) p fl \<and>
        (policyvers p \<ge> POLICYDB_VERSION_BOOL \<longrightarrow> validate_cond_list (cond_list p) p fl) \<and>
        validate_role_transes (role_tr p) fl \<and> validate_role_allows (role_allows p) fl \<and>
        (policyvers p \<ge> POLICYDB_VERSION_FILENAME_TRANS \<longrightarrow> validate_filename_trans_hashtab p fl)
      else validate_avrule_blocks (p_global p) p fl)"

definition policydb_validate :: "policydb \<Rightarrow> heap \<Rightarrow> heap result" where
  "policydb_validate p h =
     bind_res (validate_array_init p h) (\<lambda>(fl, h).
       if validate_properties p \<and> validate_policycaps p \<and> validate_policy_rules p fl \<and>
          validate_ocontexts p fl \<and> validate_genfs p fl \<and> validate_scopes (p_scope p) (p_global p) \<and>
          validate_datum_array_gaps p fl \<and> validate_datum_array_entries p fl \<and> validate_permissives p fl \<and>
          validate_range_transitions p fl \<and> validate_typeattr_map p fl \<and> validate_attrtype_map p fl
       then Inr h else Inl FAIL)"

end
