(* ===== verification/Validate_Expr.thy ===== *)
theory Validate_Expr
  imports Validate Reload Sample_Policy
begin

text \<open>
  What the checks of values, bitmaps, constraints, conditional expressions and permission tables accept. A
  list of operators and operands is accepted exactly when it is the postfix form of a formula that the
  evaluator can hold on its stack.
\<close>

unbundle bit_operations_syntax

section \<open>Values\<close>

text \<open>The values that a flavor accepts.\<close>

definition valid :: "validate \<Rightarrow> u32 set" where
  "valid f = {v. v \<noteq> 0 \<and> v \<le> fprim f \<and> unat (v - 1) \<notin> ebitmap_set (gaps f)}"

definition flavor_wf :: "validate \<Rightarrow> bool" where
  "flavor_wf f \<longleftrightarrow> ebitmap_wf (gaps f)"

lemma validate_value_iff: "flavor_wf f \<Longrightarrow> validate_value v f \<longleftrightarrow> v \<in> valid f"
  by (auto simp: validate_value_def valid_def flavor_wf_def ebitmap_get_bit_correct)

lemma set_small: "ebitmap_wf e \<Longrightarrow> b \<in> ebitmap_set e \<Longrightarrow> b < 2 ^ 32"
  by (fastforce simp: ebitmap_set_def ebitmap_wf_def nodes_wf_def node_ok_def)

lemma set_nonempty:
  assumes "ebitmap_wf e" "node e \<noteq> []"
  shows "ebitmap_set e \<noteq> {}"
proof -
  obtain n where n: "n \<in> set (node e)" "node_ok n"
    using assms by (cases "node e") (auto simp: ebitmap_wf_def nodes_wf_def)
  then have "node_map n \<noteq> 0" by (simp add: node_ok_def)
  then obtain k where "bit (node_map n) k" using bit_eqI [of "node_map n" 0] by auto
  then have "unat (startbit n) + k \<in> ebitmap_set e"
    using n(1) bit_imp_le_length [of "node_map n" k] by (auto simp: ebitmap_set_def intro!: bexI [of _ n])
  then show ?thesis by blast
qed

lemma word_succ_le:
  assumes "(i :: u32) < n"
  shows "i + 1 \<noteq> 0 \<and> i + 1 \<le> n"
proof -
  have "unat n < 2 ^ 32" using unsigned_less [of n] by simp
  then have "unat (i + 1) = unat i + 1"
    using assms by (subst unat_add_lt) (simp_all add: word_less_nat_alt)
  then show ?thesis using assms by (auto simp: word_less_nat_alt word_le_nat_alt)
qed

lemma highest_below:
  assumes "ebitmap_wf e"
  shows "ebitmap_length e > 0 \<and> ebitmap_highest_set_bit e \<ge> n \<longleftrightarrow> (\<exists>b \<in> ebitmap_set e. unat n \<le> b)"
proof (cases "node e = []")
  case True
  then show ?thesis by (simp add: ebitmap_length_def ebitmap_set_def)
next
  case False
  then have ne: "ebitmap_set e \<noteq> {}" using assms set_nonempty by blast
  have "unat (highbit e) \<noteq> 0"
    using False assms by (simp add: ebitmap_wf_def nodes_end_def)
  then have "highbit e \<noteq> 0" by auto
  then have "ebitmap_length e > 0" using False by (simp add: ebitmap_length_def word_gt_0)
  moreover have "n \<le> ebitmap_highest_set_bit e \<longleftrightarrow> unat n \<le> Max (ebitmap_set e)"
    using ebitmap_highest_set_bit_correct [OF assms ne] by (simp add: word_le_nat_alt)
  ultimately show ?thesis using ne by (simp add: Max_ge_iff)
qed

lemma validate_ebitmap_iff:
  assumes "flavor_wf f" "ebitmap_wf e"
  shows "validate_ebitmap e f \<longleftrightarrow> (\<forall>i. ebitmap_get_bit e i \<longrightarrow> i + 1 \<in> valid f \<and> i < fprim f)"
proof -
  have "validate_ebitmap e f \<longleftrightarrow> (\<forall>b \<in> ebitmap_set e. b < unat (fprim f) \<and> b \<notin> ebitmap_set (gaps f))"
    unfolding validate_ebitmap_def highest_below [OF assms(2)]
    using assms by (auto simp: ebitmap_match_any_correct flavor_wf_def not_le)
  also have "\<dots> \<longleftrightarrow> (\<forall>i. ebitmap_get_bit e i \<longrightarrow> i < fprim f \<and> unat i \<notin> ebitmap_set (gaps f))"
  proof (intro iffI allI impI ballI)
    fix i assume a: "\<forall>b \<in> ebitmap_set e. b < unat (fprim f) \<and> b \<notin> ebitmap_set (gaps f)" "ebitmap_get_bit e i"
    then show "i < fprim f \<and> unat i \<notin> ebitmap_set (gaps f)"
      using assms(2) by (simp add: ebitmap_get_bit_correct word_less_nat_alt)
  next
    fix b assume a: "\<forall>i. ebitmap_get_bit e i \<longrightarrow> i < fprim f \<and> unat i \<notin> ebitmap_set (gaps f)" "b \<in> ebitmap_set e"
    have u: "unat (of_nat b :: u32) = b" using set_small [OF assms(2) a(2)] by (simp add: unat_of_nat_lt)
    then have "ebitmap_get_bit e (of_nat b)" using a(2) assms(2) by (simp add: ebitmap_get_bit_correct)
    then show "b < unat (fprim f) \<and> b \<notin> ebitmap_set (gaps f)" using a(1) u by (auto simp: word_less_nat_alt)
  qed
  also have "\<dots> \<longleftrightarrow> (\<forall>i. ebitmap_get_bit e i \<longrightarrow> i + 1 \<in> valid f \<and> i < fprim f)"
  proof -
    have "i + 1 \<noteq> 0 \<and> i + 1 \<le> fprim f" if "i < fprim f" for i
      using that by (rule word_succ_le)
    then show ?thesis by (auto simp: valid_def)
  qed
  finally show ?thesis .
qed

section \<open>Conditional expressions\<close>

text \<open>A list of operators and operands is parsed with a stack of formulas, the top first; \<open>depth\<close> is its height minus 1.\<close>

definition leaves :: "cond_tree \<Rightarrow> u32 set" where
  "leaves t = expr_bools (postfix t)"

definition stack_fits :: "('t \<Rightarrow> nat) \<Rightarrow> nat \<Rightarrow> 't list \<Rightarrow> bool" where
  "stack_fits need m ts \<longleftrightarrow> (\<forall>i < length ts. i + need (rev ts ! i) \<le> m)"

lemma stack_fits_Cons: "stack_fits need m (t # ts) \<longleftrightarrow> length ts + need t \<le> m \<and> stack_fits need m ts"
  by (auto simp: stack_fits_def nth_append less_Suc_eq)

lemma stack_fits_Nil [simp]: "stack_fits need m []"
  by (simp add: stack_fits_def)

lemma expr_bool_ids_simps [simp]:
  "expr_bools [] = {}"
  "expr_bools (e # es) = (if cexpr_type e = COND_BOOL then insert (boolean e) (expr_bools es) else expr_bools es)"
  "expr_bools (es @ fs) = expr_bools es \<union> expr_bools fs"
  by (auto simp: expr_bools_def)

lemma validate_cond_parse:
  assumes "validate_cond_exprs es (int (length ts) - 1) f" "flavor_wf f"
    and "\<forall>t \<in> set ts. tree_ok t \<and> leaves t \<subseteq> valid f" "stack_fits stack_need COND_EXPR_MAXDEPTH ts"
  shows "\<exists>t. concat (map postfix (rev ts)) @ es = postfix t \<and> tree_ok t \<and> leaves t \<subseteq> valid f \<and>
    stack_need t \<le> COND_EXPR_MAXDEPTH"
  using assms
proof (induction es arbitrary: ts)
  case Nil
  then obtain t where "ts = [t]" by (cases ts; cases "tl ts") auto
  then show ?case using Nil.prems by (auto simp: stack_fits_Cons)
next
  case (Cons e es)
  consider (bool) "cexpr_type e = COND_BOOL" | (neg) "cexpr_type e = COND_NOT"
    | (bin) "cexpr_type e \<in> {COND_OR, COND_AND, COND_XOR, COND_EQ, COND_NEQ}"
    using Cons.prems(1) by (auto split: if_splits)
  then show ?case
  proof cases
    case bool
    then have v: "validate_value (boolean e) f" "length ts < COND_EXPR_MAXDEPTH"
      "validate_cond_exprs es (int (length (Leaf (boolean e) # ts)) - 1) f"
      using Cons.prems(1) by auto
    have "e = \<lparr>cexpr_type = COND_BOOL, boolean = boolean e\<rparr>" using bool by simp
    then show ?thesis
      using Cons.IH [OF v(3)] Cons.prems(2-4) v(1,2) by (auto simp: validate_value_iff leaves_def stack_fits_Cons)
  next
    case neg
    then obtain t ts' where ts: "ts = t # ts'" using Cons.prems(1) by (cases ts) auto
    have v: "boolean e = 0" "validate_cond_exprs es (int (length (Neg t # ts')) - 1) f"
      using Cons.prems(1) neg ts by auto
    have "e = \<lparr>cexpr_type = COND_NOT, boolean = 0\<rparr>" using neg v(1) by simp
    then show ?thesis
      using Cons.IH [OF v(2)] Cons.prems(2-4) ts by (auto simp: leaves_def stack_fits_Cons)
  next
    case bin
    then have n: "cexpr_type e \<noteq> COND_BOOL" "cexpr_type e \<noteq> COND_NOT" "cond_binop (cexpr_type e) \<noteq> None"
      by (auto simp: cond_binop_def)
    have v: "\<not> int (length ts) - 1 < 1" "boolean e = 0" "validate_cond_exprs es (int (length ts) - 1 - 1) f"
      using Cons.prems(1) bin n(1,2) by (auto split: if_splits)
    then obtain u t ts' where ts: "ts = u # t # ts'" by (cases ts; cases "tl ts") auto
    have e: "e = \<lparr>cexpr_type = cexpr_type e, boolean = 0\<rparr>" using v(2) by simp
    let ?b = "Bin (cexpr_type e) t u"
    have "validate_cond_exprs es (int (length (?b # ts')) - 1) f" using v(3) ts by simp
    from Cons.IH [OF this] obtain w where w: "concat (map postfix (rev (?b # ts'))) @ es = postfix w"
      "tree_ok w" "leaves w \<subseteq> valid f" "stack_need w \<le> COND_EXPR_MAXDEPTH"
      using Cons.prems(2-4) ts n nat_add_max_right [of "length ts'" "stack_need t" "Suc (stack_need u)"]
      by (auto simp: leaves_def stack_fits_Cons)
    moreover have "concat (map postfix (rev ts)) @ e # es = concat (map postfix (rev (?b # ts'))) @ es"
      using ts e by simp
    ultimately show ?thesis by metis
  qed
qed

lemma validate_cond_postfix:
  assumes "tree_ok t" "- 1 \<le> d" "flavor_wf f"
  shows "validate_cond_exprs (postfix t @ es) d f \<longleftrightarrow>
    d + 1 + int (stack_need t) \<le> int COND_EXPR_MAXDEPTH \<and> leaves t \<subseteq> valid f \<and> validate_cond_exprs es (d + 1) f"
  using assms
proof (induction t arbitrary: d es)
  case (Leaf b)
  then show ?case by (auto simp: leaves_def validate_value_iff)
next
  case (Neg t)
  then show ?case by (auto simp: leaves_def)
next
  case (Bin ty t u)
  have ty: "ty \<in> {COND_OR, COND_AND, COND_XOR, COND_EQ, COND_NEQ}"
    using Bin.prems(1) by (auto simp: cond_binop_def split: if_splits)
  have op: "validate_cond_exprs (\<lparr>cexpr_type = ty, boolean = 0\<rparr> # es) (d + 1 + 1) f \<longleftrightarrow> validate_cond_exprs es (d + 1) f"
  proof -
    have n: "ty \<noteq> COND_BOOL" "ty \<noteq> COND_NOT" "\<not> d + 1 + 1 < 1" "d + 1 + 1 - 1 = d + 1"
      using Bin.prems(1,2) by simp_all
    show ?thesis
      unfolding validate_cond_exprs.simps cond_expr.select_convs n(4) if_not_P [OF n(1)] if_not_P [OF n(2)] if_P [OF ty]
      using n(3) by simp
  qed
  have "max (stack_need t) (1 + stack_need u) = (if stack_need t \<le> 1 + stack_need u then 1 + stack_need u else stack_need t)"
    by simp
  then show ?case
    using Bin.IH(1) [of d "postfix u @ \<lparr>cexpr_type = ty, boolean = 0\<rparr> # es"]
      Bin.IH(2) [of "d + 1" "\<lparr>cexpr_type = ty, boolean = 0\<rparr> # es"] Bin.prems op ty
    by (auto simp: leaves_def)
qed

lemma validate_cond_iff:
  assumes "flavor_wf f"
  shows "validate_cond_expr e f \<longleftrightarrow>
    (\<exists>t. e = postfix t \<and> tree_ok t \<and> stack_need t \<le> COND_EXPR_MAXDEPTH \<and> expr_bools e \<subseteq> valid f)"
proof
  assume "validate_cond_expr e f"
  then show "\<exists>t. e = postfix t \<and> tree_ok t \<and> stack_need t \<le> COND_EXPR_MAXDEPTH \<and> expr_bools e \<subseteq> valid f"
    using validate_cond_parse [of e "[]" f] assms by (auto simp: validate_cond_expr_def leaves_def)
next
  assume "\<exists>t. e = postfix t \<and> tree_ok t \<and> stack_need t \<le> COND_EXPR_MAXDEPTH \<and> expr_bools e \<subseteq> valid f"
  then obtain t where t: "e = postfix t" "tree_ok t" "stack_need t \<le> COND_EXPR_MAXDEPTH" "leaves t \<subseteq> valid f"
    by (auto simp: leaves_def)
  have "postfix t \<noteq> []" by (cases t) auto
  then show "validate_cond_expr e f"
    using validate_cond_postfix [OF t(2) _ assms, of "- 1" "[]"] t by (simp add: validate_cond_expr_def)
qed

section \<open>Constraint expressions\<close>

text \<open>The bitmaps of an expression are well formed, as the reader leaves them.\<close>

definition cexpr_wf :: "constraint_expr \<Rightarrow> bool" where
  "cexpr_wf e \<longleftrightarrow> ebitmap_wf (cnames e) \<and> ebitmap_wf (ts_types (type_names e)) \<and> ebitmap_wf (negset (type_names e))"

definition operand_ok :: "flavors \<Rightarrow> bool \<Rightarrow> constraint_expr \<Rightarrow> bool" where
  "operand_ok fl vt e \<longleftrightarrow> expr_type e = CEXPR_NAMES \<and> validate_cexpr_names fl vt e \<or>
     expr_type e = CEXPR_ATTR \<and> validate_cexpr_attr e"

definition operator :: "u32 \<Rightarrow> constraint_expr" where
  "operator ty = \<lparr>expr_type = ty, cattr = 0, cop = 0, cnames = ebitmap_init, type_names = type_set_init\<rparr>"

lemma empty_is_init: "ebitmap_wf e \<Longrightarrow> ebitmap_is_empty e \<Longrightarrow> e = ebitmap_init"
  by (cases e) (simp add: ebitmap_wf_def nodes_end_def ebitmap_is_empty_def ebitmap_init_def unat_eq_0)

lemma validate_operator_iff:
  assumes "cexpr_wf e"
  shows "validate_cexpr_operator e \<longleftrightarrow> e = operator (expr_type e)"
proof
  assume v: "validate_cexpr_operator e"
  obtain t n f where ts: "type_names e = \<lparr>ts_types = t, negset = n, ts_flags = f\<rparr>" by (cases "type_names e")
  have "cnames e = ebitmap_init" "t = ebitmap_init" "n = ebitmap_init" "f = 0" "cop e = 0" "cattr e = 0"
    using v assms ts by (auto simp: validate_cexpr_operator_def validate_empty_type_set_def cexpr_wf_def empty_is_init)
  then show "e = operator (expr_type e)" using ts by (simp add: operator_def type_set_init_def)
next
  assume "e = operator (expr_type e)"
  then have "cop e = 0" "cattr e = 0" "cnames e = ebitmap_init" "type_names e = type_set_init"
    by (metis operator_def constraint_expr.select_convs)+
  then show "validate_cexpr_operator e"
    by (simp add: validate_cexpr_operator_def validate_empty_type_set_def type_set_init_def ebitmap_is_empty_def ebitmap_init_def)
qed

lemma cons_postfix_operator:
  "cons_postfix (CNot t) = cons_postfix t @ [operator CEXPR_NOT]"
  "cons_postfix (CAnd t u) = cons_postfix t @ cons_postfix u @ [operator CEXPR_AND]"
  "cons_postfix (COr t u) = cons_postfix t @ cons_postfix u @ [operator CEXPR_OR]"
  by (simp_all add: operator_def)

lemma validate_cexprs_operator:
  "validate_cexprs fl vt (operator CEXPR_NOT # es) d \<longleftrightarrow> \<not> d < 0 \<and> validate_cexprs fl vt es d"
  "ty \<in> {CEXPR_AND, CEXPR_OR} \<Longrightarrow> validate_cexprs fl vt (operator ty # es) d \<longleftrightarrow> \<not> d < 1 \<and> validate_cexprs fl vt es (d - 1)"
proof -
  have "cexpr_wf (operator ty)" for ty
    by (simp add: cexpr_wf_def operator_def type_set_init_def ebitmap_wf_def ebitmap_init_def nodes_end_def)
  then have v: "validate_cexpr_operator (operator ty)" for ty
    by (subst validate_operator_iff) (simp_all add: operator_def)
  have t: "expr_type (operator ty) = ty" for ty by (simp add: operator_def)
  show "validate_cexprs fl vt (operator CEXPR_NOT # es) d \<longleftrightarrow> \<not> d < 0 \<and> validate_cexprs fl vt es d"
    by (simp add: t v)
  show "validate_cexprs fl vt (operator ty # es) d \<longleftrightarrow> \<not> d < 1 \<and> validate_cexprs fl vt es (d - 1)"
    if "ty \<in> {CEXPR_AND, CEXPR_OR}"
    using that by (auto simp: t v)
qed

declare cons_postfix.simps(2-4) [simp del]
declare cons_postfix_operator [simp] validate_cexprs_operator [simp]

lemma validate_operand:
  "operand_ok fl vt e \<Longrightarrow> validate_cexprs fl vt (e # es) d \<longleftrightarrow> \<not> d \<ge> 4 \<and> validate_cexprs fl vt es (d + 1)"
  by (auto simp: operand_ok_def)

declare validate_cexprs.simps(2) [simp del]

lemma validate_cexprs_ops:
  assumes "validate_cexprs fl vt (e # es) d" "expr_type e \<in> {CEXPR_NOT, CEXPR_AND, CEXPR_OR}" "cexpr_wf e"
  shows "e = operator (expr_type e)"
  using assms(1,2) validate_operator_iff [OF assms(3)] unfolding validate_cexprs.simps(2) by auto

lemma validate_cexprs_parse:
  assumes "validate_cexprs fl vt es (int (length ts) - 1)" "\<forall>e \<in> set es. cexpr_wf e"
    and "\<forall>t \<in> set ts. \<forall>e \<in> cons_atoms t. operand_ok fl vt e" "stack_fits cons_need CEXPR_MAXDEPTH ts"
  shows "\<exists>t. concat (map cons_postfix (rev ts)) @ es = cons_postfix t \<and> (\<forall>e \<in> cons_atoms t. operand_ok fl vt e) \<and>
    cons_need t \<le> CEXPR_MAXDEPTH"
  using assms
proof (induction es arbitrary: ts)
  case Nil
  then obtain t where "ts = [t]" by (cases ts; cases "tl ts") auto
  then show ?case using Nil.prems by (auto simp: stack_fits_Cons)
next
  case (Cons e es)
  have wf: "cexpr_wf e" "\<forall>e \<in> set es. cexpr_wf e" using Cons.prems(2) by auto
  consider (atom) "operand_ok fl vt e" | (neg) "expr_type e = CEXPR_NOT" | (bin) "expr_type e \<in> {CEXPR_AND, CEXPR_OR}"
    using Cons.prems(1) unfolding validate_cexprs.simps(2) by (auto simp: operand_ok_def split: if_splits)
  then show ?case
  proof cases
    case atom
    then have v: "length ts < CEXPR_MAXDEPTH" "validate_cexprs fl vt es (int (length (Atom e # ts)) - 1)"
      using Cons.prems(1) validate_operand [OF atom] by auto
    then show ?thesis using Cons.IH [OF v(2) wf(2)] Cons.prems(3,4) atom by (auto simp: stack_fits_Cons)
  next
    case neg
    then have "e = operator CEXPR_NOT" using validate_cexprs_ops [OF Cons.prems(1) _ wf(1)] by auto
    moreover from this obtain t ts' where ts: "ts = t # ts'" using Cons.prems(1) by (cases ts) auto
    ultimately have v: "validate_cexprs fl vt es (int (length (CNot t # ts')) - 1)" "e = operator CEXPR_NOT"
      using Cons.prems(1) by auto
    then show ?thesis using Cons.IH [OF v(1) wf(2)] Cons.prems(3,4) ts by (auto simp: stack_fits_Cons)
  next
    case bin
    then have e: "e = operator (expr_type e)"
      using validate_cexprs_ops [OF Cons.prems(1) _ wf(1)] by auto
    then have v: "\<not> int (length ts) - 1 < 1" "validate_cexprs fl vt es (int (length ts) - 1 - 1)"
      using Cons.prems(1) bin validate_cexprs_operator(2) by metis+
    from v(1) obtain u t ts' where ts: "ts = u # t # ts'" by (cases ts; cases "tl ts") auto
    define b where "b = (if expr_type e = CEXPR_AND then CAnd t u else COr t u)"
    have b: "cons_postfix b = cons_postfix t @ cons_postfix u @ [e]" "cons_atoms b = cons_atoms t \<union> cons_atoms u"
      "cons_need b = max (cons_need t) (1 + cons_need u)"
      using bin e by (auto simp: b_def simp del: cons_postfix_operator simp: cons_postfix_operator [folded operator_def])
    have "validate_cexprs fl vt es (int (length (b # ts')) - 1)" using v(2) ts by simp
    from Cons.IH [OF this wf(2)] obtain w where w: "concat (map cons_postfix (rev (b # ts'))) @ es = cons_postfix w"
      "\<forall>e \<in> cons_atoms w. operand_ok fl vt e" "cons_need w \<le> CEXPR_MAXDEPTH"
      using Cons.prems(3,4) ts b nat_add_max_right [of "length ts'" "cons_need t" "Suc (cons_need u)"]
      by (auto simp: stack_fits_Cons)
    moreover have "concat (map cons_postfix (rev ts)) @ e # es = concat (map cons_postfix (rev (b # ts'))) @ es"
      using ts b(1) by simp
    ultimately show ?thesis by metis
  qed
qed

lemma validate_cexprs_postfix:
  assumes "- 1 \<le> d" "\<forall>e \<in> cons_atoms t. operand_ok fl vt e"
  shows "validate_cexprs fl vt (cons_postfix t @ es) d \<longleftrightarrow>
    d + 1 + int (cons_need t) \<le> int CEXPR_MAXDEPTH \<and> validate_cexprs fl vt es (d + 1)"
  using assms
proof (induction t arbitrary: d es)
  case (Atom e)
  then have "operand_ok fl vt e" by simp
  from validate_operand [OF this, of es d] show ?case by auto
next
  case (CNot t)
  then show ?case by auto
next
  case (CAnd t u)
  then show ?case
    using CAnd.IH(1) [of d "cons_postfix u @ operator CEXPR_AND # es"] CAnd.IH(2) [of "d + 1" "operator CEXPR_AND # es"]
    by (auto simp: add.commute)
next
  case (COr t u)
  then show ?case
    using COr.IH(1) [of d "cons_postfix u @ operator CEXPR_OR # es"] COr.IH(2) [of "d + 1" "operator CEXPR_OR # es"]
    by (auto simp: add.commute)
qed

text \<open>An operand that was accepted has a value in every context.\<close>

lemma attr_bits [simp]:
  "CEXPR_USER AND CEXPR_TARGET = 0" "CEXPR_USER AND CEXPR_XTARGET = 0"
  by simp_all

lemma operand_known:
  assumes "operand_ok fl vt e" "vt \<longrightarrow> xc \<noteq> None"
  shows "is_operand e \<and> atom_val p sc tc xc e \<noteq> None"
  using assms(1) unfolding operand_ok_def
proof (elim disjE conjE)
  assume ty: "expr_type e = CEXPR_NAMES" and v: "validate_cexpr_names fl vt e"
  have "xc \<noteq> None \<or> cattr e AND CEXPR_XTARGET = 0"
    using v assms(2) by (auto simp: validate_cexpr_names_def)
  moreover have "cattr e \<in> {CEXPR_USER, CEXPR_USER OR CEXPR_TARGET, CEXPR_USER OR CEXPR_XTARGET,
      CEXPR_ROLE, CEXPR_ROLE OR CEXPR_TARGET, CEXPR_ROLE OR CEXPR_XTARGET,
      CEXPR_TYPE, CEXPR_TYPE OR CEXPR_TARGET, CEXPR_TYPE OR CEXPR_XTARGET}" "cop e \<in> {CEXPR_EQ, CEXPR_NEQ}"
    using v by (auto simp: validate_cexpr_names_def split: if_splits)
  ultimately have "cexpr_names sc tc xc e \<noteq> None"
    by (auto simp: cexpr_names_def)
  then show ?thesis using ty by (simp add: is_operand_def atom_val_def)
next
  assume ty: "expr_type e = CEXPR_ATTR" and v: "validate_cexpr_attr e"
  have "cexpr_attr p sc tc e \<noteq> None"
    using v by (auto simp: validate_cexpr_attr_def cexpr_attr_def cexpr_compare_def cexpr_role_def cexpr_levels_def Let_def split: if_splits)
  then show ?thesis using ty by (simp add: is_operand_def atom_val_def)
qed

section \<open>Tables\<close>

definition table_entries :: "('k, 'd) hashtab option \<Rightarrow> ('k \<times> 'd) set" where
  "table_entries t = (case t of None \<Rightarrow> {} | Some h \<Rightarrow> set (concat (htable h)))"

lemma hashtab_check_iff: "hashtab_check f t \<longleftrightarrow> (\<forall>(k, d) \<in> table_entries t. f k d)"
  by (cases t) (auto simp: hashtab_check_def hashtab_map_def [of None] table_entries_def hashtab_map_entries chain_apply_all
      simp del: set_concat)

lemma visited_bit: "k < 32 \<Longrightarrow> push_bit k (1 :: u32) AND v = 0 \<longleftrightarrow> \<not> bit v k"
  using bit_AND_push_1 [of k v] unfolding and.commute [of "push_bit k 1"] by auto

lemma visited_or: "k < 32 \<Longrightarrow> bit (v OR push_bit k (1 :: u32)) j \<longleftrightarrow> bit v j \<or> j = k"
  unfolding bit_or_iff bit_push_bit_iff bit_1_iff by auto

abbreviation value_of :: "string \<times> perm_datum \<Rightarrow> u32" where
  "value_of \<equiv> \<lambda>e. perm_value (snd e)"

definition free_value :: "u32 \<Rightarrow> u32 \<Rightarrow> u32 \<Rightarrow> bool" where
  "free_value n m v \<longleftrightarrow> m < v \<and> v \<le> n"

lemma free_value_iff: "value_isvalid v n \<and> \<not> (m \<noteq> 0 \<and> value_isvalid v m) \<longleftrightarrow> free_value n m v"
  by (auto simp: value_isvalid_def free_value_def not_le word_gt_0)

lemma perm_visit_chain:
  assumes "n \<le> 32"
  shows "fst (chain_apply (perm_visit n m) xs visited) = 0 \<longleftrightarrow>
    (\<forall>e \<in> set xs. free_value n m (value_of e) \<and> \<not> bit visited (unat (value_of e - 1))) \<and> distinct (map value_of xs)"
proof (induction xs arbitrary: visited)
  case (Cons e xs)
  obtain k d where e: "e = (k, d)" by (cases e)
  show ?case
  proof (cases "free_value n m (perm_value d)")
    case True
    then have "perm_value d \<le> n" "perm_value d \<noteq> 0" by (auto simp: free_value_def)
    then have "unat (perm_value d - 1) < 32" using assms by (simp add: word_le_nat_alt unat_minus_one unat_gt_0)
    then have v: "push_bit (unat (perm_value d - 1)) (1 :: u32) AND visited = 0 \<longleftrightarrow> \<not> bit visited (unat (perm_value d - 1))"
      "bit (visited OR push_bit (unat (perm_value d - 1)) 1) j \<longleftrightarrow> bit visited j \<or> j = unat (perm_value d - 1)" for j
      by (rule visited_bit, rule visited_or)
    have eq: "unat (x - 1) = unat (perm_value d - 1) \<longleftrightarrow> x = perm_value d" for x by (metis diff_add_cancel word_eq_unatI)
    have ok: "value_isvalid (perm_value d) n" "\<not> (m \<noteq> 0 \<and> value_isvalid (perm_value d) m)"
      using True free_value_iff by blast+
    define V where "V = visited OR push_bit (unat (perm_value d - 1)) 1"
    have "perm_visit n m k d visited = (if bit visited (unat (perm_value d - 1)) then (- 1, visited) else (0, V))"
      unfolding perm_visit_def V_def using ok v(1) by (simp only: simp_thms if_True if_False if_not_P [OF ok(2)] split: if_split)
    then show ?thesis using Cons.IH [of V] True
      by (auto simp: e v(2) [folded V_def] eq image_iff)
  next
    case False
    then have "fst (perm_visit n m k d visited) \<noteq> 0" using free_value_iff by (auto simp: perm_visit_def)
    then show ?thesis using False by (auto simp: e split: prod.split)
  qed
qed simp

lemma card_word_interval: "card {(a :: u32)<..b} = unat b - unat a"
proof -
  have "unat ` {a<..b} = {unat a<..unat b}"
  proof (intro set_eqI iffI)
    fix k assume k: "k \<in> {unat a<..unat b}"
    moreover have "unat b < 2 ^ 32" using unsigned_less [of b] by simp
    ultimately have "k < 2 ^ 32" by simp
    then have "unat (of_nat k :: u32) = k" by (simp add: unat_of_nat_lt)
    then show "k \<in> unat ` {a<..b}" using k by (intro image_eqI [of _ _ "of_nat k"]) (auto simp: word_less_nat_alt word_le_nat_alt)
  qed (auto simp: word_less_nat_alt word_le_nat_alt)
  moreover have "inj_on (unat :: u32 \<Rightarrow> nat) {a<..b}" by (intro inj_onI) (simp add: word_eq_unatI)
  ultimately show ?thesis by (metis card_image card_greaterThanAtMost)
qed

text \<open>A table of \<open>n - m\<close> permissions that was accepted numbers them from \<open>m + 1\<close> to \<open>n\<close>.\<close>

lemma permission_numbers:
  assumes "validate_permission_symtab s m" "nprim s \<le> 32" "table s = Some h" "hashtab_wf h" "unat (nel h) = unat (nprim s) - unat m"
  shows "bij_betw value_of (table_entries (table s)) {m<..nprim s}"
proof -
  let ?xs = "concat (htable h)"
  have "fst (chain_apply (perm_visit (nprim s) m) ?xs 0) = 0"
    using assms(1,3) by (simp add: validate_permission_symtab_def hashtab_map_entries)
  then have v: "\<forall>e \<in> set ?xs. free_value (nprim s) m (value_of e)" "distinct (map value_of ?xs)"
    using perm_visit_chain [OF assms(2)] by blast+
  have inj: "inj_on value_of (set ?xs)" "distinct ?xs" using v(2) by (auto simp: distinct_map)
  have sub: "value_of ` set ?xs \<subseteq> {m<..nprim s}"
    using v(1) by (intro image_subsetI) (simp add: free_value_def del: set_concat)
  have "card (value_of ` set ?xs) = length ?xs" using inj by (simp only: card_image distinct_card)
  also have "\<dots> = card {m<..nprim s}" using assms(4,5) by (simp add: hashtab_wf_def card_word_interval)
  finally have "value_of ` set ?xs = {m<..nprim s}" using sub by (intro card_subset_eq) simp_all
  then show ?thesis using inj(1) assms(3) by (simp add: bij_betw_def table_entries_def)
qed

section \<open>Properties\<close>

definition perms_in_class :: "u32 \<Rightarrow> constraint_node \<Rightarrow> bool" where
  "perms_in_class nperms c \<longleftrightarrow>
     (if nperms = UINT32_MAX then permissions c = 0
      else permissions c \<noteq> 0 \<and> (nperms = 32 \<or> permissions c < push_bit (unat nperms) 1))"

lemma constraint_node_iff:
  assumes "\<forall>e \<in> set (cnode_expr c). cexpr_wf e"
  shows "validate_constraint_node nperms fl c \<longleftrightarrow> perms_in_class nperms c \<and>
    (\<exists>t. cnode_expr c = cons_postfix t \<and> cons_need t \<le> CEXPR_MAXDEPTH \<and>
      (\<forall>e \<in> cons_atoms t. operand_ok fl (nperms = UINT32_MAX) e))"
proof -
  let ?vt = "nperms = UINT32_MAX"
  have "cnode_expr c \<noteq> [] \<and> validate_cexprs fl ?vt (cnode_expr c) (- 1) \<longleftrightarrow>
    (\<exists>t. cnode_expr c = cons_postfix t \<and> cons_need t \<le> CEXPR_MAXDEPTH \<and> (\<forall>e \<in> cons_atoms t. operand_ok fl ?vt e))"
    (is "?l \<longleftrightarrow> ?r")
  proof
    assume ?l
    then show ?r using validate_cexprs_parse [of fl ?vt "cnode_expr c" "[]"] assms by auto
  next
    assume ?r
    then obtain t where t: "cnode_expr c = cons_postfix t" "cons_need t \<le> CEXPR_MAXDEPTH" "\<forall>e \<in> cons_atoms t. operand_ok fl ?vt e"
      by blast
    have "cons_postfix t \<noteq> []" by (cases t) auto
    then show ?l using validate_cexprs_postfix [OF _ t(3), of "- 1" "[]"] t(1,2) by simp
  qed
  moreover have "validate_constraint_node nperms fl c \<longleftrightarrow>
      perms_in_class nperms c \<and> cnode_expr c \<noteq> [] \<and> validate_cexprs fl ?vt (cnode_expr c) (- 1)"
    unfolding validate_constraint_node_def perms_in_class_def Let_def by (cases ?vt) (simp_all only: if_True if_False simp_thms de_Morgan_conj not_not not_le conj_assoc)
  ultimately show ?thesis by (simp only:)
qed

lemma constraint_evaluates:
  assumes "validate_constraint_node nperms fl c" "\<forall>e \<in> set (cnode_expr c). cexpr_wf e"
  shows "\<exists>t. cnode_expr c = cons_postfix t \<and> (\<forall>p sc tc xc. (nperms = UINT32_MAX \<longrightarrow> xc \<noteq> None) \<longrightarrow>
    (\<forall>h. fst (constraint_expr_eval p sc tc xc c h) =
      (if False \<in> set (take (constraint_allocs (cnode_expr c)) h) then Inl ENOMEM
       else Inr (cons_holds (atom_val p sc tc xc) t))))"
proof -
  obtain t where t: "cnode_expr c = cons_postfix t" "cons_need t \<le> CEXPR_MAXDEPTH"
    "\<forall>e \<in> cons_atoms t. operand_ok fl (nperms = UINT32_MAX) e"
    using assms constraint_node_iff by blast
  have "fst (constraint_expr_eval p sc tc xc c h) =
      (if False \<in> set (take (constraint_allocs (cnode_expr c)) h) then Inl ENOMEM
       else Inr (cons_holds (atom_val p sc tc xc) t))"
    if "nperms = UINT32_MAX \<longrightarrow> xc \<noteq> None" for p sc tc xc h
  proof -
    have "\<forall>e \<in> cons_atoms t. is_operand e \<and> atom_val p sc tc xc e \<noteq> None"
      using t(3) operand_known [OF _ that] by blast
    then show ?thesis by (rule constraint_evaluated [OF _ t(2,1)])
  qed
  then show ?thesis using t(1) by blast
qed

text \<open>
  C14: Constraints. The check accepts exactly the constraints on permissions of the class whose list is the postfix form of
  a formula over operands it knows, with a need of five stack cells at most. The evaluator computes the formula
  of such a list in every context: it never runs out of its stack, and the only error is \<open>-ENOMEM\<close>, which it returns exactly
  when one of its buffers, whose number depends on the list alone, cannot be allocated.
\<close>

theorem validate_constraint_formula:
  assumes "\<forall>e \<in> set (cnode_expr c). cexpr_wf e"
  shows "(validate_constraint_node nperms fl c \<longleftrightarrow> perms_in_class nperms c \<and>
      (\<exists>t. cnode_expr c = cons_postfix t \<and> cons_need t \<le> CEXPR_MAXDEPTH \<and>
        (\<forall>e \<in> cons_atoms t. operand_ok fl (nperms = UINT32_MAX) e))) \<and>
    (validate_constraint_node nperms fl c \<longrightarrow>
      (\<exists>t. cnode_expr c = cons_postfix t \<and> (\<forall>p sc tc xc. (nperms = UINT32_MAX \<longrightarrow> xc \<noteq> None) \<longrightarrow>
        (\<forall>h. fst (constraint_expr_eval p sc tc xc c h) =
          (if False \<in> set (take (constraint_allocs (cnode_expr c)) h) then Inl ENOMEM
           else Inr (cons_holds (atom_val p sc tc xc) t))))))"
  using constraint_node_iff [OF assms] constraint_evaluates [OF _ assms] by blast

definition sample_constraint :: constraint_node where
  "sample_constraint = \<lparr>permissions = 1, cnode_expr = cons_postfix (CNot (Atom same_user))\<rparr>"

theorem validate_constraint_formula_witness:
  "validate_constraint_node 1 [] sample_constraint \<and>
   (\<exists>t. cnode_expr sample_constraint = cons_postfix t \<and> (\<forall>p sc tc.
     fst (constraint_expr_eval p sc tc None sample_constraint []) = Inr (cons_holds (atom_val p sc tc None) t)))"
proof -
  have "\<forall>e \<in> set (cnode_expr sample_constraint). cexpr_wf e"
    by (simp add: sample_constraint_def same_user_def operator_def cexpr_wf_def type_set_init_def ebitmap_wf_def nodes_end_def ebitmap_init_def)
  note r = validate_constraint_formula [OF this, of 1 "[]"]
  have v: "validate_constraint_node 1 [] sample_constraint" by code_simp
  then obtain t where t: "cnode_expr sample_constraint = cons_postfix t"
    "\<forall>p sc tc xc. \<forall>h. fst (constraint_expr_eval p sc tc xc sample_constraint h) =
      (if False \<in> set (take (constraint_allocs (cnode_expr sample_constraint)) h) then Inl ENOMEM
       else Inr (cons_holds (atom_val p sc tc xc) t))"
    using r [THEN conjunct2, THEN mp, OF v] by fastforce
  have "fst (constraint_expr_eval p sc tc None sample_constraint []) = Inr (cons_holds (atom_val p sc tc None) t)" for p sc tc
    using t(2) by simp
  then show ?thesis using v t(1) by blast
qed

lemma cond_formula_value:
  assumes "flavor_wf f" "validate_cond_expr e f" "bools_01 bs \<and> (\<forall>b \<in> valid f. bool_known bs b)"
  shows "cond_evaluate_expr bs e \<in> {0, 1}"
proof -
  obtain t where t: "e = postfix t" "tree_ok t" "stack_need t \<le> COND_EXPR_MAXDEPTH" "expr_bools e \<subseteq> valid f"
    using validate_cond_iff [OF assms(1)] assms(2) by blast
  then have "tree_val bs t \<in> {0, 1}" using tree_val_01 assms(3) by blast
  then show ?thesis
    using eval_postfix [OF t(2), of "[]" bs "[]"] t(1,3) by (simp add: cond_evaluate_expr_def)
qed

text \<open>
  C15: Conditional expressions. The check accepts exactly the postfix forms of formulas over known booleans that need ten
  stack cells at most, and on these the evaluator returns 0 or 1, when the booleans are 0 or 1.
\<close>

theorem validate_cond_formula:
  assumes "flavor_wf f"
  shows "(validate_cond_expr e f \<longleftrightarrow>
      (\<exists>t. e = postfix t \<and> tree_ok t \<and> stack_need t \<le> COND_EXPR_MAXDEPTH \<and> expr_bools e \<subseteq> valid f)) \<and>
    (validate_cond_expr e f \<and> bools_01 bs \<and> (\<forall>b \<in> valid f. bool_known bs b) \<longrightarrow> cond_evaluate_expr bs e \<in> {0, 1})"
  using validate_cond_iff [OF assms] cond_formula_value [OF assms] by blast

theorem validate_cond_formula_witness:
  "validate_cond_expr (postfix (Neg (Leaf 1))) \<lparr>fprim = 1, gaps = ebitmap_init\<rparr> \<and>
   cond_evaluate_expr [Some \<lparr>bool_value = 1, bstate = 1, bflags = 0\<rparr>] (postfix (Neg (Leaf 1))) \<in> {0, 1}"
proof -
  let ?f = "\<lparr>fprim = 1, gaps = ebitmap_init\<rparr>" and ?bs = "[Some \<lparr>bool_value = 1, bstate = 1, bflags = 0\<rparr>]"
  have wf: "flavor_wf ?f" by (simp add: flavor_wf_def ebitmap_wf_def ebitmap_init_def nodes_end_def)
  have v: "validate_cond_expr (postfix (Neg (Leaf 1))) ?f" by code_simp
  have "b = 1" if "b \<in> valid ?f" for b
    using that word_le_nat_alt [of b 1] unat_gt_0 [of b] by (auto simp: valid_def intro: word_eq_unatI)
  moreover have "bool_known ?bs 1" by (simp add: bool_known_def val_struct_def)
  ultimately have "bools_01 ?bs \<and> (\<forall>b \<in> valid ?f. bool_known ?bs b)"
    unfolding bools_01_def by (metis (no_types, lifting) cond_bool_datum.select_convs(2) insertCI list.set(1) list.set(2) option.simps(5) singletonD)
  then show ?thesis using validate_cond_formula [OF wf, of "postfix (Neg (Leaf 1))" ?bs] v by blast
qed

definition inherited :: "class_datum \<Rightarrow> u32" where
  "inherited c = (case comdatum c of None \<Rightarrow> 0 | Some com \<Rightarrow> nprim (common_permissions com))"

lemma common_numbers:
  assumes "validate_common_datum fl com" "table_wf symhash symcmp (table (common_permissions com))"
  shows "bij_betw value_of (table_entries (table (common_permissions com))) {0<..nprim (common_permissions com)}"
proof -
  obtain h where h: "table (common_permissions com) = Some h" "hashtab_wf h"
    using assms(2) by (rule table_wfE) (auto simp: keyed_table_def)
  then show ?thesis using assms(1)
    by (intro permission_numbers) (auto simp: validate_common_datum_def table_nel_def not_less)
qed

lemma class_numbers:
  assumes "validate_class_datum fl c" "table_wf symhash symcmp (table (class_permissions c))"
  shows "bij_betw value_of (table_entries (table (class_permissions c))) {inherited c<..nprim (class_permissions c)}"
proof -
  obtain h where h: "table (class_permissions c) = Some h" "hashtab_wf h"
    using assms(2) by (rule table_wfE) (auto simp: keyed_table_def)
  let ?n = "nprim (class_permissions c)"
  have le: "nel h \<le> 32" "inherited c \<le> 32" "?n \<le> 32" "?n = nel h + inherited c"
    and v: "validate_permission_symtab (class_permissions c) (inherited c)"
    using assms(1) h(1) by (auto simp: validate_class_datum_def validate_common_datum_def inherited_def table_nel_def not_less
        split: option.splits)
  have "unat (nel h) \<le> 32" "unat (inherited c) \<le> 32" using le(1,2) by (simp_all add: word_le_nat_alt)
  then have "unat ?n = unat (nel h) + unat (inherited c)" unfolding le(4) by (subst unat_add_lt) simp_all
  then show ?thesis using permission_numbers [OF v le(3) h] by simp
qed

text \<open>
  C16: Permissions. In a class that was accepted the permissions of the common are numbered from 1, and those of the class
  from there up to the number of permissions: each bit of an access vector belongs to exactly one permission.
\<close>

theorem validate_class_permissions:
  assumes "validate_class_datum fl c" "table_wf symhash symcmp (table (class_permissions c))"
    and "\<forall>com. comdatum c = Some com \<longrightarrow> table_wf symhash symcmp (table (common_permissions com))"
  shows "bij_betw value_of (table_entries (table (class_permissions c))) {inherited c<..nprim (class_permissions c)} \<and>
    (\<forall>com. comdatum c = Some com \<longrightarrow> bij_betw value_of (table_entries (table (common_permissions com))) {0<..inherited c}) \<and>
    nprim (class_permissions c) \<le> 32"
proof (intro conjI allI impI)
  fix com assume com: "comdatum c = Some com"
  then have "validate_common_datum fl com" using assms(1) by (simp add: validate_class_datum_def)
  then show "bij_betw value_of (table_entries (table (common_permissions com))) {0<..inherited c}"
    using common_numbers [of fl com] assms(3) com by (simp add: inherited_def)
qed (use class_numbers [OF assms(1,2)] assms(1) in \<open>auto simp: validate_class_datum_def not_less\<close>)

theorem validate_class_permissions_witness:
  "bij_betw value_of (table_entries (table (class_permissions process_datum))) {0<..1}"
proof -
  let ?fl = "replicate 8 \<lparr>fprim = 1, gaps = ebitmap_init\<rparr>"
  have v: "validate_class_datum ?fl process_datum" by code_simp
  have "table_wf symhash symcmp (table (class_permissions process_datum))"
    by (simp add: process_datum_def one_chain_def table_wf_def keyed_table_def hashtab_wf_def chains_wf_def chain_sorted_def)
  from validate_class_permissions [OF v this] show ?thesis
    by (simp add: process_datum_def inherited_def one_chain_def)
qed

end
