(* ===== verification/Hierarchy.thy ===== *)
theory Hierarchy
  imports Optimize_Rules Sample_Policy
begin

text \<open>
  The bounds of types, roles and users (\<open>hierarchy.c\<close>): a bounded type may have no permission that
  its parent lacks, a bounded role no type, a bounded user no role.

  The rules of the parent are expanded into temporary tables, one for the unconditional rules and two for
  each conditional. A \<open>struct bounds_args\<close> is the state of a traversal; its messages are left out. A chain
  of bad rules is a list of nodes. The datums of the symbol tables and the arrays \<open>*_val_to_struct\<close>
  share their memory in C; here the bounds of a datum are set in both places.
\<close>

unbundle bit_operations_syntax

section \<open>The rules of the parent\<close>

abbreviation BOUNDS_AVTAB_SIZE :: u32 where "BOUNDS_AVTAB_SIZE \<equiv> 1024"

abbreviation allow_key :: "u32 \<Rightarrow> u32 \<Rightarrow> u32 \<Rightarrow> avtab_key" where
  "allow_key s t c \<equiv> \<lparr>source_type = ucast s, target_type = ucast t, target_class = ucast c, specified = AVTAB_ALLOWED\<rparr>"

abbreviation plain_datum :: "u32 \<Rightarrow> avtab_datum" where
  "plain_datum d \<equiv> \<lparr>data = d, xperms = None\<rparr>"

definition bounds_insert_helper :: "avtab \<Rightarrow> avtab_key \<Rightarrow> avtab_datum \<Rightarrow> heap \<Rightarrow> (avtab \<times> heap) result" where
  "bounds_insert_helper tab key datum h = (case avtab_insert tab key datum h of
       (Inl e, _, _) \<Rightarrow> Inl e
     | (Inr _, tab, h) \<Rightarrow> Inr (tab, h))"

text \<open>\<open>dup->data |= x\<close> for the datum that \<open>avtab_search\<close> returned.\<close>

fun or_first :: "avtab_key \<Rightarrow> u32 \<Rightarrow> avtab_node list \<Rightarrow> avtab_node list" where
  "or_first key x [] = []"
| "or_first key x (n # ns) =
     (if node_matches key (key_spec key) n then (fst n, (snd n)\<lparr>data := data (snd n) OR x\<rparr>) # ns
      else n # or_first key x ns)"

definition avtab_or_data :: "avtab \<Rightarrow> avtab_key \<Rightarrow> u32 \<Rightarrow> avtab" where
  "avtab_or_data tab key x =
     (let i = unat (avtab_hash key (avmask tab)) in set_chain i (or_first key x (chain_of i tab)) tab)"

text \<open>
  The arguments \<open>global\<close> and \<open>other\<close> are \<open>NULL\<close> together; \<open>other\<close> is only read.
\<close>

definition bounds_insert_rule ::
  "avtab \<Rightarrow> (avtab \<times> avtab) option \<Rightarrow> avtab_key \<Rightarrow> avtab_datum \<Rightarrow> heap \<Rightarrow> ((avtab \<times> (avtab \<times> avtab) option) \<times> heap) result" where
  "bounds_insert_rule tab go key datum h =
     bind_res (case avtab_search tab key of
         None \<Rightarrow> bounds_insert_helper tab key datum h
       | Some dup \<Rightarrow> Inr (avtab_or_data tab key (data datum), h)) (\<lambda>(tab, h).
     case go of
       None \<Rightarrow> Inr ((tab, None), h)
     | Some (global, other) \<Rightarrow> (case avtab_search other key of
         None \<Rightarrow> Inr ((tab, Some (global, other)), h)
       | Some dup \<Rightarrow>
           let d = data dup AND data datum in
           if d = 0 then Inr ((tab, Some (global, other)), h)
           else (case avtab_search global key of
               None \<Rightarrow> bind_res (bounds_insert_helper global key (plain_datum d) h) (\<lambda>(global, h).
                 Inr ((tab, Some (global, other)), h))
             | Some dup \<Rightarrow> Inr ((tab, Some (avtab_or_data global key d, other)), h))))"

fun bounds_expand_targets ::
  "avtab \<Rightarrow> (avtab \<times> avtab) option \<Rightarrow> u32 \<Rightarrow> u32 list \<Rightarrow> u32 \<Rightarrow> u32 \<Rightarrow> heap \<Rightarrow> ((avtab \<times> (avtab \<times> avtab) option) \<times> heap) result" where
  "bounds_expand_targets tab go parent [] cls d h = Inr ((tab, go), h)"
| "bounds_expand_targets tab go parent (i # is) cls d h =
     bind_res (bounds_insert_rule tab go (allow_key parent (i + 1) cls) (plain_datum d) h) (\<lambda>((tab, go), h).
       bounds_expand_targets tab go parent is cls d h)"

definition bounds_expand_rule ::
  "policydb \<Rightarrow> avtab \<Rightarrow> (avtab \<times> avtab) option \<Rightarrow> u32 \<Rightarrow> u32 \<Rightarrow> u32 \<Rightarrow> u32 \<Rightarrow> u32 \<Rightarrow> heap \<Rightarrow>
    ((avtab \<times> (avtab \<times> avtab) option) \<times> heap) result" where
  "bounds_expand_rule p tab go parent src tgt cls d h =
     (if ebitmap_get_bit (attr_type_map p ! unat (src - 1)) (parent - 1)
      then bounds_expand_targets tab go parent (ebitmap_positive_bits (attr_type_map p ! unat (tgt - 1))) cls d h
      else Inr ((tab, go), h))"

definition expand_node ::
  "policydb \<Rightarrow> avtab \<Rightarrow> (avtab \<times> avtab) option \<Rightarrow> u32 \<Rightarrow> avtab_node \<Rightarrow> heap \<Rightarrow> ((avtab \<times> (avtab \<times> avtab) option) \<times> heap) result" where
  "expand_node p tab go parent n h =
     bounds_expand_rule p tab go parent (ucast (source_type (fst n))) (ucast (target_type (fst n)))
       (ucast (target_class (fst n))) (data (snd n)) h"

fun bounds_expand_cond_rules ::
  "policydb \<Rightarrow> avtab_ptr list \<Rightarrow> avtab \<Rightarrow> (avtab \<times> avtab) option \<Rightarrow> u32 \<Rightarrow> heap \<Rightarrow> ((avtab \<times> (avtab \<times> avtab) option) \<times> heap) result" where
  "bounds_expand_cond_rules p [] tab go parent h = Inr ((tab, go), h)"
| "bounds_expand_cond_rules p (cur # l) tab go parent h =
     bind_res (expand_node p tab go parent (ptr_node (te_cond_avtab p) cur) h) (\<lambda>((tab, go), h).
       bounds_expand_cond_rules p l tab go parent h)"

text \<open>The state of the traversal is the table, or the error after which it stops.\<close>

definition bounds_expand_rule_callback ::
  "policydb \<Rightarrow> u32 \<Rightarrow> avtab_key \<Rightarrow> avtab_datum \<Rightarrow> (avtab \<times> heap) result \<Rightarrow> int \<times> (avtab \<times> heap) result" where
  "bounds_expand_rule_callback p parent k d r = (case r of
       Inl e \<Rightarrow> (- 1, r)
     | Inr (tab, h) \<Rightarrow>
         if specified k AND AVTAB_ALLOWED = 0 then (0, r)
         else (case expand_node p tab None parent (k, d) h of
             Inl e \<Rightarrow> (- 1, Inl e)
           | Inr ((tab, _), h) \<Rightarrow> (0, Inr (tab, h))))"

record bounds_cond_info =
  true_avtab :: avtab
  false_avtab :: avtab
  ci_node :: cond_node

definition no_table :: avtab where
  "no_table = \<lparr>avtable = None, avnel = 0, nslot = 0, avmask = 0\<rparr>"

definition expand_true :: "policydb \<Rightarrow> cond_node \<Rightarrow> u32 \<Rightarrow> heap \<Rightarrow> (avtab \<times> heap) result" where
  "expand_true p cur parent h =
     (if true_list cur = [] then Inr (no_table, h)
      else bind_res (avtab_alloc no_table BOUNDS_AVTAB_SIZE h) (\<lambda>(tab, h).
        bind_res (bounds_expand_cond_rules p (true_list cur) tab None parent h) (\<lambda>((tab, _), h). Inr (tab, h))))"

definition expand_false ::
  "policydb \<Rightarrow> cond_node \<Rightarrow> avtab \<Rightarrow> avtab \<Rightarrow> u32 \<Rightarrow> heap \<Rightarrow> ((avtab \<times> avtab) \<times> heap) result" where
  "expand_false p cur global ttab parent h =
     (if false_list cur = [] then Inr ((no_table, global), h)
      else bind_res (avtab_alloc no_table BOUNDS_AVTAB_SIZE h) (\<lambda>(tab, h).
        bind_res (bounds_expand_cond_rules p (false_list cur) tab (Some (global, ttab)) parent h) (\<lambda>((tab, go), h).
          Inr ((tab, fst (the go)), h))))"

text \<open>
  The loop over the conditionals. When the allocation of a \<open>bounds_cond_info\<close> fails the code jumps to
  \<open>oom\<close> while \<open>rc\<close> is 0: the caller is told of success, with the table destroyed and no list.
\<close>

fun expand_conds ::
  "policydb \<Rightarrow> cond_node list \<Rightarrow> avtab \<Rightarrow> bounds_cond_info list \<Rightarrow> u32 \<Rightarrow> heap \<Rightarrow> ((avtab \<times> bounds_cond_info list) \<times> heap) result" where
  "expand_conds p [] global cond_info parent h = Inr ((global, cond_info), h)"
| "expand_conds p (cur # ns) global cond_info parent h = (case malloc h of (ok, h) \<Rightarrow>
     if \<not> ok then Inr ((avtab_destroy global, []), h)
     else bind_res (expand_true p cur parent h) (\<lambda>(ttab, h).
       bind_res (expand_false p cur global ttab parent h) (\<lambda>((ftab, global), h).
         expand_conds p ns global (\<lparr>true_avtab = ttab, false_avtab = ftab, ci_node = cur\<rparr> # cond_info) parent h)))"

definition bounds_expand_parent_rules ::
  "policydb \<Rightarrow> u32 \<Rightarrow> heap \<Rightarrow> ((avtab \<times> bounds_cond_info list) \<times> heap) result" where
  "bounds_expand_parent_rules p parent h =
     bind_res (avtab_alloc (avtab_init no_table) BOUNDS_AVTAB_SIZE h) (\<lambda>(global, h).
     bind_res (snd (avtab_map (te_avtab p) (bounds_expand_rule_callback p parent) (Inr (global, h)))) (\<lambda>(global, h).
       expand_conds p (cond_list p) global [] parent h))"

section \<open>The rules of the child\<close>

definition bounds_not_covered :: "avtab option \<Rightarrow> avtab \<Rightarrow> avtab_key \<Rightarrow> u32 \<Rightarrow> u32" where
  "bounds_not_covered global cur_avtab key d =
     (let d = (case avtab_search cur_avtab key of None \<Rightarrow> d | Some datum \<Rightarrow> d AND NOT (data datum)) in
      case global of
        None \<Rightarrow> d
      | Some global \<Rightarrow>
          if d \<noteq> 0 then (case avtab_search global key of None \<Rightarrow> d | Some datum \<Rightarrow> d AND NOT (data datum)) else d)"

text \<open>The fields that \<open>memset\<close> zeroes include \<open>key.specified\<close>.\<close>

definition bounds_add_bad :: "u32 \<Rightarrow> u32 \<Rightarrow> u32 \<Rightarrow> u32 \<Rightarrow> avtab_node list \<Rightarrow> heap \<Rightarrow> (avtab_node list \<times> heap) result" where
  "bounds_add_bad src tgt cls d bad h = (case malloc h of (ok, h) \<Rightarrow>
     if \<not> ok then Inl ENOMEM
     else Inr ((\<lparr>source_type = ucast src, target_type = ucast tgt, target_class = ucast cls, specified = 0\<rparr>, plain_datum d) # bad, h))"

definition bounds_target :: "policydb \<Rightarrow> u32 \<Rightarrow> u32" where
  "bounds_target p i = (case type_val_to_struct p ! unat i of
       Some td \<Rightarrow> if type_bounds td \<noteq> 0 then type_bounds td else i + 1
     | None \<Rightarrow> i + 1)"

fun bounds_check_targets ::
  "policydb \<Rightarrow> avtab option \<Rightarrow> avtab \<Rightarrow> u32 \<Rightarrow> u32 \<Rightarrow> u32 list \<Rightarrow> u32 \<Rightarrow> u32 \<Rightarrow> avtab_node list \<times> int \<Rightarrow> heap \<Rightarrow>
    ((avtab_node list \<times> int) \<times> heap) result" where
  "bounds_check_targets p global cur_avtab child parent [] cls d (bad, numbad) h = Inr ((bad, numbad), h)"
| "bounds_check_targets p global cur_avtab child parent (i # is) cls d (bad, numbad) h =
     (let m = bounds_not_covered global cur_avtab (allow_key parent (bounds_target p i) cls) d in
      if m \<noteq> 0 then bind_res (bounds_add_bad child (i + 1) cls m bad h) (\<lambda>(bad, h).
        bounds_check_targets p global cur_avtab child parent is cls d (bad, numbad + 1) h)
      else bounds_check_targets p global cur_avtab child parent is cls d (bad, numbad) h)"

definition bounds_check_rule ::
  "policydb \<Rightarrow> avtab option \<Rightarrow> avtab \<Rightarrow> u32 \<Rightarrow> u32 \<Rightarrow> avtab_node \<Rightarrow> avtab_node list \<times> int \<Rightarrow> heap \<Rightarrow>
    ((avtab_node list \<times> int) \<times> heap) result" where
  "bounds_check_rule p global cur_avtab child parent n b h =
     (if ebitmap_get_bit (attr_type_map p ! unat (ucast (source_type (fst n)) - 1 :: u32)) (child - 1)
      then bounds_check_targets p global cur_avtab child parent
        (ebitmap_positive_bits (attr_type_map p ! unat (ucast (target_type (fst n)) - 1 :: u32)))
        (ucast (target_class (fst n))) (data (snd n)) b h
      else Inr (b, h))"

fun bounds_check_cond_rules ::
  "policydb \<Rightarrow> avtab \<Rightarrow> avtab \<Rightarrow> avtab_ptr list \<Rightarrow> u32 \<Rightarrow> u32 \<Rightarrow> avtab_node list \<times> int \<Rightarrow> heap \<Rightarrow>
    ((avtab_node list \<times> int) \<times> heap) result" where
  "bounds_check_cond_rules p global cond_avtab [] child parent b h = Inr (b, h)"
| "bounds_check_cond_rules p global cond_avtab (cur # l) child parent b h =
     (let n = ptr_node (te_cond_avtab p) cur in
      if specified (fst n) AND AVTAB_ALLOWED = 0 then bounds_check_cond_rules p global cond_avtab l child parent b h
      else bind_res (bounds_check_rule p (Some global) cond_avtab child parent n b h) (\<lambda>(b, h).
        bounds_check_cond_rules p global cond_avtab l child parent b h))"

definition bounds_check_rule_callback ::
  "policydb \<Rightarrow> avtab \<Rightarrow> u32 \<Rightarrow> u32 \<Rightarrow> avtab_key \<Rightarrow> avtab_datum \<Rightarrow> ((avtab_node list \<times> int) \<times> heap) result \<Rightarrow>
    int \<times> ((avtab_node list \<times> int) \<times> heap) result" where
  "bounds_check_rule_callback p cur_avtab child parent k d r = (case r of
       Inl e \<Rightarrow> (- 1, r)
     | Inr (b, h) \<Rightarrow>
         if specified k AND AVTAB_ALLOWED = 0 then (0, r)
         else (case bounds_check_rule p None cur_avtab child parent (k, d) b h of
             Inl e \<Rightarrow> (- 1, Inl e)
           | Inr r \<Rightarrow> (0, Inr r)))"

fun check_conds ::
  "policydb \<Rightarrow> avtab \<Rightarrow> bounds_cond_info list \<Rightarrow> u32 \<Rightarrow> u32 \<Rightarrow> avtab_node list \<times> int \<Rightarrow> heap \<Rightarrow>
    ((avtab_node list \<times> int) \<times> heap) result" where
  "check_conds p global [] child parent b h = Inr (b, h)"
| "check_conds p global (cur # ci) child parent b h =
     bind_res (bounds_check_cond_rules p global (true_avtab cur) (true_list (ci_node cur)) child parent b h) (\<lambda>(b, h).
     bind_res (bounds_check_cond_rules p global (false_avtab cur) (false_list (ci_node cur)) child parent b h) (\<lambda>(b, h).
       check_conds p global ci child parent b h))"

definition bounds_check_child_rules ::
  "policydb \<Rightarrow> avtab \<Rightarrow> bounds_cond_info list \<Rightarrow> u32 \<Rightarrow> u32 \<Rightarrow> int \<Rightarrow> heap \<Rightarrow> ((avtab_node list \<times> int) \<times> heap) result" where
  "bounds_check_child_rules p global cond_info child parent numbad h =
     bind_res (snd (avtab_map (te_avtab p) (bounds_check_rule_callback p global child parent) (Inr (([], 0), h)))) (\<lambda>(b, h).
     bind_res (check_conds p global cond_info child parent b h) (\<lambda>((bad, n), h).
       Inr ((bad, numbad + n), h)))"

definition bounds_check_type ::
  "policydb \<Rightarrow> u32 \<Rightarrow> u32 \<Rightarrow> int \<Rightarrow> heap \<Rightarrow> ((avtab_node list \<times> int) \<times> heap) result" where
  "bounds_check_type p child parent numbad h =
     bind_res (bounds_expand_parent_rules p parent h) (\<lambda>((global, cond_info), h).
       bounds_check_child_rules p global cond_info child parent numbad h)"

section \<open>Types, roles and users\<close>

text \<open>
  The state: \<open>numbad\<close> and the heap. A callback returns its \<open>rc\<close>; the error code is kept beside it.
\<close>

definition bounds_check_type_callback ::
  "policydb \<Rightarrow> string \<Rightarrow> type_datum \<Rightarrow> errcode option \<times> int \<times> heap \<Rightarrow> int \<times> (errcode option \<times> int \<times> heap)" where
  "bounds_check_type_callback p k t a = (case a of (e, numbad, h) \<Rightarrow>
     if type_bounds t = 0 then (0, a)
     else (case bounds_check_type p (type_value t) (type_bounds t) numbad h of
         Inl e \<Rightarrow> (- 1, Some e, numbad, h)
       | Inr ((bad, numbad), h) \<Rightarrow> (0, None, numbad, h)))"

definition bounds_check_types :: "policydb \<Rightarrow> heap \<Rightarrow> heap result" where
  "bounds_check_types p h =
     (case snd (hashtab_map (table (p_types p)) (bounds_check_type_callback p) (None, 0, h)) of
        (Some e, _, _) \<Rightarrow> Inl e
      | (None, numbad, h) \<Rightarrow> if numbad > 0 then Inl FAIL else Inr h)"

definition bounds_check_role_callback :: "policydb \<Rightarrow> string \<Rightarrow> role_datum \<Rightarrow> int \<Rightarrow> int \<times> int" where
  "bounds_check_role_callback p k r numbad =
     (if role_bounds r = 0 then (0, numbad)
      else case val_struct (role_val_to_struct p) (role_bounds r) of
          None \<Rightarrow> (0, numbad)
        | Some rp \<Rightarrow> (0, if \<not> ebitmap_contains (role_types rp) (role_types r) then numbad + 1 else numbad))"

definition bounds_check_roles :: "policydb \<Rightarrow> unit result" where
  "bounds_check_roles p =
     (if snd (hashtab_map (table (p_roles p)) (bounds_check_role_callback p) 0) > 0 then Inl FAIL else Inr ())"

definition bounds_check_user_callback :: "policydb \<Rightarrow> string \<Rightarrow> user_datum \<Rightarrow> int \<Rightarrow> int \<times> int" where
  "bounds_check_user_callback p k u numbad =
     (if user_bounds u = 0 then (0, numbad)
      else case val_struct (user_val_to_struct p) (user_bounds u) of
          None \<Rightarrow> (0, numbad)
        | Some up \<Rightarrow> (0, if \<not> ebitmap_contains (user_roles up) (user_roles u) then numbad + 1 else numbad))"

definition bounds_check_users :: "policydb \<Rightarrow> unit result" where
  "bounds_check_users p =
     (if snd (hashtab_map (table (p_users p)) (bounds_check_user_callback p) 0) > 0 then Inl FAIL else Inr ())"

section \<open>Bounds from names\<close>

text \<open>The name before the last dot.\<close>

definition parent_name :: "string \<Rightarrow> string option" where
  "parent_name name =
     (if CHR ''.'' \<in> set name then Some (rev (tl (dropWhile (\<lambda>c. c \<noteq> CHR ''.'') (rev name)))) else None)"

text \<open>An assignment to a field of the datum with the key \<open>k\<close>, in the table and in the array that points to it.\<close>

definition hashtab_update :: "'k \<Rightarrow> ('d \<Rightarrow> 'd) \<Rightarrow> ('k, 'd) hashtab option \<Rightarrow> ('k, 'd) hashtab option" where
  "hashtab_update k f ho =
     map_option (\<lambda>h. h\<lparr>htable := map (map (\<lambda>(k', d). (k', if k' = k then f d else d))) (htable h)\<rparr>) ho"

definition array_update :: "string option list \<Rightarrow> string \<Rightarrow> u32 \<Rightarrow> ('d \<Rightarrow> 'd) \<Rightarrow> 'd option list \<Rightarrow> 'd option list" where
  "array_update names k value f arr =
     (if val_name names value = Some k then arr[unat (value - 1) := map_option f (val_struct arr value)] else arr)"

text \<open>
  The template of the three callbacks: \<open>look\<close> is the search for the parent, which returns its value, and
  \<open>set_bounds\<close> the assignment. The state is \<open>numbad\<close>, the policy and the heap.
\<close>

definition hierarchy_add ::
  "(policydb \<Rightarrow> string \<Rightarrow> u32 option) \<Rightarrow> (policydb \<Rightarrow> string option) \<Rightarrow> (u32 \<Rightarrow> policydb \<Rightarrow> policydb) \<Rightarrow> u32 \<Rightarrow>
    int \<times> policydb \<times> heap \<Rightarrow> int \<times> (int \<times> policydb \<times> heap)" where
  "hierarchy_add look name set_bounds bnd a = (case a of (numbad, p, h) \<Rightarrow>
     if bnd \<noteq> 0 then (0, a)
     else case parent_name (the (name p)) of
         None \<Rightarrow> (0, a)
       | Some pn \<Rightarrow> (case malloc h of (ok, h) \<Rightarrow>
           if \<not> ok then (- 1, numbad, p, h)
           else case look p pn of
               None \<Rightarrow> (0, numbad + 1, p, h)
             | Some v \<Rightarrow> (0, numbad, set_bounds v p, h)))"

definition hierarchy_add_type_callback ::
  "string \<Rightarrow> type_datum \<Rightarrow> int \<times> policydb \<times> heap \<Rightarrow> int \<times> (int \<times> policydb \<times> heap)" where
  "hierarchy_add_type_callback k d =
     hierarchy_add (\<lambda>p pn. map_option type_value (hashtab_search (table (p_types p)) pn))
       (\<lambda>p. val_name (p_type_val_to_name p) (type_value d))
       (\<lambda>v p. let f = \<lambda>d. d\<lparr>type_bounds := v\<rparr> in
          p\<lparr>p_types := (p_types p)\<lparr>table := hashtab_update k f (table (p_types p))\<rparr>,
            type_val_to_struct := array_update (p_type_val_to_name p) k (type_value d) f (type_val_to_struct p)\<rparr>)
       (type_bounds d)"

definition hierarchy_add_role_callback ::
  "string \<Rightarrow> role_datum \<Rightarrow> int \<times> policydb \<times> heap \<Rightarrow> int \<times> (int \<times> policydb \<times> heap)" where
  "hierarchy_add_role_callback k d =
     hierarchy_add (\<lambda>p pn. map_option role_value (hashtab_search (table (p_roles p)) pn))
       (\<lambda>p. val_name (p_role_val_to_name p) (role_value d))
       (\<lambda>v p. let f = \<lambda>d. d\<lparr>role_bounds := v\<rparr> in
          p\<lparr>p_roles := (p_roles p)\<lparr>table := hashtab_update k f (table (p_roles p))\<rparr>,
            role_val_to_struct := array_update (p_role_val_to_name p) k (role_value d) f (role_val_to_struct p)\<rparr>)
       (role_bounds d)"

definition hierarchy_add_user_callback ::
  "string \<Rightarrow> user_datum \<Rightarrow> int \<times> policydb \<times> heap \<Rightarrow> int \<times> (int \<times> policydb \<times> heap)" where
  "hierarchy_add_user_callback k d =
     hierarchy_add (\<lambda>p pn. map_option user_value (hashtab_search (table (p_users p)) pn))
       (\<lambda>p. val_name (p_user_val_to_name p) (user_value d))
       (\<lambda>v p. let f = \<lambda>d. d\<lparr>user_bounds := v\<rparr> in
          p\<lparr>p_users := (p_users p)\<lparr>table := hashtab_update k f (table (p_users p))\<rparr>,
            user_val_to_struct := array_update (p_user_val_to_name p) k (user_value d) f (user_val_to_struct p)\<rparr>)
       (user_bounds d)"

definition hierarchy_add_bounds :: "policydb \<Rightarrow> heap \<Rightarrow> unit result \<times> policydb \<times> heap" where
  "hierarchy_add_bounds p h =
     (case hashtab_map (table (p_users p)) hierarchy_add_user_callback (0, p, h) of (rc, a) \<Rightarrow>
      if rc \<noteq> 0 then (Inl ENOMEM, snd a)
      else case hashtab_map (table (p_roles p)) hierarchy_add_role_callback a of (rc, a) \<Rightarrow>
      if rc \<noteq> 0 then (Inl ENOMEM, snd a)
      else case hashtab_map (table (p_types p)) hierarchy_add_type_callback a of (rc, a) \<Rightarrow>
      if rc \<noteq> 0 then (Inl ENOMEM, snd a)
      else if fst a > 0 then (Inl FAIL, snd a)
      else (Inr (), snd a))"

definition hierarchy_check_constraints :: "policydb \<Rightarrow> heap \<Rightarrow> unit result \<times> policydb \<times> heap" where
  "hierarchy_check_constraints p h =
     (case hierarchy_add_bounds p h of
        (Inl e, p, h) \<Rightarrow> (Inl e, p, h)
      | (Inr _, p, h) \<Rightarrow>
          let violation = bounds_check_users p \<noteq> Inr () \<or> bounds_check_roles p \<noteq> Inr () in
          case bounds_check_types p h of
            Inl e \<Rightarrow> (Inl e, p, h)
          | Inr h \<Rightarrow> ((if violation then Inl FAIL else Inr ()), p, h))"

end
