(* ===== verification/Hierarchy_Bounds.thy ===== *)
theory Hierarchy_Bounds
  imports Hierarchy
begin

text \<open>
  What the check of the bounds guarantees. The temporary tables are sets of pairs of a key and a permission
  bit; an insertion adds the bits of one rule.
\<close>

unbundle bit_operations_syntax

section \<open>Tables as sets of permissions\<close>

definition bt_ok :: "avtab \<Rightarrow> bool" where
  "bt_ok tab \<longleftrightarrow> avtab_wf tab \<and> (\<forall>n \<in> set (avtab_nodes tab). specified (fst n) = AVTAB_ALLOWED)"

text \<open>A table that was allocated, into which rules are inserted.\<close>

definition live :: "avtab \<Rightarrow> bool" where
  "live tab \<longleftrightarrow> bt_ok tab \<and> avtable tab \<noteq> None"

definition cov :: "avtab \<Rightarrow> avtab_key \<Rightarrow> u32" where
  "cov tab key = (case avtab_search tab key of None \<Rightarrow> 0 | Some d \<Rightarrow> data d)"

definition hits :: "avtab_key \<Rightarrow> u32 \<Rightarrow> (avtab_key \<times> nat) set" where
  "hits key x = {(k, b). k = key \<and> bit x b}"

definition granted_bits :: "avtab \<Rightarrow> (avtab_key \<times> nat) set" where
  "granted_bits tab = {(k, b). specified k = AVTAB_ALLOWED \<and> bit (cov tab k) b}"

lemma allowed_spec: "specified k = AVTAB_ALLOWED \<Longrightarrow> key_spec k = AVTAB_ALLOWED"
  by (simp add: key_spec_def)

lemma allowed_matches:
  assumes "specified k = AVTAB_ALLOWED" "specified (fst n) = AVTAB_ALLOWED"
  shows "node_matches k (key_spec k) n \<longleftrightarrow> fst n = k"
  using assms by (cases k; cases "fst n") (auto simp: node_matches_def key_same_def key_spec_def)

lemma no_table_ok [simp]: "bt_ok no_table" "granted_bits no_table = {}"
  by (auto simp: bt_ok_def no_table_def avtab_wf_def avtab_nodes_def granted_bits_def cov_def avtab_search_def)

lemma alloc_ok:
  assumes "avtab_alloc tab n h = Inr (tab', h')" "avtable tab = None"
  shows "bt_ok tab' \<and> granted_bits tab' = {} \<and> (mem_ok h \<longrightarrow> mem_ok h')"
proof -
  have wf: "avtab_wf tab'" "avtab_nodes tab' = []" using avtab_alloc_wf [OF assms] by simp_all
  then have "avtab_search tab' k = None" for k by (simp add: avtab_search_find)
  then have "granted_bits tab' = {}" by (simp add: granted_bits_def cov_def)
  moreover have "mem_ok h \<longrightarrow> mem_ok h'"
    using assms(1) by (auto simp: avtab_alloc_def Let_def dest: malloc_okD split: if_splits prod.splits)
  ultimately show ?thesis using wf by (simp add: bt_ok_def)
qed

lemma bits_added:
  assumes "specified key = AVTAB_ALLOWED"
    and "\<And>k. specified k = AVTAB_ALLOWED \<Longrightarrow> cov tab' k = (if k = key then cov tab k OR x else cov tab k)"
  shows "granted_bits tab' = granted_bits tab \<union> hits key x"
proof -
  have "(k, b) \<in> granted_bits tab' \<longleftrightarrow> (k, b) \<in> granted_bits tab \<union> hits key x" for k b
    using assms(1) assms(2) [of k] by (cases "k = key"; cases "specified k = AVTAB_ALLOWED") (auto simp: granted_bits_def hits_def bit_or_iff)
  then show ?thesis by (auto simp only: set_eq_iff split_paired_all)
qed

lemma helper_adds:
  assumes live: "live tab" and key: "specified key = AVTAB_ALLOWED" and new: "avtab_search tab key = None"
  shows "outcome h (bounds_insert_helper tab key (plain_datum x) h) no_err
    (\<lambda>tab'. live tab' \<and> granted_bits tab' = granted_bits tab \<union> hits key x)"
proof -
  have ok: "bt_ok tab" using live by (simp add: live_def)
  obtain t where Some: "avtable tab = Some t" using live by (auto simp: live_def)
  obtain r tab' h' where ins: "avtab_insert tab key (plain_datum x) h = (r, tab', h')" by (metis prod_cases3)
  have wf: "avtab_wf tab" using ok by (simp add: bt_ok_def)
  show ?thesis
  proof (rule avtab_insert_cases [OF Some ins])
    fix b a
    assume r: "r = Inr ()" "mem_ok h \<longrightarrow> mem_ok h'"
      and split: "ins_split True key (t ! unat (avtab_hash key (avmask tab))) = Some (b, a)"
      and tab': "tab' = linked tab t key (stored_datum key (plain_datum x)) b a"
    have st: "stored_datum key (plain_datum x) = plain_datum x" using key by (simp add: stored_datum_def)
    note lw = linked_wf [OF wf Some split, where d = "plain_datum x"] and s = search_linked [OF wf Some split, where d = "plain_datum x"]
    have "set (avtab_nodes tab') = insert (key, plain_datum x) (set (avtab_nodes tab))"
      using arg_cong [OF lw(2), of set_mset] unfolding tab' st by simp
    then have "live tab'" using ok key lw(1) unfolding live_def bt_ok_def tab' st by (auto simp: linked_def)
    moreover have "cov tab' k = (if k = key then x else cov tab k)" if k: "specified k = AVTAB_ALLOWED" for k
    proof (cases "k = key")
      case True
      have "avtab_search tab' key = Some (plain_datum x)" using s(1) key unfolding tab' st by (simp add: key_spec_def)
      then show ?thesis using True by (simp add: cov_def)
    next
      case False
      then have "\<not> node_matches k (key_spec k) (key, plain_datum x)" using allowed_matches [OF k, of "(key, plain_datum x)"] key by simp
      then show ?thesis using s(2) False unfolding tab' st by (simp add: cov_def)
    qed
    moreover have "cov tab key = 0" using new by (simp add: cov_def)
    ultimately have "live tab' \<and> granted_bits tab' = granted_bits tab \<union> hits key x"
      using bits_added [OF key, of tab' tab x] by simp
    then show ?thesis using ins r by (simp add: bounds_insert_helper_def)
  next
    assume "ins_split True key (t ! unat (avtab_hash key (avmask tab))) = None"
    from ins_split_None [OF this] have "filter (node_matches key (key_spec key)) (avtab_nodes tab) \<noteq> []"
      unfolding nodes_filter [OF wf Some] filter_empty_conv by blast
    then show ?thesis using new by (simp add: avtab_search_find [OF wf] find_filter split: list.splits)
  qed (use ins in \<open>simp_all add: bounds_insert_helper_def\<close>)
qed

section \<open>An update in place\<close>

lemma or_first_keys: "map fst (or_first key x c) = map fst c"
  by (induction c) auto

lemma or_first_find:
  assumes "specified key = AVTAB_ALLOWED"
  shows "\<forall>n \<in> set c. specified (fst n) = AVTAB_ALLOWED \<Longrightarrow>
    find (\<lambda>n. fst n = k) (or_first key x c) =
      (if k = key then map_option (apsnd (\<lambda>d. d\<lparr>data := data d OR x\<rparr>)) (find (\<lambda>n. fst n = k) c) else find (\<lambda>n. fst n = k) c)"
proof (induction c)
  case (Cons n c)
  then show ?case using allowed_matches [OF assms, of n] by (cases n) auto
qed simp

lemma search_slot:
  assumes "avtab_wf h" "avtable h = Some t"
  shows "avtab_search h k = map_option snd (find (node_matches k (key_spec k)) (t ! unat (avtab_hash k (avmask h))))"
  by (simp only: avtab_search_find [OF assms(1)] find_filter nodes_filter [OF assms])

lemma search_allowed:
  assumes "bt_ok h" "avtable h = Some t" "specified k = AVTAB_ALLOWED"
  shows "avtab_search h k = map_option snd (find (\<lambda>n. fst n = k) (t ! unat (avtab_hash k (avmask h))))"
proof -
  have wf: "avtab_wf h" using assms(1) by (simp add: bt_ok_def)
  have "specified (fst n) = AVTAB_ALLOWED" if "n \<in> set (t ! unat (avtab_hash k (avmask h)))" for n
    using assms(1) nth_mem [OF hash_slot [OF wf assms(2), of k]] that by (auto simp: bt_ok_def avtab_nodes_def assms(2))
  then have "find (node_matches k (key_spec k)) (t ! unat (avtab_hash k (avmask h))) =
      find (\<lambda>n. fst n = k) (t ! unat (avtab_hash k (avmask h)))"
    by (intro find_cong refl) (use allowed_matches [OF assms(3)] in blast)
  then show ?thesis by (simp only: search_slot [OF wf assms(2)])
qed

lemma or_adds:
  assumes ok: "bt_ok tab" and key: "specified key = AVTAB_ALLOWED" and some: "avtab_search tab key \<noteq> None"
  shows "live (avtab_or_data tab key x) \<and> granted_bits (avtab_or_data tab key x) = granted_bits tab \<union> hits key x"
proof -
  obtain t where t: "avtable tab = Some t" using some by (cases "avtable tab") (simp_all add: avtab_search_def)
  let ?i = "unat (avtab_hash key (avmask tab))" and ?tab = "avtab_or_data tab key x"
  let ?c = "or_first key x (t ! ?i)"
  have wf: "avtab_wf tab" using ok by (simp add: bt_ok_def)
  have i: "?i < length t" by (rule hash_slot [OF wf t])
  have tab': "?tab = set_chain ?i ?c tab" by (simp add: avtab_or_data_def Let_def chain_of_def t)
  have t': "avtable ?tab = Some (t[?i := ?c])" "avmask ?tab = avmask tab" by (simp_all add: tab' set_chain_def t)
  have keys: "fst ` set ?c = fst ` set (t ! ?i)" by (metis or_first_keys image_set)
  have "chain_ord c \<longleftrightarrow> sorted_wrt (\<lambda>a b. key_rank a \<le> key_rank b) (map fst c)" for c :: "avtab_node list"
    by (simp add: chain_ord_def sorted_wrt_map)
  then have "chain_ord ?c" using avtab_wfD(1) [OF wf t i] by (simp add: or_first_keys)
  then have wf': "avtab_wf ?tab" unfolding tab' by (rule set_chain_wf [OF wf t i]) (simp add: keys)
  have nodes: "\<forall>n \<in> set (t ! ?i). specified (fst n) = AVTAB_ALLOWED"
    using ok nth_mem [OF i] by (auto simp: bt_ok_def avtab_nodes_def t)
  have cn: "\<forall>n \<in> set ?c. specified (fst n) = AVTAB_ALLOWED"
  proof
    fix n assume "n \<in> set ?c"
    then have "fst n \<in> fst ` set (t ! ?i)" unfolding keys [symmetric] by (rule imageI)
    then show "specified (fst n) = AVTAB_ALLOWED" using nodes by (elim imageE) simp
  qed
  then have "\<forall>n \<in> set (avtab_nodes ?tab). specified (fst n) = AVTAB_ALLOWED"
    using ok cn unfolding tab' nodes_split [OF t i] bt_ok_def by (auto simp: avtab_nodes_def t)
  then have ok': "bt_ok ?tab" and live': "live ?tab" using wf' t'(1) by (simp_all add: bt_ok_def live_def)
  have "cov ?tab k = (if k = key then cov tab k OR x else cov tab k)" if k: "specified k = AVTAB_ALLOWED" for k
  proof -
    have "avtab_search ?tab k = (if k = key then map_option (\<lambda>d. d\<lparr>data := data d OR x\<rparr>) (avtab_search tab k) else avtab_search tab k)"
    proof (cases "unat (avtab_hash k (avmask tab)) = ?i")
      case True
      then show ?thesis
        using i unfolding search_allowed [OF ok' t'(1) k] search_allowed [OF ok t k] t'(2)
        by (simp add: or_first_find [OF key nodes] option.map_comp comp_def)
    next
      case False
      then show ?thesis
        unfolding search_allowed [OF ok' t'(1) k] search_allowed [OF ok t k] t'(2) by auto
    qed
    then show ?thesis using some by (auto simp: cov_def split: option.splits)
  qed
  then have "granted_bits ?tab = granted_bits tab \<union> hits key x" by (rule bits_added [OF key])
  then show ?thesis using live' by blast
qed

section \<open>The rules of the parent\<close>

text \<open>
  \<open>grown tab go tab' go' K\<close>: the permissions \<open>K\<close> are added to the table; those that the other table has
  as well are added to the global one.
\<close>

definition grown :: "avtab \<Rightarrow> (avtab \<times> avtab) option \<Rightarrow> (avtab_key \<times> nat) set \<Rightarrow> avtab \<times> (avtab \<times> avtab) option \<Rightarrow> bool" where
  "grown tab go K res \<longleftrightarrow> (case res of (tab', go') \<Rightarrow> live tab' \<and> granted_bits tab' = granted_bits tab \<union> K \<and>
     (case go of None \<Rightarrow> go' = None
      | Some (g, ot) \<Rightarrow> \<exists>g'. go' = Some (g', ot) \<and> live g' \<and> granted_bits g' = granted_bits g \<union> (K \<inter> granted_bits ot)))"

definition go_ok :: "(avtab \<times> avtab) option \<Rightarrow> bool" where
  "go_ok go \<longleftrightarrow> (case go of None \<Rightarrow> True | Some (g, ot) \<Rightarrow> live g \<and> bt_ok ot)"

lemma grown_refl: "live tab \<Longrightarrow> go_ok go \<Longrightarrow> grown tab go {} (tab, go)"
  by (auto simp: grown_def go_ok_def split: option.splits)

lemma grown_ok: "grown tab go K (tab', go') \<Longrightarrow> go_ok go \<Longrightarrow> live tab' \<and> go_ok go'"
  by (auto simp: grown_def go_ok_def split: option.splits)

lemma grown_trans: "grown tab go K (tab1, go1) \<Longrightarrow> grown tab1 go1 K' res \<Longrightarrow> grown tab go (K \<union> K') res"
  by (cases res) (auto simp: grown_def split: option.splits)

lemma live_bt: "live tab \<Longrightarrow> bt_ok tab"
  by (simp add: live_def)

lemma insert_rule_grows:
  assumes ok: "live tab" "go_ok go" and key: "specified key = AVTAB_ALLOWED"
  shows "outcome h (bounds_insert_rule tab go key (plain_datum x) h) no_err (grown tab go (hits key x))"
proof -
  have first: "outcome h (case avtab_search tab key of None \<Rightarrow> bounds_insert_helper tab key (plain_datum x) h
      | Some dup \<Rightarrow> Inr (avtab_or_data tab key (data (plain_datum x)), h)) no_err
      (\<lambda>tab'. live tab' \<and> granted_bits tab' = granted_bits tab \<union> hits key x)"
    using helper_adds [OF ok(1) key] or_adds [OF live_bt [OF ok(1)] key] by (cases "avtab_search tab key") simp_all
  show ?thesis
    unfolding bounds_insert_rule_def
  proof (rule outcome_bind [OF first], unfold prod.case)
    fix tab' h'
    assume tab': "live tab' \<and> granted_bits tab' = granted_bits tab \<union> hits key x"
    let ?P = "grown tab go (hits key x)"
    show "outcome h' (case go of None \<Rightarrow> Inr ((tab', None), h')
      | Some (global, other) \<Rightarrow> (case avtab_search other key of None \<Rightarrow> Inr ((tab', Some (global, other)), h')
        | Some dup \<Rightarrow> let d = data dup AND data (plain_datum x) in
           if d = 0 then Inr ((tab', Some (global, other)), h')
           else (case avtab_search global key of
               None \<Rightarrow> bind_res (bounds_insert_helper global key (plain_datum d) h') (\<lambda>(global, h). Inr ((tab', Some (global, other)), h))
             | Some dup \<Rightarrow> Inr ((tab', Some (avtab_or_data global key d, other)), h')))) no_err ?P"
    proof (cases go)
      case None
      then show ?thesis using tab' by (simp add: grown_def)
    next
      case (Some g)
      obtain global other where g: "go = Some (global, other)" using Some by (cases g) auto
      have gok: "live global" "bt_ok other" using ok(2) by (simp_all add: g go_ok_def)
      let ?d = "cov other key AND x"
      have common: "hits key x \<inter> granted_bits other = hits key ?d"
        using key by (auto simp: hits_def granted_bits_def bit_and_iff)
      have res: "?P (tab', Some (g', other))" if "live g' \<and> granted_bits g' = granted_bits global \<union> hits key ?d" for g'
        using that tab' by (simp add: grown_def g common)
      have none: "hits key 0 = {}" by (simp add: hits_def)
      show ?thesis
      proof (cases "?d = 0")
        case True
        then have "?P (tab', Some (global, other))" using res [of global] gok(1) none by simp
        then show ?thesis using True by (auto simp: g cov_def Let_def split: option.splits)
      next
        case False
        then obtain dup where dup: "avtab_search other key = Some dup" by (auto simp: cov_def split: option.splits)
        then have d: "data dup AND x = ?d" by (simp add: cov_def)
        show ?thesis
        proof (cases "avtab_search global key")
          case None
          have "outcome h' (bind_res (bounds_insert_helper global key (plain_datum ?d) h') (\<lambda>(global, h). Inr ((tab', Some (global, other)), h))) no_err ?P"
            by (rule outcome_bind [OF helper_adds [OF gok(1) key None]]) (use res in simp)
          then show ?thesis using None dup d False by (simp add: g Let_def)
        next
          case (Some dup2)
          then have "?P (tab', Some (avtab_or_data global key ?d, other))" using res or_adds [OF live_bt [OF gok(1)] key] by simp
          then show ?thesis using Some dup d False by (simp add: g Let_def)
        qed
      qed
    qed
  qed
qed

text \<open>The permissions that a rule gives the parent: for every type of its target.\<close>

definition rule_bits :: "policydb \<Rightarrow> u32 \<Rightarrow> avtab_node \<Rightarrow> (avtab_key \<times> nat) set" where
  "rule_bits p parent n =
     (if ebitmap_get_bit (attr_type_map p ! unat (ucast (source_type (fst n)) - 1 :: u32)) (parent - 1)
      then \<Union>i \<in> set (ebitmap_positive_bits (attr_type_map p ! unat (ucast (target_type (fst n)) - 1 :: u32))).
        hits (allow_key parent (i + 1) (ucast (target_class (fst n)))) (data (snd n))
      else {})"

lemma expand_targets_grows:
  "live tab \<Longrightarrow> go_ok go \<Longrightarrow> outcome h (bounds_expand_targets tab go parent is cls d h) no_err
    (grown tab go (\<Union>i \<in> set is. hits (allow_key parent (i + 1) cls) d))"
proof (induction "is" arbitrary: tab go h)
  case Nil
  then show ?case by (simp add: grown_refl)
next
  case (Cons i "is")
  have "outcome h (bounds_insert_rule tab go (allow_key parent (i + 1) cls) (plain_datum d) h) no_err
      (grown tab go (hits (allow_key parent (i + 1) cls) d))"
    by (rule insert_rule_grows [OF Cons.prems]) simp
  then show ?case
    unfolding bounds_expand_targets.simps
  proof (rule outcome_bind)
    fix x h'
    assume x: "grown tab go (hits (allow_key parent (i + 1) cls) d) x"
    obtain tab1 go1 where x1: "x = (tab1, go1)" by (cases x)
    have "live tab1 \<and> go_ok go1" using grown_ok x Cons.prems(2) unfolding x1 by blast
    then have "outcome h' (bounds_expand_targets tab1 go1 parent is cls d h') no_err
        (grown tab1 go1 (\<Union>i \<in> set is. hits (allow_key parent (i + 1) cls) d))"
      using Cons.IH by blast
    then show "outcome h' (case (x, h') of (x, h) \<Rightarrow> (case x of (tab, go) \<Rightarrow> \<lambda>h. bounds_expand_targets tab go parent is cls d h) h)
        no_err (grown tab go (\<Union>i \<in> set (i # is). hits (allow_key parent (i + 1) cls) d))"
      unfolding x1 prod.case list.set UN_insert
      by (rule outcome_mono) (use grown_trans x x1 in blast)+
  qed
qed

lemma expand_node_grows:
  assumes "live tab" "go_ok go"
  shows "outcome h (expand_node p tab go parent n h) no_err (grown tab go (rule_bits p parent n))"
  using expand_targets_grows [OF assms] grown_refl [OF assms]
  by (simp add: expand_node_def bounds_expand_rule_def rule_bits_def)

definition list_bits :: "policydb \<Rightarrow> u32 \<Rightarrow> avtab_ptr list \<Rightarrow> (avtab_key \<times> nat) set" where
  "list_bits p parent l = (\<Union>q \<in> set l. rule_bits p parent (ptr_node (te_cond_avtab p) q))"

lemma expand_cond_grows:
  "live tab \<Longrightarrow> go_ok go \<Longrightarrow> outcome h (bounds_expand_cond_rules p l tab go parent h) no_err
    (grown tab go (list_bits p parent l))"
proof (induction l arbitrary: tab go h)
  case Nil
  then show ?case by (simp add: grown_refl list_bits_def)
next
  case (Cons q l)
  show ?case
    unfolding bounds_expand_cond_rules.simps
  proof (rule outcome_bind [OF expand_node_grows [OF Cons.prems]])
    fix x h'
    assume x: "grown tab go (rule_bits p parent (ptr_node (te_cond_avtab p) q)) x"
    obtain tab1 go1 where x1: "x = (tab1, go1)" by (cases x)
    have "live tab1 \<and> go_ok go1" using grown_ok x Cons.prems(2) unfolding x1 by blast
    then have "outcome h' (bounds_expand_cond_rules p l tab1 go1 parent h') no_err (grown tab1 go1 (list_bits p parent l))"
      using Cons.IH by blast
    then show "outcome h' (case (x, h') of (x, h) \<Rightarrow> (case x of (tab, go) \<Rightarrow> \<lambda>h. bounds_expand_cond_rules p l tab go parent h) h)
        no_err (grown tab go (list_bits p parent (q # l)))"
      unfolding x1 prod.case list_bits_def list.set UN_insert
      by (rule outcome_mono) (use grown_trans x x1 in blast)+
  qed
qed

text \<open>The unconditional rules of the parent.\<close>

definition te_bits :: "policydb \<Rightarrow> u32 \<Rightarrow> avtab_node set \<Rightarrow> (avtab_key \<times> nat) set" where
  "te_bits p parent N = (\<Union>n \<in> {n \<in> N. specified (fst n) AND AVTAB_ALLOWED \<noteq> 0}. rule_bits p parent n)"

lemma te_bits_insert: "te_bits p parent (insert n N) =
  (if specified (fst n) AND AVTAB_ALLOWED \<noteq> 0 then rule_bits p parent n \<union> te_bits p parent N else te_bits p parent N)"
  by (auto simp: te_bits_def)

lemma expand_error: "snd (nodes_apply (bounds_expand_rule_callback p parent) ns (Inl e)) = Inl e"
  by (cases ns) (auto simp: bounds_expand_rule_callback_def)

lemma expand_te_grows:
  "live tab \<Longrightarrow> outcome h (snd (nodes_apply (bounds_expand_rule_callback p parent) ns (Inr (tab, h)))) no_err
    (\<lambda>tab'. live tab' \<and> granted_bits tab' = granted_bits tab \<union> te_bits p parent (set ns))"
proof (induction ns arbitrary: tab h)
  case Nil
  then show ?case by (simp add: te_bits_def)
next
  case (Cons n ns)
  obtain k d where n: "n = (k, d)" by (cases n)
  show ?case
  proof (cases "specified k AND AVTAB_ALLOWED = 0")
    case True
    then show ?thesis using Cons by (simp add: n bounds_expand_rule_callback_def te_bits_insert)
  next
    case False
    have g: "outcome h (expand_node p tab None parent (k, d) h) no_err (grown tab None (rule_bits p parent (k, d)))"
      by (rule expand_node_grows [OF Cons.prems]) (simp add: go_ok_def)
    show ?thesis
    proof (cases "expand_node p tab None parent (k, d) h")
      case (Inl e)
      then show ?thesis using False g by (simp add: n bounds_expand_rule_callback_def expand_error)
    next
      case (Inr y)
      obtain tab1 go1 h1 where y: "y = ((tab1, go1), h1)" by (metis surj_pair)
      have t1: "live tab1" "granted_bits tab1 = granted_bits tab \<union> rule_bits p parent (k, d)" "mem_ok h \<longrightarrow> mem_ok h1"
        using g by (simp_all add: Inr y grown_def)
      have "outcome h1 (snd (nodes_apply (bounds_expand_rule_callback p parent) ns (Inr (tab1, h1)))) no_err
          (\<lambda>tab'. live tab' \<and> granted_bits tab' = granted_bits tab \<union> te_bits p parent (set (n # ns)))"
        using Cons.IH [OF t1(1), of h1] t1(2) False by (simp add: n te_bits_insert Un_assoc)
      then have "outcome h (snd (nodes_apply (bounds_expand_rule_callback p parent) ns (Inr (tab1, h1)))) no_err
          (\<lambda>tab'. live tab' \<and> granted_bits tab' = granted_bits tab \<union> te_bits p parent (set (n # ns)))"
        using t1(3) by (auto simp: outcome_def split: sum.splits)
      moreover have "bounds_expand_rule_callback p parent k d (Inr (tab, h)) = (0, Inr (tab1, h1))"
        using False by (simp add: bounds_expand_rule_callback_def Inr y)
      ultimately show ?thesis by (simp add: n)
    qed
  qed
qed

text \<open>The rules of one list and of both lists of a conditional.\<close>

definition info_ok :: "policydb \<Rightarrow> u32 \<Rightarrow> bounds_cond_info \<Rightarrow> bool" where
  "info_ok p parent ci \<longleftrightarrow> bt_ok (true_avtab ci) \<and> bt_ok (false_avtab ci) \<and>
     granted_bits (true_avtab ci) = list_bits p parent (true_list (ci_node ci)) \<and>
     granted_bits (false_avtab ci) = list_bits p parent (false_list (ci_node ci))"

definition both_bits :: "policydb \<Rightarrow> u32 \<Rightarrow> cond_node \<Rightarrow> (avtab_key \<times> nat) set" where
  "both_bits p parent n = list_bits p parent (true_list n) \<inter> list_bits p parent (false_list n)"

lemma alloc_outcome:
  assumes "n \<noteq> 0" "mem_ok h"
  shows "outcome h (avtab_alloc no_table n h) no_err (\<lambda>tab. live tab \<and> granted_bits tab = {})"
proof (cases "avtab_alloc no_table n h")
  case (Inl e)
  then show ?thesis
    using mem_ok_malloc [OF assms(2)] assms(1) by (auto simp: avtab_alloc_def Let_def split: prod.splits if_splits)
next
  case (Inr y)
  obtain tab h' where y: "y = (tab, h')" by (cases y)
  have none: "avtable no_table = None" by (simp add: no_table_def)
  show ?thesis
    using alloc_ok [OF Inr [unfolded y] none] avtab_alloc_wf [OF Inr [unfolded y] none] assms(1) by (simp add: Inr y live_def)
qed

lemma expand_true_ok:
  assumes "mem_ok h"
  shows "outcome h (expand_true p cur parent h) no_err (\<lambda>tab. bt_ok tab \<and> granted_bits tab = list_bits p parent (true_list cur))"
proof (cases "true_list cur = []")
  case True
  then show ?thesis by (simp add: expand_true_def list_bits_def)
next
  case False
  have "outcome h (bind_res (avtab_alloc no_table BOUNDS_AVTAB_SIZE h) (\<lambda>(tab, h).
      bind_res (bounds_expand_cond_rules p (true_list cur) tab None parent h) (\<lambda>((tab, _), h). Inr (tab, h)))) no_err
      (\<lambda>tab. bt_ok tab \<and> granted_bits tab = list_bits p parent (true_list cur))"
  proof (rule outcome_bind [OF alloc_outcome], simp, rule assms, unfold prod.case, rule outcome_bind [OF expand_cond_grows], goal_cases)
    case (3 tab h1 x h2)
    then show ?case by (cases x) (simp add: grown_def live_def)
  qed (simp_all add: go_ok_def)
  then show ?thesis using False by (simp add: expand_true_def)
qed

lemma expand_false_ok:
  assumes "mem_ok h" "live global" "bt_ok ttab" "granted_bits ttab = list_bits p parent (true_list cur)"
  shows "outcome h (expand_false p cur global ttab parent h) no_err (\<lambda>(tab, g). bt_ok tab \<and> live g \<and>
    granted_bits tab = list_bits p parent (false_list cur) \<and> granted_bits g = granted_bits global \<union> both_bits p parent cur)"
proof (cases "false_list cur = []")
  case True
  then show ?thesis using assms(2) by (simp add: expand_false_def list_bits_def both_bits_def)
next
  case False
  have "outcome h (bind_res (avtab_alloc no_table BOUNDS_AVTAB_SIZE h) (\<lambda>(tab, h).
      bind_res (bounds_expand_cond_rules p (false_list cur) tab (Some (global, ttab)) parent h) (\<lambda>((tab, go), h).
        Inr ((tab, fst (the go)), h)))) no_err (\<lambda>(tab, g). bt_ok tab \<and> live g \<and>
    granted_bits tab = list_bits p parent (false_list cur) \<and> granted_bits g = granted_bits global \<union> both_bits p parent cur)"
  proof (rule outcome_bind [OF alloc_outcome], simp, rule assms, unfold prod.case, rule outcome_bind [OF expand_cond_grows], goal_cases)
    case (3 tab h1 x h2)
    then show ?case using assms by (cases x) (auto simp: grown_def both_bits_def live_def)
  qed (use assms in \<open>simp_all add: go_ok_def\<close>)
  then show ?thesis using False by (simp add: expand_false_def)
qed

lemma expand_conds_ok:
  "mem_ok h \<Longrightarrow> live global \<Longrightarrow> \<forall>ci \<in> set cis. info_ok p parent ci \<Longrightarrow>
    outcome h (expand_conds p ns global cis parent h) no_err (\<lambda>(g, cis'). live g \<and>
      granted_bits g = granted_bits global \<union> (\<Union>n \<in> set ns. both_bits p parent n) \<and>
      (\<forall>ci \<in> set cis'. info_ok p parent ci) \<and> ci_node ` set cis' = ci_node ` set cis \<union> set ns)"
proof (induction ns arbitrary: global cis h)
  case Nil
  then show ?case by simp
next
  case (Cons n ns)
  obtain h1 where m: "malloc h = (True, h1)" "mem_ok h1" using mem_ok_malloc [OF Cons.prems(1)] by (cases "malloc h") auto
  let ?P = "\<lambda>(g, cis'). live g \<and> granted_bits g = granted_bits global \<union> (\<Union>n \<in> set (n # ns). both_bits p parent n) \<and>
      (\<forall>ci \<in> set cis'. info_ok p parent ci) \<and> ci_node ` set cis' = ci_node ` set cis \<union> set (n # ns)"
  have "outcome h1 (bind_res (expand_true p n parent h1) (\<lambda>(ttab, h). bind_res (expand_false p n global ttab parent h)
      (\<lambda>((ftab, global), h). expand_conds p ns global (\<lparr>true_avtab = ttab, false_avtab = ftab, ci_node = n\<rparr> # cis) parent h)))
      no_err ?P"
  proof (rule outcome_bind [OF expand_true_ok [OF m(2)]], unfold prod.case)
    fix ttab h2
    assume t: "bt_ok ttab \<and> granted_bits ttab = list_bits p parent (true_list n)" and h2: "mem_ok h1 \<longrightarrow> mem_ok h2"
    show "outcome h2 (bind_res (expand_false p n global ttab parent h2) (\<lambda>((ftab, global), h).
        expand_conds p ns global (\<lparr>true_avtab = ttab, false_avtab = ftab, ci_node = n\<rparr> # cis) parent h)) no_err ?P"
    proof (rule outcome_bind [OF expand_false_ok], goal_cases)
      case (5 x h3)
      obtain ftab g where x: "x = (ftab, g)" by (cases x)
      let ?ci = "\<lparr>true_avtab = ttab, false_avtab = ftab, ci_node = n\<rparr>"
      have f: "bt_ok ftab" "live g" "granted_bits ftab = list_bits p parent (false_list n)"
        "granted_bits g = granted_bits global \<union> both_bits p parent n"
        using 5(1) by (simp_all add: x)
      have "info_ok p parent ?ci" using t f by (simp add: info_ok_def)
      then have "outcome h3 (expand_conds p ns g (?ci # cis) parent h3) no_err (\<lambda>(g', cis'). live g' \<and>
          granted_bits g' = granted_bits g \<union> (\<Union>n \<in> set ns. both_bits p parent n) \<and>
          (\<forall>ci \<in> set cis'. info_ok p parent ci) \<and> ci_node ` set cis' = ci_node ` set (?ci # cis) \<union> set ns)"
        using Cons.IH [of h3 g "?ci # cis"] 5(2) h2 m(2) f(2) Cons.prems(3) by simp
      then show ?case
        unfolding x prod.case by (rule outcome_mono) (auto simp: f(4))
    qed (use t h2 m(2) Cons.prems(2) in simp_all)
  qed
  then have "outcome h (expand_conds p (n # ns) global cis parent h) no_err ?P"
    using m by (auto simp: outcome_def split: sum.splits)
  then show ?case .
qed

lemma expand_parent_ok:
  assumes "mem_ok h"
  obtains g cis h' where "bounds_expand_parent_rules p parent h = Inr ((g, cis), h')" and "mem_ok h'" and "bt_ok g"
    and "granted_bits g = te_bits p parent (set (avtab_nodes (te_avtab p))) \<union> (\<Union>n \<in> set (cond_list p). both_bits p parent n)"
    and "\<forall>ci \<in> set cis. info_ok p parent ci" and "ci_node ` set cis = set (cond_list p)"
proof -
  let ?P = "\<lambda>(g, cis). bt_ok g \<and> granted_bits g = te_bits p parent (set (avtab_nodes (te_avtab p))) \<union> (\<Union>n \<in> set (cond_list p). both_bits p parent n) \<and>
    (\<forall>ci \<in> set cis. info_ok p parent ci) \<and> ci_node ` set cis = set (cond_list p)"
  have init: "avtab_init no_table = no_table" by (simp add: avtab_init_def no_table_def)
  have map: "avtab_map (te_avtab p) f s = nodes_apply f (avtab_nodes (te_avtab p)) s" for f and s :: "(avtab \<times> heap) result"
    by (cases "avtable (te_avtab p)") (simp_all add: avtab_map_def avtab_nodes_def)
  have "outcome h (bounds_expand_parent_rules p parent h) no_err ?P"
    unfolding bounds_expand_parent_rules_def init map
  proof (rule outcome_bind [OF alloc_outcome], simp, rule assms, unfold prod.case)
    fix tab h1
    assume t: "live tab \<and> granted_bits tab = {}" and h1: "mem_ok h \<longrightarrow> mem_ok h1"
    show "outcome h1 (bind_res (snd (nodes_apply (bounds_expand_rule_callback p parent) (avtab_nodes (te_avtab p)) (Inr (tab, h1))))
      (\<lambda>(global, h). expand_conds p (cond_list p) global [] parent h)) no_err ?P"
    proof (rule outcome_bind [OF expand_te_grows], unfold prod.case)
      fix g1 h2
      assume g1: "live g1 \<and> granted_bits g1 = granted_bits tab \<union> te_bits p parent (set (avtab_nodes (te_avtab p)))"
        and h2: "mem_ok h1 \<longrightarrow> mem_ok h2"
      have "mem_ok h2" using h1 h2 assms(1) by simp
      then have "outcome h2 (expand_conds p (cond_list p) g1 [] parent h2) no_err (\<lambda>(g, cis'). live g \<and>
          granted_bits g = granted_bits g1 \<union> (\<Union>n \<in> set (cond_list p). both_bits p parent n) \<and>
          (\<forall>ci \<in> set cis'. info_ok p parent ci) \<and> ci_node ` set cis' = ci_node ` set [] \<union> set (cond_list p))"
        using g1 expand_conds_ok [of h2 g1 "[]" p parent "cond_list p"] by simp
      then show "outcome h2 (expand_conds p (cond_list p) g1 [] parent h2) no_err ?P"
        by (rule outcome_mono) (use g1 t live_bt in auto)
    qed (use t in simp)
  qed
  from outcome_total [OF this assms] obtain x h' where x: "bounds_expand_parent_rules p parent h = Inr (x, h')" "?P x" "mem_ok h'" .
  then show thesis using that by (cases x) simp
qed

section \<open>The rules of the child\<close>

text \<open>
  \<open>silent n r P\<close>: the number of bad rules only grows, from \<open>n\<close>, and it stays \<open>n\<close> exactly if \<open>P\<close> holds.
\<close>

definition silent :: "int \<Rightarrow> ((avtab_node list \<times> int) \<times> heap) result \<Rightarrow> bool \<Rightarrow> bool" where
  "silent n r P \<longleftrightarrow> (\<forall>bad n' h. r = Inr ((bad, n'), h) \<longrightarrow> n \<le> n' \<and> (n' = n \<longleftrightarrow> P))"

lemma silent_bind:
  assumes "silent n r P" "\<And>bad n' h. r = Inr ((bad, n'), h) \<Longrightarrow> silent n' (f ((bad, n'), h)) Q"
  shows "silent n (bind_res r f) (P \<and> Q)"
proof (cases r)
  case (Inl e)
  then show ?thesis by (simp add: silent_def)
next
  case (Inr y)
  obtain bad n1 h1 where y: "y = ((bad, n1), h1)" by (metis surj_pair)
  have "n \<le> n1" "n1 = n \<longleftrightarrow> P" using assms(1) by (simp_all add: silent_def Inr y)
  moreover have "silent n1 (f ((bad, n1), h1)) Q" using assms(2) by (simp add: Inr y)
  ultimately show ?thesis unfolding silent_def Inr y bind_res_simps by fastforce
qed

lemma silent_shift: "silent 0 r P \<Longrightarrow> silent n (bind_res r (\<lambda>((bad, m), h). Inr ((bad, n + m), h))) P"
  by (cases r) (auto simp: silent_def)

lemma silent_cong: "silent n r P \<Longrightarrow> (P \<longleftrightarrow> Q) \<Longrightarrow> silent n r Q"
  by simp

definition child_bits :: "policydb \<Rightarrow> u32 \<Rightarrow> u32 \<Rightarrow> avtab_node \<Rightarrow> (avtab_key \<times> nat) set" where
  "child_bits p child parent n =
     (if ebitmap_get_bit (attr_type_map p ! unat (ucast (source_type (fst n)) - 1 :: u32)) (child - 1)
      then \<Union>i \<in> set (ebitmap_positive_bits (attr_type_map p ! unat (ucast (target_type (fst n)) - 1 :: u32))).
        hits (allow_key parent (bounds_target p i) (ucast (target_class (fst n)))) (data (snd n))
      else {})"

definition tables_bits :: "avtab option \<Rightarrow> avtab \<Rightarrow> (avtab_key \<times> nat) set" where
  "tables_bits g cur = granted_bits cur \<union> (case g of None \<Rightarrow> {} | Some g \<Rightarrow> granted_bits g)"

lemma word_AND_NOT_0: "d AND NOT x = 0 \<longleftrightarrow> (\<forall>b. bit d b \<longrightarrow> bit x b)" for d x :: "'a::len word"
  by (auto simp: bit_eq_iff bit_and_iff bit_not_iff dest: bit_imp_le_length)

lemma not_covered_cov:
  "bounds_not_covered g cur key d = d AND NOT (cov cur key OR (case g of None \<Rightarrow> 0 | Some g \<Rightarrow> cov g key))"
proof -
  have "d AND NOT (x OR y) = (d AND NOT x) AND NOT y" for x y :: u32
    by (simp add: bit.de_Morgan_disj and.assoc)
  then show ?thesis by (auto simp: bounds_not_covered_def cov_def Let_def split: option.splits)
qed

lemma not_covered_hits:
  assumes "specified key = AVTAB_ALLOWED"
  shows "bounds_not_covered g cur key d = 0 \<longleftrightarrow> hits key d \<subseteq> tables_bits g cur"
proof -
  have "bounds_not_covered g cur key d = 0 \<longleftrightarrow> (\<forall>b. bit d b \<longrightarrow> bit (cov cur key) b \<or> (case g of None \<Rightarrow> False | Some g \<Rightarrow> bit (cov g key) b))"
    unfolding not_covered_cov word_AND_NOT_0 bit_or_iff by (cases g) simp_all
  also have "\<dots> \<longleftrightarrow> hits key d \<subseteq> tables_bits g cur"
    using assms by (cases g) (auto simp: hits_def tables_bits_def granted_bits_def)
  finally show ?thesis .
qed

lemma check_targets_silent:
  "silent n (bounds_check_targets p g cur child parent is cls d (bad, n) h)
    ((\<Union>i \<in> set is. hits (allow_key parent (bounds_target p i) cls) d) \<subseteq> tables_bits g cur)"
proof (induction "is" arbitrary: bad n h)
  case Nil
  then show ?case by (simp add: silent_def)
next
  case (Cons i "is")
  let ?key = "allow_key parent (bounds_target p i) cls"
  let ?m = "bounds_not_covered g cur ?key d"
  have spec: "specified ?key = AVTAB_ALLOWED" by simp
  show ?case
  proof (cases "?m = 0")
    case True
    then show ?thesis using silent_cong [OF Cons.IH] not_covered_hits [OF spec] by (simp add: Let_def)
  next
    case False
    have "silent n (bind_res (bounds_add_bad child (i + 1) cls ?m bad h) (\<lambda>(bad, h).
        bounds_check_targets p g cur child parent is cls d (bad, n + 1) h)) False"
    proof (cases "bounds_add_bad child (i + 1) cls ?m bad h")
      case (Inr y)
      then show ?thesis using Cons.IH [of "n + 1" "fst y" "snd y"] by (cases y) (fastforce simp: silent_def)
    qed (simp add: silent_def)
    moreover have "\<not> hits ?key d \<subseteq> tables_bits g cur" using not_covered_hits [OF spec, of g cur d] False by blast
    ultimately show ?thesis using False by (simp add: Let_def)
  qed
qed

lemma check_rule_silent:
  "silent n (bounds_check_rule p g cur child parent nd (bad, n) h) (child_bits p child parent nd \<subseteq> tables_bits g cur)"
  using check_targets_silent by (auto simp: bounds_check_rule_def child_bits_def silent_def)

definition child_list_bits :: "policydb \<Rightarrow> u32 \<Rightarrow> u32 \<Rightarrow> avtab_ptr list \<Rightarrow> (avtab_key \<times> nat) set" where
  "child_list_bits p child parent l =
     (\<Union>q \<in> {q \<in> set l. specified (fst (ptr_node (te_cond_avtab p) q)) AND AVTAB_ALLOWED \<noteq> 0}.
       child_bits p child parent (ptr_node (te_cond_avtab p) q))"

lemma check_cond_rules_silent:
  "silent n (bounds_check_cond_rules p g cur l child parent (bad, n) h)
    (child_list_bits p child parent l \<subseteq> tables_bits (Some g) cur)"
proof (induction l arbitrary: bad n h)
  case Nil
  then show ?case by (simp add: silent_def child_list_bits_def)
next
  case (Cons q l)
  let ?n = "ptr_node (te_cond_avtab p) q"
  show ?case
  proof (cases "specified (fst ?n) AND AVTAB_ALLOWED = 0")
    case True
    then have "child_list_bits p child parent (q # l) = child_list_bits p child parent l" by (auto simp: child_list_bits_def)
    then show ?thesis using Cons.IH True by (simp add: Let_def)
  next
    case False
    then have l: "child_list_bits p child parent (q # l) = child_bits p child parent ?n \<union> child_list_bits p child parent l"
      by (auto simp: child_list_bits_def)
    have "silent n (bind_res (bounds_check_rule p (Some g) cur child parent ?n (bad, n) h) (\<lambda>(b, h).
        bounds_check_cond_rules p g cur l child parent b h))
        (child_bits p child parent ?n \<subseteq> tables_bits (Some g) cur \<and> child_list_bits p child parent l \<subseteq> tables_bits (Some g) cur)"
      by (rule silent_bind [OF check_rule_silent]) (simp add: Cons.IH)
    then show ?thesis using False by (simp add: l Let_def)
  qed
qed

definition child_te_bits :: "policydb \<Rightarrow> u32 \<Rightarrow> u32 \<Rightarrow> avtab_node set \<Rightarrow> (avtab_key \<times> nat) set" where
  "child_te_bits p child parent N = (\<Union>n \<in> {n \<in> N. specified (fst n) AND AVTAB_ALLOWED \<noteq> 0}. child_bits p child parent n)"

lemma check_error: "snd (nodes_apply (bounds_check_rule_callback p cur child parent) ns (Inl e)) = Inl e"
  by (cases ns) (auto simp: bounds_check_rule_callback_def)

lemma check_te_silent:
  "silent n (snd (nodes_apply (bounds_check_rule_callback p cur child parent) ns (Inr ((bad, n), h))))
    (child_te_bits p child parent (set ns) \<subseteq> granted_bits cur)"
proof (induction ns arbitrary: bad n h)
  case Nil
  then show ?case by (simp add: silent_def child_te_bits_def)
next
  case (Cons nd ns)
  obtain k d where nd: "nd = (k, d)" by (cases nd)
  let ?f = "bounds_check_rule_callback p cur child parent"
  show ?case
  proof (cases "specified k AND AVTAB_ALLOWED = 0")
    case True
    then have "child_te_bits p child parent (set (nd # ns)) = child_te_bits p child parent (set ns)"
      by (auto simp: child_te_bits_def nd)
    moreover have "?f k d (Inr ((bad, n), h)) = (0, Inr ((bad, n), h))" using True by (simp add: bounds_check_rule_callback_def)
    ultimately show ?thesis using Cons.IH by (simp add: nd)
  next
    case False
    then have l: "child_te_bits p child parent (set (nd # ns)) = child_bits p child parent nd \<union> child_te_bits p child parent (set ns)"
      by (auto simp: child_te_bits_def nd)
    let ?r = "bounds_check_rule p None cur child parent nd (bad, n) h"
    have "snd (nodes_apply ?f (nd # ns) (Inr ((bad, n), h))) = bind_res ?r (\<lambda>s. snd (nodes_apply ?f ns (Inr s)))"
      using False by (cases ?r) (simp_all add: nd bounds_check_rule_callback_def)
    moreover have "silent n (bind_res ?r (\<lambda>s. snd (nodes_apply ?f ns (Inr s))))
        (child_bits p child parent nd \<subseteq> tables_bits None cur \<and> child_te_bits p child parent (set ns) \<subseteq> granted_bits cur)"
      by (rule silent_bind [OF check_rule_silent]) (rule Cons.IH)
    ultimately show ?thesis unfolding l by (simp add: tables_bits_def del: nodes_apply.simps list.set)
  qed
qed

lemma check_conds_silent:
  "silent n (check_conds p g cis child parent (bad, n) h) (\<forall>ci \<in> set cis.
    child_list_bits p child parent (true_list (ci_node ci)) \<subseteq> tables_bits (Some g) (true_avtab ci) \<and>
    child_list_bits p child parent (false_list (ci_node ci)) \<subseteq> tables_bits (Some g) (false_avtab ci))"
proof (induction cis arbitrary: bad n h)
  case Nil
  then show ?case by (simp add: silent_def)
next
  case (Cons ci cis)
  have "silent n (check_conds p g (ci # cis) child parent (bad, n) h)
      (child_list_bits p child parent (true_list (ci_node ci)) \<subseteq> tables_bits (Some g) (true_avtab ci) \<and>
       child_list_bits p child parent (false_list (ci_node ci)) \<subseteq> tables_bits (Some g) (false_avtab ci) \<and>
       (\<forall>ci \<in> set cis. child_list_bits p child parent (true_list (ci_node ci)) \<subseteq> tables_bits (Some g) (true_avtab ci) \<and>
          child_list_bits p child parent (false_list (ci_node ci)) \<subseteq> tables_bits (Some g) (false_avtab ci)))"
    unfolding check_conds.simps
    by (rule silent_bind [OF check_cond_rules_silent], unfold prod.case,
        rule silent_bind [OF check_cond_rules_silent], unfold prod.case, rule Cons.IH)
  then show ?case by (rule silent_cong) simp
qed

text \<open>What a silent check of one pair of types means for the sets of permissions.\<close>

definition within_bounds :: "policydb \<Rightarrow> u32 \<Rightarrow> u32 \<Rightarrow> bool" where
  "within_bounds p child parent \<longleftrightarrow>
     (let G = te_bits p parent (set (avtab_nodes (te_avtab p))) \<union> (\<Union>n \<in> set (cond_list p). both_bits p parent n) in
      child_te_bits p child parent (set (avtab_nodes (te_avtab p))) \<subseteq> G \<and>
      (\<forall>n \<in> set (cond_list p).
         child_list_bits p child parent (true_list n) \<subseteq> list_bits p parent (true_list n) \<union> G \<and>
         child_list_bits p child parent (false_list n) \<subseteq> list_bits p parent (false_list n) \<union> G))"

section \<open>With memory\<close>

text \<open>With memory the check of the rules of the child returns.\<close>

definition returns :: "heap \<Rightarrow> ('a \<times> heap) result \<Rightarrow> bool" where
  "returns h r \<longleftrightarrow> outcome h r no_err (\<lambda>_. True)"

lemma returns_bind:
  "returns h r \<Longrightarrow> (\<And>x h'. r = Inr (x, h') \<Longrightarrow> returns h' (f (x, h'))) \<Longrightarrow> returns h (bind_res r f)"
  unfolding returns_def by (rule outcome_bind)

lemma check_targets_returns: "returns h (bounds_check_targets p g cur child parent is cls d b h)"
proof (induction "is" arbitrary: b h)
  case Nil
  then show ?case by (cases b) (simp add: returns_def)
next
  case (Cons i "is")
  have bad: "returns h (bounds_add_bad src tgt cls m bad h)" for src tgt m bad
    by (cases "malloc h") (auto simp: returns_def bounds_add_bad_def dest: malloc_okD)
  show ?case
    by (cases b) (auto simp: Let_def intro!: returns_bind [OF bad] Cons.IH)
qed

lemma check_rule_returns: "returns h (bounds_check_rule p g cur child parent n b h)"
  using check_targets_returns by (auto simp: bounds_check_rule_def returns_def)

lemma check_cond_rules_returns: "returns h (bounds_check_cond_rules p g cur l child parent b h)"
proof (induction l arbitrary: b h)
  case Nil
  then show ?case by (simp add: returns_def)
next
  case (Cons q l)
  show ?case by (auto simp: Let_def intro!: Cons.IH returns_bind [OF check_rule_returns])
qed

lemma check_conds_returns: "returns h (check_conds p g cis child parent b h)"
proof (induction cis arbitrary: b h)
  case Nil
  then show ?case by (simp add: returns_def)
next
  case (Cons ci cis)
  show ?case by (auto intro!: Cons.IH returns_bind [OF check_cond_rules_returns])
qed

lemma check_te_returns:
  "returns h (snd (nodes_apply (bounds_check_rule_callback p cur child parent) ns (Inr (b, h))))"
proof (induction ns arbitrary: b h)
  case Nil
  then show ?case by (simp add: returns_def)
next
  case (Cons nd ns)
  obtain k d where nd: "nd = (k, d)" by (cases nd)
  let ?f = "bounds_check_rule_callback p cur child parent"
  show ?case
  proof (cases "specified k AND AVTAB_ALLOWED = 0")
    case True
    then show ?thesis using Cons.IH by (simp add: nd bounds_check_rule_callback_def)
  next
    case False
    let ?r = "bounds_check_rule p None cur child parent nd b h"
    have "snd (nodes_apply ?f (nd # ns) (Inr (b, h))) = bind_res ?r (\<lambda>s. snd (nodes_apply ?f ns (Inr s)))"
      using False by (cases ?r) (simp_all add: nd bounds_check_rule_callback_def)
    then show ?thesis by (auto intro!: Cons.IH returns_bind [OF check_rule_returns])
  qed
qed

lemma check_type_exact:
  assumes "mem_ok h"
  obtains bad n' h' where "bounds_check_type p child parent n h = Inr ((bad, n'), h')" and "mem_ok h'"
    and "n \<le> n'" and "n' = n \<longleftrightarrow> within_bounds p child parent"
proof -
  obtain g cis h1 where par: "bounds_expand_parent_rules p parent h = Inr ((g, cis), h1)" "mem_ok h1" "bt_ok g"
      "granted_bits g = te_bits p parent (set (avtab_nodes (te_avtab p))) \<union> (\<Union>n \<in> set (cond_list p). both_bits p parent n)"
      "\<forall>ci \<in> set cis. info_ok p parent ci" "ci_node ` set cis = set (cond_list p)"
    using expand_parent_ok [OF assms] .
  let ?G = "te_bits p parent (set (avtab_nodes (te_avtab p))) \<union> (\<Union>n \<in> set (cond_list p). both_bits p parent n)"
  let ?te = "child_te_bits p child parent (set (avtab_nodes (te_avtab p))) \<subseteq> granted_bits g"
  let ?ci = "\<forall>ci \<in> set cis.
    child_list_bits p child parent (true_list (ci_node ci)) \<subseteq> tables_bits (Some g) (true_avtab ci) \<and>
    child_list_bits p child parent (false_list (ci_node ci)) \<subseteq> tables_bits (Some g) (false_avtab ci)"
  let ?L = "\<lambda>m. child_list_bits p child parent (true_list m) \<subseteq> list_bits p parent (true_list m) \<union> ?G \<and>
    child_list_bits p child parent (false_list m) \<subseteq> list_bits p parent (false_list m) \<union> ?G"
  have map: "avtab_map (te_avtab p) f s = nodes_apply f (avtab_nodes (te_avtab p)) s"
    for f and s :: "((avtab_node list \<times> int) \<times> heap) result"
    by (cases "avtable (te_avtab p)") (simp_all add: avtab_map_def avtab_nodes_def)
  let ?r = "bind_res (snd (nodes_apply (bounds_check_rule_callback p g child parent) (avtab_nodes (te_avtab p)) (Inr (([], 0), h1)))) (\<lambda>(b, h).
      check_conds p g cis child parent b h)"
  have r: "silent 0 ?r (?te \<and> ?ci)"
    by (rule silent_bind [OF check_te_silent]) (simp add: check_conds_silent)
  have ret: "returns h1 ?r"
    by (rule returns_bind [OF check_te_returns]) (simp add: check_conds_returns)
  have run: "bounds_check_type p child parent n h = bind_res ?r (\<lambda>((bad, m), h). Inr ((bad, n + m), h))"
    by (simp add: bounds_check_type_def par(1) bounds_check_child_rules_def map bind_res_def split: sum.splits prod.splits)
  obtain x h2 where x: "?r = Inr (x, h2)" "mem_ok h2" using outcome_total [OF ret [unfolded returns_def] par(2)] by blast
  obtain bad m where y: "x = (bad, m)" by (cases x)
  have out: "bounds_check_type p child parent n h = Inr ((bad, n + m), h2)" by (simp add: run x(1) y)
  have "?ci \<longleftrightarrow> (\<forall>m \<in> ci_node ` set cis. ?L m)"
    using par(4,5) by (auto simp: tables_bits_def info_ok_def)
  then have "?te \<and> ?ci \<longleftrightarrow> within_bounds p child parent"
    unfolding within_bounds_def Let_def par(6) par(4) by blast
  moreover have "0 \<le> m \<and> (m = 0 \<longleftrightarrow> ?te \<and> ?ci)" using r unfolding silent_def x(1) y by blast
  ultimately show thesis using that [OF out x(2)] by simp
qed

end
