(* ===== verification/Hierarchy_Sound.thy ===== *)
theory Hierarchy_Sound
  imports Hierarchy_Bounds
begin

text \<open>
  The result of \<open>hierarchy_check_constraints\<close> in terms of the policy: what a bounded type is allowed, whichever list
  of each conditional is in force, is counted for its parent. Where all conditional rules are allow rules,
  the parent is allowed it.
\<close>

unbundle bit_operations_syntax

section \<open>What the policy allows\<close>

text \<open>The type or attribute \<open>a\<close> of a rule stands for the type \<open>t\<close>.\<close>

definition stands :: "policydb \<Rightarrow> u16 \<Rightarrow> u32 \<Rightarrow> bool" where
  "stands p a t \<longleftrightarrow> ebitmap_get_bit (attr_type_map p ! unat (ucast a - 1 :: u32)) (t - 1)"

definition rule_allows :: "policydb \<Rightarrow> avtab_node \<Rightarrow> u32 \<Rightarrow> u32 \<Rightarrow> u16 \<Rightarrow> nat \<Rightarrow> bool" where
  "rule_allows p n s t c b \<longleftrightarrow> stands p (source_type (fst n)) s \<and> stands p (target_type (fst n)) t \<and>
     target_class (fst n) = c \<and> bit (data (snd n)) b"

definition allow_rule :: "avtab_node \<Rightarrow> bool" where
  "allow_rule n \<longleftrightarrow> specified (fst n) AND AVTAB_ALLOWED \<noteq> 0"

text \<open>The allow rules in force when the conditionals have the values \<open>v\<close>.\<close>

definition force :: "policydb \<Rightarrow> (cond_node \<Rightarrow> int) \<Rightarrow> avtab_node set" where
  "force p v = set (avtab_nodes (te_avtab p)) \<union> ptr_node (te_cond_avtab p) ` actives v (cond_list p)"

definition policy_allows :: "policydb \<Rightarrow> (cond_node \<Rightarrow> int) \<Rightarrow> u32 \<Rightarrow> u32 \<Rightarrow> u16 \<Rightarrow> nat \<Rightarrow> bool" where
  "policy_allows p v s t c b \<longleftrightarrow> (\<exists>n \<in> force p v. allow_rule n \<and> rule_allows p n s t c b)"

text \<open>Sizes: types fit into the 16 bits of a key.\<close>

definition hier_ready :: "policydb \<Rightarrow> bool" where
  "hier_ready p \<longleftrightarrow> unat (nprim (p_types p)) < 2 ^ 16 \<and> length (type_val_to_struct p) = unat (nprim (p_types p)) \<and>
     length (attr_type_map p) = unat (nprim (p_types p)) \<and>
     (\<forall>e \<in> set (attr_type_map p). ebitmap_wf e \<and> (\<forall>i. ebitmap_get_bit e i \<longrightarrow> i < nprim (p_types p))) \<and>
     (\<forall>td. Some td \<in> set (type_val_to_struct p) \<longrightarrow> type_bounds td \<le> nprim (p_types p)) \<and>
     (\<forall>n \<in> set (avtab_nodes (te_avtab p)) \<union> ptr_node (te_cond_avtab p) ` all_ptrs (cond_list p).
        target_type (fst n) \<noteq> 0 \<and> ucast (target_type (fst n)) \<le> nprim (p_types p))"

lemma map_entry:
  assumes "hier_ready p" "a \<noteq> 0" "ucast (a :: u16) \<le> nprim (p_types p)"
  shows "attr_type_map p ! unat (ucast a - 1 :: u32) \<in> set (attr_type_map p)"
proof -
  have "ucast a - 1 < nprim (p_types p)" using assms(2,3) by (intro word_pred_less) (simp_all add: ucast_up_0)
  then show ?thesis using assms(1) by (intro nth_mem) (simp add: hier_ready_def word_less_nat_alt)
qed

lemma small_ucast:
  assumes "unat (x :: u32) < 2 ^ 16" "unat y < 2 ^ 16"
  shows "(ucast x :: u16) = ucast y \<longleftrightarrow> x = y"
proof
  assume e: "(ucast x :: u16) = ucast y"
  have "unat (ucast x :: u16) = unat x" "unat (ucast y :: u16) = unat y"
    using assms by (simp_all add: unsigned_ucast_eq take_bit_nat_eq_self)
  then show "x = y" using e by (metis word_eq_unatI)
qed simp

text \<open>The bits of the tables are the permissions of the rules.\<close>

lemma in_rule_bits:
  assumes "hier_ready p" "n \<in> set (avtab_nodes (te_avtab p)) \<union> ptr_node (te_cond_avtab p) ` all_ptrs (cond_list p)"
    and t: "t \<noteq> 0" "t \<le> nprim (p_types p)" and "(allow_key parent t (ucast c), b) \<in> rule_bits p parent n"
  shows "rule_allows p n parent t c b"
proof -
  let ?e = "attr_type_map p ! unat (ucast (target_type (fst n)) - 1 :: u32)"
  have tgt: "target_type (fst n) \<noteq> 0" "ucast (target_type (fst n)) \<le> nprim (p_types p)"
    using assms(1,2) by (auto simp: hier_ready_def)
  have e: "ebitmap_wf ?e" "\<And>i. ebitmap_get_bit ?e i \<Longrightarrow> i < nprim (p_types p)"
    using map_entry [OF assms(1) tgt] assms(1) by (auto simp: hier_ready_def)
  obtain i where i: "i \<in> set (ebitmap_positive_bits ?e)" "(ucast (i + 1) :: u16) = ucast t"
      "(ucast (ucast (target_class (fst n)) :: u32) :: u16) = ucast (ucast c :: u32)" "bit (data (snd n)) b"
    and src: "ebitmap_get_bit (attr_type_map p ! unat (ucast (source_type (fst n)) - 1 :: u32)) (parent - 1)"
    using assms(5) by (auto simp: rule_bits_def hits_def split: if_splits)
  have bit: "ebitmap_get_bit ?e i" using i(1) positive_bits_iff [OF e(1)] by simp
  have "unat (i + 1) = unat i + 1" by (rule unat_plus_one [OF e(2) [OF bit]])
  then have "unat (i + 1) < 2 ^ 16" "unat t < 2 ^ 16"
    using e(2) [OF bit] t(2) assms(1) by (simp_all add: hier_ready_def word_less_nat_alt word_le_nat_alt)
  then have "i + 1 = t" using small_ucast i(2) by blast
  then have "i = t - 1" by auto
  moreover have "target_class (fst n) = c" using i(3) by (simp add: ucast_down_ucast_id is_down)
  ultimately show ?thesis using src bit i(4) by (simp add: rule_allows_def stands_def)
qed

lemma in_child_bits:
  assumes "hier_ready p" "n \<in> set (avtab_nodes (te_avtab p)) \<union> ptr_node (te_cond_avtab p) ` all_ptrs (cond_list p)"
    and "rule_allows p n child t c b"
  shows "(allow_key parent (bounds_target p (t - 1)) (ucast c), b) \<in> child_bits p child parent n"
proof -
  let ?e = "attr_type_map p ! unat (ucast (target_type (fst n)) - 1 :: u32)"
  have tgt: "target_type (fst n) \<noteq> 0" "ucast (target_type (fst n)) \<le> nprim (p_types p)"
    using assms(1,2) by (auto simp: hier_ready_def)
  have e: "ebitmap_wf ?e" using map_entry [OF assms(1) tgt] assms(1) by (auto simp: hier_ready_def)
  have "t - 1 \<in> set (ebitmap_positive_bits ?e)"
    using assms(3) positive_bits_iff [OF e] by (simp add: rule_allows_def stands_def)
  then show ?thesis using assms(3) by (auto simp: child_bits_def hits_def rule_allows_def stands_def)
qed

lemma rule_bits_iff:
  assumes "hier_ready p" "n \<in> set (avtab_nodes (te_avtab p)) \<union> ptr_node (te_cond_avtab p) ` all_ptrs (cond_list p)"
    and t: "t \<noteq> 0" "t \<le> nprim (p_types p)"
  shows "(allow_key parent t (ucast c), b) \<in> rule_bits p parent n \<longleftrightarrow> rule_allows p n parent t c b"
proof
  let ?e = "attr_type_map p ! unat (ucast (target_type (fst n)) - 1 :: u32)"
  have tgt: "target_type (fst n) \<noteq> 0" "ucast (target_type (fst n)) \<le> nprim (p_types p)"
    using assms(1,2) by (auto simp: hier_ready_def)
  have e: "ebitmap_wf ?e" using map_entry [OF assms(1) tgt] assms(1) by (auto simp: hier_ready_def)
  assume "rule_allows p n parent t c b"
  then have "t - 1 \<in> set (ebitmap_positive_bits ?e)" and r: "rule_allows p n parent t c b"
    using positive_bits_iff [OF e] by (simp_all add: rule_allows_def stands_def)
  moreover have "t = t - 1 + 1" by simp
  ultimately show "(allow_key parent t (ucast c), b) \<in> rule_bits p parent n"
    by (auto simp: rule_bits_def hits_def rule_allows_def stands_def intro!: bexI [of _ "t - 1"])
qed (rule in_rule_bits [OF assms])

lemma child_bits_cases:
  assumes "hier_ready p" "n \<in> set (avtab_nodes (te_avtab p)) \<union> ptr_node (te_cond_avtab p) ` all_ptrs (cond_list p)"
    and "x \<in> child_bits p child parent n"
  obtains t c b where "t \<noteq> 0" "t \<le> nprim (p_types p)" "rule_allows p n child t c b"
    "x = (allow_key parent (bounds_target p (t - 1)) (ucast c), b)"
proof -
  let ?e = "attr_type_map p ! unat (ucast (target_type (fst n)) - 1 :: u32)"
  have tgt: "target_type (fst n) \<noteq> 0" "ucast (target_type (fst n)) \<le> nprim (p_types p)"
    using assms(1,2) by (auto simp: hier_ready_def)
  have e: "ebitmap_wf ?e" "\<And>i. ebitmap_get_bit ?e i \<Longrightarrow> i < nprim (p_types p)"
    using map_entry [OF assms(1) tgt] assms(1) by (auto simp: hier_ready_def)
  obtain i b where i: "i \<in> set (ebitmap_positive_bits ?e)" "bit (data (snd n)) b"
      "x = (allow_key parent (bounds_target p i) (ucast (target_class (fst n))), b)"
    and src: "ebitmap_get_bit (attr_type_map p ! unat (ucast (source_type (fst n)) - 1 :: u32)) (child - 1)"
    using assms(3) by (auto simp: child_bits_def hits_def split: if_splits)
  have bit: "ebitmap_get_bit ?e i" using i(1) positive_bits_iff [OF e(1)] by simp
  have u: "unat (i + 1) = unat i + 1" by (rule unat_plus_one [OF e(2) [OF bit]])
  show thesis
  proof (rule that)
    show "i + 1 \<noteq> 0" using u by (metis Suc_eq_plus1 nat.distinct(1) unat_0)
    show "i + 1 \<le> nprim (p_types p)" using e(2) [OF bit] u by (simp add: word_le_nat_alt word_less_nat_alt)
    show "rule_allows p n child (i + 1) (target_class (fst n)) b"
      using src bit i(2) by (simp add: rule_allows_def stands_def)
    show "x = (allow_key parent (bounds_target p (i + 1 - 1)) (ucast (target_class (fst n))), b)" using i(3) by simp
  qed
qed

section \<open>The check of one pair of types\<close>

text \<open>
  What the check takes for allowed to the parent: the expansion of a conditional list does not look at the kind of the
  rules, so it counts every conditional rule as an allow rule.
\<close>

definition counted_allows :: "policydb \<Rightarrow> (cond_node \<Rightarrow> int) \<Rightarrow> u32 \<Rightarrow> u32 \<Rightarrow> u16 \<Rightarrow> nat \<Rightarrow> bool" where
  "counted_allows p v s t c b \<longleftrightarrow>
     (\<exists>n \<in> set (avtab_nodes (te_avtab p)). allow_rule n \<and> rule_allows p n s t c b) \<or>
     (\<exists>q \<in> actives v (cond_list p). rule_allows p (ptr_node (te_cond_avtab p) q) s t c b)"

text \<open>The bounds of a target type, or the type itself without any.\<close>

definition target_bound :: "policydb \<Rightarrow> u32 \<Rightarrow> u32" where
  "target_bound p t = (case type_val_to_struct p ! (unat t - 1) of
     Some td \<Rightarrow> if type_bounds td = 0 then t else type_bounds td | None \<Rightarrow> t)"

lemma bounds_target_bound: "t \<noteq> 0 \<Longrightarrow> bounds_target p (t - 1) = target_bound p t"
proof -
  assume "t \<noteq> 0"
  then have "1 \<le> t" by (simp add: word_le_nat_alt Suc_leI unat_gt_0)
  then have "unat (t - 1) = unat t - 1" by (simp add: unat_sub)
  then show ?thesis by (simp add: bounds_target_def target_bound_def split: option.split)
qed

definition type_covered :: "policydb \<Rightarrow> u32 \<Rightarrow> u32 \<Rightarrow> bool" where
  "type_covered p child parent \<longleftrightarrow> (\<forall>v t c b. (\<forall>n. 0 \<le> v n) \<longrightarrow> t \<noteq> 0 \<longrightarrow> t \<le> nprim (p_types p) \<longrightarrow>
     policy_allows p v child t c b \<longrightarrow> counted_allows p v parent (target_bound p t) c b)"

definition type_bounded :: "policydb \<Rightarrow> u32 \<Rightarrow> u32 \<Rightarrow> bool" where
  "type_bounded p child parent \<longleftrightarrow> (\<forall>v t c b. (\<forall>n. 0 \<le> v n) \<longrightarrow> t \<noteq> 0 \<longrightarrow> t \<le> nprim (p_types p) \<longrightarrow>
     policy_allows p v child t c b \<longrightarrow> policy_allows p v parent (target_bound p t) c b)"

lemma type_covered_alt:
  "type_covered p child parent \<longleftrightarrow> (\<forall>v t c b. (\<forall>n. 0 \<le> v n) \<longrightarrow> t \<noteq> 0 \<longrightarrow> t \<le> nprim (p_types p) \<longrightarrow>
     policy_allows p v child t c b \<longrightarrow> counted_allows p v parent (bounds_target p (t - 1)) c b)"
  unfolding type_covered_def using bounds_target_bound by metis

text \<open>Without conditional rules of another kind the two agree.\<close>

definition only_allow :: "policydb \<Rightarrow> bool" where
  "only_allow p \<longleftrightarrow> (\<forall>q \<in> all_ptrs (cond_list p). allow_rule (ptr_node (te_cond_avtab p) q))"

lemma counted_policy: "only_allow p \<Longrightarrow> counted_allows p v s t c b \<Longrightarrow> policy_allows p v s t c b"
  using actives_subset [of v "cond_list p"]
  by (auto simp: counted_allows_def policy_allows_def force_def only_allow_def)

lemma bounds_target_ok:
  assumes "hier_ready p" "t \<noteq> 0" "t \<le> nprim (p_types p)"
  shows "bounds_target p (t - 1) \<noteq> 0" "bounds_target p (t - 1) \<le> nprim (p_types p)"
proof -
  have "t - 1 < nprim (p_types p)" by (rule word_pred_less [OF assms(2,3)])
  then have "type_val_to_struct p ! unat (t - 1) \<in> set (type_val_to_struct p)"
    using assms(1) by (intro nth_mem) (simp add: hier_ready_def word_less_nat_alt)
  then have "Some td = type_val_to_struct p ! unat (t - 1) \<Longrightarrow> type_bounds td \<le> nprim (p_types p)" for td
    using assms(1) unfolding hier_ready_def by metis
  then show "bounds_target p (t - 1) \<noteq> 0" "bounds_target p (t - 1) \<le> nprim (p_types p)"
    using assms(2,3) by (auto simp: bounds_target_def split: option.splits)
qed

text \<open>The sets of bits that \<open>within_bounds\<close> compares, for given values \<open>v\<close> of the conditionals.\<close>

definition common_bits :: "policydb \<Rightarrow> u32 \<Rightarrow> (avtab_key \<times> nat) set" where
  "common_bits p parent = te_bits p parent (set (avtab_nodes (te_avtab p))) \<union> (\<Union>n \<in> set (cond_list p). both_bits p parent n)"

lemma within_bounds_common:
  "within_bounds p child parent \<longleftrightarrow>
     child_te_bits p child parent (set (avtab_nodes (te_avtab p))) \<subseteq> common_bits p parent \<and>
     (\<forall>n \<in> set (cond_list p).
        child_list_bits p child parent (true_list n) \<subseteq> list_bits p parent (true_list n) \<union> common_bits p parent \<and>
        child_list_bits p child parent (false_list n) \<subseteq> list_bits p parent (false_list n) \<union> common_bits p parent)"
  by (simp add: within_bounds_def common_bits_def Let_def)

lemma counted_bits:
  assumes ready: "hier_ready p" and t: "t \<noteq> 0" "t \<le> nprim (p_types p)"
  shows "counted_allows p v parent t c b \<longleftrightarrow>
    (allow_key parent t (ucast c), b) \<in> te_bits p parent (set (avtab_nodes (te_avtab p))) \<union>
      (\<Union>n \<in> set (cond_list p). list_bits p parent (active (v n) n))"
proof -
  let ?x = "(allow_key parent t (ucast c), b)"
  have te: "rule_allows p n parent t c b \<longleftrightarrow> ?x \<in> rule_bits p parent n" if "n \<in> set (avtab_nodes (te_avtab p))" for n
    using rule_bits_iff [OF ready _ t] that by blast
  have cond: "rule_allows p (ptr_node (te_cond_avtab p) q) parent t c b \<longleftrightarrow> ?x \<in> rule_bits p parent (ptr_node (te_cond_avtab p) q)"
    if "q \<in> actives v (cond_list p)" for q
    using rule_bits_iff [OF ready _ t] that actives_subset by blast
  have "(\<exists>n \<in> set (avtab_nodes (te_avtab p)). allow_rule n \<and> rule_allows p n parent t c b) \<longleftrightarrow>
      ?x \<in> te_bits p parent (set (avtab_nodes (te_avtab p)))"
    using te by (auto simp: te_bits_def allow_rule_def)
  moreover have "(\<exists>q \<in> actives v (cond_list p). rule_allows p (ptr_node (te_cond_avtab p) q) parent t c b) \<longleftrightarrow>
      ?x \<in> (\<Union>n \<in> set (cond_list p). list_bits p parent (active (v n) n))"
    using cond by (fastforce simp: list_bits_def actives_def)
  ultimately show ?thesis by (simp add: counted_allows_def)
qed

lemma common_counted:
  assumes "\<forall>n. 0 \<le> v n" "x \<in> common_bits p parent"
  shows "x \<in> te_bits p parent (set (avtab_nodes (te_avtab p))) \<union> (\<Union>n \<in> set (cond_list p). list_bits p parent (active (v n) n))"
proof -
  have "both_bits p parent n \<subseteq> list_bits p parent (active (v n) n)" for n
    using assms(1) by (auto simp: both_bits_def active_def not_less intro: antisym)
  then show ?thesis using assms(2) unfolding common_bits_def by blast
qed

text \<open>The values that are the worst for a permission: every conditional takes a list without it, if there is one.\<close>

definition worst :: "policydb \<Rightarrow> u32 \<Rightarrow> avtab_key \<times> nat \<Rightarrow> cond_node \<Rightarrow> int" where
  "worst p parent x n = (if x \<in> list_bits p parent (true_list n) then 0 else 1)"

lemma worst_common:
  assumes "x \<in> list_bits p parent (active (worst p parent x n) n)" "n \<in> set (cond_list p)"
  shows "x \<in> common_bits p parent"
  using assms by (auto simp: worst_def active_def common_bits_def both_bits_def split: if_splits)

lemma within_bounds_iff:
  assumes ready: "hier_ready p"
  shows "within_bounds p child parent \<longleftrightarrow> type_covered p child parent"
proof
  let ?te = "set (avtab_nodes (te_avtab p))" and ?node = "ptr_node (te_cond_avtab p)"
  assume "within_bounds p child parent"
  then have bounds: "child_te_bits p child parent ?te \<subseteq> common_bits p parent"
    "\<And>n. n \<in> set (cond_list p) \<Longrightarrow> child_list_bits p child parent (true_list n) \<subseteq> list_bits p parent (true_list n) \<union> common_bits p parent"
    "\<And>n. n \<in> set (cond_list p) \<Longrightarrow> child_list_bits p child parent (false_list n) \<subseteq> list_bits p parent (false_list n) \<union> common_bits p parent"
    unfolding within_bounds_common by blast+
  show "type_covered p child parent"
    unfolding type_covered_alt
  proof (intro allI impI)
    fix v t c b
    assume v: "\<forall>n. 0 \<le> v n" and t: "t \<noteq> 0" "t \<le> nprim (p_types p)" and allow: "policy_allows p v child t c b"
    let ?x = "(allow_key parent (bounds_target p (t - 1)) (ucast c), b)"
    obtain n where n: "n \<in> force p v" "allow_rule n" "rule_allows p n child t c b" using allow by (auto simp: policy_allows_def)
    have "?x \<in> te_bits p parent ?te \<union> (\<Union>n \<in> set (cond_list p). list_bits p parent (active (v n) n))"
      using n(1) unfolding force_def
    proof
      assume te: "n \<in> ?te"
      then have "?x \<in> child_bits p child parent n" using in_child_bits [OF ready _ n(3)] by blast
      then have "?x \<in> child_te_bits p child parent ?te" using te n(2) by (auto simp: child_te_bits_def allow_rule_def)
      then show ?thesis using bounds(1) common_counted [OF v] by blast
    next
      assume "n \<in> ?node ` actives v (cond_list p)"
      then obtain q m where q: "n = ?node q" "q \<in> set (active (v m) m)" "m \<in> set (cond_list p)" by (auto simp: actives_def)
      have "q \<in> all_ptrs (cond_list p)" using q(2,3) active_subset [of "v m" m] by (auto simp: all_ptrs_def)
      then have "?x \<in> child_bits p child parent n" using in_child_bits [OF ready _ n(3)] q(1) by blast
      then have "?x \<in> child_list_bits p child parent (active (v m) m)" using q n(2) by (auto simp: child_list_bits_def allow_rule_def)
      then have "?x \<in> list_bits p parent (active (v m) m) \<union> common_bits p parent"
        using bounds(2,3) [OF q(3)] v [rule_format, of m] by (auto simp: active_def split: if_splits)
      then show ?thesis using q(3) common_counted [OF v] by blast
    qed
    then show "counted_allows p v parent (bounds_target p (t - 1)) c b"
      using counted_bits [OF ready bounds_target_ok [OF ready t]] by blast
  qed
next
  let ?te = "set (avtab_nodes (te_avtab p))" and ?node = "ptr_node (te_cond_avtab p)"
  assume covered: "type_covered p child parent"
  have counted: "x \<in> te_bits p parent ?te \<union> (\<Union>n \<in> set (cond_list p). list_bits p parent (active (v n) n))"
    if x: "x \<in> child_bits p child parent n" and n: "n \<in> force p v" "allow_rule n" and v: "\<forall>n. 0 \<le> v n" for x n v
  proof -
    have "n \<in> ?te \<union> ?node ` all_ptrs (cond_list p)" using n(1) actives_subset unfolding force_def by blast
    from child_bits_cases [OF ready this x] obtain t c b where t: "t \<noteq> 0" "t \<le> nprim (p_types p)"
      and r: "rule_allows p n child t c b" and x': "x = (allow_key parent (bounds_target p (t - 1)) (ucast c), b)" .
    have "policy_allows p v child t c b" using n r by (auto simp: policy_allows_def)
    then have "counted_allows p v parent (bounds_target p (t - 1)) c b" using covered v t unfolding type_covered_alt by blast
    then show ?thesis unfolding x' using counted_bits [OF ready bounds_target_ok [OF ready t]] by blast
  qed
  have te: "x \<in> common_bits p parent" if x: "x \<in> child_te_bits p child parent ?te" for x
  proof -
    obtain n where n: "n \<in> ?te" "allow_rule n" "x \<in> child_bits p child parent n"
      using x unfolding child_te_bits_def allow_rule_def by blast
    have "n \<in> force p (worst p parent x)" using n(1) by (simp add: force_def)
    moreover have "\<forall>n. 0 \<le> worst p parent x n" by (simp add: worst_def)
    ultimately have "x \<in> te_bits p parent ?te \<union> (\<Union>n \<in> set (cond_list p). list_bits p parent (active (worst p parent x n) n))"
      by (rule counted [OF n(3) _ n(2)])
    then show ?thesis using worst_common [of x p parent] unfolding common_bits_def by blast
  qed
  have list: "x \<in> list_bits p parent l \<union> common_bits p parent"
    if x: "x \<in> child_list_bits p child parent l" and m: "m \<in> set (cond_list p)" and l: "l = active k m" "0 \<le> k" for x l m k
  proof -
    let ?v = "(worst p parent x)(m := k)"
    obtain q where q: "q \<in> set l" "allow_rule (?node q)" "x \<in> child_bits p child parent (?node q)"
      using x by (auto simp: child_list_bits_def allow_rule_def)
    have "q \<in> set (active (?v m) m)" using q(1) l(1) by simp
    then have "q \<in> actives ?v (cond_list p)" using m unfolding actives_def by blast
    then have "?node q \<in> force p ?v" unfolding force_def by blast
    moreover have "\<forall>n. 0 \<le> ?v n" using l(2) by (simp add: worst_def)
    ultimately have "x \<in> te_bits p parent ?te \<union> (\<Union>n \<in> set (cond_list p). list_bits p parent (active (?v n) n))"
      by (rule counted [OF q(3) _ q(2)])
    then show ?thesis
    proof
      assume "x \<in> (\<Union>n \<in> set (cond_list p). list_bits p parent (active (?v n) n))"
      then obtain n where n: "n \<in> set (cond_list p)" "x \<in> list_bits p parent (active (?v n) n)" by blast
      then show ?thesis using worst_common [OF _ n(1), of x parent] l(1) by (cases "n = m") auto
    qed (simp add: common_bits_def)
  qed
  have "true_list n = active 1 n" "false_list n = active 0 n" for n by (simp_all add: active_def)
  then show "within_bounds p child parent"
    unfolding within_bounds_common using te list by (metis subsetI zero_le_one order_refl)
qed

section \<open>All types, roles and users\<close>

definition entries :: "'d symtab \<Rightarrow> (string \<times> 'd) set" where
  "entries s = (case table s of None \<Rightarrow> {} | Some h \<Rightarrow> set (concat (htable h)))"

definition types_bounded :: "policydb \<Rightarrow> bool" where
  "types_bounded p \<longleftrightarrow> (\<forall>(k, d) \<in> entries (p_types p). type_bounds d \<noteq> 0 \<longrightarrow> type_bounded p (type_value d) (type_bounds d))"

definition types_covered :: "policydb \<Rightarrow> bool" where
  "types_covered p \<longleftrightarrow> (\<forall>(k, d) \<in> entries (p_types p). type_bounds d \<noteq> 0 \<longrightarrow> type_covered p (type_value d) (type_bounds d))"

lemma covered_bounded: "only_allow p \<Longrightarrow> types_covered p \<Longrightarrow> types_bounded p"
  unfolding types_covered_def types_bounded_def type_covered_def type_bounded_def using counted_policy by blast

definition roles_bounded :: "policydb \<Rightarrow> bool" where
  "roles_bounded p \<longleftrightarrow> (\<forall>(k, r) \<in> entries (p_roles p). role_bounds r \<noteq> 0 \<longrightarrow>
     (\<forall>rp. val_struct (role_val_to_struct p) (role_bounds r) = Some rp \<longrightarrow> ebitmap_contains (role_types rp) (role_types r)))"

definition users_bounded :: "policydb \<Rightarrow> bool" where
  "users_bounded p \<longleftrightarrow> (\<forall>(k, u) \<in> entries (p_users p). user_bounds u \<noteq> 0 \<longrightarrow>
     (\<forall>up. val_struct (user_val_to_struct p) (user_bounds u) = Some up \<longrightarrow> ebitmap_contains (user_roles up) (user_roles u)))"

lemma map_entries: "hashtab_map (table s) f a = chain_apply f (case table s of None \<Rightarrow> [] | Some h \<Rightarrow> concat (htable h)) a"
  by (cases "table s") (simp add: hashtab_map_def, simp add: hashtab_map_entries)

lemma entries_set: "entries s = set (case table s of None \<Rightarrow> [] | Some h \<Rightarrow> concat (htable h))"
  by (cases "table s") (simp_all add: entries_def)

text \<open>A counter that a callback only increases: it stays at zero only if every callback leaves it.\<close>

lemma count_apply:
  assumes "\<And>k d n. f k d n = (0, if bad k d then n + 1 else n)"
  shows "n \<le> snd (chain_apply f c (n :: int)) \<and> (snd (chain_apply f c n) \<le> n \<longleftrightarrow> (\<forall>(k, d) \<in> set c. \<not> bad k d))"
proof (induction c arbitrary: n)
  case (Cons x c)
  obtain k d where x: "x = (k, d)" by (cases x)
  show ?case using Cons.IH [of n] Cons.IH [of "n + 1"] by (cases "bad k d") (auto simp: x assms)
qed simp

lemma check_roles_iff: "bounds_check_roles p = Inr () \<longleftrightarrow> roles_bounded p"
proof -
  let ?bad = "\<lambda>(k :: string) r. role_bounds r \<noteq> 0 \<and> (case val_struct (role_val_to_struct p) (role_bounds r) of
    None \<Rightarrow> False | Some rp \<Rightarrow> \<not> ebitmap_contains (role_types rp) (role_types r))"
  have "bounds_check_role_callback p k r n = (0, if ?bad k r then n + 1 else n)" for k r n
    by (simp add: bounds_check_role_callback_def split: option.splits)
  from count_apply [of "bounds_check_role_callback p" ?bad, OF this]
  have "snd (hashtab_map (table (p_roles p)) (bounds_check_role_callback p) 0) \<le> 0 \<longleftrightarrow> (\<forall>(k, r) \<in> entries (p_roles p). \<not> ?bad k r)"
    unfolding map_entries entries_set by blast
  moreover have "(\<forall>(k, r) \<in> entries (p_roles p). \<not> ?bad k r) \<longleftrightarrow> roles_bounded p"
    by (auto simp: roles_bounded_def split: option.splits)
  ultimately show ?thesis by (auto simp: bounds_check_roles_def)
qed

lemma check_users_iff: "bounds_check_users p = Inr () \<longleftrightarrow> users_bounded p"
proof -
  let ?bad = "\<lambda>(k :: string) u. user_bounds u \<noteq> 0 \<and> (case val_struct (user_val_to_struct p) (user_bounds u) of
    None \<Rightarrow> False | Some up \<Rightarrow> \<not> ebitmap_contains (user_roles up) (user_roles u))"
  have "bounds_check_user_callback p k u n = (0, if ?bad k u then n + 1 else n)" for k u n
    by (simp add: bounds_check_user_callback_def split: option.splits)
  from count_apply [of "bounds_check_user_callback p" ?bad, OF this]
  have "snd (hashtab_map (table (p_users p)) (bounds_check_user_callback p) 0) \<le> 0 \<longleftrightarrow> (\<forall>(k, u) \<in> entries (p_users p). \<not> ?bad k u)"
    unfolding map_entries entries_set by blast
  moreover have "(\<forall>(k, u) \<in> entries (p_users p). \<not> ?bad k u) \<longleftrightarrow> users_bounded p"
    by (auto simp: users_bounded_def split: option.splits)
  ultimately show ?thesis by (auto simp: bounds_check_users_def)
qed

lemma type_callback_cases:
  "type_bounds d = 0 \<Longrightarrow> bounds_check_type_callback p k d (e, n, h) = (0, e, n, h)"
  "type_bounds d \<noteq> 0 \<Longrightarrow> bounds_check_type p (type_value d) (type_bounds d) n h = Inl e' \<Longrightarrow>
    bounds_check_type_callback p k d (e, n, h) = (- 1, Some e', n, h)"
  "type_bounds d \<noteq> 0 \<Longrightarrow> bounds_check_type p (type_value d) (type_bounds d) n h = Inr ((bad, n1), h1) \<Longrightarrow>
    bounds_check_type_callback p k d (e, n, h) = (0, None, n1, h1)"
  by (simp_all add: bounds_check_type_callback_def)

lemma check_types_entries:
  assumes "mem_ok h"
  obtains n' h' where "snd (chain_apply (bounds_check_type_callback p) c (None, n, h)) = (None, n', h')" and "n \<le> n'"
    and "n' = n \<longleftrightarrow> (\<forall>(k, d) \<in> set c. type_bounds d \<noteq> 0 \<longrightarrow> within_bounds p (type_value d) (type_bounds d))"
  using assms
proof (induction c arbitrary: n h thesis)
  case (Cons x c)
  obtain k d where x: "x = (k, d)" by (cases x)
  show ?case
  proof (cases "type_bounds d = 0")
    case True
    show ?thesis
      by (rule Cons.IH [OF _ Cons.prems(2), of n], rule Cons.prems(1)) (auto simp: x type_callback_cases(1) [OF True] True)
  next
    case False
    obtain bad n1 h1 where r: "bounds_check_type p (type_value d) (type_bounds d) n h = Inr ((bad, n1), h1)"
      and n1: "mem_ok h1" "n \<le> n1" "n1 = n \<longleftrightarrow> within_bounds p (type_value d) (type_bounds d)"
      using check_type_exact [OF Cons.prems(2)] .
    show ?thesis
    proof (rule Cons.IH [OF _ n1(1), of n1])
      fix n' h'
      assume IH: "snd (chain_apply (bounds_check_type_callback p) c (None, n1, h1)) = (None, n', h')" "n1 \<le> n'"
        "n' = n1 \<longleftrightarrow> (\<forall>(k, d) \<in> set c. type_bounds d \<noteq> 0 \<longrightarrow> within_bounds p (type_value d) (type_bounds d))"
      have "n' = n \<longleftrightarrow> n1 = n \<and> n' = n1" using n1(2) IH(2) by linarith
      then show thesis
        using IH n1 False by (intro Cons.prems(1)) (auto simp: x type_callback_cases(3) [OF False r])
    qed
  qed
qed simp

lemma check_types_exact:
  assumes "mem_ok h" "hier_ready p"
  shows "\<exists>h'. bounds_check_types p h = (if types_covered p then Inr h' else Inl FAIL)"
proof -
  let ?es = "case table (p_types p) of None \<Rightarrow> [] | Some h \<Rightarrow> concat (htable h)"
  obtain n h' where n: "snd (chain_apply (bounds_check_type_callback p) ?es (None, 0, h)) = (None, n, h')" "0 \<le> n"
    "n = 0 \<longleftrightarrow> (\<forall>(k, d) \<in> set ?es. type_bounds d \<noteq> 0 \<longrightarrow> within_bounds p (type_value d) (type_bounds d))"
    by (rule check_types_entries [OF assms(1)])
  have "n = 0 \<longleftrightarrow> types_covered p"
    unfolding n(3) entries_set [symmetric] types_covered_def within_bounds_iff [OF assms(2)] ..
  then show ?thesis using n(2) by (auto simp: bounds_check_types_def map_entries n(1))
qed

section \<open>Bounds from names\<close>

definition upd_all :: "('k \<Rightarrow> 'd \<Rightarrow> 'd) \<Rightarrow> ('k, 'd) hashtab option \<Rightarrow> ('k, 'd) hashtab option" where
  "upd_all g ho = map_option (\<lambda>h. h\<lparr>htable := map (map (\<lambda>(k, d). (k, g k d))) (htable h)\<rparr>) ho"

lemma hashtab_update_all: "hashtab_update k f = upd_all (\<lambda>k' d. if k' = k then f d else d)"
  by (simp add: fun_eq_iff hashtab_update_def upd_all_def)

lemma upd_all_comp: "upd_all g (upd_all f ho) = upd_all (\<lambda>k d. g k (f k d)) ho"
  by (cases ho) (simp_all add: upd_all_def comp_def case_prod_unfold)

lemma upd_all_id: "(\<And>k d. g k d = d) \<Longrightarrow> upd_all g ho = ho"
  by (cases ho) (simp_all add: upd_all_def)

lemma upd_all_cong:
  assumes "\<And>k d. (k, d) \<in> set (case ho of None \<Rightarrow> [] | Some h \<Rightarrow> concat (htable h)) \<Longrightarrow> f k d = g k d"
  shows "upd_all f ho = upd_all g ho"
proof (cases ho)
  case (Some h)
  have "map (map (\<lambda>(k, d). (k, f k d))) (htable h) = map (map (\<lambda>(k, d). (k, g k d))) (htable h)"
    by (intro map_cong refl) (use assms Some in auto)
  then show ?thesis by (simp add: upd_all_def Some)
qed (simp add: upd_all_def)

lemma chain_search_map:
  assumes "\<And>k d. v (g k d) = v d"
  shows "map_option v (chain_search kc key (map (\<lambda>(k, d). (k, g k d)) c)) = map_option v (chain_search kc key c)"
  by (induction c) (auto simp: assms Let_def split: prod.splits)

lemma search_upd_all:
  assumes v: "\<And>k d. v (g k d) = v d" and slot: "\<And>h. ho = Some h \<Longrightarrow> unat (hash_value h (htsize h) key) < length (htable h)"
  shows "map_option v (hashtab_search (upd_all g ho) key) = map_option v (hashtab_search ho key)"
  using chain_search_map [of v g, OF v] slot by (cases ho) (simp_all add: hashtab_search_def upd_all_def)

text \<open>
  The three traversals are instances of one contract: \<open>val\<close> and \<open>bnd\<close> are the value and the bounds of a datum,
  \<open>tab\<close> and \<open>name\<close> the table and the names of the policy.
\<close>

locale bounds_kind =
  fixes callback :: "string \<Rightarrow> 'd \<Rightarrow> int \<times> policydb \<times> heap \<Rightarrow> int \<times> (int \<times> policydb \<times> heap)"
    and tab :: "policydb \<Rightarrow> 'd symtab" and name :: "policydb \<Rightarrow> string option list"
    and val :: "'d \<Rightarrow> u32" and bnd :: "'d \<Rightarrow> u32" and set_bnd :: "u32 \<Rightarrow> 'd \<Rightarrow> 'd"
    and upd :: "string \<Rightarrow> 'd \<Rightarrow> u32 \<Rightarrow> policydb \<Rightarrow> policydb"
  assumes callback: "callback k d = hierarchy_add (\<lambda>p pn. map_option val (hashtab_search (table (tab p)) pn))
      (\<lambda>p. val_name (name p) (val d)) (upd k d) (bnd d)"
    and tab_upd: "tab (upd k d v p) = (tab p)\<lparr>table := hashtab_update k (set_bnd v) (table (tab p))\<rparr>"
    and name_upd: "name (upd k d v p) = name p"
    and val_set: "val (set_bnd v d) = val d"
begin

definition parent :: "policydb \<Rightarrow> 'd \<Rightarrow> string option" where
  "parent p d = (if bnd d \<noteq> 0 then None else parent_name (the (val_name (name p) (val d))))"

definition look :: "policydb \<Rightarrow> string \<Rightarrow> u32 option" where
  "look p pn = map_option val (hashtab_search (table (tab p)) pn)"

definition orphan :: "policydb \<Rightarrow> string \<times> 'd \<Rightarrow> bool" where
  "orphan p e \<longleftrightarrow> (case parent p (snd e) of None \<Rightarrow> False | Some pn \<Rightarrow> look p pn = None)"

definition bounded_by :: "policydb \<Rightarrow> 'd \<Rightarrow> 'd" where
  "bounded_by p d = (case parent p d of None \<Rightarrow> d | Some pn \<Rightarrow> (case look p pn of None \<Rightarrow> d | Some v \<Rightarrow> set_bnd v d))"

lemma val_bounded: "val (bounded_by p d) = val d"
  by (simp add: bounded_by_def val_set split: option.splits)

lemma callback_step:
  assumes "mem_ok h"
  obtains h' where "mem_ok h'" "callback k d (n, p, h) = (0, if orphan p (k, d) then n + 1 else n,
    case parent p d of None \<Rightarrow> p | Some pn \<Rightarrow> (case look p pn of None \<Rightarrow> p | Some v \<Rightarrow> upd k d v p), h')"
proof (cases "parent p d")
  case None
  then show ?thesis using assms by (intro that [of h])
      (auto simp: callback hierarchy_add_def parent_def orphan_def split: if_splits)
next
  case (Some pn)
  obtain h1 where m: "malloc h = (True, h1)" "mem_ok h1" using mem_ok_malloc [OF assms] by (cases "malloc h") auto
  have "bnd d = 0" "parent_name (the (val_name (name p) (val d))) = Some pn"
    using Some by (simp_all add: parent_def split: if_splits)
  then show ?thesis using m by (intro that [of h1])
      (auto simp: callback hierarchy_add_def Some orphan_def look_def split: option.splits)
qed

text \<open>The traversal of the entries \<open>c\<close>; \<open>p\<close> is the policy before it and \<open>q\<close> the policy when \<open>c\<close> is left.\<close>

definition partly :: "policydb \<Rightarrow> string set \<Rightarrow> policydb \<Rightarrow> bool" where
  "partly p ks q \<longleftrightarrow> name q = name p \<and> nprim (tab q) = nprim (tab p) \<and>
     table (tab q) = upd_all (\<lambda>k d. if k \<in> ks then bounded_by p d else d) (table (tab p))"

lemma partly_look:
  assumes "partly p ks q" "\<And>h. table (tab p) = Some h \<Longrightarrow> \<forall>key. unat (hash_value h (htsize h) key) < length (htable h)"
  shows "look q pn = look p pn" "parent q d = parent p d"
proof -
  have "map_option val (hashtab_search (table (tab q)) pn) = map_option val (hashtab_search (table (tab p)) pn)"
    using assms(1,2) unfolding partly_def by (simp add: search_upd_all val_bounded)
  then show "look q pn = look p pn" by (simp add: look_def)
  show "parent q d = parent p d" using assms(1) by (simp add: parent_def partly_def)
qed

definition table_ok :: "policydb \<Rightarrow> bool" where
  "table_ok p \<longleftrightarrow> distinct (map fst (case table (tab p) of None \<Rightarrow> [] | Some h \<Rightarrow> concat (htable h))) \<and>
     (\<forall>h. table (tab p) = Some h \<longrightarrow> (\<forall>key. unat (hash_value h (htsize h) key) < length (htable h)))"

lemma partly_step:
  assumes ok: "table_ok p" and q: "partly p ks q" and e: "(k, d) \<in> entries (tab p)" and new: "k \<notin> ks"
  shows "partly p (insert k ks) (case parent q d of None \<Rightarrow> q | Some pn \<Rightarrow> (case look q pn of None \<Rightarrow> q | Some v \<Rightarrow> upd k d v q))"
    and "orphan q (k, d) = orphan p (k, d)"
proof -
  have slots: "\<And>h. table (tab p) = Some h \<Longrightarrow> \<forall>key. unat (hash_value h (htsize h) key) < length (htable h)"
    using ok unfolding table_ok_def by blast
  note pl = partly_look [OF q slots]
  show "orphan q (k, d) = orphan p (k, d)" by (cases "parent p d") (simp_all add: orphan_def pl)
  let ?g = "\<lambda>ks k d. if k \<in> ks then bounded_by p d else d"
  have uniq: "d' = d" if "(k, d') \<in> entries (tab p)" for d'
    using ok e that unfolding table_ok_def entries_set by (metis eq_key_imp_eq_value)
  have tq: "table (tab q) = upd_all (?g ks) (table (tab p))" "name q = name p" "nprim (tab q) = nprim (tab p)"
    using q by (simp_all add: partly_def)
  have same: "upd_all (?g ks) (table (tab p)) = upd_all (?g (insert k ks)) (table (tab p))" if "bounded_by p d = d"
    by (rule upd_all_cong) (use new uniq that in \<open>auto simp flip: entries_set\<close>)
  have set: "upd_all (\<lambda>k' d. if k' = k then set_bnd v d else d) (upd_all (?g ks) (table (tab p))) = upd_all (?g (insert k ks)) (table (tab p))"
    if "bounded_by p d = set_bnd v d" for v
    unfolding upd_all_comp by (rule upd_all_cong) (use new uniq that in \<open>auto simp flip: entries_set\<close>)
  show "partly p (insert k ks) (case parent q d of None \<Rightarrow> q | Some pn \<Rightarrow> (case look q pn of None \<Rightarrow> q | Some v \<Rightarrow> upd k d v q))"
  proof (cases "parent p d")
    case None
    then show ?thesis using tq same by (simp add: pl partly_def bounded_by_def)
  next
    case (Some pn)
    show ?thesis
    proof (cases "look p pn")
      case None
      then show ?thesis using Some tq same by (simp add: pl partly_def bounded_by_def)
    next
      case l: (Some v)
      then show ?thesis
        using Some tq set by (simp add: pl partly_def bounded_by_def tab_upd name_upd hashtab_update_all)
    qed
  qed
qed

lemma chain_names:
  assumes ok: "table_ok p"
  shows "mem_ok h \<Longrightarrow> partly p ks q \<Longrightarrow> distinct (map fst c) \<Longrightarrow> set c \<subseteq> entries (tab p) \<Longrightarrow> fst ` set c \<inter> ks = {} \<Longrightarrow>
    \<exists>q' h'. chain_apply callback c (n, q, h) = (0, n + int (length (filter (orphan p) c)), q', h') \<and> mem_ok h' \<and>
      partly p (ks \<union> fst ` set c) q'"
proof (induction c arbitrary: n q h ks)
  case (Cons e c)
  obtain k d where e: "e = (k, d)" by (cases e)
  have kd: "(k, d) \<in> entries (tab p)" "k \<notin> ks" using Cons.prems(4,5) by (auto simp: e)
  let ?q = "case parent q d of None \<Rightarrow> q | Some pn \<Rightarrow> (case look q pn of None \<Rightarrow> q | Some v \<Rightarrow> upd k d v q)"
  note step = partly_step [OF ok Cons.prems(2) kd]
  let ?n = "if orphan p (k, d) then n + 1 else n"
  obtain h1 where h1: "mem_ok h1" "callback k d (n, q, h) = (0, ?n, ?q, h1)"
  proof (rule callback_step [OF Cons.prems(1), of k d n q])
    fix h' assume "mem_ok h'" "callback k d (n, q, h) = (0, if orphan q (k, d) then n + 1 else n, ?q, h')"
    then show thesis using that unfolding step(2) by blast
  qed
  have "fst ` set c \<inter> insert k ks = {}" using Cons.prems(3,5) by (auto simp: e)
  then obtain q' h' where r: "chain_apply callback c (?n, ?q, h1) = (0, ?n + int (length (filter (orphan p) c)), q', h')"
    "mem_ok h'" "partly p (insert k ks \<union> fst ` set c) q'"
  proof -
    have "distinct (map fst c)" "set c \<subseteq> entries (tab p)" using Cons.prems(3,4) by simp_all
    then show thesis using Cons.IH [OF h1(1) step(1)] \<open>fst ` set c \<inter> insert k ks = {}\<close> that by blast
  qed
  have "chain_apply callback (e # c) (n, q, h) = (0, n + int (length (filter (orphan p) (e # c))), q', h')"
    using h1(2) r(1) by (simp add: e)
  then show ?case using r(2,3) by (auto simp: e)
qed simp

lemma chain_frame:
  assumes "\<And>k d v p. F (upd k d v p) = F p"
  shows "F (fst (snd (snd (chain_apply callback c (n, q, h))))) = F q"
proof (induction c arbitrary: n q h)
  case (Cons e c)
  obtain k d where e: "e = (k, d)" by (cases e)
  obtain r n1 q1 h1 where s: "callback k d (n, q, h) = (r, n1, q1, h1)" by (metis surj_pair)
  have "F q1 = F q"
    using s assms by (auto simp: callback hierarchy_add_def split: if_splits option.splits prod.splits)
  then show ?case using Cons.IH s by (simp add: e)
qed simp

lemma map_names:
  assumes ok: "table_ok p" and mem: "mem_ok h"
  obtains q' h' where "hashtab_map (table (tab p)) callback (n, p, h) = (0, n + int (card {e \<in> entries (tab p). orphan p e}), q', h')"
    and "mem_ok h'" and "entries (tab q') = (\<lambda>(k, d). (k, bounded_by p d)) ` entries (tab p)"
    and "name q' = name p"
proof -
  let ?c = "case table (tab p) of None \<Rightarrow> [] | Some h \<Rightarrow> concat (htable h)"
  have d: "distinct (map fst ?c)" using ok by (simp add: table_ok_def)
  have "partly p {} p" by (simp add: partly_def upd_all_id)
  then obtain q' h' where r: "chain_apply callback ?c (n, p, h) = (0, n + int (length (filter (orphan p) ?c)), q', h')"
    "mem_ok h'" "partly p (fst ` set ?c) q'"
    using chain_names [OF ok mem _ d] by (metis Int_empty_right entries_set subset_refl sup_bot_left)
  have "length (filter (orphan p) ?c) = card {e \<in> entries (tab p). orphan p e}"
  proof -
    have "distinct ?c" using d by (simp add: distinct_map)
    then have "length (filter (orphan p) ?c) = card (set (filter (orphan p) ?c))" by (intro distinct_card [symmetric]) simp
    then show ?thesis unfolding set_filter entries_set .
  qed
  moreover have "table (tab q') = upd_all (\<lambda>k d. bounded_by p d) (table (tab p))"
    using r(3) unfolding partly_def by (auto intro!: upd_all_cong) (force)
  then have "entries (tab q') = (\<lambda>(k, d). (k, bounded_by p d)) ` entries (tab p)"
    by (cases "table (tab p)") (auto simp: entries_def upd_all_def)
  ultimately show ?thesis using that r by (simp add: map_entries partly_def)
qed

end

interpretation type_names: bounds_kind hierarchy_add_type_callback p_types p_type_val_to_name type_value type_bounds
    "\<lambda>v d. d\<lparr>type_bounds := v\<rparr>"
    "\<lambda>k d v p. p\<lparr>p_types := (p_types p)\<lparr>table := hashtab_update k (\<lambda>d. d\<lparr>type_bounds := v\<rparr>) (table (p_types p))\<rparr>,
       type_val_to_struct := array_update (p_type_val_to_name p) k (type_value d) (\<lambda>d. d\<lparr>type_bounds := v\<rparr>) (type_val_to_struct p)\<rparr>"
  by unfold_locales (simp_all add: hierarchy_add_type_callback_def Let_def)

interpretation role_names: bounds_kind hierarchy_add_role_callback p_roles p_role_val_to_name role_value role_bounds
    "\<lambda>v d. d\<lparr>role_bounds := v\<rparr>"
    "\<lambda>k d v p. p\<lparr>p_roles := (p_roles p)\<lparr>table := hashtab_update k (\<lambda>d. d\<lparr>role_bounds := v\<rparr>) (table (p_roles p))\<rparr>,
       role_val_to_struct := array_update (p_role_val_to_name p) k (role_value d) (\<lambda>d. d\<lparr>role_bounds := v\<rparr>) (role_val_to_struct p)\<rparr>"
  by unfold_locales (simp_all add: hierarchy_add_role_callback_def Let_def)

interpretation user_names: bounds_kind hierarchy_add_user_callback p_users p_user_val_to_name user_value user_bounds
    "\<lambda>v d. d\<lparr>user_bounds := v\<rparr>"
    "\<lambda>k d v p. p\<lparr>p_users := (p_users p)\<lparr>table := hashtab_update k (\<lambda>d. d\<lparr>user_bounds := v\<rparr>) (table (p_users p))\<rparr>,
       user_val_to_struct := array_update (p_user_val_to_name p) k (user_value d) (\<lambda>d. d\<lparr>user_bounds := v\<rparr>) (user_val_to_struct p)\<rparr>"
  by unfold_locales (simp_all add: hierarchy_add_user_callback_def Let_def)

text \<open>The bounds that a datum with the value \<open>v\<close> and the bounds \<open>b\<close> gets, and whether it is no orphan.\<close>

definition new_bounds :: "'d symtab \<Rightarrow> ('d \<Rightarrow> u32) \<Rightarrow> string option list \<Rightarrow> u32 \<Rightarrow> u32 \<Rightarrow> u32" where
  "new_bounds s val names v b = (if b \<noteq> 0 then b else case parent_name (the (val_name names v)) of
       None \<Rightarrow> 0
     | Some pn \<Rightarrow> (case hashtab_search (table s) pn of None \<Rightarrow> 0 | Some q \<Rightarrow> val q))"

definition has_parent :: "'d symtab \<Rightarrow> string option list \<Rightarrow> u32 \<Rightarrow> u32 \<Rightarrow> bool" where
  "has_parent s names v b \<longleftrightarrow> b \<noteq> 0 \<or> (case parent_name (the (val_name names v)) of
       None \<Rightarrow> True | Some pn \<Rightarrow> hashtab_search (table s) pn \<noteq> None)"

definition names_ok :: "'d symtab \<Rightarrow> bool" where
  "names_ok s \<longleftrightarrow> distinct (map fst (case table s of None \<Rightarrow> [] | Some h \<Rightarrow> concat (htable h))) \<and>
     (\<forall>h. table s = Some h \<longrightarrow> (\<forall>key. unat (hash_value h (htsize h) key) < length (htable h)))"

definition no_orphans :: "policydb \<Rightarrow> bool" where
  "no_orphans p \<longleftrightarrow>
     (\<forall>(k, d) \<in> entries (p_types p). has_parent (p_types p) (p_type_val_to_name p) (type_value d) (type_bounds d)) \<and>
     (\<forall>(k, d) \<in> entries (p_roles p). has_parent (p_roles p) (p_role_val_to_name p) (role_value d) (role_bounds d)) \<and>
     (\<forall>(k, d) \<in> entries (p_users p). has_parent (p_users p) (p_user_val_to_name p) (user_value d) (user_bounds d))"

lemma bounded_by_eqs:
  "type_names.bounded_by p d = d\<lparr>type_bounds := new_bounds (p_types p) type_value (p_type_val_to_name p) (type_value d) (type_bounds d)\<rparr>"
  "role_names.bounded_by p r = r\<lparr>role_bounds := new_bounds (p_roles p) role_value (p_role_val_to_name p) (role_value r) (role_bounds r)\<rparr>"
  "user_names.bounded_by p u = u\<lparr>user_bounds := new_bounds (p_users p) user_value (p_user_val_to_name p) (user_value u) (user_bounds u)\<rparr>"
  by (auto simp: type_names.bounded_by_def type_names.parent_def type_names.look_def
      role_names.bounded_by_def role_names.parent_def role_names.look_def
      user_names.bounded_by_def user_names.parent_def user_names.look_def new_bounds_def split: option.splits)

lemma orphan_eqs:
  "type_names.orphan p e \<longleftrightarrow> \<not> has_parent (p_types p) (p_type_val_to_name p) (type_value (snd e)) (type_bounds (snd e))"
  "role_names.orphan p e' \<longleftrightarrow> \<not> has_parent (p_roles p) (p_role_val_to_name p) (role_value (snd e')) (role_bounds (snd e'))"
  "user_names.orphan p e'' \<longleftrightarrow> \<not> has_parent (p_users p) (p_user_val_to_name p) (user_value (snd e'')) (user_bounds (snd e''))"
  by (auto simp: type_names.orphan_def type_names.parent_def type_names.look_def
      role_names.orphan_def role_names.parent_def role_names.look_def
      user_names.orphan_def user_names.parent_def user_names.look_def has_parent_def split: option.splits)

lemma finite_entries [simp]: "finite (entries s)"
  by (simp add: entries_def split: option.split)

lemma card_none: "card {e \<in> entries s. P e} = 0 \<longleftrightarrow> (\<forall>(k, d) \<in> entries s. \<not> P (k, d))"
  by (auto simp: card_eq_0_iff)

lemma add_bounds_names:
  assumes ok: "names_ok (p_types p)" "names_ok (p_roles p)" "names_ok (p_users p)" and mem: "mem_ok h"
  shows "\<exists>p' h'. hierarchy_add_bounds p h = (if no_orphans p then Inr () else Inl FAIL, p', h') \<and> mem_ok h' \<and>
    entries (p_types p') = (\<lambda>(k, d). (k, d\<lparr>type_bounds :=
      new_bounds (p_types p) type_value (p_type_val_to_name p) (type_value d) (type_bounds d)\<rparr>)) ` entries (p_types p) \<and>
    entries (p_roles p') = (\<lambda>(k, d). (k, d\<lparr>role_bounds :=
      new_bounds (p_roles p) role_value (p_role_val_to_name p) (role_value d) (role_bounds d)\<rparr>)) ` entries (p_roles p) \<and>
    entries (p_users p') = (\<lambda>(k, d). (k, d\<lparr>user_bounds :=
      new_bounds (p_users p) user_value (p_user_val_to_name p) (user_value d) (user_bounds d)\<rparr>)) ` entries (p_users p)"
proof -
  obtain p1 h1 where u: "hashtab_map (table (p_users p)) hierarchy_add_user_callback (0, p, h) =
      (0, int (card {e \<in> entries (p_users p). user_names.orphan p e}), p1, h1)" "mem_ok h1"
    "entries (p_users p1) = (\<lambda>(k, d). (k, user_names.bounded_by p d)) ` entries (p_users p)"
    by (rule user_names.map_names [of p h 0]) (use ok(3) mem in \<open>simp_all add: user_names.table_ok_def names_ok_def\<close>)
  let ?F = "\<lambda>p. (p_roles p, p_role_val_to_name p, p_types p, p_type_val_to_name p)"
  have "?F (fst (snd (snd (hashtab_map (table (p_users p)) hierarchy_add_user_callback (0, p, h))))) = ?F p"
    unfolding map_entries by (rule user_names.chain_frame) simp
  then have k1: "p_roles p1 = p_roles p" "p_role_val_to_name p1 = p_role_val_to_name p" "p_types p1 = p_types p"
    "p_type_val_to_name p1 = p_type_val_to_name p"
    by (simp_all add: u(1))
  let ?n1 = "int (card {e \<in> entries (p_users p). user_names.orphan p e})"
  obtain p2 h2 where r: "hashtab_map (table (p_roles p1)) hierarchy_add_role_callback (?n1, p1, h1) =
      (0, ?n1 + int (card {e \<in> entries (p_roles p1). role_names.orphan p1 e}), p2, h2)" "mem_ok h2"
    "entries (p_roles p2) = (\<lambda>(k, d). (k, role_names.bounded_by p1 d)) ` entries (p_roles p1)"
    by (rule role_names.map_names [of p1 h1 ?n1]) (use ok(2) u(2) in \<open>simp_all add: role_names.table_ok_def names_ok_def k1\<close>)
  let ?G = "\<lambda>p. (p_users p, p_types p, p_type_val_to_name p)"
  have "?G (fst (snd (snd (hashtab_map (table (p_roles p1)) hierarchy_add_role_callback (?n1, p1, h1))))) = ?G p1"
    unfolding map_entries by (rule role_names.chain_frame) simp
  then have k2: "p_users p2 = p_users p1" "p_types p2 = p_types p" "p_type_val_to_name p2 = p_type_val_to_name p"
    unfolding r(1) snd_conv fst_conv by (simp_all add: k1)
  let ?n2 = "?n1 + int (card {e \<in> entries (p_roles p1). role_names.orphan p1 e})"
  obtain p3 h3 where t: "hashtab_map (table (p_types p2)) hierarchy_add_type_callback (?n2, p2, h2) =
      (0, ?n2 + int (card {e \<in> entries (p_types p2). type_names.orphan p2 e}), p3, h3)" "mem_ok h3"
    "entries (p_types p3) = (\<lambda>(k, d). (k, type_names.bounded_by p2 d)) ` entries (p_types p2)"
    by (rule type_names.map_names [of p2 h2 ?n2]) (use ok(1) r(2) in \<open>simp_all add: type_names.table_ok_def names_ok_def k2\<close>)
  let ?H = "\<lambda>p. (p_users p, p_roles p)"
  have "?H (fst (snd (snd (hashtab_map (table (p_types p2)) hierarchy_add_type_callback (?n2, p2, h2))))) = ?H p2"
    unfolding map_entries by (rule type_names.chain_frame) simp
  then have k3: "p_users p3 = p_users p1" "p_roles p3 = p_roles p2"
    unfolding t(1) snd_conv fst_conv by (simp_all add: k2)
  let ?n3 = "?n2 + int (card {e \<in> entries (p_types p2). type_names.orphan p2 e})"
  have pos: "int a + int b + int c > 0 \<longleftrightarrow> \<not> (a = 0 \<and> b = 0 \<and> c = 0)" for a b c :: nat by linarith
  have "?n3 > 0 \<longleftrightarrow> \<not> no_orphans p"
  proof -
    have "?n3 > 0 \<longleftrightarrow> \<not> (card {e \<in> entries (p_users p). user_names.orphan p e} = 0 \<and>
        card {e \<in> entries (p_roles p1). role_names.orphan p1 e} = 0 \<and> card {e \<in> entries (p_types p2). type_names.orphan p2 e} = 0)"
      by (rule pos)
    then show ?thesis unfolding card_none orphan_eqs no_orphans_def k1 k2 by auto
  qed
  note n3 = this [unfolded k1 k2] and r' = r(1) [unfolded k1] and t' = t(1) [unfolded k2 k1]
  have "hierarchy_add_bounds p h = (if no_orphans p then Inr () else Inl FAIL, p3, h3)"
    using n3 by (simp add: hierarchy_add_bounds_def u(1) r' t')
  then show ?thesis
    using t(2,3) r(3) u(3) by (simp add: k1 k2 k3 bounded_by_eqs)
qed

lemma check_exact:
  assumes "names_ok (p_types p)" "names_ok (p_roles p)" "names_ok (p_users p)" "mem_ok h" "hier_ready p'"
    and run: "hierarchy_check_constraints p h = (r, p', h')"
  shows "r = (if no_orphans p \<and> types_covered p' \<and> roles_bounded p' \<and> users_bounded p' then Inr () else Inl FAIL)"
proof -
  obtain p1 h1 where a: "hierarchy_add_bounds p h = (if no_orphans p then Inr () else Inl FAIL, p1, h1)" "mem_ok h1"
    using add_bounds_names [OF assms(1-4)] by blast
  have p1: "p' = p1"
    using run by (auto simp: hierarchy_check_constraints_def a(1) Let_def split: sum.splits if_splits)
  obtain h2 where "bounds_check_types p1 h1 = (if types_covered p1 then Inr h2 else Inl FAIL)"
    using check_types_exact [OF a(2)] assms(5) unfolding p1 by blast
  then show ?thesis
    using run unfolding p1 check_users_iff [symmetric] check_roles_iff [symmetric]
    by (cases "no_orphans p"; cases "types_covered p1") (auto simp: hierarchy_check_constraints_def a(1) Let_def)
qed

section \<open>Properties\<close>

text \<open>
  C7: Bounds from names. With memory, \<open>hierarchy_add_bounds\<close> gives every type, role and user without bounds
  the value of the datum that is named by the part of its name before the last dot, and leaves the others alone; it
  fails exactly when such a datum is missing for some entry.
\<close>

theorem hierarchy_add_bounds_names:
  assumes "names_ok (p_types p)" "names_ok (p_roles p)" "names_ok (p_users p)" "mem_ok h"
  shows "case hierarchy_add_bounds p h of (r, p', h') \<Rightarrow>
    r = (if no_orphans p then Inr () else Inl FAIL) \<and>
    entries (p_types p') = (\<lambda>(k, d). (k, d\<lparr>type_bounds :=
      new_bounds (p_types p) type_value (p_type_val_to_name p) (type_value d) (type_bounds d)\<rparr>)) ` entries (p_types p) \<and>
    entries (p_roles p') = (\<lambda>(k, d). (k, d\<lparr>role_bounds :=
      new_bounds (p_roles p) role_value (p_role_val_to_name p) (role_value d) (role_bounds d)\<rparr>)) ` entries (p_roles p) \<and>
    entries (p_users p') = (\<lambda>(k, d). (k, d\<lparr>user_bounds :=
      new_bounds (p_users p) user_value (p_user_val_to_name p) (user_value d) (user_bounds d)\<rparr>)) ` entries (p_users p)"
  using add_bounds_names [OF assms] by (elim exE conjE) (simp only: prod.case simp_thms)



section \<open>Examples\<close>

definition audit_parent_policy :: policydb where
  "audit_parent_policy = sample_policy\<lparr>
     te_avtab := \<lparr>avtable = Some [[]], avnel = 0, nslot = 1, avmask = 0\<rparr>,
     te_cond_avtab := \<lparr>avtable = Some [[(\<lparr>source_type = 1, target_type = 1, target_class = 1, specified = AVTAB_AUDITALLOW\<rparr>, plain_datum 1),
       (sample_rule 2, plain_datum 1)]], avnel = 2, nslot = 1, avmask = 0\<rparr>,
     cond_list := [sample_node\<lparr>true_list := [(0, 0), (0, 1)]\<rparr>]\<rparr>"

lemma sample_hier_names: "names_ok (p_types sample_policy)" "names_ok (p_roles sample_policy)" "names_ok (p_users sample_policy)"
  by (simp_all add: names_ok_def sample_policy_def one_chain_def symhash_def)

lemma hierarchy_add_bounds_names_witness:
  "case hierarchy_add_bounds sample_policy [] of (r, p', h') \<Rightarrow>
    r = (if no_orphans sample_policy then Inr () else Inl FAIL)"
  using hierarchy_add_bounds_names [OF sample_hier_names, of "[]"] by (auto split: prod.splits)

lemma sample_hier:
  "hier_ready sample_policy" "only_allow sample_policy"
proof -
  have bits: "bit (1 :: u64) n \<longleftrightarrow> n = 0" "bit (2 :: u64) n \<longleftrightarrow> n = 1" for n
  proof -
    have "(2 :: u64) = push_bit 1 1" by simp
    then show "bit (1 :: u64) n \<longleftrightarrow> n = 0" "bit (2 :: u64) n \<longleftrightarrow> n = 1"
      by (simp_all only: bit_push_bit_iff bit_1_iff) auto
  qed
  have "unat i = 0 \<Longrightarrow> i < (2 :: u32)" "unat i = 1 \<Longrightarrow> i < (2 :: u32)" for i :: u32
    by (simp_all add: word_less_nat_alt)
  then show "hier_ready sample_policy"
    by (auto simp: hier_ready_def sample_policy_def one_chain_def bits sample_node_def node_ptrs_def ptr_node_def one_slot_def
        avtab_nodes_def all_ptrs_def simp del: bit_numeral_word_iff)
  show "only_allow sample_policy"
    by (simp add: only_allow_def sample_policy_def sample_node_def node_ptrs_def ptr_node_def one_slot_def all_ptrs_def allow_rule_def)
qed

lemma sample_add_bounds: "hierarchy_add_bounds sample_policy [] = (Inr (), sample_policy, [])"
proof -
  have u: "hashtab_map (table (p_users sample_policy)) hierarchy_add_user_callback (0, sample_policy, []) = (0, 0, sample_policy, [])"
    and r: "hashtab_map (table (p_roles sample_policy)) hierarchy_add_role_callback (0, sample_policy, []) = (0, 0, sample_policy, [])"
    and t: "hashtab_map (table (p_types sample_policy)) hierarchy_add_type_callback (0, sample_policy, []) = (0, 0, sample_policy, [])"
    by (simp_all add: hashtab_map_def sample_policy_def one_chain_def hierarchy_add_user_callback_def hierarchy_add_role_callback_def
        hierarchy_add_type_callback_def hierarchy_add_def parent_name_def val_name_def sample_user_def sample_role_def)
  show ?thesis by (simp add: hierarchy_add_bounds_def u r t)
qed

lemma check_keeps_policy:
  assumes "hierarchy_add_bounds p h = (Inr (), p, h1)" "fst (hierarchy_check_constraints p h) = r"
  obtains h' where "hierarchy_check_constraints p h = (r, p, h')"
proof (cases "bounds_check_types p h1")
  case (Inl e)
  then have "hierarchy_check_constraints p h = (Inl e, p, h1)" by (simp add: hierarchy_check_constraints_def assms(1) Let_def)
  then show thesis using that assms(2) by simp
next
  case (Inr h2)
  have "\<exists>q. hierarchy_check_constraints p h = (q, p, h2)"
    by (simp add: hierarchy_check_constraints_def assms(1) Let_def Inr del: split_paired_Ex)
  then show thesis using that assms(2) by auto
qed


text \<open>The parent has a conditional audit rule only; its child has an allow rule in the same list.\<close>

lemma audit_add_bounds: "hierarchy_add_bounds audit_parent_policy [] = (Inr (), audit_parent_policy, [])"
proof -
  let ?p = audit_parent_policy
  have u: "hashtab_map (table (p_users ?p)) hierarchy_add_user_callback (0, ?p, []) = (0, 0, ?p, [])"
    and r: "hashtab_map (table (p_roles ?p)) hierarchy_add_role_callback (0, ?p, []) = (0, 0, ?p, [])"
    and t: "hashtab_map (table (p_types ?p)) hierarchy_add_type_callback (0, ?p, []) = (0, 0, ?p, [])"
    by (simp_all add: hashtab_map_def audit_parent_policy_def sample_policy_def one_chain_def hierarchy_add_user_callback_def
        hierarchy_add_role_callback_def hierarchy_add_type_callback_def hierarchy_add_def parent_name_def val_name_def
        sample_user_def sample_role_def)
  show ?thesis by (simp add: hierarchy_add_bounds_def u r t)
qed

lemma audit_hier:
  "names_ok (p_types audit_parent_policy)" "names_ok (p_roles audit_parent_policy)" "names_ok (p_users audit_parent_policy)"
  "hier_ready audit_parent_policy"
proof -
  have same: "p_types audit_parent_policy = p_types sample_policy" "p_roles audit_parent_policy = p_roles sample_policy"
    "p_users audit_parent_policy = p_users sample_policy" "attr_type_map audit_parent_policy = attr_type_map sample_policy"
    "type_val_to_struct audit_parent_policy = type_val_to_struct sample_policy"
    by (simp_all add: audit_parent_policy_def)
  show "names_ok (p_types audit_parent_policy)" "names_ok (p_roles audit_parent_policy)" "names_ok (p_users audit_parent_policy)"
    unfolding same by (rule sample_hier_names)+
  have "target_type (fst n) = 1" if "n \<in> set (avtab_nodes (te_avtab audit_parent_policy)) \<union>
      ptr_node (te_cond_avtab audit_parent_policy) ` all_ptrs (cond_list audit_parent_policy)" for n
    using that by (auto simp: audit_parent_policy_def sample_policy_def sample_node_def node_ptrs_def ptr_node_def avtab_nodes_def
        all_ptrs_def)
  moreover have "nprim (p_types sample_policy) = 2" by (simp add: sample_policy_def one_chain_def)
  ultimately show "hier_ready audit_parent_policy" using sample_hier(1) unfolding hier_ready_def same by auto
qed


end
