(* ===== verification/Validate_Sound.thy ===== *)
theory Validate_Sound
  imports Validate_Expr Hierarchy_Sound
begin

text \<open>
  What a policy that \<open>policydb_validate\<close> accepts guarantees: every value in its rules and labels names a symbol, its
  conditionals and constraints evaluate, and it meets the conditions under which the other parts of the library are
  proved to work.
\<close>

unbundle bit_operations_syntax

section \<open>The flavors\<close>

definition named :: "string option list \<Rightarrow> u32 \<Rightarrow> u32 set" where
  "named names n = {v. v \<noteq> 0 \<and> v \<le> n \<and> names ! unat (v - 1) \<noteq> None}"

definition classes_of :: "policydb \<Rightarrow> u32 set" where
  "classes_of p = named (p_class_val_to_name p) (nprim (p_classes p))"

definition roles_of :: "policydb \<Rightarrow> u32 set" where
  "roles_of p = named (p_role_val_to_name p) (nprim (p_roles p))"

definition types_of :: "policydb \<Rightarrow> u32 set" where
  "types_of p = (if attr_gaps p then {0<..nprim (p_types p)} else named (p_type_val_to_name p) (nprim (p_types p)))"

definition users_of :: "policydb \<Rightarrow> u32 set" where
  "users_of p = named (p_user_val_to_name p) (nprim (p_users p))"

definition bools_of :: "policydb \<Rightarrow> u32 set" where
  "bools_of p = named (p_bool_val_to_name p) (nprim (p_bools p))"

definition levels_of :: "policydb \<Rightarrow> u32 set" where
  "levels_of p = named (p_sens_val_to_name p) (nprim (p_levels p))"

definition cats_of :: "policydb \<Rightarrow> u32 set" where
  "cats_of p = named (p_cat_val_to_name p) (nprim (p_cats p))"

lemma create_gap_loop_set:
  assumes "create_gap_loop names is g h = Inr (g', h')" "ebitmap_wf g" "\<forall>i \<in> set is. i < 2 ^ 32"
  shows "ebitmap_wf g' \<and> ebitmap_set g' = ebitmap_set g \<union> {i \<in> set is. names ! i = None}"
  using assms
proof (induction "is" arbitrary: g h)
  case (Cons i "is")
  show ?case
  proof (cases "names ! i = None")
    case True
    then obtain g1 h1 where s: "ebitmap_set_bit g (of_nat i) True h = Inr (g1, h1)" "create_gap_loop names is g1 h1 = Inr (g', h')"
      using Cons.prems(1) by (auto split: sum.splits)
    have "ebitmap_wf g1" "ebitmap_set g1 = insert i (ebitmap_set g)"
      using ebitmap_set_bit_correct [OF Cons.prems(2), of h "of_nat i" True] s(1) Cons.prems(3)
      by (simp_all add: unat_of_nat_lt)
    then show ?thesis using Cons.IH [OF s(2)] Cons.prems(3) True by auto
  qed (use Cons in auto)
qed simp

lemma validate_init_valid:
  assumes "validate_init names n h = Inr (f, h')"
  shows "flavor_wf f \<and> fprim f = n \<and> valid f = named names n"
proof -
  obtain g where g: "create_gap_loop names [0..<unat n] ebitmap_init h = Inr (g, h')" "f = \<lparr>fprim = n, gaps = g\<rparr>"
    using assms by (auto simp: validate_init_def create_gap_ebitmap_def bind_res_Inr_iff)
  have "unat n < 2 ^ 32" using unsigned_less [of n] by simp
  then have "ebitmap_wf g \<and> ebitmap_set g = ebitmap_set ebitmap_init \<union> {i \<in> set [0..<unat n]. names ! i = None}"
    using g(1) by (intro create_gap_loop_set) (auto simp: ebitmap_wf_def nodes_end_def ebitmap_init_def)
  moreover have "unat (v - 1) < unat n" if "v \<noteq> 0" "v \<le> n" for v :: u32
    using word_pred_less [OF that] by (simp add: word_less_nat_alt)
  ultimately show ?thesis using g(2)
    by (auto simp: flavor_wf_def valid_def named_def ebitmap_set_def ebitmap_init_def)
qed

text \<open>What \<open>validate_array_init\<close> leaves.\<close>

definition flavors_of :: "policydb \<Rightarrow> flavors \<Rightarrow> bool" where
  "flavors_of p fl \<longleftrightarrow> length fl = SYM_NUM \<and> (\<forall>f \<in> set fl. flavor_wf f) \<and>
     valid (fl ! SYM_CLASSES) = classes_of p \<and> valid (fl ! SYM_ROLES) = roles_of p \<and> valid (fl ! SYM_TYPES) = types_of p \<and>
     valid (fl ! SYM_USERS) = users_of p \<and> valid (fl ! SYM_BOOLS) = bools_of p \<and> valid (fl ! SYM_LEVELS) = levels_of p \<and>
     valid (fl ! SYM_CATS) = cats_of p \<and> fprim (fl ! SYM_TYPES) = nprim (p_types p)"

lemma no_gaps_valid: "flavor_wf \<lparr>fprim = n, gaps = ebitmap_init\<rparr> \<and> valid \<lparr>fprim = n, gaps = ebitmap_init\<rparr> = {0<..n}"
  by (auto simp: flavor_wf_def valid_def ebitmap_wf_def nodes_end_def ebitmap_set_def ebitmap_init_def word_gt_0)

lemma array_init_flavors:
  assumes "validate_array_init p h = Inr (fl, h')"
  shows "flavors_of p fl"
proof -
  obtain f0 f1 f2 f3 f4 f5 f6 f7 h0 h1 h2 h3 h4 h5 h6 where f:
    "validate_init (p_common_val_to_name p) (nprim (p_commons p)) h = Inr (f0, h0)"
    "validate_init (p_class_val_to_name p) (nprim (p_classes p)) h0 = Inr (f1, h1)"
    "validate_init (p_role_val_to_name p) (nprim (p_roles p)) h1 = Inr (f2, h2)"
    "(if attr_gaps p then Inr (\<lparr>fprim = nprim (p_types p), gaps = ebitmap_init\<rparr>, h2)
      else validate_init (p_type_val_to_name p) (nprim (p_types p)) h2) = Inr (f3, h3)"
    "validate_init (p_user_val_to_name p) (nprim (p_users p)) h3 = Inr (f4, h4)"
    "validate_init (p_bool_val_to_name p) (nprim (p_bools p)) h4 = Inr (f5, h5)"
    "validate_init (p_sens_val_to_name p) (nprim (p_levels p)) h5 = Inr (f6, h6)"
    "validate_init (p_cat_val_to_name p) (nprim (p_cats p)) h6 = Inr (f7, h')"
    "fl = [f0, f1, f2, f3, f4, f5, f6, f7]"
    using assms unfolding validate_array_init_def by (auto simp: bind_res_Inr_iff)
  have t: "flavor_wf f3 \<and> fprim f3 = nprim (p_types p) \<and> valid f3 = types_of p"
    using f(4) no_gaps_valid [of "nprim (p_types p)"] validate_init_valid [of "p_type_val_to_name p" _ h2 f3 h3]
    by (auto simp: types_of_def split: if_splits)
  show ?thesis
    using t f(1-3,5-8) [THEN validate_init_valid]
    unfolding f(9) flavors_of_def classes_of_def roles_of_def users_of_def bools_of_def levels_of_def cats_of_def
    by (simp add: nth_Cons_numeral numeral_eq_Suc)
qed

lemma flavors_wf:
  assumes "flavors_of p fl" "i < SYM_NUM"
  shows "flavor_wf (fl ! i)"
  using assms nth_mem [of i fl] by (auto simp: flavors_of_def)

section \<open>What a typed policy is\<close>

definition simple_type :: "policydb \<Rightarrow> u32 \<Rightarrow> bool" where
  "simple_type p v \<longleftrightarrow> v \<in> types_of p \<and> real_type p v"

definition level_typed :: "policydb \<Rightarrow> mls_level \<Rightarrow> bool" where
  "level_typed p l \<longleftrightarrow> sens l \<in> levels_of p \<and> (\<forall>i. ebitmap_get_bit (cat l) i \<longrightarrow> i + 1 \<in> cats_of p)"

definition context_typed :: "policydb \<Rightarrow> context_struct \<Rightarrow> bool" where
  "context_typed p c \<longleftrightarrow> cuser c \<in> users_of p \<and> crole c \<in> roles_of p \<and> ctype c \<in> types_of p \<and>
     (mls p \<longrightarrow> level_typed p (low (crange c)) \<and> level_typed p (high (crange c)))"

text \<open>A rule names types and a class; a type rule has single types, an access rule a permission of the class.\<close>

definition rule_typed :: "policydb \<Rightarrow> avtab_node \<Rightarrow> bool" where
  "rule_typed p n \<longleftrightarrow> (case n of (k, d) \<Rightarrow>
     ucast (source_type k) \<in> types_of p \<and> ucast (target_type k) \<in> types_of p \<and> ucast (target_class k) \<in> classes_of p \<and>
     (specified k AND AVTAB_TYPE \<noteq> 0 \<longrightarrow>
        simple_type p (ucast (source_type k)) \<and> simple_type p (ucast (target_type k)) \<and> simple_type p (data d)) \<and>
     (specified k AND AVTAB_AV \<noteq> 0 \<longrightarrow>
        (\<exists>c. val_struct (class_val_to_struct p) (ucast (target_class k)) = Some c \<and>
           (\<exists>b < unat (nprim (class_permissions c)).
              bit (if 0xFFF AND specified k = AVTAB_AUDITDENY then NOT (data d) else data d) b))))"

definition first_contexts :: "'u ocontext list \<Rightarrow> context_struct set" where
  "first_contexts cs = context0 ` set cs"

definition label_contexts :: "policydb \<Rightarrow> context_struct set" where
  "label_contexts p = first_contexts (ocon_isid p) \<union> first_contexts (ocon_fs p) \<union> first_contexts (ocon_port p) \<union>
     first_contexts (ocon_netif p) \<union> first_contexts (ocon_node p) \<union> first_contexts (ocon_fsuse p) \<union> first_contexts (ocon_node6 p) \<union>
     first_contexts (ocon_ibpkey p) \<union> first_contexts (ocon_ibendport p) \<union>
     (\<Union>g \<in> set (genfs_list p). first_contexts (genfs_head g))"

definition second_contexts :: "policydb \<Rightarrow> context_struct set" where
  "second_contexts p = context1 ` (set (ocon_fs p) \<union> set (ocon_netif p))"

text \<open>
  What the reader builds, whatever the bytes: arrays as long as the symbol tables say, that hold the datums of the
  tables; well-formed bitmaps; pointers into the table of conditional rules.
\<close>

definition read_shape :: "policydb \<Rightarrow> bool" where
  "read_shape p \<longleftrightarrow> unat (nprim (p_types p)) < 2 ^ 16 \<and> length (type_val_to_struct p) = unat (nprim (p_types p)) \<and>
     length (attr_type_map p) = unat (nprim (p_types p)) \<and> length (class_val_to_struct p) = unat (nprim (p_classes p)) \<and>
     length (bool_val_to_struct p) = unat (nprim (p_bools p)) \<and>
     (\<forall>e \<in> set (attr_type_map p). ebitmap_wf e) \<and>
     (\<forall>c \<in> label_contexts p \<union> second_contexts p. context_wf c) \<and>
     (\<forall>d. Some d \<in> set (type_val_to_struct p) \<longrightarrow> d \<in> snd ` table_entries (table (p_types p))) \<and>
     (\<forall>d. Some d \<in> set (class_val_to_struct p) \<longrightarrow> d \<in> snd ` table_entries (table (p_classes p))) \<and>
     (\<forall>d. Some d \<in> set (bool_val_to_struct p) \<longrightarrow> d \<in> snd ` table_entries (table (p_bools p))) \<and>
     (\<forall>x \<in> all_ptrs (cond_list p). ptr_ok (te_cond_avtab p) x) \<and>
     (\<forall>d \<in> snd ` table_entries (table (p_classes p)). \<forall>c \<in> set (constraints d) \<union> set (validatetrans d).
        \<forall>e \<in> set (cnode_expr c). cexpr_wf e)"

lemma value_iff:
  assumes "flavors_of p fl"
  shows "validate_value v (fl ! SYM_CLASSES) \<longleftrightarrow> v \<in> classes_of p" "validate_value v (fl ! SYM_ROLES) \<longleftrightarrow> v \<in> roles_of p"
    "validate_value v (fl ! SYM_TYPES) \<longleftrightarrow> v \<in> types_of p" "validate_value v (fl ! SYM_USERS) \<longleftrightarrow> v \<in> users_of p"
    "validate_value v (fl ! SYM_LEVELS) \<longleftrightarrow> v \<in> levels_of p" "validate_value v (fl ! SYM_BOOLS) \<longleftrightarrow> v \<in> bools_of p"
    "validate_value v (fl ! Suc 0) \<longleftrightarrow> v \<in> classes_of p"
  using assms flavors_wf [OF assms] by (simp_all add: validate_value_iff flavors_of_def)

lemma types_of_range: "v \<in> types_of p \<Longrightarrow> v \<noteq> 0 \<and> v \<le> nprim (p_types p)"
  by (auto simp: types_of_def named_def word_gt_0 split: if_splits)

lemma simpletype_iff: "flavors_of p fl \<Longrightarrow> validate_simpletype v p fl \<longleftrightarrow> simple_type p v"
  using types_of_range [of v p]
  by (auto simp: validate_simpletype_def value_iff simple_type_def real_type_def attr_at_def val_struct_def split: option.splits)

lemma mls_level_typed:
  assumes "flavors_of p fl" "level_wf l" "validate_mls_level l (fl ! SYM_LEVELS) (fl ! SYM_CATS)"
  shows "level_typed p l"
  using assms flavors_wf [OF assms(1), of SYM_CATS]
  by (auto simp: validate_mls_level_def level_typed_def value_iff validate_ebitmap_iff level_wf_def flavors_of_def)

lemma validate_context_typed:
  assumes "flavors_of p fl" "context_wf c" "validate_context c fl (mls p)"
  shows "context_typed p c"
  using assms mls_level_typed [OF assms(1)]
  by (auto simp: validate_context_def context_typed_def value_iff validate_mls_range_def context_wf_def range_wf_def)

lemma ocontexts_typed:
  assumes "flavors_of p fl" "validate_ocontexts p fl" "validate_genfs p fl" "\<forall>c \<in> label_contexts p. context_wf c"
  shows "\<forall>c \<in> label_contexts p. context_typed p c"
proof
  fix c assume c: "c \<in> label_contexts p"
  have "validate_context c fl (mls p)"
    using c assms(2,3) unfolding label_contexts_def first_contexts_def validate_ocontexts_def validate_ocon_def validate_genfs_def Let_def
    by (elim UnE UN_E imageE) simp_all
  then show "context_typed p c" using assms(1,4) c validate_context_typed by blast
qed

lemma second_typed:
  assumes "flavors_of p fl" "validate_ocontexts p fl" "target_platform p = SEPOL_TARGET_SELINUX" "\<forall>c \<in> second_contexts p. context_wf c"
  shows "\<forall>c \<in> second_contexts p. context_typed p c"
proof
  fix c assume c: "c \<in> second_contexts p"
  have "validate_context c fl (mls p)"
    using c assms(2,3) unfolding second_contexts_def validate_ocontexts_def validate_ocon_def Let_def by auto
  then show "context_typed p c" using assms(1,4) c validate_context_typed by blast
qed

lemma access_vector_bit:
  assumes "validate_access_vector p tcl av" "nprim (class_permissions (the (val_struct (class_val_to_struct p) (ucast tcl)))) \<le> 32"
  shows "\<exists>b < unat (nprim (class_permissions (the (val_struct (class_val_to_struct p) (ucast tcl))))). bit av b"
proof -
  define n where "n = nprim (class_permissions (the (val_struct (class_val_to_struct p) (ucast tcl))))"
  have "av AND PERMISSION_MASK n \<noteq> 0" using assms(1) by (simp add: validate_access_vector_def n_def Let_def)
  then obtain b where b: "bit av b" "bit (PERMISSION_MASK n) b" by (auto simp: bit_eq_iff bit_and_iff)
  have "b < unat n"
  proof (cases "n = 32")
    case True
    then show ?thesis using bit_imp_le_length [OF b(1)] by simp
  next
    case False
    have "push_bit (unat n) 1 - 1 = (mask (unat n) :: u32)" by (simp add: mask_eq_exp_minus_1 push_bit_of_1)
    then show ?thesis using b(2) False by (simp add: PERMISSION_MASK_def bit_mask_iff)
  qed
  then show ?thesis using b(1) by (auto simp: n_def)
qed

definition classes_ready :: "policydb \<Rightarrow> bool" where
  "classes_ready p \<longleftrightarrow> (\<forall>v \<in> classes_of p. \<exists>c. val_struct (class_val_to_struct p) v = Some c \<and> nprim (class_permissions c) \<le> 32)"

lemma key_data_typed:
  assumes "flavors_of p fl" "policy_type p = POLICY_KERN" "classes_ready p"
    and "validate_avtab_key k c p fl" "validate_rule_data p fl k d"
  shows "rule_typed p (k, d)"
proof -
  let ?v = "ucast (target_class k) :: u32"
  have "?v \<in> classes_of p" using assms(4) by (simp add: validate_avtab_key_def value_iff [OF assms(1)])
  then obtain cd where cd: "val_struct (class_val_to_struct p) ?v = Some cd" "nprim (class_permissions cd) \<le> 32"
    using assms(3) by (auto simp: classes_ready_def)
  then show ?thesis
    using assms(4,5) access_vector_bit [of p "target_class k"]
    unfolding rule_typed_def prod.case validate_avtab_key_def validate_rule_data_def Let_def
      value_iff [OF assms(1)] simpletype_iff [OF assms(1)] assms(2)
    by (cases "specified k AND AVTAB_TYPE = 0") (auto simp: simple_type_def)
qed

lemma nodes_apply_all: "fst (nodes_apply f ns ()) = 0 \<longleftrightarrow> (\<forall>(k, d) \<in> set ns. fst (f k d ()) = 0)"
  by (induction ns) (auto split: prod.split)

lemma avtab_typed:
  assumes "flavors_of p fl" "policy_type p = POLICY_KERN" "classes_ready p" "validate_avtab (te_avtab p) p fl"
  shows "\<forall>n \<in> set (avtab_nodes (te_avtab p)). rule_typed p n"
proof
  fix n assume n: "n \<in> set (avtab_nodes (te_avtab p))"
  obtain k d where kd: "n = (k, d)" by (cases n)
  have "fst (nodes_apply (validate_avtab_key_and_datum p fl) (avtab_nodes (te_avtab p)) ()) = 0"
    using assms(4) by (cases "avtable (te_avtab p)") (simp_all add: validate_avtab_def avtab_map_def avtab_nodes_def)
  then have "fst (validate_avtab_key_and_datum p fl k d ()) = 0" using n kd by (auto simp: nodes_apply_all)
  then have "validate_avtab_key k False p fl" "validate_rule_data p fl k d"
    by (auto simp: validate_avtab_key_and_datum_def split: if_splits)
  then show "rule_typed p n" using key_data_typed [OF assms(1-3)] kd by blast
qed

lemma cond_rules_typed:
  assumes "flavors_of p fl" "policy_type p = POLICY_KERN" "classes_ready p" "validate_cond_list (cond_list p) p fl"
    and "\<forall>x \<in> all_ptrs (cond_list p). ptr_ok (te_cond_avtab p) x"
  shows "\<forall>n \<in> ptr_node (te_cond_avtab p) ` all_ptrs (cond_list p). rule_typed p n"
proof
  fix n assume "n \<in> ptr_node (te_cond_avtab p) ` all_ptrs (cond_list p)"
  then obtain x where x: "x \<in> all_ptrs (cond_list p)" "n = ptr_node (te_cond_avtab p) x" by blast
  then obtain c where c: "c \<in> set (cond_list p)" "x \<in> set (true_list c) \<union> set (false_list c)"
    by (auto simp: all_ptrs_def node_ptrs_def)
  let ?chain = "the (avtable (te_cond_avtab p)) ! fst x"
  have "snd x < length ?chain" using assms(5) x(1) by (auto simp: ptr_ok_def)
  then have "n \<in> set (drop (snd x) ?chain)"
    unfolding x(2) ptr_node_def by (metis Cons_nth_drop_Suc list.set_intros(1))
  moreover have "\<forall>n \<in> set (drop (snd x) ?chain). validate_avtab_key (fst n) True p fl \<and> validate_rule_data p fl (fst n) (snd n)"
    using assms(4) c unfolding validate_cond_list_def validate_cond_node_def validate_cond_av_list_def by blast
  ultimately show "rule_typed p n" using key_data_typed [OF assms(1-3), of "fst n" True "snd n"] by simp
qed

section \<open>Arrays and datums\<close>

lemma gaps_agree_struct:
  assumes "gaps_agree arr n f" "flavor_wf f" "v \<in> valid f" "v \<le> n"
  shows "val_struct arr v \<noteq> None"
proof -
  have v: "v \<noteq> 0" "unat (v - 1) \<notin> ebitmap_set (gaps f)" using assms(3) by (auto simp: valid_def)
  have "unat (v - 1) \<in> set [0..<unat n]" using word_pred_less [OF v(1) assms(4)] by (simp add: word_less_nat_alt)
  moreover have "\<not> ebitmap_get_bit (gaps f) (of_nat (unat (v - 1)))"
    using v(2) assms(2) by (simp add: flavor_wf_def ebitmap_get_bit_correct)
  ultimately show ?thesis using assms(1) unfolding gaps_agree_def val_struct_def by blast
qed

lemma struct_in_array:
  assumes "val_struct arr v = Some d" "v \<noteq> 0" "v \<le> n" "length arr = unat n"
  shows "Some d \<in> set arr"
proof -
  have "unat (v - 1) < length arr" using word_pred_less [OF assms(2,3)] assms(4) by (simp add: word_less_nat_alt)
  then show ?thesis using assms(1) nth_mem by (fastforce simp: val_struct_def)
qed

lemma named_range: "v \<in> named names n \<Longrightarrow> v \<noteq> 0 \<and> v \<le> n"
  by (simp add: named_def)

lemma class_datum_parts:
  assumes "validate_class_datum fl d"
  shows "validate_constraint_nodes (nprim (class_permissions d)) (constraints d) fl"
    and "validate_constraint_nodes UINT32_MAX (validatetrans d) fl"
    and "nprim (class_permissions d) \<le> 32"
proof -
  note d = assms [unfolded validate_class_datum_def de_Morgan_disj not_less]
  show "validate_constraint_nodes (nprim (class_permissions d)) (constraints d) fl" using d by (elim conjE)
  show "validate_constraint_nodes UINT32_MAX (validatetrans d) fl" using d by (elim conjE)
  show "nprim (class_permissions d) \<le> 32" using d by (elim conjE)
qed

lemma classes_are_ready:
  assumes "flavors_of p fl" "validate_datum_array_gaps p fl" "hashtab_check (\<lambda>_. validate_class_datum fl) (table (p_classes p))"
    "read_shape p"
  shows "classes_ready p"
  unfolding classes_ready_def
proof
  fix v assume v: "v \<in> classes_of p"
  then have r: "v \<noteq> 0" "v \<le> nprim (p_classes p)" using named_range by (auto simp: classes_of_def)
  then have "val_struct (class_val_to_struct p) v \<noteq> None"
    using gaps_agree_struct [of _ "nprim (p_classes p)" "fl ! SYM_CLASSES"] assms(1,2) v flavors_wf [OF assms(1), of SYM_CLASSES]
    by (auto simp: validate_datum_array_gaps_def flavors_of_def)
  then obtain d where d: "val_struct (class_val_to_struct p) v = Some d" by blast
  then have "Some d \<in> set (class_val_to_struct p)" using struct_in_array r assms(4) by (auto simp: read_shape_def)
  then have "d \<in> snd ` table_entries (table (p_classes p))" using assms(4) by (auto simp: read_shape_def)
  then have "validate_class_datum fl d" using assms(3) by (auto simp: hashtab_check_iff)
  then show "\<exists>c. val_struct (class_val_to_struct p) v = Some c \<and> nprim (class_permissions c) \<le> 32"
    using d class_datum_parts(3) by blast
qed

definition datums_typed :: "policydb \<Rightarrow> bool" where
  "datums_typed p \<longleftrightarrow>
     (\<forall>d \<in> snd ` table_entries (table (p_classes p)). class_value d \<in> classes_of p) \<and>
     (\<forall>d \<in> snd ` table_entries (table (p_roles p)). role_value d \<in> roles_of p \<and> (role_bounds d \<noteq> 0 \<longrightarrow> role_bounds d \<in> roles_of p)) \<and>
     (\<forall>d \<in> snd ` table_entries (table (p_types p)). type_value d \<in> types_of p \<and> (type_bounds d \<noteq> 0 \<longrightarrow> simple_type p (type_bounds d))) \<and>
     (\<forall>d \<in> snd ` table_entries (table (p_users p)). user_value d \<in> users_of p \<and> (user_bounds d \<noteq> 0 \<longrightarrow> user_bounds d \<in> users_of p)) \<and>
     (\<forall>d \<in> snd ` table_entries (table (p_bools p)). bool_value d \<in> bools_of p \<and> bstate d \<in> {0, 1})"

lemma entries_typed:
  assumes "flavors_of p fl" "validate_datum_array_entries p fl"
  shows "datums_typed p"
proof -
  have v: "\<forall>d \<in> snd ` table_entries (table (p_classes p)). validate_class_datum fl d"
    "\<forall>d \<in> snd ` table_entries (table (p_roles p)). validate_role_datum fl d"
    "\<forall>d \<in> snd ` table_entries (table (p_types p)). validate_type_datum p fl d"
    "\<forall>d \<in> snd ` table_entries (table (p_users p)). validate_user_datum p fl d"
    "\<forall>d \<in> snd ` table_entries (table (p_bools p)). validate_bool_datum fl d"
    using assms(2) by (auto simp: validate_datum_array_entries_def hashtab_check_iff)
  note iff = value_iff [OF assms(1)] simpletype_iff [OF assms(1)]
  have A: "class_value d \<in> classes_of p" if "validate_class_datum fl d" for d
    using that unfolding validate_class_datum_def iff by (elim conjE)
  have B: "role_value d \<in> roles_of p \<and> (role_bounds d \<noteq> 0 \<longrightarrow> role_bounds d \<in> roles_of p)" if "validate_role_datum fl d" for d
    using that unfolding validate_role_datum_def iff by (elim conjE) (intro conjI, assumption+)
  have C: "type_value d \<in> types_of p \<and> (type_bounds d \<noteq> 0 \<longrightarrow> simple_type p (type_bounds d))" if "validate_type_datum p fl d" for d
    using that unfolding validate_type_datum_def iff by (auto split: if_splits)
  have D: "user_value d \<in> users_of p \<and> (user_bounds d \<noteq> 0 \<longrightarrow> user_bounds d \<in> users_of p)" if "validate_user_datum p fl d" for d
    using that unfolding validate_user_datum_def iff by (elim conjE) (intro conjI, assumption+)
  have E: "bool_value d \<in> bools_of p \<and> bstate d \<in> {0, 1}" if "validate_bool_datum fl d" for d
    using that unfolding validate_bool_datum_def iff by (elim conjE) (intro conjI, assumption+)
  show ?thesis
    unfolding datums_typed_def
    by (intro conjI) (intro ballI, drule v [THEN bspec], erule A B C D E)+
qed

lemma bools_known:
  assumes "flavors_of p fl" "validate_datum_array_gaps p fl" "datums_typed p" "read_shape p"
  shows "bools_01 (bool_val_to_struct p) \<and> (\<forall>b \<in> valid (fl ! SYM_BOOLS). bool_known (bool_val_to_struct p) b)"
proof (intro conjI ballI)
  show "bools_01 (bool_val_to_struct p)"
    using assms(3,4) unfolding bools_01_def datums_typed_def read_shape_def by (auto split: option.split)
  fix b assume b: "b \<in> valid (fl ! SYM_BOOLS)"
  then have r: "b \<noteq> 0" "b \<le> nprim (p_bools p)"
    using assms(1) named_range by (auto simp: flavors_of_def bools_of_def)
  have "gaps_agree (bool_val_to_struct p) (nprim (p_bools p)) (fl ! SYM_BOOLS)"
    using assms(2) by (simp add: validate_datum_array_gaps_def)
  from gaps_agree_struct [OF this flavors_wf [OF assms(1)] b r(2)]
  have "val_struct (bool_val_to_struct p) b \<noteq> None" by simp
  then show "bool_known (bool_val_to_struct p) b"
    using r assms(4) by (simp add: bool_known_def read_shape_def word_le_nat_alt)
qed

section \<open>Properties\<close>

text \<open>The parts of an accepted kernel policy.\<close>

lemma validate_parts:
  assumes "policydb_validate p h = Inr h'" "policy_type p = POLICY_KERN"
  obtains fl where "flavors_of p fl" "validate_avtab (te_avtab p) p fl"
    "policyvers p \<ge> POLICYDB_VERSION_BOOL \<longrightarrow> validate_cond_list (cond_list p) p fl"
    "validate_role_transes (role_tr p) fl" "validate_role_allows (role_allows p) fl"
    "validate_ocontexts p fl" "validate_genfs p fl" "validate_datum_array_gaps p fl" "validate_datum_array_entries p fl"
    "validate_typeattr_map p fl" "validate_attrtype_map p fl" "validate_range_transitions p fl"
proof -
  obtain fl h1 where "validate_array_init p h = Inr (fl, h1)"
    "validate_policy_rules p fl" "validate_ocontexts p fl" "validate_genfs p fl" "validate_datum_array_gaps p fl"
    "validate_datum_array_entries p fl" "validate_typeattr_map p fl" "validate_attrtype_map p fl" "validate_range_transitions p fl"
    using assms(1) unfolding policydb_validate_def by (auto simp: bind_res_Inr_iff split: if_splits)
  then show ?thesis
    using array_init_flavors [of p h fl h1] assms(2) by (intro that [of fl]) (simp_all add: validate_policy_rules_def)
qed

text \<open>
  C12: Typing. In a kernel policy that \<open>policydb_validate\<close> accepts every rule, conditional or not, names types and
  a class of the policy and gives a permission of the class or a single type; the role rules, the contexts of all labels, and
  the values and bounds of the datums name symbols that exist.
\<close>

theorem policydb_validate_typed:
  assumes "policydb_validate p h = Inr h'" "read_shape p" "policy_type p = POLICY_KERN" "policyvers p \<ge> POLICYDB_VERSION_BOOL"
  shows "(\<forall>n \<in> set (avtab_nodes (te_avtab p)) \<union> ptr_node (te_cond_avtab p) ` all_ptrs (cond_list p). rule_typed p n) \<and>
    (\<forall>rt \<in> set (role_tr p). rtr_role rt \<in> roles_of p \<and> rtr_type rt \<in> types_of p \<and> rtr_tclass rt \<in> classes_of p \<and>
      new_role rt \<in> roles_of p) \<and>
    (\<forall>ra \<in> set (role_allows p). ra_role ra \<in> roles_of p \<and> ra_new_role ra \<in> roles_of p) \<and>
    (\<forall>c \<in> label_contexts p. context_typed p c) \<and>
    (target_platform p = SEPOL_TARGET_SELINUX \<longrightarrow> (\<forall>c \<in> second_contexts p. context_typed p c)) \<and>
    datums_typed p"
proof -
  obtain fl where f: "flavors_of p fl" and v: "validate_avtab (te_avtab p) p fl" "validate_cond_list (cond_list p) p fl"
    "validate_role_transes (role_tr p) fl" "validate_role_allows (role_allows p) fl" "validate_ocontexts p fl" "validate_genfs p fl"
    "validate_datum_array_gaps p fl" "validate_datum_array_entries p fl"
    using validate_parts [OF assms(1,3)] assms(4) by metis
  have c: "classes_ready p" using classes_are_ready [OF f v(7) _ assms(2)] v(8) by (simp add: validate_datum_array_entries_def)
  have s: "\<forall>c \<in> label_contexts p. context_wf c" "\<forall>c \<in> second_contexts p. context_wf c"
    "\<forall>x \<in> all_ptrs (cond_list p). ptr_ok (te_cond_avtab p) x"
    using assms(2) by (auto simp: read_shape_def)
  show ?thesis
    using avtab_typed [OF f assms(3) c v(1)] cond_rules_typed [OF f assms(3) c v(2) s(3)] ocontexts_typed [OF f v(5,6) s(1)]
      second_typed [OF f v(5) _ s(2)] entries_typed [OF f v(8)] v(3,4)
    by (auto simp: validate_role_transes_def validate_role_allows_def value_iff [OF f])
qed

lemma sample_policydb_valid: "policydb_validate sample_policy [] = Inr []"
  by code_simp

lemma sample_shape: "read_shape sample_policy"
proof -
  have a: "\<forall>e \<in> set (attr_type_map sample_policy). ebitmap_wf e"
    "\<forall>x \<in> all_ptrs (cond_list sample_policy). ptr_ok (te_cond_avtab sample_policy) x"
    by (simp_all add: sample_policy_def sample_node_def all_ptrs_def node_ptrs_def ptr_ok_def one_slot_def)
  have b: "label_contexts sample_policy = {}" "second_contexts sample_policy = {}"
    by (simp_all add: sample_policy_def label_contexts_def second_contexts_def first_contexts_def)
  show ?thesis unfolding read_shape_def
    using a b by (auto simp: sample_policy_def one_chain_def table_entries_def process_datum_def)
qed

theorem policydb_validate_typed_witness:
  "policydb_validate sample_policy [] = Inr [] \<and> datums_typed sample_policy \<and>
   list_all (rule_typed sample_policy) (avtab_nodes (te_avtab sample_policy))"
proof -
  have "policy_type sample_policy = POLICY_KERN" "policyvers sample_policy \<ge> POLICYDB_VERSION_BOOL"
    by (simp_all add: sample_policy_def)
  from policydb_validate_typed [OF sample_policydb_valid sample_shape this] sample_policydb_valid show ?thesis
    unfolding list_all_iff by blast
qed

lemma accepted_hier_ready:
  assumes "flavors_of p fl" "datums_typed p" "validate_attrtype_map p fl" "policy_type p = POLICY_KERN" "read_shape p"
    and "\<forall>n \<in> set (avtab_nodes (te_avtab p)) \<union> ptr_node (te_cond_avtab p) ` all_ptrs (cond_list p). rule_typed p n"
  shows "hier_ready p"
  unfolding hier_ready_def
proof (intro conjI ballI allI impI)
  fix e i assume e: "e \<in> set (attr_type_map p)" "ebitmap_get_bit e i"
  then obtain k where k: "k < length (attr_type_map p)" "e = attr_type_map p ! k" by (auto simp: in_set_conv_nth)
  have "validate_ebitmap e (fl ! SYM_TYPES)"
    using assms(3-5) k by (simp add: validate_attrtype_map_def validate_type_maps_def read_shape_def)
  moreover have "ebitmap_wf e" using assms(5) e(1) by (simp add: read_shape_def)
  ultimately have "i < fprim (fl ! SYM_TYPES)"
    using validate_ebitmap_iff flavors_wf [OF assms(1), of SYM_TYPES] e(2) by auto
  then show "i < nprim (p_types p)" using assms(1) by (simp add: flavors_of_def)
next
  fix td assume td: "Some td \<in> set (type_val_to_struct p)"
  then have "td \<in> snd ` table_entries (table (p_types p))" using assms(5) by (simp add: read_shape_def)
  then have "type_bounds td \<noteq> 0 \<longrightarrow> simple_type p (type_bounds td)" using assms(2) unfolding datums_typed_def by blast
  then show "type_bounds td \<le> nprim (p_types p)"
    by (cases "type_bounds td = 0") (auto simp: simple_type_def dest: types_of_range)
next
  fix n assume "n \<in> set (avtab_nodes (te_avtab p)) \<union> ptr_node (te_cond_avtab p) ` all_ptrs (cond_list p)"
  then have "rule_typed p n" using assms(6) by blast
  then have "ucast (target_type (fst n)) \<in> types_of p" by (auto simp: rule_typed_def)
  then have r: "(ucast (target_type (fst n)) :: u32) \<noteq> 0" "ucast (target_type (fst n)) \<le> nprim (p_types p)"
    by (auto dest: types_of_range)
  from r(1) show "target_type (fst n) \<noteq> 0" by auto
  show "ucast (target_type (fst n)) \<le> nprim (p_types p)" by (rule r(2))
qed (use assms(5) in \<open>simp_all add: read_shape_def\<close>)

text \<open>
  C13: Evaluation. In a kernel policy that \<open>policydb_validate\<close> accepts every conditional expression evaluates to 0 or 1 and every
  constraint to the value of its formula, in every context. Of the error codes of the evaluators, which pass for a grant, only
  \<open>-ENOMEM\<close> occurs, exactly when one of the buffers of a constraint cannot be allocated. The tables also have the shape that
  the check of the hierarchy takes for granted (\<open>hier_ready\<close>).
\<close>

theorem policydb_validate_evaluates:
  assumes "policydb_validate p h = Inr h'" "read_shape p" "policy_type p = POLICY_KERN" "policyvers p \<ge> POLICYDB_VERSION_BOOL"
  shows "(\<forall>c \<in> set (cond_list p). cond_evaluate_expr (bool_val_to_struct p) (cexpr c) \<in> {0, 1}) \<and>
    (\<forall>d \<in> snd ` table_entries (table (p_classes p)).
      (\<forall>c \<in> set (constraints d). \<exists>t. cnode_expr c = cons_postfix t \<and>
        (\<forall>sc tc h. fst (constraint_expr_eval p sc tc None c h) =
          (if False \<in> set (take (constraint_allocs (cnode_expr c)) h) then Inl ENOMEM
           else Inr (cons_holds (atom_val p sc tc None) t)))) \<and>
      (\<forall>c \<in> set (validatetrans d). \<exists>t. cnode_expr c = cons_postfix t \<and>
        (\<forall>sc tc xc h. fst (constraint_expr_eval p sc tc (Some xc) c h) =
          (if False \<in> set (take (constraint_allocs (cnode_expr c)) h) then Inl ENOMEM
           else Inr (cons_holds (atom_val p sc tc (Some xc)) t))))) \<and>
    hier_ready p"
proof (intro conjI ballI)
  obtain fl where f: "flavors_of p fl" and v: "validate_avtab (te_avtab p) p fl" "validate_cond_list (cond_list p) p fl"
    "validate_datum_array_gaps p fl" "validate_datum_array_entries p fl" "validate_attrtype_map p fl"
    using validate_parts [OF assms(1,3)] assms(4) by metis
  note t = entries_typed [OF f v(4)]
  have c: "classes_ready p" using classes_are_ready [OF f v(3) _ assms(2)] v(4) by (simp add: validate_datum_array_entries_def)
  show "cond_evaluate_expr (bool_val_to_struct p) (cexpr c) \<in> {0, 1}" if "c \<in> set (cond_list p)" for c
  proof -
    have "validate_cond_expr (cexpr c) (fl ! SYM_BOOLS)" using v(2) that by (simp add: validate_cond_list_def validate_cond_node_def)
    then show ?thesis
      by (intro cond_formula_value [OF flavors_wf [OF f, of SYM_BOOLS]] bools_known [OF f v(3) t assms(2)]) simp_all
  qed
  have "\<forall>x \<in> all_ptrs (cond_list p). ptr_ok (te_cond_avtab p) x" using assms(2) by (simp add: read_shape_def)
  then show "hier_ready p"
    using accepted_hier_ready [OF f t v(5) assms(3,2)] avtab_typed [OF f assms(3) c v(1)] cond_rules_typed [OF f assms(3) c v(2)] by blast
  fix d assume d: "d \<in> snd ` table_entries (table (p_classes p))"
  then have "validate_class_datum fl d" using v(4) by (auto simp: validate_datum_array_entries_def hashtab_check_iff)
  then have n: "validate_constraint_nodes (nprim (class_permissions d)) (constraints d) fl"
    "validate_constraint_nodes UINT32_MAX (validatetrans d) fl"
    by (rule class_datum_parts)+
  have w: "\<forall>e \<in> set (cnode_expr c). cexpr_wf e" if "c \<in> set (constraints d) \<union> set (validatetrans d)" for c
    using that d assms(2) unfolding read_shape_def by blast
  show "\<exists>t. cnode_expr c = cons_postfix t \<and> (\<forall>sc tc h. fst (constraint_expr_eval p sc tc None c h) =
      (if False \<in> set (take (constraint_allocs (cnode_expr c)) h) then Inl ENOMEM else Inr (cons_holds (atom_val p sc tc None) t)))"
    if "c \<in> set (constraints d)" for c
  proof -
    have "nprim (class_permissions d) \<le> 32"
      by (rule class_datum_parts [OF \<open>validate_class_datum fl d\<close>])
    then have "nprim (class_permissions d) \<noteq> UINT32_MAX" by auto
    then show ?thesis
      using constraint_evaluates [of "nprim (class_permissions d)" fl c] n(1) w that unfolding validate_constraint_nodes_def by blast
  qed
  show "\<exists>t. cnode_expr c = cons_postfix t \<and> (\<forall>sc tc xc h. fst (constraint_expr_eval p sc tc (Some xc) c h) =
      (if False \<in> set (take (constraint_allocs (cnode_expr c)) h) then Inl ENOMEM
       else Inr (cons_holds (atom_val p sc tc (Some xc)) t)))" if "c \<in> set (validatetrans d)" for c
  proof -
    have "validate_constraint_node UINT32_MAX fl c" using n(2) that unfolding validate_constraint_nodes_def by (elim conjE) (rule bspec)
    from constraint_evaluates [OF this w [OF UnI2 [OF that]]] obtain t where t: "cnode_expr c = cons_postfix t"
      "\<forall>p sc tc xc. (UINT32_MAX = UINT32_MAX \<longrightarrow> xc \<noteq> None) \<longrightarrow>
        (\<forall>h. fst (constraint_expr_eval p sc tc xc c h) =
          (if False \<in> set (take (constraint_allocs (cnode_expr c)) h) then Inl ENOMEM
           else Inr (cons_holds (atom_val p sc tc xc) t)))"
      by (elim exE conjE) (erule (1) that)
    show ?thesis by (intro exI [of _ t] conjI allI t(1) t(2) [rule_format]) (rule option.distinct)
  qed
qed

theorem policydb_validate_evaluates_witness:
  "list_all (\<lambda>c. cond_evaluate_expr (bool_val_to_struct sample_policy) (cexpr c) \<in> {0, 1}) (cond_list sample_policy) \<and>
   hier_ready sample_policy"
proof -
  have "policy_type sample_policy = POLICY_KERN" "policyvers sample_policy \<ge> POLICYDB_VERSION_BOOL"
    by (simp_all add: sample_policy_def)
  from policydb_validate_evaluates [OF sample_policydb_valid sample_shape this] show ?thesis
    unfolding list_all_iff by blast
qed

end
