(* ===== verification/Assertion.thy ===== *)
theory Assertion
  imports Validate Optimize
begin

text \<open>
  The check of the rules against the neverallow rules of a policy (\<open>assertion.c\<close>). Allow rules whose classes,
  permissions and types overlap a neverallow rule are searched first (\<open>check_assertion\<close>); only if there is one
  are the pairs of types that break the rule reported and counted (\<open>report_assertion_failures\<close>).

  The text of the messages is left out. A status is an error (\<open>rc < 0\<close>) or a boolean (\<open>rc\<close> is 0 or 1), with the
  rest of the heap; what the callbacks of \<open>avtab_map\<close> keep behind \<open>args\<close> is the status and the counter. The
  counter \<open>errors\<close> is an \<open>unsigned long\<close>, that \<open>report_assertion_failures\<close> returns as an \<open>int\<close>.
\<close>

unbundle bit_operations_syntax

abbreviation (input) AVRULE_XPERMS_IOCTLFUNCTION :: u8 where "AVRULE_XPERMS_IOCTLFUNCTION \<equiv> 1"
abbreviation (input) AVRULE_XPERMS_IOCTLDRIVER :: u8 where "AVRULE_XPERMS_IOCTLDRIVER \<equiv> 2"
abbreviation (input) AVRULE_XPERMS_NLMSG :: u8 where "AVRULE_XPERMS_NLMSG \<equiv> 3"
abbreviation (input) EXTENDED_PERMS_LEN :: nat where "EXTENDED_PERMS_LEN \<equiv> 8"

section \<open>Permissions\<close>

definition match_any_class_permissions :: "class_perm_node list \<Rightarrow> u32 \<Rightarrow> u32 \<Rightarrow> bool" where
  "match_any_class_permissions cps cls d \<longleftrightarrow> (\<exists>cp \<in> set cps. cp_class cp = cls \<and> cp_data cp AND d \<noteq> 0)"

definition extended_permissions_and :: "u32 list \<Rightarrow> u32 list \<Rightarrow> bool" where
  "extended_permissions_and perms1 perms2 \<longleftrightarrow>
     (\<exists>i \<in> set [0..<EXTENDED_PERMS_LEN]. perms1 ! i AND perms2 ! i \<noteq> 0)"

definition check_extended_permissions :: "av_extended_perms \<Rightarrow> avtab_extended_perms \<Rightarrow> bool" where
  "check_extended_permissions never allow =
     (if ax_specified never = AVRULE_XPERMS_IOCTLFUNCTION \<and> xspecified allow = AVTAB_XPERMS_IOCTLFUNCTION
      then ax_driver never = driver allow \<and> extended_permissions_and (ax_perms never) (perms allow)
      else if ax_specified never = AVRULE_XPERMS_IOCTLFUNCTION \<and> xspecified allow = AVTAB_XPERMS_IOCTLDRIVER
      then xperm_test (ax_driver never) (perms allow)
      else if ax_specified never = AVRULE_XPERMS_IOCTLDRIVER \<and> xspecified allow = AVTAB_XPERMS_IOCTLFUNCTION
      then xperm_test (driver allow) (ax_perms never)
      else if ax_specified never = AVRULE_XPERMS_IOCTLDRIVER \<and> xspecified allow = AVTAB_XPERMS_IOCTLDRIVER
      then extended_permissions_and (ax_perms never) (perms allow)
      else if ax_specified never = AVRULE_XPERMS_NLMSG \<and> xspecified allow = AVTAB_XPERMS_NLMSG
      then ax_driver never = driver allow \<and> extended_permissions_and (ax_perms never) (perms allow)
      else False)"

text \<open>\<open>result\<close> is the old content of the result, which the code leaves uninitialised.\<close>

definition and_perms :: "u32 list \<Rightarrow> u32 list \<Rightarrow> u32 list" where
  "and_perms ps qs = map (\<lambda>i. ps ! i AND qs ! i) [0..<EXTENDED_PERMS_LEN]"

definition extended_permissions_violated ::
  "avtab_extended_perms \<Rightarrow> av_extended_perms \<Rightarrow> avtab_extended_perms \<Rightarrow> avtab_extended_perms" where
  "extended_permissions_violated result never allow =
     (if ax_specified never = AVRULE_XPERMS_IOCTLFUNCTION \<and> xspecified allow = AVTAB_XPERMS_IOCTLFUNCTION
      then \<lparr>xspecified = AVTAB_XPERMS_IOCTLFUNCTION, driver = driver allow, perms = and_perms (ax_perms never) (perms allow)\<rparr>
      else if ax_specified never = AVRULE_XPERMS_IOCTLFUNCTION \<and> xspecified allow = AVTAB_XPERMS_IOCTLDRIVER
      then \<lparr>xspecified = AVTAB_XPERMS_IOCTLFUNCTION, driver = ax_driver never, perms = ax_perms never\<rparr>
      else if ax_specified never = AVRULE_XPERMS_IOCTLDRIVER \<and> xspecified allow = AVTAB_XPERMS_IOCTLFUNCTION
      then \<lparr>xspecified = AVTAB_XPERMS_IOCTLFUNCTION, driver = driver allow, perms = perms allow\<rparr>
      else if ax_specified never = AVRULE_XPERMS_IOCTLDRIVER \<and> xspecified allow = AVTAB_XPERMS_IOCTLDRIVER
      then result\<lparr>xspecified := AVTAB_XPERMS_IOCTLDRIVER, perms := and_perms (ax_perms never) (perms allow)\<rparr>
      else if ax_specified never = AVRULE_XPERMS_NLMSG \<and> xspecified allow = AVTAB_XPERMS_NLMSG
      then \<lparr>xspecified = AVTAB_XPERMS_NLMSG, driver = driver allow, perms = and_perms (ax_perms never) (perms allow)\<rparr>
      else result)"

section \<open>Pairs of types\<close>

definition is_avrule_self :: "avrule \<Rightarrow> bool" where
  "is_avrule_self r \<longleftrightarrow> ar_flags r AND RULE_SELF \<noteq> 0"

definition is_avrule_notself :: "avrule \<Rightarrow> bool" where
  "is_avrule_notself r \<longleftrightarrow> ar_flags r AND RULE_NOTSELF \<noteq> 0"

definition key_types :: "policydb \<Rightarrow> u16 \<Rightarrow> ebitmap" where  \<comment> \<open>\<open>attr_type_map[type - 1]\<close>\<close>
  "key_types p t = attr_type_map p ! (unat t - 1)"

text \<open>The targets of a rule \<open>~self\<close> or \<open>{ATTR -self}\<close>, and those of the other rules.\<close>

definition notself_targets :: "policydb \<Rightarrow> avrule \<Rightarrow> avtab_key \<Rightarrow> heap \<Rightarrow> (ebitmap \<times> heap) result" where
  "notself_targets p r k h =
     (if ebitmap_is_empty (ts_types (ttypes r)) then ebitmap_cpy (key_types p (target_type k)) h
      else ebitmap_and (ts_types (ttypes r)) (key_types p (target_type k)) h)"

definition self_targets :: "policydb \<Rightarrow> avrule \<Rightarrow> avtab_key \<Rightarrow> ebitmap \<Rightarrow> heap \<Rightarrow> (ebitmap \<times> heap) result" where
  "self_targets p r k src h =
     bind_res (ebitmap_and (ts_types (ttypes r)) (key_types p (target_type k)) h) (\<lambda>(tgt, h).
       if \<not> is_avrule_self r then Inr (tgt, h)
       else bind_res (ebitmap_and src (key_types p (target_type k)) h) (\<lambda>(self, h).
         if ebitmap_is_empty self then Inr (tgt, h) else ebitmap_union tgt self h))"

text \<open>The types of the rule that the key stands for, as \<open>(src_matches, tgt_matches)\<close>.\<close>

definition assertion_matches ::
  "policydb \<Rightarrow> avrule \<Rightarrow> avtab_key \<Rightarrow> heap \<Rightarrow> ((ebitmap \<times> ebitmap) \<times> heap) result" where
  "assertion_matches p r k h =
     bind_res (ebitmap_and (ts_types (stypes r)) (key_types p (source_type k)) h) (\<lambda>(src, h).
       if ebitmap_is_empty src then Inr ((src, ebitmap_init), h)
       else bind_res (if is_avrule_notself r then notself_targets p r k h else self_targets p r k src h)
         (\<lambda>(tgt, h). Inr ((src, tgt), h)))"

text \<open>The two nested loops over the matches: the pairs they do not skip.\<close>

definition match_pairs :: "avrule \<Rightarrow> ebitmap \<Rightarrow> ebitmap \<Rightarrow> (u32 \<times> u32) list" where
  "match_pairs r src tgt =
     [(i, j). i \<leftarrow> ebitmap_positive_bits src, j \<leftarrow> ebitmap_positive_bits tgt,
        \<not> (is_avrule_self r \<and> i \<noteq> j), \<not> (is_avrule_notself r \<and> i = j)]"

section \<open>Extended permissions\<close>

text \<open>The extended permissions that the loops over the attributes of a pair of types look at.\<close>

definition known_xperms :: "avtab_extended_perms \<Rightarrow> bool" where
  "known_xperms x \<longleftrightarrow> xspecified x = AVTAB_XPERMS_IOCTLFUNCTION \<or> xspecified x = AVTAB_XPERMS_IOCTLDRIVER \<or>
     xspecified x = AVTAB_XPERMS_NLMSG"

definition xperms_key :: "avtab_key \<Rightarrow> u32 \<Rightarrow> u32 \<Rightarrow> avtab_key" where
  "xperms_key k a b = k\<lparr>specified := AVTAB_XPERMS_ALLOWED, source_type := ucast (a + 1), target_type := ucast (b + 1)\<rparr>"

definition pair_xperms :: "policydb \<Rightarrow> avtab \<Rightarrow> u32 \<Rightarrow> u32 \<Rightarrow> avtab_key \<Rightarrow> avtab_extended_perms list" where
  "pair_xperms p tab st tt k =
     [the (xperms (snd n)).
        a \<leftarrow> ebitmap_positive_bits (type_attr_map p ! unat st),
        b \<leftarrow> ebitmap_positive_bits (type_attr_map p ! unat tt),
        n \<leftarrow> avtab_node_loop (avtab_search_node tab (xperms_key k a b)) AVTAB_XPERMS_ALLOWED,
        known_xperms (the (xperms (snd n)))]"

fun xperms_check_loop :: "av_extended_perms \<Rightarrow> avtab_extended_perms list \<Rightarrow> bool \<Rightarrow> bool" where
  "xperms_check_loop never [] rc = rc"
| "xperms_check_loop never (x # xs) rc =
     (let rc = check_extended_permissions never x in if rc then rc else xperms_check_loop never xs rc)"

definition check_assertion_extended_permissions_avtab ::
  "avrule \<Rightarrow> avtab \<Rightarrow> u32 \<Rightarrow> u32 \<Rightarrow> avtab_key \<Rightarrow> policydb \<Rightarrow> bool" where
  "check_assertion_extended_permissions_avtab r tab st tt k p =
     xperms_check_loop (the (ar_xperms r)) (pair_xperms p tab st tt k) True"

definition check_assertion_extended_permissions ::
  "avrule \<Rightarrow> avtab \<Rightarrow> avtab_key \<Rightarrow> policydb \<Rightarrow> heap \<Rightarrow> (bool \<times> heap) result" where
  "check_assertion_extended_permissions r tab k p h =
     bind_res (assertion_matches p r k h) (\<lambda>((src, tgt), h).
       if ebitmap_is_empty src \<or> ebitmap_is_empty tgt then Inr (False, h)
       else Inr (list_ex (\<lambda>(i, j). check_assertion_extended_permissions_avtab r tab i j k p) (match_pairs r src tgt), h))"

section \<open>The search\<close>

definition check_assertion_notself_match :: "avtab_key \<Rightarrow> avrule \<Rightarrow> policydb \<Rightarrow> heap \<Rightarrow> (bool \<times> heap) result" where
  "check_assertion_notself_match k r p h =
     bind_res (ebitmap_and (ts_types (stypes r)) (key_types p (source_type k)) h) (\<lambda>(src, h).
     bind_res (notself_targets p r k h) (\<lambda>(tgt, h).
       if ebitmap_cardinality src = 0 \<or> ebitmap_cardinality tgt = 0 then Inr (False, h)
       else if ebitmap_cardinality src = 1 \<and> ebitmap_cardinality tgt = 1
       then bind_res (ebitmap_and src tgt h) (\<lambda>(matches, h). Inr (ebitmap_cardinality matches \<noteq> 1, h))
       else Inr (True, h)))"

definition check_assertion_self_match :: "avtab_key \<Rightarrow> avrule \<Rightarrow> policydb \<Rightarrow> heap \<Rightarrow> (bool \<times> heap) result" where
  "check_assertion_self_match k r p h =
     bind_res (ebitmap_and (ts_types (stypes r)) (key_types p (source_type k)) h) (\<lambda>(src, h).
       Inr (ebitmap_match_any src (key_types p (target_type k)), h))"

text \<open>Whether the types of the key match, the middle of \<open>check_assertion_avtab_match\<close>.\<close>

definition assertion_types_match :: "avtab_key \<Rightarrow> avrule \<Rightarrow> policydb \<Rightarrow> heap \<Rightarrow> (bool \<times> heap) result" where
  "assertion_types_match k r p h =
     (if is_avrule_notself r then check_assertion_notself_match k r p h
      else if \<not> ebitmap_match_any (ts_types (ttypes r)) (key_types p (target_type k))
      then if ar_flags r = RULE_SELF then check_assertion_self_match k r p h else Inr (False, h)
      else Inr (True, h))"

definition check_assertion_avtab_match ::
  "policydb \<Rightarrow> avrule \<Rightarrow> avtab \<Rightarrow> avtab_key \<Rightarrow> avtab_datum \<Rightarrow> heap \<Rightarrow> (bool \<times> heap) result" where
  "check_assertion_avtab_match p r tab k d h =
     (if specified k AND AVTAB_ALLOWED = 0 then Inr (False, h)
      else if \<not> match_any_class_permissions (ar_perms r) (ucast (target_class k)) (data d) then Inr (False, h)
      else if \<not> ebitmap_match_any (ts_types (stypes r)) (key_types p (source_type k)) then Inr (False, h)
      else bind_res (assertion_types_match k r p h) (\<lambda>(m, h).
        if \<not> m then Inr (False, h)
        else if ar_specified r = AVRULE_XPERMS_NEVERALLOW then check_assertion_extended_permissions r tab k p h
        else Inr (True, h)))"

definition check_assertion_callback ::
  "policydb \<Rightarrow> avrule \<Rightarrow> avtab \<Rightarrow> avtab_key \<Rightarrow> avtab_datum \<Rightarrow> (bool \<times> heap) result \<Rightarrow> int \<times> (bool \<times> heap) result" where
  "check_assertion_callback p r tab k d s = (case s of
       Inl e \<Rightarrow> (- 1, s)
     | Inr (_, h) \<Rightarrow> (case check_assertion_avtab_match p r tab k d h of
           Inl e \<Rightarrow> (- 1, Inl e)
         | Inr (b, h) \<Rightarrow> (if b then 1 else 0, Inr (b, h))))"

definition check_assertion :: "policydb \<Rightarrow> avrule \<Rightarrow> heap \<Rightarrow> (bool \<times> heap) result" where
  "check_assertion p r h =
     bind_res (snd (avtab_map (te_avtab p) (check_assertion_callback p r (te_avtab p)) (Inr (False, h)))) (\<lambda>(found, h).
       if found then Inr (True, h)
       else snd (avtab_map (te_cond_avtab p) (check_assertion_callback p r (te_cond_avtab p)) (Inr (False, h))))"

section \<open>The report\<close>

text \<open>The number of violations reported, which the code adds up in an \<open>int\<close>.\<close>

definition report_assertion_extended_permissions ::
  "policydb \<Rightarrow> avrule \<Rightarrow> u32 \<Rightarrow> u32 \<Rightarrow> avtab_key \<Rightarrow> avtab \<Rightarrow> nat" where
  "report_assertion_extended_permissions p r st tt k tab =
     (let xs = pair_xperms p tab st tt k in
      length (filter (check_extended_permissions (the (ar_xperms r))) xs) + (if xs = [] then 1 else 0))"

definition pair_failures :: "policydb \<Rightarrow> avrule \<Rightarrow> avtab \<Rightarrow> avtab_key \<Rightarrow> u32 \<times> u32 \<Rightarrow> nat" where
  "pair_failures p r tab k = (\<lambda>(i, j).
     if ar_specified r = AVRULE_XPERMS_NEVERALLOW then report_assertion_extended_permissions p r i j k tab else 1)"

text \<open>The loop over the classes of the rule, for the given pairs.\<close>

definition class_failures ::
  "policydb \<Rightarrow> avrule \<Rightarrow> avtab \<Rightarrow> avtab_key \<Rightarrow> avtab_datum \<Rightarrow> (u32 \<times> u32) list \<Rightarrow> nat" where
  "class_failures p r tab k d prs =
     (\<Sum>cp \<leftarrow> filter (\<lambda>cp. cp_class cp = ucast (target_class k) \<and> cp_data cp AND data d \<noteq> 0) (ar_perms r).
        sum_list (map (pair_failures p r tab k) prs))"

definition report_assertion_avtab_matches ::
  "policydb \<Rightarrow> avrule \<Rightarrow> avtab \<Rightarrow> avtab_key \<Rightarrow> avtab_datum \<Rightarrow> u64 \<Rightarrow> heap \<Rightarrow> (u64 \<times> heap) result" where
  "report_assertion_avtab_matches p r tab k d errors h =
     (if specified k AND AVTAB_ALLOWED = 0 then Inr (errors, h)
      else if \<not> match_any_class_permissions (ar_perms r) (ucast (target_class k)) (data d) then Inr (errors, h)
      else bind_res (assertion_matches p r k h) (\<lambda>((src, tgt), h).
        if ebitmap_is_empty src \<or> ebitmap_is_empty tgt then Inr (errors, h)
        else Inr (errors + of_nat (class_failures p r tab k d (match_pairs r src tgt)), h)))"

definition report_assertion_callback ::
  "policydb \<Rightarrow> avrule \<Rightarrow> avtab \<Rightarrow> avtab_key \<Rightarrow> avtab_datum \<Rightarrow> (u64 \<times> heap) result \<Rightarrow> int \<times> (u64 \<times> heap) result" where
  "report_assertion_callback p r tab k d s = (case s of
       Inl e \<Rightarrow> (- 1, s)
     | Inr (errors, h) \<Rightarrow> (case report_assertion_avtab_matches p r tab k d errors h of
           Inl e \<Rightarrow> (- 1, Inl e)
         | Inr s \<Rightarrow> (0, Inr s)))"

definition report_assertion_failures :: "policydb \<Rightarrow> avrule \<Rightarrow> heap \<Rightarrow> (int \<times> heap) result" where
  "report_assertion_failures p r h =
     bind_res (snd (avtab_map (te_avtab p) (report_assertion_callback p r (te_avtab p)) (Inr (0, h)))) (\<lambda>(errors, h).
     bind_res (snd (avtab_map (te_cond_avtab p) (report_assertion_callback p r (te_cond_avtab p)) (Inr (errors, h)))) (\<lambda>(errors, h).
       Inr (sint (ucast errors :: u32), h)))"

fun check_assertions_loop :: "policydb \<Rightarrow> avrule list \<Rightarrow> u64 \<Rightarrow> heap \<Rightarrow> (u64 \<times> heap) result" where
  "check_assertions_loop p [] errors h = Inr (errors, h)"
| "check_assertions_loop p (a # as) errors h =
     (if ar_specified a AND (AVRULE_NEVERALLOW OR AVRULE_XPERMS_NEVERALLOW) = 0 then check_assertions_loop p as errors h
      else bind_res (catch_res FAIL (check_assertion p a h)) (\<lambda>(rc, h).
        if \<not> rc then check_assertions_loop p as errors h
        else bind_res (catch_res FAIL (report_assertion_failures p a h)) (\<lambda>(rc, h).
          if rc < 0 then Inl FAIL else check_assertions_loop p as (errors + of_int rc) h)))"

definition check_assertions :: "policydb \<Rightarrow> avrule list \<Rightarrow> heap \<Rightarrow> heap result" where
  "check_assertions p avrules h =
     bind_res (check_assertions_loop p avrules 0 h) (\<lambda>(errors, h). if errors \<noteq> 0 then Inl FAIL else Inr h)"

end
