(* ===== verification/Assertion_Sound.thy ===== *)
theory Assertion_Sound
  imports Assertion Validate_Expr
begin

text \<open>
  What the check of the neverallow rules decides: it finds exactly the pairs of types that a neverallow rule
  forbids and an allow rule grants, except that the report of a rule over \<open>self\<close> drops its other targets.
\<close>

unbundle bit_operations_syntax

section \<open>What a rule forbids\<close>

text \<open>\<open>i\<close> and \<open>j\<close> are types as positions of bits, one less than their values.\<close>

definition forbidden :: "avrule \<Rightarrow> u32 \<Rightarrow> u32 \<Rightarrow> bool" where
  "forbidden r i j \<longleftrightarrow> ebitmap_get_bit (ts_types (stypes r)) i \<and>
     (if is_avrule_notself r
      then (ebitmap_is_empty (ts_types (ttypes r)) \<or> ebitmap_get_bit (ts_types (ttypes r)) j) \<and> i \<noteq> j
      else ebitmap_get_bit (ts_types (ttypes r)) j \<or> is_avrule_self r \<and> i = j)"

text \<open>The extended permissions that a table allows for the types, the class and the attributes of the types.\<close>

definition allowed_xperms :: "policydb \<Rightarrow> avtab \<Rightarrow> u32 \<Rightarrow> u32 \<Rightarrow> u16 \<Rightarrow> avtab_extended_perms set" where
  "allowed_xperms p tab i j cls =
     {x. known_xperms x \<and> (\<exists>(k, d) \<in> set (avtab_nodes tab). the (xperms d) = x \<and> target_class k = cls \<and>
        AVTAB_XPERMS_ALLOWED AND specified k \<noteq> 0 \<and>
        (\<exists>a. ebitmap_get_bit (type_attr_map p ! unat i) a \<and> source_type k = ucast (a + 1)) \<and>
        (\<exists>b. ebitmap_get_bit (type_attr_map p ! unat j) b \<and> target_type k = ucast (b + 1)))}"

definition never_hits :: "avrule \<Rightarrow> hit set" where
  "never_hits r = (let x = the (ar_xperms r) in
     xperm_hits \<lparr>xspecified = ax_specified x, driver = ax_driver x, perms = ax_perms x\<rparr>)"

text \<open>
  A permission that no extended permission narrows is granted with every command; otherwise the commands that are
  allowed must not meet those of the rule.
\<close>

definition xperms_broken :: "policydb \<Rightarrow> avrule \<Rightarrow> avtab \<Rightarrow> u16 \<Rightarrow> u32 \<Rightarrow> u32 \<Rightarrow> bool" where
  "xperms_broken p r tab cls i j \<longleftrightarrow> allowed_xperms p tab i j cls = {} \<or>
     (\<exists>x \<in> allowed_xperms p tab i j cls. never_hits r \<inter> xperm_hits x \<noteq> {})"

definition grants_pair :: "policydb \<Rightarrow> avrule \<Rightarrow> avtab \<Rightarrow> avtab_node \<Rightarrow> u32 \<Rightarrow> u32 \<Rightarrow> bool" where
  "grants_pair p r tab n i j \<longleftrightarrow> specified (fst n) AND AVTAB_ALLOWED \<noteq> 0 \<and>
     match_any_class_permissions (ar_perms r) (ucast (target_class (fst n))) (data (snd n)) \<and>
     ebitmap_get_bit (key_types p (source_type (fst n))) i \<and> ebitmap_get_bit (key_types p (target_type (fst n))) j \<and>
     (ar_specified r = AVRULE_XPERMS_NEVERALLOW \<longrightarrow> xperms_broken p r tab (target_class (fst n)) i j)"

definition breaks :: "policydb \<Rightarrow> avrule \<Rightarrow> u32 \<Rightarrow> u32 \<Rightarrow> bool" where
  "breaks p r i j \<longleftrightarrow> forbidden r i j \<and>
     (\<exists>tab \<in> {te_avtab p, te_cond_avtab p}. \<exists>n \<in> set (avtab_nodes tab). grants_pair p r tab n i j)"

definition violated :: "policydb \<Rightarrow> avrule \<Rightarrow> bool" where
  "violated p r \<longleftrightarrow> (\<exists>i j. breaks p r i j)"

section \<open>Conditions\<close>

definition rule_ready :: "avrule \<Rightarrow> bool" where
  "rule_ready r \<longleftrightarrow> ebitmap_wf (ts_types (stypes r)) \<and> ebitmap_wf (ts_types (ttypes r)) \<and>
     ar_flags r \<in> {0, RULE_SELF, RULE_NOTSELF} \<and>
     (ar_specified r = AVRULE_XPERMS_NEVERALLOW \<longrightarrow> (\<exists>n. xbit (ax_perms (the (ar_xperms r))) n))"

definition assert_ready :: "policydb \<Rightarrow> bool" where
  "assert_ready p \<longleftrightarrow> (\<forall>e \<in> set (type_attr_map p). ebitmap_wf e) \<and>
     (\<forall>e \<in> set (attr_type_map p). ebitmap_wf e \<and> (\<forall>i. ebitmap_get_bit e i \<longrightarrow> unat i < length (type_attr_map p))) \<and>
     (\<forall>tab \<in> {te_avtab p, te_cond_avtab p}. avtab_wf tab \<and>
       (\<forall>(k, d) \<in> set (avtab_nodes tab). unat (source_type k) - 1 < length (attr_type_map p) \<and>
         unat (target_type k) - 1 < length (attr_type_map p) \<and>
         (AVTAB_XPERMS_ALLOWED AND specified k \<noteq> 0 \<longrightarrow> (\<exists>n. xbit (perms (the (xperms d))) n))))"

text \<open>A rule over \<open>self\<close> that has other targets too.\<close>

definition self_and_targets :: "avrule \<Rightarrow> bool" where
  "self_and_targets r \<longleftrightarrow> is_avrule_self r \<and> \<not> ebitmap_is_empty (ts_types (ttypes r))"

section \<open>Errors come from a failed allocation\<close>

abbreviation if_memory :: "heap \<Rightarrow> ('a \<times> heap) result \<Rightarrow> ('a \<Rightarrow> bool) \<Rightarrow> bool" where
  "if_memory h r P \<equiv> outcome h r (\<lambda>_. \<not> mem_ok h) P"

lemma if_memory_bind:
  assumes "if_memory h r Q" "\<And>x h'. Q x \<Longrightarrow> if_memory h' (f (x, h')) P"
  shows "if_memory h (bind_res r f) P"
proof (rule outcome_bind [OF assms(1)])
  fix x h' assume x: "Q x" "mem_ok h \<longrightarrow> mem_ok h'"
  show "outcome h' (f (x, h')) (\<lambda>_. \<not> mem_ok h) P" by (rule outcome_mono [OF assms(2) [OF x(1)]]) (use x(2) in auto)
qed

lemma if_memory_no_err: "outcome h r no_err P \<Longrightarrow> (\<And>x. P x \<Longrightarrow> Q x) \<Longrightarrow> if_memory h r Q"
  by (erule outcome_mono) auto

lemma if_memory_catch: "if_memory h r P \<Longrightarrow> if_memory h (catch_res e r) P"
  by (rule outcome_catch) auto

section \<open>Bits in order\<close>

lemma positive_bits_sorted: "ebitmap_wf e \<Longrightarrow> sorted_wrt (<) (ebitmap_positive_bits e)"
proof -
  assume "ebitmap_wf e"
  then have "sorted_wrt (<) (map unat (ebitmap_positive_bits e))"
    by (simp add: ebitmap_positive_bits_correct del: sorted_list_of_set_nonempty)
  then show ?thesis by (auto simp: sorted_wrt_map word_less_nat_alt elim: sorted_wrt_mono_rel [rotated])
qed

lemma same_bits:
  fixes xs ys :: "u32 list"
  assumes "sorted_wrt (<) xs" "sorted_wrt (<) ys" "set xs = set ys"
  shows "xs = ys"
  using strict_sorted_equal [OF assms(1,2)] assms(3) by simp

lemma empty_iff_set: "ebitmap_wf e \<Longrightarrow> ebitmap_is_empty e \<longleftrightarrow> ebitmap_set e = {}"
proof
  assume e: "ebitmap_wf e" "ebitmap_set e = {}"
  have "ebitmap_wf ebitmap_init" "ebitmap_set ebitmap_init = {}"
    by (simp_all add: ebitmap_wf_def ebitmap_init_def nodes_end_def ebitmap_set_def)
  then have "e = ebitmap_init" using ebitmap_eqI [OF e(1)] e(2) by blast
  then show "ebitmap_is_empty e" by (simp add: ebitmap_is_empty_def ebitmap_init_def)
qed (simp add: ebitmap_is_empty_def ebitmap_set_def)

lemma member_bit: "ebitmap_wf e \<Longrightarrow> b \<in> ebitmap_set e \<Longrightarrow> ebitmap_get_bit e (of_nat b)"
  using set_small [of e b] by (simp add: ebitmap_get_bit_correct unat_of_nat_lt)

lemma empty_bits: "ebitmap_wf e \<Longrightarrow> ebitmap_is_empty e \<longleftrightarrow> (\<forall>b. \<not> ebitmap_get_bit e b)"
  using member_bit [of e] by (auto simp: empty_iff_set ebitmap_get_bit_correct)

lemma positive_inter:
  assumes "ebitmap_wf e" "ebitmap_wf f" "ebitmap_wf g" "ebitmap_set e = ebitmap_set f \<inter> ebitmap_set g"
  shows "ebitmap_positive_bits e = filter (ebitmap_get_bit g) (ebitmap_positive_bits f)"
proof (rule same_bits)
  show "sorted_wrt (<) (filter (ebitmap_get_bit g) (ebitmap_positive_bits f))"
    using positive_bits_sorted [OF assms(2)] by (rule sorted_wrt_filter)
  show "set (ebitmap_positive_bits e) = set (filter (ebitmap_get_bit g) (ebitmap_positive_bits f))"
    by (auto simp: positive_bits_iff assms ebitmap_get_bit_correct)
qed (rule positive_bits_sorted [OF assms(1)])

section \<open>The pairs of types\<close>

text \<open>The pairs that the loops report for a key; they drop what a rule over \<open>self\<close> forbids besides.\<close>

definition reported :: "avrule \<Rightarrow> u32 \<Rightarrow> u32 \<Rightarrow> bool" where
  "reported r i j \<longleftrightarrow>
     (if is_avrule_notself r
      then (ebitmap_is_empty (ts_types (ttypes r)) \<or> ebitmap_get_bit (ts_types (ttypes r)) j) \<and> i \<noteq> j
      else if is_avrule_self r then i = j
      else ebitmap_get_bit (ts_types (ttypes r)) j)"

definition rule_pairs :: "policydb \<Rightarrow> avrule \<Rightarrow> avtab_key \<Rightarrow> (u32 \<times> u32) list" where
  "rule_pairs p r k =
     [(i, j). i \<leftarrow> ebitmap_positive_bits (ts_types (stypes r)), ebitmap_get_bit (key_types p (source_type k)) i,
        j \<leftarrow> ebitmap_positive_bits (key_types p (target_type k)), reported r i j]"

definition key_wf :: "policydb \<Rightarrow> avrule \<Rightarrow> avtab_key \<Rightarrow> bool" where
  "key_wf p r k \<longleftrightarrow> rule_ready r \<and> ebitmap_wf (key_types p (source_type k)) \<and> ebitmap_wf (key_types p (target_type k))"

lemma flags_cases:
  assumes "rule_ready r"
  obtains "\<not> is_avrule_self r" "\<not> is_avrule_notself r" | "is_avrule_self r" "\<not> is_avrule_notself r" "ar_flags r = RULE_SELF"
  | "\<not> is_avrule_self r" "is_avrule_notself r"
  using assms by (auto simp: rule_ready_def is_avrule_self_def is_avrule_notself_def)

text \<open>The sources and targets that are computed, where \<open>S\<close> and \<open>T\<close> are the types of the key.\<close>

definition targets_of :: "avrule \<Rightarrow> nat set \<Rightarrow> nat set \<Rightarrow> nat set" where
  "targets_of r S T =
     (if is_avrule_notself r
      then if ebitmap_set (ts_types (ttypes r)) = {} then T else ebitmap_set (ts_types (ttypes r)) \<inter> T
      else (ebitmap_set (ts_types (ttypes r)) \<inter> T) \<union> (if is_avrule_self r then S \<inter> T else {}))"

lemma notself_targets_correct:
  assumes "key_wf p r k"
  shows "if_memory h (notself_targets p r k h) (\<lambda>tgt. ebitmap_wf tgt \<and> ebitmap_set tgt =
    (if ebitmap_set (ts_types (ttypes r)) = {} then ebitmap_set (key_types p (target_type k))
     else ebitmap_set (ts_types (ttypes r)) \<inter> ebitmap_set (key_types p (target_type k))))"
proof -
  have wf: "ebitmap_wf (ts_types (ttypes r))" "ebitmap_wf (key_types p (target_type k))"
    using assms by (auto simp: key_wf_def rule_ready_def)
  show ?thesis
    using if_memory_no_err [OF ebitmap_cpy_correct [of h "key_types p (target_type k)"]] if_memory_no_err [OF ebitmap_and_correct [OF wf, of h]]
    by (cases "ebitmap_set (ts_types (ttypes r)) = {}") (simp_all add: notself_targets_def empty_iff_set [OF wf(1)] wf(2))
qed

lemma self_targets_correct:
  assumes "key_wf p r k" "ebitmap_wf src"
  shows "if_memory h (self_targets p r k src h) (\<lambda>tgt. ebitmap_wf tgt \<and> ebitmap_set tgt =
    (ebitmap_set (ts_types (ttypes r)) \<inter> ebitmap_set (key_types p (target_type k))) \<union>
      (if is_avrule_self r then ebitmap_set src \<inter> ebitmap_set (key_types p (target_type k)) else {}))"
proof -
  have wf: "ebitmap_wf (ts_types (ttypes r))" "ebitmap_wf (key_types p (target_type k))"
    using assms(1) by (auto simp: key_wf_def rule_ready_def)
  show ?thesis
    unfolding self_targets_def
  proof (rule if_memory_bind [OF if_memory_no_err [OF ebitmap_and_correct [OF wf]]], assumption, clarsimp)
    fix tgt h
    assume t: "ebitmap_wf tgt" "ebitmap_set tgt = ebitmap_set (ts_types (ttypes r)) \<inter> ebitmap_set (key_types p (target_type k))"
    show "if_memory h (bind_res (ebitmap_and src (key_types p (target_type k)) h)
       (\<lambda>(self, h). if ebitmap_is_empty self then Inr (tgt, h) else ebitmap_union tgt self h))
       (\<lambda>tgt. ebitmap_wf tgt \<and> ebitmap_set tgt = ebitmap_set (ts_types (ttypes r)) \<inter> ebitmap_set (key_types p (target_type k)) \<union>
         ebitmap_set src \<inter> ebitmap_set (key_types p (target_type k)))"
    proof (rule if_memory_bind [OF if_memory_no_err [OF ebitmap_and_correct [OF assms(2) wf(2)]]], assumption, clarsimp, intro conjI impI)
      fix self h
      assume s: "ebitmap_wf self" "ebitmap_set self = ebitmap_set src \<inter> ebitmap_set (key_types p (target_type k))"
      show "if_memory h (ebitmap_union tgt self h)
       (\<lambda>tgt. ebitmap_wf tgt \<and> ebitmap_set tgt = ebitmap_set (ts_types (ttypes r)) \<inter> ebitmap_set (key_types p (target_type k)) \<union>
         ebitmap_set src \<inter> ebitmap_set (key_types p (target_type k)))"
        unfolding ebitmap_union_def
        by (rule if_memory_catch, rule if_memory_no_err [OF ebitmap_or_correct [OF t(1) s(1)]]) (simp add: t(2) s(2))
    qed (auto simp: t empty_iff_set)
  qed
qed

lemma assertion_matches_correct:
  assumes k: "key_wf p r k" and S: "S = ebitmap_set (ts_types (stypes r)) \<inter> ebitmap_set (key_types p (source_type k))"
  shows "if_memory h (assertion_matches p r k h) (\<lambda>(src, tgt). ebitmap_wf src \<and> ebitmap_wf tgt \<and> ebitmap_set src = S \<and>
    ebitmap_set tgt = (if S = {} then {} else targets_of r S (ebitmap_set (key_types p (target_type k)))))"
  (is "if_memory h _ ?P")
proof -
  have wf: "ebitmap_wf (ts_types (stypes r))" "ebitmap_wf (key_types p (source_type k))"
    using k by (auto simp: key_wf_def rule_ready_def)
  have init: "ebitmap_wf ebitmap_init" "ebitmap_set ebitmap_init = {}"
    by (simp_all add: ebitmap_wf_def ebitmap_init_def nodes_end_def ebitmap_set_def)
  have step: "if_memory h (if ebitmap_is_empty src then Inr ((src, ebitmap_init), h)
      else bind_res (if is_avrule_notself r then notself_targets p r k h else self_targets p r k src h)
        (\<lambda>(tgt, h). Inr ((src, tgt), h))) ?P" if s: "ebitmap_wf src" "ebitmap_set src = S" for src h
  proof (cases "ebitmap_is_empty src")
    case False
    have "if_memory h (if is_avrule_notself r then notself_targets p r k h else self_targets p r k src h)
      (\<lambda>tgt. ebitmap_wf tgt \<and> ebitmap_set tgt = targets_of r S (ebitmap_set (key_types p (target_type k))))"
      using notself_targets_correct [OF k, of h] self_targets_correct [OF k s(1), of h]
      by (cases "is_avrule_notself r") (simp_all only: targets_of_def s(2) if_True if_False)
    with False show ?thesis
      by (simp only: if_False, elim if_memory_bind) (use s False in \<open>auto simp: empty_iff_set\<close>)
  qed (use s init in \<open>simp add: empty_iff_set\<close>)
  show ?thesis
    unfolding assertion_matches_def
    by (rule if_memory_bind [OF if_memory_no_err [OF ebitmap_and_correct [OF wf]]], assumption, simp only: prod.case, rule step)
      (simp_all add: S)
qed

lemma concat_pairs: "concat (map (\<lambda>j. if P j then [(i, j)] else []) xs) = map (Pair i) (filter P xs)"
  by (induction xs) auto

lemma concat_map_filter: "concat (map f (filter P xs)) = concat (map (\<lambda>x. if P x then f x else []) xs)"
  by (induction xs) auto

lemma targets_reported:
  assumes "key_wf p r k" "ebitmap_wf src" "ebitmap_wf tgt"
    and "ebitmap_set src = ebitmap_set (ts_types (stypes r)) \<inter> ebitmap_set (key_types p (source_type k))"
    and "ebitmap_set tgt = targets_of r (ebitmap_set src) (ebitmap_set (key_types p (target_type k)))" and i: "ebitmap_get_bit src i"
  shows "ebitmap_get_bit tgt j \<and> \<not> (is_avrule_self r \<and> i \<noteq> j) \<and> \<not> (is_avrule_notself r \<and> i = j) \<longleftrightarrow>
    ebitmap_get_bit (key_types p (target_type k)) j \<and> reported r i j"
proof -
  have wf: "ebitmap_wf (ts_types (ttypes r))" "ebitmap_wf (key_types p (target_type k))" "rule_ready r"
    using assms(1) by (auto simp: key_wf_def rule_ready_def)
  show ?thesis
    using i by (cases rule: flags_cases [OF wf(3)])
      (auto simp: reported_def targets_of_def assms(2-5) wf ebitmap_get_bit_correct empty_iff_set)
qed

lemma match_pairs_rule:
  assumes k: "key_wf p r k" and src: "ebitmap_wf src" "ebitmap_wf tgt"
    and sets: "ebitmap_set src = ebitmap_set (ts_types (stypes r)) \<inter> ebitmap_set (key_types p (source_type k))"
      "ebitmap_set tgt = (if ebitmap_set src = {} then {} else targets_of r (ebitmap_set src) (ebitmap_set (key_types p (target_type k))))"
  shows "match_pairs r src tgt = rule_pairs p r k"
proof -
  let ?T = "key_types p (target_type k)"
  have wf: "ebitmap_wf (ts_types (stypes r))" "ebitmap_wf (key_types p (source_type k))" "ebitmap_wf ?T"
    using k by (auto simp: key_wf_def rule_ready_def)
  have row: "filter (\<lambda>j. \<not> (is_avrule_self r \<and> i \<noteq> j) \<and> \<not> (is_avrule_notself r \<and> i = j)) (ebitmap_positive_bits tgt) =
      filter (reported r i) (ebitmap_positive_bits ?T)" if "ebitmap_get_bit src i" for i
  proof (rule same_bits)
    have "ebitmap_set src \<noteq> {}" using that src(1) by (auto simp: ebitmap_get_bit_correct)
    then show "set (filter (\<lambda>j. \<not> (is_avrule_self r \<and> i \<noteq> j) \<and> \<not> (is_avrule_notself r \<and> i = j)) (ebitmap_positive_bits tgt)) =
        set (filter (reported r i) (ebitmap_positive_bits ?T))"
      using targets_reported [OF k src sets(1) _ that] sets(2) by (auto simp: positive_bits_iff src wf)
  qed (intro sorted_wrt_filter positive_bits_sorted src wf)+
  have "match_pairs r src tgt = concat (map (\<lambda>i. map (Pair i) (filter (\<lambda>j. \<not> (is_avrule_self r \<and> i \<noteq> j) \<and>
      \<not> (is_avrule_notself r \<and> i = j)) (ebitmap_positive_bits tgt))) (ebitmap_positive_bits src))"
    by (simp add: match_pairs_def concat_pairs [symmetric] if_if_eq_conj)
  also have "\<dots> = concat (map (\<lambda>i. map (Pair i) (filter (reported r i) (ebitmap_positive_bits ?T))) (ebitmap_positive_bits src))"
    by (rule arg_cong [of _ _ concat], rule map_cong [OF refl]) (simp only: row positive_bits_iff [OF src(1)])
  also have "\<dots> = rule_pairs p r k"
    by (simp add: rule_pairs_def positive_inter [OF src(1) wf(1,2) sets(1)] concat_pairs concat_map_filter cong: if_cong)
  finally show ?thesis .
qed

lemma rule_pairs_iff:
  assumes "key_wf p r k"
  shows "(i, j) \<in> set (rule_pairs p r k) \<longleftrightarrow> ebitmap_get_bit (ts_types (stypes r)) i \<and>
    ebitmap_get_bit (key_types p (source_type k)) i \<and> ebitmap_get_bit (key_types p (target_type k)) j \<and> reported r i j"
  using assms by (auto simp: rule_pairs_def key_wf_def rule_ready_def positive_bits_iff)

text \<open>Both passes work on the pairs of the rule.\<close>

lemma with_pairs:
  assumes k: "key_wf p r k" and f: "\<And>h. if_memory h (Inr (f (rule_pairs p r k), h)) P" "f [] = z"
  shows "if_memory h (bind_res (assertion_matches p r k h) (\<lambda>((src, tgt), h).
    if ebitmap_is_empty src \<or> ebitmap_is_empty tgt then Inr (z, h) else Inr (f (match_pairs r src tgt), h))) P"
proof (rule if_memory_bind [OF assertion_matches_correct [OF k refl]], clarsimp simp only: prod.case)
  fix src tgt h
  assume m: "ebitmap_wf src" "ebitmap_wf tgt"
    "ebitmap_set src = ebitmap_set (ts_types (stypes r)) \<inter> ebitmap_set (key_types p (source_type k))"
    "ebitmap_set tgt = (if ebitmap_set (ts_types (stypes r)) \<inter> ebitmap_set (key_types p (source_type k)) = {} then {}
      else targets_of r (ebitmap_set (ts_types (stypes r)) \<inter> ebitmap_set (key_types p (source_type k))) (ebitmap_set (key_types p (target_type k))))"
  have pairs: "match_pairs r src tgt = rule_pairs p r k"
    by (rule match_pairs_rule [OF k m(1,2,3)]) (simp only: m(3,4))
  show "if_memory h (if ebitmap_is_empty src \<or> ebitmap_is_empty tgt then Inr (z, h) else Inr (f (match_pairs r src tgt), h)) P"
  proof (cases "ebitmap_is_empty src \<or> ebitmap_is_empty tgt")
    case True
    then have "match_pairs r src tgt = []"
      using m(1,2) by (auto simp: match_pairs_def empty_bits positive_bits_iff [symmetric] concat_eq_Nil_conv)
    with True f show ?thesis by (simp add: pairs)
  qed (use f(1) in \<open>simp add: pairs\<close>)
qed

section \<open>Extended permissions\<close>

lemma xperms_check_iff:
  "xperms_check_loop never xs v \<longleftrightarrow> (xs = [] \<and> v) \<or> (\<exists>x \<in> set xs. check_extended_permissions never x)"
  by (induction xs arbitrary: v) (auto simp: Let_def)

lemma extended_and_iff: "extended_permissions_and ps qs \<longleftrightarrow> (\<exists>n. xbit ps n \<and> xbit qs n)"
proof
  assume "extended_permissions_and ps qs"
  then obtain i where i: "i < 8" "ps ! i AND qs ! i \<noteq> 0" by (auto simp: extended_permissions_and_def)
  then obtain b where b: "bit (ps ! i AND qs ! i) b" by (auto simp: bit_eq_iff)
  then have "b < 32" by (auto dest: bit_imp_le_length)
  with i b have "xbit ps (i * 32 + b) \<and> xbit qs (i * 32 + b)" by (auto simp: xbit_def bit_and_iff)
  then show "\<exists>n. xbit ps n \<and> xbit qs n" by blast
next
  assume "\<exists>n. xbit ps n \<and> xbit qs n"
  then obtain n where n: "n < 256" "bit (ps ! (n div 32) AND qs ! (n div 32)) (n mod 32)" by (auto simp: xbit_def bit_and_iff)
  then have "ps ! (n div 32) AND qs ! (n div 32) \<noteq> 0" by (metis bit_0_eq bot_apply bot_bool_def)
  moreover have "n div 32 < 8" using n(1) by simp
  ultimately show "extended_permissions_and ps qs" unfolding extended_permissions_and_def by auto
qed

text \<open>A command is a driver and one of its 256 functions.\<close>

lemma xbit_less: "xbit ps n \<Longrightarrow> n < 256"
  by (simp add: xbit_def)

lemma some_command: "(\<exists>m. P (m div 256) (m mod 256)) \<longleftrightarrow> (\<exists>u. \<exists>n < 256. P u n)" for P :: "nat \<Rightarrow> nat \<Rightarrow> bool"
proof
  assume "\<exists>u. \<exists>n < 256. P u n"
  then obtain u n where "n < 256" "P u n" by blast
  then have "P ((u * 256 + n) div 256) ((u * 256 + n) mod 256)" by simp
  then show "\<exists>m. P (m div 256) (m mod 256)" by blast
qed (metis mod_less_divisor zero_less_numeral)

lemma function_member: "(\<exists>n. m = u * 256 + n \<and> xbit ps n) \<longleftrightarrow> m div 256 = u \<and> xbit ps (m mod 256)" for m u :: nat
proof
  assume "m div 256 = u \<and> xbit ps (m mod 256)"
  then show "\<exists>n. m = u * 256 + n \<and> xbit ps n" by (metis div_mult_mod_eq)
next
  assume "\<exists>n. m = u * 256 + n \<and> xbit ps n"
  then obtain n where n: "m = u * 256 + n" "xbit ps n" by blast
  then show "m div 256 = u \<and> xbit ps (m mod 256)" using xbit_less [OF n(2)] by simp
qed

lemma check_extended_iff:
  assumes "\<exists>n. xbit (ax_perms never) n" "\<exists>n. xbit (perms x) n"
  shows "check_extended_permissions never x \<longleftrightarrow>
    xperm_hits \<lparr>xspecified = ax_specified never, driver = ax_driver never, perms = ax_perms never\<rparr> \<inter> xperm_hits x \<noteq> {}"
proof -
  let ?n = "\<lparr>xspecified = ax_specified never, driver = ax_driver never, perms = ax_perms never\<rparr>"
  define io where "io y u n \<longleftrightarrow> (xspecified y = 1 \<and> u = unat (driver y) \<and> xbit (perms y) n \<or> xspecified y = 2 \<and> xbit (perms y) u)"
    for y :: avtab_extended_perms and u n
  define nl where "nl y u n \<longleftrightarrow> xspecified y = 3 \<and> u = unat (driver y) \<and> xbit (perms y) n" for y :: avtab_extended_perms and u n
  have I: "Ioctl m \<in> xperm_hits y \<longleftrightarrow> io y (m div 256) (m mod 256)" for y m
    using function_member [of m "unat (driver y)" "perms y"] by (auto simp: xperm_hits_def io_def)
  have N: "Nlmsg m \<in> xperm_hits y \<longleftrightarrow> nl y (m div 256) (m mod 256)" for y m
    using function_member [of m "unat (driver y)" "perms y"] by (auto simp: xperm_hits_def nl_def)
  have P: "Perm b \<notin> xperm_hits y" for b y by (auto simp: xperm_hits_def)
  have "xperm_hits ?n \<inter> xperm_hits x \<noteq> {} \<longleftrightarrow> (\<exists>m. Ioctl m \<in> xperm_hits ?n \<and> Ioctl m \<in> xperm_hits x) \<or>
      (\<exists>m. Nlmsg m \<in> xperm_hits ?n \<and> Nlmsg m \<in> xperm_hits x)"
    using P by (metis (no_types, lifting) IntE IntI all_not_in_conv hit.exhaust)
  also have "\<dots> \<longleftrightarrow> (\<exists>u. \<exists>n < 256. io ?n u n \<and> io x u n) \<or> (\<exists>u. \<exists>n < 256. nl ?n u n \<and> nl x u n)"
    by (simp only: I N some_command [of "\<lambda>u n. io ?n u n \<and> io x u n"] some_command [of "\<lambda>u n. nl ?n u n \<and> nl x u n"])
  also have "\<dots> \<longleftrightarrow> check_extended_permissions never x"
    using assms unfolding check_extended_permissions_def extended_and_iff xperm_test_bit io_def nl_def
    by (auto dest: xbit_less)
  finally show ?thesis ..
qed

lemma pair_xperms_set:
  assumes "avtab_wf tab" "ebitmap_wf (type_attr_map p ! unat i)" "ebitmap_wf (type_attr_map p ! unat j)"
  shows "set (pair_xperms p tab i j k) = allowed_xperms p tab i j (target_class k)"
proof -
  have nodes: "avtab_node_loop (avtab_search_node tab (xperms_key k a b)) AVTAB_XPERMS_ALLOWED =
      filter (\<lambda>n. source_type (fst n) = ucast (a + 1) \<and> target_type (fst n) = ucast (b + 1) \<and>
        target_class (fst n) = target_class k \<and> AVTAB_XPERMS_ALLOWED AND specified (fst n) \<noteq> 0) (avtab_nodes tab)" for a b
    using avtab_loop_filter [OF assms(1), of "xperms_key k a b"]
    by (auto simp: node_matches_def key_same_def key_spec_def xperms_key_def intro: filter_cong)
  have "x \<in> set (pair_xperms p tab i j k) \<longleftrightarrow> (\<exists>n \<in> set (avtab_nodes tab). known_xperms x \<and> the (xperms (snd n)) = x \<and>
      target_class (fst n) = target_class k \<and> AVTAB_XPERMS_ALLOWED AND specified (fst n) \<noteq> 0 \<and>
      (\<exists>a. ebitmap_get_bit (type_attr_map p ! unat i) a \<and> source_type (fst n) = ucast (a + 1)) \<and>
      (\<exists>b. ebitmap_get_bit (type_attr_map p ! unat j) b \<and> target_type (fst n) = ucast (b + 1)))" for x
    unfolding pair_xperms_def nodes by (simp add: Bex_def positive_bits_iff assms) (rule iffI; elim exE conjE; hypsubst?; blast)
  then show ?thesis unfolding allowed_xperms_def by (simp add: set_eq_iff split_beta)
qed

lemma type_attr_wf:
  assumes "assert_ready p" "ebitmap_get_bit (key_types p t) i" "unat t - 1 < length (attr_type_map p)"
  shows "ebitmap_wf (type_attr_map p ! unat i)"
proof -
  have "unat i < length (type_attr_map p)"
    using assms nth_mem [OF assms(3)] unfolding assert_ready_def key_types_def by blast
  then show ?thesis using assms(1) nth_mem unfolding assert_ready_def by blast
qed

lemma allowed_xperms_some:
  assumes "assert_ready p" "tab \<in> {te_avtab p, te_cond_avtab p}" "x \<in> allowed_xperms p tab i j cls"
  shows "\<exists>n. xbit (perms x) n"
  using assms unfolding assert_ready_def allowed_xperms_def by blast

lemma broken_iff:
  assumes p: "assert_ready p" "tab \<in> {te_avtab p, te_cond_avtab p}" and r: "rule_ready r" "ar_specified r = AVRULE_XPERMS_NEVERALLOW"
    and wf: "ebitmap_wf (type_attr_map p ! unat i)" "ebitmap_wf (type_attr_map p ! unat j)"
  shows "check_assertion_extended_permissions_avtab r tab i j k p \<longleftrightarrow> xperms_broken p r tab (target_class k) i j"
    and "0 < report_assertion_extended_permissions p r i j k tab \<longleftrightarrow> xperms_broken p r tab (target_class k) i j"
proof -
  have "avtab_wf tab" using p unfolding assert_ready_def by blast
  note s = pair_xperms_set [OF this wf, of k]
  have c: "check_extended_permissions (the (ar_xperms r)) x \<longleftrightarrow> never_hits r \<inter> xperm_hits x \<noteq> {}"
    if "x \<in> set (pair_xperms p tab i j k)" for x
    unfolding never_hits_def Let_def
    by (rule check_extended_iff) (use r allowed_xperms_some [OF p, of x] that s in \<open>simp_all add: rule_ready_def\<close>)
  have e: "pair_xperms p tab i j k = [] \<longleftrightarrow> allowed_xperms p tab i j (target_class k) = {}"
    using s by (metis set_empty)
  show "check_assertion_extended_permissions_avtab r tab i j k p \<longleftrightarrow> xperms_broken p r tab (target_class k) i j"
    using c by (auto simp: check_assertion_extended_permissions_avtab_def xperms_check_iff xperms_broken_def e s)
  show "0 < report_assertion_extended_permissions p r i j k tab \<longleftrightarrow> xperms_broken p r tab (target_class k) i j"
    using c by (auto simp: report_assertion_extended_permissions_def Let_def xperms_broken_def e s filter_empty_conv)
qed

section \<open>The search\<close>

lemma reported_forbidden: "ebitmap_get_bit (ts_types (stypes r)) i \<Longrightarrow> reported r i j \<Longrightarrow> forbidden r i j"
  by (auto simp: reported_def forbidden_def split: if_splits)

lemma forbidden_reported: "\<not> self_and_targets r \<Longrightarrow> rule_ready r \<Longrightarrow> forbidden r i j \<Longrightarrow> reported r i j"
  using empty_bits [of "ts_types (ttypes r)"]
  by (auto simp: reported_def forbidden_def self_and_targets_def rule_ready_def split: if_splits)

lemma two_members:
  fixes A B :: "nat set"
  assumes "finite A" "finite B"
  shows "(\<exists>a \<in> A. \<exists>b \<in> B. a \<noteq> b) \<longleftrightarrow>
    \<not> (card A = 0 \<or> card B = 0) \<and> \<not> (card A = 1 \<and> card B = 1 \<and> card (A \<inter> B) = 1)"
proof
  assume "\<exists>a \<in> A. \<exists>b \<in> B. a \<noteq> b"
  then obtain a b where ab: "a \<in> A" "b \<in> B" "a \<noteq> b" by blast
  then have "A \<inter> B = {}" if "card A = 1" "card B = 1" using that by (elim card_1_singletonE) auto
  then show "\<not> (card A = 0 \<or> card B = 0) \<and> \<not> (card A = 1 \<and> card B = 1 \<and> card (A \<inter> B) = 1)"
    using assms ab by auto
next
  assume n: "\<not> (card A = 0 \<or> card B = 0) \<and> \<not> (card A = 1 \<and> card B = 1 \<and> card (A \<inter> B) = 1)"
  show "\<exists>a \<in> A. \<exists>b \<in> B. a \<noteq> b"
  proof (rule ccontr)
    assume same: "\<not> (\<exists>a \<in> A. \<exists>b \<in> B. a \<noteq> b)"
    have "A \<noteq> {}" "B \<noteq> {}" using n by auto
    then obtain a b where ab: "a \<in> A" "b \<in> B" by blast
    have ba: "b = a" using same ab by metis
    have "A \<subseteq> {a}" "B \<subseteq> {a}" using same ab ba by (metis subsetI singleton_iff)+
    then have "A = {a}" "B = {a}" using ab ba by (metis subset_singletonD empty_iff)+
    then have "card A = 1" "card B = 1" "card (A \<inter> B) = 1" by simp_all
    with n show False by simp
  qed
qed

definition types_overlap :: "policydb \<Rightarrow> avrule \<Rightarrow> avtab_key \<Rightarrow> bool" where
  "types_overlap p r k \<longleftrightarrow> (\<exists>i j. ebitmap_get_bit (key_types p (source_type k)) i \<and>
     ebitmap_get_bit (key_types p (target_type k)) j \<and> forbidden r i j)"

lemma cardinality_zero: "ebitmap_wf e \<Longrightarrow> ebitmap_cardinality e = 0 \<longleftrightarrow> card (ebitmap_set e) = 0"
  and cardinality_one: "ebitmap_wf e \<Longrightarrow> ebitmap_cardinality e = 1 \<longleftrightarrow> card (ebitmap_set e) = 1"
  using ebitmap_cardinality_correct [of e] unat_eq_iff [of "ebitmap_cardinality e" 1] by (auto simp: unat_eq_0)

lemma overlap_sets:
  assumes "key_wf p r k"
  shows "is_avrule_notself r \<Longrightarrow> types_overlap p r k \<longleftrightarrow>
      (\<exists>a \<in> ebitmap_set (ts_types (stypes r)) \<inter> ebitmap_set (key_types p (source_type k)).
       \<exists>b \<in> (if ebitmap_set (ts_types (ttypes r)) = {} then ebitmap_set (key_types p (target_type k))
         else ebitmap_set (ts_types (ttypes r)) \<inter> ebitmap_set (key_types p (target_type k))). a \<noteq> b)"
proof -
  have wf: "ebitmap_wf (ts_types (stypes r))" "ebitmap_wf (ts_types (ttypes r))" "ebitmap_wf (key_types p (source_type k))"
    "ebitmap_wf (key_types p (target_type k))"
    using assms by (auto simp: key_wf_def rule_ready_def)
  have ex: "(\<exists>a \<in> X. \<exists>b \<in> Y. a \<noteq> b) \<longleftrightarrow> (\<exists>i j :: u32. unat i \<in> X \<and> unat j \<in> Y \<and> i \<noteq> j)"
    if "\<forall>a \<in> X. a < 2 ^ 32" "\<forall>a \<in> Y. a < 2 ^ 32" for X Y
  proof
    assume "\<exists>a \<in> X. \<exists>b \<in> Y. a \<noteq> b"
    then obtain a b where ab: "a \<in> X" "b \<in> Y" "a \<noteq> b" by blast
    then have "unat (of_nat a :: u32) = a" "unat (of_nat b :: u32) = b" using that by (simp_all add: unat_of_nat_lt)
    with ab show "\<exists>i j :: u32. unat i \<in> X \<and> unat j \<in> Y \<and> i \<noteq> j" by metis
  qed (use unat_eq_iff in blast)
  assume n: "is_avrule_notself r"
  show ?thesis
    using n by (subst ex)
      (auto simp: types_overlap_def forbidden_def ebitmap_get_bit_correct wf empty_iff_set dest: set_small [OF wf(1)] set_small [OF wf(4)])
qed

lemma notself_match_correct:
  assumes k: "key_wf p r k" and n: "is_avrule_notself r"
  shows "if_memory h (check_assertion_notself_match k r p h) (\<lambda>m. m \<longleftrightarrow> types_overlap p r k)"
proof -
  have wf: "ebitmap_wf (ts_types (stypes r))" "ebitmap_wf (key_types p (source_type k))"
    using k by (auto simp: key_wf_def rule_ready_def)
  let ?B = "if ebitmap_set (ts_types (ttypes r)) = {} then ebitmap_set (key_types p (target_type k))
     else ebitmap_set (ts_types (ttypes r)) \<inter> ebitmap_set (key_types p (target_type k))"
  note ov = overlap_sets [OF k n]
  have step: "if_memory h (if ebitmap_cardinality src = 0 \<or> ebitmap_cardinality tgt = 0 then Inr (False, h)
       else if ebitmap_cardinality src = 1 \<and> ebitmap_cardinality tgt = 1
       then bind_res (ebitmap_and src tgt h) (\<lambda>(matches, h). Inr (ebitmap_cardinality matches \<noteq> 1, h))
       else Inr (True, h)) (\<lambda>m. m \<longleftrightarrow> types_overlap p r k)"
    if s: "ebitmap_wf src" "ebitmap_set src = ebitmap_set (ts_types (stypes r)) \<inter> ebitmap_set (key_types p (source_type k))"
      and t: "ebitmap_wf tgt" "ebitmap_set tgt = ?B" for src tgt h
  proof -
    have m: "types_overlap p r k \<longleftrightarrow> \<not> (card (ebitmap_set src) = 0 \<or> card (ebitmap_set tgt) = 0) \<and>
        \<not> (card (ebitmap_set src) = 1 \<and> card (ebitmap_set tgt) = 1 \<and> card (ebitmap_set src \<inter> ebitmap_set tgt) = 1)"
      using ov two_members [of "ebitmap_set src" "ebitmap_set tgt"] by (simp only: s(2) t(2) finite_ebitmap_set simp_thms finite_Int split: if_splits)
    have "if_memory h (bind_res (ebitmap_and src tgt h) (\<lambda>(matches, h). Inr (ebitmap_cardinality matches \<noteq> 1, h)))
        (\<lambda>b. b \<longleftrightarrow> card (ebitmap_set src \<inter> ebitmap_set tgt) \<noteq> 1)"
      by (rule if_memory_bind [OF if_memory_no_err [OF ebitmap_and_correct [OF s(1) t(1)]]], assumption)
        (auto simp: cardinality_one)
    with m show ?thesis by (auto simp: cardinality_zero cardinality_one s(1) t(1))
  qed
  show ?thesis
    unfolding check_assertion_notself_match_def
    by (rule if_memory_bind [OF if_memory_no_err [OF ebitmap_and_correct [OF wf]]], assumption, simp only: prod.case,
      rule if_memory_bind [OF notself_targets_correct [OF k]], simp only: prod.case, rule step) simp_all
qed

lemma overlap_bits: "ebitmap_wf e \<Longrightarrow> ebitmap_wf f \<Longrightarrow>
    ebitmap_match_any e f \<longleftrightarrow> (\<exists>i. ebitmap_get_bit e i \<and> ebitmap_get_bit f i)"
  using member_bit [of e] member_bit [of f] by (auto simp: ebitmap_match_any_correct ebitmap_get_bit_correct)

lemma self_match_correct:
  assumes k: "key_wf p r k"
  shows "if_memory h (check_assertion_self_match k r p h) (\<lambda>m. m \<longleftrightarrow> (\<exists>i. ebitmap_get_bit (ts_types (stypes r)) i \<and>
    ebitmap_get_bit (key_types p (source_type k)) i \<and> ebitmap_get_bit (key_types p (target_type k)) i))"
proof -
  have wf: "ebitmap_wf (ts_types (stypes r))" "ebitmap_wf (key_types p (source_type k))" "ebitmap_wf (key_types p (target_type k))"
    using k by (auto simp: key_wf_def rule_ready_def)
  show ?thesis
    unfolding check_assertion_self_match_def
    by (rule if_memory_bind [OF if_memory_no_err [OF ebitmap_and_correct [OF wf(1,2)]]], assumption)
      (auto simp: overlap_bits wf ebitmap_get_bit_correct)
qed

lemma types_match_correct:
  assumes k: "key_wf p r k" and m: "ebitmap_match_any (ts_types (stypes r)) (key_types p (source_type k))"
  shows "if_memory h (assertion_types_match k r p h) (\<lambda>m. m \<longleftrightarrow> types_overlap p r k)"
proof -
  have wf: "ebitmap_wf (ts_types (stypes r))" "ebitmap_wf (ts_types (ttypes r))" "ebitmap_wf (key_types p (source_type k))"
    "ebitmap_wf (key_types p (target_type k))" and r: "rule_ready r"
    using k by (auto simp: key_wf_def rule_ready_def)
  obtain i where i: "ebitmap_get_bit (ts_types (stypes r)) i" "ebitmap_get_bit (key_types p (source_type k)) i"
    using m by (auto simp: overlap_bits wf)
  show ?thesis
  proof (cases rule: flags_cases [OF r])
    case 1
    then have "types_overlap p r k \<longleftrightarrow> ebitmap_match_any (ts_types (ttypes r)) (key_types p (target_type k))" "ar_flags r \<noteq> RULE_SELF"
      using i by (auto simp: overlap_bits wf types_overlap_def forbidden_def is_avrule_self_def)
    with 1 show ?thesis by (simp add: assertion_types_match_def)
  next
    case 2
    then have "types_overlap p r k \<longleftrightarrow> ebitmap_match_any (ts_types (ttypes r)) (key_types p (target_type k)) \<or>
       (\<exists>i. ebitmap_get_bit (ts_types (stypes r)) i \<and>
        ebitmap_get_bit (key_types p (source_type k)) i \<and> ebitmap_get_bit (key_types p (target_type k)) i)"
      using i by (auto simp: overlap_bits wf types_overlap_def forbidden_def)
    with 2 show ?thesis
      using self_match_correct [OF k, of h] by (auto simp: assertion_types_match_def)
  next
    case 3
    with notself_match_correct [OF k, of h] show ?thesis by (simp add: assertion_types_match_def)
  qed
qed

text \<open>What the search finds at a node: every forbidden pair, or for extended permissions every pair that is reported.\<close>

definition searched :: "avrule \<Rightarrow> u32 \<Rightarrow> u32 \<Rightarrow> bool" where
  "searched r i j \<longleftrightarrow> forbidden r i j \<and> (ar_specified r = AVRULE_XPERMS_NEVERALLOW \<longrightarrow> reported r i j)"

lemma searched_xperms: "ar_specified r = AVRULE_XPERMS_NEVERALLOW \<Longrightarrow>
    searched r i j \<longleftrightarrow> ebitmap_get_bit (ts_types (stypes r)) i \<and> reported r i j"
  using reported_forbidden [of r i j] by (auto simp: searched_def) (simp add: forbidden_def)

lemma node_ready:
  assumes "assert_ready p" "tab \<in> {te_avtab p, te_cond_avtab p}" "rule_ready r" "(k, d) \<in> set (avtab_nodes tab)"
  shows "key_wf p r k" "ebitmap_get_bit (key_types p (source_type k)) i \<Longrightarrow> ebitmap_wf (type_attr_map p ! unat i)"
    "ebitmap_get_bit (key_types p (target_type k)) j \<Longrightarrow> ebitmap_wf (type_attr_map p ! unat j)"
proof -
  have len: "unat (source_type k) - 1 < length (attr_type_map p)" "unat (target_type k) - 1 < length (attr_type_map p)"
    using assms unfolding assert_ready_def by blast+
  then have "ebitmap_wf (key_types p (source_type k))" "ebitmap_wf (key_types p (target_type k))"
    using assms(1) nth_mem unfolding assert_ready_def key_types_def by blast+
  then show "key_wf p r k" using assms(3) by (simp add: key_wf_def)
  show "ebitmap_get_bit (key_types p (source_type k)) i \<Longrightarrow> ebitmap_wf (type_attr_map p ! unat i)"
    "ebitmap_get_bit (key_types p (target_type k)) j \<Longrightarrow> ebitmap_wf (type_attr_map p ! unat j)"
    using type_attr_wf [OF assms(1)] len by blast+
qed

lemma avtab_match_correct:
  assumes p: "assert_ready p" and tab: "tab \<in> {te_avtab p, te_cond_avtab p}" and r: "rule_ready r"
    and n: "(k, d) \<in> set (avtab_nodes tab)"
  shows "if_memory h (check_assertion_avtab_match p r tab k d h) (\<lambda>b. b \<longleftrightarrow> (\<exists>i j. searched r i j \<and> grants_pair p r tab (k, d) i j))"
proof -
  note kw = node_ready(1) [OF p tab r n]
  have wf: "ebitmap_wf (ts_types (stypes r))" "ebitmap_wf (key_types p (source_type k))" using kw by (auto simp: key_wf_def rule_ready_def)
  note b = broken_iff(1) [OF p tab r _ node_ready(2,3) [OF p tab r n]]
  have none: "\<not> types_overlap p r k \<Longrightarrow> \<not> (searched r i j \<and> grants_pair p r tab (k, d) i j)" for i j
    by (auto simp: types_overlap_def grants_pair_def searched_def)
  have src: "\<not> ebitmap_match_any (ts_types (stypes r)) (key_types p (source_type k)) \<Longrightarrow> \<not> types_overlap p r k"
    by (auto simp: overlap_bits wf types_overlap_def forbidden_def)
  have x: "if_memory h (check_assertion_extended_permissions r tab k p h)
      (\<lambda>b. b \<longleftrightarrow> (\<exists>(i, j) \<in> set (rule_pairs p r k). check_assertion_extended_permissions_avtab r tab i j k p))" for h
    unfolding check_assertion_extended_permissions_def by (rule with_pairs [OF kw]) (auto simp: list_ex_iff)
  show ?thesis
  proof (cases "specified k AND AVTAB_ALLOWED \<noteq> 0 \<and> match_any_class_permissions (ar_perms r) (ucast (target_class k)) (data d) \<and>
      ebitmap_match_any (ts_types (stypes r)) (key_types p (source_type k))")
    case False
    then have "\<not> (searched r i j \<and> grants_pair p r tab (k, d) i j)" for i j
      using none [of i j] src by (auto simp: grants_pair_def)
    with False show ?thesis by (auto simp: check_assertion_avtab_match_def)
  next
    case True
    have "if_memory h (if \<not> m then Inr (False, h)
        else if ar_specified r = AVRULE_XPERMS_NEVERALLOW then check_assertion_extended_permissions r tab k p h
        else Inr (True, h)) (\<lambda>b. b \<longleftrightarrow> (\<exists>i j. searched r i j \<and> grants_pair p r tab (k, d) i j))"
      if "m \<longleftrightarrow> types_overlap p r k" for m h
    proof (cases "m \<and> ar_specified r = AVRULE_XPERMS_NEVERALLOW")
      case xp: True
      have e: "(i, j) \<in> set (rule_pairs p r k) \<and> check_assertion_extended_permissions_avtab r tab i j k p \<longleftrightarrow>
          searched r i j \<and> grants_pair p r tab (k, d) i j" for i j
        by (cases "ebitmap_get_bit (key_types p (source_type k)) i \<and> ebitmap_get_bit (key_types p (target_type k)) j")
          (use b xp True in \<open>auto simp: rule_pairs_iff [OF kw] searched_xperms grants_pair_def\<close>)
      have "(\<exists>(i, j) \<in> set (rule_pairs p r k). check_assertion_extended_permissions_avtab r tab i j k p) \<longleftrightarrow>
          (\<exists>i j. searched r i j \<and> grants_pair p r tab (k, d) i j)"
        by (simp only: Bex_def split_paired_Ex prod.case e)
      with x [of h] xp show ?thesis by simp
    next
      case False
      then show ?thesis
        using that none True by (auto simp: types_overlap_def searched_def grants_pair_def)
    qed
    with True show ?thesis
      unfolding check_assertion_avtab_match_def
      by simp (rule if_memory_bind [OF types_match_correct [OF kw]], simp_all)
  qed
qed

lemma search_nodes:
  assumes "assert_ready p" "tab \<in> {te_avtab p, te_cond_avtab p}" "rule_ready r" "set ns \<subseteq> set (avtab_nodes tab)"
  shows "if_memory h (snd (nodes_apply (check_assertion_callback p r tab) ns (Inr (False, h))))
    (\<lambda>b. b \<longleftrightarrow> (\<exists>n \<in> set ns. \<exists>i j. searched r i j \<and> grants_pair p r tab n i j))"
  using assms(4)
proof (induction ns arbitrary: h)
  case (Cons n ns)
  obtain k d where n: "n = (k, d)" by (cases n)
  let ?f = "check_assertion_callback p r tab"
  let ?m = "check_assertion_avtab_match p r tab k d h"
  have "snd (nodes_apply ?f (n # ns) (Inr (False, h))) =
      bind_res ?m (\<lambda>(b, h). if b then Inr (True, h) else snd (nodes_apply ?f ns (Inr (False, h))))"
    by (cases ?m) (auto simp: n check_assertion_callback_def split: prod.splits)
  moreover have "if_memory h (bind_res ?m (\<lambda>(b, h). if b then Inr (True, h) else snd (nodes_apply ?f ns (Inr (False, h)))))
      (\<lambda>b. b \<longleftrightarrow> (\<exists>n \<in> set (n # ns). \<exists>i j. searched r i j \<and> grants_pair p r tab n i j))"
  proof (rule if_memory_bind [OF avtab_match_correct [OF assms(1-3)]])
    show "(k, d) \<in> set (avtab_nodes tab)" using Cons.prems n by simp
  next
    fix b h' assume "b \<longleftrightarrow> (\<exists>i j. searched r i j \<and> grants_pair p r tab (k, d) i j)"
    then have b: "(\<exists>n \<in> set (n # ns). \<exists>i j. searched r i j \<and> grants_pair p r tab n i j) \<longleftrightarrow>
        b \<or> (\<exists>n \<in> set ns. \<exists>i j. searched r i j \<and> grants_pair p r tab n i j)" by (simp add: n)
    show "if_memory h' (case (b, h') of (b, h) \<Rightarrow> if b then Inr (True, h) else snd (nodes_apply ?f ns (Inr (False, h))))
      (\<lambda>b. b \<longleftrightarrow> (\<exists>n \<in> set (n # ns). \<exists>i j. searched r i j \<and> grants_pair p r tab n i j))"
      unfolding b using Cons.IH [of h'] Cons.prems by (cases b) simp_all
  qed
  ultimately show ?case by simp
qed simp

lemma map_nodes: "avtab_map tab f s = nodes_apply f (avtab_nodes tab) s"
  by (simp add: avtab_map_def avtab_nodes_def split: option.split)

definition rule_found :: "policydb \<Rightarrow> avrule \<Rightarrow> bool" where
  "rule_found p r \<longleftrightarrow> (\<exists>tab \<in> {te_avtab p, te_cond_avtab p}. \<exists>n \<in> set (avtab_nodes tab). \<exists>i j.
     searched r i j \<and> grants_pair p r tab n i j)"

lemma check_assertion_found:
  assumes "assert_ready p" "rule_ready r"
  shows "if_memory h (check_assertion p r h) (\<lambda>b. b \<longleftrightarrow> rule_found p r)"
  unfolding check_assertion_def map_nodes
proof (rule if_memory_bind [OF search_nodes [OF assms(1) _ assms(2)]])
  fix b h'
  assume b: "b \<longleftrightarrow> (\<exists>n \<in> set (avtab_nodes (te_avtab p)). \<exists>i j. searched r i j \<and> grants_pair p r (te_avtab p) n i j)"
  then have f: "rule_found p r \<longleftrightarrow> b \<or> (\<exists>n \<in> set (avtab_nodes (te_cond_avtab p)). \<exists>i j.
      searched r i j \<and> grants_pair p r (te_cond_avtab p) n i j)" by (simp add: rule_found_def)
  show "if_memory h' (case (b, h') of (b, h) \<Rightarrow> if b then Inr (True, h)
      else snd (nodes_apply (check_assertion_callback p r (te_cond_avtab p)) (avtab_nodes (te_cond_avtab p)) (Inr (False, h))))
    (\<lambda>b. b \<longleftrightarrow> rule_found p r)"
    unfolding f using search_nodes [OF assms(1) _ assms(2), of "te_cond_avtab p" "avtab_nodes (te_cond_avtab p)" h']
    by (cases b) simp_all
qed simp_all

section \<open>The report\<close>

definition node_failures :: "policydb \<Rightarrow> avrule \<Rightarrow> avtab \<Rightarrow> avtab_node \<Rightarrow> nat" where
  "node_failures p r tab n =
     (if specified (fst n) AND AVTAB_ALLOWED = 0 \<or>
         \<not> match_any_class_permissions (ar_perms r) (ucast (target_class (fst n))) (data (snd n)) then 0
      else class_failures p r tab (fst n) (snd n) (rule_pairs p r (fst n)))"

text \<open>The number of violations of a rule that are reported.\<close>

definition failures :: "policydb \<Rightarrow> avrule \<Rightarrow> nat" where
  "failures p r = (\<Sum>n \<leftarrow> avtab_nodes (te_avtab p). node_failures p r (te_avtab p) n) +
     (\<Sum>n \<leftarrow> avtab_nodes (te_cond_avtab p). node_failures p r (te_cond_avtab p) n)"

lemma sum_pos: "0 < sum_list (map f xs) \<longleftrightarrow> (\<exists>x \<in> set xs. 0 < f x)" for f :: "'a \<Rightarrow> nat"
  by (induction xs) auto

lemma node_failures_pos:
  assumes "assert_ready p" "tab \<in> {te_avtab p, te_cond_avtab p}" "rule_ready r" "n \<in> set (avtab_nodes tab)"
  shows "0 < node_failures p r tab n \<longleftrightarrow> (\<exists>i j. ebitmap_get_bit (ts_types (stypes r)) i \<and> reported r i j \<and> grants_pair p r tab n i j)"
proof -
  obtain k d where n: "n = (k, d)" by (cases n)
  note ready = node_ready [OF assms(1-3) assms(4) [unfolded n]]
  note b = broken_iff(2) [OF assms(1-3) _ ready(2,3)]
  have e: "(i, j) \<in> set (rule_pairs p r k) \<and> 0 < pair_failures p r tab k (i, j) \<longleftrightarrow>
      ebitmap_get_bit (ts_types (stypes r)) i \<and> reported r i j \<and>
      ebitmap_get_bit (key_types p (source_type k)) i \<and> ebitmap_get_bit (key_types p (target_type k)) j \<and>
      (ar_specified r = AVRULE_XPERMS_NEVERALLOW \<longrightarrow> xperms_broken p r tab (target_class k) i j)" for i j
    by (cases "ebitmap_get_bit (key_types p (source_type k)) i \<and> ebitmap_get_bit (key_types p (target_type k)) j")
      (use b in \<open>auto simp: rule_pairs_iff [OF ready(1)] pair_failures_def\<close>)
  have "0 < node_failures p r tab n \<longleftrightarrow> specified k AND AVTAB_ALLOWED \<noteq> 0 \<and>
      match_any_class_permissions (ar_perms r) (ucast (target_class k)) (data d) \<and>
      (\<exists>i j. (i, j) \<in> set (rule_pairs p r k) \<and> 0 < pair_failures p r tab k (i, j))"
    unfolding node_failures_def class_failures_def match_any_class_permissions_def
    by (auto simp: n sum_pos)
  then show ?thesis
    unfolding e by (auto simp: grants_pair_def n)
qed

lemma report_node:
  assumes "assert_ready p" "tab \<in> {te_avtab p, te_cond_avtab p}" "rule_ready r" "(k, d) \<in> set (avtab_nodes tab)"
  shows "if_memory h (report_assertion_avtab_matches p r tab k d e h) (\<lambda>e'. e' = e + of_nat (node_failures p r tab (k, d)))"
proof -
  note kw = node_ready(1) [OF assms]
  have "if_memory h (bind_res (assertion_matches p r k h) (\<lambda>((src, tgt), h).
      if ebitmap_is_empty src \<or> ebitmap_is_empty tgt then Inr (e, h)
      else Inr (e + of_nat (class_failures p r tab k d (match_pairs r src tgt)), h)))
    (\<lambda>e'. e' = e + of_nat (class_failures p r tab k d (rule_pairs p r k)))"
    by (rule with_pairs [OF kw]) (simp_all add: class_failures_def)
  then show ?thesis by (auto simp: report_assertion_avtab_matches_def node_failures_def)
qed

lemma report_nodes:
  assumes "assert_ready p" "tab \<in> {te_avtab p, te_cond_avtab p}" "rule_ready r" "set ns \<subseteq> set (avtab_nodes tab)"
  shows "if_memory h (snd (nodes_apply (report_assertion_callback p r tab) ns (Inr (e, h))))
    (\<lambda>e'. e' = e + of_nat (\<Sum>n \<leftarrow> ns. node_failures p r tab n))"
  using assms(4)
proof (induction ns arbitrary: e h)
  case (Cons n ns)
  obtain k d where n: "n = (k, d)" by (cases n)
  let ?f = "report_assertion_callback p r tab"
  let ?m = "report_assertion_avtab_matches p r tab k d e h"
  have "snd (nodes_apply ?f (n # ns) (Inr (e, h))) = bind_res ?m (\<lambda>s. snd (nodes_apply ?f ns (Inr s)))"
    by (cases ?m) (auto simp: n report_assertion_callback_def split: prod.splits)
  moreover have "if_memory h (bind_res ?m (\<lambda>s. snd (nodes_apply ?f ns (Inr s))))
      (\<lambda>e'. e' = e + of_nat (\<Sum>n \<leftarrow> n # ns. node_failures p r tab n))"
  proof (rule if_memory_bind [OF report_node [OF assms(1-3)]])
    fix e1 h1 assume "e1 = e + of_nat (node_failures p r tab (k, d))"
    then show "if_memory h1 (snd (nodes_apply ?f ns (Inr (e1, h1)))) (\<lambda>e'. e' = e + of_nat (\<Sum>n \<leftarrow> n # ns. node_failures p r tab n))"
      using Cons.IH [of h1 e1] Cons.prems by (simp add: n add.assoc)
  qed (use Cons.prems n in simp)
  ultimately show ?case by simp
qed simp

lemma small_int: "n < 2 ^ 31 \<Longrightarrow> sint (ucast (of_nat n :: u64) :: u32) = int n"
proof -
  assume n: "n < 2 ^ 31"
  then have "unat (ucast (of_nat n :: u64) :: u32) = n"
    by (simp add: unsigned_ucast_eq unsigned_of_nat take_bit_nat_eq_self_iff)
  then have "uint (ucast (of_nat n :: u64) :: u32) = int n" by (simp add: uint_nat)
  then show ?thesis using n by (simp add: sint_uint signed_take_bit_int_eq_self)
qed

lemma report_failures_correct:
  assumes "assert_ready p" "rule_ready r" "failures p r < 2 ^ 31"
  shows "if_memory h (report_assertion_failures p r h) (\<lambda>n. n = int (failures p r))"
  unfolding report_assertion_failures_def map_nodes
  by (rule if_memory_bind [OF report_nodes [OF assms(1) _ assms(2)]], simp, simp, simp only: prod.case,
      rule if_memory_bind [OF report_nodes [OF assms(1) _ assms(2)]])
    (use small_int [OF assms(3)] in \<open>simp_all add: failures_def\<close>)

section \<open>All rules\<close>

definition neverallow :: "avrule \<Rightarrow> bool" where
  "neverallow r \<longleftrightarrow> ar_specified r AND (AVRULE_NEVERALLOW OR AVRULE_XPERMS_NEVERALLOW) \<noteq> 0"

definition total_failures :: "policydb \<Rightarrow> avrule list \<Rightarrow> nat" where
  "total_failures p rs = (\<Sum>r \<leftarrow> filter neverallow rs. failures p r)"

lemma failures_pos:
  assumes "assert_ready p" "rule_ready r"
  shows "0 < failures p r \<longleftrightarrow> (\<exists>i j. breaks p r i j \<and> reported r i j)"
proof -
  have "0 < failures p r \<longleftrightarrow> (\<exists>tab \<in> {te_avtab p, te_cond_avtab p}. \<exists>n \<in> set (avtab_nodes tab). 0 < node_failures p r tab n)"
    by (auto simp: failures_def sum_pos)
  also have "\<dots> \<longleftrightarrow> (\<exists>i j. breaks p r i j \<and> reported r i j)"
    using node_failures_pos [OF assms(1) _ assms(2)] reported_forbidden [of r] forbidden_def
    unfolding breaks_def by meson
  finally show ?thesis .
qed

lemma found_iff: "rule_found p r \<longleftrightarrow> (\<exists>i j. breaks p r i j \<and> (ar_specified r = AVRULE_XPERMS_NEVERALLOW \<longrightarrow> reported r i j))"
  unfolding rule_found_def breaks_def searched_def by blast

lemma assertions_loop_correct:
  assumes "assert_ready p" "\<forall>r \<in> set rs. neverallow r \<longrightarrow> rule_ready r" "unat e + total_failures p rs < 2 ^ 31"
  shows "if_memory h (check_assertions_loop p rs e h) (\<lambda>e'. unat e' = unat e + total_failures p rs)"
  using assms(2,3)
proof (induction rs arbitrary: e h)
  case Nil
  then show ?case by (simp add: total_failures_def)
next
  case (Cons a as)
  note IH = Cons.IH
  show ?case
  proof (cases "neverallow a")
    case False
    then show ?thesis using IH [of e h] Cons.prems by (simp add: neverallow_def total_failures_def)
  next
    case True
    then have a: "rule_ready a" using Cons.prems by simp
    have t: "total_failures p (a # as) = failures p a + total_failures p as" using True by (simp add: total_failures_def)
    have f: "failures p a < 2 ^ 31" using Cons.prems(2) t by linarith
    have add: "unat (e + of_int (int (failures p a))) = unat e + failures p a"
      using Cons.prems(2) t by (simp add: unat_word_ariths unat_of_nat take_bit_nat_eq_self_iff)
    let ?post = "\<lambda>e'. unat e' = unat e + total_failures p (a # as)"
    have rest: "if_memory h (check_assertions_loop p as (e + of_int (int (failures p a))) h) ?post" for h
      using IH [of "e + of_int (int (failures p a))" h] add t Cons.prems by (simp add: add.assoc)
    have report: "if_memory h (bind_res (catch_res FAIL (report_assertion_failures p a h)) (\<lambda>(v, h).
        if v < 0 then Inl FAIL else check_assertions_loop p as (e + of_int v) h)) ?post" for h
      by (rule if_memory_bind [OF if_memory_catch [OF report_failures_correct [OF assms(1) a f]]]) (use rest in simp)
    have skip: "if_memory h (check_assertions_loop p as e h) ?post" if "\<not> rule_found p a" for h
    proof -
      have "failures p a = 0" using that failures_pos [OF assms(1) a] found_iff [of p a] by auto
      then show ?thesis using t IH [of e h] Cons.prems by simp
    qed
    have "if_memory h (bind_res (catch_res FAIL (check_assertion p a h)) (\<lambda>(v, h).
        if \<not> v then check_assertions_loop p as e h
        else bind_res (catch_res FAIL (report_assertion_failures p a h)) (\<lambda>(v, h).
          if v < 0 then Inl FAIL else check_assertions_loop p as (e + of_int v) h))) ?post"
      by (rule if_memory_bind [OF if_memory_catch [OF check_assertion_found [OF assms(1) a]]]) (use report skip in simp)
    then show ?thesis using True by (simp add: neverallow_def)
  qed
qed

lemma total_failures_pos: "0 < total_failures p rs \<longleftrightarrow> (\<exists>r \<in> set rs. neverallow r \<and> 0 < failures p r)"
  by (auto simp: total_failures_def sum_pos)

lemma check_assertions_total:
  assumes "assert_ready p" "\<forall>r \<in> set rs. neverallow r \<longrightarrow> rule_ready r" "total_failures p rs < 2 ^ 31"
  shows "case check_assertions p rs h of
      Inl e \<Rightarrow> 0 < total_failures p rs \<or> \<not> mem_ok h
    | Inr h' \<Rightarrow> total_failures p rs = 0"
proof -
  have "unat (0 :: u64) + total_failures p rs < 2 ^ 31" using assms(3) by simp
  from assertions_loop_correct [OF assms(1,2) this, of h] show ?thesis
    unfolding check_assertions_def outcome_def
    by (auto simp: bind_res_def unat_eq_0 split: sum.splits prod.splits)
qed

lemma failures_violated:
  assumes "assert_ready p" "rule_ready r" "\<not> self_and_targets r"
  shows "0 < failures p r \<longleftrightarrow> violated p r"
  using failures_pos [OF assms(1,2)] forbidden_reported [OF assms(3,2)] by (auto simp: violated_def breaks_def)

text \<open>
  C9: Neverallow rules. Unless a rule names both \<open>self\<close> and other targets, \<open>check_assertions\<close> accepts the rules of a policy
  exactly when no allow rule, conditional or not, grants a pair of types what a neverallow rule forbids; extended
  permissions count command by command. A failed allocation may reject a policy but never accepts one.
\<close>

theorem check_assertions_exact:
  assumes "assert_ready p" "\<forall>r \<in> set rs. neverallow r \<longrightarrow> rule_ready r \<and> \<not> self_and_targets r" "total_failures p rs < 2 ^ 31"
  shows "case check_assertions p rs h of
      Inl e \<Rightarrow> (\<exists>r \<in> set rs. neverallow r \<and> violated p r) \<or> \<not> mem_ok h
    | Inr h' \<Rightarrow> (\<forall>r \<in> set rs. neverallow r \<longrightarrow> \<not> violated p r)"
proof -
  have "0 < total_failures p rs \<longleftrightarrow> (\<exists>r \<in> set rs. neverallow r \<and> violated p r)"
    using assms(2) failures_violated [OF assms(1)] unfolding total_failures_pos by blast
  moreover have "\<forall>r \<in> set rs. neverallow r \<longrightarrow> rule_ready r" using assms(2) by blast
  ultimately show ?thesis
    using check_assertions_total [OF assms(1) _ assms(3), of h] by (auto split: sum.splits)
qed

text \<open>The sample policy allows \<open>a\<close> and, under a conditional, \<open>b\<close> to use \<open>fork\<close> on \<open>a\<close>.\<close>

definition fork_rule :: "u32 \<Rightarrow> u64 \<Rightarrow> ebitmap \<Rightarrow> avrule" where
  "fork_rule fl src tgt = \<lparr>ar_specified = AVRULE_NEVERALLOW, ar_flags = fl,
     stypes = type_set_init\<lparr>ts_types := bitmap_of src\<rparr>, ttypes = type_set_init\<lparr>ts_types := tgt\<rparr>,
     ar_perms = [\<lparr>cp_class = 1, cp_data = 1\<rparr>], ar_xperms = None\<rparr>"

lemma sample_assert_ready: "assert_ready sample_policy"
proof -
  have f: "bit (2 :: u64) n \<longleftrightarrow> n = 1" "bit (1 :: u64) n \<longleftrightarrow> n = 0" for n
    by (cases n) (simp_all add: bit_Suc bit_0 bit_1_iff)
  have b: "unat i < Suc (Suc 0)" if "ebitmap_get_bit (bitmap_of 1) i \<or> ebitmap_get_bit (bitmap_of 2) i" for i
    using that f [of "unat i"] unfolding bitmap_of_bit by linarith
  have "type_attr_map sample_policy = [bitmap_of 1, bitmap_of 2]" "attr_type_map sample_policy = [bitmap_of 1, bitmap_of 2]"
    "te_avtab sample_policy = one_slot (sample_rule 1) 1" "te_cond_avtab sample_policy = one_slot (sample_rule 2) 1"
    by (simp_all add: sample_policy_def)
  then show ?thesis
    unfolding assert_ready_def using b by (simp del: bitmap_of_bit)
qed

lemma sample_fork_rules:
  "rule_ready (fork_rule RULE_SELF 1 ebitmap_init)" "\<not> self_and_targets (fork_rule RULE_SELF 1 ebitmap_init)"
  "rule_ready (fork_rule RULE_NOTSELF 1 (bitmap_of 3))" "\<not> self_and_targets (fork_rule RULE_NOTSELF 1 (bitmap_of 3))"
  "rule_ready (fork_rule RULE_SELF 2 (bitmap_of 1))" "self_and_targets (fork_rule RULE_SELF 2 (bitmap_of 1))"
  by (simp_all add: rule_ready_def fork_rule_def type_set_init_def self_and_targets_def is_avrule_self_def
      ebitmap_is_empty_def ebitmap_wf_def ebitmap_init_def nodes_end_def bitmap_of_def [of 1] bitmap_of_def [of 3] bitmap_of_def [of 2] nodes_wf_def node_ok_def)

lemma sample_parts: "attr_type_map sample_policy = [bitmap_of 1, bitmap_of 2]"
  "te_avtab sample_policy = one_slot (sample_rule 1) 1" "te_cond_avtab sample_policy = one_slot (sample_rule 2) 1"
  by (simp_all add: sample_policy_def)

lemma sample_bit_1: "ebitmap_positive_bits (bitmap_of 1) = [0]"
  by code_simp

lemma sample_bit_2: "ebitmap_positive_bits (bitmap_of 2) = [1]"
  by code_simp

lemmas sample_count = total_failures_def failures_def node_failures_def class_failures_def rule_pairs_def reported_def
  key_types_def pair_failures_def match_any_class_permissions_def sample_parts sample_bit_1 sample_bit_2 fork_rule_def
  type_set_init_def is_avrule_self_def is_avrule_notself_def neverallow_def

theorem check_assertions_exact_witness:
  "check_assertions sample_policy [fork_rule RULE_NOTSELF 1 (bitmap_of 3)] [] = Inr [] \<and>
   \<not> violated sample_policy (fork_rule RULE_NOTSELF 1 (bitmap_of 3))"
proof -
  let ?n = "fork_rule RULE_NOTSELF 1 (bitmap_of 3)"
  have c: "total_failures sample_policy [?n] < 2 ^ 31" by (simp add: sample_count)
  have n: "neverallow ?n" by (simp add: neverallow_def fork_rule_def)
  have r: "check_assertions sample_policy [?n] [] = Inr []" by code_simp
  show ?thesis
    using check_assertions_exact [OF sample_assert_ready _ c, of "[]"] n r by (simp add: sample_fork_rules)
qed

text \<open>
  C10: Search. \<open>check_assertion\<close> finds a rule exactly when it is violated, also for a rule that names \<open>self\<close> and other
  targets if it has no extended permissions.
\<close>

theorem check_assertion_decides:
  assumes "assert_ready p" "rule_ready r" "self_and_targets r \<longrightarrow> ar_specified r \<noteq> AVRULE_XPERMS_NEVERALLOW"
  shows "case check_assertion p r h of Inl e \<Rightarrow> \<not> mem_ok h | Inr (b, h') \<Rightarrow> b \<longleftrightarrow> violated p r"
proof -
  have "rule_found p r \<longleftrightarrow> violated p r"
    using assms(3) forbidden_reported [of r, OF _ assms(2)] by (auto simp: found_iff violated_def breaks_def)
  then show ?thesis using check_assertion_found [OF assms(1,2), of h] by (auto simp: outcome_def split: sum.splits)
qed

lemma sample_gap_found: "check_assertion sample_policy (fork_rule RULE_SELF 2 (bitmap_of 1)) [] = Inr (True, [])"
  by code_simp

theorem check_assertion_decides_witness: "violated sample_policy (fork_rule RULE_SELF 2 (bitmap_of 1))"
  using check_assertion_decides [OF sample_assert_ready, of "fork_rule RULE_SELF 2 (bitmap_of 1)" "[]"]
  by (simp add: sample_fork_rules sample_gap_found) (simp add: fork_rule_def)

text \<open>
  C11: Gap. A rule that names \<open>self\<close> and other targets is found when an allow rule violates it for one of
  the targets, but the report drops the pairs of different types: if there is no violation for \<open>self\<close>, \<open>check_assertions\<close>
  counts no failure and accepts the policy.
\<close>

theorem check_assertions_self_gap:
  assumes "assert_ready p" "rule_ready r" "self_and_targets r" "mem_ok h"
    and "violated p r" "\<forall>i. \<not> breaks p r i i"
  shows "(ar_specified r \<noteq> AVRULE_XPERMS_NEVERALLOW \<longrightarrow> (\<exists>h'. check_assertion p r h = Inr (True, h'))) \<and>
    (\<exists>h'. check_assertions p [r] h = Inr h')"
proof -
  have s: "is_avrule_self r" "\<not> is_avrule_notself r"
    using assms(2,3) by (auto simp: rule_ready_def self_and_targets_def is_avrule_self_def is_avrule_notself_def)
  have "failures p r = 0"
    using failures_pos [OF assms(1,2)] assms(6) s by (auto simp: reported_def)
  then have t: "total_failures p [r] = 0" by (simp add: total_failures_def)
  then have "\<exists>h'. check_assertions p [r] h = Inr h'"
    using check_assertions_total [OF assms(1), of "[r]" h] assms(2,4) by (cases "check_assertions p [r] h") auto
  moreover have "\<exists>h'. check_assertion p r h = Inr (True, h')" if "ar_specified r \<noteq> AVRULE_XPERMS_NEVERALLOW"
    using check_assertion_found [OF assms(1,2), of h] that assms(4,5) found_iff [of p r]
    by (cases "check_assertion p r h") (auto simp: violated_def)
  ultimately show ?thesis by blast
qed

theorem check_assertions_self_gap_witness:
  "\<exists>h'. check_assertions sample_policy [fork_rule RULE_SELF 2 (bitmap_of 1)] [] = Inr h'"
proof -
  let ?r = "fork_rule RULE_SELF 2 (bitmap_of 1)"
  have a: "ar_specified ?r \<noteq> AVRULE_XPERMS_NEVERALLOW" by (simp add: fork_rule_def)
  have "rule_found sample_policy ?r"
    using check_assertion_found [OF sample_assert_ready sample_fork_rules(5), of "[]"] by (simp add: sample_gap_found)
  then have v: "violated sample_policy ?r" using a by (auto simp: found_iff violated_def)
  have "failures sample_policy ?r = 0" by (simp add: sample_count)
  moreover have "reported ?r i i" for i
    by (simp add: reported_def fork_rule_def is_avrule_self_def is_avrule_notself_def)
  ultimately have "\<forall>i. \<not> breaks sample_policy ?r i i"
    using failures_pos [OF sample_assert_ready sample_fork_rules(5)] by auto
  from check_assertions_self_gap [OF sample_assert_ready sample_fork_rules(5,6) _ v this, of "[]"] show ?thesis by simp
qed

end
