(* ===== verification/Spec2Isabelle.thy ===== *)
theory Spec2Isabelle
  imports Ebitmap_Ranges Ebitmap_IO Symtab Avtab_IO Conditional_Rules Server Optimize_Access Validate_Sound Assertion_Sound
begin

text \<open>
  A verification library for \<open>libsepol\<close>, the C library that reads, checks, transforms and answers questions about
  SELinux policies (\<open>src/crates/policy/libsepol\<close>). File names below are relative to its directory \<open>src\<close>, or to
  \<open>include/sepol/policydb\<close> for headers.

  \<^bold>\<open>The program.\<close> A policy is a database (\<open>policydb_t\<close>): symbol tables of classes, roles, types, users,
  booleans, sensitivities and categories, a table of type enforcement rules, conditional rules switched by
  booleans, constraints, transition rules and the labels of objects. The security server (\<open>services.c\<close>) keeps one
  policy and a table of security identifiers (SIDs) for contexts, and answers requests: what a subject may do,
  which label a new object gets, whether a transition is valid. The same database is validated, optimised, and
  checked against hierarchy constraints and neverallow rules before it is used.

  \<^bold>\<open>Modelling.\<close> Integers keep their C width. A structure is a record, a linked list or an array is a list, a
  pointer that may be \<open>NULL\<close> is an option; a datum that is reached through two pointers is copied where the code
  does not change it, and where it does the model says how both are kept equal. A pointer to a node of the
  table of conditional rules is a slot and a position in its chain. An error is a value of \<open>errcode + 'a\<close>. Every allocation takes its
  outcome from a list of booleans (\<open>heap\<close>), so every theorem over an arbitrary heap covers
  every pattern of allocation failures. Reading outside an array is undefined in C; the theorems assume the sizes
  that rule it out, and \<open>Validate_Sound\<close> shows which of them the validation enforces. Messages (\<open>ERR\<close>, \<open>WARN\<close>) and
  functions that only free memory are left out.

  \<^bold>\<open>The theories\<close>, bottom up.

  \<^item> \<open>Prelude\<close>: error codes, the heap and the contract \<open>outcome\<close> of allocating operations, facts about words.

  \<^item> \<open>Ebitmap\<close>, \<open>Ebitmap_Ranges\<close> (\<open>ebitmap.c\<close>, \<open>ebitmap.h\<close>): the sorted chunk lists behind every set of the database.
  A bitmap is abstracted to a set of numbers; each operation is shown to be the set operation on every heap, the loops
  over bit positions to end, or for \<open>ebitmap_not\<close> near the end of the range not to. \<open>Ebitmap_IO\<close>, with \<open>Policy_File\<close>
  (\<open>services.c\<close>, \<open>private.h\<close>), is the binary form: what is accepted is well formed, what is written is read back.

  \<^item> \<open>Hashtab\<close> (\<open>hashtab.c\<close>) proves the hash table once for a locale \<open>key_order\<close> of hash and comparison functions and
  states what a table promises as the locale \<open>lookup_table\<close>; \<open>Symtab\<close> (\<open>symtab.c\<close>, \<open>policydb.c\<close>) interprets
  both for symbol tables, file name transitions and range transitions, \<open>Sidtab\<close> the first for its hash of SIDs.

  \<^item> \<open>Avtab\<close>, \<open>Avtab_IO\<close> (\<open>avtab.c\<close>, \<open>write.c\<close>): the table of rules as a list of rules in the order of keys; insertion, search, the loop
  over all rules of a key, the round trip of the binary form.

  \<^item> \<open>Mls_Types\<close> (\<open>mls_types.h\<close>; the locale \<open>dominance\<close> is interpreted for levels), \<open>Context\<close> (\<open>context.h\<close>), \<open>Policydb\<close> (\<open>policydb.h\<close>,
  \<open>constraint.h\<close>, \<open>conditional.h\<close>): the data of a policy. \<open>Mls\<close>, \<open>Mls_Text\<close>, \<open>Mls_Range\<close> (\<open>mls.c\<close>) and
  \<open>Context_Text\<close> (\<open>context.c\<close>, \<open>context_record.c\<close>): ranges and contexts, their text and its length.

  \<^item> \<open>Conditional\<close>, \<open>Conditional_Rules\<close> (\<open>conditional.c\<close>): evaluation of the postfix expressions against formulas, their
  normalisation and comparison, and which rules are enabled.

  \<^item> \<open>Access\<close> (\<open>services.c\<close>): constraints and access vectors, refined to a specification of what is permitted.
  \<open>Sidtab\<close> (\<open>sidtab.c\<close>), \<open>Services\<close>, \<open>Object_Labels\<close>, \<open>Reload\<close> and \<open>Server\<close> (\<open>services.c\<close>): the requests of the server,
  its state, the reload of a policy. \<open>Server\<close> composes them to a transition system (\<open>request\<close>, \<open>step\<close>) and proves its invariants by induction over the steps.

  \<^item> \<open>Optimize\<close>, \<open>Optimize_Rules\<close>, \<open>Optimize_Access\<close> (\<open>optimize.c\<close>): the removal of redundant rules keeps what the rules
  give to every query and every access decision.

  \<^item> \<open>Hierarchy\<close>, \<open>Hierarchy_Bounds\<close>, \<open>Hierarchy_Sound\<close> (\<open>hierarchy.c\<close>): the check of bounded types, roles and users, and
  the bounds from dotted names (the locale \<open>bounds_kind\<close> and its three interpretations).

  \<^item> \<open>Validate\<close>, \<open>Validate_Expr\<close>, \<open>Validate_Sound\<close> (\<open>policydb_validate.c\<close>): the validation of a policy and what an accepted
  policy guarantees; this discharges hypotheses of the theories above.

  \<^item> \<open>Assertion\<close>, \<open>Assertion_Sound\<close> (\<open>assertion.c\<close>): the check of neverallow rules.

  \<^item> \<open>Sample_Policy\<close>, \<open>Sample_Server\<close>: the concrete policy and server on which the theorems are applied in their witnesses.

  \<^bold>\<open>Bounds and fuel.\<close> Most recursions are structural or have a measure. \<open>ebitmap_not\<close> is a partial function, as it
  need not return. The walk up the bounds of a type in \<open>context_struct_compute_av\<close> recurses in the code without
  a bound of its own; the model limits the depth, and the theorem states that a depth above the rank of the type is enough, for any ranks that
  decrease along the bounds, so that there is no cycle. The constraint evaluator has a stack of five cells and that of conditional expressions one of
  ten, as in the code; the theorems say which formulas fit. Counters that an
  \<open>int\<close> or \<open>unsigned\<close> holds are bounded by hypotheses where they could wrap.

  \<^bold>\<open>Not modelled.\<close> The reader and index functions of \<open>policydb.c\<close> (the policy that \<open>sepol_load_policy\<close> reads is
  an argument; \<open>read_shape\<close> states what the reader builds), the writers of \<open>write.c\<close> other than those of bitmaps
  and rules, the expander, the linker and module packages, the decompilers to CIL and to policy language, the records
  of the management library, the CIL compiler, and the Rust crates, which are bindings.
\<close>

end
